(* ===== verification/PHP_Prelude.thy ===== *)
theory PHP_Prelude
  imports Main "HOL-Library.Word" "HOL-Library.Multiset"
begin

section \<open>Shared types, automation and lemmas\<close>

text \<open>
  What the components share: the machine-integer types of the C code, the error values
  of the model, the sum-type bind, the chain predicate for singly linked index lists, and
  the list lemmas the component proofs use.  The collections \<open>bounds\<close> (facts that move
  an index into range) and \<open>c_defs\<close> (one-line helper definitions that are always
  unfolded) are filled by the component theories.
\<close>

unbundle bit_operations_syntax

named_theorems bounds "facts that bound an index or a counter"
named_theorems c_defs "helper definitions that proofs always unfold"

type_synonym u8 = "8 word"
type_synonym u32 = "32 word"
type_synonym u64 = "64 word"
type_synonym bytes = "8 word list"

subsection \<open>Errors as values\<close>

text \<open>
  \<open>E_ERROR\<close> is a call of \<open>zend_error_noreturn(E_ERROR, ...)\<close>.  \<open>UB\<close> is the value of
  a run that leaves the memory the model knows or that does not return.
\<close>

datatype zerr = E_ERROR | UB

type_synonym 'a res = "zerr + 'a"

definition rbind :: "'a res \<Rightarrow> ('a \<Rightarrow> 'b res) \<Rightarrow> 'b res" where
  "rbind m f = (case m of Inl e \<Rightarrow> Inl e | Inr x \<Rightarrow> f x)"

lemma rbind_simps [simp]: "rbind (Inl e) f = Inl e" "rbind (Inr x) f = f x"
  by (simp_all add: rbind_def)

lemma rbind_InrE:
  assumes "rbind m f = Inr y"
  obtains x where "m = Inr x" "f x = Inr y"
  using assms by (cases m) auto

text \<open>A loop over a list whose body may fail.\<close>

fun fold_res :: "('a \<Rightarrow> 's \<Rightarrow> 's res) \<Rightarrow> 'a list \<Rightarrow> 's \<Rightarrow> 's res" where
  "fold_res f [] s = Inr s"
| "fold_res f (x # xs) s = rbind (f x s) (fold_res f xs)"

lemma fold_res_append: "fold_res f (xs @ ys) s = rbind (fold_res f xs s) (fold_res f ys)"
proof (induction xs arbitrary: s)
  case (Cons x xs)
  then show ?case by (cases "f x s") simp_all
qed simp

lemma fold_res_map: "fold_res f (map g xs) s = fold_res (f \<circ> g) xs s"
proof (induction xs arbitrary: s)
  case (Cons x xs)
  then show ?case by (cases "f (g x) s") simp_all
qed simp

text \<open>Elements for which the body does nothing can be left out.\<close>

lemma fold_res_filter:
  assumes "\<And>x s. \<not> P x \<Longrightarrow> f x s = Inr s"
  shows "fold_res f xs s = fold_res f (filter P xs) s"
proof (induction xs arbitrary: s)
  case (Cons x xs)
  show ?case
  proof (cases "P x")
    case True
    with Cons show ?thesis by (cases "f x s") simp_all
  next
    case False
    with assms Cons show ?thesis by simp
  qed
qed simp

subsection \<open>Index chains\<close>

text \<open>
  \<open>chain nil nx i is\<close>: starting at index \<open>i\<close> and following \<open>nx\<close>, the indices \<open>is\<close>
  are visited in order and then \<open>nil\<close> is reached.
\<close>

fun chain :: "nat \<Rightarrow> (nat \<Rightarrow> nat) \<Rightarrow> nat \<Rightarrow> nat list \<Rightarrow> bool" where
  "chain nil nx i [] = (i = nil)"
| "chain nil nx i (a # as) = (i = a \<and> a \<noteq> nil \<and> chain nil nx (nx a) as)"

lemma chain_fun_upd [simp]:
  "a \<notin> set is \<Longrightarrow> chain nil (nx(a := v)) i is = chain nil nx i is"
  by (induction "is" arbitrary: i) auto

lemma chain_cong:
  assumes "\<And>a. a \<in> set is \<Longrightarrow> nx a = nx' a"
  shows "chain nil nx i is = chain nil nx' i is"
  using assms by (induction "is" arbitrary: i) auto

lemma chain_not_nil: "chain nil nx i is \<Longrightarrow> nil \<notin> set is"
  by (induction "is" arbitrary: i) auto

lemma chain_unique: "chain nil nx i is \<Longrightarrow> chain nil nx i js \<Longrightarrow> is = js"
proof (induction "is" arbitrary: i js)
  case Nil
  then show ?case by (cases js) auto
next
  case (Cons a as)
  then show ?case by (cases js) auto
qed

lemma chain_append:
  "chain nil nx i (as @ b # bs) \<Longrightarrow> b \<noteq> nil \<and> chain nil nx b (b # bs)"
  by (induction as arbitrary: i) auto

text \<open>Unlinking an inner element \<open>b\<close> by redirecting its predecessor \<open>a\<close>.\<close>

lemma chain_unlink:
  assumes "chain nil nx i (as @ a # b # bs)" "distinct (as @ a # b # bs)"
  shows "chain nil (nx(a := nx b)) i (as @ a # bs)"
  using assms
proof (induction as arbitrary: i)
  case Nil
  then have "chain nil nx (nx b) bs" "a \<notin> set bs" by auto
  then have "chain nil (nx(a := nx b)) (nx b) bs" by (metis chain_fun_upd)
  moreover have "(nx(a := nx b)) a = nx b" by simp
  moreover have "i = a" "a \<noteq> nil" using Nil by auto
  ultimately show ?case by (simp only: append_Nil chain.simps) simp
next
  case (Cons c as)
  then show ?case by auto
qed

subsection \<open>Words\<close>

lemma unat_2p:
  assumes "n < LENGTH('a)"
  shows "unat ((2 :: 'a::len word) ^ n) = 2 ^ n"
proof -
  have "(2 :: 'a word) ^ n = word_of_nat (2 ^ n)" by simp
  moreover have "(2 :: nat) ^ n < 2 ^ LENGTH('a)" using assms by simp
  ultimately show ?thesis by (simp add: unsigned_of_nat take_bit_nat_eq_self del: of_nat_power)
qed

subsection \<open>Lists\<close>

lemma find_append:
  "find P (xs @ ys) = (case find P xs of None \<Rightarrow> find P ys | Some x \<Rightarrow> Some x)"
  by (induction xs) auto

lemma find_cong_set: "(\<And>x. x \<in> set xs \<Longrightarrow> P x = Q x) \<Longrightarrow> find P xs = find Q xs"
  by (induction xs) auto

lemma find_unique:
  assumes "x \<in> set xs" "P x" "\<forall>y \<in> set xs. P y \<longrightarrow> y = x"
  shows "find P xs = Some x"
proof (cases "find P xs")
  case None
  then have "\<not> (\<exists>x. x \<in> set xs \<and> P x)" by (simp only: find_None_iff simp_thms)
  with assms(1,2) show ?thesis by blast
next
  case (Some y)
  then have "y \<in> set xs" "P y" by (metis find_Some_iff nth_mem)+
  with assms(3) Some show ?thesis by blast
qed

lemma find_None: "(\<And>x. x \<in> set xs \<Longrightarrow> \<not> P x) \<Longrightarrow> find P xs = None"
  by (induction xs) auto

lemma filter_upt_Suc:
  "filter P [0..<Suc n] = filter P [0..<n] @ (if P n then [n] else [])"
  by simp

lemma nth_append_replicate:
  "i < length xs \<Longrightarrow> (xs @ ys) ! i = xs ! i"
  by (simp add: nth_append)

lemma take_nth_upd_ge: "n \<le> i \<Longrightarrow> take n (xs[i := x]) = take n xs"
  by simp

lemma take_Suc_upd: "n < length xs \<Longrightarrow> take (Suc n) (xs[n := x]) = take n xs @ [x]"
  by (simp add: take_Suc_conv_app_nth)

lemma map_filter_take_conv:
  "n \<le> length xs \<Longrightarrow>
   filter P (take n xs) = map (\<lambda>i. xs ! i) (filter (\<lambda>i. P (xs ! i)) [0..<n])"
proof (induction n)
  case 0
  then show ?case by simp
next
  case (Suc n)
  then show ?case by (simp add: take_Suc_conv_app_nth)
qed

lemma sorted_rev_filter_upt: "sorted_wrt (>) (rev (filter P [0..<n]))"
proof -
  have "sorted_wrt (<) (filter P [0..<n])"
    by (rule sorted_wrt_filter) (simp add: sorted_wrt_upt)
  then show ?thesis by (simp add: sorted_wrt_rev)
qed

end
