(* ===== verification/Zend_String.thy ===== *)
theory Zend_String
  imports PHP_Prelude
begin

section \<open>Strings and the string hash (Zend/zend\_string.h, Zend/zend\_string.c)\<close>

text \<open>
  A \<open>zend_string\<close> is its address, the cached hash (0 when not computed), the bytes and the
  interned flag; the length is the length of the byte list.  The hash is the unrolled
  DJBX33A loop of \<open>zend_inline_hash_func\<close>; plain \<open>char\<close> is signed, as on the x86 ABIs
  the engine is built for, so a byte is sign-extended before it is added.
\<close>

record zend_string =
  zs_ptr :: nat
  zs_h :: u64
  zs_val :: bytes
  zs_interned :: bool

definition ZSTR_LEN :: "zend_string \<Rightarrow> nat" where
  "ZSTR_LEN s = length (zs_val s)"

subsection \<open>The hash function\<close>

definition hash_step :: "u64 \<Rightarrow> u8 \<Rightarrow> u64" where
  "hash_step hash c = (push_bit 5 hash + hash) + word_of_int (sint c)"

text \<open>
  \<open>for (; len >= 8; len -= 8)\<close> with eight copies of the step; the state is the hash and the
  rest of the string.
\<close>

fun hash_loop8 :: "u64 \<Rightarrow> bytes \<Rightarrow> u64 \<times> bytes" where
  "hash_loop8 h (a # b # c # d # e # f # g # i # str) =
     (let h = hash_step h a; h = hash_step h b; h = hash_step h c; h = hash_step h d;
          h = hash_step h e; h = hash_step h f; h = hash_step h g; h = hash_step h i
      in hash_loop8 h str)"
| "hash_loop8 h str = (h, str)"

text \<open>The \<open>switch (len)\<close>: each case takes one byte and falls through into the next.\<close>

fun hash_switch :: "u64 \<Rightarrow> bytes \<Rightarrow> u64" where
  "hash_switch h [] = h"
| "hash_switch h (c # str) = hash_switch (hash_step h c) str"

definition zend_inline_hash_func :: "bytes \<Rightarrow> u64" where
  "zend_inline_hash_func str =
     (let (h, rest) = hash_loop8 5381 str; h = hash_switch h rest
      in h OR 0x8000000000000000)"

definition zend_hash_func :: "bytes \<Rightarrow> u64" where
  "zend_hash_func str = zend_inline_hash_func str"

text \<open>\<open>zend_string_hash_func\<close> stores the hash in the string and returns it.\<close>

definition zend_string_hash_func :: "zend_string \<Rightarrow> u64 \<times> zend_string" where
  "zend_string_hash_func s =
     (let h = zend_hash_func (zs_val s) in (h, s\<lparr>zs_h := h\<rparr>))"

definition zend_string_hash_val :: "zend_string \<Rightarrow> u64 \<times> zend_string" where
  "zend_string_hash_val s = (if zs_h s \<noteq> 0 then (zs_h s, s) else zend_string_hash_func s)"

definition zend_string_forget_hash_val :: "zend_string \<Rightarrow> zend_string" where
  "zend_string_forget_hash_val s = s\<lparr>zs_h := 0\<rparr>"

definition zend_string_equal_val :: "zend_string \<Rightarrow> zend_string \<Rightarrow> bool" where
  "zend_string_equal_val s1 s2 =
     (take (ZSTR_LEN s1) (zs_val s1) = take (ZSTR_LEN s1) (zs_val s2))"

definition zend_string_equal_content :: "zend_string \<Rightarrow> zend_string \<Rightarrow> bool" where
  "zend_string_equal_content s1 s2 =
     (ZSTR_LEN s1 = ZSTR_LEN s2 \<and> zend_string_equal_val s1 s2)"

definition zend_string_equals :: "zend_string \<Rightarrow> zend_string \<Rightarrow> bool" where
  "zend_string_equals s1 s2 = (zs_ptr s1 = zs_ptr s2 \<or> zend_string_equal_content s1 s2)"

text \<open>\<open>zend_string_init\<close>: a new string at a fresh address, its hash not yet computed.\<close>

definition zend_string_init :: "nat \<Rightarrow> bytes \<Rightarrow> zend_string" where
  "zend_string_init addr str = \<lparr>zs_ptr = addr, zs_h = 0, zs_val = str, zs_interned = False\<rparr>"

subsection \<open>Lemmas\<close>

lemma hash_switch_foldl: "hash_switch h str = foldl hash_step h str"
  by (induction h str rule: hash_switch.induct) auto

lemma hash_loop8_foldl:
  "(case hash_loop8 h str of (h', rest) \<Rightarrow> foldl hash_step h' rest) = foldl hash_step h str"
  by (induction h str rule: hash_loop8.induct) (auto simp: Let_def)

lemma hash_loop8_rest: "length (snd (hash_loop8 h str)) = length str mod 8"
  by (induction h str rule: hash_loop8.induct) (auto simp: Let_def mod_simps)

lemma zend_inline_hash_func_foldl:
  "zend_inline_hash_func str = foldl hash_step 5381 str OR 0x8000000000000000"
  using hash_loop8_foldl [of 5381 str]
  by (simp add: zend_inline_hash_func_def hash_switch_foldl split: prod.splits)

lemma hash_step_33: "hash_step h c = 33 * h + word_of_int (sint c)"
  by (simp add: hash_step_def push_bit_eq_mult algebra_simps)

lemma bit_63_hash: "bit (zend_inline_hash_func str) 63"
proof -
  have "bit (0x8000000000000000 :: u64) 63" by simp
  then show ?thesis by (simp add: zend_inline_hash_func_foldl bit_or_iff)
qed

lemma zend_hash_func_nonzero: "zend_hash_func str \<noteq> 0"
  using bit_63_hash [of str] by (auto simp: zend_hash_func_def)

lemma zend_string_equal_content_iff [simp]:
  "zend_string_equal_content s1 s2 \<longleftrightarrow> zs_val s1 = zs_val s2"
  by (auto simp: zend_string_equal_content_def zend_string_equal_val_def ZSTR_LEN_def)

text \<open>A string whose cached hash, if any, is the hash of its bytes.\<close>

definition zs_ok :: "zend_string \<Rightarrow> bool" where
  "zs_ok s \<longleftrightarrow> zs_h s = 0 \<or> zs_h s = zend_hash_func (zs_val s)"

lemma zend_string_hash_val_ok:
  assumes "zs_ok s"
  shows "fst (zend_string_hash_val s) = zend_hash_func (zs_val s)"
    and "snd (zend_string_hash_val s) = s\<lparr>zs_h := zend_hash_func (zs_val s)\<rparr>"
  using assms
  by (auto simp: zs_ok_def zend_string_hash_val_def zend_string_hash_func_def Let_def)

lemma zend_string_hash_val_snd [simp]:
  "zs_val (snd (zend_string_hash_val s)) = zs_val s"
  "zs_ptr (snd (zend_string_hash_val s)) = zs_ptr s"
  "zs_interned (snd (zend_string_hash_val s)) = zs_interned s"
  "zs_h (snd (zend_string_hash_val s)) = fst (zend_string_hash_val s)"
  by (auto simp: zend_string_hash_val_def zend_string_hash_func_def Let_def)

end
