(* ===== verification/Zend_Hash.thy ===== *)
theory Zend_Hash
  imports Zend_String
begin

section \<open>HashTable: data, memory layout, growth (Zend/zend\_hash.c, Zend/zend\_types.h)\<close>

text \<open>
  The engine's ordered hash table.  A table is one memory block: \<open>-nTableMask\<close> chain heads
  (\<open>ht_hash\<close>, the \<open>uint32_t\<close> words below \<open>arData\<close>) and \<open>nTableSize\<close> buckets
  (\<open>arData\<close>), of which the first \<open>nNumUsed\<close> are in use, in insertion order, deleted ones
  marked \<open>IS_UNDEF\<close>.  A bucket's \<open>b_next\<close> (\<open>Z_NEXT\<close>) links it to the next bucket of its
  collision chain.  A packed table has no chains: the bucket of integer key \<open>h\<close> is number \<open>h\<close>.

  Modelled for the 64-bit build (\<open>HT_IDX_TO_HASH\<close> is the identity, \<open>HT_MAX_SIZE\<close> is
  \<open>0x80000000\<close>), release mode (\<open>IS_CONSISTENT\<close> and the asserts are empty).  The counters
  and indices are \<open>uint32_t\<close> in C and \<open>nat\<close> here, with the reduction modulo \<open>2 ^ 32\<close> written
  at every place where no guard of the code excludes a wrap; hashes, integer keys and masks
  are words.  The flag bits are booleans; the iterator count is the 8-bit field it is.
\<close>

subsection \<open>Values, buckets, tables\<close>

text \<open>
  A \<open>zval\<close>: undefined, null, a pointer to another zval slot, or any other value.
\<close>

datatype 'v zval = IS_UNDEF | IS_NULL | IS_INDIRECT nat | IS_VAL 'v

record 'v bucket =
  b_val :: "'v zval"
  b_next :: nat
  b_h :: u64
  b_key :: "zend_string option"

record 'v HashTable =
  ht_addr :: nat
  ht_packed :: bool
  ht_initialized :: bool
  ht_static_keys :: bool
  ht_has_empty_ind :: bool
  nIteratorsCount :: u8
  nTableMask :: u32
  ht_hash :: "nat list"
  arData :: "'v bucket list"
  nNumUsed :: nat
  nNumOfElements :: nat
  nTableSize :: nat
  nInternalPointer :: nat
  nNextFreeElement :: u64
  pDestructor :: bool

text \<open>
  What the operations touch outside the table: the zval slots \<open>IS_INDIRECT\<close> values point to,
  the request's iterators (\<open>EG(ht_iterators)\<close>, of which the first \<open>e_iters_used\<close> may be
  active), the log of calls to the value destructor and to the reference counts of the keys
  (given by their address), the next fresh string address, and what freshly allocated memory happens to hold.
  The log also has the freeing of a table's data and, where a table itself is destroyed, its removal
  from the buffer of the cycle collector (\<open>GC_REMOVE_FROM_BUFFER\<close>) and its freeing (\<open>FREE_HASHTABLE\<close>).
\<close>

datatype itref = It_NULL | It_POISONED | It_HT nat

record iterator =
  it_ht :: itref
  it_pos :: nat

datatype 'v effect = Dtor "'v zval" | Addref nat | Release nat | Free_data | Gc_unbuffer | Free_table

record 'v env =
  e_slots :: "nat \<Rightarrow> 'v zval"
  e_iters :: "iterator list"
  e_iters_used :: nat
  e_log :: "'v effect list"
  e_fresh :: nat
  e_junk :: "nat \<Rightarrow> 'v bucket"
  e_junk_hash :: "nat \<Rightarrow> nat"

definition log_effect :: "'v effect \<Rightarrow> 'v env \<Rightarrow> 'v env" where
  "log_effect x e = e\<lparr>e_log := e_log e @ [x]\<rparr>"

definition Z_ISUNDEF :: "'v bucket \<Rightarrow> bool" where
  "Z_ISUNDEF p = (b_val p = IS_UNDEF)"

subsection \<open>The layout macros\<close>

definition HT_INVALID_IDX :: nat where "HT_INVALID_IDX = 4294967295"
definition HT_MIN_MASK :: u32 where "HT_MIN_MASK = - 2"
definition HT_MIN_SIZE :: nat where "HT_MIN_SIZE = 8"
definition HT_MAX_SIZE :: nat where "HT_MAX_SIZE = 2147483648"

definition HT_SIZE_TO_MASK :: "nat \<Rightarrow> u32" where
  "HT_SIZE_TO_MASK n = - (of_nat n + of_nat n)"

text \<open>The number of chain heads a mask stands for (\<open>HT_HASH_SIZE\<close> in words).\<close>

definition HT_HASH_SIZE :: "u32 \<Rightarrow> nat" where
  "HT_HASH_SIZE m = unat (- m)"

text \<open>
  \<open>nIndex = h | ht->nTableMask\<close>, cut to 32 bits.  Read as a negative number it is an offset
  below \<open>arData\<close>; counted from the start of the block it is \<open>nIndex - nTableMask\<close>.
\<close>

definition ht_nIndex :: "'v HashTable \<Rightarrow> u64 \<Rightarrow> u32" where
  "ht_nIndex ht h = ucast h OR nTableMask ht"

definition HT_HASH_pos :: "'v HashTable \<Rightarrow> u32 \<Rightarrow> nat" where
  "HT_HASH_pos ht nIndex = unat (nIndex - nTableMask ht)"

definition HT_HASH :: "'v HashTable \<Rightarrow> u32 \<Rightarrow> nat" where
  "HT_HASH ht nIndex = ht_hash ht ! HT_HASH_pos ht nIndex"

definition HT_HASH_set :: "'v HashTable \<Rightarrow> u32 \<Rightarrow> nat \<Rightarrow> 'v HashTable" where
  "HT_HASH_set ht nIndex v = ht\<lparr>ht_hash := (ht_hash ht)[HT_HASH_pos ht nIndex := v]\<rparr>"

definition HT_HASH_RESET :: "'v HashTable \<Rightarrow> 'v HashTable" where
  "HT_HASH_RESET ht = ht\<lparr>ht_hash := replicate (HT_HASH_SIZE (nTableMask ht)) HT_INVALID_IDX\<rparr>"

definition HT_HASH_RESET_PACKED :: "'v HashTable \<Rightarrow> 'v HashTable" where
  "HT_HASH_RESET_PACKED ht = HT_HASH_set (HT_HASH_set ht (- 2) HT_INVALID_IDX) (- 1) HT_INVALID_IDX"

definition HT_IS_WITHOUT_HOLES :: "'v HashTable \<Rightarrow> bool" where
  "HT_IS_WITHOUT_HOLES ht = (nNumUsed ht = nNumOfElements ht)"

definition HT_HAS_STATIC_KEYS_ONLY :: "'v HashTable \<Rightarrow> bool" where
  "HT_HAS_STATIC_KEYS_ONLY ht = (ht_packed ht \<or> ht_static_keys ht)"

definition HT_HAS_ITERATORS :: "'v HashTable \<Rightarrow> bool" where
  "HT_HAS_ITERATORS ht = (nIteratorsCount ht \<noteq> 0)"

definition HT_ITERATORS_OVERFLOW :: "'v HashTable \<Rightarrow> bool" where
  "HT_ITERATORS_OVERFLOW ht = (nIteratorsCount ht = 0xff)"

text \<open>Memory: fresh blocks, and a grown block that keeps the first \<open>n\<close> buckets.\<close>

definition alloc_hash :: "'v env \<Rightarrow> u32 \<Rightarrow> nat list" where
  "alloc_hash e m = map (e_junk_hash e) [0..<HT_HASH_SIZE m]"

definition alloc_buckets :: "'v env \<Rightarrow> nat \<Rightarrow> 'v bucket list" where
  "alloc_buckets e n = map (e_junk e) [0..<n]"

definition realloc_buckets :: "'v env \<Rightarrow> 'v bucket list \<Rightarrow> nat \<Rightarrow> nat \<Rightarrow> 'v bucket list" where
  "realloc_buckets e old n sz = take n old @ map (e_junk e) [n..<sz]"

definition upd_bucket :: "nat \<Rightarrow> ('v bucket \<Rightarrow> 'v bucket) \<Rightarrow> 'v HashTable \<Rightarrow> 'v HashTable" where
  "upd_bucket i f ht = ht\<lparr>arData := (arData ht)[i := f (arData ht ! i)]\<rparr>"

subsection \<open>Initialisation\<close>

text \<open>The portable branch of \<open>zend_hash_check_size\<close>, the one without a compiler builtin.\<close>

definition zend_hash_check_size :: "nat \<Rightarrow> nat res" where
  "zend_hash_check_size nSize =
     (if nSize \<le> HT_MIN_SIZE then Inr HT_MIN_SIZE
      else if nSize \<ge> HT_MAX_SIZE then Inl E_ERROR
      else
        let n = (of_nat nSize :: u32) - 1;
            n = n OR drop_bit 1 n;
            n = n OR drop_bit 2 n;
            n = n OR drop_bit 4 n;
            n = n OR drop_bit 8 n;
            n = n OR drop_bit 16 n
        in Inr (unat (n + 1)))"

definition zend_hash_real_init_packed_ex :: "'v env \<Rightarrow> 'v HashTable \<Rightarrow> 'v HashTable" where
  "zend_hash_real_init_packed_ex e ht =
     (let ht = ht\<lparr>ht_hash := alloc_hash e HT_MIN_MASK, arData := alloc_buckets e (nTableSize ht)\<rparr>;
          ht = ht\<lparr>ht_initialized := True, ht_packed := True\<rparr>
      in HT_HASH_RESET_PACKED ht)"

definition zend_hash_real_init_mixed_ex :: "'v env \<Rightarrow> 'v HashTable \<Rightarrow> 'v HashTable" where
  "zend_hash_real_init_mixed_ex e ht =
     (let nSize = nTableSize ht;
          ht = ht\<lparr>nTableMask := HT_SIZE_TO_MASK nSize\<rparr>;
          ht = ht\<lparr>ht_hash := alloc_hash e (HT_SIZE_TO_MASK nSize), arData := alloc_buckets e nSize\<rparr>;
          ht = ht\<lparr>ht_initialized := True\<rparr>
      in if nTableMask ht = HT_SIZE_TO_MASK HT_MIN_SIZE
         then fold (\<lambda>i ht. HT_HASH_set ht i HT_INVALID_IDX)
                [-16, -15, -14, -13, -12, -11, -10, -9, -8, -7, -6, -5, -4, -3, -2, -1] ht
         else HT_HASH_RESET ht)"

definition zend_hash_real_init_ex :: "'v env \<Rightarrow> 'v HashTable \<Rightarrow> bool \<Rightarrow> 'v HashTable" where
  "zend_hash_real_init_ex e ht packed =
     (if packed then zend_hash_real_init_packed_ex e ht else zend_hash_real_init_mixed_ex e ht)"

definition uninitialized_bucket :: "nat list" where
  "uninitialized_bucket = [HT_INVALID_IDX, HT_INVALID_IDX]"

definition zend_hash_init_int :: "nat \<Rightarrow> nat \<Rightarrow> bool \<Rightarrow> 'v HashTable res" where
  "zend_hash_init_int addr nSize dtor =
     rbind (zend_hash_check_size nSize) (\<lambda>sz. Inr
       \<lparr>ht_addr = addr, ht_packed = False, ht_initialized = False, ht_static_keys = True,
        ht_has_empty_ind = False, nIteratorsCount = 0, nTableMask = HT_MIN_MASK,
        ht_hash = uninitialized_bucket, arData = [], nNumUsed = 0, nNumOfElements = 0,
        nTableSize = sz, nInternalPointer = 0, nNextFreeElement = 0, pDestructor = dtor\<rparr>)"

text \<open>\<open>_zend_hash_init\<close>, and the two allocators, whose destructor is \<open>ZVAL_PTR_DTOR\<close>.\<close>

definition zend_hash_init :: "nat \<Rightarrow> nat \<Rightarrow> bool \<Rightarrow> 'v HashTable res" where
  "zend_hash_init addr nSize dtor = zend_hash_init_int addr nSize dtor"

definition zend_new_array_0 :: "nat \<Rightarrow> 'v HashTable res" where
  "zend_new_array_0 addr = zend_hash_init_int addr HT_MIN_SIZE True"

definition zend_new_array :: "nat \<Rightarrow> nat \<Rightarrow> 'v HashTable res" where
  "zend_new_array addr nSize = zend_hash_init_int addr nSize True"

definition zend_hash_real_init :: "'v env \<Rightarrow> 'v HashTable \<Rightarrow> bool \<Rightarrow> 'v HashTable" where
  "zend_hash_real_init e ht packed = zend_hash_real_init_ex e ht packed"

definition zend_hash_real_init_packed :: "'v env \<Rightarrow> 'v HashTable \<Rightarrow> 'v HashTable" where
  "zend_hash_real_init_packed e ht = zend_hash_real_init_packed_ex e ht"

definition zend_hash_real_init_mixed :: "'v env \<Rightarrow> 'v HashTable \<Rightarrow> 'v HashTable" where
  "zend_hash_real_init_mixed e ht = zend_hash_real_init_mixed_ex e ht"

definition zend_hash_packed_grow :: "'v env \<Rightarrow> 'v HashTable \<Rightarrow> 'v HashTable res" where
  "zend_hash_packed_grow e ht =
     (if nTableSize ht \<ge> HT_MAX_SIZE then Inl E_ERROR
      else
        let sz = nTableSize ht + nTableSize ht
        in Inr (ht\<lparr>nTableSize := sz,
                   arData := realloc_buckets e (arData ht) (nNumUsed ht) sz\<rparr>))"

end
