(* ===== verification/Zend_Hash_Iterators.thy ===== *)
theory Zend_Hash_Iterators
  imports Zend_Hash
begin

section \<open>Positions and the request's hash iterators (Zend/zend\_hash.c)\<close>

text \<open>
  Positions are bucket numbers.  An external iterator (a by-reference \<open>foreach\<close>) is a slot of
  \<open>EG(ht_iterators)\<close> holding a table and a position; the table counts its iterators in an
  8-bit field that sticks at \<open>0xff\<close>.
\<close>

subsection \<open>The first and the current position\<close>

function get_first_pos_from :: "'v HashTable \<Rightarrow> nat \<Rightarrow> nat" where
  "get_first_pos_from ht pos =
     (if pos < nNumUsed ht \<and> Z_ISUNDEF (arData ht ! pos)
      then get_first_pos_from ht (pos + 1) else pos)"
  by pat_completeness auto
termination
  by (relation "measure (\<lambda>(ht, pos). nNumUsed ht - pos)") auto

declare get_first_pos_from.simps [simp del]

definition zend_hash_get_first_pos :: "'v HashTable \<Rightarrow> nat" where
  "zend_hash_get_first_pos ht = get_first_pos_from ht 0"

definition zend_hash_get_current_pos :: "'v HashTable \<Rightarrow> nat" where
  "zend_hash_get_current_pos ht =
     (if nInternalPointer ht = 0 then zend_hash_get_first_pos ht else nInternalPointer ht)"

subsection \<open>Adding, reading and deleting an iterator\<close>

definition HT_INC_ITERATORS_COUNT :: "'v HashTable \<Rightarrow> 'v HashTable" where
  "HT_INC_ITERATORS_COUNT ht = ht\<lparr>nIteratorsCount := nIteratorsCount ht + 1\<rparr>"

definition HT_DEC_ITERATORS_COUNT :: "'v HashTable \<Rightarrow> 'v HashTable" where
  "HT_DEC_ITERATORS_COUNT ht = ht\<lparr>nIteratorsCount := nIteratorsCount ht - 1\<rparr>"

text \<open>The scan for a free slot: the first \<open>iter->ht == NULL\<close>.\<close>

fun find_free_iter :: "iterator list \<Rightarrow> nat \<Rightarrow> nat option" where
  "find_free_iter [] idx = None"
| "find_free_iter (iter # iters) idx =
     (if it_ht iter = It_NULL then Some idx else find_free_iter iters (idx + 1))"

definition empty_iter :: iterator where
  "empty_iter = \<lparr>it_ht = It_NULL, it_pos = 0\<rparr>"

definition zend_hash_iterator_add ::
    "'v env \<Rightarrow> 'v HashTable \<Rightarrow> nat \<Rightarrow> nat \<times> 'v env \<times> 'v HashTable" where
  "zend_hash_iterator_add e ht pos =
     (let ht = (if \<not> HT_ITERATORS_OVERFLOW ht then HT_INC_ITERATORS_COUNT ht else ht);
          new = \<lparr>it_ht = It_HT (ht_addr ht), it_pos = pos\<rparr>
      in case find_free_iter (e_iters e) 0 of
           Some idx \<Rightarrow>
             (idx, e\<lparr>e_iters := (e_iters e)[idx := new],
                    e_iters_used := (if idx + 1 > e_iters_used e then idx + 1 else e_iters_used e)\<rparr>,
              ht)
         | None \<Rightarrow>
             (let idx = length (e_iters e)
              in (idx, e\<lparr>e_iters := e_iters e @ new # replicate 7 empty_iter,
                        e_iters_used := idx + 1\<rparr>, ht)))"

text \<open>
  \<open>zend_hash_iterator_pos\<close>: an iterator that does not belong to \<open>ht\<close> is moved to it.  The
  table it belonged to loses one from its count; \<open>tbl\<close> is that other table, when there is one.
  The result is the position, the environment, the table and the other table.
\<close>

definition zend_hash_iterator_pos ::
    "'v env \<Rightarrow> nat \<Rightarrow> 'v HashTable \<Rightarrow> 'v HashTable \<Rightarrow>
     nat \<times> 'v env \<times> 'v HashTable \<times> 'v HashTable" where
  "zend_hash_iterator_pos e idx ht other =
     (let iter = e_iters e ! idx
      in if it_ht iter \<noteq> It_HT (ht_addr ht) then
           let other = (if it_ht iter \<noteq> It_NULL \<and> it_ht iter \<noteq> It_POISONED
                           \<and> \<not> HT_ITERATORS_OVERFLOW other
                        then HT_DEC_ITERATORS_COUNT other else other);
               ht = (if \<not> HT_ITERATORS_OVERFLOW ht then HT_INC_ITERATORS_COUNT ht else ht);
               pos = zend_hash_get_current_pos ht;
               e = e\<lparr>e_iters := (e_iters e)[idx := \<lparr>it_ht = It_HT (ht_addr ht), it_pos = pos\<rparr>]\<rparr>
           in (pos, e, ht, other)
         else (it_pos iter, e, ht, other))"

text \<open>
  \<open>zend_hash_iterator_pos_ex\<close> does the same for an array value it first separates; here
  \<open>separated\<close> is the table after \<open>SEPARATE_ARRAY\<close> (\<open>ht\<close> itself when nothing was
  copied).  The overflow test before the decrement reads \<open>ht\<close>, not the iterator's table.
\<close>

definition zend_hash_iterator_pos_ex ::
    "'v env \<Rightarrow> nat \<Rightarrow> 'v HashTable \<Rightarrow> 'v HashTable \<Rightarrow> 'v HashTable \<Rightarrow>
     nat \<times> 'v env \<times> 'v HashTable \<times> 'v HashTable" where
  "zend_hash_iterator_pos_ex e idx ht separated other =
     (let iter = e_iters e ! idx
      in if it_ht iter \<noteq> It_HT (ht_addr ht) then
           let other = (if it_ht iter \<noteq> It_NULL \<and> it_ht iter \<noteq> It_POISONED
                           \<and> \<not> HT_ITERATORS_OVERFLOW ht
                        then HT_DEC_ITERATORS_COUNT other else other);
               ht = separated;
               ht = (if \<not> HT_ITERATORS_OVERFLOW ht then HT_INC_ITERATORS_COUNT ht else ht);
               pos = zend_hash_get_current_pos ht;
               e = e\<lparr>e_iters := (e_iters e)[idx := \<lparr>it_ht = It_HT (ht_addr ht), it_pos = pos\<rparr>]\<rparr>
           in (pos, e, ht, other)
         else (it_pos iter, e, ht, other))"

text \<open>\<open>while (idx > 0 && EG(ht_iterators)[idx - 1].ht == NULL) idx--\<close>\<close>

fun trim_iters :: "iterator list \<Rightarrow> nat \<Rightarrow> nat" where
  "trim_iters iters 0 = 0"
| "trim_iters iters (Suc idx) =
     (if it_ht (iters ! idx) = It_NULL then trim_iters iters idx else Suc idx)"

definition zend_hash_iterator_del ::
    "'v env \<Rightarrow> nat \<Rightarrow> 'v HashTable \<Rightarrow> 'v env \<times> 'v HashTable" where
  "zend_hash_iterator_del e idx tbl =
     (let iter = e_iters e ! idx;
          tbl = (if it_ht iter \<noteq> It_NULL \<and> it_ht iter \<noteq> It_POISONED \<and> \<not> HT_ITERATORS_OVERFLOW tbl
                 then HT_DEC_ITERATORS_COUNT tbl else tbl);
          e = e\<lparr>e_iters := (e_iters e)[idx := iter\<lparr>it_ht := It_NULL\<rparr>]\<rparr>
      in if idx + 1 = e_iters_used e
         then (e\<lparr>e_iters_used := trim_iters (e_iters e) idx\<rparr>, tbl)
         else (e, tbl))"

subsection \<open>All iterators of a table\<close>

text \<open>The loops run over the used prefix of the slots.\<close>

definition map_used_iters :: "(iterator \<Rightarrow> iterator) \<Rightarrow> 'v env \<Rightarrow> 'v env" where
  "map_used_iters f e =
     e\<lparr>e_iters := map f (take (e_iters_used e) (e_iters e)) @ drop (e_iters_used e) (e_iters e)\<rparr>"

definition zend_hash_iterators_remove_slow :: "'v env \<Rightarrow> 'v HashTable \<Rightarrow> 'v env" where
  "zend_hash_iterators_remove_slow e ht =
     map_used_iters (\<lambda>iter. if it_ht iter = It_HT (ht_addr ht)
                            then iter\<lparr>it_ht := It_POISONED\<rparr> else iter) e"

definition zend_hash_iterators_remove :: "'v env \<Rightarrow> 'v HashTable \<Rightarrow> 'v env" where
  "zend_hash_iterators_remove e ht =
     (if HT_HAS_ITERATORS ht then zend_hash_iterators_remove_slow e ht else e)"

fun lower_pos_loop :: "nat \<Rightarrow> nat \<Rightarrow> nat \<Rightarrow> iterator list \<Rightarrow> nat" where
  "lower_pos_loop addr start r [] = r"
| "lower_pos_loop addr start r (iter # iters) =
     lower_pos_loop addr start
       (if it_ht iter = It_HT addr \<and> it_pos iter \<ge> start \<and> it_pos iter < r
        then it_pos iter else r) iters"

definition zend_hash_iterators_lower_pos :: "'v env \<Rightarrow> 'v HashTable \<Rightarrow> nat \<Rightarrow> nat" where
  "zend_hash_iterators_lower_pos e ht start =
     lower_pos_loop (ht_addr ht) start (nNumUsed ht) (take (e_iters_used e) (e_iters e))"

definition zend_hash_iterators_update_slow ::
    "'v env \<Rightarrow> 'v HashTable \<Rightarrow> nat \<Rightarrow> nat \<Rightarrow> 'v env" where
  "zend_hash_iterators_update_slow e ht fro to =
     map_used_iters (\<lambda>iter. if it_ht iter = It_HT (ht_addr ht) \<and> it_pos iter = fro
                            then iter\<lparr>it_pos := to\<rparr> else iter) e"

definition zend_hash_iterators_update ::
    "'v env \<Rightarrow> 'v HashTable \<Rightarrow> nat \<Rightarrow> nat \<Rightarrow> 'v env" where
  "zend_hash_iterators_update e ht fro to =
     (if HT_HAS_ITERATORS ht then zend_hash_iterators_update_slow e ht fro to else e)"

definition zend_hash_iterators_advance :: "'v env \<Rightarrow> 'v HashTable \<Rightarrow> nat \<Rightarrow> 'v env" where
  "zend_hash_iterators_advance e ht step =
     map_used_iters (\<lambda>iter. if it_ht iter = It_HT (ht_addr ht)
                            then iter\<lparr>it_pos := (it_pos iter + step) mod 2 ^ 32\<rparr> else iter) e"

subsection \<open>Lemmas\<close>

lemma get_first_pos_from_spec:
  "pos \<le> get_first_pos_from ht pos \<and>
   (\<forall>i. pos \<le> i \<and> i < get_first_pos_from ht pos \<longrightarrow> Z_ISUNDEF (arData ht ! i)) \<and>
   (get_first_pos_from ht pos < nNumUsed ht \<longrightarrow>
      \<not> Z_ISUNDEF (arData ht ! get_first_pos_from ht pos)) \<and>
   (pos \<le> nNumUsed ht \<longrightarrow> get_first_pos_from ht pos \<le> nNumUsed ht)"
proof (induction ht pos rule: get_first_pos_from.induct)
  case (1 ht pos)
  show ?case
  proof (cases "pos < nNumUsed ht \<and> Z_ISUNDEF (arData ht ! pos)")
    case True
    then have eq: "get_first_pos_from ht pos = get_first_pos_from ht (pos + 1)"
      by (subst get_first_pos_from.simps) simp
    from "1.IH" [OF True] True show ?thesis
      unfolding eq by (metis Suc_eq_plus1 Suc_leD Suc_leI le_neq_implies_less)
  next
    case False
    then have "get_first_pos_from ht pos = pos" by (subst get_first_pos_from.simps) auto
    with False show ?thesis by auto
  qed
qed

lemma lower_pos_loop_le: "lower_pos_loop addr start r iters \<le> r"
proof (induction addr start r iters rule: lower_pos_loop.induct)
  case (2 addr start r iter iters)
  then show ?case by (auto split: if_splits)
qed simp

lemma lower_pos_loop_ge:
  "start \<le> r \<Longrightarrow> start \<le> lower_pos_loop addr start r iters"
  by (induction addr start r iters rule: lower_pos_loop.induct) (auto split: if_splits)

text \<open>The result is the least position at or after \<open>start\<close> of an iterator of the table.\<close>

lemma lower_pos_loop_least:
  assumes "iter \<in> set iters" "it_ht iter = It_HT addr" "start \<le> it_pos iter"
  shows "lower_pos_loop addr start r iters \<le> it_pos iter"
  using assms
proof (induction addr start r iters rule: lower_pos_loop.induct)
  case (2 addr start r i iters)
  show ?case
  proof (cases "iter = i")
    case True
    with 2 show ?thesis
      by (auto intro: le_trans [OF lower_pos_loop_le] split: if_splits)
  next
    case False
    with 2 show ?thesis by auto
  qed
qed simp

lemma map_used_iters_simps [simp]:
  "e_slots (map_used_iters f e) = e_slots e" "e_log (map_used_iters f e) = e_log e"
  "e_iters_used (map_used_iters f e) = e_iters_used e"
  "e_fresh (map_used_iters f e) = e_fresh e" "e_junk (map_used_iters f e) = e_junk e"
  "e_junk_hash (map_used_iters f e) = e_junk_hash e"
  by (simp_all add: map_used_iters_def)

lemma zend_hash_iterators_update_simps [simp]:
  "e_slots (zend_hash_iterators_update e ht i j) = e_slots e"
  "e_log (zend_hash_iterators_update e ht i j) = e_log e"
  "e_iters_used (zend_hash_iterators_update e ht i j) = e_iters_used e"
  "e_fresh (zend_hash_iterators_update e ht i j) = e_fresh e"
  "e_junk (zend_hash_iterators_update e ht i j) = e_junk e"
  "e_junk_hash (zend_hash_iterators_update e ht i j) = e_junk_hash e"
  by (simp_all add: zend_hash_iterators_update_def zend_hash_iterators_update_slow_def)

end
