(* ===== verification/Zend_Hash_Inv.thy ===== *)
theory Zend_Hash_Inv
  imports Zend_Hash_Iterators
begin

section \<open>What a HashTable stands for, and its well-formedness\<close>

text \<open>
  A table stands for the list of its entries in insertion order: the keys and values of the
  buckets in use that are not deleted (\<open>entries\<close>).  \<open>ht_inv\<close> is the well-formedness
  every operation keeps: sizes and counters, distinct keys, cached hashes, and, for a hash
  (not packed) table, that the chain of each head lists exactly the live buckets of that
  head, from higher to lower positions.  The chain part is stated for a prefix of \<open>n\<close>
  buckets (\<open>chains_upto\<close>), which is the loop invariant of \<open>zend_hash_rehash\<close>.
\<close>

subsection \<open>Entries\<close>

datatype hkey = IKey u64 | SKey bytes

definition key_of :: "'v bucket \<Rightarrow> hkey" where
  "key_of p = (case b_key p of None \<Rightarrow> IKey (b_h p) | Some s \<Rightarrow> SKey (zs_val s))"

abbreviation live :: "'v bucket \<Rightarrow> bool" where
  "live p \<equiv> \<not> Z_ISUNDEF p"

definition entry_of :: "'v bucket \<Rightarrow> hkey \<times> 'v zval" where
  "entry_of p = (key_of p, b_val p)"

definition entries_upto :: "'v HashTable \<Rightarrow> nat \<Rightarrow> (hkey \<times> 'v zval) list" where
  "entries_upto ht n = map entry_of (filter live (take n (arData ht)))"

definition entries :: "'v HashTable \<Rightarrow> (hkey \<times> 'v zval) list" where
  "entries ht = entries_upto ht (nNumUsed ht)"

subsection \<open>Chains\<close>

definition slot :: "'v HashTable \<Rightarrow> u64 \<Rightarrow> nat" where
  "slot ht h = HT_HASH_pos ht (ht_nIndex ht h)"

definition nexts :: "'v HashTable \<Rightarrow> nat \<Rightarrow> nat" where
  "nexts ht i = b_next (arData ht ! i)"

definition in_slot :: "'v HashTable \<Rightarrow> nat \<Rightarrow> nat \<Rightarrow> bool" where
  "in_slot ht j i = (live (arData ht ! i) \<and> slot ht (b_h (arData ht ! i)) = j)"

definition members :: "'v HashTable \<Rightarrow> nat \<Rightarrow> nat \<Rightarrow> nat list" where
  "members ht n j = rev (filter (in_slot ht j) [0..<n])"

definition chains_upto :: "'v HashTable \<Rightarrow> nat \<Rightarrow> bool" where
  "chains_upto ht n =
     (\<forall>j < length (ht_hash ht). chain HT_INVALID_IDX (nexts ht) (ht_hash ht ! j) (members ht n j))"

subsection \<open>The invariant\<close>

definition pow2_size :: "nat \<Rightarrow> bool" where
  "pow2_size n = (\<exists>k. 3 \<le> k \<and> k \<le> 30 \<and> n = 2 ^ k)"

text \<open>The key field of a live bucket: its hash is cached in the string and in the bucket.\<close>

definition key_ok :: "'v bucket \<Rightarrow> bool" where
  "key_ok p = (case b_key p of None \<Rightarrow> True
     | Some s \<Rightarrow> b_h p = zend_hash_func (zs_val s) \<and> zs_h s = b_h p)"

definition mixed_ok :: "'v HashTable \<Rightarrow> bool" where
  "mixed_ok ht = (nTableMask ht = HT_SIZE_TO_MASK (nTableSize ht) \<and>
     length (ht_hash ht) = 2 * nTableSize ht)"

definition packed_ok :: "'v HashTable \<Rightarrow> bool" where
  "packed_ok ht = (nTableMask ht = HT_MIN_MASK \<and> ht_hash ht = uninitialized_bucket \<and>
     (\<forall>i < nNumUsed ht. live (arData ht ! i) \<longrightarrow>
        b_key (arData ht ! i) = None \<and> b_h (arData ht ! i) = of_nat i))"

definition uninit_ok :: "'v HashTable \<Rightarrow> bool" where
  "uninit_ok ht = (nTableMask ht = HT_MIN_MASK \<and> ht_hash ht = uninitialized_bucket \<and>
     nNumUsed ht = 0 \<and> \<not> ht_packed ht)"

text \<open>Every integer key is below \<open>nNextFreeElement\<close>, read as signed numbers.\<close>

definition next_free_ok :: "'v HashTable \<Rightarrow> bool" where
  "next_free_ok ht = (\<forall>h v. (IKey h, v) \<in> set (entries ht) \<longrightarrow>
     sint h < sint (nNextFreeElement ht) \<or>
     (sint h = 2 ^ 63 - 1 \<and> sint (nNextFreeElement ht) = 2 ^ 63 - 1))"

text \<open>The part that holds whatever the layout is.\<close>

definition base_ok :: "'v HashTable \<Rightarrow> bool" where
  "base_ok ht = (pow2_size (nTableSize ht) \<and> nNumUsed ht \<le> nTableSize ht \<and>
     (ht_initialized ht \<longrightarrow> length (arData ht) = nTableSize ht) \<and>
     nNumOfElements ht = length (entries ht) \<and>
     distinct (map fst (entries ht)) \<and>
     (\<forall>i < nNumUsed ht. live (arData ht ! i) \<longrightarrow> key_ok (arData ht ! i)))"

definition ht_inv :: "'v HashTable \<Rightarrow> bool" where
  "ht_inv ht = (base_ok ht \<and> next_free_ok ht \<and>
     (if \<not> ht_initialized ht then uninit_ok ht
      else if ht_packed ht then packed_ok ht
      else mixed_ok ht \<and> chains_upto ht (nNumUsed ht)))"

subsection \<open>The mask\<close>

lemma or_not_minus: "(x OR NOT q) - NOT q = x AND (q :: 'a::len word)"
proof -
  have "(x AND q) OR NOT q = x OR NOT q"
    by (rule bit_eqI) (auto simp: bit_simps)
  moreover have "(x AND q) + NOT q = (x AND q) OR NOT q"
    by (rule disjunctive_add) (auto simp: bit_simps)
  ultimately show ?thesis by (metis add_diff_cancel_right')
qed

lemma neg_power_not_mask: "- (2 ^ n) = NOT (mask n :: 'a::len word)"
  by (simp add: mask_eq_decr_exp not_eq_complement)

lemma slot_and:
  assumes "nTableMask ht = - (2 ^ n)"
  shows "slot ht h = unat (ucast h AND (mask n :: u32))"
  using assms or_not_minus [of "ucast h" "mask n :: u32"]
  by (simp add: slot_def HT_HASH_pos_def ht_nIndex_def neg_power_not_mask)

lemma slot_bound:
  assumes "nTableMask ht = - (2 ^ n)" "n \<le> 31"
  shows "slot ht h < 2 ^ n"
proof -
  have "ucast h AND mask n < (2 ^ n :: u32)"
    using assms(2) by (intro and_mask_less') simp
  then have "unat (ucast h AND mask n :: u32) < unat (2 ^ n :: u32)"
    by (simp add: word_less_nat_alt)
  also have "unat (2 ^ n :: u32) = 2 ^ n" using assms(2) by (simp add: unat_2p)
  finally show ?thesis using slot_and [OF assms(1)] by simp
qed

lemma size_to_mask_power: "HT_SIZE_TO_MASK (2 ^ k) = - (2 ^ Suc k)"
  by (simp add: HT_SIZE_TO_MASK_def)

lemma hash_size_power: "k \<le> 30 \<Longrightarrow> HT_HASH_SIZE (HT_SIZE_TO_MASK (2 ^ k)) = 2 * 2 ^ k"
proof -
  assume "k \<le> 30"
  then have "unat ((2 :: u32) ^ Suc k) = 2 ^ Suc k" by (simp add: unat_2p del: power_Suc)
  then show ?thesis by (simp add: HT_HASH_SIZE_def size_to_mask_power)
qed

lemma hash_size_pow2: "pow2_size n \<Longrightarrow> HT_HASH_SIZE (HT_SIZE_TO_MASK n) = 2 * n"
  using hash_size_power by (auto simp: pow2_size_def)

lemma pow2_size_bounds:
  assumes "pow2_size n"
  shows "8 \<le> n" "n \<le> 1073741824" "n < HT_INVALID_IDX"
proof -
  from assms obtain k where k: "3 \<le> k" "k \<le> 30" "n = 2 ^ k" by (auto simp: pow2_size_def)
  from k(1) have "2 ^ 3 \<le> (2 :: nat) ^ k" by (intro power_increasing) simp_all
  moreover from k(2) have "(2 :: nat) ^ k \<le> 2 ^ 30" by (intro power_increasing) simp_all
  ultimately show "8 \<le> n" "n \<le> 1073741824" "n < HT_INVALID_IDX"
    using k(3) by (simp_all add: HT_INVALID_IDX_def)
qed

lemma mixed_slot_bound:
  assumes "mixed_ok ht" "pow2_size (nTableSize ht)"
  shows "slot ht h < length (ht_hash ht)"
proof -
  from assms(2) obtain k where k: "k \<le> 30" "nTableSize ht = 2 ^ k" by (auto simp: pow2_size_def)
  with assms(1) have "nTableMask ht = - (2 ^ Suc k)"
    by (simp add: mixed_ok_def size_to_mask_power)
  then have "slot ht h < 2 ^ Suc k" using k by (intro slot_bound) simp_all
  with assms(1) k show ?thesis by (simp add: mixed_ok_def)
qed

lemma min_mask_slot: "nTableMask ht = HT_MIN_MASK \<Longrightarrow> slot ht h < 2"
  using slot_bound [of ht 1 h] by (simp add: HT_MIN_MASK_def)

lemma slot_cong: "nTableMask ht = nTableMask ht' \<Longrightarrow> slot ht h = slot ht' h"
  by (simp add: slot_def HT_HASH_pos_def ht_nIndex_def)

subsection \<open>Reading and writing at the layout level\<close>

lemma HT_HASH_slot: "HT_HASH ht (ht_nIndex ht h) = ht_hash ht ! slot ht h"
  by (simp add: HT_HASH_def slot_def)

lemma HT_HASH_set_slot:
  "HT_HASH_set ht (ht_nIndex ht h) v = ht\<lparr>ht_hash := (ht_hash ht)[slot ht h := v]\<rparr>"
  by (simp add: HT_HASH_set_def slot_def)

lemma members_mem: "i \<in> set (members ht n j) \<longleftrightarrow> i < n \<and> in_slot ht j i"
  by (auto simp: members_def)

lemma members_distinct [simp]: "distinct (members ht n j)"
  by (simp add: members_def)

lemma members_Suc:
  "members ht (Suc n) j = (if in_slot ht j n then [n] else []) @ members ht n j"
  by (simp add: members_def)

lemma members_cong:
  assumes "\<And>i. i < n \<Longrightarrow> in_slot ht j i = in_slot ht' j i"
  shows "members ht n j = members ht' n j"
proof -
  have "filter (in_slot ht j) [0..<n] = filter (in_slot ht' j) [0..<n]"
    by (rule filter_cong) (use assms in auto)
  then show ?thesis by (simp add: members_def)
qed

lemma entries_upto_conv:
  "n \<le> length (arData ht) \<Longrightarrow>
   entries_upto ht n = map (\<lambda>i. entry_of (arData ht ! i)) (filter (\<lambda>i. live (arData ht ! i)) [0..<n])"
  by (simp add: entries_upto_def map_filter_take_conv)

lemma entries_upto_Suc:
  "n < length (arData ht) \<Longrightarrow>
   entries_upto ht (Suc n) = entries_upto ht n @
     (if live (arData ht ! n) then [entry_of (arData ht ! n)] else [])"
  by (simp add: entries_upto_def take_Suc_conv_app_nth)

lemma entries_upto_mem:
  assumes "i < n" "n \<le> length (arData ht)" "live (arData ht ! i)"
  shows "entry_of (arData ht ! i) \<in> set (entries_upto ht n)"
  using assms by (auto simp: entries_upto_conv)

text \<open>Distinct keys: two live buckets in use with one key are one bucket.\<close>

lemma distinct_keys_idx:
  assumes "distinct (map fst (entries_upto ht n))" "n \<le> length (arData ht)"
    "i < n" "i' < n" "live (arData ht ! i)" "live (arData ht ! i')"
    "key_of (arData ht ! i) = key_of (arData ht ! i')"
  shows "i = i'"
proof -
  let ?l = "filter (\<lambda>i. live (arData ht ! i)) [0..<n]"
  have "distinct (map (\<lambda>i. key_of (arData ht ! i)) ?l)"
    using assms(1,2) by (simp add: entries_upto_conv entry_of_def comp_def)
  then have "inj_on (\<lambda>i. key_of (arData ht ! i)) (set ?l)"
    by (simp add: distinct_map)
  with assms(3-) show ?thesis by (auto dest: inj_onD)
qed

end
