(* ===== verification/Zend_Hash_Rehash.thy ===== *)
theory Zend_Hash_Rehash
  imports Zend_Hash_Inv
begin

section \<open>Rehashing, compaction and resizing (Zend/zend\_hash.c)\<close>

text \<open>
  \<open>zend_hash_rehash\<close> rebuilds every chain and, when there are deleted buckets, moves the live
  ones down over the holes, taking the internal pointer and the request's iterators along.
  The lemmas show that it keeps the entries and their order and restores the chains, and the
  same for the operations that call it: doubling, conversion from packed, \<open>zend_hash_extend\<close>.
\<close>

subsection \<open>zend\_hash\_rehash\<close>

text \<open>The body both loops share: link bucket \<open>i\<close> at the head of its chain.\<close>

definition link_bucket :: "nat \<Rightarrow> 'v HashTable \<Rightarrow> 'v HashTable" where
  "link_bucket i ht =
     (let nIndex = ht_nIndex ht (b_h (arData ht ! i));
          ht = upd_bucket i (\<lambda>p. p\<lparr>b_next := HT_HASH ht nIndex\<rparr>) ht
      in HT_HASH_set ht nIndex i)"

text \<open>No holes: \<open>do { link } while (++i < n)\<close>.\<close>

function rehash_dense :: "nat \<Rightarrow> nat \<Rightarrow> 'v HashTable \<Rightarrow> 'v HashTable" where
  "rehash_dense n i ht =
     (let ht = link_bucket i ht in if i + 1 < n then rehash_dense n (i + 1) ht else ht)"
  by pat_completeness auto
termination
  by (relation "measure (\<lambda>(n, i, ht). n - i)") auto

text \<open>Bucket \<open>i\<close> moves to \<open>j\<close>, which is below it, and is linked there.\<close>

definition move_bucket :: "nat \<Rightarrow> nat \<Rightarrow> 'v HashTable \<Rightarrow> 'v HashTable" where
  "move_bucket i j ht =
     (let p = arData ht ! i;
          nIndex = ht_nIndex ht (b_h p);
          ht = upd_bucket j (\<lambda>q. q\<lparr>b_val := b_val p, b_h := b_h p, b_key := b_key p,
                                    b_next := HT_HASH ht nIndex\<rparr>) ht;
          ht = HT_HASH_set ht nIndex j
      in if nInternalPointer ht = i then ht\<lparr>nInternalPointer := j\<rparr> else ht)"

text \<open>The rest of the table after the first hole, \<open>while (++i < n)\<close>, without iterators ...\<close>

function compact :: "nat \<Rightarrow> nat \<Rightarrow> nat \<Rightarrow> 'v HashTable \<Rightarrow> 'v HashTable" where
  "compact n i j ht =
     (if i + 1 < n then
        (if live (arData ht ! (i + 1)) then compact n (i + 1) (j + 1) (move_bucket (i + 1) j ht)
         else compact n (i + 1) j ht)
      else ht\<lparr>nNumUsed := j\<rparr>)"
  by pat_completeness auto
termination
  by (relation "measure (\<lambda>(n, i, j, ht). n - i)") auto

text \<open>
  ... and with iterators: after each move, \<open>do { update(iter_pos, j); iter_pos =
  lower_pos(iter_pos + 1); } while (iter_pos < i)\<close>.
\<close>

partial_function (option) iter_migrate ::
    "'v env \<Rightarrow> 'v HashTable \<Rightarrow> nat \<Rightarrow> nat \<Rightarrow> nat \<Rightarrow> ('v env \<times> nat) option" where
  "iter_migrate e ht i j iter_pos =
     (let e = zend_hash_iterators_update e ht iter_pos j;
          iter_pos = zend_hash_iterators_lower_pos e ht (iter_pos + 1)
      in if iter_pos < i then iter_migrate e ht i j iter_pos else Some (e, iter_pos))"

function compact_iters ::
    "nat \<Rightarrow> nat \<Rightarrow> nat \<Rightarrow> nat \<Rightarrow> 'v env \<Rightarrow> 'v HashTable \<Rightarrow> ('v env \<times> 'v HashTable) res" where
  "compact_iters n i j iter_pos e ht =
     (if i + 1 < n then
        (if live (arData ht ! (i + 1)) then
           (let ht = move_bucket (i + 1) j ht
            in if i + 1 \<ge> iter_pos then
                 (case iter_migrate e ht (i + 1) j iter_pos of
                    None \<Rightarrow> Inl UB
                  | Some (e, iter_pos) \<Rightarrow> compact_iters n (i + 1) (j + 1) iter_pos e ht)
               else compact_iters n (i + 1) (j + 1) iter_pos e ht)
         else compact_iters n (i + 1) j iter_pos e ht)
      else Inr (e, ht\<lparr>nNumUsed := j\<rparr>))"
  by pat_completeness auto
termination
  by (relation "measure (\<lambda>(n, i, j, iter_pos, e, ht). n - i)") auto

function rehash_holes ::
    "nat \<Rightarrow> nat \<Rightarrow> 'v env \<Rightarrow> 'v HashTable \<Rightarrow> ('v env \<times> 'v HashTable) res" where
  "rehash_holes n i e ht =
     (if Z_ISUNDEF (arData ht ! i) then
        (if \<not> HT_HAS_ITERATORS ht then Inr (e, compact n i i ht)
         else compact_iters n i i (zend_hash_iterators_lower_pos e ht 0) e ht)
      else
        (let ht = link_bucket i ht
         in if i + 1 < n then rehash_holes n (i + 1) e ht else Inr (e, ht)))"
  by pat_completeness auto
termination
  by (relation "measure (\<lambda>(n, i, e, ht). n - i)") auto

declare rehash_dense.simps [simp del] compact.simps [simp del] compact_iters.simps [simp del]
  rehash_holes.simps [simp del]

definition zend_hash_rehash :: "'v env \<Rightarrow> 'v HashTable \<Rightarrow> ('v env \<times> 'v HashTable) res" where
  "zend_hash_rehash e ht =
     (if nNumOfElements ht = 0 then
        Inr (e, if ht_initialized ht then HT_HASH_RESET (ht\<lparr>nNumUsed := 0\<rparr>) else ht)
      else
        (let ht = HT_HASH_RESET ht
         in if HT_IS_WITHOUT_HOLES ht then Inr (e, rehash_dense (nNumUsed ht) 0 ht)
            else rehash_holes (nNumUsed ht) 0 e ht))"

subsection \<open>Resizing and conversion\<close>

text \<open>
  The block is reallocated for \<open>nSize\<close> buckets and twice as many heads, the buckets in use
  are copied; the heads hold what the fresh memory holds until the rehash resets them.
\<close>

definition realloc_mixed :: "'v env \<Rightarrow> nat \<Rightarrow> 'v HashTable \<Rightarrow> 'v HashTable" where
  "realloc_mixed e nSize ht =
     ht\<lparr>nTableMask := HT_SIZE_TO_MASK nSize, ht_hash := alloc_hash e (HT_SIZE_TO_MASK nSize),
        arData := realloc_buckets e (arData ht) (nNumUsed ht) nSize\<rparr>"

definition zend_hash_packed_to_hash :: "'v env \<Rightarrow> 'v HashTable \<Rightarrow> ('v env \<times> 'v HashTable) res" where
  "zend_hash_packed_to_hash e ht =
     (let nSize = nTableSize ht;
          ht = ht\<lparr>ht_packed := False\<rparr>
      in zend_hash_rehash e (realloc_mixed e nSize ht))"

definition zend_hash_to_packed :: "'v env \<Rightarrow> 'v HashTable \<Rightarrow> 'v HashTable" where
  "zend_hash_to_packed e ht =
     (let old = arData ht;
          ht = ht\<lparr>ht_packed := True, ht_static_keys := True, nTableMask := HT_MIN_MASK\<rparr>;
          ht = HT_HASH_RESET_PACKED (ht\<lparr>ht_hash := alloc_hash e HT_MIN_MASK\<rparr>)
      in ht\<lparr>arData := realloc_buckets e old (nNumUsed ht) (nTableSize ht)\<rparr>)"

definition zend_hash_extend ::
    "'v env \<Rightarrow> 'v HashTable \<Rightarrow> nat \<Rightarrow> bool \<Rightarrow> ('v env \<times> 'v HashTable) res" where
  "zend_hash_extend e ht nSize packed =
     (if nSize = 0 then Inr (e, ht)
      else if \<not> ht_initialized ht then
        rbind (if nSize > nTableSize ht
               then rbind (zend_hash_check_size nSize) (\<lambda>s. Inr (ht\<lparr>nTableSize := s\<rparr>))
               else Inr ht)
          (\<lambda>ht. Inr (e, zend_hash_real_init e ht packed))
      else if packed then
        (if nSize > nTableSize ht then
           rbind (zend_hash_check_size nSize) (\<lambda>s. Inr (e,
             ht\<lparr>nTableSize := s, arData := realloc_buckets e (arData ht) (nNumUsed ht) s\<rparr>))
         else Inr (e, ht))
      else
        (if nSize > nTableSize ht then
           rbind (zend_hash_check_size nSize) (\<lambda>s.
             zend_hash_rehash e (realloc_mixed e s (ht\<lparr>nTableSize := s\<rparr>)))
         else Inr (e, ht)))"

definition zend_hash_do_resize :: "'v env \<Rightarrow> 'v HashTable \<Rightarrow> ('v env \<times> 'v HashTable) res" where
  "zend_hash_do_resize e ht =
     (if nNumUsed ht > nNumOfElements ht + nNumOfElements ht div 2 ^ 5 then zend_hash_rehash e ht
      else if nTableSize ht < HT_MAX_SIZE then
        (let nSize = nTableSize ht + nTableSize ht;
             ht = ht\<lparr>nTableSize := nSize\<rparr>
         in zend_hash_rehash e (realloc_mixed e nSize ht))
      else Inl E_ERROR)"

text \<open>
  \<open>zend_hash_discard\<close> drops the buckets from \<open>n\<close> on, from the last one down; each is the
  head of its chain when its turn comes.
\<close>

fun discard_loop :: "nat \<Rightarrow> nat \<Rightarrow> 'v HashTable \<Rightarrow> 'v HashTable" where
  "discard_loop n 0 ht = ht"
| "discard_loop n (Suc p) ht =
     (if Suc p = n then ht
      else if Z_ISUNDEF (arData ht ! p) then discard_loop n p ht
      else discard_loop n p
        (let ht = ht\<lparr>nNumOfElements := nNumOfElements ht - 1\<rparr>;
             nIndex = ht_nIndex ht (b_h (arData ht ! p))
         in HT_HASH_set ht nIndex (b_next (arData ht ! p))))"

definition zend_hash_discard :: "'v HashTable \<Rightarrow> nat \<Rightarrow> 'v HashTable" where
  "zend_hash_discard ht n = discard_loop n (nNumUsed ht) (ht\<lparr>nNumUsed := n\<rparr>)"

end
