(* ===== verification/Zend_Hash_Rehash_Correct.thy ===== *)
theory Zend_Hash_Rehash_Correct
  imports Zend_Hash_Rehash
begin

section \<open>Correctness of rehashing and resizing\<close>

text \<open>
  One lemma extends the chain invariant of a prefix by one bucket (\<open>chains_extend\<close>); the
  rehash loops, the insertions and the duplication of a table are instances of it.
\<close>

subsection \<open>What a rehash leaves alone\<close>

definition same_shape :: "'v HashTable \<Rightarrow> 'v HashTable \<Rightarrow> bool" where
  "same_shape ht ht' = (ht_addr ht' = ht_addr ht \<and> ht_packed ht' = ht_packed ht \<and>
     ht_initialized ht' = ht_initialized ht \<and> ht_static_keys ht' = ht_static_keys ht \<and>
     ht_has_empty_ind ht' = ht_has_empty_ind ht \<and> nIteratorsCount ht' = nIteratorsCount ht \<and>
     nTableMask ht' = nTableMask ht \<and> nTableSize ht' = nTableSize ht \<and>
     nNumOfElements ht' = nNumOfElements ht \<and> nNextFreeElement ht' = nNextFreeElement ht \<and>
     pDestructor ht' = pDestructor ht \<and> length (arData ht') = length (arData ht) \<and>
     length (ht_hash ht') = length (ht_hash ht))"

lemma same_shape_refl [simp]: "same_shape ht ht"
  by (simp add: same_shape_def)

lemma same_shape_trans: "same_shape a b \<Longrightarrow> same_shape b c \<Longrightarrow> same_shape a c"
  by (simp add: same_shape_def)

lemma same_shape_slot: "same_shape ht ht' \<Longrightarrow> slot ht' h = slot ht h"
  by (rule slot_cong) (simp add: same_shape_def)

subsection \<open>Extending the chains by one bucket\<close>

lemma chains_extend:
  assumes ch: "chains_upto ht i"
    and mask: "nTableMask ht' = nTableMask ht"
    and hash: "ht_hash ht' = (ht_hash ht)[s := i]"
    and old: "\<And>k. k < i \<Longrightarrow> arData ht' ! k = arData ht ! k"
    and live: "live (arData ht' ! i)"
    and s: "slot ht (b_h (arData ht' ! i)) = s" "s < length (ht_hash ht)"
    and nx: "b_next (arData ht' ! i) = ht_hash ht ! s"
    and i: "i < HT_INVALID_IDX"
  shows "chains_upto ht' (Suc i)"
  unfolding chains_upto_def
proof (intro allI impI)
  fix j assume j: "j < length (ht_hash ht')"
  have sl: "slot ht' h = slot ht h" for h by (rule slot_cong) (simp add: mask)
  have mem: "members ht' i j' = members ht i j'" for j'
    by (rule members_cong) (simp add: in_slot_def old sl)
  have nx_old: "chain HT_INVALID_IDX (nexts ht') x (members ht i j) =
      chain HT_INVALID_IDX (nexts ht) x (members ht i j)" for x
    by (rule chain_cong) (simp add: members_mem nexts_def old)
  have old_chain: "chain HT_INVALID_IDX (nexts ht) (ht_hash ht ! j) (members ht i j)"
    using ch j hash by (simp add: chains_upto_def)
  show "chain HT_INVALID_IDX (nexts ht') (ht_hash ht' ! j) (members ht' (Suc i) j)"
  proof (cases "j = s")
    case True
    then have "in_slot ht' j i" using live s(1) by (simp add: in_slot_def sl)
    with True show ?thesis
      using old_chain nx_old i s(2)
      by (simp add: members_Suc mem hash nexts_def [of ht' i] nx)
  next
    case False
    then have "\<not> in_slot ht' j i" using s(1) by (simp add: in_slot_def sl)
    with False show ?thesis using old_chain nx_old by (simp add: members_Suc mem hash)
  qed
qed

lemma chains_skip:
  "chains_upto ht i \<Longrightarrow> Z_ISUNDEF (arData ht ! i) \<Longrightarrow> chains_upto ht (Suc i)"
  by (simp add: chains_upto_def members_Suc in_slot_def)

lemma chains_reset:
  "ht_hash ht = replicate m HT_INVALID_IDX \<Longrightarrow> chains_upto ht 0"
  by (simp add: chains_upto_def members_def)

lemma chains_cong:
  assumes "chains_upto ht n" "nTableMask ht' = nTableMask ht" "ht_hash ht' = ht_hash ht"
    and "\<And>i. i < n \<Longrightarrow> Z_ISUNDEF (arData ht' ! i) = Z_ISUNDEF (arData ht ! i) \<and>
           b_h (arData ht' ! i) = b_h (arData ht ! i) \<and>
           b_next (arData ht' ! i) = b_next (arData ht ! i)"
  shows "chains_upto ht' n"
proof -
  have sl: "slot ht' h = slot ht h" for h by (rule slot_cong) (simp add: assms)
  have mem: "members ht' n j = members ht n j" for j
    by (rule members_cong) (simp add: in_slot_def assms sl)
  have "chain HT_INVALID_IDX (nexts ht') x (members ht n j) =
      chain HT_INVALID_IDX (nexts ht) x (members ht n j)" for x j
    by (rule chain_cong) (simp add: members_mem nexts_def assms)
  with assms(1,3) mem show ?thesis by (simp add: chains_upto_def)
qed

subsection \<open>The loop bodies\<close>

lemma link_bucket_shape: "same_shape ht (link_bucket i ht)"
  by (simp add: same_shape_def link_bucket_def upd_bucket_def HT_HASH_set_def Let_def)

lemma link_bucket_fields [simp]:
  "nNumUsed (link_bucket i ht) = nNumUsed ht"
  "nInternalPointer (link_bucket i ht) = nInternalPointer ht"
  by (simp_all add: link_bucket_def upd_bucket_def HT_HASH_set_def Let_def)

lemma link_bucket_data:
  "arData (link_bucket i ht) = (arData ht)[i := (arData ht ! i)\<lparr>b_next :=
     ht_hash ht ! slot ht (b_h (arData ht ! i))\<rparr>]"
  by (simp add: link_bucket_def upd_bucket_def HT_HASH_set_def Let_def HT_HASH_slot)

lemma link_bucket_hash:
  "ht_hash (link_bucket i ht) = (ht_hash ht)[slot ht (b_h (arData ht ! i)) := i]"
  by (simp add: link_bucket_def upd_bucket_def HT_HASH_set_def Let_def slot_def HT_HASH_pos_def)

lemma link_bucket_chains:
  assumes "chains_upto ht i" "live (arData ht ! i)" "i < length (arData ht)"
    "i < HT_INVALID_IDX" "\<And>h. slot ht h < length (ht_hash ht)"
  shows "chains_upto (link_bucket i ht) (Suc i)"
  by (rule chains_extend [OF assms(1) _ link_bucket_hash])
    (use assms link_bucket_shape [of ht i] in
      \<open>simp_all add: link_bucket_data same_shape_def Z_ISUNDEF_def\<close>)

text \<open>Buckets up to their chain links.\<close>

definition same_bucket :: "'v bucket \<Rightarrow> 'v bucket \<Rightarrow> bool" where
  "same_bucket p q = (b_val p = b_val q \<and> b_h p = b_h q \<and> b_key p = b_key q)"

lemma same_bucket_refl [simp]: "same_bucket p p"
  by (simp add: same_bucket_def)

lemma same_bucket_trans: "same_bucket p q \<Longrightarrow> same_bucket q r \<Longrightarrow> same_bucket p r"
  by (simp add: same_bucket_def)

lemma same_bucketD:
  assumes "same_bucket p q"
  shows "Z_ISUNDEF p = Z_ISUNDEF q" "entry_of p = entry_of q" "key_ok p = key_ok q"
    "key_of p = key_of q"
  using assms
  by (auto simp: same_bucket_def Z_ISUNDEF_def entry_of_def key_of_def key_ok_def split: option.splits)

lemma entries_upto_same:
  assumes "n \<le> length (arData ht)" "n \<le> length (arData ht')"
    "\<And>i. i < n \<Longrightarrow> same_bucket (arData ht' ! i) (arData ht ! i)"
  shows "entries_upto ht' n = entries_upto ht n"
proof -
  have "filter (\<lambda>i. live (arData ht' ! i)) [0..<n] = filter (\<lambda>i. live (arData ht ! i)) [0..<n]"
    by (rule filter_cong) (use assms(3) in \<open>auto simp: same_bucketD(1)\<close>)
  moreover have "map (\<lambda>i. entry_of (arData ht' ! i)) (filter (\<lambda>i. live (arData ht ! i)) [0..<n]) =
      map (\<lambda>i. entry_of (arData ht ! i)) (filter (\<lambda>i. live (arData ht ! i)) [0..<n])"
    by (rule map_cong) (use assms(3) in \<open>auto simp: same_bucketD(2)\<close>)
  ultimately show ?thesis using assms(1,2) by (simp add: entries_upto_conv)
qed

lemma link_bucket_same:
  "same_bucket (arData (link_bucket i ht) ! k) (arData ht ! k)"
  by (cases "i < length (arData ht)"; cases "k = i")
    (simp_all add: link_bucket_data same_bucket_def list_update_beyond)

lemma rehash_dense_spec:
  assumes "chains_upto ht i" "i < n" "n \<le> length (arData ht)" "n \<le> HT_INVALID_IDX"
    "\<And>h. slot ht h < length (ht_hash ht)"
    "\<And>k. i \<le> k \<Longrightarrow> k < n \<Longrightarrow> live (arData ht ! k)"
  shows "chains_upto (rehash_dense n i ht) n \<and> same_shape ht (rehash_dense n i ht) \<and>
    nNumUsed (rehash_dense n i ht) = nNumUsed ht \<and>
    nInternalPointer (rehash_dense n i ht) = nInternalPointer ht \<and>
    (\<forall>k. same_bucket (arData (rehash_dense n i ht) ! k) (arData ht ! k))"
  using assms
proof (induction n i ht rule: rehash_dense.induct)
  case (1 n i ht)
  let ?ht = "link_bucket i ht"
  have sh: "same_shape ht ?ht" by (rule link_bucket_shape)
  have ch: "chains_upto ?ht (Suc i)"
    by (rule link_bucket_chains) (use 1 in auto)
  show ?case
  proof (cases "i + 1 < n")
    case True
    then have eq: "rehash_dense n i ht = rehash_dense n (i + 1) ?ht"
      by (subst rehash_dense.simps) (simp add: Let_def)
    have "live (arData ?ht ! k)" if "i + 1 \<le> k" "k < n" for k
      using link_bucket_same [of i ht k] "1.prems"(6) [of k] that by (simp add: same_bucketD(1))
    moreover have "slot ?ht h < length (ht_hash ?ht)" for h
      using "1.prems"(5) sh by (simp add: same_shape_slot) (simp add: same_shape_def)
    ultimately have IH: "chains_upto (rehash_dense n (i + 1) ?ht) n \<and>
      same_shape ?ht (rehash_dense n (i + 1) ?ht) \<and>
      nNumUsed (rehash_dense n (i + 1) ?ht) = nNumUsed ?ht \<and>
      nInternalPointer (rehash_dense n (i + 1) ?ht) = nInternalPointer ?ht \<and>
      (\<forall>k. same_bucket (arData (rehash_dense n (i + 1) ?ht) ! k) (arData ?ht ! k))"
      using ch True "1.prems"(3,4) sh by (intro "1.IH") (auto simp: same_shape_def)
    then show ?thesis
      unfolding eq using sh link_bucket_same [of i ht]
      by (auto intro: same_shape_trans same_bucket_trans)
  next
    case False
    then have "rehash_dense n i ht = ?ht" "n = Suc i"
      using "1.prems"(2) by (subst rehash_dense.simps, simp_all add: Let_def)
    then show ?thesis using ch sh link_bucket_same [of i ht] by simp
  qed
qed


subsection \<open>The contents of a table, without the links\<close>

definition strip :: "'v bucket \<Rightarrow> 'v zval \<times> u64 \<times> zend_string option" where
  "strip p = (b_val p, b_h p, b_key p)"

definition content_upto :: "'v HashTable \<Rightarrow> nat \<Rightarrow> ('v zval \<times> u64 \<times> zend_string option) list" where
  "content_upto ht n = map strip (filter live (take n (arData ht)))"

definition content :: "'v HashTable \<Rightarrow> ('v zval \<times> u64 \<times> zend_string option) list" where
  "content ht = content_upto ht (nNumUsed ht)"

fun strip_entry :: "'v zval \<times> u64 \<times> zend_string option \<Rightarrow> hkey \<times> 'v zval" where
  "strip_entry (v, h, k) = ((case k of None \<Rightarrow> IKey h | Some s \<Rightarrow> SKey (zs_val s)), v)"

fun strip_key_ok :: "'v zval \<times> u64 \<times> zend_string option \<Rightarrow> bool" where
  "strip_key_ok (v, h, k) = (case k of None \<Rightarrow> True
     | Some s \<Rightarrow> h = zend_hash_func (zs_val s) \<and> zs_h s = h)"

lemma strip_simps [simp]:
  "strip_entry (strip p) = entry_of p" "strip_key_ok (strip p) = key_ok p"
  "fst (strip p) = b_val p"
  by (simp_all add: strip_def entry_of_def key_of_def key_ok_def)

lemma same_bucket_strip: "same_bucket p q \<longleftrightarrow> strip p = strip q"
  by (auto simp: same_bucket_def strip_def)

lemma entries_content: "entries ht = map strip_entry (content ht)"
  by (simp add: entries_def entries_upto_def content_def content_upto_def)

lemma key_ok_content:
  assumes "n \<le> length (arData ht)"
  shows "(\<forall>i < n. live (arData ht ! i) \<longrightarrow> key_ok (arData ht ! i)) \<longleftrightarrow>
    (\<forall>x \<in> set (content_upto ht n). strip_key_ok x)"
proof -
  have "content_upto ht n = map (\<lambda>i. strip (arData ht ! i)) (filter (\<lambda>i. live (arData ht ! i)) [0..<n])"
    using assms by (simp add: content_upto_def map_filter_take_conv)
  then show ?thesis by auto
qed

lemma content_upto_same:
  assumes "n \<le> length (arData ht)" "n \<le> length (arData ht')"
    "\<And>i. i < n \<Longrightarrow> same_bucket (arData ht' ! i) (arData ht ! i)"
  shows "content_upto ht' n = content_upto ht n"
proof -
  have "filter (\<lambda>i. live (arData ht' ! i)) [0..<n] = filter (\<lambda>i. live (arData ht ! i)) [0..<n]"
    by (rule filter_cong) (use assms(3) in \<open>auto simp: same_bucketD(1)\<close>)
  moreover have "map (\<lambda>i. strip (arData ht' ! i)) (filter (\<lambda>i. live (arData ht ! i)) [0..<n]) =
      map (\<lambda>i. strip (arData ht ! i)) (filter (\<lambda>i. live (arData ht ! i)) [0..<n])"
    by (rule map_cong) (use assms(3) in \<open>auto simp: same_bucket_strip\<close>)
  ultimately show ?thesis
    using assms(1,2) by (simp add: content_upto_def map_filter_take_conv)
qed

lemma content_upto_Suc:
  "n < length (arData ht) \<Longrightarrow>
   content_upto ht (Suc n) = content_upto ht n @
     (if live (arData ht ! n) then [strip (arData ht ! n)] else [])"
  by (simp add: content_upto_def take_Suc_conv_app_nth)

lemma content_upto_all_live:
  assumes "n \<le> length (arData ht)" "\<And>k. k < n \<Longrightarrow> live (arData ht ! k)"
  shows "content_upto ht n = map strip (take n (arData ht))" "length (content_upto ht n) = n"
proof -
  have "filter live (take n (arData ht)) = take n (arData ht)"
    using assms by (auto simp: filter_id_conv in_set_conv_nth)
  then show "content_upto ht n = map strip (take n (arData ht))" "length (content_upto ht n) = n"
    using assms(1) by (simp_all add: content_upto_def)
qed

lemma length_content_le: "length (content_upto ht n) \<le> n"
  by (auto simp: content_upto_def intro: le_trans [OF length_filter_le])

lemma length_content_less:
  assumes "k < n" "n \<le> length (arData ht)" "Z_ISUNDEF (arData ht ! k)"
  shows "length (content_upto ht n) < n"
proof -
  have "take n (arData ht) ! k \<in> set (take n (arData ht))"
    using assms by (intro nth_mem) simp
  then have "arData ht ! k \<in> set (take n (arData ht))" using assms by simp
  then have "length (filter live (take n (arData ht))) < length (take n (arData ht))"
    by (rule length_filter_less) (simp add: assms)
  with assms(2) show ?thesis by (simp add: content_upto_def)
qed

subsection \<open>Compaction\<close>

lemma move_bucket_data:
  "arData (move_bucket i j ht) = (arData ht)[j := (arData ht ! j)
     \<lparr>b_val := b_val (arData ht ! i), b_h := b_h (arData ht ! i), b_key := b_key (arData ht ! i),
      b_next := ht_hash ht ! slot ht (b_h (arData ht ! i))\<rparr>]"
  by (simp add: move_bucket_def upd_bucket_def HT_HASH_set_def Let_def HT_HASH_slot)

lemma move_bucket_hash:
  "ht_hash (move_bucket i j ht) = (ht_hash ht)[slot ht (b_h (arData ht ! i)) := j]"
  by (simp add: move_bucket_def upd_bucket_def HT_HASH_set_def Let_def slot_def HT_HASH_pos_def)

lemma move_bucket_shape: "same_shape ht (move_bucket i j ht)"
  by (simp add: same_shape_def move_bucket_def upd_bucket_def HT_HASH_set_def Let_def)

lemma move_bucket_used [simp]: "nNumUsed (move_bucket i j ht) = nNumUsed ht"
  by (simp add: move_bucket_def upd_bucket_def HT_HASH_set_def Let_def)

lemma move_bucket_other: "k \<noteq> j \<Longrightarrow> arData (move_bucket i j ht) ! k = arData ht ! k"
  by (simp add: move_bucket_data)

lemma move_bucket_moved:
  "j < length (arData ht) \<Longrightarrow> strip (arData (move_bucket i j ht) ! j) = strip (arData ht ! i)"
  by (simp add: move_bucket_data strip_def)

lemma live_strip: "strip p = strip q \<Longrightarrow> Z_ISUNDEF p = Z_ISUNDEF q"
  by (simp add: strip_def Z_ISUNDEF_def)

lemma move_bucket_chains:
  assumes "chains_upto ht j" "live (arData ht ! i)" "j < length (arData ht)"
    "j < HT_INVALID_IDX" "\<And>h. slot ht h < length (ht_hash ht)"
  shows "chains_upto (move_bucket i j ht) (Suc j)"
  by (rule chains_extend [OF assms(1) _ move_bucket_hash])
    (use assms move_bucket_shape [of ht i j] in
      \<open>simp_all add: move_bucket_data same_shape_def Z_ISUNDEF_def\<close>)

definition compacted :: "'v HashTable \<Rightarrow> nat \<Rightarrow> nat \<Rightarrow> nat \<Rightarrow> 'v HashTable \<Rightarrow> bool" where
  "compacted ht n i j ht' =
     (let m = nNumUsed ht' in j \<le> m \<and> m \<le> n \<and> chains_upto ht' m \<and> same_shape ht ht' \<and>
        (\<forall>k < m. live (arData ht' ! k)) \<and>
        map strip (take m (arData ht')) = map strip (take j (arData ht)) @
          map strip (filter live (drop (Suc i) (take n (arData ht)))))"

lemma compact_spec:
  assumes "j \<le> i" "i < n" "n \<le> length (arData ht)" "n \<le> HT_INVALID_IDX"
    "\<And>h. slot ht h < length (ht_hash ht)" "chains_upto ht j"
    "\<And>k. k < j \<Longrightarrow> live (arData ht ! k)"
  shows "compacted ht n i j (compact n i j ht)"
  using assms
proof (induction n i j ht rule: compact.induct)
  case (1 n i j ht)
  show ?case
  proof (cases "i + 1 < n")
    case False
    then have "compact n i j ht = ht\<lparr>nNumUsed := j\<rparr>" by (subst compact.simps) simp
    moreover have "chains_upto (ht\<lparr>nNumUsed := j\<rparr>) j"
      by (rule chains_cong [OF "1.prems"(6)]) simp_all
    ultimately show ?thesis
      using 1 False by (simp add: compacted_def same_shape_def)
  next
    case True
    have dr: "drop (Suc i) (take n (arData ht)) =
        arData ht ! (i + 1) # drop (Suc (i + 1)) (take n (arData ht))"
      using True "1.prems"(3) by (subst Cons_nth_drop_Suc [symmetric]) simp_all
    show ?thesis
    proof (cases "live (arData ht ! (i + 1))")
      case False
      then have "compact n i j ht = compact n (i + 1) j ht"
        using True by (subst compact.simps) simp
      moreover have "compacted ht n (i + 1) j (compact n (i + 1) j ht)"
        by (rule "1.IH"(2)) (use 1 True False in auto)
      ultimately show ?thesis using False by (simp add: compacted_def dr)
    next
      case lv: True
      let ?ht = "move_bucket (i + 1) j ht"
      have sh: "same_shape ht ?ht" by (rule move_bucket_shape)
      have jl: "j < length (arData ht)" using "1.prems" by simp
      have "live (arData ?ht ! k)" if "k < j + 1" for k
        using that "1.prems"(7) [of k] lv move_bucket_moved [OF jl, of "i + 1"]
        by (cases "k = j") (auto simp: move_bucket_other dest: live_strip)
      moreover have "slot ?ht h < length (ht_hash ?ht)" for h
        using "1.prems"(5) sh by (simp add: same_shape_slot) (simp add: same_shape_def)
      moreover have "chains_upto ?ht (j + 1)"
        using move_bucket_chains [of ht j "i + 1"] 1 lv jl by simp
      ultimately have IH: "compacted ?ht n (i + 1) (j + 1) (compact n (i + 1) (j + 1) ?ht)"
        using True lv "1.prems" sh by (intro "1.IH"(1)) (auto simp: same_shape_def)
      have pre: "map strip (take (j + 1) (arData ?ht)) =
          map strip (take j (arData ht)) @ [strip (arData ht ! (i + 1))]"
      proof -
        have "take (j + 1) (arData ?ht) = take j (arData ?ht) @ [arData ?ht ! j]"
          using jl sh by (simp add: take_Suc_conv_app_nth same_shape_def)
        moreover have "take j (arData ?ht) = take j (arData ht)"
          by (simp add: move_bucket_data)
        ultimately show ?thesis using move_bucket_moved [OF jl] by simp
      qed
      have post: "drop (Suc (i + 1)) (take n (arData ?ht)) = drop (Suc (i + 1)) (take n (arData ht))"
        using "1.prems"(1) by (simp add: move_bucket_data drop_update_cancel take_update_swap)
      have eq: "compact n i j ht = compact n (i + 1) (j + 1) ?ht"
        using True lv by (subst compact.simps) simp
      show ?thesis
        unfolding eq using IH sh lv
        by (auto simp: compacted_def Let_def pre [simplified] post [simplified] dr [simplified]
          intro: same_shape_trans)
    qed
  qed
qed


subsection \<open>Migrating the iterators returns\<close>

definition same_env :: "'v env \<Rightarrow> 'v env \<Rightarrow> bool" where
  "same_env e e' = (e_slots e' = e_slots e \<and> e_iters_used e' = e_iters_used e \<and>
     e_log e' = e_log e \<and> e_fresh e' = e_fresh e \<and> e_junk e' = e_junk e \<and>
     e_junk_hash e' = e_junk_hash e)"

lemma same_env_refl [simp]: "same_env e e"
  by (simp add: same_env_def)

lemma same_env_trans: "same_env a b \<Longrightarrow> same_env b c \<Longrightarrow> same_env a c"
  by (simp add: same_env_def)

lemma same_env_update [simp]: "same_env e (zend_hash_iterators_update e ht i j)"
  by (simp add: same_env_def)

lemma iter_migrate_returns:
  assumes "i < nNumUsed ht"
  shows "\<exists>e' p. iter_migrate e ht i j ip = Some (e', p) \<and> same_env e e'"
proof (induction "i - ip" arbitrary: e ip rule: less_induct)
  case less
  let ?e = "zend_hash_iterators_update e ht ip j"
  let ?p = "zend_hash_iterators_lower_pos ?e ht (ip + 1)"
  show ?case
  proof (cases "?p < i")
    case False
    then show ?thesis by (subst iter_migrate.simps) (simp add: Let_def)
  next
    case True
    have "ip + 1 \<le> nNumUsed ht"
    proof (rule ccontr)
      assume n: "\<not> ip + 1 \<le> nNumUsed ht"
      have "lower_pos_loop a s r its = r" if "r < s" for a s r its
        using that by (induction a s r its rule: lower_pos_loop.induct) auto
      with n have "?p = nNumUsed ht" by (simp add: zend_hash_iterators_lower_pos_def)
      with True assms show False by simp
    qed
    then have "ip + 1 \<le> ?p"
      by (simp add: zend_hash_iterators_lower_pos_def lower_pos_loop_ge del: One_nat_def)
    with True have "i - ?p < i - ip" by simp
    then obtain e' p where "iter_migrate ?e ht i j ?p = Some (e', p)" "same_env ?e e'"
      using less by blast
    then show ?thesis
      using True same_env_trans [OF same_env_update, of e ht ip j e']
      by (subst iter_migrate.simps) (simp add: Let_def)
  qed
qed

lemma compact_iters_eq:
  assumes "nNumUsed ht = n"
  shows "\<exists>e'. compact_iters n i j ip e ht = Inr (e', compact n i j ht) \<and> same_env e e'"
  using assms
proof (induction n i j ht arbitrary: ip e rule: compact.induct)
  case (1 n i j ht)
  show ?case
  proof (cases "i + 1 < n")
    case False
    then show ?thesis by (simp add: compact.simps [of n i j] compact_iters.simps [of n i j])
  next
    case True
    show ?thesis
    proof (cases "live (arData ht ! (i + 1))")
      case False
      from "1.IH"(2) [OF True] False "1.prems" obtain e' where
        "compact_iters n (i + 1) j ip e ht = Inr (e', compact n (i + 1) j ht)" "same_env e e'"
        by fastforce
      with True False show ?thesis
        by (simp add: compact.simps [of n i j] compact_iters.simps [of n i j])
    next
      case lv: True
      let ?ht = "move_bucket (i + 1) j ht"
      obtain e1 p where m: "iter_migrate e ?ht (i + 1) j ip = Some (e1, p)" "same_env e e1"
        using iter_migrate_returns [of "i + 1" ?ht] True "1.prems" by fastforce
      have IH: "\<exists>e'. compact_iters n (i + 1) (j + 1) ip' e'' ?ht =
          Inr (e', compact n (i + 1) (j + 1) ?ht) \<and> same_env e'' e'" for ip' e''
        using "1.IH"(1) [OF True lv] "1.prems" by simp
      obtain e2 where e2: "compact_iters n (i + 1) (j + 1) p e1 ?ht =
          Inr (e2, compact n (i + 1) (j + 1) ?ht)" "same_env e1 e2"
        using IH by blast
      obtain e3 where e3: "compact_iters n (i + 1) (j + 1) ip e ?ht =
          Inr (e3, compact n (i + 1) (j + 1) ?ht)" "same_env e e3"
        using IH by blast
      show ?thesis
        using True lv m e2 e3 same_env_trans [OF m(2) e2(2)]
        by (simp add: compact.simps [of n i j] compact_iters.simps [of n i j] Let_def)
    qed
  qed
qed

subsection \<open>zend\_hash\_rehash\<close>

definition rehashed :: "'v HashTable \<Rightarrow> nat \<Rightarrow> 'v HashTable \<Rightarrow> bool" where
  "rehashed ht n ht' = (let m = nNumUsed ht' in m \<le> n \<and> chains_upto ht' m \<and> same_shape ht ht' \<and>
     (\<forall>k < m. live (arData ht' ! k)) \<and> content_upto ht' m = content_upto ht n)"

lemma compacted_rehashed:
  assumes c: "compacted ht n i i ht'" and i: "i < n" "n \<le> length (arData ht)"
    and hole: "Z_ISUNDEF (arData ht ! i)" and lv: "\<And>k. k < i \<Longrightarrow> live (arData ht ! k)"
  shows "rehashed ht n ht'"
proof -
  have len: "length (arData ht') = length (arData ht)"
    using c by (simp add: compacted_def Let_def same_shape_def)
  have "content_upto ht' (nNumUsed ht') = map strip (take (nNumUsed ht') (arData ht'))"
    using c i len by (intro content_upto_all_live) (auto simp: compacted_def Let_def)
  also have "\<dots> = map strip (take i (arData ht)) @
      map strip (filter live (drop (Suc i) (take n (arData ht))))"
    using c by (simp add: compacted_def Let_def)
  also have "map strip (take i (arData ht)) = content_upto ht i"
    using i lv by (intro content_upto_all_live(1) [symmetric]) auto
  also have "content_upto ht i @ map strip (filter live (drop (Suc i) (take n (arData ht)))) =
      content_upto ht n"
  proof -
    have "take n (arData ht) = take i (arData ht) @ arData ht ! i # drop (Suc i) (take n (arData ht))"
      using id_take_nth_drop [of i "take n (arData ht)"] i by (simp add: min_def)
    then have "filter live (take n (arData ht)) = filter live (take i (arData ht)) @
        filter live (arData ht ! i # drop (Suc i) (take n (arData ht)))"
      by (metis filter_append)
    then show ?thesis using hole by (simp add: content_upto_def)
  qed
  finally show ?thesis using c by (simp add: rehashed_def compacted_def Let_def)
qed

lemma rehash_holes_spec:
  assumes "chains_upto ht i" "i < n" "n \<le> length (arData ht)" "n \<le> HT_INVALID_IDX"
    "\<And>h. slot ht h < length (ht_hash ht)" "nNumUsed ht = n"
    "\<And>k. k < i \<Longrightarrow> live (arData ht ! k)"
  shows "\<exists>e' ht'. rehash_holes n i e ht = Inr (e', ht') \<and> same_env e e' \<and> rehashed ht n ht'"
  using assms
proof (induction n i e ht rule: rehash_holes.induct)
  case (1 n i e ht)
  show ?case
  proof (cases "Z_ISUNDEF (arData ht ! i)")
    case True
    have c: "rehashed ht n (compact n i i ht)"
      by (rule compacted_rehashed [OF compact_spec]) (use 1 True in auto)
    obtain e' where "compact_iters n i i (zend_hash_iterators_lower_pos e ht 0) e ht =
        Inr (e', compact n i i ht)" "same_env e e'"
      using compact_iters_eq "1.prems"(6) by blast
    with True c show ?thesis by (subst rehash_holes.simps) auto
  next
    case lv: False
    let ?ht = "link_bucket i ht"
    have sh: "same_shape ht ?ht" by (rule link_bucket_shape)
    have ch: "chains_upto ?ht (Suc i)" by (rule link_bucket_chains) (use 1 lv in auto)
    have live': "live (arData ?ht ! k)" if "k < Suc i" for k
      using that "1.prems"(7) [of k] lv link_bucket_same [of i ht k]
      by (cases "k = i") (auto simp: same_bucketD(1))
    have same: "content_upto ?ht n = content_upto ht n"
      by (rule content_upto_same) (use sh "1.prems"(3) link_bucket_same in \<open>auto simp: same_shape_def\<close>)
    show ?thesis
    proof (cases "i + 1 < n")
      case False
      then have n: "n = Suc i" using "1.prems"(2) by simp
      have "rehashed ht n ?ht"
        using ch sh live' same n "1.prems"(6) by (auto simp: rehashed_def)
      with False lv show ?thesis by (subst rehash_holes.simps) (auto simp: Let_def)
    next
      case True
      have "slot ?ht h < length (ht_hash ?ht)" for h
        using "1.prems"(5) sh by (simp add: same_shape_slot) (simp add: same_shape_def)
      then have "\<exists>e' ht'. rehash_holes n (i + 1) e ?ht = Inr (e', ht') \<and> same_env e e' \<and>
          rehashed ?ht n ht'"
        using True lv ch live' "1.prems"(3,4,6) sh
        by (intro "1.IH") (auto simp: same_shape_def)
      moreover have "rehash_holes n i e ht = rehash_holes n (i + 1) e ?ht"
        using True lv by (subst rehash_holes.simps) (simp add: Let_def)
      ultimately show ?thesis
        using same sh by (auto simp: rehashed_def Let_def intro: same_shape_trans)
    qed
  qed
qed


text \<open>The well-formedness that does not depend on the layout follows the contents.\<close>

lemma base_ok_alt:
  assumes "nNumUsed ht \<le> length (arData ht)"
  shows "base_ok ht \<longleftrightarrow> pow2_size (nTableSize ht) \<and> nNumUsed ht \<le> nTableSize ht \<and>
     (ht_initialized ht \<longrightarrow> length (arData ht) = nTableSize ht) \<and>
     nNumOfElements ht = length (content ht) \<and>
     distinct (map (fst \<circ> strip_entry) (content ht)) \<and>
     (\<forall>x \<in> set (content ht). strip_key_ok x)"
  using key_ok_content [OF assms] by (simp add: base_ok_def entries_content content_def)

lemma base_ok_content:
  assumes "base_ok ht" "content ht' = content ht" "ht_initialized ht'" "pow2_size (nTableSize ht')"
    "nNumUsed ht' \<le> nTableSize ht'" "length (arData ht') = nTableSize ht'"
    "nNumOfElements ht' = nNumOfElements ht" "nNumUsed ht \<le> length (arData ht)"
  shows "base_ok ht'"
  using assms(1) unfolding base_ok_alt [OF assms(8)]
  using assms(2-7) by (subst base_ok_alt) simp_all

definition ready_mixed :: "'v HashTable \<Rightarrow> bool" where
  "ready_mixed ht = (base_ok ht \<and> ht_initialized ht \<and> mixed_ok ht \<and> chains_upto ht (nNumUsed ht))"

lemma base_ok_lengths:
  assumes "base_ok ht" "ht_initialized ht"
  shows "nNumUsed ht \<le> length (arData ht)" "nNumUsed ht \<le> HT_INVALID_IDX"
  using assms pow2_size_bounds(3) [of "nTableSize ht"] by (auto simp: base_ok_def)

lemma HT_HASH_RESET_simps [simp]:
  "nNumUsed (HT_HASH_RESET ht) = nNumUsed ht" "arData (HT_HASH_RESET ht) = arData ht"
  "nNumOfElements (HT_HASH_RESET ht) = nNumOfElements ht"
  "nTableMask (HT_HASH_RESET ht) = nTableMask ht" "nTableSize (HT_HASH_RESET ht) = nTableSize ht"
  "ht_initialized (HT_HASH_RESET ht) = ht_initialized ht"
  by (simp_all add: HT_HASH_RESET_def)

theorem zend_hash_rehash_ok:
  assumes ok: "base_ok ht" "ht_initialized ht"
    and m: "nTableMask ht = HT_SIZE_TO_MASK (nTableSize ht)"
  shows "\<exists>e' ht'. zend_hash_rehash e ht = Inr (e', ht') \<and> same_env e e' \<and> ready_mixed ht' \<and>
    content ht' = content ht \<and> nNumUsed ht' = nNumOfElements ht \<and> same_shape (HT_HASH_RESET ht) ht'"
proof -
  let ?r = "HT_HASH_RESET ht"
  have p2: "pow2_size (nTableSize ht)" using ok by (simp add: base_ok_def)
  note len = base_ok_lengths [OF ok]
  have mx: "mixed_ok ?r"
    using m p2 by (simp add: mixed_ok_def HT_HASH_RESET_def hash_size_pow2)
  have ch0: "chains_upto ?r 0" by (rule chains_reset) (simp add: HT_HASH_RESET_def)
  have sl: "slot ?r h < length (ht_hash ?r)" for h
    using mixed_slot_bound [OF mx] p2 by simp
  have cnt: "nNumOfElements ht = length (content ht)"
    using ok len base_ok_alt by blast
  have fin: "ready_mixed ht' \<and> content ht' = content ht \<and> nNumUsed ht' = nNumOfElements ht"
    if r: "rehashed ?r (nNumUsed ht) ht'" for ht'
  proof -
    have sh: "same_shape ?r ht'" using r by (simp add: rehashed_def Let_def)
    have c: "content ht' = content ht"
      using r by (simp add: rehashed_def Let_def content_def content_upto_def)
    have "length (content_upto ht' (nNumUsed ht')) = nNumUsed ht'"
      using r len sh by (intro content_upto_all_live) (auto simp: rehashed_def Let_def same_shape_def)
    then have u: "nNumUsed ht' = nNumOfElements ht" using c cnt by (simp add: content_def)
    have "base_ok ht'"
      by (rule base_ok_content [OF ok(1) c])
        (use sh r ok len p2 in \<open>auto simp: same_shape_def rehashed_def Let_def base_ok_def\<close>)
    moreover have "mixed_ok ht'" using mx sh by (simp add: mixed_ok_def same_shape_def)
    ultimately show ?thesis
      using r c u ok sh by (simp add: ready_mixed_def rehashed_def Let_def same_shape_def)
  qed
  consider (empty) "nNumOfElements ht = 0"
    | (dense) "nNumOfElements ht \<noteq> 0" "HT_IS_WITHOUT_HOLES ?r"
    | (holes) "nNumOfElements ht \<noteq> 0" "\<not> HT_IS_WITHOUT_HOLES ?r"
    by blast
  then show ?thesis
  proof cases
    case empty
    let ?ht' = "HT_HASH_RESET (ht\<lparr>nNumUsed := 0\<rparr>)"
    have c: "content ht = []" using empty cnt by simp
    have "base_ok ?ht'"
      by (rule base_ok_content [OF ok(1)])
        (use ok p2 len c empty in \<open>simp_all add: content_def content_upto_def base_ok_def\<close>)
    moreover have "mixed_ok ?ht'"
      using m hash_size_pow2 [OF p2] by (simp add: mixed_ok_def HT_HASH_RESET_def)
    moreover have "chains_upto ?ht' 0" by (rule chains_reset) (simp add: HT_HASH_RESET_def)
    ultimately show ?thesis
      using empty ok c by (simp add: zend_hash_rehash_def ready_mixed_def content_def
          content_upto_def same_shape_def HT_HASH_RESET_def)
  next
    case dense
    have used: "nNumUsed ht = length (content ht)"
      using dense(2) cnt by (simp add: HT_IS_WITHOUT_HOLES_def)
    have lv: "live (arData ?r ! k)" if "k < nNumUsed ht" for k
    proof -
      have "\<not> length (content_upto ht (nNumUsed ht)) < nNumUsed ht"
        using used unfolding content_def by linarith
      then show ?thesis using length_content_less [OF that len(1)] by auto
    qed
    let ?ht' = "rehash_dense (nNumUsed ht) 0 ?r"
    have d: "chains_upto ?ht' (nNumUsed ht)" "same_shape ?r ?ht'" "nNumUsed ?ht' = nNumUsed ht"
      "\<And>k. same_bucket (arData ?ht' ! k) (arData ?r ! k)"
      using rehash_dense_spec [OF ch0 _ _ len(2) sl lv] len dense(1) cnt used by auto
    have "content_upto ?ht' (nNumUsed ht) = content_upto ?r (nNumUsed ht)"
      by (rule content_upto_same) (use d len in \<open>auto simp: same_shape_def\<close>)
    moreover have "live (arData ?ht' ! k)" if "k < nNumUsed ht" for k
      using same_bucketD(1) [OF d(4) [of k]] lv [OF that] by simp
    ultimately have "rehashed ?r (nNumUsed ht) ?ht'"
      using d by (auto simp: rehashed_def Let_def)
    note r = fin [OF this]
    have "zend_hash_rehash e ht = Inr (e, ?ht')"
      using dense by (simp add: zend_hash_rehash_def Let_def)
    with r d(2) same_env_refl [of e] show ?thesis by blast
  next
    case holes
    have "0 < nNumUsed ht"
      using holes(1) cnt length_content_le [of ht "nNumUsed ht"] unfolding content_def by linarith
    then obtain e' ht' where "rehash_holes (nNumUsed ht) 0 e ?r = Inr (e', ht')" "same_env e e'"
      "rehashed ?r (nNumUsed ht) ht'"
      using rehash_holes_spec [OF ch0 _ _ len(2) sl, of e] len by auto
    with fin holes show ?thesis
      by (auto simp: zend_hash_rehash_def Let_def rehashed_def)
  qed
qed

subsection \<open>Resizing and conversion\<close>

definition keeps :: "'v HashTable \<Rightarrow> 'v HashTable \<Rightarrow> bool" where
  "keeps ht ht' = (content ht' = content ht \<and> nNextFreeElement ht' = nNextFreeElement ht \<and>
     pDestructor ht' = pDestructor ht \<and> ht_addr ht' = ht_addr ht \<and>
     nIteratorsCount ht' = nIteratorsCount ht \<and> ht_has_empty_ind ht' = ht_has_empty_ind ht \<and>
     nNumOfElements ht' = nNumOfElements ht)"

lemma keeps_refl [simp]: "keeps ht ht"
  by (simp add: keeps_def)

lemma keeps_trans: "keeps a b \<Longrightarrow> keeps b c \<Longrightarrow> keeps a c"
  by (simp add: keeps_def)

lemma keeps_entries: "keeps ht ht' \<Longrightarrow> entries ht' = entries ht"
  by (simp add: keeps_def entries_content)

lemma keeps_next_free: "keeps ht ht' \<Longrightarrow> next_free_ok ht' = next_free_ok ht"
  by (simp add: next_free_ok_def keeps_entries) (simp add: keeps_def)

lemma content_realloc_mixed:
  "nNumUsed ht \<le> length (arData ht) \<Longrightarrow> content (realloc_mixed e sz ht) = content ht"
  by (simp add: content_def content_upto_def realloc_mixed_def realloc_buckets_def)

lemma realloc_mixed_rehash:
  assumes ok: "base_ok ht" "ht_initialized ht" and sz: "pow2_size sz" "nNumUsed ht \<le> sz"
  shows "\<exists>e' ht'. zend_hash_rehash e (realloc_mixed e sz (ht\<lparr>nTableSize := sz, ht_packed := pk\<rparr>)) =
      Inr (e', ht') \<and> same_env e e' \<and> ready_mixed ht' \<and> keeps ht ht' \<and>
      nNumUsed ht' = nNumOfElements ht \<and> nTableSize ht' = sz \<and> ht_packed ht' = pk \<and>
      ht_static_keys ht' = ht_static_keys ht"
proof -
  let ?ht = "realloc_mixed e sz (ht\<lparr>nTableSize := sz, ht_packed := pk\<rparr>)"
  note len = base_ok_lengths [OF ok]
  have c: "content ?ht = content ht"
    using len content_realloc_mixed [of "ht\<lparr>nTableSize := sz, ht_packed := pk\<rparr>" e sz]
    by (simp add: content_def content_upto_def)
  have "base_ok ?ht"
    by (rule base_ok_content [OF ok(1) c])
      (use ok sz len in \<open>auto simp: realloc_mixed_def realloc_buckets_def\<close>)
  moreover have "nTableMask ?ht = HT_SIZE_TO_MASK (nTableSize ?ht)" "ht_initialized ?ht"
    using ok by (simp_all add: realloc_mixed_def)
  ultimately obtain e' ht' where r: "zend_hash_rehash e ?ht = Inr (e', ht')" "same_env e e'"
    "ready_mixed ht'" "content ht' = content ?ht" "nNumUsed ht' = nNumOfElements ?ht"
    "same_shape (HT_HASH_RESET ?ht) ht'"
    using zend_hash_rehash_ok by blast
  have "keeps ht ht' \<and> nTableSize ht' = sz \<and> ht_packed ht' = pk \<and>
      ht_static_keys ht' = ht_static_keys ht"
    using r(4,6) c by (simp add: keeps_def same_shape_def HT_HASH_RESET_def realloc_mixed_def)
  with r c show ?thesis by (auto simp: realloc_mixed_def)
qed

lemma pow2_size_double:
  assumes "pow2_size n" "n < 2 ^ 30"
  shows "pow2_size (n + n)"
proof -
  from assms(1) obtain k where k: "3 \<le> k" "n = 2 ^ k" by (auto simp: pow2_size_def)
  have "k < 30"
  proof (rule ccontr)
    assume "\<not> k < 30"
    then have "(2 :: nat) ^ 30 \<le> 2 ^ k" by (intro power_increasing) simp_all
    with assms(2) k show False by simp
  qed
  with k show ?thesis by (auto simp: pow2_size_def intro!: exI [of _ "Suc k"])
qed

lemma zend_hash_packed_to_hash_ok:
  assumes "base_ok ht" "ht_initialized ht"
  shows "\<exists>e' ht'. zend_hash_packed_to_hash e ht = Inr (e', ht') \<and> same_env e e' \<and>
      ready_mixed ht' \<and> keeps ht ht' \<and> nNumUsed ht' = nNumOfElements ht \<and>
      nTableSize ht' = nTableSize ht \<and> \<not> ht_packed ht' \<and>
      ht_static_keys ht' = ht_static_keys ht"
proof -
  have "ht\<lparr>nTableSize := nTableSize ht, ht_packed := False\<rparr> = ht\<lparr>ht_packed := False\<rparr>" by simp
  with realloc_mixed_rehash [OF assms, of "nTableSize ht" e False] assms(1) show ?thesis
    by (simp add: zend_hash_packed_to_hash_def base_ok_def)
qed

end
