(* ===== verification/Zend_Hash_Find.thy ===== *)
theory Zend_Hash_Find
  imports Zend_Hash_Rehash_Correct
begin

section \<open>Lookup (Zend/zend\_hash.c, Zend/zend\_hash.h)\<close>

text \<open>
  A lookup returns the number of the bucket whose value it found (the C code returns
  \<open>&p->val\<close>), or \<open>None\<close> for \<open>NULL\<close>.  The walk along a chain is a partial function: it
  gives no result when it leaves the bucket array or does not end, and the lookups turn that
  into \<open>Inl UB\<close>.  The lemmas show that on a well-formed table every walk ends with the
  bucket \<open>locate\<close> names, the only live bucket in use with that key.
\<close>

subsection \<open>Walking a chain\<close>

partial_function (option) chain_find ::
    "('v bucket \<Rightarrow> bool) \<Rightarrow> 'v HashTable \<Rightarrow> nat \<Rightarrow> nat option option" where
  "chain_find P ht idx =
     (if idx = HT_INVALID_IDX then Some None
      else if idx \<ge> length (arData ht) then None
      else if P (arData ht ! idx) then Some (Some idx)
      else chain_find P ht (b_next (arData ht ! idx)))"

definition of_walk :: "'a option \<Rightarrow> 'a res" where
  "of_walk w = (case w of None \<Rightarrow> Inl UB | Some r \<Rightarrow> Inr r)"

text \<open>\<open>p->key == key\<close>, and the content comparison of the loop.\<close>

definition same_key_ptr :: "zend_string \<Rightarrow> 'v bucket \<Rightarrow> bool" where
  "same_key_ptr key p = (case b_key p of None \<Rightarrow> False | Some s \<Rightarrow> zs_ptr s = zs_ptr key)"

definition same_key_content :: "zend_string \<Rightarrow> 'v bucket \<Rightarrow> bool" where
  "same_key_content key p = (b_h p = zs_h key \<and>
     (case b_key p of None \<Rightarrow> False | Some s \<Rightarrow> zend_string_equal_content s key))"

partial_function (option) find_bucket_loop ::
    "zend_string \<Rightarrow> 'v HashTable \<Rightarrow> nat \<Rightarrow> nat option option" where
  "find_bucket_loop key ht idx =
     (if same_key_content key (arData ht ! idx) then Some (Some idx)
      else let idx = b_next (arData ht ! idx)
           in if idx = HT_INVALID_IDX then Some None
              else if idx \<ge> length (arData ht) then None
              else if same_key_ptr key (arData ht ! idx) then Some (Some idx)
              else find_bucket_loop key ht idx)"

text \<open>The key comes back with its hash cached.\<close>

definition zend_hash_find_bucket ::
    "'v HashTable \<Rightarrow> zend_string \<Rightarrow> bool \<Rightarrow> (nat option \<times> zend_string) res" where
  "zend_hash_find_bucket ht key known_hash =
     (let (h, key) = (if known_hash then (zs_h key, key) else zend_string_hash_val key);
          nIndex = ht_nIndex ht h;
          idx = HT_HASH ht nIndex
      in if idx = HT_INVALID_IDX then Inr (None, key)
         else if idx \<ge> length (arData ht) then Inl UB
         else if same_key_ptr key (arData ht ! idx) then Inr (Some idx, key)
         else rbind (of_walk (find_bucket_loop key ht idx)) (\<lambda>r. Inr (r, key)))"

definition str_key_match :: "bytes \<Rightarrow> u64 \<Rightarrow> 'v bucket \<Rightarrow> bool" where
  "str_key_match str h p = (b_h p = h \<and> (case b_key p of None \<Rightarrow> False
     | Some s \<Rightarrow> ZSTR_LEN s = length str \<and> take (length str) (zs_val s) = str))"

definition zend_hash_str_find_bucket :: "'v HashTable \<Rightarrow> bytes \<Rightarrow> u64 \<Rightarrow> nat option res" where
  "zend_hash_str_find_bucket ht str h =
     (let nIndex = ht_nIndex ht h;
          idx = HT_HASH ht nIndex
      in of_walk (chain_find (str_key_match str h) ht idx))"

definition index_key_match :: "u64 \<Rightarrow> 'v bucket \<Rightarrow> bool" where
  "index_key_match h p = (b_h p = h \<and> b_key p = None)"

definition zend_hash_index_find_bucket :: "'v HashTable \<Rightarrow> u64 \<Rightarrow> nat option res" where
  "zend_hash_index_find_bucket ht h =
     (let nIndex = ht_nIndex ht h;
          idx = HT_HASH ht nIndex
      in of_walk (chain_find (index_key_match h) ht idx))"

subsection \<open>The lookup API\<close>

definition zend_hash_find :: "'v HashTable \<Rightarrow> zend_string \<Rightarrow> nat option res" where
  "zend_hash_find ht key = rbind (zend_hash_find_bucket ht key False) (\<lambda>(p, _). Inr p)"

definition zend_hash_find_known_hash :: "'v HashTable \<Rightarrow> zend_string \<Rightarrow> nat option res" where
  "zend_hash_find_known_hash ht key = rbind (zend_hash_find_bucket ht key True) (\<lambda>(p, _). Inr p)"

definition zend_hash_str_find :: "'v HashTable \<Rightarrow> bytes \<Rightarrow> nat option res" where
  "zend_hash_str_find ht str =
     (let h = zend_inline_hash_func str in zend_hash_str_find_bucket ht str h)"

definition zend_hash_exists :: "'v HashTable \<Rightarrow> zend_string \<Rightarrow> bool res" where
  "zend_hash_exists ht key = rbind (zend_hash_find_bucket ht key False) (\<lambda>(p, _). Inr (p \<noteq> None))"

definition zend_hash_str_exists :: "'v HashTable \<Rightarrow> bytes \<Rightarrow> bool res" where
  "zend_hash_str_exists ht str =
     (let h = zend_inline_hash_func str
      in rbind (zend_hash_str_find_bucket ht str h) (\<lambda>p. Inr (p \<noteq> None)))"

definition zend_hash_index_find :: "'v HashTable \<Rightarrow> u64 \<Rightarrow> nat option res" where
  "zend_hash_index_find ht h =
     (if ht_packed ht then
        (if unat h < nNumUsed ht \<and> live (arData ht ! unat h) then Inr (Some (unat h)) else Inr None)
      else zend_hash_index_find_bucket ht h)"

text \<open>\<open>_zend_hash_index_find\<close> is for tables known not to be packed.\<close>

definition zend_hash_index_find_mixed :: "'v HashTable \<Rightarrow> u64 \<Rightarrow> nat option res" where
  "zend_hash_index_find_mixed ht h = zend_hash_index_find_bucket ht h"

definition zend_hash_index_exists :: "'v HashTable \<Rightarrow> u64 \<Rightarrow> bool res" where
  "zend_hash_index_exists ht h =
     (if ht_packed ht then Inr (unat h < nNumUsed ht \<and> live (arData ht ! unat h))
      else rbind (zend_hash_index_find_bucket ht h) (\<lambda>p. Inr (p \<noteq> None)))"

text \<open>
  The \<open>_ind\<close> variants of the header follow an \<open>IS_INDIRECT\<close> value to its slot and treat an
  undefined slot as absent; the result is the zval found.
\<close>

definition deref_ind :: "'v env \<Rightarrow> 'v HashTable \<Rightarrow> nat option \<Rightarrow> 'v zval option" where
  "deref_ind e ht zv =
     (case zv of None \<Rightarrow> None
      | Some i \<Rightarrow> (case b_val (arData ht ! i) of
            IS_INDIRECT a \<Rightarrow> (if e_slots e a \<noteq> IS_UNDEF then Some (e_slots e a) else None)
          | v \<Rightarrow> Some v))"

definition zend_hash_find_ind :: "'v env \<Rightarrow> 'v HashTable \<Rightarrow> zend_string \<Rightarrow> 'v zval option res" where
  "zend_hash_find_ind e ht key = rbind (zend_hash_find ht key) (\<lambda>zv. Inr (deref_ind e ht zv))"

definition zend_hash_exists_ind :: "'v env \<Rightarrow> 'v HashTable \<Rightarrow> zend_string \<Rightarrow> bool res" where
  "zend_hash_exists_ind e ht key =
     rbind (zend_hash_find ht key) (\<lambda>zv. Inr (case zv of None \<Rightarrow> False
       | Some i \<Rightarrow> (case b_val (arData ht ! i) of IS_INDIRECT a \<Rightarrow> e_slots e a \<noteq> IS_UNDEF
                     | _ \<Rightarrow> True)))"

definition zend_hash_str_find_ind :: "'v env \<Rightarrow> 'v HashTable \<Rightarrow> bytes \<Rightarrow> 'v zval option res" where
  "zend_hash_str_find_ind e ht str = rbind (zend_hash_str_find ht str) (\<lambda>zv. Inr (deref_ind e ht zv))"

definition zend_hash_str_exists_ind :: "'v env \<Rightarrow> 'v HashTable \<Rightarrow> bytes \<Rightarrow> bool res" where
  "zend_hash_str_exists_ind e ht str =
     rbind (zend_hash_str_find ht str) (\<lambda>zv. Inr (case zv of None \<Rightarrow> False
       | Some i \<Rightarrow> (case b_val (arData ht ! i) of IS_INDIRECT a \<Rightarrow> e_slots e a \<noteq> IS_UNDEF
                     | _ \<Rightarrow> True)))"

subsection \<open>Where a key is\<close>

fun hkey_hash :: "hkey \<Rightarrow> u64" where
  "hkey_hash (IKey h) = h"
| "hkey_hash (SKey s) = zend_hash_func s"

definition locate :: "'v HashTable \<Rightarrow> hkey \<Rightarrow> nat option" where
  "locate ht k = find (\<lambda>i. live (arData ht ! i) \<and> key_of (arData ht ! i) = k) [0..<nNumUsed ht]"

lemma key_of_hash: "key_ok p \<Longrightarrow> b_h p = hkey_hash (key_of p)"
  by (auto simp: key_ok_def key_of_def split: option.splits)

lemma key_ok_Some:
  assumes "key_ok p" "b_key p = Some s"
  shows "b_h p = zend_hash_func (zs_val s)" "zs_h s = zend_hash_func (zs_val s)"
  using assms by (auto simp: key_ok_def)

lemma locate_Some:
  assumes "locate ht k = Some i"
  shows "i < nNumUsed ht" "live (arData ht ! i)" "key_of (arData ht ! i) = k"
  using assms by (auto simp: locate_def find_Some_iff)

lemma locate_None:
  assumes "locate ht k = None" "i < nNumUsed ht" "live (arData ht ! i)"
  shows "key_of (arData ht ! i) \<noteq> k"
  using assms by (auto simp: locate_def find_None_iff)

lemma locate_unique:
  assumes "base_ok ht" "nNumUsed ht \<le> length (arData ht)"
    "i < nNumUsed ht" "live (arData ht ! i)" "key_of (arData ht ! i) = k"
  shows "locate ht k = Some i"
  unfolding locate_def
proof (rule find_unique)
  show "\<forall>y \<in> set [0..<nNumUsed ht]. live (arData ht ! y) \<and> key_of (arData ht ! y) = k \<longrightarrow> y = i"
    using assms distinct_keys_idx [of ht "nNumUsed ht"]
    by (auto simp: base_ok_def entries_def)
qed (use assms in auto)

lemma map_of_entries:
  assumes "nNumUsed ht \<le> length (arData ht)"
  shows "map_of (entries ht) k = map_option (\<lambda>i. b_val (arData ht ! i)) (locate ht k)"
proof -
  have "map_of (map (\<lambda>i. entry_of (arData ht ! i)) (filter (\<lambda>i. live (arData ht ! i)) is)) k =
      map_option (\<lambda>i. b_val (arData ht ! i))
        (find (\<lambda>i. live (arData ht ! i) \<and> key_of (arData ht ! i) = k) is)" for "is"
    by (induction "is") (auto simp: entry_of_def)
  with assms show ?thesis by (simp add: entries_def entries_upto_conv locate_def)
qed

lemma locate_None_iff:
  assumes "nNumUsed ht \<le> length (arData ht)"
  shows "locate ht k = None \<longleftrightarrow> k \<notin> fst ` set (entries ht)"
  using map_of_entries [OF assms, of k] map_of_eq_None_iff [of "entries ht" k]
  by (cases "locate ht k") simp_all

subsection \<open>The walks find it\<close>

lemma chain_find_chain:
  assumes "chain HT_INVALID_IDX (nexts ht) idx is" "\<And>i. i \<in> set is \<Longrightarrow> i < length (arData ht)"
  shows "chain_find P ht idx = Some (find (\<lambda>i. P (arData ht ! i)) is)"
  using assms
proof (induction "is" arbitrary: idx)
  case Nil
  then show ?case by (subst chain_find.simps) simp
next
  case (Cons a as)
  then have "chain_find P ht (nexts ht a) = Some (find (\<lambda>i. P (arData ht ! i)) as)" by simp
  moreover have "a < length (arData ht)" using Cons.prems(2) by simp
  moreover have "idx = a" "a \<noteq> HT_INVALID_IDX" using Cons.prems(1) by simp_all
  ultimately show ?case by (subst chain_find.simps) (simp add: nexts_def)
qed

lemma find_bucket_loop_chain:
  assumes "chain HT_INVALID_IDX (nexts ht) idx (idx # is)"
    "\<And>i. i \<in> set (idx # is) \<Longrightarrow> i < length (arData ht)" "\<not> same_key_ptr key (arData ht ! idx)"
  shows "find_bucket_loop key ht idx =
    Some (find (\<lambda>i. same_key_ptr key (arData ht ! i) \<or> same_key_content key (arData ht ! i)) (idx # is))"
  using assms
proof (induction "is" arbitrary: idx)
  case Nil
  then show ?case by (subst find_bucket_loop.simps) (simp add: nexts_def Let_def)
next
  case (Cons a as)
  then have ch: "chain HT_INVALID_IDX (nexts ht) a (a # as)" and nx: "a = nexts ht idx"
    and a: "a \<noteq> HT_INVALID_IDX" "a < length (arData ht)"
    by auto
  from nx have nx': "b_next (arData ht ! idx) = a" by (simp add: nexts_def)
  show ?case
  proof (cases "same_key_ptr key (arData ht ! a)")
    case True
    with Cons.prems(3) a nx' show ?thesis by (subst find_bucket_loop.simps) (simp add: Let_def)
  next
    case False
    have "find_bucket_loop key ht a = Some (find (\<lambda>i. same_key_ptr key (arData ht ! i) \<or>
        same_key_content key (arData ht ! i)) (a # as))"
      using Cons.IH [OF ch _ False] Cons.prems(2) by simp
    with False Cons.prems(3) a nx' show ?thesis
      by (subst find_bucket_loop.simps) (simp add: Let_def)
  qed
qed

lemma ready_mixed_lengths:
  assumes "ready_mixed ht"
  shows "nNumUsed ht \<le> length (arData ht)" "slot ht h < length (ht_hash ht)"
    "length (arData ht) < HT_INVALID_IDX"
  using assms base_ok_lengths [of ht] mixed_slot_bound [of ht h]
    pow2_size_bounds(3) [of "nTableSize ht"]
  by (auto simp: ready_mixed_def base_ok_def)

lemma members_locate:
  assumes r: "ready_mixed ht"
    and P: "\<And>i. i < nNumUsed ht \<Longrightarrow> live (arData ht ! i) \<Longrightarrow> P (arData ht ! i) \<longleftrightarrow> key_of (arData ht ! i) = k"
  shows "find (\<lambda>i. P (arData ht ! i)) (members ht (nNumUsed ht) (slot ht (hkey_hash k))) = locate ht k"
proof (cases "locate ht k")
  case None
  then show ?thesis
    using locate_None [OF None] P
    by (auto simp: find_None_iff members_mem in_slot_def)
next
  case (Some i)
  note loc = locate_Some [OF Some]
  have b: "base_ok ht" using r by (simp add: ready_mixed_def)
  have "key_ok (arData ht ! i)" using b loc by (simp add: base_ok_def)
  then have "b_h (arData ht ! i) = hkey_hash k" using key_of_hash loc(3) by blast
  then have mem: "i \<in> set (members ht (nNumUsed ht) (slot ht (hkey_hash k)))"
    using loc by (simp add: members_mem in_slot_def)
  have "find (\<lambda>i. P (arData ht ! i)) (members ht (nNumUsed ht) (slot ht (hkey_hash k))) = Some i"
  proof (rule find_unique [OF mem])
    show "P (arData ht ! i)" using loc P by simp
    show "\<forall>y \<in> set (members ht (nNumUsed ht) (slot ht (hkey_hash k))). P (arData ht ! y) \<longrightarrow> y = i"
    proof (intro ballI impI)
      fix y assume y: "y \<in> set (members ht (nNumUsed ht) (slot ht (hkey_hash k)))" "P (arData ht ! y)"
      then have "y < nNumUsed ht" "live (arData ht ! y)" by (auto simp: members_mem in_slot_def)
      with y P have "locate ht k = Some y"
        using locate_unique [OF b ready_mixed_lengths(1) [OF r]] by blast
      with Some show "y = i" by simp
    qed
  qed
  with Some show ?thesis by simp
qed

lemma mixed_chain:
  assumes "ready_mixed ht"
  shows "chain HT_INVALID_IDX (nexts ht) (HT_HASH ht (ht_nIndex ht h)) (members ht (nNumUsed ht) (slot ht h))"
    and "i \<in> set (members ht (nNumUsed ht) (slot ht h)) \<Longrightarrow> i < length (arData ht)"
  using assms ready_mixed_lengths [OF assms]
  by (auto simp: HT_HASH_slot ready_mixed_def chains_upto_def members_mem intro: less_le_trans)

lemma str_find_mixed:
  assumes "ready_mixed ht"
  shows "zend_hash_str_find_bucket ht str (zend_hash_func str) = Inr (locate ht (SKey str))"
proof -
  have key: "key_ok (arData ht ! i)" if "i < nNumUsed ht" "live (arData ht ! i)" for i
    using assms that by (simp add: ready_mixed_def base_ok_def)
  have "find (\<lambda>i. str_key_match str (zend_hash_func str) (arData ht ! i))
      (members ht (nNumUsed ht) (slot ht (hkey_hash (SKey str)))) = locate ht (SKey str)"
    by (intro members_locate [OF assms])
      (auto simp: str_key_match_def key_of_def ZSTR_LEN_def dest: key key_ok_Some
        split: option.splits)
  then show ?thesis
    using chain_find_chain [OF mixed_chain [OF assms]]
    by (simp add: zend_hash_str_find_bucket_def Let_def of_walk_def)
qed

lemma index_find_mixed:
  assumes "ready_mixed ht"
  shows "zend_hash_index_find_bucket ht h = Inr (locate ht (IKey h))"
proof -
  have "find (\<lambda>i. index_key_match h (arData ht ! i))
      (members ht (nNumUsed ht) (slot ht (hkey_hash (IKey h)))) = locate ht (IKey h)"
    by (intro members_locate [OF assms])
      (auto simp: index_key_match_def key_of_def split: option.splits)
  then show ?thesis
    using chain_find_chain [OF mixed_chain [OF assms]]
    by (simp add: zend_hash_index_find_bucket_def Let_def of_walk_def)
qed

text \<open>
  A key pointer stored in the table stands for the same bytes as the key looked up: both
  point to one string.
\<close>

definition ptr_coherent :: "'v HashTable \<Rightarrow> zend_string \<Rightarrow> bool" where
  "ptr_coherent ht key = (\<forall>i < nNumUsed ht. live (arData ht ! i) \<longrightarrow>
     (case b_key (arData ht ! i) of None \<Rightarrow> True
      | Some s \<Rightarrow> zs_ptr s = zs_ptr key \<longrightarrow> zs_val s = zs_val key))"

lemma find_bucket_mixed:
  assumes r: "ready_mixed ht" and co: "ptr_coherent ht key" and ok: "zs_ok key"
    and kn: "known \<longrightarrow> zs_h key \<noteq> 0"
  shows "zend_hash_find_bucket ht key known =
    Inr (locate ht (SKey (zs_val key)), key\<lparr>zs_h := zend_hash_func (zs_val key)\<rparr>)"
proof -
  let ?h = "zend_hash_func (zs_val key)"
  let ?key = "key\<lparr>zs_h := ?h\<rparr>"
  let ?mem = "members ht (nNumUsed ht) (slot ht ?h)"
  let ?P = "\<lambda>i. same_key_ptr ?key (arData ht ! i) \<or> same_key_content ?key (arData ht ! i)"
  have hk: "(if known then (zs_h key, key) else zend_string_hash_val key) = (?h, ?key)"
    using ok kn zend_string_hash_val_ok [OF ok]
    by (cases "zend_string_hash_val key") (auto simp: zs_ok_def)
  have key: "key_ok (arData ht ! i)" if "i < nNumUsed ht" "live (arData ht ! i)" for i
    using r that by (simp add: ready_mixed_def base_ok_def)
  have loc: "find ?P ?mem = locate ht (SKey (zs_val key))"
  proof -
    have "find ?P (members ht (nNumUsed ht) (slot ht (hkey_hash (SKey (zs_val key))))) =
        locate ht (SKey (zs_val key))"
    proof (rule members_locate [OF r])
      fix i assume i: "i < nNumUsed ht" "live (arData ht ! i)"
      show "?P i \<longleftrightarrow> key_of (arData ht ! i) = SKey (zs_val key)"
      proof (cases "b_key (arData ht ! i)")
        case None
        then show ?thesis by (simp add: same_key_ptr_def same_key_content_def key_of_def)
      next
        case (Some s)
        then have "b_h (arData ht ! i) = zend_hash_func (zs_val s)"
          using key_ok_Some key i by blast
        moreover have "zs_ptr s = zs_ptr key \<longrightarrow> zs_val s = zs_val key"
          using co i Some by (auto simp: ptr_coherent_def split: option.splits)
        ultimately show ?thesis
          using Some by (auto simp: same_key_ptr_def same_key_content_def key_of_def)
      qed
    qed
    then show ?thesis by simp
  qed
  note ch = mixed_chain [OF r, where h = ?h]
  show ?thesis
  proof (cases ?mem)
    case Nil
    then show ?thesis using ch(1) loc hk
      by (simp add: zend_hash_find_bucket_def Let_def)
  next
    case (Cons a as)
    then have a: "HT_HASH ht (ht_nIndex ht ?h) = a" "a \<noteq> HT_INVALID_IDX" "a < length (arData ht)"
      using ch by auto
    show ?thesis
    proof (cases "same_key_ptr ?key (arData ht ! a)")
      case True
      then show ?thesis using a loc hk Cons by (simp add: zend_hash_find_bucket_def Let_def)
    next
      case False
      have "find_bucket_loop ?key ht a = Some (find ?P (a # as))"
        by (rule find_bucket_loop_chain) (use ch Cons a False in auto)
      then show ?thesis
        using False a loc hk Cons by (simp add: zend_hash_find_bucket_def Let_def of_walk_def)
    qed
  qed
qed


subsection \<open>Lookup on a well-formed table\<close>

lemma ht_inv_cases:
  assumes "ht_inv ht"
  obtains (uninit) "\<not> ht_initialized ht" "uninit_ok ht" "base_ok ht"
    | (packed) "ht_initialized ht" "ht_packed ht" "packed_ok ht" "base_ok ht"
    | (mixed) "\<not> ht_packed ht" "ready_mixed ht"
  using assms by (auto simp: ht_inv_def ready_mixed_def split: if_splits)

lemma ht_inv_base: "ht_inv ht \<Longrightarrow> base_ok ht"
  by (simp add: ht_inv_def)

lemma ht_inv_used:
  assumes "ht_inv ht"
  shows "nNumUsed ht \<le> length (arData ht)"
  using assms base_ok_lengths(1) [of ht] by (auto simp: ht_inv_def uninit_ok_def split: if_splits)

lemma no_heads:
  assumes "nTableMask ht = HT_MIN_MASK" "ht_hash ht = uninitialized_bucket"
  shows "HT_HASH ht (ht_nIndex ht h) = HT_INVALID_IDX"
  using min_mask_slot [OF assms(1), of h] assms(2)
  by (auto simp: HT_HASH_slot uninitialized_bucket_def less_2_cases_iff)

text \<open>An uninitialised or packed table holds no string key, and its heads are empty.\<close>

lemma no_string_keys:
  assumes "ht_inv ht" "\<not> (\<not> ht_packed ht \<and> ready_mixed ht)"
  shows "locate ht (SKey s) = None" "HT_HASH ht (ht_nIndex ht h) = HT_INVALID_IDX"
proof -
  show "locate ht (SKey s) = None"
    using assms(1)
  proof (cases rule: ht_inv_cases)
    case uninit
    then show ?thesis by (simp add: locate_def uninit_ok_def)
  next
    case packed
    then show ?thesis by (auto simp: locate_def find_None_iff packed_ok_def key_of_def)
  qed (use assms(2) in simp)
  show "HT_HASH ht (ht_nIndex ht h) = HT_INVALID_IDX"
    using assms by (cases rule: ht_inv_cases) (auto simp: uninit_ok_def packed_ok_def no_heads)
qed

lemma find_bucket_ok:
  assumes "ht_inv ht" "ptr_coherent ht key" "zs_ok key" "known \<longrightarrow> zs_h key \<noteq> 0"
  shows "zend_hash_find_bucket ht key known =
    Inr (locate ht (SKey (zs_val key)), key\<lparr>zs_h := zend_hash_func (zs_val key)\<rparr>)"
proof (cases "\<not> ht_packed ht \<and> ready_mixed ht")
  case True
  then show ?thesis using find_bucket_mixed assms by blast
next
  case False
  have "(if known then (zs_h key, key) else zend_string_hash_val key) =
      (zend_hash_func (zs_val key), key\<lparr>zs_h := zend_hash_func (zs_val key)\<rparr>)"
    using assms(3,4) zend_string_hash_val_ok [OF assms(3)]
    by (cases "zend_string_hash_val key") (auto simp: zs_ok_def)
  then show ?thesis
    using no_string_keys [OF assms(1) False] by (simp add: zend_hash_find_bucket_def Let_def)
qed

lemma str_find_bucket_ok:
  assumes "ht_inv ht"
  shows "zend_hash_str_find_bucket ht str (zend_hash_func str) = Inr (locate ht (SKey str))"
proof (cases "\<not> ht_packed ht \<and> ready_mixed ht")
  case True
  then show ?thesis using str_find_mixed by blast
next
  case False
  then show ?thesis
    using no_string_keys [OF assms False]
    by (simp add: zend_hash_str_find_bucket_def Let_def chain_find.simps of_walk_def)
qed

lemma packed_locate:
  assumes "base_ok ht" "packed_ok ht" "ht_initialized ht"
  shows "locate ht (IKey h) =
    (if unat h < nNumUsed ht \<and> live (arData ht ! unat h) then Some (unat h) else None)"
proof (cases "unat h < nNumUsed ht \<and> live (arData ht ! unat h)")
  case True
  then have "key_of (arData ht ! unat h) = IKey h"
    using assms(2) by (simp add: packed_ok_def key_of_def)
  then show ?thesis
    using True locate_unique [OF assms(1) base_ok_lengths(1) [OF assms(1,3)]] by simp
next
  case False
  have "nNumUsed ht \<le> 2 ^ 30"
    using assms(1) pow2_size_bounds [of "nTableSize ht"] by (simp add: base_ok_def)
  then have "unat (of_nat i :: u64) = i" if "i < nNumUsed ht" for i
    using that by (simp add: unsigned_of_nat take_bit_nat_eq_self)
  then have "locate ht (IKey h) = None"
    using False assms(2) by (auto simp: locate_def find_None_iff packed_ok_def key_of_def)
  with False show ?thesis by simp
qed

lemma index_find_ok:
  assumes "ht_inv ht"
  shows "zend_hash_index_find ht h = Inr (locate ht (IKey h))"
  using assms
proof (cases rule: ht_inv_cases)
  case uninit
  then show ?thesis
    using no_heads [of ht h]
    by (simp add: zend_hash_index_find_def zend_hash_index_find_bucket_def uninit_ok_def Let_def
        chain_find.simps of_walk_def locate_def)
next
  case packed
  show ?thesis
    unfolding packed_locate [OF packed(4,3,1)] using packed by (simp add: zend_hash_index_find_def)
next
  case mixed
  then show ?thesis using index_find_mixed by (simp add: zend_hash_index_find_def)
qed

lemma index_find_bucket_ok:
  assumes "ht_inv ht" "\<not> ht_packed ht"
  shows "zend_hash_index_find_bucket ht h = Inr (locate ht (IKey h))"
  using index_find_ok [OF assms(1)] assms(2) by (simp add: zend_hash_index_find_def)

end
