(* ===== verification/Zend_Hash_Update.thy ===== *)
theory Zend_Hash_Update
  imports Zend_Hash_Find
begin

section \<open>Insertion and update (Zend/zend\_hash.c)\<close>

text \<open>
  The three insertion routines (by \<open>zend_string\<close>, by byte string, by integer key) and
  the API functions that call them with fixed flags.  They return where the value was
  stored (\<open>None\<close> for \<open>NULL\<close>), the environment and the table.  The destructor call on an
  overwritten value and the reference count changes of keys are logged in the environment.
\<close>

datatype zptr = AtBucket nat | AtSlot nat

type_synonym 'v ins = "(zptr option \<times> 'v env \<times> 'v HashTable) res"

definition HASH_UPDATE :: u32 where "HASH_UPDATE = 1"
definition HASH_ADD :: u32 where "HASH_ADD = 2"
definition HASH_UPDATE_INDIRECT :: u32 where "HASH_UPDATE_INDIRECT = 4"
definition HASH_ADD_NEW :: u32 where "HASH_ADD_NEW = 8"
definition HASH_ADD_NEXT :: u32 where "HASH_ADD_NEXT = 16"

lemmas hash_flags [c_defs] = HASH_UPDATE_def HASH_ADD_def HASH_UPDATE_INDIRECT_def
  HASH_ADD_NEW_def HASH_ADD_NEXT_def

definition call_dtor :: "'v env \<Rightarrow> 'v HashTable \<Rightarrow> 'v zval \<Rightarrow> 'v env" where
  "call_dtor e ht v = (if pDestructor ht then log_effect (Dtor v) e else e)"

text \<open>\<open>ZVAL_COPY_VALUE(data, pData)\<close> after the destructor call on \<open>*data\<close>.\<close>

definition overwrite :: "'v env \<Rightarrow> 'v HashTable \<Rightarrow> zptr \<Rightarrow> 'v zval \<Rightarrow> zptr option \<times> 'v env \<times> 'v HashTable" where
  "overwrite e ht data pData =
     (case data of
        AtBucket i \<Rightarrow>
          (Some data, call_dtor e ht (b_val (arData ht ! i)), upd_bucket i (\<lambda>p. p\<lparr>b_val := pData\<rparr>) ht)
      | AtSlot a \<Rightarrow>
          (let e = call_dtor e ht (e_slots e a)
           in (Some data, e\<lparr>e_slots := (e_slots e)(a := pData)\<rparr>, ht)))"

definition ZEND_HASH_IF_FULL_DO_RESIZE :: "'v env \<Rightarrow> 'v HashTable \<Rightarrow> ('v env \<times> 'v HashTable) res" where
  "ZEND_HASH_IF_FULL_DO_RESIZE e ht =
     (if nNumUsed ht \<ge> nTableSize ht then zend_hash_do_resize e ht else Inr (e, ht))"

subsection \<open>By string key\<close>

text \<open>The \<open>if (p)\<close> block: the key was found in bucket \<open>i\<close>.\<close>

definition update_existing ::
    "'v env \<Rightarrow> 'v HashTable \<Rightarrow> nat \<Rightarrow> 'v zval \<Rightarrow> u32 \<Rightarrow> zptr option \<times> 'v env \<times> 'v HashTable" where
  "update_existing e ht i pData flag =
     (if flag AND HASH_ADD \<noteq> 0 then
        (if flag AND HASH_UPDATE_INDIRECT = 0 then (None, e, ht)
         else case b_val (arData ht ! i) of
             IS_INDIRECT a \<Rightarrow>
               (if e_slots e a \<noteq> IS_UNDEF then (None, e, ht) else overwrite e ht (AtSlot a) pData)
           | _ \<Rightarrow> (None, e, ht))
      else
        (case b_val (arData ht ! i) of
             IS_INDIRECT a \<Rightarrow>
               overwrite e ht (if flag AND HASH_UPDATE_INDIRECT \<noteq> 0 then AtSlot a else AtBucket i) pData
           | _ \<Rightarrow> overwrite e ht (AtBucket i) pData))"

definition addref_key :: "zend_string \<Rightarrow> 'v env \<times> 'v HashTable \<Rightarrow> 'v env \<times> 'v HashTable" where
  "addref_key key = (\<lambda>(e, ht). if zs_interned key then (e, ht)
     else (log_effect (Addref (zs_ptr key)) e, ht\<lparr>ht_static_keys := False\<rparr>))"

text \<open>The interned keys have their hash; the others get it here.\<close>

definition hashed_key :: "zend_string \<Rightarrow> zend_string" where
  "hashed_key key = (if zs_interned key then key else snd (zend_string_hash_val key))"

text \<open>The label \<open>add_to_hash\<close>.\<close>

definition add_to_hash :: "zend_string \<Rightarrow> 'v zval \<Rightarrow> 'v env \<times> 'v HashTable \<Rightarrow> zptr option \<times> 'v env \<times> 'v HashTable" where
  "add_to_hash key pData = (\<lambda>(e, ht).
     (let idx = nNumUsed ht;
          ht = ht\<lparr>nNumUsed := nNumUsed ht + 1\<rparr>;
          ht = ht\<lparr>nNumOfElements := nNumOfElements ht + 1\<rparr>;
          h = zs_h key;
          nIndex = ht_nIndex ht h;
          ht = upd_bucket idx (\<lambda>p. p\<lparr>b_key := Some key, b_h := h, b_next := HT_HASH ht nIndex\<rparr>) ht;
          ht = HT_HASH_set ht nIndex idx;
          ht = upd_bucket idx (\<lambda>p. p\<lparr>b_val := pData\<rparr>) ht
      in (Some (AtBucket idx), e, ht)))"

definition zend_hash_add_or_update_i ::
    "'v env \<Rightarrow> 'v HashTable \<Rightarrow> zend_string \<Rightarrow> 'v zval \<Rightarrow> u32 \<Rightarrow> 'v ins" where
  "zend_hash_add_or_update_i e ht key pData flag =
     (if \<not> ht_initialized ht then
        (let ht = zend_hash_real_init_mixed e ht
         in Inr (add_to_hash (hashed_key key) pData (addref_key key (e, ht))))
      else if ht_packed ht then
        rbind (zend_hash_packed_to_hash e ht) (\<lambda>(e, ht).
          (let (e, ht) = addref_key key (e, ht); key = hashed_key key
           in rbind (ZEND_HASH_IF_FULL_DO_RESIZE e ht) (\<lambda>s. Inr (add_to_hash key pData s))))
      else if flag AND HASH_ADD_NEW = 0 then
        rbind (zend_hash_find_bucket ht key False) (\<lambda>(p, key).
          (case p of
             Some i \<Rightarrow> Inr (update_existing e ht i pData flag)
           | None \<Rightarrow>
               (let (e, ht) = addref_key key (e, ht)
                in rbind (ZEND_HASH_IF_FULL_DO_RESIZE e ht) (\<lambda>s. Inr (add_to_hash key pData s)))))
      else
        (let (e, ht) = addref_key key (e, ht); key = hashed_key key
         in rbind (ZEND_HASH_IF_FULL_DO_RESIZE e ht) (\<lambda>s. Inr (add_to_hash key pData s))))"

definition zend_hash_add where
  "zend_hash_add e ht key pData = zend_hash_add_or_update_i e ht key pData HASH_ADD"

definition zend_hash_update where
  "zend_hash_update e ht key pData = zend_hash_add_or_update_i e ht key pData HASH_UPDATE"

definition zend_hash_update_ind where
  "zend_hash_update_ind e ht key pData =
     zend_hash_add_or_update_i e ht key pData (HASH_UPDATE OR HASH_UPDATE_INDIRECT)"

definition zend_hash_add_new where
  "zend_hash_add_new e ht key pData = zend_hash_add_or_update_i e ht key pData HASH_ADD_NEW"

definition zend_hash_add_or_update ::
    "'v env \<Rightarrow> 'v HashTable \<Rightarrow> zend_string \<Rightarrow> 'v zval \<Rightarrow> u32 \<Rightarrow> 'v ins" where
  "zend_hash_add_or_update e ht key pData flag =
     (if flag = HASH_ADD then zend_hash_add e ht key pData
      else if flag = HASH_ADD_NEW then zend_hash_add_new e ht key pData
      else if flag = HASH_UPDATE then zend_hash_update e ht key pData
      else zend_hash_update_ind e ht key pData)"

definition zend_hash_add_empty_element :: "'v env \<Rightarrow> 'v HashTable \<Rightarrow> zend_string \<Rightarrow> 'v ins" where
  "zend_hash_add_empty_element e ht key = zend_hash_add e ht key IS_NULL"

subsection \<open>By byte string\<close>

text \<open>The key is a new string; it is created when the entry is.\<close>

definition str_add_to_hash ::
    "bytes \<Rightarrow> u64 \<Rightarrow> 'v zval \<Rightarrow> 'v env \<times> 'v HashTable \<Rightarrow> zptr option \<times> 'v env \<times> 'v HashTable" where
  "str_add_to_hash str h pData = (\<lambda>(e, ht).
     (let idx = nNumUsed ht;
          ht = ht\<lparr>nNumUsed := nNumUsed ht + 1\<rparr>;
          ht = ht\<lparr>nNumOfElements := nNumOfElements ht + 1\<rparr>;
          key = (zend_string_init (e_fresh e) str)\<lparr>zs_h := h\<rparr>;
          e = e\<lparr>e_fresh := e_fresh e + 1\<rparr>;
          ht = upd_bucket idx (\<lambda>p. p\<lparr>b_key := Some key, b_h := h\<rparr>) ht;
          ht = ht\<lparr>ht_static_keys := False\<rparr>;
          ht = upd_bucket idx (\<lambda>p. p\<lparr>b_val := pData\<rparr>) ht;
          nIndex = ht_nIndex ht h;
          ht = upd_bucket idx (\<lambda>p. p\<lparr>b_next := HT_HASH ht nIndex\<rparr>) ht;
          ht = HT_HASH_set ht nIndex idx
      in (Some (AtBucket idx), e, ht)))"

definition zend_hash_str_add_or_update_i ::
    "'v env \<Rightarrow> 'v HashTable \<Rightarrow> bytes \<Rightarrow> u64 \<Rightarrow> 'v zval \<Rightarrow> u32 \<Rightarrow> 'v ins" where
  "zend_hash_str_add_or_update_i e ht str h pData flag =
     (if \<not> ht_initialized ht then
        Inr (str_add_to_hash str h pData (e, zend_hash_real_init_mixed e ht))
      else if ht_packed ht then
        rbind (zend_hash_packed_to_hash e ht) (\<lambda>(e, ht).
          rbind (ZEND_HASH_IF_FULL_DO_RESIZE e ht) (\<lambda>s. Inr (str_add_to_hash str h pData s)))
      else if flag AND HASH_ADD_NEW = 0 then
        rbind (zend_hash_str_find_bucket ht str h) (\<lambda>p.
          (case p of
             Some i \<Rightarrow> Inr (update_existing e ht i pData flag)
           | None \<Rightarrow>
               rbind (ZEND_HASH_IF_FULL_DO_RESIZE e ht) (\<lambda>s. Inr (str_add_to_hash str h pData s))))
      else rbind (ZEND_HASH_IF_FULL_DO_RESIZE e ht) (\<lambda>s. Inr (str_add_to_hash str h pData s)))"

definition zend_hash_str_update where
  "zend_hash_str_update e ht str pData =
     (let h = zend_hash_func str in zend_hash_str_add_or_update_i e ht str h pData HASH_UPDATE)"

definition zend_hash_str_update_ind where
  "zend_hash_str_update_ind e ht str pData =
     (let h = zend_hash_func str
      in zend_hash_str_add_or_update_i e ht str h pData (HASH_UPDATE OR HASH_UPDATE_INDIRECT))"

definition zend_hash_str_add where
  "zend_hash_str_add e ht str pData =
     (let h = zend_hash_func str in zend_hash_str_add_or_update_i e ht str h pData HASH_ADD)"

definition zend_hash_str_add_new where
  "zend_hash_str_add_new e ht str pData =
     (let h = zend_hash_func str in zend_hash_str_add_or_update_i e ht str h pData HASH_ADD_NEW)"

definition zend_hash_str_add_or_update ::
    "'v env \<Rightarrow> 'v HashTable \<Rightarrow> bytes \<Rightarrow> 'v zval \<Rightarrow> u32 \<Rightarrow> 'v ins" where
  "zend_hash_str_add_or_update e ht str pData flag =
     (if flag = HASH_ADD then zend_hash_str_add e ht str pData
      else if flag = HASH_ADD_NEW then zend_hash_str_add_new e ht str pData
      else if flag = HASH_UPDATE then zend_hash_str_update e ht str pData
      else zend_hash_str_update_ind e ht str pData)"

definition zend_hash_str_add_empty_element :: "'v env \<Rightarrow> 'v HashTable \<Rightarrow> bytes \<Rightarrow> 'v ins" where
  "zend_hash_str_add_empty_element e ht str = zend_hash_str_add e ht str IS_NULL"

subsection \<open>By integer key\<close>

text \<open>The label \<open>replace\<close>.\<close>

definition replace :: "'v env \<Rightarrow> 'v HashTable \<Rightarrow> nat \<Rightarrow> 'v zval \<Rightarrow> u32 \<Rightarrow> zptr option \<times> 'v env \<times> 'v HashTable" where
  "replace e ht i pData flag =
     (if flag AND HASH_ADD \<noteq> 0 then (None, e, ht) else overwrite e ht (AtBucket i) pData)"

text \<open>The label \<open>add\<close>: the bucket of the new element is number \<open>i\<close>.\<close>

definition add_element :: "nat \<Rightarrow> u64 \<Rightarrow> 'v zval \<Rightarrow> 'v env \<times> 'v HashTable \<Rightarrow> zptr option \<times> 'v env \<times> 'v HashTable" where
  "add_element i h pData = (\<lambda>(e, ht).
     (let ht = ht\<lparr>nNumOfElements := nNumOfElements ht + 1\<rparr>;
          ht = upd_bucket i (\<lambda>p. p\<lparr>b_h := h, b_key := None, b_val := pData\<rparr>) ht
      in (Some (AtBucket i), e, ht)))"

text \<open>\<open>while (q != p) ZVAL_UNDEF(&q->val), q++\<close> over the buckets from \<open>q\<close> to \<open>p\<close>.\<close>

definition undef_range :: "nat \<Rightarrow> nat \<Rightarrow> 'v HashTable \<Rightarrow> 'v HashTable" where
  "undef_range q p ht = fold (\<lambda>i. upd_bucket i (\<lambda>b. b\<lparr>b_val := IS_UNDEF\<rparr>)) [q..<p] ht"

definition add_to_packed ::
    "u64 \<Rightarrow> 'v zval \<Rightarrow> u32 \<Rightarrow> 'v env \<times> 'v HashTable \<Rightarrow> zptr option \<times> 'v env \<times> 'v HashTable" where
  "add_to_packed h pData flag = (\<lambda>(e, ht).
     (let ht = (if flag AND (HASH_ADD_NEW OR HASH_ADD_NEXT) \<noteq> HASH_ADD_NEW OR HASH_ADD_NEXT
                   \<and> unat h > nNumUsed ht
                then undef_range (nNumUsed ht) (unat h) ht else ht);
          ht = ht\<lparr>nNumUsed := unat h + 1\<rparr>;
          ht = ht\<lparr>nNextFreeElement := of_nat (nNumUsed ht)\<rparr>
      in add_element (unat h) h pData (e, ht)))"

text \<open>The code after the layout has been settled as mixed: a new bucket at the end.\<close>

definition add_to_mixed ::
    "u64 \<Rightarrow> 'v zval \<Rightarrow> 'v env \<times> 'v HashTable \<Rightarrow> zptr option \<times> 'v env \<times> 'v HashTable" where
  "add_to_mixed h pData = (\<lambda>(e, ht).
     (let idx = nNumUsed ht;
          ht = ht\<lparr>nNumUsed := nNumUsed ht + 1\<rparr>;
          nIndex = ht_nIndex ht h;
          ht = upd_bucket idx (\<lambda>p. p\<lparr>b_next := HT_HASH ht nIndex\<rparr>) ht;
          ht = HT_HASH_set ht nIndex idx;
          ht = (if sint h \<ge> sint (nNextFreeElement ht)
                then ht\<lparr>nNextFreeElement := (if h < 0x7fffffffffffffff then h + 1 else 0x7fffffffffffffff)\<rparr>
                else ht)
      in add_element idx h pData (e, ht)))"

definition zend_hash_index_add_or_update_i ::
    "'v env \<Rightarrow> 'v HashTable \<Rightarrow> u64 \<Rightarrow> 'v zval \<Rightarrow> u32 \<Rightarrow> 'v ins" where
  "zend_hash_index_add_or_update_i e ht h pData flag =
     (if ht_packed ht then
        (if unat h < nNumUsed ht then
           (if live (arData ht ! unat h) then Inr (replace e ht (unat h) pData flag)
            else rbind (zend_hash_packed_to_hash e ht) (\<lambda>s. Inr (add_to_mixed h pData s)))
         else if unat h < nTableSize ht then Inr (add_to_packed h pData flag (e, ht))
         else if unat (drop_bit 1 h) < nTableSize ht \<and> nTableSize ht div 2 < nNumOfElements ht then
           rbind (zend_hash_packed_grow e ht) (\<lambda>ht. Inr (add_to_packed h pData flag (e, ht)))
         else
           (let ht = (if nNumUsed ht \<ge> nTableSize ht
                      then ht\<lparr>nTableSize := (nTableSize ht + nTableSize ht) mod 2 ^ 32\<rparr> else ht)
            in rbind (zend_hash_packed_to_hash e ht) (\<lambda>s. Inr (add_to_mixed h pData s))))
      else if \<not> ht_initialized ht then
        (if unat h < nTableSize ht then
           Inr (add_to_packed h pData flag (e, zend_hash_real_init_packed_ex e ht))
         else Inr (add_to_mixed h pData (e, zend_hash_real_init_mixed e ht)))
      else if flag AND HASH_ADD_NEW = 0 then
        rbind (zend_hash_index_find_bucket ht h) (\<lambda>p.
          (case p of
             Some i \<Rightarrow> Inr (replace e ht i pData flag)
           | None \<Rightarrow> rbind (ZEND_HASH_IF_FULL_DO_RESIZE e ht) (\<lambda>s. Inr (add_to_mixed h pData s))))
      else rbind (ZEND_HASH_IF_FULL_DO_RESIZE e ht) (\<lambda>s. Inr (add_to_mixed h pData s)))"

definition zend_hash_index_add where
  "zend_hash_index_add e ht h pData = zend_hash_index_add_or_update_i e ht h pData HASH_ADD"

definition zend_hash_index_add_new where
  "zend_hash_index_add_new e ht h pData =
     zend_hash_index_add_or_update_i e ht h pData (HASH_ADD OR HASH_ADD_NEW)"

definition zend_hash_index_update where
  "zend_hash_index_update e ht h pData = zend_hash_index_add_or_update_i e ht h pData HASH_UPDATE"

definition zend_hash_next_index_insert where
  "zend_hash_next_index_insert e ht pData =
     zend_hash_index_add_or_update_i e ht (nNextFreeElement ht) pData (HASH_ADD OR HASH_ADD_NEXT)"

definition zend_hash_next_index_insert_new where
  "zend_hash_next_index_insert_new e ht pData =
     zend_hash_index_add_or_update_i e ht (nNextFreeElement ht) pData
       (HASH_ADD OR HASH_ADD_NEW OR HASH_ADD_NEXT)"

definition zend_hash_index_add_or_update ::
    "'v env \<Rightarrow> 'v HashTable \<Rightarrow> u64 \<Rightarrow> 'v zval \<Rightarrow> u32 \<Rightarrow> 'v ins" where
  "zend_hash_index_add_or_update e ht h pData flag =
     (if flag = HASH_ADD then zend_hash_index_add e ht h pData
      else if flag = HASH_ADD OR HASH_ADD_NEW then zend_hash_index_add_new e ht h pData
      else if flag = HASH_ADD OR HASH_ADD_NEXT then zend_hash_next_index_insert e ht pData
      else if flag = HASH_ADD OR HASH_ADD_NEW OR HASH_ADD_NEXT
        then zend_hash_next_index_insert_new e ht pData
      else zend_hash_index_update e ht h pData)"

definition zend_hash_index_add_empty_element :: "'v env \<Rightarrow> 'v HashTable \<Rightarrow> u64 \<Rightarrow> 'v ins" where
  "zend_hash_index_add_empty_element e ht h = zend_hash_index_add e ht h IS_NULL"

end
