(* ===== verification/Store_Interfaces.thy ===== *)
theory Store_Interfaces
  imports PHP_Prelude
begin

section \<open>Interfaces between the components\<close>

text \<open>
  What a client relies on when it drives a component: \<open>simulation\<close> is one operation that
  implements an abstract one as long as the state has room for it, \<open>keyed_store\<close> a map with
  insertion order that offers insertion, deletion and lookup.  The client lemmas are proved
  here once; the components interpret the locales on their own operations.
\<close>

subsection \<open>Association lists in insertion order\<close>

definition assoc_put :: "'k \<Rightarrow> 'v \<Rightarrow> ('k \<times> 'v) list \<Rightarrow> ('k \<times> 'v) list" where
  "assoc_put k v xs =
     (if k \<in> fst ` set xs then map (\<lambda>x. if fst x = k then (k, v) else x) xs else xs @ [(k, v)])"

lemma map_of_assoc_put: "map_of (assoc_put k v xs) = (map_of xs)(k \<mapsto> v)"
proof (cases "k \<in> fst ` set xs")
  case True
  have "map_of (map (\<lambda>x. if fst x = k then (k, v) else x) xs) y =
      (if y = k then map_option (\<lambda>_. v) (map_of xs k) else map_of xs y)" for y
    by (induction xs) auto
  moreover have "map_of xs k \<noteq> None" using True by (simp add: map_of_eq_None_iff)
  ultimately show ?thesis using True by (auto simp: assoc_put_def fun_eq_iff)
next
  case False
  then have "map_of xs k = None" by (simp add: map_of_eq_None_iff)
  with False show ?thesis
    by (simp add: assoc_put_def fun_eq_iff map_add_def split: option.splits)
qed

lemma keys_assoc_put:
  "map fst (assoc_put k v xs) = (if k \<in> fst ` set xs then map fst xs else map fst xs @ [k])"
  by (auto simp: assoc_put_def)

lemma distinct_assoc_put: "distinct (map fst xs) \<Longrightarrow> distinct (map fst (assoc_put k v xs))"
  by (auto simp: keys_assoc_put)

lemma set_keys_assoc_put [simp]: "fst ` set (assoc_put k v xs) = insert k (fst ` set xs)"
  using arg_cong [OF keys_assoc_put [of k v xs], of set] by auto

lemma length_assoc_put: "length (assoc_put k v xs) = length xs + (if k \<in> fst ` set xs then 0 else 1)"
  by (simp add: assoc_put_def)

lemma assoc_put_put [simp]: "assoc_put k v (assoc_put k w xs) = assoc_put k v xs"
proof -
  have "assoc_put k v (assoc_put k w xs) =
      map (\<lambda>x. if fst x = k then (k, v) else x) (assoc_put k w xs)"
    by (subst assoc_put_def) simp
  also have "\<dots> = assoc_put k v xs"
  proof (cases "k \<in> fst ` set xs")
    case True
    then show ?thesis by (auto simp: assoc_put_def)
  next
    case False
    then have "map (\<lambda>x. if fst x = k then (k, v) else x) xs = xs" by (intro map_idI) auto
    with False show ?thesis by (simp add: assoc_put_def)
  qed
  finally show ?thesis .
qed

definition assoc_del :: "'k \<Rightarrow> ('k \<times> 'v) list \<Rightarrow> ('k \<times> 'v) list" where
  "assoc_del k xs = filter (\<lambda>x. fst x \<noteq> k) xs"

lemma map_of_assoc_del: "map_of (assoc_del k xs) = (map_of xs)(k := None)"
  by (induction xs) (auto simp: assoc_del_def fun_eq_iff)

lemma assoc_del_id: "k \<notin> fst ` set xs \<Longrightarrow> assoc_del k xs = xs"
  by (auto simp: assoc_del_def filter_id_conv)

lemma distinct_assoc_del: "distinct (map fst xs) \<Longrightarrow> distinct (map fst (assoc_del k xs))"
  by (auto simp: assoc_del_def distinct_map_filter)

lemma length_assoc_del_le: "length (assoc_del k xs) \<le> length xs"
  by (simp add: assoc_del_def)

lemma length_assoc_del:
  "distinct (map fst xs) \<Longrightarrow> k \<in> fst ` set xs \<Longrightarrow> length (assoc_del k xs) = length xs - 1"
proof (induction xs)
  case (Cons x xs)
  show ?case
  proof (cases "fst x = k")
    case True
    then have "k \<notin> fst ` set xs" using Cons.prems by auto
    then have "assoc_del k xs = xs" by (rule assoc_del_id)
    with True show ?thesis by (simp add: assoc_del_def)
  next
    case False
    then have "k \<in> fst ` set xs" "distinct (map fst xs)" using Cons.prems by auto
    then have "length (assoc_del k xs) = length xs - 1" "0 < length xs"
      using Cons.IH by auto
    with False show ?thesis by (simp add: assoc_del_def)
  qed
qed simp

lemma assoc_del_put: "k \<notin> fst ` set xs \<Longrightarrow> assoc_del k (assoc_put k v xs) = xs"
  using assoc_del_id [of k xs] by (simp add: assoc_put_def assoc_del_def)

text \<open>Folding insertions into a list: the last value of a key wins, new keys come in order.\<close>

definition put_list :: "('k \<times> 'v) list \<Rightarrow> ('k \<times> 'v) list \<Rightarrow> ('k \<times> 'v) list" where
  "put_list ps xs = fold (\<lambda>(k, v). assoc_put k v) ps xs"

lemma put_list_simps [simp]:
  "put_list [] xs = xs" "put_list ((k, v) # ps) xs = put_list ps (assoc_put k v xs)"
  by (simp_all add: put_list_def)

lemma map_of_put_list: "map_of (put_list ps xs) = map_of xs ++ map_of (rev ps)"
proof (induction ps arbitrary: xs)
  case (Cons p ps)
  then show ?case
    by (cases p) (simp add: map_of_assoc_put map_add_assoc [symmetric] map_add_def fun_eq_iff split: option.splits)
qed simp

lemma put_list_new:
  "distinct (map fst ps) \<Longrightarrow> fst ` set ps \<inter> fst ` set xs = {} \<Longrightarrow> put_list ps xs = xs @ ps"
proof (induction ps arbitrary: xs)
  case (Cons p ps)
  obtain k v where p: "p = (k, v)" by (cases p)
  with Cons.prems have "assoc_put k v xs = xs @ [(k, v)]" by (auto simp: assoc_put_def)
  moreover have "put_list ps (xs @ [(k, v)]) = (xs @ [(k, v)]) @ ps"
    using Cons.prems p by (intro Cons.IH) auto
  ultimately show ?case by (simp add: p)
qed simp

lemma put_list_snoc: "put_list (ps @ [(k, v)]) xs = assoc_put k v (put_list ps xs)"
  by (simp add: put_list_def)

lemma keys_put_list: "fst ` set (put_list ps xs) = fst ` set ps \<union> fst ` set xs"
proof (induction ps arbitrary: xs)
  case (Cons p ps)
  then show ?case by (cases p) auto
qed simp

lemma distinct_put_list: "distinct (map fst xs) \<Longrightarrow> distinct (map fst (put_list ps xs))"
proof (induction ps arbitrary: xs)
  case (Cons p ps)
  then show ?case by (cases p) (simp add: distinct_assoc_put)
qed simp

subsection \<open>One operation that implements an abstract one\<close>

locale simulation =
  fixes inv :: "nat \<Rightarrow> 's \<Rightarrow> bool"
    and ab :: "'s \<Rightarrow> 'a"
    and step :: "'i \<Rightarrow> 's \<Rightarrow> 's res"
    and spec :: "'i \<Rightarrow> 'a \<Rightarrow> 'a"
    and fits :: "'i \<Rightarrow> bool"
  assumes step_law: "inv (Suc n) s \<Longrightarrow> fits x \<Longrightarrow> \<exists>s'. step x s = Inr s' \<and> inv n s' \<and> ab s' = spec x (ab s)"
begin

text \<open>With room for a whole list of operations, the loop over it implements the fold.\<close>

lemma loop_ok:
  assumes "inv (length xs + n) s" "\<forall>x \<in> set xs. fits x"
  shows "\<exists>s'. fold_res step xs s = Inr s' \<and> inv n s' \<and> ab s' = fold spec xs (ab s)"
  using assms
proof (induction xs arbitrary: s)
  case (Cons x xs)
  from Cons.prems obtain s1 where s1: "step x s = Inr s1" "inv (length xs + n) s1" "ab s1 = spec x (ab s)"
    using step_law [of "length xs + n" s x] by auto
  from Cons.IH [OF s1(2)] Cons.prems(2) s1(1,3) show ?case by simp
qed simp

end

subsection \<open>A map in insertion order\<close>

locale keyed_store = put: simulation inv ents put "\<lambda>x. assoc_put (key x) (val x)" fits
  for inv :: "nat \<Rightarrow> 's \<Rightarrow> bool"
    and ents :: "'s \<Rightarrow> ('k \<times> 'v) list"
    and put :: "'i \<Rightarrow> 's \<Rightarrow> 's res"
    and key :: "'i \<Rightarrow> 'k" and val :: "'i \<Rightarrow> 'v" and fits :: "'i \<Rightarrow> bool" +
  fixes get :: "'k \<Rightarrow> 's \<Rightarrow> 'v option res"
    and del :: "'k \<Rightarrow> 's \<Rightarrow> (bool \<times> 's) res"
  assumes get_law: "inv n s \<Longrightarrow> get k s = Inr (map_of (ents s) k)"
    and del_law: "inv n s \<Longrightarrow> \<exists>s'. del k s = Inr (k \<in> fst ` set (ents s), s') \<and> inv n s' \<and>
      ents s' = assoc_del k (ents s)"
begin

text \<open>A value put is the value found, and the other keys keep theirs.\<close>

lemma get_put:
  assumes "inv (Suc n) s" "fits x" "put x s = Inr s'"
  shows "get k s' = (if k = key x then Inr (Some (val x)) else get k s)"
proof -
  from put.step_law [OF assms(1,2)] assms(3)
  have s': "inv n s'" "ents s' = assoc_put (key x) (val x) (ents s)" by auto
  show ?thesis using get_law [OF s'(1)] get_law [OF assms(1)] by (simp add: s'(2) map_of_assoc_put)
qed

lemma get_del:
  assumes "inv n s" "del k s = Inr (b, s')"
  shows "get k' s' = (if k' = k then Inr None else get k' s)" "b \<longleftrightarrow> get k s \<noteq> Inr None"
proof -
  from del_law [OF assms(1), of k] assms(2)
  have s': "inv n s'" "ents s' = assoc_del k (ents s)" "b = (k \<in> fst ` set (ents s))" by auto
  show "get k' s' = (if k' = k then Inr None else get k' s)"
    using get_law [OF s'(1)] get_law [OF assms(1)] by (simp add: s'(2) map_of_assoc_del)
  show "b \<longleftrightarrow> get k s \<noteq> Inr None"
    using get_law [OF assms(1), of k] by (simp add: s'(3) map_of_eq_None_iff)
qed

text \<open>Putting a new key and deleting it again gives the old entries back.\<close>

lemma del_after_put:
  assumes "inv (Suc n) s" "fits x" "get (key x) s = Inr None" "put x s = Inr s1" "del (key x) s1 = Inr (b, s2)"
  shows "ents s2 = ents s" "b"
proof -
  from put.step_law [OF assms(1,2)] assms(4)
  have s1: "inv n s1" "ents s1 = assoc_put (key x) (val x) (ents s)" by auto
  from del_law [OF s1(1), of "key x"] assms(5)
  have s2: "ents s2 = assoc_del (key x) (ents s1)" "b = (key x \<in> fst ` set (ents s1))" by auto
  have "key x \<notin> fst ` set (ents s)"
    using get_law [OF assms(1), of "key x"] assms(3) by (metis map_of_eq_None_iff sum.inject(2))
  then show "ents s2 = ents s" "b" by (simp_all add: s2 s1(2) assoc_del_put)
qed

text \<open>A loop of insertions.\<close>

lemma put_all:
  assumes "inv (length xs + n) s" "\<forall>x \<in> set xs. fits x"
  shows "\<exists>s'. fold_res put xs s = Inr s' \<and> inv n s' \<and>
    ents s' = put_list (map (\<lambda>x. (key x, val x)) xs) (ents s)"
proof -
  have "fold (\<lambda>x. assoc_put (key x) (val x)) xs es = put_list (map (\<lambda>x. (key x, val x)) xs) es" for es
    by (simp add: put_list_def fold_map comp_def)
  with put.loop_ok [OF assms] show ?thesis by simp
qed

end

end
