(* ===== verification/Zend_Hash_Update_Correct.thy ===== *)
theory Zend_Hash_Update_Correct
  imports Zend_Hash_Update Store_Interfaces
begin

section \<open>Correctness of insertion and update\<close>

text \<open>
  The abstract operation is \<open>assoc_put\<close> on the list of entries: an existing key keeps its
  place and gets the new value, a new key goes to the end.  The lemmas show that every
  insertion routine of a well-formed table with room to grow implements it, keeps the
  invariant, and logs exactly the destructor call and the key reference it owes.
\<close>

subsection \<open>Making room\<close>

lemma ht_inv_mixedI:
  "ready_mixed ht \<Longrightarrow> \<not> ht_packed ht \<Longrightarrow> next_free_ok ht \<Longrightarrow> ht_inv ht"
  by (simp add: ht_inv_def ready_mixed_def)

text \<open>A mixed table with a free bucket at the end.\<close>

definition has_room :: "'v HashTable \<Rightarrow> bool" where
  "has_room ht = (ready_mixed ht \<and> \<not> ht_packed ht \<and> nNumUsed ht < nTableSize ht)"

lemma elements_le_used:
  assumes "base_ok ht" "ht_initialized ht"
  shows "nNumOfElements ht \<le> nNumUsed ht"
  using assms base_ok_alt [OF base_ok_lengths(1) [OF assms]] length_content_le [of ht "nNumUsed ht"]
  by (simp add: content_def)

text \<open>
  How a table grows: it doubles only when more than half of it is in use by elements, or when
  a packed table turns into a hash.
\<close>

definition grows :: "'v HashTable \<Rightarrow> 'v HashTable \<Rightarrow> bool" where
  "grows ht ht' = ((nTableSize ht' = nTableSize ht \<or> nTableSize ht' = 2 * nTableSize ht \<and>
       (nTableSize ht < 2 * nNumOfElements ht \<or> ht_packed ht \<and> \<not> ht_packed ht')) \<and>
     (ht_packed ht' \<longrightarrow> ht_packed ht \<or> \<not> ht_initialized ht))"

lemma grows_refl [simp]: "nTableSize ht' = nTableSize ht \<Longrightarrow> \<not> ht_packed ht' \<Longrightarrow> grows ht ht'"
  by (simp add: grows_def)

lemma do_resize_ok:
  assumes r: "ready_mixed ht" and np: "\<not> ht_packed ht" and sz: "nTableSize ht < 2 ^ 30"
  shows "\<exists>e' ht'. zend_hash_do_resize e ht = Inr (e', ht') \<and> same_env e e' \<and> has_room ht' \<and>
    keeps ht ht' \<and> ht_static_keys ht' = ht_static_keys ht \<and>
    (nTableSize ht' = nTableSize ht \<or> nTableSize ht' = 2 * nTableSize ht \<and>
       nNumUsed ht \<le> nNumOfElements ht + nNumOfElements ht div 32)"
proof -
  have b: "base_ok ht" "ht_initialized ht" using r by (simp_all add: ready_mixed_def)
  have p2: "pow2_size (nTableSize ht)" "nNumUsed ht \<le> nTableSize ht"
    using b by (simp_all add: base_ok_def)
  have le: "nNumOfElements ht \<le> nNumUsed ht" using b by (rule elements_le_used)
  show ?thesis
  proof (cases "nNumUsed ht > nNumOfElements ht + nNumOfElements ht div 2 ^ 5")
    case True
    have "nTableMask ht = HT_SIZE_TO_MASK (nTableSize ht)"
      using r by (simp add: ready_mixed_def mixed_ok_def)
    from zend_hash_rehash_ok [OF b this, of e] obtain e' ht' where
      h: "zend_hash_rehash e ht = Inr (e', ht')" "same_env e e'" "ready_mixed ht'"
        "content ht' = content ht" "nNumUsed ht' = nNumOfElements ht" "same_shape (HT_HASH_RESET ht) ht'"
      by blast
    have "has_room ht' \<and> keeps ht ht' \<and> ht_static_keys ht' = ht_static_keys ht \<and>
        nTableSize ht' = nTableSize ht"
      using h np True p2(2)
      by (simp add: has_room_def keeps_def same_shape_def HT_HASH_RESET_def)
    with h True show ?thesis by (simp add: zend_hash_do_resize_def)
  next
    case False
    let ?n = "nTableSize ht + nTableSize ht"
    have "pow2_size ?n" using p2(1) sz by (rule pow2_size_double)
    moreover have "0 < nTableSize ht" using pow2_size_bounds(1) [OF p2(1)] by simp
    ultimately obtain e' ht' where
      h: "zend_hash_rehash e (realloc_mixed e ?n (ht\<lparr>nTableSize := ?n, ht_packed := False\<rparr>)) =
          Inr (e', ht')" "same_env e e'" "ready_mixed ht'" "keeps ht ht'"
        "nNumUsed ht' = nNumOfElements ht" "nTableSize ht' = ?n" "\<not> ht_packed ht'"
        "ht_static_keys ht' = ht_static_keys ht"
      using realloc_mixed_rehash [OF b, of ?n e False] p2(2) by auto
    have "ht\<lparr>nTableSize := ?n, ht_packed := False\<rparr> = ht\<lparr>nTableSize := ?n\<rparr>" using np by simp
    with h(1) False sz have "zend_hash_do_resize e ht = Inr (e', ht')"
      by (simp add: zend_hash_do_resize_def Let_def HT_MAX_SIZE_def)
    with h le p2(2) False \<open>0 < nTableSize ht\<close> show ?thesis by (simp add: has_room_def)
  qed
qed

lemma if_full_ok:
  assumes r: "ready_mixed ht" and np: "\<not> ht_packed ht" and sz: "nTableSize ht < 2 ^ 30"
  shows "\<exists>e' ht'. ZEND_HASH_IF_FULL_DO_RESIZE e ht = Inr (e', ht') \<and> same_env e e' \<and> has_room ht' \<and>
    keeps ht ht' \<and> ht_static_keys ht' = ht_static_keys ht \<and> grows ht ht'"
proof (cases "nNumUsed ht \<ge> nTableSize ht")
  case True
  from do_resize_ok [OF assms, of e] obtain e' ht' where
    h: "zend_hash_do_resize e ht = Inr (e', ht')" "same_env e e'" "has_room ht'" "keeps ht ht'"
      "ht_static_keys ht' = ht_static_keys ht"
      "nTableSize ht' = nTableSize ht \<or> nTableSize ht' = 2 * nTableSize ht \<and>
         nNumUsed ht \<le> nNumOfElements ht + nNumOfElements ht div 32" by blast
  have "8 \<le> nTableSize ht" using r pow2_size_bounds(1) by (simp add: ready_mixed_def base_ok_def)
  then have "grows ht ht'" using h(3,6) True by (auto simp: grows_def has_room_def)
  with h True show ?thesis by (simp add: ZEND_HASH_IF_FULL_DO_RESIZE_def)
next
  case False
  with r np show ?thesis by (simp add: ZEND_HASH_IF_FULL_DO_RESIZE_def has_room_def)
qed

lemma reset_min_size:
  assumes "nTableMask ht = HT_SIZE_TO_MASK HT_MIN_SIZE" "length (ht_hash ht) = 16"
  shows "fold (\<lambda>i ht. HT_HASH_set ht i HT_INVALID_IDX)
      [-16, -15, -14, -13, -12, -11, -10, -9, -8, -7, -6, -5, -4, -3, -2, -1] ht = HT_HASH_RESET ht"
proof -
  have m: "nTableMask ht = - 16"
    using assms(1) by (simp add: HT_SIZE_TO_MASK_def HT_MIN_SIZE_def)
  obtain a0 a1 a2 a3 a4 a5 a6 a7 a8 a9 a10 a11 a12 a13 a14 a15 where
    "ht_hash ht = [a0, a1, a2, a3, a4, a5, a6, a7, a8, a9, a10, a11, a12, a13, a14, a15]"
    using assms(2) by (auto simp: length_Suc_conv eval_nat_numeral)
  with m show ?thesis
    by (simp add: HT_HASH_set_def HT_HASH_RESET_def HT_HASH_pos_def HT_HASH_SIZE_def)
      (simp add: eval_nat_numeral)
qed

lemma length_alloc [simp]:
  "length (alloc_buckets e n) = n" "length (alloc_hash e m) = HT_HASH_SIZE m"
  by (simp_all add: alloc_buckets_def alloc_hash_def)

lemma real_init_mixed_eq:
  assumes b: "base_ok ht" and u: "uninit_ok ht"
  shows "zend_hash_real_init_mixed e ht = ht\<lparr>nTableMask := HT_SIZE_TO_MASK (nTableSize ht),
    ht_hash := replicate (HT_HASH_SIZE (HT_SIZE_TO_MASK (nTableSize ht))) HT_INVALID_IDX,
    arData := alloc_buckets e (nTableSize ht), ht_initialized := True\<rparr>"
proof (cases "HT_SIZE_TO_MASK (nTableSize ht) = HT_SIZE_TO_MASK HT_MIN_SIZE")
  case True
  have "HT_HASH_SIZE (HT_SIZE_TO_MASK HT_MIN_SIZE) = 16"
    by (simp add: HT_SIZE_TO_MASK_def HT_MIN_SIZE_def HT_HASH_SIZE_def)
  with True show ?thesis
    by (simp add: zend_hash_real_init_mixed_def zend_hash_real_init_mixed_ex_def Let_def
        reset_min_size alloc_hash_def del: fold.simps)
      (simp add: HT_HASH_RESET_def)
next
  case False
  then show ?thesis
    by (simp add: zend_hash_real_init_mixed_def zend_hash_real_init_mixed_ex_def Let_def
        HT_HASH_RESET_def)
qed

lemma real_init_mixed_ok:
  assumes b: "base_ok ht" and u: "uninit_ok ht"
  shows "has_room (zend_hash_real_init_mixed e ht)" "keeps ht (zend_hash_real_init_mixed e ht)"
    "ht_static_keys (zend_hash_real_init_mixed e ht) = ht_static_keys ht"
    "entries ht = []"
proof -
  let ?ht = "ht\<lparr>nTableMask := HT_SIZE_TO_MASK (nTableSize ht),
    ht_hash := replicate (HT_HASH_SIZE (HT_SIZE_TO_MASK (nTableSize ht))) HT_INVALID_IDX,
    arData := alloc_buckets e (nTableSize ht), ht_initialized := True\<rparr>"
  have p2: "pow2_size (nTableSize ht)" using b by (simp add: base_ok_def)
  note eq = real_init_mixed_eq [OF assms, of e]
  have c: "content ht = []" "content ?ht = []"
    using u by (simp_all add: uninit_ok_def content_def content_upto_def)
  then show "entries ht = []" by (simp add: entries_content)
  have el: "nNumOfElements ht = 0" using b c by (simp add: base_ok_def entries_content)
  have "base_ok ?ht"
    using p2 el u by (subst base_ok_alt) (simp_all add: c uninit_ok_def)
  moreover have "mixed_ok ?ht" using hash_size_pow2 [OF p2] by (simp add: mixed_ok_def)
  moreover have "chains_upto ?ht 0" by (rule chains_reset) simp
  moreover have "0 < nTableSize ht" using pow2_size_bounds(1) [OF p2] by simp
  ultimately show "has_room (zend_hash_real_init_mixed e ht)"
    using u by (simp add: eq has_room_def ready_mixed_def uninit_ok_def)
  show "keeps ht (zend_hash_real_init_mixed e ht)"
    "ht_static_keys (zend_hash_real_init_mixed e ht) = ht_static_keys ht"
    using c by (simp_all add: eq keeps_def)
qed


subsection \<open>Appending a bucket\<close>

definition appended :: "'v HashTable \<Rightarrow> 'v bucket \<Rightarrow> 'v HashTable" where
  "appended ht p = ht\<lparr>nNumUsed := nNumUsed ht + 1, nNumOfElements := nNumOfElements ht + 1,
     arData := (arData ht)[nNumUsed ht := p\<lparr>b_next := ht_hash ht ! slot ht (b_h p)\<rparr>],
     ht_hash := (ht_hash ht)[slot ht (b_h p) := nNumUsed ht]\<rparr>"

lemma appended_ok:
  assumes room: "has_room ht" and new: "key_of p \<notin> fst ` set (entries ht)"
    and p: "key_ok p" "live p"
  shows "ready_mixed (appended ht p)" "content (appended ht p) = content ht @ [strip p]"
proof -
  let ?ht = "appended ht p" and ?n = "nNumUsed ht"
  have r: "ready_mixed ht" and n: "?n < nTableSize ht" using room by (simp_all add: has_room_def)
  have b: "base_ok ht" "ht_initialized ht" using r by (simp_all add: ready_mixed_def)
  note len = ready_mixed_lengths [OF r]
  have nl: "?n < length (arData ht)" using b n by (simp add: base_ok_def)
  have "content_upto ?ht (Suc ?n) = content_upto ?ht ?n @ [strip p]"
    using nl p(2) by (subst content_upto_Suc) (simp_all add: appended_def strip_def Z_ISUNDEF_def)
  moreover have "content_upto ?ht ?n = content ht"
    by (simp add: content_def content_upto_def appended_def)
  ultimately show c: "content ?ht = content ht @ [strip p]"
    by (simp add: content_def [of ?ht]) (simp add: appended_def)
  have ch: "chains_upto ?ht (Suc ?n)"
  proof (rule chains_extend)
    show "chains_upto ht ?n" using r by (simp add: ready_mixed_def)
    show "?n < HT_INVALID_IDX" using nl len(3) by simp
  qed (use nl p len(2) in \<open>simp_all add: appended_def Z_ISUNDEF_def\<close>)
  have "base_ok ?ht"
  proof -
    have old: "pow2_size (nTableSize ht) \<and> length (arData ht) = nTableSize ht \<and>
        nNumOfElements ht = length (content ht) \<and>
        distinct (map (fst \<circ> strip_entry) (content ht)) \<and> (\<forall>x \<in> set (content ht). strip_key_ok x)"
      using b base_ok_alt [OF len(1)] by simp
    have "fst (strip_entry (strip p)) \<notin> (fst \<circ> strip_entry) ` set (content ht)"
      using new by (simp add: entries_content image_image entry_of_def comp_def)
    moreover have "nNumUsed ?ht = Suc ?n" "nNumOfElements ?ht = Suc (nNumOfElements ht)"
      "length (arData ?ht) = length (arData ht)" "nTableSize ?ht = nTableSize ht"
      "ht_initialized ?ht = ht_initialized ht" by (simp_all add: appended_def)
    ultimately show ?thesis using old n nl b(2) p
      by (subst base_ok_alt) (simp_all add: c)
  qed
  with r ch show "ready_mixed ?ht"
    by (simp add: ready_mixed_def mixed_ok_def appended_def)
qed

lemma appended_fields [simp]:
  "nNextFreeElement (appended ht p) = nNextFreeElement ht" "pDestructor (appended ht p) = pDestructor ht"
  "ht_packed (appended ht p) = ht_packed ht" "ht_static_keys (appended ht p) = ht_static_keys ht"
  "nTableSize (appended ht p) = nTableSize ht" "ht_addr (appended ht p) = ht_addr ht"
  by (simp_all add: appended_def)

lemma has_room_nl: "has_room ht \<Longrightarrow> nNumUsed ht < length (arData ht)"
  by (simp add: has_room_def ready_mixed_def base_ok_def)

text \<open>The three pieces of code that add a bucket at the end are this step.\<close>

lemma add_to_hash_appended:
  assumes "has_room ht"
  shows "add_to_hash key v (e, ht) = (Some (AtBucket (nNumUsed ht)), e,
    appended ht \<lparr>b_val = v, b_next = 0, b_h = zs_h key, b_key = Some key\<rparr>)"
  using has_room_nl [OF assms]
  by (cases "arData ht ! nNumUsed ht")
    (simp add: add_to_hash_def appended_def upd_bucket_def HT_HASH_set_def Let_def HT_HASH_slot
      slot_def HT_HASH_pos_def HT_HASH_def ht_nIndex_def)

lemma str_add_to_hash_appended:
  assumes "has_room ht"
  shows "str_add_to_hash str h v (e, ht) = (Some (AtBucket (nNumUsed ht)),
    e\<lparr>e_fresh := e_fresh e + 1\<rparr>,
    (appended ht \<lparr>b_val = v, b_next = 0, b_h = h,
       b_key = Some ((zend_string_init (e_fresh e) str)\<lparr>zs_h := h\<rparr>)\<rparr>)\<lparr>ht_static_keys := False\<rparr>)"
  using has_room_nl [OF assms]
  by (cases "arData ht ! nNumUsed ht")
    (simp add: str_add_to_hash_def appended_def upd_bucket_def HT_HASH_set_def Let_def HT_HASH_slot
      slot_def HT_HASH_pos_def HT_HASH_def ht_nIndex_def)

definition bump_next_free :: "u64 \<Rightarrow> 'v HashTable \<Rightarrow> 'v HashTable" where
  "bump_next_free h ht = (if sint h \<ge> sint (nNextFreeElement ht)
     then ht\<lparr>nNextFreeElement := (if h < 0x7fffffffffffffff then h + 1 else 0x7fffffffffffffff)\<rparr>
     else ht)"

lemma add_to_mixed_appended:
  assumes "has_room ht"
  shows "add_to_mixed h v (e, ht) = (Some (AtBucket (nNumUsed ht)), e,
    bump_next_free h (appended ht \<lparr>b_val = v, b_next = 0, b_h = h, b_key = None\<rparr>))"
  using has_room_nl [OF assms]
  by (cases "arData ht ! nNumUsed ht")
    (simp add: add_to_mixed_def add_element_def bump_next_free_def appended_def upd_bucket_def
      HT_HASH_set_def Let_def HT_HASH_slot slot_def HT_HASH_pos_def HT_HASH_def ht_nIndex_def)

subsection \<open>Inserting a new key, overwriting an old one\<close>

lemma ht_inv_static [simp]: "ht_inv (ht\<lparr>ht_static_keys := b\<rparr>) = ht_inv ht"
  "entries (ht\<lparr>ht_static_keys := b\<rparr>) = entries ht" "ready_mixed (ht\<lparr>ht_static_keys := b\<rparr>) = ready_mixed ht"
proof -
  show e: "entries (ht\<lparr>ht_static_keys := b\<rparr>) = entries ht"
    by (simp add: entries_def entries_upto_def)
  have c: "chains_upto (ht\<lparr>ht_static_keys := b\<rparr>) n = chains_upto ht n" for n
    by (auto intro: chains_cong)
  show "ready_mixed (ht\<lparr>ht_static_keys := b\<rparr>) = ready_mixed ht"
    by (simp add: ready_mixed_def base_ok_def e mixed_ok_def c)
  show "ht_inv (ht\<lparr>ht_static_keys := b\<rparr>) = ht_inv ht"
    by (simp add: ht_inv_def base_ok_def e next_free_ok_def uninit_ok_def packed_ok_def mixed_ok_def c)
qed

lemma next_free_ok_snoc:
  assumes "next_free_ok ht" "entries ht' = entries ht @ [(SKey s, v)]"
    "nNextFreeElement ht' = nNextFreeElement ht"
  shows "next_free_ok ht'"
  using assms by (auto simp: next_free_ok_def)

lemma appended_entries:
  assumes "has_room ht" "key_of p \<notin> fst ` set (entries ht)" "key_ok p" "live p"
  shows "entries (appended ht p) = assoc_put (key_of p) (b_val p) (entries ht)"
    and "entries (appended ht p) = entries ht @ [entry_of p]"
    and "ready_mixed (appended ht p)"
  using appended_ok [OF assms] assms(2)
  by (simp_all add: entries_content assoc_put_def entry_of_def)

lemma appended_inv:
  assumes "has_room ht" "next_free_ok ht" "key_of p = SKey s" "SKey s \<notin> fst ` set (entries ht)"
    "key_ok p" "live p"
  shows "ht_inv (appended ht p)" "entries (appended ht p) = assoc_put (SKey s) (b_val p) (entries ht)"
proof -
  note a = appended_entries [of ht p, unfolded assms(3), OF assms(1,4-6)]
  have "next_free_ok (appended ht p)"
    by (rule next_free_ok_snoc [OF assms(2)]) (use a(2) assms(3) in \<open>simp_all add: entry_of_def\<close>)
  with a(3) assms(1) show "ht_inv (appended ht p)"
    by (intro ht_inv_mixedI) (simp_all add: has_room_def)
qed (rule appended_entries(1) [of ht p, unfolded assms(3), OF assms(1,4-6)])

lemma set_val_key [simp]: "key_of (p\<lparr>b_val := v\<rparr>) = key_of p" "key_ok (p\<lparr>b_val := v\<rparr>) = key_ok p"
  by (simp_all add: key_of_def key_ok_def split: option.split)

lemma map_entries_put:
  assumes b: "base_ok ht" and len: "nNumUsed ht \<le> length (arData ht)"
    and loc: "locate ht k = Some i" and v: "v \<noteq> IS_UNDEF"
  shows "entries (upd_bucket i (\<lambda>p. p\<lparr>b_val := v\<rparr>) ht) = assoc_put k v (entries ht)"
proof -
  let ?ht = "upd_bucket i (\<lambda>p. p\<lparr>b_val := v\<rparr>) ht"
  note l = locate_Some [OF loc]
  have i: "i < length (arData ht)" using l(1) len by simp
  have lv: "live (arData ?ht ! j) \<longleftrightarrow> live (arData ht ! j)" for j
    using l(2) i v by (cases "j = i") (simp_all add: upd_bucket_def Z_ISUNDEF_def)
  have entry: "entry_of (arData ?ht ! j) =
      (if fst (entry_of (arData ht ! j)) = k then (k, v) else entry_of (arData ht ! j))"
    if j: "j < nNumUsed ht" "live (arData ht ! j)" for j
  proof (cases "j = i")
    case True
    then show ?thesis using l i by (simp add: upd_bucket_def entry_of_def)
  next
    case False
    then have "key_of (arData ht ! j) \<noteq> k" using locate_unique [OF b len j] loc by auto
    with False show ?thesis by (simp add: upd_bucket_def entry_of_def)
  qed
  have "k \<in> fst ` set (entries ht)" using locate_None_iff [OF len, of k] loc by auto
  moreover have "entries ?ht = map (\<lambda>j. entry_of (arData ?ht ! j))
      (filter (\<lambda>j. live (arData ht ! j)) [0..<nNumUsed ht])"
    using len lv by (simp add: entries_def entries_upto_conv upd_bucket_def)
  moreover have "\<dots> = map (\<lambda>x. if fst x = k then (k, v) else x) (entries ht)"
    using len entry by (simp add: entries_def entries_upto_conv)
  ultimately show ?thesis by (simp add: assoc_put_def)
qed

lemma set_val_inv:
  assumes inv: "ht_inv ht" and loc: "locate ht k = Some i" and v: "v \<noteq> IS_UNDEF"
  shows "ht_inv (upd_bucket i (\<lambda>p. p\<lparr>b_val := v\<rparr>) ht)"
    "entries (upd_bucket i (\<lambda>p. p\<lparr>b_val := v\<rparr>) ht) = assoc_put k v (entries ht)"
proof -
  let ?ht = "upd_bucket i (\<lambda>p. p\<lparr>b_val := v\<rparr>) ht"
  note l = locate_Some [OF loc]
  note b = ht_inv_base [OF inv] and len = ht_inv_used [OF inv]
  have i: "i < length (arData ht)" using l(1) len by simp
  show e: "entries ?ht = assoc_put k v (entries ht)" by (rule map_entries_put [OF b len loc v])
  have mem: "k \<in> fst ` set (entries ht)" using locate_None_iff [OF len, of k] loc by auto
  have lv: "live (arData ?ht ! j) \<longleftrightarrow> live (arData ht ! j)" for j
    using l(2) i v by (cases "j = i") (simp_all add: upd_bucket_def Z_ISUNDEF_def)
  have same: "b_key (arData ?ht ! j) = b_key (arData ht ! j) \<and> b_h (arData ?ht ! j) = b_h (arData ht ! j)
      \<and> b_next (arData ?ht ! j) = b_next (arData ht ! j)" for j
    using i by (cases "j = i") (simp_all add: upd_bucket_def)
  have kok: "key_ok (arData ?ht ! j) = key_ok (arData ht ! j)" for j
    using i by (cases "j = i") (simp_all add: upd_bucket_def)
  have fields: "nTableSize ?ht = nTableSize ht" "nNumUsed ?ht = nNumUsed ht"
    "ht_initialized ?ht = ht_initialized ht" "length (arData ?ht) = length (arData ht)"
    "nNumOfElements ?ht = nNumOfElements ht" "ht_packed ?ht = ht_packed ht"
    "nTableMask ?ht = nTableMask ht" "ht_hash ?ht = ht_hash ht"
    "nNextFreeElement ?ht = nNextFreeElement ht" by (simp_all add: upd_bucket_def)
  have keys: "map fst (entries ?ht) = map fst (entries ht)" using mem by (simp add: e keys_assoc_put)
  then have "length (entries ?ht) = length (entries ht)" by (metis length_map)
  with b keys have base: "base_ok ?ht"
    by (simp add: base_ok_def fields lv kok)
  have "IKey h \<in> fst ` set (entries ?ht) \<longleftrightarrow> IKey h \<in> fst ` set (entries ht)" for h
    using keys by (metis list.set_map)
  then have nf: "next_free_ok ?ht \<longleftrightarrow> next_free_ok ht"
    unfolding next_free_ok_def fields by (force simp: image_iff)
  have ch: "chains_upto ?ht (nNumUsed ht)" if "chains_upto ht (nNumUsed ht)"
    using that by (rule chains_cong) (simp_all add: fields same lv [simplified])
  show "ht_inv ?ht"
    using inv base nf ch
    by (auto simp: ht_inv_def fields uninit_ok_def packed_ok_def lv same mixed_ok_def split: if_splits)
qed

subsection \<open>String keys\<close>

text \<open>
  What the caller owes: room to grow, and a key whose cached hash is right (an interned key
  has it) and whose address does not stand for other bytes in the table.
\<close>

definition good_key :: "'v HashTable \<Rightarrow> zend_string \<Rightarrow> bool" where
  "good_key ht key = (ptr_coherent ht key \<and> zs_ok key \<and> (zs_interned key \<longrightarrow> zs_h key \<noteq> 0))"

text \<open>The effects an update owes: the old value is destroyed, or a new key gets a reference.\<close>

definition dtor_log :: "'v HashTable \<Rightarrow> 'v zval \<Rightarrow> 'v effect list" where
  "dtor_log ht v = (if pDestructor ht then [Dtor v] else [])"

definition key_log :: "zend_string \<Rightarrow> 'v effect list" where
  "key_log key = (if zs_interned key then [] else [Addref (zs_ptr key)])"

definition hashed :: "zend_string \<Rightarrow> zend_string" where
  "hashed key = key\<lparr>zs_h := zend_hash_func (zs_val key)\<rparr>"

lemma hashed_key_good: "good_key ht key \<Longrightarrow> hashed_key key = hashed key"
  using zend_string_hash_val_ok(2) [of key]
  by (cases key) (auto simp: good_key_def hashed_key_def hashed_def zs_ok_def)

lemma zs_hashed [simp]: "zs_val (hashed key) = zs_val key" "zs_ptr (hashed key) = zs_ptr key"
  "zs_h (hashed key) = zend_hash_func (zs_val key)" "zs_interned (hashed key) = zs_interned key"
  by (simp_all add: hashed_def)

definition new_bucket :: "zend_string \<Rightarrow> 'v zval \<Rightarrow> 'v bucket" where
  "new_bucket key v = \<lparr>b_val = v, b_next = 0, b_h = zs_h key, b_key = Some key\<rparr>"

lemma new_bucket_simps [simp]: "strip (new_bucket key v) = (v, zs_h key, Some key)"
  "key_of (new_bucket key v) = SKey (zs_val key)" "b_val (new_bucket key v) = v"
  "key_ok (new_bucket key v) \<longleftrightarrow> zs_h key = zend_hash_func (zs_val key)"
  "Z_ISUNDEF (new_bucket key v) \<longleftrightarrow> v = IS_UNDEF"
  by (auto simp: new_bucket_def key_of_def key_ok_def Z_ISUNDEF_def strip_def)

text \<open>The key strings a table holds, by address and bytes.\<close>

definition key_refs :: "'v HashTable \<Rightarrow> (nat \<times> bytes) set" where
  "key_refs ht = {(zs_ptr s, zs_val s) | v h s. (v, h, Some s) \<in> set (content ht)}"

fun key_ref :: "hkey \<Rightarrow> nat \<Rightarrow> (nat \<times> bytes) set" where
  "key_ref (IKey h) a = {}"
| "key_ref (SKey s) a = {(a, s)}"

lemma content_mem:
  assumes "nNumUsed ht \<le> length (arData ht)"
  shows "x \<in> set (content ht) \<longleftrightarrow> (\<exists>i < nNumUsed ht. live (arData ht ! i) \<and> x = strip (arData ht ! i))"
  using assms by (auto simp: content_def content_upto_def map_filter_take_conv)

lemma key_refs_mem:
  assumes "nNumUsed ht \<le> length (arData ht)"
  shows "(a, b) \<in> key_refs ht \<longleftrightarrow> (\<exists>i s. i < nNumUsed ht \<and> live (arData ht ! i) \<and>
    b_key (arData ht ! i) = Some s \<and> a = zs_ptr s \<and> b = zs_val s)"
proof
  assume "(a, b) \<in> key_refs ht"
  then show "\<exists>i s. i < nNumUsed ht \<and> live (arData ht ! i) \<and>
    b_key (arData ht ! i) = Some s \<and> a = zs_ptr s \<and> b = zs_val s"
    unfolding key_refs_def content_mem [OF assms] strip_def by (clarsimp, metis)
next
  assume "\<exists>i s. i < nNumUsed ht \<and> live (arData ht ! i) \<and>
    b_key (arData ht ! i) = Some s \<and> a = zs_ptr s \<and> b = zs_val s"
  then obtain i s where i: "i < nNumUsed ht" "live (arData ht ! i)" "b_key (arData ht ! i) = Some s"
    "a = zs_ptr s" "b = zs_val s" by blast
  then have "(b_val (arData ht ! i), b_h (arData ht ! i), Some s) \<in> set (content ht)"
    by (auto simp: content_mem [OF assms] strip_def intro: exI [of _ i])
  with i(4,5) show "(a, b) \<in> key_refs ht" by (auto simp: key_refs_def)
qed

lemma keeps_key_refs: "keeps ht ht' \<Longrightarrow> key_refs ht' = key_refs ht"
  by (simp add: keeps_def key_refs_def)

text \<open>The flag that says the table holds no key it would have to release.\<close>

definition static_ok :: "'v HashTable \<Rightarrow> bool" where
  "static_ok ht = (ht_static_keys ht \<longrightarrow>
     (\<forall>v h s. (v, h, Some s) \<in> set (content ht) \<longrightarrow> zs_interned s))"

lemma static_ok_mem:
  assumes "nNumUsed ht \<le> length (arData ht)"
  shows "static_ok ht \<longleftrightarrow> (ht_static_keys ht \<longrightarrow> (\<forall>i < nNumUsed ht. live (arData ht ! i) \<longrightarrow>
    (\<forall>s. b_key (arData ht ! i) = Some s \<longrightarrow> zs_interned s)))"
  unfolding static_ok_def content_mem [OF assms] strip_def by (auto, metis)

lemma keeps_static_ok:
  "keeps ht ht' \<Longrightarrow> (ht_static_keys ht' \<longrightarrow> ht_static_keys ht) \<Longrightarrow> static_ok ht \<Longrightarrow> static_ok ht'"
  by (auto simp: keeps_def static_ok_def)

text \<open>
  The result of a successful insertion or overwriting of a whole bucket; \<open>a\<close> is the address
  of the key string the table may now hold.
\<close>

definition stored :: "'v env \<Rightarrow> 'v HashTable \<Rightarrow> hkey \<Rightarrow> nat \<Rightarrow> 'v zval \<Rightarrow> 'v effect list \<Rightarrow>
    zptr option \<times> 'v env \<times> 'v HashTable \<Rightarrow> bool" where
  "stored e ht k a v lg = (\<lambda>(r, e', ht').
     \<exists>i. r = Some (AtBucket i) \<and> locate ht' k = Some i \<and> b_val (arData ht' ! i) = v \<and>
       ht_inv ht' \<and> entries ht' = assoc_put k v (entries ht) \<and> e_log e' = e_log e @ lg \<and>
       e_slots e' = e_slots e \<and> pDestructor ht' = pDestructor ht \<and> ht_addr ht' = ht_addr ht \<and>
       grows ht ht' \<and> key_refs ht' \<subseteq> key_ref k a \<union> key_refs ht \<and>
       (static_ok ht \<longrightarrow> static_ok ht'))"

lemma locate_appended:
  assumes "has_room ht" "key_of p \<notin> fst ` set (entries ht)" "key_ok p" "live p"
  shows "locate (appended ht p) (key_of p) = Some (nNumUsed ht)"
    "arData (appended ht p) ! nNumUsed ht = p\<lparr>b_next := ht_hash ht ! slot ht (b_h p)\<rparr>"
proof -
  have r: "ready_mixed (appended ht p)" using appended_entries(3) assms by blast
  have nl: "nNumUsed ht < length (arData ht)" by (rule has_room_nl [OF assms(1)])
  then show a: "arData (appended ht p) ! nNumUsed ht = p\<lparr>b_next := ht_hash ht ! slot ht (b_h p)\<rparr>"
    by (simp add: appended_def)
  show "locate (appended ht p) (key_of p) = Some (nNumUsed ht)"
  proof (rule locate_unique)
    show "base_ok (appended ht p)" using r by (simp add: ready_mixed_def)
    show "nNumUsed (appended ht p) \<le> length (arData (appended ht p))"
      using ready_mixed_lengths(1) [OF r] .
    show "nNumUsed ht < nNumUsed (appended ht p)" by (simp add: appended_def)
    show "live (arData (appended ht p) ! nNumUsed ht)"
      using a assms(4) by (simp add: Z_ISUNDEF_def)
    show "key_of (arData (appended ht p) ! nNumUsed ht) = key_of p"
      using a by (simp add: key_of_def split: option.split)
  qed
qed

lemma stored_appended:
  assumes room: "has_room ht'" "next_free_ok ht'" "entries ht' = entries ht"
      "pDestructor ht' = pDestructor ht" "ht_addr ht' = ht_addr ht" "grows ht ht'" "key_refs ht' = key_refs ht"
      "static_ok ht \<longrightarrow> static_ok ht'"
    and new: "SKey (zs_val key) \<notin> fst ` set (entries ht)"
    and v: "v \<noteq> IS_UNDEF" and h: "zs_h key = zend_hash_func (zs_val key)"
    and e: "e_log e' = e_log e @ lg" "e_slots e' = e_slots e"
  shows "(ht_static_keys ht' \<longrightarrow> zs_interned key) \<Longrightarrow> stored e ht (SKey (zs_val key)) (zs_ptr key) v lg
    (Some (AtBucket (nNumUsed ht')), e', appended ht' (new_bucket key v))"
    and "stored e ht (SKey (zs_val key)) (zs_ptr key) v lg
    (Some (AtBucket (nNumUsed ht')), e', (appended ht' (new_bucket key v))\<lparr>ht_static_keys := False\<rparr>)"
proof -
  let ?p = "new_bucket key v"
  have new': "key_of ?p \<notin> fst ` set (entries ht')" "live ?p" "key_ok ?p"
    using new v h by (simp_all add: room(3))
  note inv = appended_inv [OF room(1,2) _ _ new'(3,2), of "zs_val key"]
  note loc = locate_appended [OF room(1) new'(1,3,2)]
  have c: "content (appended ht' ?p) = content ht' @ [strip ?p]"
    by (rule appended_ok(2) [OF room(1) new'(1,3,2)])
  then have "key_refs (appended ht' ?p) \<subseteq> {(zs_ptr key, zs_val key)} \<union> key_refs ht'"
    by (auto simp: key_refs_def strip_def new_bucket_def)
  then have refs: "key_refs (appended ht' ?p) \<subseteq> {(zs_ptr key, zs_val key)} \<union> key_refs ht"
    by (simp only: room(7))
  show "stored e ht (SKey (zs_val key)) (zs_ptr key) v lg
      (Some (AtBucket (nNumUsed ht')), e', appended ht' ?p)" if "ht_static_keys ht' \<longrightarrow> zs_interned key"
  proof -
    have "static_ok (appended ht' ?p)" if "static_ok ht"
      using that room(8) \<open>ht_static_keys ht' \<longrightarrow> zs_interned key\<close>
      by (auto simp: static_ok_def c)
    with that show ?thesis
      using inv loc new' e room refs by (simp add: stored_def grows_def)
  qed
  have "stored e ht (SKey (zs_val key)) (zs_ptr key) v lg
    (Some (AtBucket (nNumUsed ht')), e', (appended ht' ?p)\<lparr>ht_static_keys := False\<rparr>) \<longleftrightarrow>
    (locate (appended ht' ?p) (SKey (zs_val key)) = Some (nNumUsed ht') \<and>
     b_val (arData (appended ht' ?p) ! nNumUsed ht') = v \<and> ht_inv (appended ht' ?p) \<and>
     entries (appended ht' ?p) = assoc_put (SKey (zs_val key)) v (entries ht) \<and> grows ht (appended ht' ?p) \<and>
     key_refs (appended ht' ?p) \<subseteq> {(zs_ptr key, zs_val key)} \<union> key_refs ht)"
    using e room
    by (simp add: stored_def locate_def grows_def key_refs_def content_def content_upto_def static_ok_def)
  then show "stored e ht (SKey (zs_val key)) (zs_ptr key) v lg
    (Some (AtBucket (nNumUsed ht')), e', (appended ht' ?p)\<lparr>ht_static_keys := False\<rparr>)"
    using inv loc new' e room refs by (simp add: grows_def)
qed

lemma key_in_keys:
  assumes "ht_inv ht"
  shows "k \<in> fst ` set (entries ht) \<longleftrightarrow> locate ht k \<noteq> None"
  by (simp add: locate_None_iff [OF ht_inv_used [OF assms]])

lemma string_key_mixed:
  assumes "ht_inv ht" "locate ht (SKey s) = Some i"
  shows "ht_initialized ht" "\<not> ht_packed ht" "ready_mixed ht"
proof -
  have "\<not> ht_packed ht \<and> ready_mixed ht"
    using no_string_keys(1) [OF assms(1), of s] assms(2) by (metis option.distinct(1))
  then show "ht_initialized ht" "\<not> ht_packed ht" "ready_mixed ht" by (simp_all add: ready_mixed_def)
qed

lemma stored_new_key:
  assumes room: "has_room ht'" "keeps ht ht'" "same_env e e'" "grows ht ht'"
      "ht_static_keys ht' \<longrightarrow> ht_static_keys ht"
    and inv: "ht_inv ht" and new: "locate ht (SKey (zs_val key)) = None" and v: "v \<noteq> IS_UNDEF"
    and h: "zs_h key = zend_hash_func (zs_val key)"
    and e: "e_log e'' = e_log e' @ lg" "e_slots e'' = e_slots e'"
  shows "(ht_static_keys ht' \<longrightarrow> zs_interned key) \<Longrightarrow> stored e ht (SKey (zs_val key)) (zs_ptr key) v lg
    (Some (AtBucket (nNumUsed ht')), e'', appended ht' (new_bucket key v))"
    and "stored e ht (SKey (zs_val key)) (zs_ptr key) v lg
    (Some (AtBucket (nNumUsed ht')), e'', (appended ht' (new_bucket key v))\<lparr>ht_static_keys := False\<rparr>)"
proof -
  have nf: "next_free_ok ht'" using inv room(2) by (simp add: keeps_next_free ht_inv_def)
  have nk: "SKey (zs_val key) \<notin> fst ` set (entries ht)" using new inv key_in_keys by blast
  have el: "e_log e'' = e_log e @ lg" "e_slots e'' = e_slots e"
    using room(3) e by (simp_all add: same_env_def)
  have fd: "pDestructor ht' = pDestructor ht" "ht_addr ht' = ht_addr ht"
    using room(2) by (simp_all add: keeps_def)
  have so: "static_ok ht \<longrightarrow> static_ok ht'" using keeps_static_ok [OF room(2,5)] by blast
  note st = stored_appended [OF room(1) nf keeps_entries [OF room(2)] fd room(4)
      keeps_key_refs [OF room(2)] so nk v h el]
  show "(ht_static_keys ht' \<longrightarrow> zs_interned key) \<Longrightarrow> stored e ht (SKey (zs_val key)) (zs_ptr key) v lg
    (Some (AtBucket (nNumUsed ht')), e'', appended ht' (new_bucket key v))" by (rule st(1))
  show "stored e ht (SKey (zs_val key)) (zs_ptr key) v lg
    (Some (AtBucket (nNumUsed ht')), e'', (appended ht' (new_bucket key v))\<lparr>ht_static_keys := False\<rparr>)"
    by (rule st(2))
qed

text \<open>The common tail of the branches: make room, then \<open>add_to_hash\<close>.\<close>

lemma add_after_resize:
  assumes r: "ready_mixed ht1" "\<not> ht_packed ht1" "keeps ht ht1" "nTableSize ht1 = nTableSize ht"
      "ht_static_keys ht1 \<longrightarrow> ht_static_keys ht \<and> zs_interned key"
    and sz: "nTableSize ht1 < 2 ^ 30"
    and e: "e_log e1 = e_log e @ lg" "e_slots e1 = e_slots e"
    and inv: "ht_inv ht" and new: "locate ht (SKey (zs_val key)) = None" and v: "v \<noteq> IS_UNDEF"
    and h: "zs_h key = zend_hash_func (zs_val key)"
  shows "\<exists>r. rbind (ZEND_HASH_IF_FULL_DO_RESIZE e1 ht1) (\<lambda>s. Inr (add_to_hash key v s)) = Inr r \<and>
    stored e ht (SKey (zs_val key)) (zs_ptr key) v lg r"
proof -
  from if_full_ok [OF r(1,2) sz, of e1] obtain e' ht' where
    h': "ZEND_HASH_IF_FULL_DO_RESIZE e1 ht1 = Inr (e', ht')" "same_env e1 e'" "has_room ht'"
      "keeps ht1 ht'" "grows ht1 ht'" "ht_static_keys ht' = ht_static_keys ht1" by blast
  have fl: "ht_static_keys ht' \<longrightarrow> ht_static_keys ht" "ht_static_keys ht' \<longrightarrow> zs_interned key"
    using h'(6) r(5) by simp_all
  have g: "grows ht ht'" using h'(3,5) r(2-4) by (auto simp: grows_def keeps_def has_room_def)
  have k: "keeps ht ht'" using r(3) h'(4) by (rule keeps_trans)
  have el: "e_log e' = e_log e @ lg" "e_slots e' = e_slots e"
    using h'(2) e by (simp_all add: same_env_def)
  have "add_to_hash key v (e', ht') =
      (Some (AtBucket (nNumUsed ht')), e', appended ht' (new_bucket key v))"
    using add_to_hash_appended [OF h'(3)] by (simp add: new_bucket_def)
  then show ?thesis
    using stored_new_key(1) [OF h'(3) k same_env_refl g fl(1) inv new v h el fl(2)] h'(1) by simp
qed

lemma keeps_addref:
  assumes "addref_key key (e, ht) = (e', ht')"
  shows "e_log e' = e_log e @ key_log key" "e_slots e' = e_slots e"
    "ht' = ht\<lparr>ht_static_keys := (zs_interned key \<and> ht_static_keys ht)\<rparr>"
  using assms by (auto simp: addref_key_def key_log_def log_effect_def split: if_splits)

lemma keeps_static [simp]: "keeps ht (ht1\<lparr>ht_static_keys := b\<rparr>) = keeps ht ht1"
  "has_room (ht1\<lparr>ht_static_keys := b\<rparr>) = has_room ht1"
  by (simp_all add: keeps_def content_def content_upto_def has_room_def)

lemma add_new_string:
  assumes inv: "ht_inv ht" and sz: "nTableSize ht < 2 ^ 30" and key: "good_key ht key"
    and v: "v \<noteq> IS_UNDEF" and new: "locate ht (SKey (zs_val key)) = None"
  shows "\<exists>r. zend_hash_add_or_update_i e ht key v flag = Inr r \<and>
    stored e ht (SKey (zs_val key)) (zs_ptr key) v (key_log key) r"
proof -
  have hk: "hashed_key key = hashed key" using key by (rule hashed_key_good)
  have new': "locate ht (SKey (zs_val (hashed key))) = None" using new by simp
  have step: "\<exists>r. (let (e1, ht1) = addref_key k (e2, ht2) in
        rbind (ZEND_HASH_IF_FULL_DO_RESIZE e1 ht1) (\<lambda>s. Inr (add_to_hash (hashed key) v s))) = Inr r \<and>
      stored e ht (SKey (zs_val key)) (zs_ptr key) v (key_log key) r"
    if "ready_mixed ht2" "\<not> ht_packed ht2" "keeps ht ht2" "nTableSize ht2 = nTableSize ht"
      "same_env e e2" "zs_ptr k = zs_ptr key \<and> zs_interned k = zs_interned key"
      "ht_static_keys ht2 = ht_static_keys ht" for e2 ht2 k
  proof (cases "addref_key k (e2, ht2)")
    case (Pair e1 ht1)
    note a = keeps_addref [OF Pair]
    have "e_log e1 = e_log e @ key_log key" "e_slots e1 = e_slots e"
      using a that(5,6) by (simp_all add: same_env_def key_log_def)
    with add_after_resize [of ht1 ht "hashed key" e1 e "key_log key" v] that a(3) inv new' v sz Pair
    show ?thesis by simp
  qed
  have shape: "(let (e1, ht1) = addref_key key (e2, ht2); k = hashed_key key in
      rbind (ZEND_HASH_IF_FULL_DO_RESIZE e1 ht1) (\<lambda>s. Inr (add_to_hash k v s))) =
     (let (e1, ht1) = addref_key key (e2, ht2) in
      rbind (ZEND_HASH_IF_FULL_DO_RESIZE e1 ht1) (\<lambda>s. Inr (add_to_hash (hashed key) v s)))" for e2 ht2
    by (simp add: hk)
  show ?thesis
    using inv
  proof (cases rule: ht_inv_cases)
    case uninit
    let ?ht = "zend_hash_real_init_mixed e ht"
    note ri = real_init_mixed_ok(1,2) [OF uninit(3,2), of e]
    obtain e1 ht1 where ar: "addref_key key (e, ?ht) = (e1, ht1)" by fastforce
    note a = keeps_addref [OF ar]
    have room: "has_room ht1" "keeps ht ht1" using ri(1,2) a(3) by simp_all
    have g: "grows ht ht1" using room(1) a(3) uninit(2,3) by (simp add: real_init_mixed_eq has_room_def)
    have fl: "ht_static_keys ht1 \<longrightarrow> ht_static_keys ht" "ht_static_keys ht1 \<longrightarrow> zs_interned (hashed key)"
      using a(3) uninit(2,3) by (simp_all add: real_init_mixed_eq)
    have "stored e ht (SKey (zs_val (hashed key))) (zs_ptr (hashed key)) v (key_log key)
        (Some (AtBucket (nNumUsed ht1)), e1, appended ht1 (new_bucket (hashed key) v))"
      by (rule stored_new_key(1) [OF room same_env_refl g fl(1) inv new' v]) (use a fl in simp_all)
    then show ?thesis
      using uninit(1) add_to_hash_appended [OF room(1)]
      by (simp add: zend_hash_add_or_update_i_def hk ar new_bucket_def)
  next
    case packed
    from zend_hash_packed_to_hash_ok [OF packed(4,1), of e] obtain e2 ht2 where
      p: "zend_hash_packed_to_hash e ht = Inr (e2, ht2)" "same_env e e2" "ready_mixed ht2"
        "keeps ht ht2" "nTableSize ht2 = nTableSize ht" "\<not> ht_packed ht2"
        "ht_static_keys ht2 = ht_static_keys ht" by blast
    have "zend_hash_add_or_update_i e ht key v flag =
        (let (e1, ht1) = addref_key key (e2, ht2) in
          rbind (ZEND_HASH_IF_FULL_DO_RESIZE e1 ht1) (\<lambda>s. Inr (add_to_hash (hashed key) v s)))"
      using packed(1,2) p(1) shape by (simp add: zend_hash_add_or_update_i_def)
    then show ?thesis using step [OF p(3,6,4,5,2) _ p(7), of key] by simp
  next
    case mixed
    have init: "ht_initialized ht" using mixed(2) by (simp add: ready_mixed_def)
    show ?thesis
    proof (cases "flag AND HASH_ADD_NEW = 0")
      case True
      have "zend_hash_find_bucket ht key False = Inr (None, hashed key)"
        using find_bucket_ok [OF inv, of key False] key new by (simp add: good_key_def hashed_def)
      then have "zend_hash_add_or_update_i e ht key v flag =
          (let (e1, ht1) = addref_key (hashed key) (e, ht) in
            rbind (ZEND_HASH_IF_FULL_DO_RESIZE e1 ht1) (\<lambda>s. Inr (add_to_hash (hashed key) v s)))"
        using mixed(1) True init by (simp add: zend_hash_add_or_update_i_def)
      then show ?thesis using step [OF mixed(2,1) keeps_refl refl same_env_refl _ refl, of "hashed key"] by simp
    next
      case False
      then have "zend_hash_add_or_update_i e ht key v flag =
          (let (e1, ht1) = addref_key key (e, ht) in
            rbind (ZEND_HASH_IF_FULL_DO_RESIZE e1 ht1) (\<lambda>s. Inr (add_to_hash (hashed key) v s)))"
        using mixed(1) init shape by (simp add: zend_hash_add_or_update_i_def)
      then show ?thesis using step [OF mixed(2,1) keeps_refl refl same_env_refl _ refl, of key] by simp
    qed
  qed
qed

lemma add_old_string:
  assumes inv: "ht_inv ht" and key: "good_key ht key" and old: "locate ht (SKey (zs_val key)) = Some i"
    and fl: "flag AND HASH_ADD_NEW = 0"
  shows "zend_hash_add_or_update_i e ht key v flag = Inr (update_existing e ht i v flag)"
proof -
  have "zend_hash_find_bucket ht key False = Inr (Some i, hashed key)"
    using find_bucket_ok [OF inv, of key False] key old by (simp add: good_key_def hashed_def)
  then show ?thesis
    using string_key_mixed [OF inv old] fl by (simp add: zend_hash_add_or_update_i_def)
qed

lemma stored_overwrite:
  assumes inv: "ht_inv ht" and old: "locate ht k = Some i" and v: "v \<noteq> IS_UNDEF"
  shows "stored e ht k a v (dtor_log ht (b_val (arData ht ! i))) (overwrite e ht (AtBucket i) v)"
proof -
  let ?ht = "upd_bucket i (\<lambda>p. p\<lparr>b_val := v\<rparr>) ht"
  note s = set_val_inv [OF inv old v] and l = locate_Some [OF old]
  have i: "i < length (arData ht)" using l(1) ht_inv_used [OF inv] by simp
  have "locate ?ht k = Some i"
    by (rule locate_unique [OF ht_inv_base [OF s(1)] ht_inv_used [OF s(1)]])
      (use l i v in \<open>simp_all add: upd_bucket_def Z_ISUNDEF_def\<close>)
  moreover have "key_refs ?ht \<subseteq> key_refs ht"
  proof (rule subrelI)
    fix p b assume "(p, b) \<in> key_refs ?ht"
    then obtain j t where j: "j < nNumUsed ht" "live (arData ?ht ! j)" "b_key (arData ?ht ! j) = Some t"
      "p = zs_ptr t" "b = zs_val t"
      using key_refs_mem [OF ht_inv_used [OF s(1)]] by (auto simp: upd_bucket_def)
    have "live (arData ht ! j)" "b_key (arData ht ! j) = Some t"
      using j(2,3) l(2) i by (cases "j = i"; simp add: upd_bucket_def)+
    with j show "(p, b) \<in> key_refs ht" using key_refs_mem [OF ht_inv_used [OF inv]] by blast
  qed
  moreover have "static_ok ?ht" if so: "static_ok ht"
    unfolding static_ok_mem [OF ht_inv_used [OF s(1)]]
  proof (intro impI allI)
    fix j t assume j: "ht_static_keys ?ht" "j < nNumUsed ?ht" "live (arData ?ht ! j)" "b_key (arData ?ht ! j) = Some t"
    have "live (arData ht ! j)" "b_key (arData ht ! j) = Some t"
      using j(3,4) l(2) i by (cases "j = i"; simp add: upd_bucket_def)+
    with j(1,2) so show "zs_interned t"
      by (auto simp: static_ok_mem [OF ht_inv_used [OF inv]] upd_bucket_def)
  qed
  ultimately show ?thesis using s i
    by (simp add: stored_def overwrite_def call_dtor_def dtor_log_def log_effect_def)
      (auto simp: upd_bucket_def grows_def)
qed

lemma flag_bits [simp]:
  "HASH_UPDATE AND HASH_ADD = 0" "HASH_UPDATE AND HASH_ADD_NEW = 0" "HASH_ADD AND HASH_ADD_NEW = 0"
  "HASH_ADD \<noteq> 0" "HASH_ADD_NEW \<noteq> 0" "HASH_ADD AND HASH_UPDATE_INDIRECT = 0"
  "HASH_UPDATE AND HASH_UPDATE_INDIRECT = 0"
  "(HASH_UPDATE OR HASH_UPDATE_INDIRECT) AND HASH_ADD = 0"
  "(HASH_UPDATE OR HASH_UPDATE_INDIRECT) AND HASH_ADD_NEW = 0"
  "(HASH_UPDATE OR HASH_UPDATE_INDIRECT) AND HASH_UPDATE_INDIRECT \<noteq> 0"
  "(HASH_ADD OR HASH_ADD_NEXT) AND HASH_ADD \<noteq> 0" "(HASH_ADD OR HASH_ADD_NEXT) AND HASH_ADD_NEW = 0"
  "(HASH_ADD OR HASH_ADD_NEW) AND HASH_ADD_NEW \<noteq> 0"
  "(HASH_ADD OR HASH_ADD_NEW OR HASH_ADD_NEXT) AND HASH_ADD_NEW \<noteq> 0"
  by (simp_all add: hash_flags)

lemma update_existing_simps:
  "update_existing e ht i v HASH_UPDATE = overwrite e ht (AtBucket i) v"
  "update_existing e ht i v HASH_ADD = (None, e, ht)"
  by (simp_all add: update_existing_def split: zval.split)

text \<open>The abstract effect log of an update by a string key that the caller passes.\<close>

definition update_log :: "'v HashTable \<Rightarrow> hkey \<Rightarrow> 'v effect list \<Rightarrow> 'v effect list" where
  "update_log ht k lg = (case map_of (entries ht) k of Some old \<Rightarrow> dtor_log ht old | None \<Rightarrow> lg)"

lemma map_of_locate:
  assumes "ht_inv ht"
  shows "map_of (entries ht) k = map_option (\<lambda>i. b_val (arData ht ! i)) (locate ht k)"
  by (rule map_of_entries [OF ht_inv_used [OF assms]])

lemma hash_update_ok:
  assumes inv: "ht_inv ht" and sz: "nTableSize ht < 2 ^ 30" and key: "good_key ht key"
    and v: "v \<noteq> IS_UNDEF"
  shows "\<exists>r. zend_hash_update e ht key v = Inr r \<and>
    stored e ht (SKey (zs_val key)) (zs_ptr key) v (update_log ht (SKey (zs_val key)) (key_log key)) r"
proof (cases "locate ht (SKey (zs_val key))")
  case None
  then show ?thesis
    using add_new_string [OF assms None]
    by (simp add: zend_hash_update_def update_log_def map_of_locate [OF inv])
next
  case (Some i)
  then show ?thesis
    using add_old_string [OF inv key Some, of HASH_UPDATE] stored_overwrite [OF inv Some v]
    by (simp add: zend_hash_update_def update_existing_simps update_log_def map_of_locate [OF inv])
qed

lemma hash_add_ok:
  assumes inv: "ht_inv ht" and sz: "nTableSize ht < 2 ^ 30" and key: "good_key ht key"
    and v: "v \<noteq> IS_UNDEF"
  shows "if SKey (zs_val key) \<in> fst ` set (entries ht) then zend_hash_add e ht key v = Inr (None, e, ht)
    else \<exists>r. zend_hash_add e ht key v = Inr r \<and> stored e ht (SKey (zs_val key)) (zs_ptr key) v (key_log key) r"
proof (cases "locate ht (SKey (zs_val key))")
  case None
  then show ?thesis
    using add_new_string [OF assms None]
    by (simp add: zend_hash_add_def key_in_keys [OF inv])
next
  case (Some i)
  then show ?thesis
    using add_old_string [OF inv key Some, of HASH_ADD]
    by (simp add: zend_hash_add_def update_existing_simps key_in_keys [OF inv])
qed

lemma hash_add_new_ok:
  assumes "ht_inv ht" "nTableSize ht < 2 ^ 30" "good_key ht key"
    "v \<noteq> IS_UNDEF" "SKey (zs_val key) \<notin> fst ` set (entries ht)"
  shows "\<exists>r. zend_hash_add_new e ht key v = Inr r \<and> stored e ht (SKey (zs_val key)) (zs_ptr key) v (key_log key) r"
  using add_new_string [OF assms(1-4)] assms(5)
  by (simp add: zend_hash_add_new_def key_in_keys [OF assms(1)])

subsection \<open>Byte-string keys\<close>

definition fresh_key :: "'v env \<Rightarrow> bytes \<Rightarrow> zend_string" where
  "fresh_key e str = (zend_string_init (e_fresh e) str)\<lparr>zs_h := zend_hash_func str\<rparr>"

lemma fresh_key_simps [simp]: "zs_val (fresh_key e str) = str"
  "zs_h (fresh_key e str) = zend_hash_func str" "zs_ptr (fresh_key e str) = e_fresh e"
  by (simp_all add: fresh_key_def zend_string_init_def)

lemma str_add_stored:
  assumes room: "has_room ht'" "keeps ht ht'" "same_env e e'" "grows ht ht'"
      "ht_static_keys ht' \<longrightarrow> ht_static_keys ht"
    and inv: "ht_inv ht" and new: "locate ht (SKey str) = None" and v: "v \<noteq> IS_UNDEF"
  shows "stored e ht (SKey str) (e_fresh e) v [] (str_add_to_hash str (zend_hash_func str) v (e', ht'))"
proof -
  have "SKey (zs_val (fresh_key e' str)) = SKey str" by simp
  with new have new': "locate ht (SKey (zs_val (fresh_key e' str))) = None" by simp
  have fe: "e_fresh e' = e_fresh e" using room(3) by (simp add: same_env_def)
  have el: "e_log (e'\<lparr>e_fresh := e_fresh e' + 1\<rparr>) = e_log e' @ []"
    "e_slots (e'\<lparr>e_fresh := e_fresh e' + 1\<rparr>) = e_slots e'" by simp_all
  show ?thesis
    using stored_new_key(2) [OF room inv new' v _ el]
      str_add_to_hash_appended [OF room(1), of str "zend_hash_func str" v e']
    by (simp add: new_bucket_def fresh_key_def zend_string_init_def fe)
qed

lemma str_add_new:
  assumes inv: "ht_inv ht" and sz: "nTableSize ht < 2 ^ 30"
    and v: "v \<noteq> IS_UNDEF" and new: "locate ht (SKey str) = None"
  shows "\<exists>r. zend_hash_str_add_or_update_i e ht str (zend_hash_func str) v flag = Inr r \<and>
    stored e ht (SKey str) (e_fresh e) v [] r"
proof -
  have step: "\<exists>r. rbind (ZEND_HASH_IF_FULL_DO_RESIZE e2 ht2)
        (\<lambda>s. Inr (str_add_to_hash str (zend_hash_func str) v s)) = Inr r \<and> stored e ht (SKey str) (e_fresh e) v [] r"
    if "ready_mixed ht2" "\<not> ht_packed ht2" "keeps ht ht2" "nTableSize ht2 = nTableSize ht" "same_env e e2"
      "ht_static_keys ht2 = ht_static_keys ht" for e2 ht2
  proof -
    have "nTableSize ht2 < 2 ^ 30" using that(4) sz by simp
    from if_full_ok [OF that(1,2) this, of e2] obtain e' ht' where
      h: "ZEND_HASH_IF_FULL_DO_RESIZE e2 ht2 = Inr (e', ht')" "same_env e2 e'" "has_room ht'"
        "keeps ht2 ht'" "grows ht2 ht'" "ht_static_keys ht' = ht_static_keys ht2" by blast
    have fl: "ht_static_keys ht' \<longrightarrow> ht_static_keys ht" using h(6) that(6) by simp
    have g: "grows ht ht'" using h(3,5) that(2-4) by (auto simp: grows_def keeps_def has_room_def)
    have "stored e ht (SKey str) (e_fresh e) v [] (str_add_to_hash str (zend_hash_func str) v (e', ht'))"
      by (rule str_add_stored [OF h(3) keeps_trans [OF that(3) h(4)] same_env_trans [OF that(5) h(2)]
          g fl inv new v])
    with h(1) show ?thesis by simp
  qed
  show ?thesis
    using inv
  proof (cases rule: ht_inv_cases)
    case uninit
    note ri = real_init_mixed_ok(1,2) [OF uninit(3,2), of e]
    have g: "grows ht (zend_hash_real_init_mixed e ht)"
      using ri(1) uninit(2,3) by (simp add: real_init_mixed_eq has_room_def)
    have fl: "ht_static_keys (zend_hash_real_init_mixed e ht) \<longrightarrow> ht_static_keys ht"
      using uninit(2,3) by (simp add: real_init_mixed_eq)
    show ?thesis
      using uninit(1) str_add_stored [OF ri same_env_refl g fl inv new v]
      by (simp add: zend_hash_str_add_or_update_i_def)
  next
    case packed
    from zend_hash_packed_to_hash_ok [OF packed(4,1), of e] obtain e2 ht2 where
      p: "zend_hash_packed_to_hash e ht = Inr (e2, ht2)" "same_env e e2" "ready_mixed ht2"
        "keeps ht ht2" "nTableSize ht2 = nTableSize ht" "\<not> ht_packed ht2"
        "ht_static_keys ht2 = ht_static_keys ht" by blast
    then show ?thesis
      using step [OF p(3,6,4,5,2,7)] packed(1,2) by (simp add: zend_hash_str_add_or_update_i_def)
  next
    case mixed
    have "ht_initialized ht" using mixed(2) by (simp add: ready_mixed_def)
    then show ?thesis
      using step [OF mixed(2,1) keeps_refl refl same_env_refl refl] mixed(1)
        str_find_bucket_ok [OF inv, of str] new
      by (simp add: zend_hash_str_add_or_update_i_def)
  qed
qed

lemma str_add_old:
  assumes inv: "ht_inv ht" and old: "locate ht (SKey str) = Some i" and fl: "flag AND HASH_ADD_NEW = 0"
  shows "zend_hash_str_add_or_update_i e ht str (zend_hash_func str) v flag =
    Inr (update_existing e ht i v flag)"
  using string_key_mixed [OF inv old] fl str_find_bucket_ok [OF inv, of str] old
  by (simp add: zend_hash_str_add_or_update_i_def)

lemma hash_str_update_ok:
  assumes inv: "ht_inv ht" and sz: "nTableSize ht < 2 ^ 30" and v: "v \<noteq> IS_UNDEF"
  shows "\<exists>r. zend_hash_str_update e ht str v = Inr r \<and>
    stored e ht (SKey str) (e_fresh e) v (update_log ht (SKey str) []) r"
proof (cases "locate ht (SKey str)")
  case None
  then show ?thesis
    using str_add_new [OF assms None]
    by (simp add: zend_hash_str_update_def update_log_def map_of_locate [OF inv])
next
  case (Some i)
  then show ?thesis
    using str_add_old [OF inv Some, of HASH_UPDATE] stored_overwrite [OF inv Some v]
    by (simp add: zend_hash_str_update_def update_existing_simps update_log_def map_of_locate [OF inv])
qed

lemma hash_str_add_ok:
  assumes inv: "ht_inv ht" and sz: "nTableSize ht < 2 ^ 30" and v: "v \<noteq> IS_UNDEF"
  shows "if SKey str \<in> fst ` set (entries ht) then zend_hash_str_add e ht str v = Inr (None, e, ht)
    else \<exists>r. zend_hash_str_add e ht str v = Inr r \<and> stored e ht (SKey str) (e_fresh e) v [] r"
proof (cases "locate ht (SKey str)")
  case None
  then show ?thesis
    using str_add_new [OF assms None] by (simp add: zend_hash_str_add_def key_in_keys [OF inv])
next
  case (Some i)
  then show ?thesis
    using str_add_old [OF inv Some, of HASH_ADD]
    by (simp add: zend_hash_str_add_def update_existing_simps key_in_keys [OF inv])
qed

end
