(* ===== verification/Zend_Hash_Index_Correct.thy ===== *)
theory Zend_Hash_Index_Correct
  imports Zend_Hash_Update_Correct
begin

section \<open>Correctness of insertion and update by integer key\<close>

text \<open>
  The same contract as for string keys, over the three layouts: in a packed table a key
  beyond the buckets in use fills the gap with undefined buckets, a key that falls into a hole
  or too far away converts the table into a hash.  The next free integer key stays above
  every integer key.
\<close>

subsection \<open>Signed keys\<close>

abbreviation LONG_MAX :: u64 where "LONG_MAX \<equiv> 0x7fffffffffffffff"

lemma sint_le_max: "sint (h :: u64) \<le> 2 ^ 63 - 1"
  using sint_lt [of h] by simp

lemma sint_small:
  assumes "unat (h :: u64) < 2 ^ 63"
  shows "sint h = int (unat h)"
proof -
  have n: "uint h = int (unat h)" by simp
  have "int (unat h) < int (2 ^ 63)" using assms by (simp only: of_nat_less_iff)
  moreover have "int (2 ^ 63) = (2 :: int) ^ 63" by simp
  ultimately have u: "uint h < 2 ^ 63" "- (2 ^ 63) \<le> uint h"
    using uint_ge_0 [of h] n by linarith+
  have "sint h = signed_take_bit 63 (uint h)" by (simp add: sint_uint)
  also have "\<dots> = uint h" using u(2,1) by (rule signed_take_bit_int_eq_self)
  finally show ?thesis by (simp only: n)
qed

lemma sint_of_nat:
  assumes "n < 2 ^ 63"
  shows "sint (of_nat n :: u64) = int n" "unat (of_nat n :: u64) = n"
proof -
  show "unat (of_nat n :: u64) = n"
    using assms by (simp add: unsigned_of_nat take_bit_nat_eq_self)
  with assms sint_small [of "of_nat n"] show "sint (of_nat n :: u64) = int n" by simp
qed

lemma sint_Suc:
  assumes "h < LONG_MAX"
  shows "sint (h + 1) = sint h + 1"
proof -
  have u: "unat h < 2 ^ 63 - 1" using assms by (simp add: word_less_nat_alt)
  moreover have "unat (h + 1) = unat h + 1"
  proof -
    have "unat h + 1 < 2 ^ 64" using u by simp
    then show ?thesis by (simp add: unat_word_ariths)
  qed
  ultimately show ?thesis by (simp add: sint_small)
qed

lemma sint_inj:
  assumes "sint (a :: u64) = sint b"
  shows "a = b"
proof -
  have "word_of_int (sint c) = c" for c :: u64
    using scast_eq [where 'a = 64 and 'b = 64, of c] by simp
  with assms show ?thesis by metis
qed

lemma sint_LONG_MAX [simp]: "sint LONG_MAX = 2 ^ 63 - 1"
  by simp

subsection \<open>Appending to a hash\<close>

lemma bump_simps [simp]:
  "entries (bump_next_free h ht) = entries ht" "arData (bump_next_free h ht) = arData ht"
  "nNumUsed (bump_next_free h ht) = nNumUsed ht" "ht_packed (bump_next_free h ht) = ht_packed ht"
  "pDestructor (bump_next_free h ht) = pDestructor ht" "ht_addr (bump_next_free h ht) = ht_addr ht"
  "ready_mixed (bump_next_free h ht) = ready_mixed ht"
  "nTableSize (bump_next_free h ht) = nTableSize ht"
  "locate (bump_next_free h ht) k = locate ht k" "key_refs (bump_next_free h ht) = key_refs ht"
  "static_ok (bump_next_free h ht) = static_ok ht"
proof -
  show e: "entries (bump_next_free h ht) = entries ht"
    by (simp add: bump_next_free_def entries_def entries_upto_def)
  have c: "chains_upto (ht\<lparr>nNextFreeElement := f\<rparr>) n = chains_upto ht n" for n f
    by (auto intro: chains_cong)
  have f: "entries (ht\<lparr>nNextFreeElement := f\<rparr>) = entries ht" for f
    by (simp add: entries_def entries_upto_def)
  show "ready_mixed (bump_next_free h ht) = ready_mixed ht"
    by (simp add: bump_next_free_def ready_mixed_def base_ok_def f mixed_ok_def c)
qed (simp_all add: bump_next_free_def locate_def key_refs_def static_ok_def content_def content_upto_def)

lemma next_free_bump:
  assumes nf: "next_free_ok ht" and e: "entries ht' = entries ht @ [(IKey h, v)]"
    and f: "nNextFreeElement ht' = nNextFreeElement ht"
  shows "next_free_ok (bump_next_free h ht')"
proof -
  let ?n = "nNextFreeElement ht" and ?n' = "nNextFreeElement (bump_next_free h ht')"
  have key: "sint h' < sint ?n' \<or> (sint h' = 2 ^ 63 - 1 \<and> sint ?n' = 2 ^ 63 - 1)"
    if "h' = h \<or> sint h' < sint ?n \<or> (sint h' = 2 ^ 63 - 1 \<and> sint ?n = 2 ^ 63 - 1)" for h'
  proof (cases "sint h \<ge> sint ?n")
    case False
    with that show ?thesis by (auto simp: bump_next_free_def f)
  next
    case True
    show ?thesis
    proof (cases "h < LONG_MAX")
      case h: True
      then have n': "sint ?n' = sint h + 1" using True by (simp add: bump_next_free_def f sint_Suc)
      moreover have "sint h \<noteq> 2 ^ 63 - 1" using n' sint_le_max [of ?n'] by auto
      ultimately show ?thesis using that True sint_le_max [of h] by auto
    next
      case False
      then have "sint ?n' = 2 ^ 63 - 1" using True by (simp add: bump_next_free_def f)
      then show ?thesis using sint_le_max [of h'] by auto
    qed
  qed
  show ?thesis
    unfolding next_free_ok_def
  proof (intro allI impI)
    fix h' v' assume "(IKey h', v') \<in> set (entries (bump_next_free h ht'))"
    then have "h' = h \<or> (IKey h', v') \<in> set (entries ht)" by (auto simp: e)
    then show "sint h' < sint ?n' \<or> (sint h' = 2 ^ 63 - 1 \<and> sint ?n' = 2 ^ 63 - 1)"
      using nf by (intro key) (auto simp: next_free_ok_def)
  qed
qed

definition int_bucket :: "u64 \<Rightarrow> 'v zval \<Rightarrow> 'v bucket" where
  "int_bucket h v = \<lparr>b_val = v, b_next = 0, b_h = h, b_key = None\<rparr>"

lemma int_bucket_simps [simp]:
  "key_of (int_bucket h v) = IKey h" "b_val (int_bucket h v) = v" "key_ok (int_bucket h v)"
  "Z_ISUNDEF (int_bucket h v) \<longleftrightarrow> v = IS_UNDEF"
  by (auto simp: int_bucket_def key_of_def key_ok_def Z_ISUNDEF_def)

lemma add_to_mixed_stored:
  assumes room: "has_room ht'" "keeps ht ht'" "same_env e e'" "grows ht ht'"
      "ht_static_keys ht' = ht_static_keys ht"
    and inv: "ht_inv ht" and new: "locate ht (IKey h) = None" and v: "v \<noteq> IS_UNDEF"
  shows "stored e ht (IKey h) 0 v [] (add_to_mixed h v (e', ht'))"
    and "nNextFreeElement (snd (snd (add_to_mixed h v (e', ht')))) =
      nNextFreeElement (bump_next_free h ht)"
proof -
  let ?p = "int_bucket h v"
  have eq: "add_to_mixed h v (e', ht') =
      (Some (AtBucket (nNumUsed ht')), e', bump_next_free h (appended ht' ?p))"
    using add_to_mixed_appended [OF room(1), of h v e'] by (simp add: int_bucket_def)
  have ent: "entries ht' = entries ht" by (rule keeps_entries [OF room(2)])
  have nk: "key_of ?p \<notin> fst ` set (entries ht')" using new inv by (simp add: ent key_in_keys)
  have lv: "live ?p" using v by simp
  note a = appended_entries [OF room(1) nk _ lv, simplified]
  note loc = locate_appended [OF room(1) nk _ lv, simplified]
  have nf: "next_free_ok (bump_next_free h (appended ht' ?p))"
    by (rule next_free_bump [of ht'])
      (use a(2) inv room(2) in \<open>simp_all add: entry_of_def keeps_next_free ht_inv_def\<close>)
  have c: "content (appended ht' ?p) = content ht' @ [strip ?p]"
    by (rule appended_ok(2) [OF room(1) nk _ lv]) simp
  then have so: "static_ok (appended ht' ?p)" if "static_ok ht"
    using keeps_static_ok [OF room(2) _ that] room(5) by (auto simp: static_ok_def strip_def int_bucket_def)
  from c have "key_refs (appended ht' ?p) \<subseteq> key_refs ht'"
    by (auto simp: key_refs_def strip_def int_bucket_def)
  then have refs: "key_refs (bump_next_free h (appended ht' ?p)) \<subseteq> key_refs ht"
    using keeps_key_refs [OF room(2)] by simp
  have "ht_inv (bump_next_free h (appended ht' ?p))"
    by (rule ht_inv_mixedI) (use a(3) room(1) nf in \<open>simp_all add: has_room_def\<close>)
  then show "stored e ht (IKey h) 0 v [] (add_to_mixed h v (e', ht'))"
    using a(1) loc room(2-4) refs so unfolding eq
    by (simp add: stored_def ent keeps_def same_env_def grows_def)
  show "nNextFreeElement (snd (snd (add_to_mixed h v (e', ht')))) = nNextFreeElement (bump_next_free h ht)"
    using room(2) unfolding eq by (simp add: bump_next_free_def keeps_def)
qed

subsection \<open>Appending to a packed table\<close>

lemma undef_range_result:
  "\<exists>bs. undef_range q p ht = ht\<lparr>arData := bs\<rparr> \<and> length bs = length (arData ht) \<and>
     (\<forall>i < length bs. bs ! i =
        (if q \<le> i \<and> i < p then (arData ht ! i)\<lparr>b_val := IS_UNDEF\<rparr> else arData ht ! i))"
proof (induction p)
  case 0
  then show ?case by (auto simp: undef_range_def intro: exI [of _ "arData ht"])
next
  case (Suc p)
  then obtain bs where bs: "undef_range q p ht = ht\<lparr>arData := bs\<rparr>" "length bs = length (arData ht)"
    "\<forall>i < length bs. bs ! i =
       (if q \<le> i \<and> i < p then (arData ht ! i)\<lparr>b_val := IS_UNDEF\<rparr> else arData ht ! i)" by blast
  show ?case
  proof (cases "q \<le> p")
    case True
    then have "undef_range q (Suc p) ht = ht\<lparr>arData := bs[p := (bs ! p)\<lparr>b_val := IS_UNDEF\<rparr>]\<rparr>"
      using bs(1) by (simp add: undef_range_def upd_bucket_def)
    with True bs(2,3) show ?thesis
      by (intro exI [of _ "bs[p := (bs ! p)\<lparr>b_val := IS_UNDEF\<rparr>]"]) (auto simp: nth_list_update less_Suc_eq)
  next
    case False
    then have "undef_range q (Suc p) ht = ht" by (simp add: undef_range_def)
    with False show ?thesis by (intro exI [of _ "arData ht"]) auto
  qed
qed

text \<open>The buckets between the last one in use and the new one, when the code does not fill them.\<close>

definition gap_ok :: "u32 \<Rightarrow> 'v HashTable \<Rightarrow> nat \<Rightarrow> bool" where
  "gap_ok flag ht h = (flag AND (HASH_ADD_NEW OR HASH_ADD_NEXT) = HASH_ADD_NEW OR HASH_ADD_NEXT \<longrightarrow>
     (\<forall>i. nNumUsed ht \<le> i \<and> i < h \<longrightarrow> Z_ISUNDEF (arData ht ! i)))"

text \<open>What \<open>add_to_packed\<close> makes of the table.\<close>

lemma add_to_packed_result:
  assumes h: "nNumUsed ht \<le> unat h" "unat h < length (arData ht)" and gap: "gap_ok flag ht (unat h)"
  obtains bs where
    "add_to_packed h v flag (e, ht) = (Some (AtBucket (unat h)), e,
       ht\<lparr>nNumUsed := Suc (unat h), nNextFreeElement := of_nat (Suc (unat h)),
          nNumOfElements := Suc (nNumOfElements ht), arData := bs\<rparr>)"
    "length bs = length (arData ht)" "\<And>i. i < nNumUsed ht \<Longrightarrow> bs ! i = arData ht ! i"
    "\<And>i. nNumUsed ht \<le> i \<Longrightarrow> i < unat h \<Longrightarrow> Z_ISUNDEF (bs ! i)"
    "b_val (bs ! unat h) = v" "b_h (bs ! unat h) = h" "b_key (bs ! unat h) = None"
proof -
  define fill where "fill = (flag AND (HASH_ADD_NEW OR HASH_ADD_NEXT) \<noteq> HASH_ADD_NEW OR HASH_ADD_NEXT
    \<and> unat h > nNumUsed ht)"
  define ht1 where "ht1 = (if fill then undef_range (nNumUsed ht) (unat h) ht else ht)"
  define bs where "bs = (arData ht1)[unat h := (arData ht1 ! unat h)\<lparr>b_h := h, b_key := None, b_val := v\<rparr>]"
  obtain ds where ds: "ht1 = ht\<lparr>arData := ds\<rparr>" "length ds = length (arData ht)"
    "\<forall>i < length ds. ds ! i = (if fill \<and> nNumUsed ht \<le> i \<and> i < unat h
       then (arData ht ! i)\<lparr>b_val := IS_UNDEF\<rparr> else arData ht ! i)"
  proof (cases fill)
    case True
    with undef_range_result [of "nNumUsed ht" "unat h" ht] show thesis
      by (auto simp: ht1_def intro: that)
  next
    case False
    then show thesis by (intro that [of "arData ht"]) (simp_all add: ht1_def)
  qed
  then have ht1: "ht1 = ht\<lparr>arData := arData ht1\<rparr>" "length (arData ht1) = length (arData ht)" by simp_all
  have old: "arData ht1 ! i = arData ht ! i" if "i < nNumUsed ht" for i
    using that ds h by simp
  have gp: "Z_ISUNDEF (arData ht1 ! i)" if "nNumUsed ht \<le> i" "i < unat h" for i
  proof (cases fill)
    case True
    then show ?thesis using that h ds by (simp add: Z_ISUNDEF_def)
  next
    case False
    then show ?thesis using that gap h ds by (auto simp: fill_def gap_ok_def)
  qed
  have used: "nNumUsed ht1 = nNumUsed ht" "nNumOfElements ht1 = nNumOfElements ht"
    using arg_cong [OF ht1(1), of nNumUsed] arg_cong [OF ht1(1), of nNumOfElements] by simp_all
  have "add_to_packed h v flag (e, ht) = (Some (AtBucket (unat h)), e,
       ht1\<lparr>nNumUsed := Suc (unat h), nNextFreeElement := of_nat (Suc (unat h)),
          nNumOfElements := Suc (nNumOfElements ht), arData := bs\<rparr>)"
    using used unfolding add_to_packed_def prod.case fill_def [symmetric] ht1_def [symmetric]
    by (simp add: add_element_def upd_bucket_def bs_def Let_def)
  moreover have "ht1\<lparr>nNumUsed := Suc (unat h), nNextFreeElement := of_nat (Suc (unat h)),
          nNumOfElements := Suc (nNumOfElements ht), arData := bs\<rparr> =
      ht\<lparr>nNumUsed := Suc (unat h), nNextFreeElement := of_nat (Suc (unat h)),
          nNumOfElements := Suc (nNumOfElements ht), arData := bs\<rparr>"
    by (subst ht1(1)) simp
  ultimately show thesis
    using that [of bs] ht1(2) old gp h by (auto simp: bs_def)
qed

lemma add_to_packed_stored:
  assumes b: "base_ok ht'" "ht_initialized ht'" "ht_packed ht'" "packed_ok ht'"
    and same: "entries ht' = entries ht" "pDestructor ht' = pDestructor ht" "ht_addr ht' = ht_addr ht" "grows ht ht'"
    and h: "nNumUsed ht' \<le> unat h" "unat h < nTableSize ht'" and gap: "gap_ok flag ht' (unat h)"
    and v: "v \<noteq> IS_UNDEF"
  shows "stored e ht (IKey h) 0 v [] (add_to_packed h v flag (e, ht'))"
    and "nNextFreeElement (snd (snd (add_to_packed h v flag (e, ht')))) = h + 1"
    and "ht_packed (snd (snd (add_to_packed h v flag (e, ht'))))"
proof -
  have len: "length (arData ht') = nTableSize ht'" using b by (simp add: base_ok_def)
  obtain bs where bs: "add_to_packed h v flag (e, ht') = (Some (AtBucket (unat h)), e,
       ht'\<lparr>nNumUsed := Suc (unat h), nNextFreeElement := of_nat (Suc (unat h)),
          nNumOfElements := Suc (nNumOfElements ht'), arData := bs\<rparr>)"
    "length bs = length (arData ht')" "\<And>i. i < nNumUsed ht' \<Longrightarrow> bs ! i = arData ht' ! i"
    "\<And>i. nNumUsed ht' \<le> i \<Longrightarrow> i < unat h \<Longrightarrow> Z_ISUNDEF (bs ! i)"
    "b_val (bs ! unat h) = v" "b_h (bs ! unat h) = h" "b_key (bs ! unat h) = None"
    by (rule add_to_packed_result [OF h(1) _ gap, of v e]) (use h len in auto)
  define F where "F = ht'\<lparr>nNumUsed := Suc (unat h), nNextFreeElement := of_nat (Suc (unat h)),
          nNumOfElements := Suc (nNumOfElements ht'), arData := bs\<rparr>"
  have F: "nNumUsed F = Suc (unat h)" "arData F = bs" "nTableSize F = nTableSize ht'"
    "ht_initialized F" "ht_packed F" "nNumOfElements F = Suc (nNumOfElements ht')"
    "nNextFreeElement F = of_nat (Suc (unat h))" "nTableMask F = nTableMask ht'"
    "ht_hash F = ht_hash ht'" using b by (simp_all add: F_def)
  have bl: "unat h < length bs" using bs(2) len h by simp
  have n: "nNumUsed ht' \<le> length (arData ht')" using b len by (simp add: base_ok_def)
  have split: "[0..<Suc (unat h)] = [0..<nNumUsed ht'] @ [nNumUsed ht'..<unat h] @ [unat h]"
    using h(1) upt_add_eq_append [of 0 "nNumUsed ht'" "unat h - nNumUsed ht'"] by simp
  have lv: "live (bs ! unat h)" using bs(5) v by (simp add: Z_ISUNDEF_def)
  have old: "entries ht = map (\<lambda>i. entry_of (arData ht' ! i))
      (filter (\<lambda>i. live (arData ht' ! i)) [0..<nNumUsed ht'])"
    using n same(1) by (simp add: entries_def [of ht'] entries_upto_conv)
  have e1: "filter (\<lambda>i. live (bs ! i)) [0..<nNumUsed ht'] =
      filter (\<lambda>i. live (arData ht' ! i)) [0..<nNumUsed ht']"
    by (rule filter_cong) (simp_all add: bs(3))
  have e2: "filter (\<lambda>i. live (bs ! i)) [nNumUsed ht'..<unat h] = []"
    using bs(4) by (auto simp: filter_empty_conv)
  have "entries F = map (\<lambda>i. entry_of (bs ! i))
      (filter (\<lambda>i. live (bs ! i)) [0..<nNumUsed ht'] @ [unat h])"
    using bl lv by (simp add: entries_def entries_upto_conv F split e2 del: upt_Suc)
  also have "\<dots> = map (\<lambda>i. entry_of (arData ht' ! i))
      (filter (\<lambda>i. live (arData ht' ! i)) [0..<nNumUsed ht']) @ [entry_of (bs ! unat h)]"
    unfolding e1 by (auto simp: bs(3))
  also have "\<dots> = entries ht @ [(IKey h, v)]"
    using bs(5-7) by (simp add: old entry_of_def key_of_def)
  finally have ent: "entries F = entries ht @ [(IKey h, v)]" .
  have pk: "packed_ok F"
    using b(4) bs(3,4,6,7) by (auto simp: packed_ok_def F less_Suc_eq not_less) (metis bs(3,4) not_le)+
  have small: "nTableSize ht' \<le> 2 ^ 30" using b pow2_size_bounds(2) by (auto simp: base_ok_def)
  have keys: "\<exists>i < nNumUsed ht'. k = IKey (of_nat i)" if "k \<in> fst ` set (entries ht)" for k
  proof -
    from that obtain i where "i < nNumUsed ht'" "live (arData ht' ! i)" "k = key_of (arData ht' ! i)"
      by (auto simp: old entry_of_def)
    then show ?thesis using b(4) by (auto simp: packed_ok_def key_of_def)
  qed
  have new: "IKey h \<notin> fst ` set (entries ht)"
  proof
    assume "IKey h \<in> fst ` set (entries ht)"
    from keys [OF this] obtain i where i: "i < nNumUsed ht'" "h = of_nat i" by auto
    then have "unat h = i" using small h sint_of_nat(2) [of i] by simp
    with i h show False by simp
  qed
  have base: "base_ok F"
  proof -
    have "key_ok (bs ! i)" if "i < Suc (unat h)" "live (bs ! i)" for i
      using pk that by (auto simp: packed_ok_def F key_ok_def)
    moreover have "distinct (map fst (entries F))" using b(1) new by (simp add: ent base_ok_def same)
    ultimately show ?thesis using b(1) h bs(2) len by (simp add: base_ok_def F ent same)
  qed
  have nf: "next_free_ok F"
    unfolding next_free_ok_def
  proof (intro allI impI disjI1)
    fix h' v' assume "(IKey h', v') \<in> set (entries F)"
    then have "h' = h \<or> IKey h' \<in> fst ` set (entries ht)" by (force simp: ent)
    then obtain i where i: "i \<le> unat h" "h' = of_nat i"
    proof
      assume "h' = h"
      then show thesis by (intro that [of "unat h"]) simp_all
    next
      assume "IKey h' \<in> fst ` set (entries ht)"
      from keys [OF this] obtain i where "i < nNumUsed ht'" "h' = of_nat i" by auto
      then show thesis using h(1) by (intro that [of i]) simp_all
    qed
    have "unat h < 2 ^ 30" using small h by simp
    then show "sint h' < sint (nNextFreeElement F)"
      using i sint_of_nat(1) [of i] sint_of_nat(1) [of "Suc (unat h)"] by (simp add: F del: of_nat_Suc)
  qed
  have inv: "ht_inv F" using base nf pk by (simp add: ht_inv_def F)
  have "locate F (IKey h) = Some (unat h)"
    by (rule locate_unique [OF base]) (use bl lv bs(6,7) in \<open>simp_all add: F key_of_def\<close>)
  moreover have "key_refs F = {}" "static_ok F"
    using pk key_refs_mem [OF ht_inv_used [OF inv]] static_ok_mem [OF ht_inv_used [OF inv]]
    by (auto simp: packed_ok_def)
  ultimately show "stored e ht (IKey h) 0 v [] (add_to_packed h v flag (e, ht'))"
    using inv ent new bs(5) unfolding bs(1) F_def [symmetric]
    by (simp add: stored_def assoc_put_def F) (use same(4) in \<open>simp add: F_def same grows_def\<close>)
  show "nNextFreeElement (snd (snd (add_to_packed h v flag (e, ht')))) = h + 1"
    "ht_packed (snd (snd (add_to_packed h v flag (e, ht'))))"
    unfolding bs(1) F_def [symmetric] by (simp_all add: F)
qed

subsection \<open>Growing and creating packed tables\<close>

lemma packed_grow_ok:
  assumes b: "base_ok ht" "ht_initialized ht" "packed_ok ht" and sz: "nTableSize ht < 2 ^ 30"
  shows "\<exists>ht'. zend_hash_packed_grow e ht = Inr ht' \<and> base_ok ht' \<and> packed_ok ht' \<and>
    ht_initialized ht' \<and> ht_packed ht' = ht_packed ht \<and> entries ht' = entries ht \<and>
    nNumUsed ht' = nNumUsed ht \<and> nTableSize ht' = 2 * nTableSize ht \<and>
    pDestructor ht' = pDestructor ht \<and> ht_addr ht' = ht_addr ht \<and>
    nNextFreeElement ht' = nNextFreeElement ht"
proof -
  define F where "F = ht\<lparr>nTableSize := nTableSize ht + nTableSize ht,
    arData := realloc_buckets e (arData ht) (nNumUsed ht) (nTableSize ht + nTableSize ht)\<rparr>"
  note n = base_ok_lengths(1) [OF b(1,2)]
  have p2: "pow2_size (nTableSize ht)" "nNumUsed ht \<le> nTableSize ht" "length (arData ht) = nTableSize ht"
    using b by (simp_all add: base_ok_def)
  have take: "take (nNumUsed ht) (arData F) = take (nNumUsed ht) (arData ht)"
    using n by (simp add: F_def realloc_buckets_def)
  have nth: "arData F ! i = arData ht ! i" if "i < nNumUsed ht" for i
    using n that by (simp add: F_def realloc_buckets_def nth_append)
  have "content F = content ht" using take by (simp add: content_def content_upto_def F_def)
  moreover have "base_ok F"
    by (rule base_ok_content [OF b(1) \<open>content F = content ht\<close>])
      (use p2 n b(2) pow2_size_double [OF p2(1) sz] in \<open>simp_all add: F_def realloc_buckets_def\<close>)
  moreover have "packed_ok F" using b(3) nth by (auto simp: packed_ok_def F_def)
  moreover have "zend_hash_packed_grow e ht = Inr F"
    using sz by (simp add: zend_hash_packed_grow_def HT_MAX_SIZE_def F_def Let_def)
  ultimately show ?thesis
    using b(2) by (intro exI [of _ F]) (simp add: entries_content, simp add: F_def)
qed

lemma real_init_packed_ok:
  fixes e :: "'v env"
  assumes b: "base_ok ht" and u: "uninit_ok ht"
  defines "F \<equiv> zend_hash_real_init_packed_ex e ht"
  shows "base_ok F" "packed_ok F" "ht_initialized F" "ht_packed F" "entries F = entries ht"
    "nNumUsed F = 0" "nTableSize F = nTableSize ht" "pDestructor F = pDestructor ht"
    "ht_addr F = ht_addr ht" "nNextFreeElement F = nNextFreeElement ht" "nNumOfElements F = nNumOfElements ht"
proof -
  have "HT_HASH_SIZE HT_MIN_MASK = 2" by (simp add: HT_HASH_SIZE_def HT_MIN_MASK_def)
  then have F: "F = ht\<lparr>ht_hash := uninitialized_bucket, arData := alloc_buckets e (nTableSize ht),
      ht_initialized := True, ht_packed := True\<rparr>"
    using u by (simp add: F_def zend_hash_real_init_packed_ex_def HT_HASH_RESET_PACKED_def
        HT_HASH_set_def HT_HASH_pos_def uninit_ok_def HT_MIN_MASK_def alloc_hash_def
        uninitialized_bucket_def Let_def eval_nat_numeral)
  have "entries ht = []" "entries F = []"
    using u by (simp_all add: entries_def entries_upto_def uninit_ok_def F)
  then show "base_ok F" "packed_ok F" "ht_initialized F" "ht_packed F" "entries F = entries ht"
    "nNumUsed F = 0" "nTableSize F = nTableSize ht" "pDestructor F = pDestructor ht"
    "ht_addr F = ht_addr ht" "nNextFreeElement F = nNextFreeElement ht" "nNumOfElements F = nNumOfElements ht"
    using b u by (simp_all add: base_ok_def packed_ok_def uninit_ok_def) (simp_all add: F)
qed

subsection \<open>The index insertion\<close>

definition next_after :: "u64 \<Rightarrow> 'v HashTable \<Rightarrow> 'v HashTable \<Rightarrow> bool" where
  "next_after h ht ht' = (nNextFreeElement ht' =
     (if ht_packed ht' then h + 1
      else if sint h \<ge> sint (nNextFreeElement ht) then (if h < LONG_MAX then h + 1 else LONG_MAX)
      else nNextFreeElement ht))"

lemma add_to_mixed_next:
  assumes "has_room ht'" "keeps ht ht'" "same_env e e'" "grows ht ht'"
    "ht_static_keys ht' = ht_static_keys ht" "ht_inv ht" "locate ht (IKey h) = None"
    "v \<noteq> IS_UNDEF"
  shows "stored e ht (IKey h) 0 v [] (add_to_mixed h v (e', ht')) \<and>
    next_after h ht (snd (snd (add_to_mixed h v (e', ht'))))"
proof -
  have "\<not> ht_packed (snd (snd (add_to_mixed h v (e', ht'))))"
    using assms(1) add_to_mixed_appended [OF assms(1), of h v e'] by (simp add: has_room_def)
  then show ?thesis
    using add_to_mixed_stored [OF assms] by (simp add: next_after_def) (simp add: bump_next_free_def)
qed

lemma add_to_packed_next:
  assumes "base_ok ht'" "ht_initialized ht'" "ht_packed ht'" "packed_ok ht'"
    "entries ht' = entries ht" "pDestructor ht' = pDestructor ht" "ht_addr ht' = ht_addr ht"
    "grows ht ht'" "nNumUsed ht' \<le> unat h" "unat h < nTableSize ht'" "gap_ok flag ht' (unat h)" "v \<noteq> IS_UNDEF"
  shows "stored e ht (IKey h) 0 v [] (add_to_packed h v flag (e, ht')) \<and>
    next_after h ht (snd (snd (add_to_packed h v flag (e, ht'))))"
  using add_to_packed_stored [OF assms] by (simp add: next_after_def)

lemma add_after_convert:
  assumes b: "base_ok ht" "ht_initialized ht" and inv: "ht_inv ht" and new: "locate ht (IKey h) = None"
    and v: "v \<noteq> IS_UNDEF" and sz: "pow2_size sz" "nNumUsed ht \<le> sz" "nNumOfElements ht < sz"
    and g: "sz = nTableSize ht \<or> sz = 2 * nTableSize ht \<and> ht_packed ht"
  shows "\<exists>r. rbind (zend_hash_packed_to_hash e (ht\<lparr>nTableSize := sz\<rparr>)) (\<lambda>s. Inr (add_to_mixed h v s)) = Inr r \<and>
    stored e ht (IKey h) 0 v [] r \<and> next_after h ht (snd (snd r))"
proof -
  from realloc_mixed_rehash [OF b sz(1,2), of e False] obtain e' ht' where
    r: "zend_hash_rehash e (realloc_mixed e sz (ht\<lparr>nTableSize := sz, ht_packed := False\<rparr>)) = Inr (e', ht')"
      "same_env e e'" "ready_mixed ht'" "keeps ht ht'" "nNumUsed ht' = nNumOfElements ht"
      "nTableSize ht' = sz" "\<not> ht_packed ht'" "ht_static_keys ht' = ht_static_keys ht" by blast
  have "zend_hash_packed_to_hash e (ht\<lparr>nTableSize := sz\<rparr>) = Inr (e', ht')"
    using r(1) by (simp add: zend_hash_packed_to_hash_def Let_def)
  moreover have "has_room ht'" using r sz by (simp add: has_room_def)
  moreover have "grows ht ht'" using r(6,7) g by (auto simp: grows_def)
  ultimately show ?thesis using add_to_mixed_next [OF _ r(4,2) _ r(8) inv new v] by simp
qed

lemma index_add_packed:
  assumes inv: "ht_inv ht" and pk: "ht_initialized ht" "ht_packed ht" "packed_ok ht" "base_ok ht"
    and sz: "nTableSize ht < 2 ^ 30" and v: "v \<noteq> IS_UNDEF" and new: "locate ht (IKey h) = None"
    and gap: "flag AND (HASH_ADD_NEW OR HASH_ADD_NEXT) = HASH_ADD_NEW OR HASH_ADD_NEXT \<longrightarrow>
      unat h \<le> nNumUsed ht"
  shows "\<exists>r. zend_hash_index_add_or_update_i e ht h v flag = Inr r \<and>
    stored e ht (IKey h) 0 v [] r \<and> next_after h ht (snd (snd r))"
proof -
  have p2: "pow2_size (nTableSize ht)" "nNumUsed ht \<le> nTableSize ht" using pk(4) by (simp_all add: base_ok_def)
  have le: "nNumOfElements ht \<le> nNumUsed ht" using pk(4,1) by (rule elements_le_used)
  have new': "unat h < nNumUsed ht \<longrightarrow> \<not> live (arData ht ! unat h)"
    using new packed_locate [OF pk(4,3,1), of h] by (auto split: if_splits)
  show ?thesis
  proof (cases "unat h < nNumUsed ht")
    case True
    have "length (content_upto ht (nNumUsed ht)) < nNumUsed ht"
      using new' True base_ok_lengths(1) [OF pk(4,1)] by (intro length_content_less) simp_all
    then have "nNumOfElements ht < nTableSize ht"
      using pk(4) p2(2) by (simp add: base_ok_alt [OF base_ok_lengths(1) [OF pk(4,1)]] content_def)
    from add_after_convert [OF pk(4,1) inv new v p2 this, of e] True new' pk(2) show ?thesis
      by (simp add: zend_hash_index_add_or_update_i_def)
  next
    case above: False
    show ?thesis
    proof (cases "unat h < nTableSize ht")
      case True
      have "gap_ok flag ht (unat h)" using gap by (auto simp: gap_ok_def)
      then show ?thesis
        using add_to_packed_next [OF pk(4,1,2,3) refl refl refl _ _ True _ v, of flag e] above pk(2) True
        by (simp add: zend_hash_index_add_or_update_i_def grows_def)
    next
      case far: False
      show ?thesis
      proof (cases "unat (drop_bit 1 h) < nTableSize ht \<and> nTableSize ht div 2 < nNumOfElements ht")
        case True
        from packed_grow_ok [OF pk(4,1,3) sz, of e] obtain ht' where
          g: "zend_hash_packed_grow e ht = Inr ht'" "base_ok ht'" "packed_ok ht'" "ht_initialized ht'"
            "ht_packed ht'" "entries ht' = entries ht" "nNumUsed ht' = nNumUsed ht"
            "nTableSize ht' = 2 * nTableSize ht" "pDestructor ht' = pDestructor ht" "ht_addr ht' = ht_addr ht"
          using pk(2) by auto
        have "unat h < nTableSize ht'"
          using True g(8) by (auto simp: drop_bit_eq_div unat_div)
        moreover have "gap_ok flag ht' (unat h)" using gap g(7) by (auto simp: gap_ok_def)
        moreover have "grows ht ht'" using True g(5,8) pk(2) by (auto simp: grows_def)
        ultimately show ?thesis
          using add_to_packed_next [OF g(2,4,5,3,6,9,10) _ _ _ _ v, of h flag e] above far pk(2) True g(1,7)
          by (simp add: zend_hash_index_add_or_update_i_def)
      next
        case False
        define sz' where "sz' = (if nNumUsed ht \<ge> nTableSize ht then nTableSize ht + nTableSize ht
          else nTableSize ht)"
        have "pow2_size sz'" using p2(1) pow2_size_double [OF p2(1) sz] by (simp add: sz'_def)
        moreover have "nNumUsed ht \<le> sz'" "nNumOfElements ht < sz'"
          using p2 le pow2_size_bounds(1) [OF p2(1)] by (auto simp: sz'_def)
        ultimately have "\<exists>r. rbind (zend_hash_packed_to_hash e (ht\<lparr>nTableSize := sz'\<rparr>))
            (\<lambda>s. Inr (add_to_mixed h v s)) = Inr r \<and> stored e ht (IKey h) 0 v [] r \<and> next_after h ht (snd (snd r))"
          using pk(2) by (intro add_after_convert [OF pk(4,1) inv new v]) (auto simp: sz'_def)
        moreover have "(if nNumUsed ht \<ge> nTableSize ht
            then ht\<lparr>nTableSize := (nTableSize ht + nTableSize ht) mod 2 ^ 32\<rparr> else ht) =
            ht\<lparr>nTableSize := sz'\<rparr>"
          using sz by (simp add: sz'_def)
        ultimately show ?thesis
          using above far False pk(2)
          by (simp only: zend_hash_index_add_or_update_i_def if_True if_False Let_def)
      qed
    qed
  qed
qed

lemma index_add_new:
  assumes inv: "ht_inv ht" and sz: "nTableSize ht < 2 ^ 30" and v: "v \<noteq> IS_UNDEF"
    and new: "locate ht (IKey h) = None"
    and gap: "flag AND (HASH_ADD_NEW OR HASH_ADD_NEXT) = HASH_ADD_NEW OR HASH_ADD_NEXT \<longrightarrow>
      unat h \<le> nNumUsed ht \<or> ht_initialized ht \<and> \<not> ht_packed ht"
  shows "\<exists>r. zend_hash_index_add_or_update_i e ht h v flag = Inr r \<and>
    stored e ht (IKey h) 0 v [] r \<and> next_after h ht (snd (snd r))"
  using inv
proof (cases rule: ht_inv_cases)
  case uninit
  note ri = real_init_packed_ok [OF uninit(3,2), of e]
  note rm = real_init_mixed_ok(1,2) [OF uninit(3,2), of e]
  have np: "\<not> ht_packed ht" "nNumUsed ht = 0" using uninit(2) by (simp_all add: uninit_ok_def)
  have "gap_ok flag (zend_hash_real_init_packed_ex e ht) (unat h)"
    using gap np uninit(1) by (auto simp: gap_ok_def)
  moreover have "grows ht (zend_hash_real_init_packed_ex e ht)" "grows ht (zend_hash_real_init_mixed e ht)"
    "ht_static_keys (zend_hash_real_init_mixed e ht) = ht_static_keys ht"
    using ri(4,7) uninit rm(1) by (auto simp: grows_def real_init_mixed_eq has_room_def)
  ultimately show ?thesis
    using add_to_packed_next [OF ri(1,3,4,2,5,8,9) _ _ _ _ v, of h flag e]
      add_to_mixed_next [OF rm same_env_refl _ _ inv new v] np uninit(1) ri(6,7)
    by (simp add: zend_hash_index_add_or_update_i_def del: split_paired_Ex)
next
  case packed
  then show ?thesis using gap by (intro index_add_packed [OF inv packed sz v new]) auto
next
  case mixed
  have init: "ht_initialized ht" using mixed(2) by (simp add: ready_mixed_def)
  from if_full_ok [OF mixed(2,1) sz, of e] obtain e' ht' where
    h: "ZEND_HASH_IF_FULL_DO_RESIZE e ht = Inr (e', ht')" "same_env e e'" "has_room ht'"
      "keeps ht ht'" "grows ht ht'" "ht_static_keys ht' = ht_static_keys ht" by blast
  show ?thesis
    using add_to_mixed_next [OF h(3,4,2,5,6) inv new v] h(1) mixed(1) init
      index_find_bucket_ok [OF inv mixed(1), of h] new
    by (simp add: zend_hash_index_add_or_update_i_def del: split_paired_Ex)
qed

lemma index_add_old:
  assumes inv: "ht_inv ht" and old: "locate ht (IKey h) = Some i"
    and fl: "ht_packed ht \<or> flag AND HASH_ADD_NEW = 0"
  shows "zend_hash_index_add_or_update_i e ht h v flag = Inr (replace e ht i v flag)"
  using inv
proof (cases rule: ht_inv_cases)
  case uninit
  then show ?thesis using old by (simp add: locate_def uninit_ok_def)
next
  case packed
  then show ?thesis
    using old packed_locate [OF packed(4,3,1), of h]
    by (auto simp: zend_hash_index_add_or_update_i_def split: if_splits)
next
  case mixed
  then show ?thesis
    using index_find_bucket_ok [OF inv mixed(1), of h] old fl
    by (simp add: zend_hash_index_add_or_update_i_def ready_mixed_def)
qed

lemma replace_simps:
  "replace e ht i v HASH_UPDATE = overwrite e ht (AtBucket i) v"
  "replace e ht i v HASH_ADD = (None, e, ht)" "replace e ht i v (HASH_ADD OR HASH_ADD_NEXT) = (None, e, ht)"
  by (simp_all add: replace_def)

lemma plain_flags [simp]:
  "f = HASH_UPDATE \<or> f = HASH_ADD \<or> f = HASH_ADD OR HASH_ADD_NEXT \<or> f = HASH_ADD OR HASH_ADD_NEW \<Longrightarrow>
   f AND (HASH_ADD_NEW OR HASH_ADD_NEXT) \<noteq> HASH_ADD_NEW OR HASH_ADD_NEXT"
  by (auto simp: hash_flags)

lemma index_update_ok:
  assumes inv: "ht_inv ht" and sz: "nTableSize ht < 2 ^ 30" and v: "v \<noteq> IS_UNDEF"
  shows "\<exists>r. zend_hash_index_update e ht h v = Inr r \<and>
    stored e ht (IKey h) 0 v (update_log ht (IKey h) []) r"
proof (cases "locate ht (IKey h)")
  case None
  then show ?thesis
    using index_add_new [OF assms None, of HASH_UPDATE e]
    by (auto simp: zend_hash_index_update_def update_log_def map_of_locate [OF inv])
next
  case (Some i)
  then show ?thesis
    using index_add_old [OF inv Some, of HASH_UPDATE] stored_overwrite [OF inv Some v]
    by (simp add: zend_hash_index_update_def replace_simps update_log_def map_of_locate [OF inv])
qed

lemma index_add_ok:
  assumes inv: "ht_inv ht" and sz: "nTableSize ht < 2 ^ 30" and v: "v \<noteq> IS_UNDEF"
  shows "if IKey h \<in> fst ` set (entries ht) then zend_hash_index_add e ht h v = Inr (None, e, ht)
    else \<exists>r. zend_hash_index_add e ht h v = Inr r \<and> stored e ht (IKey h) 0 v [] r"
proof (cases "locate ht (IKey h)")
  case None
  then show ?thesis
    using index_add_new [OF assms None, of HASH_ADD e]
    by (auto simp: zend_hash_index_add_def key_in_keys [OF inv])
next
  case (Some i)
  then show ?thesis
    using index_add_old [OF inv Some, of HASH_ADD]
    by (simp add: zend_hash_index_add_def replace_simps key_in_keys [OF inv])
qed

text \<open>
  The next free key is taken only when the greatest integer key already is; then the
  insertion fails and changes nothing.
\<close>

lemma next_key_taken:
  assumes "ht_inv ht" "IKey (nNextFreeElement ht) \<in> fst ` set (entries ht)"
  shows "nNextFreeElement ht = LONG_MAX"
proof -
  obtain v where "(IKey (nNextFreeElement ht), v) \<in> set (entries ht)" using assms(2) by force
  then have "sint (nNextFreeElement ht) = sint LONG_MAX"
    using assms(1) unfolding sint_LONG_MAX by (auto simp: ht_inv_def next_free_ok_def)
  then show ?thesis by (rule sint_inj)
qed

lemma packed_key_small:
  assumes "stored e ht (IKey h) 0 v lg r" "ht_packed (snd (snd r))"
  shows "h < LONG_MAX"
proof -
  obtain z e' ht' where r: "r = (z, e', ht')" by (cases r) auto
  with assms obtain i where i: "locate ht' (IKey h) = Some i" "ht_inv ht'" "ht_packed ht'"
    by (auto simp: stored_def)
  from i(2,3) have "base_ok ht'" "packed_ok ht'" "ht_initialized ht'"
    by (auto simp: ht_inv_def uninit_ok_def split: if_splits)
  with i(1) packed_locate [of ht' h] have "unat h < nTableSize ht'" "nTableSize ht' \<le> 2 ^ 30"
    using pow2_size_bounds(2) by (auto simp: base_ok_def split: if_splits)
  then show ?thesis by (simp add: word_less_nat_alt)
qed

lemma next_index_insert_ok:
  assumes inv: "ht_inv ht" and sz: "nTableSize ht < 2 ^ 30" and v: "v \<noteq> IS_UNDEF"
  defines "h \<equiv> nNextFreeElement ht"
  shows "if IKey h \<in> fst ` set (entries ht)
    then h = LONG_MAX \<and> zend_hash_next_index_insert e ht v = Inr (None, e, ht)
    else \<exists>r. zend_hash_next_index_insert e ht v = Inr r \<and> stored e ht (IKey h) 0 v [] r \<and>
      nNextFreeElement (snd (snd r)) = (if h < LONG_MAX then h + 1 else LONG_MAX)"
proof (cases "locate ht (IKey h)")
  case None
  from index_add_new [OF assms(1-3) None, of "HASH_ADD OR HASH_ADD_NEXT" e] obtain r where
    r: "zend_hash_next_index_insert e ht v = Inr r" "stored e ht (IKey h) 0 v [] r"
      "next_after h ht (snd (snd r))" by (auto simp: zend_hash_next_index_insert_def h_def)
  have "nNextFreeElement (snd (snd r)) = (if h < LONG_MAX then h + 1 else LONG_MAX)"
    using r(3) packed_key_small [OF r(2)] by (auto simp: next_after_def h_def)
  with r(1,2) None show ?thesis by (auto simp: key_in_keys [OF inv])
next
  case (Some i)
  then have "IKey h \<in> fst ` set (entries ht)" by (simp add: key_in_keys [OF inv])
  then show ?thesis
    using index_add_old [OF inv Some, of "HASH_ADD OR HASH_ADD_NEXT"] next_key_taken [OF inv]
    by (simp add: zend_hash_next_index_insert_def replace_simps h_def)
qed

end
