(* ===== verification/Zend_Hash_Init_Correct.thy ===== *)
theory Zend_Hash_Init_Correct
  imports Zend_Hash_Index_Correct
begin

section \<open>The size computation and new tables\<close>

text \<open>
  \<open>zend_hash_check_size\<close> rounds a requested size up to a power of two by smearing the
  highest bit to the right; a new table is empty and well formed.
\<close>

definition smeared :: "u32 \<Rightarrow> nat \<Rightarrow> u32 \<Rightarrow> bool" where
  "smeared x m y = (\<forall>i < 32. bit y i \<longleftrightarrow> (\<exists>j < m. bit x (i + j)))"

lemma smear_init: "smeared x 1 x"
  by (simp add: smeared_def)

lemma smear_step:
  assumes "smeared x m y" "0 < m"
  shows "smeared x (m + m) (y OR drop_bit m y)"
  unfolding smeared_def
proof (intro allI impI)
  fix i :: nat assume i: "i < 32"
  have out: "\<not> bit (z :: u32) k" if "32 \<le> k" for z k
    using that bit_imp_le_length [of z k] by auto
  have split: "(\<exists>j < m + m. bit x (i + j)) \<longleftrightarrow>
      (\<exists>j < m. bit x (i + j)) \<or> (\<exists>j < m. bit x (i + m + j))"
  proof
    assume "\<exists>j < m + m. bit x (i + j)"
    then obtain j where j: "j < m + m" "bit x (i + j)" by blast
    show "(\<exists>j < m. bit x (i + j)) \<or> (\<exists>j < m. bit x (i + m + j))"
    proof (cases "j < m")
      case False
      with j have "j - m < m" "i + m + (j - m) = i + j" by auto
      with j(2) show ?thesis by (metis)
    qed (use j in blast)
  next
    assume "(\<exists>j < m. bit x (i + j)) \<or> (\<exists>j < m. bit x (i + m + j))"
    then show "\<exists>j < m + m. bit x (i + j)"
      by (metis add.assoc add_less_cancel_left trans_less_add1)
  qed
  have "bit y (i + m) \<longleftrightarrow> (\<exists>j < m. bit x (i + m + j))"
  proof (cases "i + m < 32")
    case True
    then show ?thesis using assms(1) unfolding smeared_def by blast
  next
    case False
    then show ?thesis using out by auto
  qed
  moreover have "bit y i \<longleftrightarrow> (\<exists>j < m. bit x (i + j))"
    using assms(1) i unfolding smeared_def by blast
  ultimately show "bit (y OR drop_bit m y) i \<longleftrightarrow> (\<exists>j < m + m. bit x (i + j))"
    unfolding split by (simp add: bit_or_iff bit_drop_bit_eq add.commute)
qed

lemma smear_double:
  assumes "smeared x m y" "0 < m" "m' = m + m" "z = y OR drop_bit m y"
  shows "smeared x m' z"
  using smear_step [OF assms(1,2)] assms(3,4) by simp

lemma smear_mask:
  assumes s: "smeared x 32 y" and k: "k < 32" "2 ^ k \<le> unat x" "unat x < 2 ^ Suc k"
  shows "y = mask (Suc k)"
proof (rule bit_word_eqI)
  fix i :: nat assume i: "i < LENGTH(32)"
  have hi: "\<not> bit x j" if "Suc k \<le> j" for j
  proof -
    have "unat x < 2 ^ j" using k(3) that by (meson less_le_trans one_le_numeral power_increasing)
    then have "unat x div 2 ^ j = 0" by simp
    then have "\<not> bit (unat x) j" by (simp add: bit_iff_odd)
    then show ?thesis by (simp add: bit_unsigned_iff)
  qed
  have "bit x k"
  proof -
    have "unat x div 2 ^ k = 1" using k(2,3) by (intro div_nat_eqI) simp_all
    then have "bit (unat x) k" by (simp add: bit_iff_odd)
    then show ?thesis by (simp add: bit_unsigned_iff)
  qed
  have "(\<exists>j < 32. bit x (i + j)) \<longleftrightarrow> i < Suc k"
  proof
    assume "\<exists>j < 32. bit x (i + j)"
    then show "i < Suc k" using hi by (meson not_le trans_le_add1)
  next
    assume "i < Suc k"
    then have "k - i < 32 \<and> bit x (i + (k - i))" using \<open>bit x k\<close> k(1) by simp
    then show "\<exists>j < 32. bit x (i + j)" by blast
  qed
  then show "bit y i \<longleftrightarrow> bit (mask (Suc k) :: u32) i"
    using s i by (simp add: smeared_def bit_mask_iff)
qed

text \<open>The result is the least power of two that is at least the requested size and eight.\<close>

lemma check_size_pow2:
  assumes k: "3 \<le> k" "k < 31" "2 ^ k < n" "n \<le> 2 ^ Suc k"
  shows "zend_hash_check_size n = (if n \<ge> HT_MAX_SIZE then Inl E_ERROR else Inr (2 ^ Suc k))"
proof -
  define x where "x = (of_nat n :: u32) - 1"
  have "2 ^ 3 \<le> (2 :: nat) ^ k" using k(1) by (intro power_increasing) simp_all
  then have n8: "\<not> n \<le> HT_MIN_SIZE" using k(3) by (simp add: HT_MIN_SIZE_def)
  show ?thesis
  proof (cases "n \<ge> HT_MAX_SIZE")
    case True
    with n8 show ?thesis by (simp add: zend_hash_check_size_def)
  next
    case False
    have n1: "0 < n" using k(3) by (cases n) simp_all
    then have "x = of_nat (n - 1)" by (simp add: x_def of_nat_diff)
    moreover have "n - 1 < 2 ^ 32" using False by (simp add: HT_MAX_SIZE_def)
    ultimately have ux: "unat x = n - 1" by (simp add: unsigned_of_nat take_bit_nat_eq_self)
    have ks: "2 ^ k \<le> unat x" "unat x < 2 ^ Suc k" using k(3,4) n1 unfolding ux by linarith+
    define y1 where "y1 = x OR drop_bit 1 x"
    define y2 where "y2 = y1 OR drop_bit 2 y1"
    define y4 where "y4 = y2 OR drop_bit 4 y2"
    define y8 where "y8 = y4 OR drop_bit 8 y4"
    define y16 where "y16 = y8 OR drop_bit 16 y8"
    have "smeared x 2 y1" by (rule smear_double [OF smear_init _ _ y1_def]) simp_all
    then have "smeared x 4 y2" by (rule smear_double [OF _ _ _ y2_def]) simp_all
    then have "smeared x 8 y4" by (rule smear_double [OF _ _ _ y4_def]) simp_all
    then have "smeared x 16 y8" by (rule smear_double [OF _ _ _ y8_def]) simp_all
    then have "smeared x 32 y16" by (rule smear_double [OF _ _ _ y16_def]) simp_all
    then have "y16 = mask (Suc k)" by (rule smear_mask) (use k(2) ks in auto)
    then have "y16 + 1 = 2 ^ Suc k" by (simp add: mask_eq_decr_exp del: power_Suc)
    moreover have "unat (2 ^ Suc k :: u32) = 2 ^ Suc k" using k(2) by (intro unat_2p) simp
    moreover have "zend_hash_check_size n = Inr (unat (y16 + 1))"
      using n8 False by (simp add: zend_hash_check_size_def Let_def x_def y1_def y2_def y4_def
          y8_def y16_def)
    ultimately show ?thesis using False by simp
  qed
qed

lemma check_size_ok:
  assumes "n \<le> 2 ^ 30"
  obtains p where "zend_hash_check_size n = Inr p" "pow2_size p" "n \<le> p" "p = 8 \<or> p < 2 * n"
proof (cases "n \<le> 8")
  case True
  then show thesis
    by (intro that [of 8]) (auto simp: zend_hash_check_size_def HT_MIN_SIZE_def pow2_size_def
        intro: exI [of _ 3])
next
  case False
  then obtain k where k: "2 ^ k < n" "n \<le> 2 ^ Suc k"
    using ex_power_ivl2 [of 2 n] by auto
  have "\<not> Suc k \<le> 3"
  proof
    assume "Suc k \<le> 3"
    then have "(2 :: nat) ^ Suc k \<le> 2 ^ 3" by (intro power_increasing) simp_all
    with k(2) False show False by simp
  qed
  moreover have "k < 30"
  proof (rule ccontr)
    assume "\<not> k < 30"
    then have "(2 :: nat) ^ 30 \<le> 2 ^ k" by (intro power_increasing) simp_all
    with k(1) assms show False by simp
  qed
  ultimately show thesis
    using check_size_pow2 [of k n] k assms
    by (intro that [of "2 ^ Suc k"])
      (auto simp: HT_MAX_SIZE_def pow2_size_def simp del: power_Suc intro!: exI [of _ "Suc k"], simp)
qed

text \<open>A request above the largest size the mask can stand for.\<close>

lemma check_size_huge:
  assumes "2 ^ 30 < n"
  shows "zend_hash_check_size n = (if n \<ge> 2 ^ 31 then Inl E_ERROR else Inr (2 ^ 31))"
proof (cases "n \<ge> 2 ^ 31")
  case True
  then show ?thesis by (simp add: zend_hash_check_size_def HT_MIN_SIZE_def HT_MAX_SIZE_def)
next
  case False
  then show ?thesis using check_size_pow2 [of 30 n] assms by (simp add: HT_MAX_SIZE_def)
qed

text \<open>That size is one too large: its mask is 0, so the hash part of the table would have no slot.\<close>

lemma max_size_mask: "HT_SIZE_TO_MASK HT_MAX_SIZE = 0"
  by (simp add: HT_SIZE_TO_MASK_def HT_MAX_SIZE_def)

lemma hash_init_ok:
  assumes "n \<le> 2 ^ 30"
  obtains ht where "zend_hash_init addr n d = Inr ht" "ht_inv ht" "entries ht = []" "n \<le> nTableSize ht"
    "nTableSize ht = 8 \<or> nTableSize ht < 2 * n"
    "\<not> ht_initialized ht" "nNextFreeElement ht = 0" "pDestructor ht = d" "ht_addr ht = addr"
    "nIteratorsCount ht = 0" "nInternalPointer ht = 0"
proof -
  from check_size_ok [OF assms] obtain p where
    p: "zend_hash_check_size n = Inr p" "pow2_size p" "n \<le> p" "p = 8 \<or> p < 2 * n" by blast
  have "zend_hash_init addr n d = Inr \<lparr>ht_addr = addr, ht_packed = False, ht_initialized = False,
      ht_static_keys = True, ht_has_empty_ind = False, nIteratorsCount = 0, nTableMask = HT_MIN_MASK,
      ht_hash = uninitialized_bucket, arData = [], nNumUsed = 0, nNumOfElements = 0, nTableSize = p,
      nInternalPointer = 0, nNextFreeElement = 0, pDestructor = d\<rparr>"
    using p(1) by (simp add: zend_hash_init_def zend_hash_init_int_def)
  then show thesis
    by (rule that)
      (use p in \<open>simp_all add: ht_inv_def base_ok_def
        next_free_ok_def uninit_ok_def entries_def entries_upto_def\<close>)
qed

end
