(* ===== verification/Zend_Hash_Properties.thy ===== *)
theory Zend_Hash_Properties
  imports Zend_Hash_Init_Correct
begin

section \<open>The properties of the hash table\<close>

text \<open>
  The properties of the hash table operations, each with a witness on concrete tables.  The
  sample tables are built by the modelled code itself.
\<close>

subsection \<open>Sample tables\<close>

definition demo_env :: "int env" where
  "demo_env = \<lparr>e_slots = (\<lambda>_. IS_UNDEF), e_iters = [], e_iters_used = 0, e_log = [], e_fresh = 100,
     e_junk = (\<lambda>_. \<lparr>b_val = IS_NULL, b_next = 0, b_h = 7, b_key = None\<rparr>), e_junk_hash = (\<lambda>_. 3)\<rparr>"

definition demo_key :: zend_string where
  "demo_key = zend_string_init 1 [97, 98]"

definition demo_new :: "int HashTable" where
  "demo_new = projr (zend_hash_init 5 8 True)"

definition demo_one :: "int HashTable" where
  "demo_one = snd (snd (projr (zend_hash_update demo_env demo_new demo_key (IS_VAL 1))))"

lemma demo_new:
  "ht_inv demo_new" "entries demo_new = []" "nTableSize demo_new = 8" "\<not> ht_initialized demo_new"
  "pDestructor demo_new" "nNumUsed demo_new = 0" "nNextFreeElement demo_new = 0"
proof -
  have c: "zend_hash_check_size 8 = Inr 8" by (simp add: zend_hash_check_size_def HT_MIN_SIZE_def)
  then show "nTableSize demo_new = 8" "\<not> ht_initialized demo_new" "pDestructor demo_new"
    "nNumUsed demo_new = 0" "nNextFreeElement demo_new = 0"
    by (simp_all add: demo_new_def zend_hash_init_def zend_hash_init_int_def)
  obtain ht :: "int HashTable" where ht: "zend_hash_init 5 8 True = Inr ht" "ht_inv ht" "entries ht = []"
    by (rule hash_init_ok [of 8 5 True]) simp_all
  from ht(2,3) show "ht_inv demo_new" "entries demo_new = []"
    by (simp_all add: demo_new_def ht(1))
qed

lemma demo_key: "good_key demo_new demo_key" "zs_val demo_key = [97, 98]"
  by (simp_all add: good_key_def ptr_coherent_def demo_new zs_ok_def demo_key_def zend_string_init_def)

lemma demo_one_stored:
  "\<exists>r. zend_hash_update demo_env demo_new demo_key (IS_VAL 1) = Inr r \<and>
    stored demo_env demo_new (SKey [97, 98]) 1 (IS_VAL 1) [Addref 1] r \<and> demo_one = snd (snd r)"
  using hash_update_ok [OF demo_new(1) _ demo_key(1), of "IS_VAL 1" demo_env] demo_new demo_key
  by (auto simp: demo_one_def update_log_def key_log_def demo_key_def zend_string_init_def)

lemma demo_one_eq:
  "\<exists>b. demo_one = appended ((zend_hash_real_init_mixed demo_env demo_new)\<lparr>ht_static_keys := b\<rparr>)
     (new_bucket (hashed demo_key) (IS_VAL 1))"
proof -
  have u: "base_ok demo_new" "uninit_ok demo_new" using demo_new by (auto simp: ht_inv_def)
  obtain e ht where ar: "addref_key demo_key (demo_env, zend_hash_real_init_mixed demo_env demo_new) = (e, ht)"
    by fastforce
  have ht: "ht = (zend_hash_real_init_mixed demo_env demo_new)\<lparr>ht_static_keys := ht_static_keys ht\<rparr>"
    using keeps_addref(3) [OF ar] by simp
  then have "has_room ht" using real_init_mixed_ok(1) [OF u, of demo_env] by (metis keeps_static(2))
  then have "demo_one = appended ht (new_bucket (hashed demo_key) (IS_VAL 1))"
    using demo_new(4) add_to_hash_appended [of ht "hashed demo_key" "IS_VAL 1" e]
      hashed_key_good [OF demo_key(1)]
    by (simp add: demo_one_def zend_hash_update_def zend_hash_add_or_update_i_def ar new_bucket_def)
  with ht show ?thesis by metis
qed

lemma real_init_mixed_fields [simp]:
  assumes "base_ok ht" "uninit_ok ht"
  shows "nTableSize (zend_hash_real_init_mixed e ht) = nTableSize ht"
    "nNumUsed (zend_hash_real_init_mixed e ht) = nNumUsed ht"
    "length (arData (zend_hash_real_init_mixed e ht)) = nTableSize ht"
  using real_init_mixed_eq [OF assms, of e] by simp_all

lemma demo_one_fields: "nTableSize demo_one = 8" "nNumUsed demo_one = 1" "pDestructor demo_one"
  "b_key (arData demo_one ! 0) = Some (hashed demo_key)"
proof -
  have u: "base_ok demo_new" "uninit_ok demo_new" using demo_new by (auto simp: ht_inv_def)
  obtain b where eq: "demo_one = appended ((zend_hash_real_init_mixed demo_env demo_new)\<lparr>ht_static_keys := b\<rparr>)
     (new_bucket (hashed demo_key) (IS_VAL 1))" using demo_one_eq by blast
  show "nTableSize demo_one = 8" "nNumUsed demo_one = 1" "pDestructor demo_one"
    "b_key (arData demo_one ! 0) = Some (hashed demo_key)"
    unfolding eq using u demo_new real_init_mixed_ok(2) [OF u, of demo_env]
    by (simp_all add: keeps_def) (simp_all add: appended_def new_bucket_def u demo_new)
qed

lemma demo_one:
  "ht_inv demo_one" "entries demo_one = [(SKey [97, 98], IS_VAL 1)]"
  using demo_one_stored by (auto simp: stored_def demo_new assoc_put_def)

lemma demo_good: "good_key demo_one demo_key"
  by (simp add: good_key_def ptr_coherent_def demo_one_fields zs_ok_def demo_key_def
      zend_string_init_def less_Suc_eq)

subsection \<open>Insertion and update\<close>

text \<open>
  C1.  \<open>zend_hash_update\<close> on a well-formed table below the size limit never fails.  It keeps the
  invariant and acts on the entries as an update of an association list: an existing key
  keeps its place and gets the new value, a new key goes to the end.  The returned position
  holds the value, and the effects are exactly one destructor call on the overwritten value
  (if the table has a destructor), or one reference taken on a new key (unless interned).
\<close>

theorem zend_hash_update_correct:
  assumes "ht_inv ht" "nTableSize ht < 2 ^ 30" "good_key ht key" "v \<noteq> IS_UNDEF"
  shows "\<exists>i e' ht'. zend_hash_update e ht key v = Inr (Some (AtBucket i), e', ht') \<and>
    ht_inv ht' \<and> entries ht' = assoc_put (SKey (zs_val key)) v (entries ht) \<and>
    locate ht' (SKey (zs_val key)) = Some i \<and> b_val (arData ht' ! i) = v \<and>
    e_log e' = e_log e @ (case map_of (entries ht) (SKey (zs_val key)) of
        Some old \<Rightarrow> (if pDestructor ht then [Dtor old] else [])
      | None \<Rightarrow> (if zs_interned key then [] else [Addref (zs_ptr key)]))"
  using hash_update_ok [OF assms, of e]
  by (auto simp: stored_def update_log_def dtor_log_def key_log_def cong: option.case_cong)

theorem zend_hash_update_correct_witness:
  "\<exists>i e' ht'. zend_hash_update demo_env demo_one demo_key (IS_VAL 2) = Inr (Some (AtBucket i), e', ht') \<and>
    entries ht' = [(SKey [97, 98], IS_VAL 2)] \<and> e_log e' = [Dtor (IS_VAL 1)]"
  using zend_hash_update_correct [OF demo_one(1) _ demo_good, of "IS_VAL 2" demo_env] demo_one(2)
    demo_one_fields demo_key
  by (auto simp: assoc_put_def demo_env_def)

text \<open>
  C6.  \<open>zend_hash_add\<close> inserts a new key at the end, taking a reference to it; a key that is
  already there makes it return NULL and leave the table, the key references and the value
  untouched.
\<close>

theorem zend_hash_add_correct:
  assumes "ht_inv ht" "nTableSize ht < 2 ^ 30" "good_key ht key" "v \<noteq> IS_UNDEF"
  shows "if SKey (zs_val key) \<in> fst ` set (entries ht) then zend_hash_add e ht key v = Inr (None, e, ht)
    else \<exists>i e' ht'. zend_hash_add e ht key v = Inr (Some (AtBucket i), e', ht') \<and> ht_inv ht' \<and>
      entries ht' = entries ht @ [(SKey (zs_val key), v)] \<and> locate ht' (SKey (zs_val key)) = Some i \<and>
      e_log e' = e_log e @ (if zs_interned key then [] else [Addref (zs_ptr key)])"
  using hash_add_ok [OF assms, of e]
  by (auto simp: stored_def key_log_def assoc_put_def split: if_splits)

theorem zend_hash_add_correct_witness:
  "zend_hash_add demo_env demo_one demo_key (IS_VAL 2) = Inr (None, demo_env, demo_one)"
  using zend_hash_add_correct [OF demo_one(1) _ demo_good, of "IS_VAL 2" demo_env] demo_one(2)
    demo_one_fields demo_key
  by simp

text \<open>
  C2.  \<open>zend_hash_index_update\<close> has the same contract for integer keys whatever the layout of the
  table is: uninitialised, packed (with the gap filled, the table grown, or converted to a
  hash because the key falls into a hole or too far away) or hash.
\<close>

theorem zend_hash_index_update_correct:
  assumes "ht_inv ht" "nTableSize ht < 2 ^ 30" "v \<noteq> IS_UNDEF"
  shows "\<exists>i e' ht'. zend_hash_index_update e ht h v = Inr (Some (AtBucket i), e', ht') \<and>
    ht_inv ht' \<and> entries ht' = assoc_put (IKey h) v (entries ht) \<and>
    locate ht' (IKey h) = Some i \<and> b_val (arData ht' ! i) = v \<and>
    e_log e' = e_log e @ (case map_of (entries ht) (IKey h) of
        Some old \<Rightarrow> (if pDestructor ht then [Dtor old] else []) | None \<Rightarrow> [])"
  using index_update_ok [OF assms, of e h]
  by (auto simp: stored_def update_log_def dtor_log_def cong: option.case_cong)

theorem zend_hash_index_update_correct_witness:
  "\<exists>i e' ht'. zend_hash_index_update demo_env demo_one 5 (IS_VAL 2) = Inr (Some (AtBucket i), e', ht') \<and>
    entries ht' = [(SKey [97, 98], IS_VAL 1), (IKey 5, IS_VAL 2)]"
  using zend_hash_index_update_correct [OF demo_one(1), of "IS_VAL 2" demo_env 5] demo_one(2)
    demo_one_fields
  by (auto simp: assoc_put_def)

text \<open>
  C4.  \<open>zend_hash_next_index_insert\<close> appends under the next free integer key, which no entry
  uses, and advances that key, stopping at the greatest signed integer.  It fails, changing
  nothing, only when the greatest key is already taken.
\<close>

theorem zend_hash_next_index_insert_correct:
  assumes "ht_inv ht" "nTableSize ht < 2 ^ 30" "v \<noteq> IS_UNDEF"
  shows "let h = nNextFreeElement ht in
    if IKey h \<in> fst ` set (entries ht)
    then h = LONG_MAX \<and> zend_hash_next_index_insert e ht v = Inr (None, e, ht)
    else \<exists>i e' ht'. zend_hash_next_index_insert e ht v = Inr (Some (AtBucket i), e', ht') \<and>
      ht_inv ht' \<and> entries ht' = entries ht @ [(IKey h, v)] \<and> e_log e' = e_log e \<and>
      nNextFreeElement ht' = (if h < LONG_MAX then h + 1 else LONG_MAX)"
  using next_index_insert_ok [OF assms, of e]
  by (auto simp: stored_def assoc_put_def Let_def split: if_splits)

theorem zend_hash_next_index_insert_correct_witness:
  "\<exists>i e' ht'. zend_hash_next_index_insert demo_env demo_new (IS_VAL 2) = Inr (Some (AtBucket i), e', ht') \<and>
    entries ht' = [(IKey 0, IS_VAL 2)] \<and> nNextFreeElement ht' = 1"
  using zend_hash_next_index_insert_correct [OF demo_new(1), of "IS_VAL 2" demo_env] demo_new
  by (auto simp: Let_def word_less_nat_alt)

subsection \<open>Lookup\<close>

text \<open>
  C3.  \<open>zend_hash_find_bucket\<close> terminates and finds exactly the bucket whose key has the same
  bytes, with either variant of the hash (known or computed on demand): the value there is
  what the entries of the table map the key to.  The key comes back with its hash cached.
\<close>

theorem zend_hash_find_bucket_correct:
  assumes "ht_inv ht" "ptr_coherent ht key" "zs_ok key" "known \<longrightarrow> zs_h key \<noteq> 0"
  shows "\<exists>r. zend_hash_find_bucket ht key known = Inr (r, key\<lparr>zs_h := zend_hash_func (zs_val key)\<rparr>) \<and>
    map_of (entries ht) (SKey (zs_val key)) = map_option (\<lambda>i. b_val (arData ht ! i)) r"
  using find_bucket_ok [OF assms] map_of_locate [OF assms(1)] by auto

theorem zend_hash_find_bucket_correct_witness:
  "\<exists>i. zend_hash_find_bucket demo_one demo_key False = Inr (Some i, hashed demo_key) \<and>
     b_val (arData demo_one ! i) = IS_VAL 1"
  using zend_hash_find_bucket_correct [OF demo_one(1), of demo_key False] demo_good demo_one(2) demo_key
  by (auto simp: good_key_def hashed_def eq_commute [of "Some (IS_VAL 1)"])

text \<open>C7.  \<open>zend_hash_index_find\<close> finds exactly the entry of an integer key, in any layout.\<close>

theorem zend_hash_index_find_correct:
  assumes "ht_inv ht"
  shows "\<exists>r. zend_hash_index_find ht h = Inr r \<and>
    map_of (entries ht) (IKey h) = map_option (\<lambda>i. b_val (arData ht ! i)) r"
  using index_find_ok [OF assms] map_of_locate [OF assms] by auto

theorem zend_hash_index_find_correct_witness:
  "zend_hash_index_find demo_one 5 = Inr None"
  using zend_hash_index_find_correct [OF demo_one(1), of 5] demo_one(2) by auto

subsection \<open>Rehashing and sizes\<close>

text \<open>
  C5.  \<open>zend_hash_rehash\<close> removes every hole: it returns (its loops over the active iterators
  end), keeps the entries and their order and the element count, leaves the buckets in use
  dense, and rebuilds every collision chain.
\<close>

theorem zend_hash_rehash_correct:
  assumes "base_ok ht" "ht_initialized ht" "nTableMask ht = HT_SIZE_TO_MASK (nTableSize ht)"
  shows "\<exists>e' ht'. zend_hash_rehash e ht = Inr (e', ht') \<and> entries ht' = entries ht \<and>
    nNumUsed ht' = nNumOfElements ht \<and> chains_upto ht' (nNumUsed ht') \<and>
    nTableSize ht' = nTableSize ht \<and> e_log e' = e_log e"
proof -
  from zend_hash_rehash_ok [OF assms, of e] obtain e' ht' where
    h: "zend_hash_rehash e ht = Inr (e', ht')" "same_env e e'" "ready_mixed ht'"
      "content ht' = content ht" "nNumUsed ht' = nNumOfElements ht" "same_shape (HT_HASH_RESET ht) ht'"
    by blast
  then show ?thesis
    by (auto simp: entries_content ready_mixed_def same_env_def same_shape_def)
qed

theorem zend_hash_rehash_correct_witness:
  "\<exists>e' ht'. zend_hash_rehash demo_env demo_one = Inr (e', ht') \<and>
    entries ht' = [(SKey [97, 98], IS_VAL 1)]"
proof -
  obtain i where "locate demo_one (SKey [97, 98]) = Some i"
    using key_in_keys [OF demo_one(1), of "SKey [97, 98]"] demo_one(2) by auto
  then have "ready_mixed demo_one" by (rule string_key_mixed(3) [OF demo_one(1)])
  then show ?thesis
    using zend_hash_rehash_correct [of demo_one demo_env] demo_one(2)
    by (auto simp: ready_mixed_def mixed_ok_def)
qed

text \<open>
  C8.  \<open>zend_hash_check_size\<close> rounds a request of up to 2 to the 30 up to the least power of two
  that is at least the request and at least eight, by smearing bits in 32-bit arithmetic.
\<close>

theorem zend_hash_check_size_correct:
  assumes "n \<le> 2 ^ 30"
  shows "\<exists>k. zend_hash_check_size n = Inr (2 ^ k) \<and> 3 \<le> k \<and> k \<le> 30 \<and> n \<le> 2 ^ k \<and>
    (k = 3 \<or> 2 ^ (k - 1) < n)"
proof -
  from check_size_ok [OF assms] obtain p where
    p: "zend_hash_check_size n = Inr p" "pow2_size p" "n \<le> p" "p = 8 \<or> p < 2 * n" by blast
  from p(2) obtain k where k: "3 \<le> k" "k \<le> 30" "p = 2 ^ k" by (auto simp: pow2_size_def)
  have "k = 3 \<or> 2 ^ (k - 1) < n"
  proof (cases "p = 8")
    case True
    then have "(2 :: nat) ^ k = 2 ^ 3" using k by simp
    then show ?thesis by (subst (asm) power_inject_exp) simp_all
  next
    case False
    with p(4) k show ?thesis by (cases k) simp_all
  qed
  with p k show ?thesis by (intro exI [of _ k]) simp
qed

theorem zend_hash_check_size_correct_witness:
  "\<exists>k. zend_hash_check_size 1000 = Inr (2 ^ k) \<and> 1000 \<le> (2 :: nat) ^ k"
  using zend_hash_check_size_correct [of 1000] by auto

end
