(* ===== verification/Zend_Hash_Del.thy ===== *)
theory Zend_Hash_Del
  imports Zend_Hash_Index_Correct
begin

section \<open>Deletion (Zend/zend\_hash.c)\<close>

text \<open>
  Deleting a bucket unlinks it from its chain, moves the internal position and the iterators
  that stand on it to the next live bucket, trims the buckets in use when it was the last
  one, releases its key, marks it undefined and destroys its value, in this order.  The
  deletions by key return whether they found the key.
\<close>

subsection \<open>One bucket\<close>

definition release_key :: "'v bucket \<Rightarrow> 'v env \<Rightarrow> 'v env" where
  "release_key p e = (case b_key p of None \<Rightarrow> e
     | Some s \<Rightarrow> if zs_interned s then e else log_effect (Release (zs_ptr s)) e)"

definition unlink_bucket :: "nat \<Rightarrow> nat option \<Rightarrow> 'v HashTable \<Rightarrow> 'v HashTable" where
  "unlink_bucket idx prev ht =
     (if ht_packed ht then ht
      else case prev of
          Some q \<Rightarrow> upd_bucket q (\<lambda>p. p\<lparr>b_next := b_next (arData ht ! idx)\<rparr>) ht
        | None \<Rightarrow> HT_HASH_set ht (ht_nIndex ht (b_h (arData ht ! idx))) (b_next (arData ht ! idx)))"

text \<open>The inner \<open>while (1)\<close> stops at the first live bucket after \<open>idx\<close>, or at the end.\<close>

definition leave_position :: "nat \<Rightarrow> 'v env \<times> 'v HashTable \<Rightarrow> 'v env \<times> 'v HashTable" where
  "leave_position idx = (\<lambda>(e, ht).
     (if nInternalPointer ht = idx \<or> HT_HAS_ITERATORS ht then
        (let new_idx = get_first_pos_from ht (idx + 1);
             ht = (if nInternalPointer ht = idx then ht\<lparr>nInternalPointer := new_idx\<rparr> else ht)
         in (zend_hash_iterators_update e ht idx new_idx, ht))
      else (e, ht)))"

fun trim_used :: "'v bucket list \<Rightarrow> nat \<Rightarrow> nat" where
  "trim_used ds 0 = 0"
| "trim_used ds (Suc n) = (if Z_ISUNDEF (ds ! n) then trim_used ds n else Suc n)"

definition trim_last :: "nat \<Rightarrow> 'v HashTable \<Rightarrow> 'v HashTable" where
  "trim_last idx ht =
     (if nNumUsed ht = idx + 1 then
        (let ht = ht\<lparr>nNumUsed := trim_used (arData ht) (nNumUsed ht - 1)\<rparr>
         in ht\<lparr>nInternalPointer := min (nInternalPointer ht) (nNumUsed ht)\<rparr>)
      else ht)"

definition zend_hash_del_el_ex ::
    "'v env \<Rightarrow> 'v HashTable \<Rightarrow> nat \<Rightarrow> nat option \<Rightarrow> 'v env \<times> 'v HashTable" where
  "zend_hash_del_el_ex e ht idx prev =
     (let ht = unlink_bucket idx prev ht;
          ht = ht\<lparr>nNumOfElements := nNumOfElements ht - 1\<rparr>;
          (e, ht) = leave_position idx (e, ht);
          ht = trim_last idx ht;
          p = arData ht ! idx;
          e = release_key p e;
          tmp = b_val p;
          ht = upd_bucket idx (\<lambda>p. p\<lparr>b_val := IS_UNDEF\<rparr>) ht
      in (call_dtor e ht tmp, ht))"

text \<open>\<open>while (Z_NEXT(prev->val) != idx)\<close>, starting at bucket \<open>i\<close>.\<close>

partial_function (option) find_prev :: "'v HashTable \<Rightarrow> nat \<Rightarrow> nat \<Rightarrow> nat option" where
  "find_prev ht idx i =
     (if i \<ge> length (arData ht) then None
      else if b_next (arData ht ! i) = idx then Some i
      else find_prev ht idx (b_next (arData ht ! i)))"

definition zend_hash_del_el :: "'v env \<Rightarrow> 'v HashTable \<Rightarrow> nat \<Rightarrow> ('v env \<times> 'v HashTable) res" where
  "zend_hash_del_el e ht idx =
     (if ht_packed ht then Inr (zend_hash_del_el_ex e ht idx None)
      else
        (let i = HT_HASH ht (ht_nIndex ht (b_h (arData ht ! idx)))
         in if i = idx then Inr (zend_hash_del_el_ex e ht idx None)
            else rbind (of_walk (find_prev ht idx i))
              (\<lambda>prev. Inr (zend_hash_del_el_ex e ht idx (Some prev)))))"

definition zend_hash_del_bucket :: "'v env \<Rightarrow> 'v HashTable \<Rightarrow> nat \<Rightarrow> ('v env \<times> 'v HashTable) res" where
  "zend_hash_del_bucket e ht idx = zend_hash_del_el e ht idx"

subsection \<open>By key\<close>

text \<open>The chain walk of the deletions remembers the bucket before the current one.\<close>

partial_function (option) chain_find_prev ::
    "('v bucket \<Rightarrow> bool) \<Rightarrow> 'v HashTable \<Rightarrow> nat option \<Rightarrow> nat \<Rightarrow> (nat option \<times> nat) option option" where
  "chain_find_prev P ht prev idx =
     (if idx = HT_INVALID_IDX then Some None
      else if idx \<ge> length (arData ht) then None
      else if P (arData ht ! idx) then Some (Some (prev, idx))
      else chain_find_prev P ht (Some idx) (b_next (arData ht ! idx)))"

type_synonym 'v del = "(bool \<times> 'v env \<times> 'v HashTable) res"

definition del_found :: "'v env \<Rightarrow> 'v HashTable \<Rightarrow> (nat option \<times> nat) option option \<Rightarrow> 'v del" where
  "del_found e ht w = rbind (of_walk w) (\<lambda>r. Inr (case r of None \<Rightarrow> (False, e, ht)
     | Some (prev, idx) \<Rightarrow> (True, zend_hash_del_el_ex e ht idx prev)))"

definition zend_hash_del :: "'v env \<Rightarrow> 'v HashTable \<Rightarrow> zend_string \<Rightarrow> 'v del" where
  "zend_hash_del e ht key =
     (let (h, key) = zend_string_hash_val key;
          nIndex = ht_nIndex ht h;
          idx = HT_HASH ht nIndex
      in del_found e ht (chain_find_prev (\<lambda>p. same_key_ptr key p \<or> same_key_content key p) ht None idx))"

definition zend_hash_str_del :: "'v env \<Rightarrow> 'v HashTable \<Rightarrow> bytes \<Rightarrow> 'v del" where
  "zend_hash_str_del e ht str =
     (let h = zend_inline_hash_func str;
          nIndex = ht_nIndex ht h;
          idx = HT_HASH ht nIndex
      in del_found e ht (chain_find_prev (str_key_match str h) ht None idx))"

definition zend_hash_index_del :: "'v env \<Rightarrow> 'v HashTable \<Rightarrow> u64 \<Rightarrow> 'v del" where
  "zend_hash_index_del e ht h =
     (if ht_packed ht then
        (if unat h < nNumUsed ht \<and> live (arData ht ! unat h)
         then Inr (True, zend_hash_del_el_ex e ht (unat h) None) else Inr (False, e, ht))
      else
        (let nIndex = ht_nIndex ht h; idx = HT_HASH ht nIndex
         in del_found e ht (chain_find_prev (index_key_match h) ht None idx)))"

text \<open>
  The \<open>_ind\<close> deletions empty the slot of an \<open>IS_INDIRECT\<close> value and keep the bucket.  The one by
  \<open>zend_string\<close> marks the slot before it destroys the value, the one by byte string after.
\<close>

definition del_found_ind ::
    "('v env \<Rightarrow> 'v HashTable \<Rightarrow> nat \<Rightarrow> 'v env) \<Rightarrow> 'v env \<Rightarrow> 'v HashTable \<Rightarrow>
     (nat option \<times> nat) option option \<Rightarrow> 'v del" where
  "del_found_ind clear e ht w = rbind (of_walk w) (\<lambda>r. Inr (case r of None \<Rightarrow> (False, e, ht)
     | Some (prev, idx) \<Rightarrow>
         (case b_val (arData ht ! idx) of
            IS_INDIRECT a \<Rightarrow>
              (if e_slots e a = IS_UNDEF then (False, e, ht)
               else (True, clear e ht a, ht\<lparr>ht_has_empty_ind := True\<rparr>))
          | _ \<Rightarrow> (True, zend_hash_del_el_ex e ht idx prev))))"

definition zend_hash_del_ind :: "'v env \<Rightarrow> 'v HashTable \<Rightarrow> zend_string \<Rightarrow> 'v del" where
  "zend_hash_del_ind e ht key =
     (let (h, key) = zend_string_hash_val key;
          nIndex = ht_nIndex ht h;
          idx = HT_HASH ht nIndex
      in del_found_ind
           (\<lambda>e ht a. (let tmp = e_slots e a; e = e\<lparr>e_slots := (e_slots e)(a := IS_UNDEF)\<rparr>
                      in call_dtor e ht tmp))
           e ht (chain_find_prev (\<lambda>p. same_key_ptr key p \<or> same_key_content key p) ht None idx))"

definition zend_hash_str_del_ind :: "'v env \<Rightarrow> 'v HashTable \<Rightarrow> bytes \<Rightarrow> 'v del" where
  "zend_hash_str_del_ind e ht str =
     (let h = zend_inline_hash_func str;
          nIndex = ht_nIndex ht h;
          idx = HT_HASH ht nIndex
      in del_found_ind
           (\<lambda>e ht a. (let e = call_dtor e ht (e_slots e a)
                      in e\<lparr>e_slots := (e_slots e)(a := IS_UNDEF)\<rparr>))
           e ht (chain_find_prev (str_key_match str h) ht None idx))"

end
