(* ===== verification/Zend_Hash_Del_Correct.thy ===== *)
theory Zend_Hash_Del_Correct
  imports Zend_Hash_Del
begin

section \<open>Correctness of deletion\<close>

text \<open>
  Deleting a key removes its entry from the list of entries, whatever the layout, keeps the
  invariant, and logs the release of the key and the destruction of the value.  The walk
  along the chain ends with the bucket and its predecessor, and redirecting the predecessor
  takes exactly that bucket out of its chain.
\<close>

subsection \<open>The walk with its predecessor\<close>

fun walk_prev :: "(nat \<Rightarrow> bool) \<Rightarrow> nat option \<Rightarrow> nat list \<Rightarrow> (nat option \<times> nat) option" where
  "walk_prev P prev [] = None"
| "walk_prev P prev (a # as) = (if P a then Some (prev, a) else walk_prev P (Some a) as)"

lemma chain_find_prev_chain:
  assumes "chain HT_INVALID_IDX (nexts ht) idx is" "\<And>i. i \<in> set is \<Longrightarrow> i < length (arData ht)"
  shows "chain_find_prev P ht prev idx = Some (walk_prev (\<lambda>i. P (arData ht ! i)) prev is)"
  using assms
proof (induction "is" arbitrary: idx prev)
  case Nil
  then show ?case by (subst chain_find_prev.simps) simp
next
  case (Cons a as)
  then have "chain_find_prev P ht (Some a) (nexts ht a) =
      Some (walk_prev (\<lambda>i. P (arData ht ! i)) (Some a) as)" by simp
  moreover have "a < length (arData ht)" "idx = a" "a \<noteq> HT_INVALID_IDX"
    using Cons.prems by simp_all
  ultimately show ?case by (subst chain_find_prev.simps) (simp add: nexts_def)
qed

definition prev_of :: "nat option \<Rightarrow> nat list \<Rightarrow> nat option" where
  "prev_of prev as = (if as = [] then prev else Some (last as))"

lemma walk_prev_Some:
  "walk_prev P prev is = Some (q, i) \<Longrightarrow> \<exists>as bs. is = as @ i # bs \<and> q = prev_of prev as"
proof (induction "is" arbitrary: prev)
  case (Cons a as)
  show ?case
  proof (cases "P a")
    case True
    with Cons.prems have "prev = q" "a = i" by simp_all
    then show ?thesis by (intro exI [of _ "[]"] exI [of _ as]) (simp add: prev_of_def)
  next
    case False
    with Cons obtain cs bs where "as = cs @ i # bs" "q = prev_of (Some a) cs"
      by (metis walk_prev.simps(2))
    then show ?thesis by (intro exI [of _ "a # cs"] exI [of _ bs]) (auto simp: prev_of_def)
  qed
qed simp

lemma walk_prev_find: "map_option snd (walk_prev P prev is) = find P is"
  by (induction "is" arbitrary: prev) auto

subsection \<open>The parts of the deletion of a bucket\<close>

lemma trim_used_spec:
  "trim_used ds n \<le> n \<and> (\<forall>j. trim_used ds n \<le> j \<and> j < n \<longrightarrow> Z_ISUNDEF (ds ! j)) \<and>
   (0 < trim_used ds n \<longrightarrow> live (ds ! (trim_used ds n - 1)))"
proof (induction n)
  case (Suc n)
  then show ?case by (auto simp: less_Suc_eq)
qed simp

lemma unlink_result:
  "\<exists>A H. unlink_bucket idx prev ht = ht\<lparr>arData := A, ht_hash := H\<rparr> \<and> length A = length (arData ht) \<and>
     length H = length (ht_hash ht) \<and> (\<forall>j. same_bucket (A ! j) (arData ht ! j))"
proof (cases "ht_packed ht")
  case True
  then show ?thesis
    by (intro exI [of _ "arData ht"] exI [of _ "ht_hash ht"]) (simp add: unlink_bucket_def)
next
  case False
  show ?thesis
  proof (cases prev)
    case None
    with False show ?thesis
      by (intro exI [of _ "arData ht"] exI [of _ "(ht_hash ht)[slot ht (b_h (arData ht ! idx)) :=
          b_next (arData ht ! idx)]"]) (simp add: unlink_bucket_def HT_HASH_set_slot)
  next
    case (Some q)
    define A where "A = (arData ht)[q := (arData ht ! q)\<lparr>b_next := b_next (arData ht ! idx)\<rparr>]"
    have "same_bucket (A ! j) (arData ht ! j)" for j
      by (cases "j = q \<and> q < length (arData ht)")
        (auto simp: A_def same_bucket_def nth_list_update list_update_beyond)
    with False Some show ?thesis
      by (intro exI [of _ A] exI [of _ "ht_hash ht"]) (simp add: unlink_bucket_def upd_bucket_def A_def)
  qed
qed

lemma leave_position_result:
  "\<exists>x e'. leave_position idx (e, ht) = (e', ht\<lparr>nInternalPointer := x\<rparr>) \<and> same_env e e'"
proof (cases "nInternalPointer ht = idx \<or> HT_HAS_ITERATORS ht")
  case True
  show ?thesis
  proof (cases "nInternalPointer ht = idx")
    case True
    then show ?thesis by (simp add: leave_position_def Let_def) blast
  next
    case False
    with \<open>nInternalPointer ht = idx \<or> HT_HAS_ITERATORS ht\<close>
    have "leave_position idx (e, ht) =
        (zend_hash_iterators_update e ht idx (get_first_pos_from ht (idx + 1)),
         ht\<lparr>nInternalPointer := nInternalPointer ht\<rparr>)"
      by (simp add: leave_position_def Let_def)
    then show ?thesis by fastforce
  qed
next
  case False
  then have "leave_position idx (e, ht) = (e, ht\<lparr>nInternalPointer := nInternalPointer ht\<rparr>)"
    by (simp add: leave_position_def)
  then show ?thesis by fastforce
qed

lemma trim_last_result:
  assumes "idx < nNumUsed ht"
  shows "\<exists>m x. trim_last idx ht = ht\<lparr>nNumUsed := m, nInternalPointer := x\<rparr> \<and> m \<le> nNumUsed ht \<and>
    (x = nInternalPointer ht \<or> x = min (nInternalPointer ht) m) \<and>
    (\<forall>j. m \<le> j \<and> j < nNumUsed ht \<longrightarrow> j = idx \<or> Z_ISUNDEF (arData ht ! j))"
proof (cases "nNumUsed ht = idx + 1")
  case True
  have sp: "trim_used (arData ht) idx \<le> idx"
    "\<And>j. trim_used (arData ht) idx \<le> j \<Longrightarrow> j < idx \<Longrightarrow> Z_ISUNDEF (arData ht ! j)"
    using trim_used_spec [of "arData ht" idx] by auto
  with True show ?thesis
    by (intro exI [of _ "trim_used (arData ht) idx"]
        exI [of _ "min (nInternalPointer ht) (trim_used (arData ht) idx)"])
      (auto simp: trim_last_def Let_def less_Suc_eq)
next
  case False
  then show ?thesis
    by (intro exI [of _ "nNumUsed ht"] exI [of _ "nInternalPointer ht"]) (simp add: trim_last_def)
qed

definition release_log :: "'v bucket \<Rightarrow> 'v effect list" where
  "release_log p = (case b_key p of None \<Rightarrow> []
     | Some s \<Rightarrow> if zs_interned s then [] else [Release (zs_ptr s)])"

lemma release_key_simps [simp]:
  "e_log (release_key p e) = e_log e @ release_log p" "e_slots (release_key p e) = e_slots e"
  by (auto simp: release_key_def release_log_def log_effect_def split: option.splits)

lemma call_dtor_simps [simp]:
  "e_log (call_dtor e ht v) = e_log e @ dtor_log ht v" "e_slots (call_dtor e ht v) = e_slots e"
  by (simp_all add: call_dtor_def dtor_log_def log_effect_def)

text \<open>What a deletion makes of the table; the links are those of \<open>unlink_bucket\<close>.\<close>

lemma del_el_ex_result:
  assumes i: "idx < nNumUsed ht" "nNumUsed ht \<le> length (arData ht)"
  obtains e' A m x where
    "zend_hash_del_el_ex e ht idx prev = (e', (unlink_bucket idx prev ht)
       \<lparr>arData := A, nNumUsed := m, nInternalPointer := x, nNumOfElements := nNumOfElements ht - 1\<rparr>)"
    "A = (arData (unlink_bucket idx prev ht))
       [idx := (arData (unlink_bucket idx prev ht) ! idx)\<lparr>b_val := IS_UNDEF\<rparr>]"
    "m \<le> nNumUsed ht" "\<And>j. m \<le> j \<Longrightarrow> j < nNumUsed ht \<Longrightarrow> j = idx \<or> Z_ISUNDEF (arData ht ! j)"
    "e_log e' = e_log e @ release_log (arData ht ! idx) @ dtor_log ht (b_val (arData ht ! idx))"
    "e_slots e' = e_slots e"
proof -
  obtain B H where u: "unlink_bucket idx prev ht = ht\<lparr>arData := B, ht_hash := H\<rparr>"
    "length B = length (arData ht)" "\<And>j. same_bucket (B ! j) (arData ht ! j)"
    using unlink_result by blast
  define ht1 where "ht1 = ht\<lparr>arData := B, ht_hash := H, nNumOfElements := nNumOfElements ht - 1\<rparr>"
  obtain x e1 where l: "leave_position idx (e, ht1) = (e1, ht1\<lparr>nInternalPointer := x\<rparr>)" "same_env e e1"
    using leave_position_result by blast
  obtain m y where t: "trim_last idx (ht1\<lparr>nInternalPointer := x\<rparr>) =
      (ht1\<lparr>nInternalPointer := x\<rparr>)\<lparr>nNumUsed := m, nInternalPointer := y\<rparr>" "m \<le> nNumUsed ht"
    "\<And>j. m \<le> j \<Longrightarrow> j < nNumUsed ht \<Longrightarrow> j = idx \<or> Z_ISUNDEF (B ! j)"
    using trim_last_result [of idx "ht1\<lparr>nInternalPointer := x\<rparr>"] i(1) by (auto simp: ht1_def)
  have undef: "j = idx \<or> Z_ISUNDEF (arData ht ! j)" if "m \<le> j" "j < nNumUsed ht" for j
    using t(3) [OF that] same_bucketD(1) [OF u(3), of j] by auto
  have key: "release_log (B ! idx) = release_log (arData ht ! idx)" "b_val (B ! idx) = b_val (arData ht ! idx)"
    using u(3) [of idx] by (simp_all add: same_bucket_def release_log_def)
  define A where "A = B[idx := (B ! idx)\<lparr>b_val := IS_UNDEF\<rparr>]"
  define F where "F = ht\<lparr>arData := A, ht_hash := H, nNumUsed := m, nInternalPointer := y,
    nNumOfElements := nNumOfElements ht - 1\<rparr>"
  define e' where "e' = call_dtor (release_key (B ! idx) e1) ht (b_val (B ! idx))"
  have "zend_hash_del_el_ex e ht idx prev = (e', F)"
    using l(1) t(1) by (simp add: zend_hash_del_el_ex_def u(1) ht1_def Let_def upd_bucket_def F_def
        A_def e'_def call_dtor_def)
  moreover have "e_log e' = e_log e @ release_log (arData ht ! idx) @ dtor_log ht (b_val (arData ht ! idx))"
    "e_slots e' = e_slots e"
    using l(2) key by (simp_all add: e'_def same_env_def)
  ultimately show thesis
    using that [of e' y m A] t(2) undef by (simp add: u(1) F_def A_def)
qed

subsection \<open>Taking a bucket out of its chain\<close>

lemma unlink_chains:
  assumes r: "ready_mixed ht" and np: "\<not> ht_packed ht"
    and i: "i < nNumUsed ht" "live (arData ht ! i)"
    and mem: "members ht (nNumUsed ht) (slot ht (b_h (arData ht ! i))) = as @ i # bs"
    and j: "j < length (ht_hash ht)"
  defines "U \<equiv> unlink_bucket i (prev_of None as) ht"
  shows "chain HT_INVALID_IDX (nexts U) (ht_hash U ! j)
    (filter (\<lambda>x. x \<noteq> i) (members ht (nNumUsed ht) j))"
proof -
  let ?s = "slot ht (b_h (arData ht ! i))" and ?mem = "members ht (nNumUsed ht)"
  have ch: "chain HT_INVALID_IDX (nexts ht) (ht_hash ht ! j') (?mem j')" if "j' < length (ht_hash ht)" for j'
    using r that by (simp add: ready_mixed_def chains_upto_def)
  have sl: "?s < length (ht_hash ht)" by (rule ready_mixed_lengths(2) [OF r])
  have chs: "chain HT_INVALID_IDX (nexts ht) (ht_hash ht ! ?s) (as @ i # bs)" using ch [OF sl] mem by simp
  have dist: "distinct (as @ i # bs)" using members_distinct [of ht "nNumUsed ht" ?s] mem by simp
  have only: "x \<notin> set (?mem j')" if "x \<in> set (as @ i # bs)" "j' \<noteq> ?s" for x j'
    using that members_mem [of x ht "nNumUsed ht" ?s] by (auto simp: mem [symmetric] members_mem in_slot_def)
  have fs: "filter (\<lambda>x. x \<noteq> i) (?mem ?s) = as @ bs"
  proof -
    have "filter (\<lambda>x. x \<noteq> i) as = as" "filter (\<lambda>x. x \<noteq> i) bs = bs"
      using dist by (auto simp: filter_id_conv)
    then show ?thesis by (simp add: mem)
  qed
  have fo: "filter (\<lambda>x. x \<noteq> i) (?mem j) = ?mem j" if "j \<noteq> ?s"
    using only [OF _ that, of i] by (auto simp: filter_id_conv)
  show ?thesis
  proof (cases "as = []")
    case True
    then have U: "U = ht\<lparr>ht_hash := (ht_hash ht)[?s := nexts ht i]\<rparr>"
      using np by (simp add: U_def prev_of_def unlink_bucket_def HT_HASH_set_slot nexts_def)
    have nx: "nexts U = nexts ht" by (simp add: U nexts_def fun_eq_iff)
    show ?thesis
    proof (cases "j = ?s")
      case True
      then show ?thesis using chs \<open>as = []\<close> fs sl by (simp add: nx) (simp add: U)
    next
      case False
      then show ?thesis using ch [OF j] fo by (simp add: nx) (simp add: U)
    qed
  next
    case False
    then obtain cs q where as: "as = cs @ [q]" by (metis rev_exhaust)
    have "q \<in> set (?mem ?s)" using mem as by simp
    then have q: "q < length (arData ht)"
      using ready_mixed_lengths(1) [OF r] by (simp add: members_mem)
    have U: "U = upd_bucket q (\<lambda>p. p\<lparr>b_next := b_next (arData ht ! i)\<rparr>) ht"
      using np by (simp add: U_def prev_of_def as unlink_bucket_def)
    have nx: "nexts U = (nexts ht)(q := nexts ht i)"
      using q by (auto simp: U nexts_def upd_bucket_def fun_eq_iff)
    have hh: "ht_hash U = ht_hash ht" by (simp add: U upd_bucket_def)
    show ?thesis
    proof (cases "j = ?s")
      case True
      have "chain HT_INVALID_IDX ((nexts ht)(q := nexts ht i)) (ht_hash ht ! ?s) (cs @ q # bs)"
        by (rule chain_unlink) (use chs dist in \<open>simp_all add: as\<close>)
      then show ?thesis using True fs by (simp add: nx hh as)
    next
      case False
      have "q \<notin> set (?mem j)" using only [OF _ False, of q] as by simp
      then show ?thesis using ch [OF j] fo [OF False] by (simp add: nx hh)
    qed
  qed
qed

subsection \<open>Deleting a bucket\<close>

definition deleted :: "'v env \<Rightarrow> 'v HashTable \<Rightarrow> hkey \<Rightarrow> nat \<Rightarrow> 'v env \<times> 'v HashTable \<Rightarrow> bool" where
  "deleted e ht k i = (\<lambda>(e', ht'). ht_inv ht' \<and> entries ht' = assoc_del k (entries ht) \<and>
     e_log e' = e_log e @ release_log (arData ht ! i) @ dtor_log ht (b_val (arData ht ! i)) \<and>
     e_slots e' = e_slots e \<and> pDestructor ht' = pDestructor ht \<and> ht_addr ht' = ht_addr ht \<and>
     nTableSize ht' = nTableSize ht \<and> nNextFreeElement ht' = nNextFreeElement ht \<and>
     ht_packed ht' = ht_packed ht \<and> ht_initialized ht' = ht_initialized ht \<and>
     key_refs ht' \<subseteq> key_refs ht \<and> (static_ok ht \<longrightarrow> static_ok ht'))"

definition prev_ok :: "'v HashTable \<Rightarrow> nat \<Rightarrow> nat option \<Rightarrow> bool" where
  "prev_ok ht i prev = (ht_packed ht \<or>
     (\<exists>as bs. members ht (nNumUsed ht) (slot ht (b_h (arData ht ! i))) = as @ i # bs \<and>
        prev = prev_of None as))"

lemma entries_without:
  assumes b: "base_ok ht" and n: "nNumUsed ht \<le> length (arData ht)" and loc: "locate ht k = Some i"
    and A: "length (arData F) = length (arData ht)" "nNumUsed F \<le> nNumUsed ht"
    and lv: "\<And>j. Z_ISUNDEF (arData F ! j) \<longleftrightarrow> j = i \<or> Z_ISUNDEF (arData ht ! j)"
    and ent: "\<And>j. j \<noteq> i \<Longrightarrow> entry_of (arData F ! j) = entry_of (arData ht ! j)"
    and tail: "\<And>j. nNumUsed F \<le> j \<Longrightarrow> j < nNumUsed ht \<Longrightarrow> Z_ISUNDEF (arData F ! j)"
  shows "entries F = assoc_del k (entries ht)"
proof -
  note l = locate_Some [OF loc]
  have split: "[0..<nNumUsed ht] = [0..<nNumUsed F] @ [nNumUsed F..<nNumUsed ht]"
    using A(2) upt_add_eq_append [of 0 "nNumUsed F" "nNumUsed ht - nNumUsed F"] by simp
  have "filter (\<lambda>j. live (arData F ! j)) [nNumUsed F..<nNumUsed ht] = []"
    using tail by (auto simp: filter_empty_conv)
  then have "entries F = map (\<lambda>j. entry_of (arData F ! j))
      (filter (\<lambda>j. live (arData F ! j)) [0..<nNumUsed ht])"
    using A n by (simp add: entries_def entries_upto_conv split)
  also have "\<dots> = map (\<lambda>j. entry_of (arData ht ! j))
      (filter (\<lambda>j. live (arData F ! j)) [0..<nNumUsed ht])"
    by (rule map_cong) (auto simp: lv ent)
  also have "filter (\<lambda>j. live (arData F ! j)) [0..<nNumUsed ht] =
      filter (\<lambda>j. fst (entry_of (arData ht ! j)) \<noteq> k \<and> live (arData ht ! j)) [0..<nNumUsed ht]"
  proof (rule filter_cong)
    fix j assume j: "j \<in> set [0..<nNumUsed ht]"
    show "live (arData F ! j) \<longleftrightarrow> fst (entry_of (arData ht ! j)) \<noteq> k \<and> live (arData ht ! j)"
    proof (cases "live (arData ht ! j)")
      case True
      have "key_of (arData ht ! j) = k \<longleftrightarrow> j = i"
        using locate_unique [OF b n _ True, of k] j l(3) loc by auto
      with True show ?thesis by (simp add: lv entry_of_def)
    qed (simp add: lv)
  qed simp
  also have "map (\<lambda>j. entry_of (arData ht ! j)) \<dots> = assoc_del k (entries ht)"
    using n by (simp add: entries_def entries_upto_conv assoc_del_def filter_map comp_def conj_commute)
  finally show ?thesis .
qed

lemma del_el_ex_ok:
  assumes inv: "ht_inv ht" and loc: "locate ht k = Some i" and prev: "prev_ok ht i prev"
  shows "deleted e ht k i (zend_hash_del_el_ex e ht i prev)"
proof -
  note l = locate_Some [OF loc]
  note b = ht_inv_base [OF inv] and n = ht_inv_used [OF inv]
  define U where "U = unlink_bucket i prev ht"
  obtain e' A m x where d: "zend_hash_del_el_ex e ht i prev = (e', U
       \<lparr>arData := A, nNumUsed := m, nInternalPointer := x, nNumOfElements := nNumOfElements ht - 1\<rparr>)"
    and A: "A = (arData U)[i := (arData U ! i)\<lparr>b_val := IS_UNDEF\<rparr>]" and m: "m \<le> nNumUsed ht"
    and tail: "\<And>j. m \<le> j \<Longrightarrow> j < nNumUsed ht \<Longrightarrow> j = i \<or> Z_ISUNDEF (arData ht ! j)"
    and e': "e_log e' = e_log e @ release_log (arData ht ! i) @ dtor_log ht (b_val (arData ht ! i))"
      "e_slots e' = e_slots e"
    unfolding U_def by (rule del_el_ex_result [OF l(1) n, of e prev]) blast
  obtain B H where u: "U = ht\<lparr>arData := B, ht_hash := H\<rparr>" "length B = length (arData ht)"
    "length H = length (ht_hash ht)" "\<And>j. same_bucket (B ! j) (arData ht ! j)"
    unfolding U_def using unlink_result by blast
  define F where "F = U\<lparr>arData := A, nNumUsed := m, nInternalPointer := x,
    nNumOfElements := nNumOfElements ht - 1\<rparr>"
  have F: "nNumUsed F = m" "arData F = A" "ht_hash F = H" "nTableSize F = nTableSize ht"
    "nTableMask F = nTableMask ht" "ht_initialized F = ht_initialized ht" "ht_packed F = ht_packed ht"
    "nNumOfElements F = nNumOfElements ht - 1" "nNextFreeElement F = nNextFreeElement ht"
    by (simp_all add: F_def u(1))
  have iA: "i < length B" using l(1) n u(2) by simp
  have A': "A = B[i := (B ! i)\<lparr>b_val := IS_UNDEF\<rparr>]" using A by (simp add: u(1))
  have lv: "Z_ISUNDEF (A ! j) \<longleftrightarrow> j = i \<or> Z_ISUNDEF (arData ht ! j)" for j
    using iA same_bucketD(1) [OF u(4), of j] by (cases "j = i") (simp_all add: A' Z_ISUNDEF_def)
  have same: "same_bucket (A ! j) (arData ht ! j)" if "j \<noteq> i" for j
    using u(4) that by (simp add: A')
  have ent: "entries F = assoc_del k (entries ht)"
    by (rule entries_without [OF b n loc])
      (use u(2) m lv same_bucketD(2) [OF same] tail in \<open>auto simp: F A'\<close>)
  have mem: "k \<in> fst ` set (entries ht)" using loc by (simp add: key_in_keys [OF inv])
  have base: "base_ok F"
  proof -
    have "key_ok (A ! j)" if "j < m" "live (A ! j)" for j
      using that b m same_bucketD(3) [OF same, of j] by (auto simp: base_ok_def lv)
    moreover have "length (entries F) = nNumOfElements ht - 1"
      using b mem by (simp add: ent length_assoc_del base_ok_def)
    moreover have "distinct (map fst (entries F))" using b by (simp add: ent distinct_assoc_del base_ok_def)
    ultimately show ?thesis using b m u(2) by (auto simp: base_ok_def F A')
  qed
  have nf: "next_free_ok F"
    using inv by (auto simp: next_free_ok_def F ent assoc_del_def ht_inv_def)
  have lay: "if \<not> ht_initialized F then uninit_ok F else if ht_packed F then packed_ok F
      else mixed_ok F \<and> chains_upto F (nNumUsed F)"
    using inv
  proof (cases rule: ht_inv_cases)
    case uninit
    then show ?thesis using l(1) by (simp add: uninit_ok_def)
  next
    case packed
    have "ht_hash U = H" by (simp add: u(1))
    moreover have "U = ht" using packed(2) by (simp add: U_def unlink_bucket_def)
    ultimately have "H = ht_hash ht" by simp
    moreover have "b_key (A ! j) = None \<and> b_h (A ! j) = of_nat j" if "j < m" "live (A ! j)" for j
      using that packed(3) m same [of j] by (auto simp: packed_ok_def lv same_bucket_def)
    ultimately show ?thesis using packed by (simp add: F packed_ok_def)
  next
    case mixed
    from prev mixed(1) obtain as bs where
      sp: "members ht (nNumUsed ht) (slot ht (b_h (arData ht ! i))) = as @ i # bs" "prev = prev_of None as"
      by (auto simp: prev_ok_def)
    have sl: "slot F h = slot ht h" for h by (rule slot_cong) (simp add: F)
    have ins: "in_slot F j y \<longleftrightarrow> y \<noteq> i \<and> in_slot ht j y" for j y
      using same [of y] by (auto simp: in_slot_def F lv sl same_bucket_def)
    have split: "[0..<nNumUsed ht] = [0..<m] @ [m..<nNumUsed ht]"
      using m upt_add_eq_append [of 0 m "nNumUsed ht - m"] by simp
    have mm: "members F m j = filter (\<lambda>y. y \<noteq> i) (members ht (nNumUsed ht) j)" for j
    proof -
      have "filter (in_slot F j) [m..<nNumUsed ht] = []"
        using tail by (auto simp: filter_empty_conv ins) (auto simp: in_slot_def)
      then have "members F m j = rev (filter (in_slot F j) [0..<nNumUsed ht])"
        by (simp add: members_def split)
      also have "\<dots> = filter (\<lambda>y. y \<noteq> i) (members ht (nNumUsed ht) j)"
        by (simp add: members_def rev_filter ins [abs_def] conj_commute)
      finally show ?thesis .
    qed
    have nx: "nexts F = nexts U" using iA by (auto simp: nexts_def F A' u(1) fun_eq_iff nth_list_update)
    have "chain HT_INVALID_IDX (nexts F) (ht_hash F ! j) (members F (nNumUsed F) j)"
      if "j < length (ht_hash F)" for j
      using unlink_chains [OF mixed(2,1) l(1,2) sp(1), of j] that u(3)
      by (simp add: F mm nx sp(2) [symmetric] U_def [symmetric]) (simp add: u(1))
    then have "chains_upto F (nNumUsed F)" by (simp add: chains_upto_def)
    moreover have "mixed_ok F" using mixed(2) u(3) by (simp add: ready_mixed_def mixed_ok_def F)
    ultimately show ?thesis using mixed by (simp add: F ready_mixed_def)
  qed
  have invF: "ht_inv F" using base nf lay by (simp add: ht_inv_def)
  have old: "j \<noteq> i \<and> j < nNumUsed ht \<and> live (arData ht ! j) \<and> b_key (arData ht ! j) = b_key (A ! j)"
    if "j < m" "live (A ! j)" for j
    using that m same [of j] by (auto simp: lv same_bucket_def)
  have refs: "key_refs F \<subseteq> key_refs ht"
    using old by (auto simp: key_refs_mem [OF ht_inv_used [OF invF]] key_refs_mem [OF n] F) metis
  have st: "static_ok F" if "static_ok ht"
  proof -
    have "ht_static_keys F = ht_static_keys ht" by (simp add: F_def u(1))
    with that show ?thesis
      unfolding static_ok_mem [OF ht_inv_used [OF invF]] static_ok_mem [OF n] F
      using old by metis
  qed
  show ?thesis
    using ent e' invF refs st unfolding d F_def [symmetric]
    by (simp add: deleted_def F) (simp add: F_def u(1))
qed

subsection \<open>Deleting by key\<close>

definition walk_ok :: "'v HashTable \<Rightarrow> hkey \<Rightarrow> (nat option \<times> nat) option option \<Rightarrow> bool" where
  "walk_ok ht k w = (case locate ht k of
      None \<Rightarrow> w = Some None
    | Some i \<Rightarrow> \<exists>prev. w = Some (Some (prev, i)) \<and> prev_ok ht i prev)"

lemma chain_find_prev_mixed:
  assumes r: "ready_mixed ht"
    and P: "\<And>i. i < nNumUsed ht \<Longrightarrow> live (arData ht ! i) \<Longrightarrow> P (arData ht ! i) \<longleftrightarrow> key_of (arData ht ! i) = k"
  shows "walk_ok ht k (chain_find_prev P ht None (HT_HASH ht (ht_nIndex ht (hkey_hash k))))"
proof -
  let ?mem = "members ht (nNumUsed ht) (slot ht (hkey_hash k))"
  let ?w = "walk_prev (\<lambda>i. P (arData ht ! i)) None ?mem"
  have c: "chain_find_prev P ht None (HT_HASH ht (ht_nIndex ht (hkey_hash k))) = Some ?w"
    by (rule chain_find_prev_chain) (use mixed_chain [OF r, where h = "hkey_hash k"] in auto)
  have f: "map_option snd ?w = locate ht k"
    using members_locate [where P = P, OF r P] by (simp add: walk_prev_find)
  show ?thesis
  proof (cases "locate ht k")
    case None
    with f c show ?thesis by (simp add: walk_ok_def)
  next
    case (Some i)
    with f obtain prev where w: "?w = Some (prev, i)" by auto
    have "key_ok (arData ht ! i)"
      using r locate_Some [OF Some] by (simp add: ready_mixed_def base_ok_def)
    then have "b_h (arData ht ! i) = hkey_hash k" using key_of_hash locate_Some(3) [OF Some] by metis
    with walk_prev_Some [OF w] have "prev_ok ht i prev" by (auto simp: prev_ok_def)
    with Some c w show ?thesis by (simp add: walk_ok_def)
  qed
qed

text \<open>The outcome of a deletion by key.\<close>

definition del_outcome :: "'v env \<Rightarrow> 'v HashTable \<Rightarrow> hkey \<Rightarrow> 'v del \<Rightarrow> bool" where
  "del_outcome e ht k res = (case locate ht k of
      None \<Rightarrow> res = Inr (False, e, ht)
    | Some i \<Rightarrow> \<exists>r. res = Inr (True, r) \<and> deleted e ht k i r)"

lemma del_found_outcome:
  assumes inv: "ht_inv ht" and w: "walk_ok ht k w"
  shows "del_outcome e ht k (del_found e ht w)"
proof (cases "locate ht k")
  case None
  with w show ?thesis by (simp add: walk_ok_def del_outcome_def del_found_def of_walk_def)
next
  case (Some i)
  with w obtain prev where "w = Some (Some (prev, i))" "prev_ok ht i prev" by (auto simp: walk_ok_def)
  with del_el_ex_ok [OF inv Some, of prev e] Some show ?thesis
    by (simp add: del_outcome_def del_found_def of_walk_def)
qed

lemma chain_find_prev_nil: "chain_find_prev P ht prev HT_INVALID_IDX = Some None"
  by (subst chain_find_prev.simps) simp

lemma string_walk:
  assumes inv: "ht_inv ht"
    and P: "\<And>i. ready_mixed ht \<Longrightarrow> i < nNumUsed ht \<Longrightarrow> live (arData ht ! i) \<Longrightarrow>
      P (arData ht ! i) \<longleftrightarrow> key_of (arData ht ! i) = SKey s"
  shows "walk_ok ht (SKey s) (chain_find_prev P ht None (HT_HASH ht (ht_nIndex ht (zend_hash_func s))))"
proof (cases "\<not> ht_packed ht \<and> ready_mixed ht")
  case True
  then show ?thesis using chain_find_prev_mixed [of ht P "SKey s"] P by simp
next
  case False
  then show ?thesis using no_string_keys [OF inv False] by (simp add: walk_ok_def chain_find_prev_nil)
qed

lemma hash_str_del_ok:
  assumes "ht_inv ht"
  shows "del_outcome e ht (SKey str) (zend_hash_str_del e ht str)"
proof -
  have m: "str_key_match str (zend_hash_func str) (arData ht ! i) \<longleftrightarrow> key_of (arData ht ! i) = SKey str"
    if "ready_mixed ht" "i < nNumUsed ht" "live (arData ht ! i)" for i
  proof -
    have "key_ok (arData ht ! i)" using that by (simp add: ready_mixed_def base_ok_def)
    then show ?thesis
      by (auto simp: str_key_match_def key_of_def ZSTR_LEN_def dest: key_ok_Some split: option.splits)
  qed
  show ?thesis
    using del_found_outcome [OF assms string_walk [where P = "str_key_match str (zend_hash_func str)", OF assms m]]
    by (simp add: zend_hash_str_del_def zend_hash_func_def [symmetric] Let_def)
qed

lemma key_match:
  assumes "ready_mixed ht" "i < nNumUsed ht" "live (arData ht ! i)" "ptr_coherent ht key"
    "zs_val key' = zs_val key" "zs_ptr key' = zs_ptr key" "zs_h key' = zend_hash_func (zs_val key)"
  shows "same_key_ptr key' (arData ht ! i) \<or> same_key_content key' (arData ht ! i) \<longleftrightarrow>
    key_of (arData ht ! i) = SKey (zs_val key)"
proof (cases "b_key (arData ht ! i)")
  case None
  then show ?thesis by (simp add: same_key_ptr_def same_key_content_def key_of_def)
next
  case (Some s)
  have "key_ok (arData ht ! i)" using assms(1-3) by (simp add: ready_mixed_def base_ok_def)
  then have "b_h (arData ht ! i) = zend_hash_func (zs_val s)" using Some key_ok_Some by blast
  moreover have "zs_ptr s = zs_ptr key \<longrightarrow> zs_val s = zs_val key"
    using assms(2-4) Some by (auto simp: ptr_coherent_def split: option.splits)
  ultimately show ?thesis
    using Some assms(5-7) by (auto simp: same_key_ptr_def same_key_content_def key_of_def)
qed

lemma hash_del_ok:
  assumes inv: "ht_inv ht" and co: "ptr_coherent ht key" and ok: "zs_ok key"
  shows "del_outcome e ht (SKey (zs_val key)) (zend_hash_del e ht key)"
proof -
  let ?key = "key\<lparr>zs_h := zend_hash_func (zs_val key)\<rparr>"
  have hk: "zend_string_hash_val key = (zend_hash_func (zs_val key), ?key)"
    using zend_string_hash_val_ok [OF ok] by (cases "zend_string_hash_val key") auto
  have "walk_ok ht (SKey (zs_val key)) (chain_find_prev
      (\<lambda>p. same_key_ptr ?key p \<or> same_key_content ?key p) ht None
      (HT_HASH ht (ht_nIndex ht (zend_hash_func (zs_val key)))))"
    by (rule string_walk [OF inv]) (rule key_match [OF _ _ _ co], simp_all)
  from del_found_outcome [OF inv this, of e] show ?thesis
    by (simp add: zend_hash_del_def hk)
qed

lemma hash_index_del_ok:
  assumes inv: "ht_inv ht"
  shows "del_outcome e ht (IKey h) (zend_hash_index_del e ht h)"
  using inv
proof (cases rule: ht_inv_cases)
  case uninit
  then have "locate ht (IKey h) = None" by (simp add: locate_def uninit_ok_def)
  then show ?thesis
    using uninit no_heads [of ht h]
    by (simp add: zend_hash_index_del_def uninit_ok_def del_outcome_def del_found_def
        chain_find_prev_nil of_walk_def)
next
  case packed
  show ?thesis
  proof (cases "locate ht (IKey h)")
    case None
    then show ?thesis
      using packed packed_locate [OF packed(4,3,1), of h]
      by (auto simp: zend_hash_index_del_def del_outcome_def split: if_splits)
  next
    case (Some i)
    then have "i = unat h" "unat h < nNumUsed ht" "live (arData ht ! unat h)"
      using packed_locate [OF packed(4,3,1), of h] by (auto split: if_splits)
    with del_el_ex_ok [OF inv Some, of None e] Some packed(2) show ?thesis
      by (simp add: zend_hash_index_del_def del_outcome_def prev_ok_def)
  qed
next
  case mixed
  have "index_key_match h (arData ht ! i) \<longleftrightarrow> key_of (arData ht ! i) = IKey h" for i
    by (auto simp: index_key_match_def key_of_def split: option.splits)
  then show ?thesis
    using del_found_outcome [OF inv chain_find_prev_mixed [OF mixed(2)], of "index_key_match h" "IKey h" e] mixed(1)
    by (simp add: zend_hash_index_del_def)
qed

text \<open>Deleting a given live bucket.\<close>

lemma find_prev_chain:
  assumes "chain HT_INVALID_IDX (nexts ht) a (as @ q # i # bs)" "i \<notin> set (as @ [q])"
    "\<And>x. x \<in> set (as @ [q]) \<Longrightarrow> x < length (arData ht)"
  shows "find_prev ht i a = Some q"
  using assms
proof (induction as arbitrary: a)
  case Nil
  then show ?case by (subst find_prev.simps) (simp add: nexts_def)
next
  case (Cons x as)
  then have "find_prev ht i (nexts ht x) = Some q" by simp
  moreover have "nexts ht x \<noteq> i"
  proof (cases as)
    case Nil
    with Cons.prems show ?thesis by auto
  next
    case (Cons y ys)
    with \<open>chain HT_INVALID_IDX (nexts ht) a ((x # as) @ q # i # bs)\<close> \<open>i \<notin> set ((x # as) @ [q])\<close>
    show ?thesis by auto
  qed
  moreover have "x < length (arData ht)" "a = x" using Cons.prems(1,3) by simp_all
  ultimately show ?case by (subst find_prev.simps) (simp add: nexts_def)
qed

lemma del_el_ok:
  assumes inv: "ht_inv ht" and i: "i < nNumUsed ht" "live (arData ht ! i)"
  shows "\<exists>r. zend_hash_del_el e ht i = Inr r \<and> deleted e ht (key_of (arData ht ! i)) i r"
proof -
  have loc: "locate ht (key_of (arData ht ! i)) = Some i"
    by (rule locate_unique [OF ht_inv_base [OF inv] ht_inv_used [OF inv] i refl])
  show ?thesis
  proof (cases "ht_packed ht")
    case True
    then show ?thesis using del_el_ex_ok [OF inv loc, of None e]
      by (simp add: zend_hash_del_el_def prev_ok_def)
  next
    case False
    have r: "ready_mixed ht"
      using inv by (cases rule: ht_inv_cases) (use i(1) False in \<open>auto simp: uninit_ok_def\<close>)
    let ?h = "b_h (arData ht ! i)"
    let ?mem = "members ht (nNumUsed ht) (slot ht ?h)"
    have "i \<in> set ?mem" using i by (simp add: members_mem in_slot_def)
    then obtain as bs where sp: "?mem = as @ i # bs" by (meson split_list)
    then have pk: "prev_ok ht i (prev_of None as)" by (auto simp: prev_ok_def)
    have dist: "distinct (as @ i # bs)" using members_distinct [of ht "nNumUsed ht" "slot ht ?h"] sp by simp
    note ch = mixed_chain [OF r, where h = ?h, unfolded sp]
    show ?thesis
    proof (cases "as = []")
      case True
      then have "HT_HASH ht (ht_nIndex ht ?h) = i" using ch(1) by simp
      then show ?thesis using del_el_ex_ok [OF inv loc pk, of e] True False
        by (simp add: zend_hash_del_el_def prev_of_def)
    next
      case nn: False
      then obtain cs q where as: "as = cs @ [q]" by (metis rev_exhaust)
      have "find_prev ht i (HT_HASH ht (ht_nIndex ht ?h)) = Some q"
        by (rule find_prev_chain [of ht _ cs q i bs]) (use ch dist in \<open>auto simp: as\<close>)
      moreover have "HT_HASH ht (ht_nIndex ht ?h) \<noteq> i"
        using ch(1) dist nn by (cases as) auto
      ultimately show ?thesis using del_el_ex_ok [OF inv loc pk, of e] False
        by (simp add: zend_hash_del_el_def prev_of_def as of_walk_def)
    qed
  qed
qed

subsection \<open>Positions\<close>

text \<open>
  No position is left on a deleted bucket: the internal position and every active iterator of
  the table that stood on a live bucket, or at the end, still do.
\<close>

definition pos_ok :: "'v HashTable \<Rightarrow> nat \<Rightarrow> bool" where
  "pos_ok ht pos = (pos < nNumUsed ht \<longrightarrow> live (arData ht ! pos))"

definition iters_ok :: "'v env \<Rightarrow> 'v HashTable \<Rightarrow> bool" where
  "iters_ok e ht = (\<forall>it \<in> set (take (e_iters_used e) (e_iters e)).
     it_ht it = It_HT (ht_addr ht) \<longrightarrow> HT_HAS_ITERATORS ht \<and> pos_ok ht (it_pos it))"

lemma first_pos_from_ok: "pos_ok ht (get_first_pos_from ht pos)"
  using get_first_pos_from_spec [of pos ht] by (auto simp: pos_ok_def)

lemma leave_position_eq:
  "leave_position idx (e, ht) = (zend_hash_iterators_update e ht idx (get_first_pos_from ht (idx + 1)),
     ht\<lparr>nInternalPointer := (if nInternalPointer ht = idx then get_first_pos_from ht (idx + 1)
                           else nInternalPointer ht)\<rparr>)"
  by (auto simp: leave_position_def Let_def zend_hash_iterators_update_def HT_HAS_ITERATORS_def
      zend_hash_iterators_update_slow_def)

lemma update_iters_ok:
  assumes "iters_ok e ht" and pos: "pos_ok F new" "\<And>p. p \<noteq> i \<Longrightarrow> pos_ok ht p \<Longrightarrow> pos_ok F p"
    and F: "ht_addr F = ht_addr ht" "nIteratorsCount F = nIteratorsCount ht" "ht_addr ht1 = ht_addr ht"
      "nIteratorsCount ht1 = nIteratorsCount ht"
  shows "iters_ok (zend_hash_iterators_update e ht1 i new) F"
proof (cases "HT_HAS_ITERATORS ht")
  case False
  then show ?thesis
    using assms by (auto simp: iters_ok_def zend_hash_iterators_update_def HT_HAS_ITERATORS_def)
next
  case True
  let ?f = "\<lambda>it. if it_ht it = It_HT (ht_addr ht) \<and> it_pos it = i then it\<lparr>it_pos := new\<rparr> else it"
  let ?k = "e_iters_used e"
  have "take ?k (map ?f (take ?k (e_iters e)) @ drop ?k (e_iters e)) = map ?f (take ?k (e_iters e))"
    by (cases "?k \<le> length (e_iters e)") simp_all
  then have "take (e_iters_used (zend_hash_iterators_update e ht1 i new))
      (e_iters (zend_hash_iterators_update e ht1 i new)) = map ?f (take ?k (e_iters e))"
    using True F by (simp add: zend_hash_iterators_update_def zend_hash_iterators_update_slow_def
        map_used_iters_def HT_HAS_ITERATORS_def)
  then show ?thesis
    using assms True by (auto simp: iters_ok_def HT_HAS_ITERATORS_def split: if_splits)
qed

lemma del_positions:
  assumes inv: "ht_inv ht" and i: "i < nNumUsed ht"
    and it: "iters_ok e ht" and ip: "pos_ok ht (nInternalPointer ht)"
    and d: "zend_hash_del_el_ex e ht i prev = (e', ht')"
  shows "iters_ok e' ht'" "pos_ok ht' (nInternalPointer ht')"
proof -
  have n: "nNumUsed ht \<le> length (arData ht)" by (rule ht_inv_used [OF inv])
  obtain B H where u: "unlink_bucket i prev ht = ht\<lparr>arData := B, ht_hash := H\<rparr>"
    "length B = length (arData ht)" "\<And>j. same_bucket (B ! j) (arData ht ! j)"
    using unlink_result by blast
  define ht1 where "ht1 = ht\<lparr>arData := B, ht_hash := H, nNumOfElements := nNumOfElements ht - 1\<rparr>"
  define new where "new = get_first_pos_from ht1 (i + 1)"
  define x where "x = (if nInternalPointer ht1 = i then new else nInternalPointer ht1)"
  obtain m y where t: "trim_last i (ht1\<lparr>nInternalPointer := x\<rparr>) =
      (ht1\<lparr>nInternalPointer := x\<rparr>)\<lparr>nNumUsed := m, nInternalPointer := y\<rparr>" "m \<le> nNumUsed ht"
    and y: "y = x \<or> y = min x m"
    using trim_last_result [of i "ht1\<lparr>nInternalPointer := x\<rparr>"] i by (auto simp: ht1_def)
  define e1 where "e1 = zend_hash_iterators_update e ht1 i new"
  have l: "leave_position i (e, ht1) = (e1, ht1\<lparr>nInternalPointer := x\<rparr>)"
    by (simp only: leave_position_eq x_def new_def e1_def)
  have "zend_hash_del_el_ex e ht i prev = (call_dtor (release_key (B ! i) e1) ht (b_val (B ! i)),
      ht\<lparr>arData := B[i := (B ! i)\<lparr>b_val := IS_UNDEF\<rparr>], ht_hash := H, nNumUsed := m,
         nInternalPointer := y, nNumOfElements := nNumOfElements ht - 1\<rparr>)"
    using l t(1) by (simp add: zend_hash_del_el_ex_def u(1) ht1_def Let_def upd_bucket_def call_dtor_def)
  with d have e'_eq: "e' = call_dtor (release_key (B ! i) e1) ht (b_val (B ! i))"
    and ht'_eq: "ht' = ht\<lparr>arData := B[i := (B ! i)\<lparr>b_val := IS_UNDEF\<rparr>], ht_hash := H, nNumUsed := m,
         nInternalPointer := y, nNumOfElements := nNumOfElements ht - 1\<rparr>" by simp_all
  have ht': "arData ht' = B[i := (B ! i)\<lparr>b_val := IS_UNDEF\<rparr>]" "nNumUsed ht' = m" "nInternalPointer ht' = y"
    "ht_addr ht' = ht_addr ht" "nIteratorsCount ht' = nIteratorsCount ht" by (simp_all add: ht'_eq)
  have e': "e_iters e' = e_iters (zend_hash_iterators_update e ht1 i new)"
    "e_iters_used e' = e_iters_used (zend_hash_iterators_update e ht1 i new)"
    by (simp_all add: e'_eq e1_def release_key_def call_dtor_def log_effect_def split: option.splits)
  have lv: "Z_ISUNDEF (arData ht' ! j) \<longleftrightarrow> j = i \<or> Z_ISUNDEF (arData ht ! j)" for j
    using i n u(2) same_bucketD(1) [OF u(3), of j]
    by (cases "j = i") (simp_all add: ht'(1) Z_ISUNDEF_def)
  have keep: "pos_ok ht' p" if "p \<noteq> i" "pos_ok ht p" for p
    using that t(2) by (auto simp: pos_ok_def ht'(2) lv)
  have "pos_ok ht1 new" "i < new"
    using get_first_pos_from_spec [of "i + 1" ht1] by (auto simp: new_def first_pos_from_ok)
  then have new: "pos_ok ht' new"
    using t(2) same_bucketD(1) [OF u(3), of new] by (auto simp: pos_ok_def ht'(2) lv) (auto simp: ht1_def)
  have "iters_ok (zend_hash_iterators_update e ht1 i new) ht'"
    by (rule update_iters_ok [OF it new keep]) (simp_all add: ht' ht1_def)
  then show "iters_ok e' ht'" by (simp add: iters_ok_def e')
  have "pos_ok ht' x" using new keep ip by (auto simp: x_def ht1_def)
  moreover have "pos_ok ht' m" by (simp add: pos_ok_def ht')
  ultimately show "pos_ok ht' (nInternalPointer ht')" using y by (auto simp: ht' min_def split: if_splits)
qed

end
