(* ===== verification/Zend_Hash_Copy.thy ===== *)
theory Zend_Hash_Copy
  imports Zend_Hash_Del_Correct
begin

section \<open>Copying and merging tables (Zend/zend\_hash.c)\<close>

text \<open>
  The loops run over the used buckets of the source and insert into the target.  The copy
  constructor gets the address of the new entry and may replace the value there; it is a
  function on values.  \<open>merge_ex\<close> asks a callback for every element; the callback sees the
  target, the value and the key.
\<close>

type_synonym 'v copy_ctor = "('v zval \<Rightarrow> 'v zval) option"

definition apply_copy_ctor ::
    "'v copy_ctor \<Rightarrow> zptr option \<times> 'v env \<times> 'v HashTable \<Rightarrow> 'v env \<times> 'v HashTable" where
  "apply_copy_ctor pCopyConstructor = (\<lambda>(new_entry, e, target).
     (case pCopyConstructor of
        None \<Rightarrow> (e, target)
      | Some f \<Rightarrow>
          (case new_entry of
             None \<Rightarrow> (e, target)
           | Some (AtBucket i) \<Rightarrow> (e, upd_bucket i (\<lambda>p. p\<lparr>b_val := f (b_val p)\<rparr>) target)
           | Some (AtSlot a) \<Rightarrow> (e\<lparr>e_slots := (e_slots e)(a := f (e_slots e a))\<rparr>, target))))"

text \<open>\<open>if (p->key) zend_hash_update(...) else zend_hash_index_update(...)\<close>, then the constructor.\<close>

definition copy_entry ::
    "'v copy_ctor \<Rightarrow> 'v zval \<times> u64 \<times> zend_string option \<Rightarrow> 'v env \<times> 'v HashTable \<Rightarrow> ('v env \<times> 'v HashTable) res" where
  "copy_entry pCopyConstructor = (\<lambda>(data, h, key) (e, target).
     rbind (case key of Some key \<Rightarrow> zend_hash_update e target key data
                      | None \<Rightarrow> zend_hash_index_update e target h data)
       (\<lambda>r. Inr (apply_copy_ctor pCopyConstructor r)))"

definition copy_bucket :: "'v copy_ctor \<Rightarrow> 'v bucket \<Rightarrow> 'v env \<times> 'v HashTable \<Rightarrow> ('v env \<times> 'v HashTable) res" where
  "copy_bucket pCopyConstructor p = (\<lambda>(e, target).
     (if Z_ISUNDEF p then Inr (e, target)
      else case b_val p of
          IS_INDIRECT a \<Rightarrow>
            (if e_slots e a = IS_UNDEF then Inr (e, target)
             else copy_entry pCopyConstructor (e_slots e a, b_h p, b_key p) (e, target))
        | data \<Rightarrow> copy_entry pCopyConstructor (data, b_h p, b_key p) (e, target)))"

definition zend_hash_copy ::
    "'v env \<Rightarrow> 'v HashTable \<Rightarrow> 'v HashTable \<Rightarrow> 'v copy_ctor \<Rightarrow> ('v env \<times> 'v HashTable) res" where
  "zend_hash_copy e target source pCopyConstructor =
     fold_res (copy_bucket pCopyConstructor) (take (nNumUsed source) (arData source)) (e, target)"

text \<open>An element \<open>zend_hash_merge\<close> skips: undefined, or indirect with an undefined slot.\<close>

definition merge_skips :: "'v env \<Rightarrow> 'v bucket \<Rightarrow> bool" where
  "merge_skips e p = (Z_ISUNDEF p \<or> (case b_val p of IS_INDIRECT a \<Rightarrow> e_slots e a = IS_UNDEF | _ \<Rightarrow> False))"

definition merge_entry ::
    "'v copy_ctor \<Rightarrow> bool \<Rightarrow> 'v zval \<times> u64 \<times> zend_string option \<Rightarrow> 'v env \<times> 'v HashTable \<Rightarrow>
     ('v env \<times> 'v HashTable) res" where
  "merge_entry pCopyConstructor over = (\<lambda>(data, h, key) (e, target).
     rbind (case key of
              Some key \<Rightarrow> zend_hash_add_or_update_i e target key data
                ((if over then HASH_UPDATE else HASH_ADD) OR HASH_UPDATE_INDIRECT)
            | None \<Rightarrow> (if over then zend_hash_index_update e target h data
                       else zend_hash_index_add e target h data))
       (\<lambda>r. Inr (apply_copy_ctor pCopyConstructor r)))"

definition merge_bucket ::
    "'v copy_ctor \<Rightarrow> bool \<Rightarrow> 'v bucket \<Rightarrow> 'v env \<times> 'v HashTable \<Rightarrow> ('v env \<times> 'v HashTable) res" where
  "merge_bucket pCopyConstructor over p = (\<lambda>(e, target).
     (if merge_skips e p then Inr (e, target)
      else merge_entry pCopyConstructor over (b_val p, b_h p, b_key p) (e, target)))"

definition zend_hash_merge ::
    "'v env \<Rightarrow> 'v HashTable \<Rightarrow> 'v HashTable \<Rightarrow> 'v copy_ctor \<Rightarrow> bool \<Rightarrow> ('v env \<times> 'v HashTable) res" where
  "zend_hash_merge e target source pCopyConstructor over =
     fold_res (merge_bucket pCopyConstructor over) (take (nNumUsed source) (arData source)) (e, target)"

text \<open>
  \<open>zend_hash_merge_ex\<close> passes \<open>p->key\<close> to \<open>zend_hash_update\<close> whether or not there is one; with
  a NULL key the run leaves the model.
\<close>

type_synonym ('v, 'arg) merge_checker =
  "'v HashTable \<Rightarrow> 'v zval \<Rightarrow> u64 \<times> zend_string option \<Rightarrow> 'arg \<Rightarrow> bool"

definition zend_hash_replace_checker_wrapper ::
    "'v HashTable \<Rightarrow> 'v zval \<Rightarrow> 'v bucket \<Rightarrow> 'arg \<Rightarrow> ('v, 'arg) merge_checker \<Rightarrow> bool" where
  "zend_hash_replace_checker_wrapper target source_data p pParam merge_checker_func =
     merge_checker_func target source_data (b_h p, b_key p) pParam"

definition zend_hash_merge_ex ::
    "'v env \<Rightarrow> 'v HashTable \<Rightarrow> 'v HashTable \<Rightarrow> 'v copy_ctor \<Rightarrow> ('v, 'arg) merge_checker \<Rightarrow> 'arg \<Rightarrow>
     ('v env \<times> 'v HashTable) res" where
  "zend_hash_merge_ex e target source pCopyConstructor pMergeSource pParam =
     fold_res (\<lambda>p (e, target).
       (if Z_ISUNDEF p then Inr (e, target)
        else if zend_hash_replace_checker_wrapper target (b_val p) p pParam pMergeSource then
          (case b_key p of
             None \<Rightarrow> Inl UB
           | Some key \<Rightarrow> rbind (zend_hash_update e target key (b_val p))
               (\<lambda>r. Inr (apply_copy_ctor pCopyConstructor r)))
        else Inr (e, target)))
       (take (nNumUsed source) (arData source)) (e, target)"

subsection \<open>Counting elements\<close>

text \<open>
  \<open>zend_array_recalc_elements\<close>: the \<open>FOREACH_VAL\<close> loop over the live buckets; \<open>num\<close> is
  unsigned and never goes below zero on a table whose count is right.
\<close>

definition zend_array_recalc_elements :: "'v env \<Rightarrow> 'v HashTable \<Rightarrow> nat" where
  "zend_array_recalc_elements e ht =
     fold (\<lambda>p num. if \<not> Z_ISUNDEF p \<and> (case b_val p of IS_INDIRECT a \<Rightarrow> e_slots e a = IS_UNDEF | _ \<Rightarrow> False)
                   then num - 1 else num)
       (take (nNumUsed ht) (arData ht)) (nNumOfElements ht)"

text \<open>\<open>is_symbol_table\<close>: \<open>ht\<close> is the global symbol table.\<close>

definition zend_array_count :: "'v env \<Rightarrow> 'v HashTable \<Rightarrow> bool \<Rightarrow> nat \<times> 'v HashTable" where
  "zend_array_count e ht is_symbol_table =
     (if ht_has_empty_ind ht then
        (let num = zend_array_recalc_elements e ht
         in (num, if nNumOfElements ht = num then ht\<lparr>ht_has_empty_ind := False\<rparr> else ht))
      else if is_symbol_table then (zend_array_recalc_elements e ht, ht)
      else (nNumOfElements ht, ht))"

end
