(* ===== verification/Zend_Hash_Store.thy ===== *)
theory Zend_Hash_Store
  imports Zend_Hash_Copy
begin

section \<open>The hash table as a keyed store\<close>

text \<open>
  The interfaces of \<open>Store_Interfaces\<close> interpreted on the operations of the hash table: the
  state is the environment with the table, the entries are what it stands for.  Room is a
  bound on the number of elements, under which no insertion can reach the size limit.
\<close>

subsection \<open>Room for insertions\<close>

definition capacity :: "nat \<Rightarrow> 'v HashTable \<Rightarrow> bool" where
  "capacity n ht = (nNumOfElements ht + n \<le> 2 ^ 26 \<and>
     nTableSize ht \<le> (if ht_initialized ht \<and> \<not> ht_packed ht then 2 ^ 29 else 2 ^ 28))"

lemma capacity_size: "capacity n ht \<Longrightarrow> nTableSize ht < 2 ^ 30"
  by (auto simp: capacity_def split: if_splits)

lemma elements_entries: "ht_inv ht \<Longrightarrow> nNumOfElements ht = length (entries ht)"
  by (simp add: ht_inv_def base_ok_def)

lemma inv_initialized: "ht_inv ht \<Longrightarrow> entries ht \<noteq> [] \<Longrightarrow> ht_initialized ht"
  by (auto simp: ht_inv_def uninit_ok_def entries_def entries_upto_def split: if_splits)

lemma capacity_grows:
  assumes "capacity (Suc n) ht" "ht_inv ht" "ht_inv ht'" "grows ht ht'"
    "length (entries ht') \<le> Suc (length (entries ht))" "entries ht' \<noteq> []"
  shows "capacity n ht'"
proof -
  have "nNumOfElements ht' + n \<le> 2 ^ 26" "nNumOfElements ht \<le> 2 ^ 26"
    using assms by (simp_all add: capacity_def elements_entries)
  moreover have "ht_initialized ht'" by (rule inv_initialized [OF assms(3,6)])
  ultimately show ?thesis using assms(1,4) by (auto simp: capacity_def grows_def split: if_splits)
qed

lemma capacity_less: "capacity n ht \<Longrightarrow> nTableSize ht' = nTableSize ht \<Longrightarrow> ht_packed ht' = ht_packed ht \<Longrightarrow>
  ht_initialized ht' = ht_initialized ht \<Longrightarrow> nNumOfElements ht' + m \<le> nNumOfElements ht + n \<Longrightarrow> capacity m ht'"
  by (auto simp: capacity_def split: if_splits)

subsection \<open>Key strings and their addresses\<close>

text \<open>\<open>nm\<close> gives the bytes of the string at an address, the same wherever it is referred to.\<close>

definition named :: "(nat \<Rightarrow> bytes) \<Rightarrow> 'v HashTable \<Rightarrow> bool" where
  "named nm ht = (\<forall>(a, b) \<in> key_refs ht. b = nm a)"

definition key_fits :: "(nat \<Rightarrow> bytes) \<Rightarrow> zend_string \<Rightarrow> bool" where
  "key_fits nm key = (zs_val key = nm (zs_ptr key) \<and> zs_ok key \<and> (zs_interned key \<longrightarrow> zs_h key \<noteq> 0))"

lemma named_good_key:
  assumes "ht_inv ht" "named nm ht" "key_fits nm key"
  shows "good_key ht key" "ptr_coherent ht key"
proof -
  have "zs_val s = zs_val key"
    if "i < nNumUsed ht" "live (arData ht ! i)" "b_key (arData ht ! i) = Some s" "zs_ptr s = zs_ptr key" for i s
  proof -
    have "(zs_ptr s, zs_val s) \<in> key_refs ht"
      using that key_refs_mem [OF ht_inv_used [OF assms(1)]] by blast
    then have "zs_val s = nm (zs_ptr s)" using assms(2) by (auto simp: named_def)
    with assms(3) that(4) show ?thesis by (simp add: key_fits_def)
  qed
  then show "ptr_coherent ht key" by (auto simp: ptr_coherent_def split: option.splits)
  with assms(3) show "good_key ht key" by (simp add: good_key_def key_fits_def)
qed

subsection \<open>The store\<close>

definition store_inv :: "(nat \<Rightarrow> bytes) \<Rightarrow> (nat \<Rightarrow> 'v zval) \<Rightarrow> nat \<Rightarrow> 'v env \<times> 'v HashTable \<Rightarrow> bool" where
  "store_inv nm sl n = (\<lambda>(e, ht). e_slots e = sl \<and> ht_inv ht \<and> static_ok ht \<and> named nm ht \<and> capacity n ht)"

definition store_entries :: "'v env \<times> 'v HashTable \<Rightarrow> (hkey \<times> 'v zval) list" where
  "store_entries = (\<lambda>(e, ht). entries ht)"

type_synonym 'v item = "'v zval \<times> u64 \<times> zend_string option"

definition item_key :: "'v item \<Rightarrow> hkey" where
  "item_key x = fst (strip_entry x)"

definition item_fits :: "(nat \<Rightarrow> bytes) \<Rightarrow> 'v item \<Rightarrow> bool" where
  "item_fits nm = (\<lambda>(v, h, k). v \<noteq> IS_UNDEF \<and> (case k of None \<Rightarrow> True | Some key \<Rightarrow> key_fits nm key))"

definition get_key :: "hkey \<Rightarrow> 'v env \<times> 'v HashTable \<Rightarrow> 'v zval option res" where
  "get_key k = (\<lambda>(e, ht). rbind
     (case k of SKey s \<Rightarrow> zend_hash_str_find ht s | IKey h \<Rightarrow> zend_hash_index_find ht h)
     (\<lambda>r. Inr (map_option (\<lambda>i. b_val (arData ht ! i)) r)))"

definition del_key :: "hkey \<Rightarrow> 'v env \<times> 'v HashTable \<Rightarrow> (bool \<times> 'v env \<times> 'v HashTable) res" where
  "del_key k = (\<lambda>(e, ht). case k of SKey s \<Rightarrow> zend_hash_str_del e ht s | IKey h \<Rightarrow> zend_hash_index_del e ht h)"

lemma stored_store_inv:
  assumes inv: "store_inv nm sl (Suc n) (e, ht)" and st: "stored e ht k a v lg r" and ref: "\<forall>(p, b) \<in> key_ref k a. b = nm p"
  shows "store_inv nm sl n (snd r)" "store_entries (snd r) = assoc_put k v (entries ht)"
proof -
  obtain z e' ht' where r: "r = (z, e', ht')" by (cases r) auto
  from st have s: "ht_inv ht'" "entries ht' = assoc_put k v (entries ht)" "grows ht ht'"
    "key_refs ht' \<subseteq> key_ref k a \<union> key_refs ht" "static_ok ht \<longrightarrow> static_ok ht'"
    "e_slots e' = e_slots e" by (auto simp: stored_def r)
  have nm: "\<forall>(p, b) \<in> key_refs ht. b = nm p" using inv by (simp add: store_inv_def named_def)
  have "named nm ht'"
    unfolding named_def using subsetD [OF s(4)] bspec [OF ref] bspec [OF nm] by blast
  moreover have "capacity n ht'"
  proof (rule capacity_grows [OF _ _ s(1,3)])
    show "capacity (Suc n) ht" "ht_inv ht" using inv by (simp_all add: store_inv_def)
    show "length (entries ht') \<le> Suc (length (entries ht))" by (simp add: s(2) length_assoc_put)
    show "entries ht' \<noteq> []" using s(2) set_keys_assoc_put [of k v "entries ht"] by (metis empty_iff image_empty insertI1 list.set(1))
  qed
  ultimately show "store_inv nm sl n (snd r)" "store_entries (snd r) = assoc_put k v (entries ht)"
    using s inv by (simp_all add: store_inv_def store_entries_def r)
qed

lemma apply_ctor_stored:
  assumes st: "stored e ht k a v lg (z, e', ht')" and f: "f v \<noteq> IS_UNDEF"
  shows "\<exists>i. z = Some (AtBucket i) \<and> stored e ht k a (f v) lg (z, e', upd_bucket i (\<lambda>p. p\<lparr>b_val := f (b_val p)\<rparr>) ht')"
proof -
  from st obtain i where z: "z = Some (AtBucket i)" and l: "locate ht' k = Some i" "b_val (arData ht' ! i) = v"
    and s: "ht_inv ht'" "entries ht' = assoc_put k v (entries ht)" "e_log e' = e_log e @ lg"
    "e_slots e' = e_slots e" "pDestructor ht' = pDestructor ht" "ht_addr ht' = ht_addr ht" "grows ht ht'"
    "key_refs ht' \<subseteq> key_ref k a \<union> key_refs ht" "static_ok ht \<longrightarrow> static_ok ht'"
    by (auto simp: stored_def)
  have i: "i < length (arData ht')" using locate_Some(1) [OF l(1)] ht_inv_used [OF s(1)] by simp
  have u: "upd_bucket i (\<lambda>p. p\<lparr>b_val := f (b_val p)\<rparr>) ht' = upd_bucket i (\<lambda>p. p\<lparr>b_val := f v\<rparr>) ht'"
    using l(2) by (simp add: upd_bucket_def)
  have o: "stored e' ht' k a (f v) (dtor_log ht' v) (overwrite e' ht' (AtBucket i) (f v))"
    using stored_overwrite [OF s(1) l(1) f, of e' a] l(2) by simp
  let ?ht = "upd_bucket i (\<lambda>p. p\<lparr>b_val := f v\<rparr>) ht'"
  have "locate ?ht k = Some i" "b_val (arData ?ht ! i) = f v" "ht_inv ?ht" "entries ?ht = assoc_put k (f v) (entries ht')"
    "pDestructor ?ht = pDestructor ht'" "ht_addr ?ht = ht_addr ht'" "grows ht' ?ht" "key_refs ?ht \<subseteq> key_ref k a \<union> key_refs ht'"
    "static_ok ht' \<longrightarrow> static_ok ?ht"
    using o by (auto simp: stored_def overwrite_def)
  moreover have "grows ht ?ht" using s(7) by (simp add: grows_def upd_bucket_def)
  ultimately have "stored e ht k a (f v) lg (z, e', ?ht)" using s z by (auto simp: stored_def)
  with u z show ?thesis by auto
qed

subsection \<open>The interfaces hold\<close>

definition item_val :: "'v copy_ctor \<Rightarrow> 'v item \<Rightarrow> 'v zval" where
  "item_val ctor x = (case ctor of None \<Rightarrow> fst x | Some f \<Rightarrow> f (fst x))"

text \<open>A constructor never turns a value into an undefined one.\<close>

definition ctor_ok :: "'v copy_ctor \<Rightarrow> bool" where
  "ctor_ok ctor = (case ctor of None \<Rightarrow> True | Some f \<Rightarrow> \<forall>v. f v = IS_UNDEF \<longrightarrow> v = IS_UNDEF)"

lemma ctor_store_inv:
  assumes inv: "store_inv nm sl (Suc n) (e, ht)" and st: "stored e ht k a v lg r" and v: "v \<noteq> IS_UNDEF"
    and ref: "\<forall>(p, b) \<in> key_ref k a. b = nm p" and c: "ctor_ok ctor"
  shows "store_inv nm sl n (apply_copy_ctor ctor r)"
    "store_entries (apply_copy_ctor ctor r) = assoc_put k (item_val ctor (v, h, q)) (entries ht)"
proof -
  obtain z e' ht' where r: "r = (z, e', ht')" by (cases r) auto
  have "store_inv nm sl n (apply_copy_ctor ctor r) \<and>
      store_entries (apply_copy_ctor ctor r) = assoc_put k (item_val ctor (v, h, q)) (entries ht)"
  proof (cases ctor)
    case None
    with stored_store_inv [OF inv st ref] show ?thesis
      by (simp add: apply_copy_ctor_def item_val_def r)
  next
    case (Some f)
    have f: "f v \<noteq> IS_UNDEF" using c v Some by (auto simp: ctor_ok_def)
    from apply_ctor_stored [where f = f, OF st [unfolded r] f] obtain i where i: "z = Some (AtBucket i)"
      and st': "stored e ht k a (f v) lg (z, e', upd_bucket i (\<lambda>p. p\<lparr>b_val := f (b_val p)\<rparr>) ht')" by blast
    from stored_store_inv [OF inv st' ref] show ?thesis
      by (simp add: apply_copy_ctor_def item_val_def r i Some)
  qed
  then show "store_inv nm sl n (apply_copy_ctor ctor r)"
    "store_entries (apply_copy_ctor ctor r) = assoc_put k (item_val ctor (v, h, q)) (entries ht)" by simp_all
qed

lemma copy_entry_ok:
  assumes inv: "store_inv nm sl (Suc n) s" and x: "item_fits nm x" and c: "ctor_ok ctor"
  shows "\<exists>s'. copy_entry ctor x s = Inr s' \<and> store_inv nm sl n s' \<and>
    store_entries s' = assoc_put (item_key x) (item_val ctor x) (store_entries s)"
proof -
  obtain e ht where s: "s = (e, ht)" by (cases s)
  obtain v h q where xx: "x = (v, h, q)" by (cases x)
  note i = inv [unfolded s]
  have ht: "ht_inv ht" "named nm ht" "nTableSize ht < 2 ^ 30"
    using inv capacity_size by (auto simp: s store_inv_def)
  have v: "v \<noteq> IS_UNDEF" using x by (simp add: xx item_fits_def)
  show ?thesis
  proof (cases q)
    case None
    from index_update_ok [OF ht(1,3) v, of e h] obtain r lg where r: "zend_hash_index_update e ht h v = Inr r"
      "stored e ht (IKey h) 0 v lg r" by blast
    have "\<forall>(p, b) \<in> key_ref (IKey h) 0. b = nm p" by simp
    from ctor_store_inv [OF i r(2) v this c] r(1) None show ?thesis
      by (simp add: copy_entry_def s xx item_key_def store_entries_def)
  next
    case (Some key)
    have kf: "key_fits nm key" using x Some by (simp add: xx item_fits_def)
    have "good_key ht key" by (rule named_good_key(1) [OF ht(1,2) kf])
    from hash_update_ok [OF ht(1,3) this v, of e] obtain r lg where r: "zend_hash_update e ht key v = Inr r"
      "stored e ht (SKey (zs_val key)) (zs_ptr key) v lg r" by blast
    have "\<forall>(p, b) \<in> key_ref (SKey (zs_val key)) (zs_ptr key). b = nm p" using kf by (simp add: key_fits_def)
    from ctor_store_inv [OF i r(2) v this c] r(1) Some kf show ?thesis
      by (simp add: copy_entry_def s xx item_key_def store_entries_def key_fits_def)
  qed
qed

lemma get_key_ok:
  assumes "store_inv nm sl n s" shows "get_key k s = Inr (map_of (store_entries s) k)"
proof -
  obtain e ht where s: "s = (e, ht)" by (cases s)
  have inv: "ht_inv ht" using assms by (simp add: s store_inv_def)
  show ?thesis
    using str_find_bucket_ok [OF inv] index_find_ok [OF inv] map_of_locate [OF inv, of k]
    by (cases k) (simp_all add: s get_key_def store_entries_def zend_hash_str_find_def zend_hash_func_def)
qed

lemma del_key_ok:
  assumes "store_inv nm sl n s"
  shows "\<exists>s'. del_key k s = Inr (k \<in> fst ` set (store_entries s), s') \<and> store_inv nm sl n s' \<and>
    store_entries s' = assoc_del k (store_entries s)"
proof -
  obtain e ht where s: "s = (e, ht)" by (cases s)
  have inv: "ht_inv ht" "static_ok ht" "named nm ht" "capacity n ht" "e_slots e = sl" using assms by (simp_all add: s store_inv_def)
  have o: "del_outcome e ht k (del_key k s)"
    using hash_str_del_ok [OF inv(1), of e] hash_index_del_ok [OF inv(1), of e]
    by (cases k) (simp_all add: s del_key_def)
  show ?thesis
  proof (cases "locate ht k")
    case None
    then have "k \<notin> fst ` set (entries ht)" by (simp add: key_in_keys [OF inv(1)])
    with o None assms show ?thesis
      by (simp add: del_outcome_def s store_entries_def assoc_del_id)
  next
    case (Some i)
    with o obtain e' ht' where r: "del_key k s = Inr (True, e', ht')" and d: "deleted e ht k i (e', ht')"
      by (auto simp: del_outcome_def)
    from d have d': "ht_inv ht'" "entries ht' = assoc_del k (entries ht)" "nTableSize ht' = nTableSize ht"
      "ht_packed ht' = ht_packed ht" "ht_initialized ht' = ht_initialized ht" "key_refs ht' \<subseteq> key_refs ht" "static_ok ht'"
      "e_slots e' = e_slots e" using inv(2) by (auto simp: deleted_def)
    have "nNumOfElements ht' + n \<le> nNumOfElements ht + n"
      using elements_entries [OF inv(1)] elements_entries [OF d'(1)] d'(2) length_assoc_del_le by simp
    then have "capacity n ht'" by (rule capacity_less [OF inv(4) d'(3-5)])
    moreover have "named nm ht'" using inv(3) d'(6) unfolding named_def by blast
    moreover have "k \<in> fst ` set (entries ht)" using Some by (simp add: key_in_keys [OF inv(1)])
    ultimately show ?thesis using r d' inv(5) by (simp add: s store_inv_def store_entries_def)
  qed
qed

interpretation copy: simulation "store_inv nm sl" store_entries "copy_entry ctor"
  "\<lambda>x. assoc_put (item_key x) (item_val ctor x)" "\<lambda>x. item_fits nm x \<and> ctor_ok ctor" for nm sl ctor
  by unfold_locales (blast intro: copy_entry_ok)

interpretation store: keyed_store "store_inv nm sl" store_entries "copy_entry ctor" item_key "item_val ctor"
  "\<lambda>x. item_fits nm x \<and> ctor_ok ctor" get_key del_key for nm sl ctor
  by unfold_locales (blast intro: get_key_ok del_key_ok)+

subsection \<open>Copying a table\<close>

text \<open>What \<open>zend_hash_copy\<close> takes from a bucket of the source.\<close>

definition copy_item :: "(nat \<Rightarrow> 'v zval) \<Rightarrow> 'v bucket \<Rightarrow> 'v item option" where
  "copy_item sl p =
     (if Z_ISUNDEF p then None
      else case b_val p of
          IS_INDIRECT a \<Rightarrow> (if sl a = IS_UNDEF then None else Some (sl a, b_h p, b_key p))
        | v \<Rightarrow> Some (v, b_h p, b_key p))"

definition opt_fits :: "(nat \<Rightarrow> bytes) \<Rightarrow> 'v item option \<Rightarrow> bool" where
  "opt_fits nm x = (case x of None \<Rightarrow> True | Some x \<Rightarrow> item_fits nm x)"

definition put_item :: "'v copy_ctor \<Rightarrow> 'v item option \<Rightarrow> (hkey \<times> 'v zval) list \<Rightarrow> (hkey \<times> 'v zval) list" where
  "put_item ctor x = (case x of None \<Rightarrow> id | Some x \<Rightarrow> assoc_put (item_key x) (item_val ctor x))"

lemma store_inv_less: "store_inv nm sl (Suc n) s \<Longrightarrow> store_inv nm sl n s"
  by (cases s) (simp add: store_inv_def capacity_def)

lemma copy_bucket_item:
  "copy_bucket ctor p (e, ht) = (case copy_item (e_slots e) p of None \<Rightarrow> Inr (e, ht) | Some x \<Rightarrow> copy_entry ctor x (e, ht))"
  by (simp add: copy_bucket_def copy_item_def split: zval.split)

interpretation copy_loop: simulation "store_inv nm sl" store_entries "copy_bucket ctor"
  "\<lambda>p. put_item ctor (copy_item sl p)" "\<lambda>p. opt_fits nm (copy_item sl p) \<and> ctor_ok ctor" for nm sl ctor
proof
  fix n and s :: "'a env \<times> 'a HashTable" and p
  assume inv: "store_inv nm sl (Suc n) s" and p: "opt_fits nm (copy_item sl p) \<and> ctor_ok ctor"
  obtain e ht where s: "s = (e, ht)" by (cases s)
  have sl: "e_slots e = sl" using inv by (simp add: s store_inv_def)
  show "\<exists>s'. copy_bucket ctor p s = Inr s' \<and> store_inv nm sl n s' \<and>
      store_entries s' = put_item ctor (copy_item sl p) (store_entries s)"
  proof (cases "copy_item sl p")
    case None
    then show ?thesis using store_inv_less [OF inv] by (simp add: s copy_bucket_item sl put_item_def)
  next
    case (Some x)
    then have "item_fits nm x" "ctor_ok ctor" using p by (simp_all add: opt_fits_def)
    from copy_entry_ok [OF inv this] show ?thesis
      using Some by (simp add: s copy_bucket_item sl put_item_def)
  qed
qed

text \<open>The items of a table, and the entries they make.\<close>

definition copy_items :: "(nat \<Rightarrow> 'v zval) \<Rightarrow> 'v HashTable \<Rightarrow> 'v item list" where
  "copy_items sl ht = List.map_filter (copy_item sl) (take (nNumUsed ht) (arData ht))"

definition item_entries :: "'v copy_ctor \<Rightarrow> 'v item list \<Rightarrow> (hkey \<times> 'v zval) list" where
  "item_entries ctor xs = map (\<lambda>x. (item_key x, item_val ctor x)) xs"

lemma fold_put_item:
  "fold (\<lambda>p. put_item ctor (f p)) ps es = put_list (item_entries ctor (List.map_filter f ps)) es"
  by (induction ps arbitrary: es)
    (simp_all add: put_item_def item_entries_def List.map_filter_simps split: option.split)

definition source_ok :: "(nat \<Rightarrow> bytes) \<Rightarrow> (nat \<Rightarrow> 'v zval) \<Rightarrow> 'v HashTable \<Rightarrow> bool" where
  "source_ok nm sl source = (\<forall>x \<in> set (copy_items sl source). item_fits nm x)"

lemma source_fits:
  assumes "source_ok nm sl source" "p \<in> set (take (nNumUsed source) (arData source))"
  shows "opt_fits nm (copy_item sl p)"
proof (cases "copy_item sl p")
  case (Some x)
  with assms(2) have "x \<in> set (copy_items sl source)"
    unfolding copy_items_def List.map_filter_def set_map by (cases x) (intro image_eqI [where x = p], simp_all)
  with assms(1) Some show ?thesis by (simp add: source_ok_def opt_fits_def)
qed (simp add: opt_fits_def)

lemma hash_copy_ok:
  assumes inv: "store_inv nm (e_slots e) (nNumUsed source) (e, target)" and src: "source_ok nm (e_slots e) source"
    and c: "ctor_ok ctor"
  shows "\<exists>e' target'. zend_hash_copy e target source ctor = Inr (e', target') \<and> ht_inv target' \<and>
    entries target' = put_list (item_entries ctor (copy_items (e_slots e) source)) (entries target)"
proof -
  let ?ps = "take (nNumUsed source) (arData source)"
  have "store_inv nm (e_slots e) (length ?ps + (nNumUsed source - length ?ps)) (e, target)" using inv by simp
  moreover have "\<forall>p \<in> set ?ps. opt_fits nm (copy_item (e_slots e) p) \<and> ctor_ok ctor"
    using source_fits [OF src] c by blast
  ultimately obtain s' where s': "zend_hash_copy e target source ctor = Inr s'"
    "store_inv nm (e_slots e) (nNumUsed source - length ?ps) s'"
    "store_entries s' = fold (\<lambda>p. put_item ctor (copy_item (e_slots e) p)) ?ps (store_entries (e, target))"
    unfolding zend_hash_copy_def using copy_loop.loop_ok by blast
  then show ?thesis
    by (cases s') (simp add: store_inv_def store_entries_def fold_put_item copy_items_def)
qed

text \<open>A table that holds its values itself is copied entry by entry.\<close>

definition direct :: "(hkey \<times> 'v zval) list \<Rightarrow> bool" where
  "direct es = (\<forall>(k, v) \<in> set es. \<forall>a. v \<noteq> IS_INDIRECT a)"

lemma direct_content: "direct (entries ht) \<Longrightarrow> (v, h, k) \<in> set (content ht) \<Longrightarrow> v \<noteq> IS_INDIRECT a"
  by (force simp: direct_def entries_content)

lemma copy_items_content:
  assumes "direct (entries ht)" shows "copy_items sl ht = content ht"
proof -
  have "map (the \<circ> copy_item sl) (filter (\<lambda>p. copy_item sl p \<noteq> None) ps) = map strip (filter live ps)"
    if "\<forall>p \<in> set ps. \<forall>a. live p \<longrightarrow> b_val p \<noteq> IS_INDIRECT a" for ps :: "'a bucket list"
    using that by (induction ps) (auto simp: copy_item_def strip_def Z_ISUNDEF_def split: zval.splits)
  moreover have "\<forall>p \<in> set (take (nNumUsed ht) (arData ht)). \<forall>a. live p \<longrightarrow> b_val p \<noteq> IS_INDIRECT a"
  proof (intro ballI allI impI)
    fix p a assume "p \<in> set (take (nNumUsed ht) (arData ht))" "live p"
    then have "(b_val p, b_h p, b_key p) \<in> set (content ht)"
      by (auto simp: content_def content_upto_def strip_def intro!: rev_image_eqI)
    then show "b_val p \<noteq> IS_INDIRECT a" by (rule direct_content [OF assms])
  qed
  ultimately show ?thesis by (simp add: copy_items_def List.map_filter_def content_def content_upto_def)
qed

lemma content_entries: "item_entries None (content ht) = entries ht"
  by (simp add: item_entries_def entries_content item_key_def item_val_def)
    (metis (no_types, lifting) fst_conv prod.exhaust_sel snd_conv strip_entry.simps)

lemma source_ok_content:
  assumes inv: "ht_inv ht" and nm: "named nm ht" and d: "direct (entries ht)"
  shows "source_ok nm sl ht"
  unfolding source_ok_def copy_items_content [OF d]
proof
  fix x assume "x \<in> set (content ht)"
  then obtain i where i: "i < nNumUsed ht" "live (arData ht ! i)" "x = strip (arData ht ! i)"
    using content_mem [OF ht_inv_used [OF inv]] by blast
  have key: "key_ok (arData ht ! i)" using ht_inv_base [OF inv] i by (simp add: base_ok_def)
  have ref: "(zs_ptr s, zs_val s) \<in> key_refs ht" if "b_key (arData ht ! i) = Some s" for s
    using key_refs_mem [OF ht_inv_used [OF inv]] i that by blast
  show "item_fits nm x"
    using i key ref nm
    by (auto simp: item_fits_def strip_def Z_ISUNDEF_def key_ok_def key_fits_def zs_ok_def named_def zend_hash_func_nonzero
        split: option.splits)
qed

subsection \<open>Merging tables\<close>

text \<open>
  A string key whose value in the target is an indirect one stands for the slot the value points to.
  \<open>merge_step\<close> is what a merge does to the entries of the target and to the slots for one entry of
  the source: an indirect value with an undefined slot is no element; a slot is filled if it is
  undefined or the source wins; else the entry is put or kept.
\<close>

definition assoc_merge :: "bool \<Rightarrow> 'k \<Rightarrow> 'v \<Rightarrow> ('k \<times> 'v) list \<Rightarrow> ('k \<times> 'v) list" where
  "assoc_merge over k v xs = (if \<not> over \<and> k \<in> fst ` set xs then xs else assoc_put k v xs)"

definition constructed :: "'v copy_ctor \<Rightarrow> 'v zval \<Rightarrow> 'v zval" where
  "constructed ctor v = (case ctor of None \<Rightarrow> v | Some f \<Rightarrow> f v)"

definition empty_slot :: "(nat \<Rightarrow> 'v zval) \<Rightarrow> 'v zval \<Rightarrow> bool" where
  "empty_slot sl v = (case v of IS_INDIRECT a \<Rightarrow> sl a = IS_UNDEF | _ \<Rightarrow> False)"

definition slot_for :: "(hkey \<times> 'v zval) list \<Rightarrow> hkey \<Rightarrow> nat option" where
  "slot_for es k = (case k of IKey h \<Rightarrow> None | SKey s \<Rightarrow> (case map_of es k of Some (IS_INDIRECT a) \<Rightarrow> Some a | _ \<Rightarrow> None))"

definition merge_step :: "'v copy_ctor \<Rightarrow> bool \<Rightarrow> hkey \<times> 'v zval \<Rightarrow>
    (hkey \<times> 'v zval) list \<times> (nat \<Rightarrow> 'v zval) \<Rightarrow> (hkey \<times> 'v zval) list \<times> (nat \<Rightarrow> 'v zval)" where
  "merge_step ctor over = (\<lambda>(k, v) (es, sl).
     (if empty_slot sl v then (es, sl)
      else case slot_for es k of
          Some a \<Rightarrow> (es, if over \<or> sl a = IS_UNDEF then sl(a := constructed ctor v) else sl)
        | None \<Rightarrow> (assoc_merge over k (constructed ctor v) es, sl)))"

definition merge_inv :: "(nat \<Rightarrow> bytes) \<Rightarrow> nat \<Rightarrow> 'v env \<times> 'v HashTable \<Rightarrow> bool" where
  "merge_inv nm n s = store_inv nm (e_slots (fst s)) n s"

definition merge_view :: "'v env \<times> 'v HashTable \<Rightarrow> (hkey \<times> 'v zval) list \<times> (nat \<Rightarrow> 'v zval)" where
  "merge_view s = (entries (snd s), e_slots (fst s))"

definition merge_fits :: "(nat \<Rightarrow> bytes) \<Rightarrow> 'v copy_ctor \<Rightarrow> 'v bucket \<Rightarrow> bool" where
  "merge_fits nm ctor p = (ctor_ok ctor \<and> (live p \<longrightarrow> item_fits nm (b_val p, b_h p, b_key p)))"

lemma merge_string_ok:
  fixes over :: bool
  assumes inv: "ht_inv ht" and sz: "nTableSize ht < 2 ^ 30" and key: "good_key ht key" and v: "v \<noteq> IS_UNDEF"
  defines "k \<equiv> SKey (zs_val key)" and "flag \<equiv> (if over then HASH_UPDATE else HASH_ADD) OR HASH_UPDATE_INDIRECT"
  shows "zend_hash_add_or_update_i e ht key v flag = Inr res \<Longrightarrow>
    (case slot_for (entries ht) k of
       Some a \<Rightarrow> res = (if over \<or> e_slots e a = IS_UNDEF then overwrite e ht (AtSlot a) v else (None, e, ht))
     | None \<Rightarrow> if \<not> over \<and> k \<in> fst ` set (entries ht) then res = (None, e, ht)
        else \<exists>lg. stored e ht k (zs_ptr key) v lg res)" (is "_ \<Longrightarrow> ?P res")
    "\<exists>res. zend_hash_add_or_update_i e ht key v flag = Inr res"
proof -
  have "\<exists>res. zend_hash_add_or_update_i e ht key v flag = Inr res \<and> ?P res"
  proof (cases "locate ht k")
    case None
    then have n: "k \<notin> fst ` set (entries ht)" by (simp add: key_in_keys [OF inv])
    then have "slot_for (entries ht) k = None" by (simp add: slot_for_def k_def map_of_eq_None_iff [THEN iffD2])
    moreover obtain r where "zend_hash_add_or_update_i e ht key v flag = Inr r" "stored e ht k (zs_ptr key) v (key_log key) r"
      using add_new_string [OF inv sz key v None [unfolded k_def], of e flag] unfolding k_def by blast
    ultimately show ?thesis using n by (intro exI [of _ r]) auto
  next
    case (Some i)
    have fl: "flag AND HASH_ADD_NEW = 0" by (simp add: hash_flags flag_def)
    have m: "map_of (entries ht) k = Some (b_val (arData ht ! i))" "k \<in> fst ` set (entries ht)"
      using map_of_locate [OF inv, of k] Some by (simp_all add: key_in_keys [OF inv])
    have o: "zend_hash_add_or_update_i e ht key v flag = Inr (update_existing e ht i v flag)"
      by (rule add_old_string [OF inv key Some [unfolded k_def] fl])
    show ?thesis
    proof (cases "\<exists>a. b_val (arData ht ! i) = IS_INDIRECT a")
      case True
      then obtain a where a: "b_val (arData ht ! i) = IS_INDIRECT a" by blast
      then have "slot_for (entries ht) k = Some a" using m(1) by (simp add: slot_for_def k_def)
      moreover have "update_existing e ht i v flag =
          (if over \<or> e_slots e a = IS_UNDEF then overwrite e ht (AtSlot a) v else (None, e, ht))"
        by (simp add: update_existing_def hash_flags flag_def a)
      ultimately show ?thesis using o by simp
    next
      case False
      then have "slot_for (entries ht) k = None" using m(1) by (simp add: slot_for_def k_def split: zval.split)
      moreover have "update_existing e ht i v flag = (if over then overwrite e ht (AtBucket i) v else (None, e, ht))"
        using False by (auto simp: update_existing_def hash_flags flag_def split: zval.splits)
      ultimately show ?thesis using o m(2) stored_overwrite [OF inv Some v, of e "zs_ptr key"] by auto
    qed
  qed
  then show "zend_hash_add_or_update_i e ht key v flag = Inr res \<Longrightarrow> ?P res"
    "\<exists>res. zend_hash_add_or_update_i e ht key v flag = Inr res" by auto
qed

lemma merge_index_ok:
  assumes inv: "ht_inv ht" and sz: "nTableSize ht < 2 ^ 30" and v: "v \<noteq> IS_UNDEF"
  shows "\<exists>res. (if over then zend_hash_index_update e ht h v else zend_hash_index_add e ht h v) = Inr res \<and>
    (if \<not> over \<and> IKey h \<in> fst ` set (entries ht) then res = (None, e, ht) else \<exists>lg. stored e ht (IKey h) 0 v lg res)"
proof (cases over)
  case True
  from index_update_ok [OF assms, of e h] obtain r where
    "zend_hash_index_update e ht h v = Inr r" "stored e ht (IKey h) 0 v (update_log ht (IKey h) []) r" by blast
  with True show ?thesis by auto
next
  case False
  show ?thesis
  proof (cases "IKey h \<in> fst ` set (entries ht)")
    case True
    with False index_add_ok [OF assms, of h e] show ?thesis by simp
  next
    case new: False
    with index_add_ok [OF assms, of h e] obtain r where "zend_hash_index_add e ht h v = Inr r" "stored e ht (IKey h) 0 v [] r"
      by (auto simp del: split_paired_Ex)
    with False new show ?thesis by auto
  qed
qed

lemma merge_entry_ok:
  assumes inv: "merge_inv nm (Suc n) s" and x: "item_fits nm (v, h, q)" and c: "ctor_ok ctor"
  shows "\<exists>s'. merge_entry ctor over (v, h, q) s = Inr s' \<and> merge_inv nm n s' \<and>
    merge_view s' = (let (es, sl) = merge_view s; k = item_key (v, h, q)
      in case slot_for es k of
          Some a \<Rightarrow> (es, if over \<or> sl a = IS_UNDEF then sl(a := constructed ctor v) else sl)
        | None \<Rightarrow> (assoc_merge over k (constructed ctor v) es, sl))"
proof -
  obtain e ht where s: "s = (e, ht)" by (cases s)
  have i: "store_inv nm (e_slots e) (Suc n) (e, ht)" using inv by (simp add: merge_inv_def s)
  have ht: "ht_inv ht" "named nm ht" "nTableSize ht < 2 ^ 30"
    using i capacity_size by (auto simp: store_inv_def)
  have v: "v \<noteq> IS_UNDEF" using x by (simp add: item_fits_def)
  define k where "k = item_key (v, h, q)"
  define a where "a = (case q of None \<Rightarrow> 0 | Some key \<Rightarrow> zs_ptr key)"
  define ins where "ins = (case q of
              Some key \<Rightarrow> zend_hash_add_or_update_i e ht key v
                ((if over then HASH_UPDATE else HASH_ADD) OR HASH_UPDATE_INDIRECT)
            | None \<Rightarrow> (if over then zend_hash_index_update e ht h v else zend_hash_index_add e ht h v))"
  have ref: "\<forall>(p, b) \<in> key_ref k a. b = nm p"
    using x by (auto simp: k_def a_def item_key_def item_fits_def key_fits_def split: option.splits)
  obtain res where r: "ins = Inr res" and o: "case slot_for (entries ht) k of
       Some a \<Rightarrow> res = (if over \<or> e_slots e a = IS_UNDEF then overwrite e ht (AtSlot a) v else (None, e, ht))
     | None \<Rightarrow> if \<not> over \<and> k \<in> fst ` set (entries ht) then res = (None, e, ht) else \<exists>lg. stored e ht k a v lg res"
  proof (cases q)
    case None
    then have "k = IKey h" "a = 0" by (simp_all add: k_def a_def item_key_def)
    moreover from this have "slot_for (entries ht) k = None" by (simp add: slot_for_def)
    ultimately show thesis using that merge_index_ok [OF ht(1,3) v, of over e h] None by (auto simp: ins_def)
  next
    case (Some key)
    have "key_fits nm key" using x Some by (simp add: item_fits_def)
    then have g: "good_key ht key" by (rule named_good_key(1) [OF ht(1,2)])
    have k: "k = SKey (zs_val key)" "a = zs_ptr key" using Some by (simp_all add: k_def a_def item_key_def)
    obtain res where a: "zend_hash_add_or_update_i e ht key v ((if over then HASH_UPDATE else HASH_ADD) OR HASH_UPDATE_INDIRECT) = Inr res"
      using merge_string_ok(2) [OF ht(1,3) g v] by blast
    show thesis
      by (rule that [of res, rotated -1, OF merge_string_ok(1) [OF ht(1,3) g v a, folded k]]) (use a in \<open>simp add: ins_def Some\<close>)
  qed
  have m: "merge_entry ctor over (v, h, q) s = Inr (apply_copy_ctor ctor res)"
    using r by (simp add: merge_entry_def s ins_def)
  have less: "merge_inv nm n (e, ht)" using store_inv_less [OF i] by (simp add: merge_inv_def)
  have kept: "apply_copy_ctor ctor (None, e, ht) = (e, ht)" by (simp add: apply_copy_ctor_def split: option.split)
  show ?thesis
  proof (cases "slot_for (entries ht) k")
    case None
    show ?thesis
    proof (cases "\<not> over \<and> k \<in> fst ` set (entries ht)")
      case True
      then have "res = (None, e, ht)" using o None by simp
      then show ?thesis using m less True None by (simp add: kept merge_view_def s assoc_merge_def k_def Let_def)
    next
      case False
      then obtain lg where st: "stored e ht k a v lg res" using o None by auto
      note cs = ctor_store_inv [OF i st v ref c]
      have sl: "e_slots (fst (apply_copy_ctor ctor res)) = e_slots e" using cs(1) by (cases "apply_copy_ctor ctor res") (simp add: store_inv_def)
      have "merge_inv nm n (apply_copy_ctor ctor res)" using cs(1) sl by (simp add: merge_inv_def)
      moreover have "entries (snd (apply_copy_ctor ctor res)) = assoc_put k (constructed ctor v) (entries ht)"
        using cs(2) [of h q] by (cases "apply_copy_ctor ctor res") (simp add: store_entries_def item_val_def constructed_def split: option.splits)
      ultimately show ?thesis using m sl False None by (auto simp: merge_view_def s assoc_merge_def k_def [symmetric] Let_def)
    qed
  next
    case (Some b)
    show ?thesis
    proof (cases "over \<or> e_slots e b = IS_UNDEF")
      case True
      then have "res = overwrite e ht (AtSlot b) v" using o Some by simp
      then have "snd (apply_copy_ctor ctor res) = ht \<and> e_slots (fst (apply_copy_ctor ctor res)) = (e_slots e)(b := constructed ctor v)"
        by (cases ctor) (simp_all add: overwrite_def apply_copy_ctor_def constructed_def)
      then obtain e' where e': "apply_copy_ctor ctor res = (e', ht)" "e_slots e' = (e_slots e)(b := constructed ctor v)"
        by (metis prod.collapse)
      have "merge_inv nm n (e', ht)" using less by (simp add: merge_inv_def store_inv_def)
      then show ?thesis using m e' True Some by (simp add: merge_view_def s k_def [symmetric] Let_def)
    next
      case False
      then have "res = (None, e, ht)" using o Some by simp
      then show ?thesis using m less False Some by (simp add: kept merge_view_def s k_def [symmetric] Let_def)
    qed
  qed
qed

interpretation merge_loop: simulation "merge_inv nm" merge_view "merge_bucket ctor over"
  "\<lambda>p. if live p then merge_step ctor over (entry_of p) else id" "merge_fits nm ctor" for nm ctor over
proof
  fix n and s :: "'a env \<times> 'a HashTable" and p
  assume inv: "merge_inv nm (Suc n) s" and p: "merge_fits nm ctor p"
  obtain e ht where s: "s = (e, ht)" by (cases s)
  have less: "merge_inv nm n s" using inv by (simp add: merge_inv_def store_inv_less)
  show "\<exists>s'. merge_bucket ctor over p s = Inr s' \<and> merge_inv nm n s' \<and>
      merge_view s' = (if live p then merge_step ctor over (entry_of p) else id) (merge_view s)"
  proof (cases "live p \<and> \<not> empty_slot (e_slots e) (b_val p)")
    case False
    then show ?thesis using less
      by (auto simp: s merge_bucket_def merge_skips_def merge_step_def empty_slot_def merge_view_def entry_of_def split: zval.splits)
  next
    case True
    then have f: "item_fits nm (b_val p, b_h p, b_key p)" "ctor_ok ctor" using p by (simp_all add: merge_fits_def)
    have k: "entry_of p = (item_key (b_val p, b_h p, b_key p), b_val p)"
      by (simp add: entry_of_def key_of_def item_key_def split: option.split)
    have "\<not> merge_skips e p" using True by (simp add: merge_skips_def empty_slot_def split: zval.splits)
    then show ?thesis using merge_entry_ok [OF inv f, of over] True
      by (simp add: s merge_bucket_def merge_step_def k merge_view_def Let_def)
  qed
qed

lemma live_item_fits:
  assumes inv: "ht_inv ht" and nm: "named nm ht" and p: "p \<in> set (take (nNumUsed ht) (arData ht))" "live p"
  shows "item_fits nm (b_val p, b_h p, b_key p)"
proof -
  obtain i where i: "i < nNumUsed ht" "p = arData ht ! i"
    using p(1) ht_inv_used [OF inv] by (auto simp: in_set_conv_nth)
  have key: "key_ok p" using ht_inv_base [OF inv] i p(2) by (simp add: base_ok_def)
  have ref: "(zs_ptr s, zs_val s) \<in> key_refs ht" if "b_key p = Some s" for s
    using key_refs_mem [OF ht_inv_used [OF inv]] i p(2) that by blast
  show ?thesis
    using p(2) key ref nm
    by (auto simp: item_fits_def Z_ISUNDEF_def key_ok_def key_fits_def zs_ok_def named_def zend_hash_func_nonzero
        split: option.splits)
qed

lemma fold_live: "fold (\<lambda>p. if live p then f (entry_of p) else id) ps = fold f (map entry_of (filter live ps))"
  by (induction ps) auto

lemma hash_merge_ok:
  assumes inv: "store_inv nm (e_slots e) (nNumUsed source) (e, target)"
    and src: "ht_inv source" "named nm source" and c: "ctor_ok ctor"
  shows "\<exists>e' target'. zend_hash_merge e target source ctor over = Inr (e', target') \<and> ht_inv target' \<and>
    (entries target', e_slots e') = fold (merge_step ctor over) (entries source) (entries target, e_slots e)"
proof -
  let ?ps = "take (nNumUsed source) (arData source)"
  have "merge_inv nm (length ?ps + (nNumUsed source - length ?ps)) (e, target)" using inv by (simp add: merge_inv_def)
  moreover have "\<forall>p \<in> set ?ps. merge_fits nm ctor p" using live_item_fits [OF src] c by (simp add: merge_fits_def)
  ultimately obtain s' where s': "zend_hash_merge e target source ctor over = Inr s'"
    "merge_inv nm (nNumUsed source - length ?ps) s'"
    "merge_view s' = fold (\<lambda>p. if live p then merge_step ctor over (entry_of p) else id) ?ps (merge_view (e, target))"
    unfolding zend_hash_merge_def using merge_loop.loop_ok by blast
  then show ?thesis
    by (cases s') (simp add: merge_inv_def store_inv_def merge_view_def entries_def entries_upto_def fold_live)
qed

text \<open>Tables without indirect values: with \<open>over\<close> the source wins, else the target.\<close>

definition merge_list :: "bool \<Rightarrow> ('k \<times> 'v) list \<Rightarrow> ('k \<times> 'v) list \<Rightarrow> ('k \<times> 'v) list" where
  "merge_list over ps xs = fold (\<lambda>(k, v). assoc_merge over k v) ps xs"

lemma map_of_assoc_merge:
  "map_of (assoc_merge over k v xs) = (if over then (map_of xs)(k \<mapsto> v) else [k \<mapsto> v] ++ map_of xs)"
  by (auto simp: assoc_merge_def map_of_assoc_put fun_eq_iff map_add_def map_of_eq_None_iff split: option.split)
    (metis map_of_eq_None_iff option.distinct(1))+

lemma map_of_merge_list:
  "map_of (merge_list over ps xs) = (if over then map_of xs ++ map_of (rev ps) else map_of ps ++ map_of xs)"
proof (induction ps arbitrary: xs)
  case (Cons p ps)
  then show ?case
    by (cases p) (auto simp: merge_list_def map_of_assoc_merge map_add_def fun_eq_iff split: option.splits)
qed (simp add: merge_list_def)

definition keeps_direct :: "'v copy_ctor \<Rightarrow> bool" where
  "keeps_direct ctor = (\<forall>v a. constructed ctor v = IS_INDIRECT a \<longrightarrow> v = IS_INDIRECT a)"

lemma direct_put: "direct es \<Longrightarrow> \<forall>a. v \<noteq> IS_INDIRECT a \<Longrightarrow> direct (assoc_put k v es)"
  by (auto simp: direct_def assoc_put_def)

lemma direct_slot: "direct es \<Longrightarrow> slot_for es k = None"
  by (auto simp: slot_for_def direct_def dest!: map_of_SomeD split: hkey.split option.split zval.split)

lemma direct_merge:
  assumes "direct es" "direct ps" "keeps_direct ctor"
  shows "fold (merge_step ctor over) ps (es, sl) = (merge_list over (map (\<lambda>(k, v). (k, constructed ctor v)) ps) es, sl)"
  using assms(1,2)
proof (induction ps arbitrary: es)
  case (Cons p ps)
  obtain k v where p: "p = (k, v)" by (cases p)
  have v: "\<forall>a. v \<noteq> IS_INDIRECT a" "direct ps" using Cons.prems(2) by (auto simp: direct_def p)
  then have "\<forall>a. constructed ctor v \<noteq> IS_INDIRECT a" using assms(3) by (auto simp: keeps_direct_def)
  then have "direct (assoc_merge over k (constructed ctor v) es)"
    using direct_put [OF Cons.prems(1)] Cons.prems(1) by (simp add: assoc_merge_def)
  moreover have "merge_step ctor over (k, v) (es, sl) = (assoc_merge over k (constructed ctor v) es, sl)"
    using v(1) by (simp add: merge_step_def empty_slot_def direct_slot [OF Cons.prems(1)] split: zval.split)
  ultimately show ?case using Cons.IH v(2) by (simp add: p merge_list_def)
qed (simp add: merge_list_def)

lemma map_of_merged:
  assumes "direct es" "direct ps" "keeps_direct ctor" "distinct (map fst ps)"
  shows "map_of (fst (fold (merge_step ctor over) ps (es, sl))) =
    (if over then map_of es ++ (map_option (constructed ctor) \<circ> map_of ps) else (map_option (constructed ctor) \<circ> map_of ps) ++ map_of es)"
proof -
  let ?qs = "map (\<lambda>(k, v). (k, constructed ctor v)) ps"
  have q: "map_of ?qs = map_option (constructed ctor) \<circ> map_of ps" by (simp add: map_of_map)
  have "map fst ?qs = map fst ps" by (induction ps) auto
  then have "distinct (map fst ?qs)" using assms(4) by (simp only:)
  then have "map_of (rev ?qs) = map_of ?qs" using map_of_inject_set [of "rev ?qs" ?qs] by (simp add: rev_map [symmetric])
  then show ?thesis unfolding direct_merge [OF assms(1-3)] fst_conv map_of_merge_list q by simp
qed

end
