(* ===== verification/Zend_Hash_Bulk.thy ===== *)
theory Zend_Hash_Bulk
  imports Zend_Hash_Del_Correct
begin

section \<open>Operations on a whole table (Zend/zend\_hash.c)\<close>

text \<open>
  Destroying and cleaning a table, applying a function to its elements, copying and merging
  tables, and counting elements.  A callback is a function on the value it is given and on a
  state of the caller; it does not change the table behind the loop's back.  \<open>destroy\<close>
  functions return the environment they leave.
\<close>

subsection \<open>Destroying and cleaning\<close>

text \<open>\<open>i_zval_ptr_dtor\<close> does nothing on an undefined value.\<close>

definition i_zval_ptr_dtor :: "'v zval \<Rightarrow> 'v env \<Rightarrow> 'v env" where
  "i_zval_ptr_dtor v e = (if v = IS_UNDEF then e else log_effect (Dtor v) e)"

definition used_buckets :: "'v HashTable \<Rightarrow> 'v bucket list" where
  "used_buckets ht = take (nNumUsed ht) (arData ht)"

text \<open>The loops \<open>do ... while (++p != end)\<close> with the bodies that differ in what they test.\<close>

definition dtor_all :: "'v HashTable \<Rightarrow> 'v env \<Rightarrow> 'v env" where
  "dtor_all ht = fold (\<lambda>p. log_effect (Dtor (b_val p))) (used_buckets ht)"

definition dtor_live :: "'v HashTable \<Rightarrow> 'v env \<Rightarrow> 'v env" where
  "dtor_live ht = fold (\<lambda>p e. if live p then log_effect (Dtor (b_val p)) e else e) (used_buckets ht)"

definition dtor_release_all :: "'v HashTable \<Rightarrow> 'v env \<Rightarrow> 'v env" where
  "dtor_release_all ht =
     fold (\<lambda>p e. release_key p (log_effect (Dtor (b_val p)) e)) (used_buckets ht)"

definition dtor_release_live :: "'v HashTable \<Rightarrow> 'v env \<Rightarrow> 'v env" where
  "dtor_release_live ht =
     fold (\<lambda>p e. if live p then release_key p (log_effect (Dtor (b_val p)) e) else e) (used_buckets ht)"

definition release_all :: "'v HashTable \<Rightarrow> 'v env \<Rightarrow> 'v env" where
  "release_all ht = fold release_key (used_buckets ht)"

definition release_live :: "'v HashTable \<Rightarrow> 'v env \<Rightarrow> 'v env" where
  "release_live ht = fold (\<lambda>p e. if live p then release_key p e else e) (used_buckets ht)"

text \<open>With a destructor: the four loops \<open>zend_hash_destroy\<close> and \<open>zend_hash_clean\<close> share.\<close>

definition destroy_values :: "'v HashTable \<Rightarrow> 'v env \<Rightarrow> 'v env" where
  "destroy_values ht =
     (if HT_HAS_STATIC_KEYS_ONLY ht then (if HT_IS_WITHOUT_HOLES ht then dtor_all ht else dtor_live ht)
      else if HT_IS_WITHOUT_HOLES ht then dtor_release_all ht else dtor_release_live ht)"

definition zend_hash_destroy :: "'v env \<Rightarrow> 'v HashTable \<Rightarrow> 'v env" where
  "zend_hash_destroy e ht =
     (if nNumUsed ht \<noteq> 0 then
        (let e = (if pDestructor ht then destroy_values ht e
                  else if \<not> HT_HAS_STATIC_KEYS_ONLY ht then release_live ht e else e);
             e = zend_hash_iterators_remove e ht
         in log_effect Free_data e)
      else if \<not> ht_initialized ht then e
      else log_effect Free_data e)"

text \<open>
  \<open>is_ptr_dtor\<close>: the destructor is \<open>ZVAL_PTR_DTOR\<close>.  The type in the header of the table, which is
  set to \<open>IS_NULL\<close> at the start, is not part of the record.
\<close>

definition zend_array_destroy :: "'v env \<Rightarrow> 'v HashTable \<Rightarrow> bool \<Rightarrow> 'v env" where
  "zend_array_destroy e ht is_ptr_dtor =
     (let e = log_effect Gc_unbuffer e;
          e = (if nNumUsed ht \<noteq> 0 then
                 (if \<not> is_ptr_dtor then zend_hash_destroy e ht
                  else
                    (let e = (if HT_HAS_STATIC_KEYS_ONLY ht
                              then fold (\<lambda>p. i_zval_ptr_dtor (b_val p)) (used_buckets ht) e
                              else if HT_IS_WITHOUT_HOLES ht
                              then fold (\<lambda>p e. release_key p (i_zval_ptr_dtor (b_val p) e)) (used_buckets ht) e
                              else fold (\<lambda>p e. if live p then release_key p (i_zval_ptr_dtor (b_val p) e) else e)
                                     (used_buckets ht) e);
                         e = zend_hash_iterators_remove e ht
                     in log_effect Free_data e))
               else if \<not> ht_initialized ht then e
               else log_effect Free_data e)
      in log_effect Free_table e)"

definition reset_counters :: "'v HashTable \<Rightarrow> 'v HashTable" where
  "reset_counters ht =
     ht\<lparr>nNumUsed := 0, nNumOfElements := 0, nNextFreeElement := 0, nInternalPointer := 0\<rparr>"

definition zend_hash_clean :: "'v env \<Rightarrow> 'v HashTable \<Rightarrow> 'v env \<times> 'v HashTable" where
  "zend_hash_clean e ht =
     (if nNumUsed ht \<noteq> 0 then
        (let e = (if pDestructor ht then destroy_values ht e
                  else if \<not> HT_HAS_STATIC_KEYS_ONLY ht
                  then (if HT_IS_WITHOUT_HOLES ht then release_all ht e else release_live ht e)
                  else e);
             ht = (if \<not> ht_packed ht then HT_HASH_RESET ht else ht)
         in (e, reset_counters ht))
      else (e, reset_counters ht))"

definition zend_symtable_clean :: "'v env \<Rightarrow> 'v HashTable \<Rightarrow> 'v env \<times> 'v HashTable" where
  "zend_symtable_clean e ht =
     (if nNumUsed ht \<noteq> 0 then
        (let e = (if HT_HAS_STATIC_KEYS_ONLY ht
                  then fold (\<lambda>p. i_zval_ptr_dtor (b_val p)) (used_buckets ht) e
                  else if HT_IS_WITHOUT_HOLES ht
                  then fold (\<lambda>p e. release_key p (i_zval_ptr_dtor (b_val p) e)) (used_buckets ht) e
                  else fold (\<lambda>p e. if live p then release_key p (i_zval_ptr_dtor (b_val p) e) else e)
                         (used_buckets ht) e);
             ht = HT_HASH_RESET ht
         in (e, reset_counters ht))
      else (e, reset_counters ht))"

subsection \<open>Deleting every element in turn\<close>

text \<open>
  The loops read \<open>nNumUsed\<close> again in every round.  A deletion never raises it, so the rounds
  are at most as many as it is at the start.
\<close>

lemma unlink_used [simp]: "nNumUsed (unlink_bucket i prev ht) = nNumUsed ht"
  by (simp add: unlink_bucket_def upd_bucket_def HT_HASH_set_def split: option.split)

lemma del_el_ex_used: "nNumUsed (snd (zend_hash_del_el_ex e ht i prev)) \<le> nNumUsed ht"
proof -
  have t: "nNumUsed (trim_last i s) \<le> nNumUsed s" for s :: "'v HashTable"
    using trim_used_spec [of "arData s" "nNumUsed s - 1"]
    by (auto simp: trim_last_def Let_def intro: le_trans)
  define s where "s = (unlink_bucket i prev ht)\<lparr>nNumOfElements := nNumOfElements ht - 1\<rparr>"
  obtain e1 ht1 where l: "leave_position i (e, s) = (e1, ht1)" by fastforce
  have "nNumUsed ht1 = nNumUsed ht"
    using l leave_position_eq [of i e s] by (auto simp: s_def)
  moreover have "nNumOfElements (unlink_bucket i prev ht) = nNumOfElements ht"
    by (simp add: unlink_bucket_def upd_bucket_def HT_HASH_set_def split: option.split)
  then have "nNumUsed (snd (zend_hash_del_el_ex e ht i prev)) = nNumUsed (trim_last i ht1)"
    using l by (simp add: zend_hash_del_el_ex_def s_def Let_def upd_bucket_def)
  ultimately show ?thesis using t [of ht1] by simp
qed

lemma del_el_used:
  assumes "zend_hash_del_el e ht i = Inr (e', ht')"
  shows "nNumUsed ht' \<le> nNumUsed ht"
  using assms del_el_ex_used [of e ht i]
  by (auto simp: zend_hash_del_el_def of_walk_def rbind_def Let_def
      split: if_splits option.splits sum.splits) (metis snd_conv)+

function graceful_loop :: "nat \<Rightarrow> 'v env \<times> 'v HashTable \<Rightarrow> ('v env \<times> 'v HashTable) res" where
  "graceful_loop idx (e, ht) =
     (if idx < nNumUsed ht then
        (if Z_ISUNDEF (arData ht ! idx) then graceful_loop (idx + 1) (e, ht)
         else (case zend_hash_del_el e ht idx of
                 Inl err \<Rightarrow> Inl err | Inr s \<Rightarrow> graceful_loop (idx + 1) s))
      else Inr (e, ht))"
  by pat_completeness auto
termination
  by (relation "measure (\<lambda>(idx, e, ht). nNumUsed ht - idx)") (auto dest!: del_el_used)

declare graceful_loop.simps [simp del]

definition free_data_if_initialized :: "'v env \<times> 'v HashTable \<Rightarrow> 'v env" where
  "free_data_if_initialized = (\<lambda>(e, ht). if ht_initialized ht then log_effect Free_data e else e)"

definition zend_hash_graceful_destroy :: "'v env \<Rightarrow> 'v HashTable \<Rightarrow> 'v env res" where
  "zend_hash_graceful_destroy e ht =
     rbind (graceful_loop 0 (e, ht)) (\<lambda>s. Inr (free_data_if_initialized s))"

fun graceful_reverse_loop :: "nat \<Rightarrow> 'v env \<times> 'v HashTable \<Rightarrow> ('v env \<times> 'v HashTable) res" where
  "graceful_reverse_loop 0 s = Inr s"
| "graceful_reverse_loop (Suc idx) (e, ht) =
     (if Z_ISUNDEF (arData ht ! idx) then graceful_reverse_loop idx (e, ht)
      else rbind (zend_hash_del_el e ht idx) (graceful_reverse_loop idx))"

definition zend_hash_graceful_reverse_destroy :: "'v env \<Rightarrow> 'v HashTable \<Rightarrow> 'v env res" where
  "zend_hash_graceful_reverse_destroy e ht =
     rbind (graceful_reverse_loop (nNumUsed ht) (e, ht)) (\<lambda>s. Inr (free_data_if_initialized s))"

subsection \<open>Applying a function\<close>

definition ZEND_HASH_APPLY_KEEP :: u32 where "ZEND_HASH_APPLY_KEEP = 0"
definition ZEND_HASH_APPLY_REMOVE :: u32 where "ZEND_HASH_APPLY_REMOVE = 1"
definition ZEND_HASH_APPLY_STOP :: u32 where "ZEND_HASH_APPLY_STOP = 2"

lemmas apply_flags [c_defs] = ZEND_HASH_APPLY_KEEP_def ZEND_HASH_APPLY_REMOVE_def ZEND_HASH_APPLY_STOP_def

text \<open>The callback sees the bucket's key and value; it returns its verdict and the value it leaves.\<close>

type_synonym ('v, 'x) apply_func = "'v bucket \<Rightarrow> 'x \<Rightarrow> u32 \<times> 'v zval \<times> 'x"

function apply_loop :: "('v, 'x) apply_func \<Rightarrow> nat \<Rightarrow> 'x \<Rightarrow> 'v env \<times> 'v HashTable \<Rightarrow>
    ('x \<times> 'v env \<times> 'v HashTable) res" where
  "apply_loop f idx x (e, ht) =
     (if idx < nNumUsed ht then
        (if Z_ISUNDEF (arData ht ! idx) then apply_loop f (idx + 1) x (e, ht)
         else
          (case f (arData ht ! idx) x of (result, v, x) \<Rightarrow>
            (case (if result AND ZEND_HASH_APPLY_REMOVE \<noteq> 0
                   then zend_hash_del_el e (upd_bucket idx (\<lambda>p. p\<lparr>b_val := v\<rparr>) ht) idx
                   else Inr (e, upd_bucket idx (\<lambda>p. p\<lparr>b_val := v\<rparr>) ht)) of
               Inl err \<Rightarrow> Inl err
             | Inr s \<Rightarrow> (if result AND ZEND_HASH_APPLY_STOP \<noteq> 0 then Inr (x, s)
                         else apply_loop f (idx + 1) x s))))
      else Inr (x, e, ht))"
  by pat_completeness auto
termination
  by (relation "measure (\<lambda>(f, idx, x, e, ht). nNumUsed ht - idx)")
    (auto dest!: del_el_used simp: upd_bucket_def split: if_splits)

declare apply_loop.simps [simp del]

definition zend_hash_apply ::
    "'v env \<Rightarrow> 'v HashTable \<Rightarrow> ('v zval \<Rightarrow> 'x \<Rightarrow> u32 \<times> 'v zval \<times> 'x) \<Rightarrow> 'x \<Rightarrow> ('x \<times> 'v env \<times> 'v HashTable) res" where
  "zend_hash_apply e ht apply_func x = apply_loop (\<lambda>p. apply_func (b_val p)) 0 x (e, ht)"

definition zend_hash_apply_with_argument ::
    "'v env \<Rightarrow> 'v HashTable \<Rightarrow> ('v zval \<Rightarrow> 'arg \<Rightarrow> 'x \<Rightarrow> u32 \<times> 'v zval \<times> 'x) \<Rightarrow> 'arg \<Rightarrow> 'x \<Rightarrow>
     ('x \<times> 'v env \<times> 'v HashTable) res" where
  "zend_hash_apply_with_argument e ht apply_func argument x =
     apply_loop (\<lambda>p. apply_func (b_val p) argument) 0 x (e, ht)"

text \<open>The variadic form also passes the key of the bucket.\<close>

definition zend_hash_apply_with_arguments ::
    "'v env \<Rightarrow> 'v HashTable \<Rightarrow>
     ('v zval \<Rightarrow> 'args \<Rightarrow> u64 \<times> zend_string option \<Rightarrow> 'x \<Rightarrow> u32 \<times> 'v zval \<times> 'x) \<Rightarrow> 'args \<Rightarrow> 'x \<Rightarrow>
     ('x \<times> 'v env \<times> 'v HashTable) res" where
  "zend_hash_apply_with_arguments e ht apply_func args x =
     apply_loop (\<lambda>p. apply_func (b_val p) args (b_h p, b_key p)) 0 x (e, ht)"

fun reverse_apply_loop :: "('v, 'x) apply_func \<Rightarrow> nat \<Rightarrow> 'x \<Rightarrow> 'v env \<times> 'v HashTable \<Rightarrow>
    ('x \<times> 'v env \<times> 'v HashTable) res" where
  "reverse_apply_loop f 0 x s = Inr (x, s)"
| "reverse_apply_loop f (Suc idx) x (e, ht) =
     (if Z_ISUNDEF (arData ht ! idx) then reverse_apply_loop f idx x (e, ht)
      else
        (case f (arData ht ! idx) x of (result, v, x) \<Rightarrow>
          rbind (if result AND ZEND_HASH_APPLY_REMOVE \<noteq> 0
                 then zend_hash_del_el e (upd_bucket idx (\<lambda>p. p\<lparr>b_val := v\<rparr>) ht) idx
                 else Inr (e, upd_bucket idx (\<lambda>p. p\<lparr>b_val := v\<rparr>) ht))
            (\<lambda>s. if result AND ZEND_HASH_APPLY_STOP \<noteq> 0 then Inr (x, s)
                 else reverse_apply_loop f idx x s)))"

definition zend_hash_reverse_apply ::
    "'v env \<Rightarrow> 'v HashTable \<Rightarrow> ('v zval \<Rightarrow> 'x \<Rightarrow> u32 \<times> 'v zval \<times> 'x) \<Rightarrow> 'x \<Rightarrow> ('x \<times> 'v env \<times> 'v HashTable) res" where
  "zend_hash_reverse_apply e ht apply_func x =
     reverse_apply_loop (\<lambda>p. apply_func (b_val p)) (nNumUsed ht) x (e, ht)"

end
