(* ===== verification/Zend_Hash_Bulk_Correct.thy ===== *)
theory Zend_Hash_Bulk_Correct
  imports Zend_Hash_Bulk
begin

section \<open>Whole-table operations are correct\<close>

text \<open>
  The loops that destroy or clean a table test different things depending on the table's
  flags, but each of them releases every live element exactly once, in bucket order: the
  destructor call on the value, then the release of the key when it is not interned.
  Deleting element after element does the same and leaves no entry.
\<close>

subsection \<open>What the loops write to the log\<close>

definition live_buckets :: "'v HashTable \<Rightarrow> 'v bucket list" where
  "live_buckets ht = filter live (used_buckets ht)"

text \<open>The work owed for one element, and for the whole table.\<close>

definition dispose_log :: "bool \<Rightarrow> 'v bucket \<Rightarrow> 'v effect list" where
  "dispose_log dtor p = (if dtor then [Dtor (b_val p)] else []) @ release_log p"

definition disposed :: "bool \<Rightarrow> 'v HashTable \<Rightarrow> 'v effect list" where
  "disposed dtor ht = concat (map (dispose_log dtor) (live_buckets ht))"

lemma fold_log:
  assumes "\<And>p e. p \<in> set ps \<Longrightarrow> e_log (f p e) = e_log e @ g p"
  shows "e_log (fold f ps e) = e_log e @ concat (map g ps)"
  using assms by (induction ps arbitrary: e) simp_all

lemma concat_map_if: "concat (map (\<lambda>p. if P p then f p else []) ps) = concat (map f (filter P ps))"
  by (induction ps) auto

lemma no_holes:
  assumes "ht_inv ht" "HT_IS_WITHOUT_HOLES ht" "p \<in> set (used_buckets ht)"
  shows "live p"
proof (rule ccontr)
  assume "\<not> live p"
  with assms(3) have "length (filter live (used_buckets ht)) < length (used_buckets ht)"
    by (rule length_filter_less)
  also have "\<dots> \<le> nNumUsed ht" by (simp add: used_buckets_def)
  also have "\<dots> = length (entries ht)"
    using assms(1,2) by (simp add: HT_IS_WITHOUT_HOLES_def ht_inv_def base_ok_def)
  finally show False by (simp add: entries_def entries_upto_def used_buckets_def)
qed

lemma static_release:
  assumes inv: "ht_inv ht" "static_ok ht" and st: "HT_HAS_STATIC_KEYS_ONLY ht" and p: "p \<in> set (used_buckets ht)" "live p"
  shows "release_log p = []"
proof -
  have len: "nNumUsed ht \<le> length (arData ht)" by (rule ht_inv_used [OF inv(1)])
  from p obtain i where i: "i < nNumUsed ht" "p = arData ht ! i"
    using len by (auto simp: used_buckets_def in_set_conv_nth)
  show ?thesis
  proof (cases "ht_packed ht")
    case True
    then have "b_key p = None"
      using inv(1) i p(2) by (auto simp: ht_inv_def packed_ok_def uninit_ok_def split: if_splits)
    then show ?thesis by (simp add: release_log_def)
  next
    case False
    then have "\<forall>s. b_key p = Some s \<longrightarrow> zs_interned s"
      using inv(2) st i p(2) by (simp add: static_ok_mem [OF len] HT_HAS_STATIC_KEYS_ONLY_def)
    then show ?thesis by (simp add: release_log_def split: option.split)
  qed
qed

lemma log_effect_log [simp]: "e_log (log_effect x e) = e_log e @ [x]"
  by (simp add: log_effect_def)

lemma destroy_values_log:
  assumes inv: "ht_inv ht" "static_ok ht"
  shows "e_log (destroy_values ht e) = e_log e @ disposed True ht"
proof -
  let ?ps = "used_buckets ht" and ?d = "\<lambda>p. if live p then dispose_log True p else []"
  have all: "disposed True ht = concat (map ?d ?ps)"
    by (simp add: disposed_def live_buckets_def concat_map_if)
  have l: "e_log (fold f ?ps e) = e_log e @ disposed True ht"
    if "\<And>p e. p \<in> set ?ps \<Longrightarrow> e_log (f p e) = e_log e @ ?d p" for f
    using fold_log [of ?ps f ?d e] that all by simp
  show ?thesis
    unfolding destroy_values_def dtor_all_def dtor_live_def dtor_release_all_def dtor_release_live_def
    using no_holes [OF inv(1)] static_release [OF inv]
    by (auto simp: dispose_log_def intro!: l)
qed

lemma release_values_log:
  assumes inv: "ht_inv ht" "static_ok ht"
  shows "e_log (if \<not> HT_HAS_STATIC_KEYS_ONLY ht
      then (if HT_IS_WITHOUT_HOLES ht then release_all ht e else release_live ht e) else e) = e_log e @ disposed False ht"
    "e_log (if \<not> HT_HAS_STATIC_KEYS_ONLY ht then release_live ht e else e) = e_log e @ disposed False ht"
proof -
  let ?ps = "used_buckets ht" and ?d = "\<lambda>p. if live p then dispose_log False p else []"
  have all: "disposed False ht = concat (map ?d ?ps)"
    by (simp add: disposed_def live_buckets_def concat_map_if)
  have l: "e_log (fold f ?ps e) = e_log e @ disposed False ht"
    if "\<And>p e. p \<in> set ?ps \<Longrightarrow> e_log (f p e) = e_log e @ ?d p" for f
    using fold_log [of ?ps f ?d e] that all by simp
  have none: "disposed False ht = []" if "HT_HAS_STATIC_KEYS_ONLY ht"
    using static_release [OF inv that] by (auto simp: disposed_def live_buckets_def dispose_log_def)
  have live: "e_log (release_live ht e) = e_log e @ disposed False ht"
    unfolding release_live_def by (rule l) (simp add: dispose_log_def)
  moreover have "e_log (release_all ht e) = e_log e @ disposed False ht" if "HT_IS_WITHOUT_HOLES ht"
    unfolding release_all_def by (rule l) (use no_holes [OF inv(1) that] in \<open>simp add: dispose_log_def\<close>)
  ultimately show "e_log (if \<not> HT_HAS_STATIC_KEYS_ONLY ht
      then (if HT_IS_WITHOUT_HOLES ht then release_all ht e else release_live ht e) else e) = e_log e @ disposed False ht"
    "e_log (if \<not> HT_HAS_STATIC_KEYS_ONLY ht then release_live ht e else e) = e_log e @ disposed False ht"
    using none by auto
qed

subsection \<open>zend\_hash\_clean and zend\_hash\_destroy\<close>

lemma disposed_empty: "nNumUsed ht = 0 \<Longrightarrow> disposed dtor ht = []"
  by (simp add: disposed_def live_buckets_def used_buckets_def)

lemma reset_inv:
  assumes inv: "ht_inv ht" and h: "ht' = (if nNumUsed ht \<noteq> 0 \<and> \<not> ht_packed ht then HT_HASH_RESET ht else ht)"
  shows "ht_inv (reset_counters ht')" "entries (reset_counters ht') = []" "nNextFreeElement (reset_counters ht') = 0"
proof -
  have e: "entries (reset_counters ht') = []"
    by (simp add: reset_counters_def entries_def entries_upto_def)
  have base: "base_ok (reset_counters ht')"
    using ht_inv_base [OF inv] e by (simp add: base_ok_def h reset_counters_def HT_HASH_RESET_def)
  have nf: "next_free_ok (reset_counters ht')" by (simp add: next_free_ok_def e)
  have m0: "members ht 0 j = []" for ht :: "'v HashTable" and j by (simp add: members_def)
  have ch: "chains_upto (reset_counters ht') 0" if "nNumUsed ht = 0 \<longrightarrow> chains_upto ht 0" "\<not> ht_packed ht"
    using that by (auto simp: h chains_upto_def m0 reset_counters_def HT_HASH_RESET_def)
  show "ht_inv (reset_counters ht')"
  proof (cases "ht_initialized ht \<and> \<not> ht_packed ht")
    case True
    then have m: "mixed_ok ht" "chains_upto ht (nNumUsed ht)" using inv by (auto simp: ht_inv_def)
    have "pow2_size (nTableSize ht)" using ht_inv_base [OF inv] by (simp add: base_ok_def)
    then have "mixed_ok (reset_counters ht')"
      using m(1) hash_size_pow2 by (simp add: mixed_ok_def h reset_counters_def HT_HASH_RESET_def)
    moreover have "chains_upto (reset_counters ht') 0" using ch m(2) True by (metis)
    moreover have "ht_initialized (reset_counters ht')" "\<not> ht_packed (reset_counters ht')" "nNumUsed (reset_counters ht') = 0"
      using True by (simp_all add: h reset_counters_def HT_HASH_RESET_def)
    ultimately show ?thesis using base nf by (simp add: ht_inv_def)
  next
    case False
    then show ?thesis using base nf inv
      by (auto simp: ht_inv_def h reset_counters_def HT_HASH_RESET_def uninit_ok_def packed_ok_def split: if_splits)
  qed
qed (auto simp: reset_counters_def entries_def entries_upto_def)

lemma hash_clean_ok:
  assumes inv: "ht_inv ht" "static_ok ht" and r: "zend_hash_clean e ht = (e', ht')"
  shows "ht_inv ht'" "entries ht' = []" "nNextFreeElement ht' = 0"
    "e_log e' = e_log e @ disposed (pDestructor ht) ht"
proof -
  define h where "h = (if nNumUsed ht \<noteq> 0 \<and> \<not> ht_packed ht then HT_HASH_RESET ht else ht)"
  have "ht' = reset_counters h" using r by (auto simp: zend_hash_clean_def h_def Let_def split: if_splits)
  with reset_inv [OF inv(1) h_def] show "ht_inv ht'" "entries ht' = []" "nNextFreeElement ht' = 0" by simp_all
  show "e_log e' = e_log e @ disposed (pDestructor ht) ht"
    using r destroy_values_log [OF inv, of e] release_values_log [OF inv, of e] disposed_empty [of ht]
    by (auto simp: zend_hash_clean_def Let_def split: if_splits)
qed

text \<open>The iterators of a destroyed table are marked, and the log gets the release of the data block.\<close>

lemma iterators_remove_log [simp]: "e_log (zend_hash_iterators_remove e ht) = e_log e"
  by (simp add: zend_hash_iterators_remove_def zend_hash_iterators_remove_slow_def map_used_iters_def)

lemma hash_destroy_ok:
  assumes inv: "ht_inv ht" "static_ok ht"
  shows "e_log (zend_hash_destroy e ht) =
    e_log e @ disposed (pDestructor ht) ht @ (if ht_initialized ht then [Free_data] else [])"
proof -
  have "nNumUsed ht = 0" if "\<not> ht_initialized ht" using inv(1) that by (simp add: ht_inv_def uninit_ok_def)
  then show ?thesis
    using destroy_values_log [OF inv, of e] release_values_log(2) [OF inv, of e] disposed_empty [of ht]
    by (auto simp: zend_hash_destroy_def Let_def)
qed

end
