(* ===== verification/Zend_Hash_Run.thy ===== *)
theory Zend_Hash_Run
  imports Zend_Hash_Store Zend_Hash_Bulk_Correct Zend_Hash_Init_Correct
begin

section \<open>Runs of operations on one table\<close>

text \<open>
  A client of a table issues a sequence of insertions, deletions and cleanings.  \<open>run_op\<close> is
  one of them on the table, \<open>spec_op\<close> what it does to an insertion-ordered map; a run from a
  new table implements the run of the specification and never fails before the size limit.
\<close>

datatype 'v table_op = Put "'v item" | Delete hkey | Clean

fun run_op :: "'v table_op \<Rightarrow> 'v env \<times> 'v HashTable \<Rightarrow> ('v env \<times> 'v HashTable) res" where
  "run_op (Put x) s = copy_entry None x s"
| "run_op (Delete k) s = rbind (del_key k s) (\<lambda>(b, s). Inr s)"
| "run_op Clean s = (case s of (e, ht) \<Rightarrow> Inr (zend_hash_clean e ht))"

fun spec_op :: "'v table_op \<Rightarrow> (hkey \<times> 'v zval) list \<Rightarrow> (hkey \<times> 'v zval) list" where
  "spec_op (Put x) es = assoc_put (item_key x) (fst x) es"
| "spec_op (Delete k) es = assoc_del k es"
| "spec_op Clean es = []"

fun op_fits :: "(nat \<Rightarrow> bytes) \<Rightarrow> 'v table_op \<Rightarrow> bool" where
  "op_fits nm (Put x) = item_fits nm x"
| "op_fits nm op = True"

lemma dtor_slots [simp]:
  "e_slots (fold (\<lambda>p. log_effect (f p)) ps e) = e_slots e"
  "e_slots (fold release_key ps e) = e_slots e"
  by (induction ps arbitrary: e) (simp_all add: log_effect_def)

lemma fold_slots: "(\<And>p e. e_slots (f p e) = e_slots e) \<Longrightarrow> e_slots (fold f ps e) = e_slots e"
  by (induction ps arbitrary: e) simp_all

lemma destroy_values_slots [simp]: "e_slots (destroy_values ht e) = e_slots e"
  "e_slots (release_live ht e) = e_slots e" "e_slots (release_all ht e) = e_slots e"
  unfolding destroy_values_def dtor_all_def dtor_live_def dtor_release_all_def dtor_release_live_def
    release_live_def release_all_def
  by (auto intro!: fold_slots simp: log_effect_def)

lemma clean_store_inv:
  assumes "store_inv nm sl n (e, ht)"
  shows "store_inv nm sl n (zend_hash_clean e ht)" "store_entries (zend_hash_clean e ht) = []"
proof -
  have inv: "e_slots e = sl" "ht_inv ht" "static_ok ht" "capacity n ht" using assms by (simp_all add: store_inv_def)
  obtain e' ht' where r: "zend_hash_clean e ht = (e', ht')" by fastforce
  note c = hash_clean_ok [OF inv(2,3) r]
  have f: "nNumUsed ht' = 0" "nTableSize ht' = nTableSize ht" "ht_packed ht' = ht_packed ht"
    "ht_initialized ht' = ht_initialized ht" "nNumOfElements ht' = 0" "e_slots e' = e_slots e"
    using r by (auto simp: zend_hash_clean_def Let_def reset_counters_def HT_HASH_RESET_def split: if_splits)
  have "capacity n ht'" using inv(4) f by (auto simp: capacity_def split: if_splits)
  moreover have "content ht' = []" by (simp add: content_def content_upto_def f(1))
  ultimately show "store_inv nm sl n (zend_hash_clean e ht)" "store_entries (zend_hash_clean e ht) = []"
    using inv(1) f(6) c by (simp_all add: r store_inv_def store_entries_def static_ok_def named_def key_refs_def)
qed

lemma run_op_ok:
  assumes inv: "store_inv nm sl (Suc n) s" and op: "op_fits nm op"
  shows "\<exists>s'. run_op op s = Inr s' \<and> store_inv nm sl n s' \<and> store_entries s' = spec_op op (store_entries s)"
proof (cases op)
  case (Put x)
  with copy_entry_ok [OF inv, of x None] op show ?thesis by (simp add: ctor_ok_def item_val_def)
next
  case (Delete k)
  from del_key_ok [OF inv, of k] obtain s' where s': "del_key k s = Inr (k \<in> fst ` set (store_entries s), s')"
    "store_inv nm sl (Suc n) s'" "store_entries s' = assoc_del k (store_entries s)" by blast
  with store_inv_less [OF s'(2)] show ?thesis by (simp add: Delete)
next
  case Clean
  obtain e ht where s: "s = (e, ht)" by (cases s)
  from clean_store_inv [OF store_inv_less [OF inv [unfolded s]]] show ?thesis by (simp add: Clean s)
qed

interpretation run: simulation "store_inv nm sl" store_entries run_op spec_op "op_fits nm" for nm sl
  by unfold_locales (rule run_op_ok)

lemma init_store_inv:
  assumes "n \<le> 2 ^ 27"
  obtains ht where "zend_hash_init addr n d = Inr ht" "store_inv nm (e_slots e) (2 ^ 26) (e, ht)"
    "store_entries (e, ht) = []"
proof -
  have "n \<le> 2 ^ 30" using assms by simp
  then obtain ht :: "'a HashTable" where ht: "zend_hash_init addr n d = Inr ht" "ht_inv ht" "entries ht = []"
    "nTableSize ht = 8 \<or> nTableSize ht < 2 * n" "\<not> ht_initialized ht" by (rule hash_init_ok)
  have u: "nNumUsed ht = 0" using ht(2,5) by (simp add: ht_inv_def uninit_ok_def)
  then have "content ht = []" by (simp add: content_def content_upto_def)
  moreover have "capacity (2 ^ 26) ht"
    using ht(4,5) assms elements_entries [OF ht(2)] by (auto simp: capacity_def ht(3))
  ultimately show thesis
    using that [OF ht(1)] ht(2,3) by (simp add: store_inv_def store_entries_def static_ok_def named_def key_refs_def)
qed

lemma run_from_init:
  assumes "n \<le> 2 ^ 27" "length ops \<le> 2 ^ 26" "\<forall>op \<in> set ops. op_fits nm op"
  shows "\<exists>ht0 e' ht'. zend_hash_init addr n d = Inr ht0 \<and> fold_res run_op ops (e, ht0) = Inr (e', ht') \<and>
    ht_inv ht' \<and> entries ht' = fold spec_op ops []"
proof -
  from assms(1) obtain ht0 where i: "zend_hash_init addr n d = Inr ht0"
    "store_inv nm (e_slots e) (2 ^ 26) (e, ht0)" "store_entries (e, ht0) = []" by (rule init_store_inv)
  have "store_inv nm (e_slots e) (length ops + (2 ^ 26 - length ops)) (e, ht0)"
    using i(2) assms(2) by simp
  from run.loop_ok [OF this assms(3)] obtain s' where s': "fold_res run_op ops (e, ht0) = Inr s'"
    "store_inv nm (e_slots e) (2 ^ 26 - length ops) s'" "store_entries s' = fold spec_op ops []"
    by (auto simp: i(3))
  with i(1) show ?thesis by (cases s') (auto simp: store_inv_def store_entries_def)
qed

end
