(* ===== verification/Zend_Hash_Table_Properties.thy ===== *)
theory Zend_Hash_Table_Properties
  imports Zend_Hash_Properties Zend_Hash_Run
begin

section \<open>The properties of deletion, copying and runs\<close>

text \<open>
  The properties of whole tables: sequences of operations, deletion, copies and destruction.
\<close>

lemma demo_run_inv: "store_inv (\<lambda>_. [97, 98]) (e_slots demo_env) 8 (demo_env, demo_one)"
proof -
  have "content demo_new = []" by (simp add: content_def content_upto_def demo_new)
  then have "key_refs demo_new = {}" "static_ok demo_new" by (simp_all add: static_ok_def key_refs_def)
  then have "key_refs demo_one \<subseteq> {(1, [97, 98])}" "static_ok demo_one"
    using demo_one_stored by (auto simp: stored_def)
  moreover from this(1) have "named (\<lambda>_. [97, 98]) demo_one" by (auto simp: named_def)
  moreover have "nNumOfElements demo_one = 1" by (simp add: elements_entries [OF demo_one(1)] demo_one(2))
  ultimately show ?thesis
    by (simp add: store_inv_def capacity_def demo_one(1) demo_one_fields)
qed

text \<open>
  C9. From a new table with room for up to \<open>2 ^ 27\<close> elements, any sequence of at most \<open>2 ^ 26\<close>
  insertions (by string or integer key), deletions and cleanings returns, keeps the table
  well-formed and leaves exactly the entries the same sequence leaves in an
  insertion-ordered association list.
\<close>

theorem zend_hash_run_correct:
  assumes "n \<le> 2 ^ 27" "length ops \<le> 2 ^ 26" "\<forall>op \<in> set ops. op_fits nm op"
  shows "\<exists>ht0 e' ht'. zend_hash_init addr n d = Inr ht0 \<and> fold_res run_op ops (e, ht0) = Inr (e', ht') \<and>
    ht_inv ht' \<and> entries ht' = fold spec_op ops []"
  by (rule run_from_init [OF assms])

theorem zend_hash_run_correct_witness:
  "\<exists>ht0 e' ht'. zend_hash_init 5 8 True = Inr ht0 \<and>
    fold_res run_op [Put (IS_VAL 1, 0, Some demo_key), Put (IS_VAL 2, 7, None), Delete (SKey [97, 98])] (demo_env, ht0)
      = Inr (e', ht') \<and> entries ht' = [(IKey 7, IS_VAL 2)]"
proof -
  have "\<forall>op \<in> set [Put (IS_VAL (1 :: int), 0, Some demo_key), Put (IS_VAL 2, 7, None), Delete (SKey [97, 98])].
      op_fits (\<lambda>_. [97, 98]) op"
    by (simp add: item_fits_def key_fits_def zs_ok_def demo_key_def zend_string_init_def)
  from zend_hash_run_correct [OF _ _ this, of 8 5 True demo_env]
  show ?thesis by (simp add: item_key_def demo_key assoc_put_def assoc_del_def) blast
qed

text \<open>
  C10. \<open>zend_hash_del\<close> deletes exactly the entry of its key, keeping the order of the others and
  the table's invariant.  Just before, the key of the bucket that held the entry loses the table's
  reference, if it is not interned, and then the value goes to the destructor, if there is one, and
  nothing else happens; a key that is not there leaves everything as it is.
\<close>

theorem zend_hash_del_correct:
  assumes "ht_inv ht" "good_key ht key"
  shows "case map_of (entries ht) (SKey (zs_val key)) of
      None \<Rightarrow> zend_hash_del e ht key = Inr (False, e, ht)
    | Some v \<Rightarrow> \<exists>e' ht' i s. zend_hash_del e ht key = Inr (True, e', ht') \<and> ht_inv ht' \<and>
        entries ht' = assoc_del (SKey (zs_val key)) (entries ht) \<and> i < nNumUsed ht \<and>
        b_val (arData ht ! i) = v \<and> b_key (arData ht ! i) = Some s \<and> zs_val s = zs_val key \<and>
        e_log e' = e_log e @ (if zs_interned s then [] else [Release (zs_ptr s)]) @ (if pDestructor ht then [Dtor v] else [])"
proof (cases "locate ht (SKey (zs_val key))")
  case None
  have "del_outcome e ht (SKey (zs_val key)) (zend_hash_del e ht key)"
    using hash_del_ok [OF assms(1), of key e] assms(2) by (simp add: good_key_def)
  with None show ?thesis by (simp add: del_outcome_def map_of_locate [OF assms(1)])
next
  case (Some i)
  have "del_outcome e ht (SKey (zs_val key)) (zend_hash_del e ht key)"
    using hash_del_ok [OF assms(1), of key e] assms(2) by (simp add: good_key_def)
  with Some obtain e' ht' where r: "zend_hash_del e ht key = Inr (True, e', ht')"
    and d: "deleted e ht (SKey (zs_val key)) i (e', ht')" by (auto simp: del_outcome_def)
  obtain s where s: "b_key (arData ht ! i) = Some s" "zs_val s = zs_val key"
    using locate_Some(3) [OF Some] by (auto simp: key_of_def split: option.splits)
  with Some r d locate_Some(1) [OF Some] show ?thesis
    by (auto simp: deleted_def dtor_log_def release_log_def map_of_locate [OF assms(1)])
qed

theorem zend_hash_del_correct_witness:
  "\<exists>e' ht'. zend_hash_del demo_env demo_one demo_key = Inr (True, e', ht') \<and> entries ht' = [] \<and>
    e_log e' = e_log demo_env @ [Release 1, Dtor (IS_VAL 1)]"
  using zend_hash_del_correct [OF demo_one(1) demo_good, of demo_env] demo_one(2) demo_key
  by (auto simp: assoc_del_def demo_one_fields less_Suc_eq hashed_def demo_key_def zend_string_init_def)

text \<open>
  C11. \<open>zend_hash_index_del\<close>: the same for an integer key, in every layout.
\<close>

theorem zend_hash_index_del_correct:
  assumes "ht_inv ht"
  shows "if IKey h \<in> fst ` set (entries ht)
    then \<exists>e' ht'. zend_hash_index_del e ht h = Inr (True, e', ht') \<and> ht_inv ht' \<and>
      entries ht' = assoc_del (IKey h) (entries ht) \<and> nNextFreeElement ht' = nNextFreeElement ht
    else zend_hash_index_del e ht h = Inr (False, e, ht)"
  using hash_index_del_ok [OF assms, of e h] key_in_keys [OF assms, of "IKey h"]
  by (auto simp: del_outcome_def deleted_def split: option.splits)

theorem zend_hash_index_del_correct_witness:
  "zend_hash_index_del demo_env demo_one 3 = Inr (False, demo_env, demo_one)"
  using zend_hash_index_del_correct [OF demo_one(1), of 3 demo_env] demo_one(2) by simp

text \<open>
  C12. Deleting an element never leaves a position behind on a deleted bucket: if the internal
  pointer and every iterator registered for the table stand on live buckets (or past the
  end) before \<open>_zend_hash_del_el_ex\<close>, they do so afterwards.
\<close>

theorem zend_hash_del_el_ex_positions:
  assumes "ht_inv ht" "i < nNumUsed ht" "iters_ok e ht" "pos_ok ht (nInternalPointer ht)"
    "zend_hash_del_el_ex e ht i prev = (e', ht')"
  shows "iters_ok e' ht' \<and> pos_ok ht' (nInternalPointer ht')"
  using del_positions [OF assms] by blast

theorem zend_hash_del_el_ex_positions_witness:
  "\<exists>e' ht'. zend_hash_del_el_ex demo_env demo_one 0 None = (e', ht') \<and> pos_ok ht' (nInternalPointer ht')"
proof -
  obtain e' ht' where d: "zend_hash_del_el_ex demo_env demo_one 0 None = (e', ht')" by fastforce
  have "live (arData demo_one ! 0)"
  proof -
    have "map_of (entries demo_one) (SKey [97, 98]) \<noteq> None" by (simp add: demo_one)
    then obtain i where "locate demo_one (SKey [97, 98]) = Some i" by (auto simp: map_of_locate [OF demo_one(1)])
    from locate_Some [OF this] show ?thesis by (simp add: demo_one_fields)
  qed
  then have "pos_ok demo_one (nInternalPointer demo_one)" by (simp add: pos_ok_def demo_one_fields less_Suc_eq)
  moreover have "iters_ok demo_env demo_one" by (simp add: iters_ok_def demo_env_def)
  ultimately show ?thesis
    using zend_hash_del_el_ex_positions [OF demo_one(1) _ _ _ d] d by (auto simp: demo_one_fields)
qed

text \<open>
  C13. \<open>zend_hash_copy\<close> of a table that holds its values directly, without a constructor, puts
  every entry of the source into the target in order: existing keys get the source's value,
  the others follow at the end.  A copy into an empty table is the source.
\<close>

theorem zend_hash_copy_correct:
  assumes "store_inv nm (e_slots e) (nNumUsed source) (e, target)"
    "ht_inv source" "named nm source" "direct (entries source)"
  shows "\<exists>e' target'. zend_hash_copy e target source None = Inr (e', target') \<and> ht_inv target' \<and>
    entries target' = put_list (entries source) (entries target) \<and>
    (entries target = [] \<longrightarrow> entries target' = entries source)"
proof -
  have "distinct (map fst (entries source))" using assms(2) by (simp add: ht_inv_def base_ok_def)
  then have "put_list (entries source) [] = entries source" using put_list_new [of "entries source" "[]"] by simp
  then show ?thesis
    using hash_copy_ok [OF assms(1) source_ok_content [OF assms(2-4)], of None]
    by (auto simp: ctor_ok_def copy_items_content [OF assms(4)] content_entries)
qed

theorem zend_hash_copy_correct_witness:
  "\<exists>e' ht'. zend_hash_copy demo_env demo_one demo_one None = Inr (e', ht') \<and> entries ht' = [(SKey [97, 98], IS_VAL 1)]"
proof -
  have i: "store_inv (\<lambda>_. [97, 98]) (e_slots demo_env) (nNumUsed demo_one) (demo_env, demo_one)"
    using demo_run_inv by (simp add: store_inv_def capacity_def demo_one_fields split: if_splits)
  then have "named (\<lambda>_. [97, 98]) demo_one" by (simp add: store_inv_def)
  from zend_hash_copy_correct [OF i demo_one(1) this] show ?thesis
    by (auto simp: demo_one direct_def assoc_put_def)
qed

text \<open>
  C14. \<open>zend_hash_merge\<close> does to the entries of the target and to the slots that indirect values
  point to what \<open>merge_step\<close> says, for the entries of the source in order: an indirect value whose
  slot is undefined is skipped; under a string key with an indirect value in the target the slot is
  written if it is undefined or the source wins; any other key is put if it is new or the source
  wins.  What is stored has gone through the copy constructor, which is any function on values.
  Between tables that hold their values directly this is the union of maps, with the source's values
  for common keys when overwriting and the target's when not.  PHP's array \<open>+\<close> is the second case
  with the constructor \<open>zval_add_ref\<close>: one of these functions in that it takes a value out of a
  reference nothing else holds, while the reference counts it changes are not in the model.
\<close>

theorem zend_hash_merge_correct:
  assumes "store_inv nm (e_slots e) (nNumUsed source) (e, target)" "ht_inv source" "named nm source" "ctor_ok ctor"
  shows "\<exists>e' target'. zend_hash_merge e target source ctor over = Inr (e', target') \<and> ht_inv target' \<and>
    (entries target', e_slots e') = fold (merge_step ctor over) (entries source) (entries target, e_slots e) \<and>
    (direct (entries target) \<and> direct (entries source) \<and> keeps_direct ctor \<longrightarrow>
      e_slots e' = e_slots e \<and> map_of (entries target') =
        (if over then map_of (entries target) ++ (map_option (constructed ctor) \<circ> map_of (entries source))
         else (map_option (constructed ctor) \<circ> map_of (entries source)) ++ map_of (entries target)))"
proof -
  from hash_merge_ok [OF assms, of over] obtain e' target' where m: "zend_hash_merge e target source ctor over = Inr (e', target')"
    "ht_inv target'" "(entries target', e_slots e') = fold (merge_step ctor over) (entries source) (entries target, e_slots e)"
    by blast
  have "distinct (map fst (entries source))" using assms(2) by (simp add: ht_inv_def base_ok_def)
  with m show ?thesis
    using map_of_merged [of "entries target" "entries source" ctor over "e_slots e", folded m(3)]
      direct_merge [of "entries target" "entries source" ctor over "e_slots e", folded m(3)] by auto
qed

text \<open>A table whose only value is indirect: the merge goes through it into the slot.\<close>

definition demo_indirect :: "int HashTable" where
  "demo_indirect = snd (snd (projr (zend_hash_update demo_env demo_one demo_key (IS_INDIRECT 5))))"

theorem zend_hash_merge_correct_witness:
  "\<exists>e' ht'. zend_hash_merge demo_env demo_indirect demo_one (Some (\<lambda>v. if v = IS_VAL 1 then IS_VAL 2 else v)) False = Inr (e', ht') \<and>
    entries ht' = [(SKey [97, 98], IS_INDIRECT 5)] \<and> e_slots e' = (e_slots demo_env)(5 := IS_VAL 2)"
proof -
  let ?ctor = "Some (\<lambda>v. if v = IS_VAL 1 then IS_VAL (2 :: int) else v)"
  have i: "store_inv (\<lambda>_. [97, 98]) (e_slots demo_env) (Suc 1) (demo_env, demo_one)"
    using demo_run_inv by (simp add: store_inv_def capacity_def demo_one_fields split: if_splits)
  then have n: "named (\<lambda>_. [97, 98]) demo_one" by (simp add: store_inv_def)
  obtain r lg where u: "zend_hash_update demo_env demo_one demo_key (IS_INDIRECT 5) = Inr r"
    "stored demo_env demo_one (SKey [97, 98]) 1 (IS_INDIRECT 5) lg r"
    using hash_update_ok [OF demo_one(1) _ demo_good, of "IS_INDIRECT 5" demo_env] demo_one_fields demo_key
    by (auto simp: demo_key_def zend_string_init_def)
  have ref: "\<forall>(p, b) \<in> key_ref (SKey [97, 98]) 1. b = [97, 98]" by simp
  have t: "demo_indirect = snd (snd r)" by (simp add: demo_indirect_def u(1))
  have sl: "e_slots (fst (snd r)) = e_slots demo_env" using u(2) by (cases r) (auto simp: stored_def)
  note st = stored_store_inv [OF i u(2) ref]
  have si: "store_inv (\<lambda>_. [97, 98]) (e_slots demo_env) (nNumUsed demo_one) (demo_env, demo_indirect)"
    using st(1) by (cases r) (simp add: t store_inv_def demo_one_fields)
  have en: "entries demo_indirect = [(SKey [97, 98], IS_INDIRECT 5)]"
    using st(2) by (cases r) (simp add: t store_entries_def demo_one assoc_put_def)
  have c: "ctor_ok ?ctor" by (simp add: ctor_ok_def)
  have "merge_step ?ctor False (SKey [97, 98], IS_VAL 1) ([(SKey [97, 98], IS_INDIRECT 5)], e_slots demo_env) =
      ([(SKey [97, 98], IS_INDIRECT 5)], (e_slots demo_env)(5 := IS_VAL 2))"
    by (simp add: merge_step_def empty_slot_def slot_for_def constructed_def demo_env_def)
  with zend_hash_merge_correct [OF si demo_one(1) n c, of False] show ?thesis by (auto simp: demo_one(2) en)
qed

text \<open>
  C15. \<open>zend_hash_clean\<close> and \<open>zend_hash_destroy\<close> visit every live element exactly once in bucket
  order whatever their flag-dependent loops skip: the destructor runs on each value (if
  there is one) and each key that is not interned is released.  Cleaning leaves a
  well-formed empty table that numbers from zero again; destroying frees the data block of
  an initialised table.
\<close>

theorem zend_hash_clean_destroy_correct:
  assumes "ht_inv ht" "static_ok ht"
  shows "(\<exists>e' ht'. zend_hash_clean e ht = (e', ht') \<and> ht_inv ht' \<and> entries ht' = [] \<and>
      nNextFreeElement ht' = 0 \<and> e_log e' = e_log e @ disposed (pDestructor ht) ht) \<and>
    e_log (zend_hash_destroy e ht) =
      e_log e @ disposed (pDestructor ht) ht @ (if ht_initialized ht then [Free_data] else [])"
proof -
  obtain e' ht' where r: "zend_hash_clean e ht = (e', ht')" by fastforce
  show ?thesis using hash_clean_ok [OF assms r] r hash_destroy_ok [OF assms, of e] by simp
qed

theorem zend_hash_clean_destroy_correct_witness:
  "\<exists>e' ht'. zend_hash_clean demo_env demo_one = (e', ht') \<and> ht_inv ht' \<and> entries ht' = []"
  using zend_hash_clean_destroy_correct [OF demo_one(1), of demo_env] demo_run_inv
  by (auto simp: store_inv_def)

end
