(* ===== verification/Zend_Hash_Position.thy ===== *)
theory Zend_Hash_Position
  imports Zend_Hash_Find
begin

section \<open>Walking a table (Zend/zend\_hash.c)\<close>

text \<open>
  The functions that take a \<open>HashPosition\<close> by address return the new position.  With
  \<open>&ht->nInternalPointer\<close> for it they are the macros without \<open>_ex\<close>.  The position 0 stands
  for the first live bucket wherever that is.
\<close>

definition zend_hash_internal_pointer_reset_ex :: "'v HashTable \<Rightarrow> nat" where
  "zend_hash_internal_pointer_reset_ex ht = zend_hash_get_first_pos ht"

text \<open>\<open>while (idx > 0) { idx--; if (live) ... }\<close>: the last live bucket below \<open>idx\<close>.\<close>

fun last_live :: "'v HashTable \<Rightarrow> nat \<Rightarrow> nat option" where
  "last_live ht 0 = None"
| "last_live ht (Suc idx) = (if live (arData ht ! idx) then Some idx else last_live ht idx)"

definition zend_hash_internal_pointer_end_ex :: "'v HashTable \<Rightarrow> nat" where
  "zend_hash_internal_pointer_end_ex ht =
     (case last_live ht (nNumUsed ht) of Some idx \<Rightarrow> idx | None \<Rightarrow> nNumUsed ht)"

text \<open>The flag is \<open>SUCCESS\<close>.  The inner loop ends at the next live bucket or at \<open>nNumUsed\<close>.\<close>

definition zend_hash_move_forward_ex :: "'v HashTable \<Rightarrow> nat \<Rightarrow> bool \<times> nat" where
  "zend_hash_move_forward_ex ht pos =
     (if pos < nNumUsed ht then
        (let idx = (if pos = 0 then zend_hash_get_first_pos ht else pos)
         in if pos = 0 \<and> idx \<ge> nNumUsed ht then (True, idx)
            else (True, get_first_pos_from ht (idx + 1)))
      else (False, pos))"

definition zend_hash_move_backwards_ex :: "'v HashTable \<Rightarrow> nat \<Rightarrow> bool \<times> nat" where
  "zend_hash_move_backwards_ex ht pos =
     (if pos < nNumUsed ht then
        (True, case last_live ht pos of Some idx \<Rightarrow> idx | None \<Rightarrow> nNumUsed ht)
      else (False, pos))"

text \<open>The bucket a position stands for.\<close>

definition bucket_at :: "'v HashTable \<Rightarrow> nat \<Rightarrow> nat option" where
  "bucket_at ht pos =
     (if pos < nNumUsed ht then
        (let idx = (if pos = 0 then zend_hash_get_first_pos ht else pos)
         in if pos = 0 \<and> idx \<ge> nNumUsed ht then None else Some idx)
      else None)"

datatype key_type = HASH_KEY_IS_STRING | HASH_KEY_IS_LONG | HASH_KEY_NON_EXISTENT

definition zend_hash_get_current_key_ex :: "'v HashTable \<Rightarrow> nat \<Rightarrow> key_type \<times> zend_string option \<times> u64" where
  "zend_hash_get_current_key_ex ht pos =
     (case bucket_at ht pos of
        Some i \<Rightarrow>
          (let p = arData ht ! i
           in case b_key p of
                Some key \<Rightarrow> (HASH_KEY_IS_STRING, Some key, 0)
              | None \<Rightarrow> (HASH_KEY_IS_LONG, None, b_h p))
      | None \<Rightarrow> (HASH_KEY_NON_EXISTENT, None, 0))"

text \<open>The key as a value: a string (one reference more unless interned), a number or null.\<close>

datatype key_zval = KZ_NULL | KZ_STR zend_string | KZ_LONG u64

definition zend_hash_get_current_key_zval_ex :: "'v env \<Rightarrow> 'v HashTable \<Rightarrow> nat \<Rightarrow> key_zval \<times> 'v env" where
  "zend_hash_get_current_key_zval_ex e ht pos =
     (case bucket_at ht pos of
        None \<Rightarrow> (KZ_NULL, e)
      | Some i \<Rightarrow>
          (let p = arData ht ! i
           in case b_key p of
                Some key \<Rightarrow> (KZ_STR key, if zs_interned key then e else log_effect (Addref (zs_ptr key)) e)
              | None \<Rightarrow> (KZ_LONG (b_h p), e)))"

definition zend_hash_get_current_key_type_ex :: "'v HashTable \<Rightarrow> nat \<Rightarrow> key_type" where
  "zend_hash_get_current_key_type_ex ht pos =
     (case bucket_at ht pos of
        Some i \<Rightarrow> (if b_key (arData ht ! i) \<noteq> None then HASH_KEY_IS_STRING else HASH_KEY_IS_LONG)
      | None \<Rightarrow> HASH_KEY_NON_EXISTENT)"

definition zend_hash_has_more_elements_ex :: "'v HashTable \<Rightarrow> nat \<Rightarrow> bool" where
  "zend_hash_has_more_elements_ex ht pos =
     (zend_hash_get_current_key_type_ex ht pos \<noteq> HASH_KEY_NON_EXISTENT)"

text \<open>The address of the value: the number of its bucket.\<close>

definition zend_hash_get_current_data_ex :: "'v HashTable \<Rightarrow> nat \<Rightarrow> nat option" where
  "zend_hash_get_current_data_ex ht pos = bucket_at ht pos"

subsection \<open>The order of the walk\<close>

definition live_positions :: "'v HashTable \<Rightarrow> nat list" where
  "live_positions ht = filter (\<lambda>i. live (arData ht ! i)) [0..<nNumUsed ht]"

lemma first_from_conv:
  "p \<le> nNumUsed ht \<Longrightarrow> get_first_pos_from ht p =
     hd (filter (\<lambda>i. live (arData ht ! i)) [p..<nNumUsed ht] @ [nNumUsed ht])"
proof (induction ht p rule: get_first_pos_from.induct)
  case (1 ht p)
  show ?case
  proof (cases "p < nNumUsed ht")
    case True
    with 1 show ?thesis by (subst get_first_pos_from.simps) (simp add: upt_conv_Cons)
  next
    case False
    with 1 show ?thesis by (subst get_first_pos_from.simps) simp
  qed
qed

lemma last_live_conv:
  "last_live ht n = (let l = filter (\<lambda>i. live (arData ht ! i)) [0..<n] in if l = [] then None else Some (last l))"
  by (induction n) (auto simp: Let_def)

lemma filter_upt_after: "k < length (filter P [0..<n]) \<Longrightarrow>
  filter P [Suc (filter P [0..<n] ! k)..<n] = drop (Suc k) (filter P [0..<n])"
proof (induction n)
  case (Suc n)
  let ?l = "filter P [0..<n]"
  show ?case
  proof (cases "k < length ?l")
    case True
    then have "?l ! k \<in> set ?l" by (rule nth_mem)
    then have "?l ! k < n" by auto
    with Suc.IH [OF True] True show ?thesis by (simp add: nth_append)
  next
    case False
    with Suc.prems have "P n" "k = length ?l" by (auto split: if_splits)
    then show ?thesis by (simp add: nth_append)
  qed
qed simp

lemma filter_upt_before: "k < length (filter P [0..<n]) \<Longrightarrow>
  filter P [0..<filter P [0..<n] ! k] = take k (filter P [0..<n])"
proof (induction n)
  case (Suc n)
  let ?l = "filter P [0..<n]"
  show ?case
  proof (cases "k < length ?l")
    case True
    with Suc.IH [OF True] show ?thesis by (simp add: nth_append)
  next
    case False
    with Suc.prems have "P n" "k = length ?l" by (auto split: if_splits)
    then show ?thesis by (simp add: nth_append)
  qed
qed simp

lemma live_positions_mem: "i \<in> set (live_positions ht) \<longleftrightarrow> i < nNumUsed ht \<and> live (arData ht ! i)"
  by (auto simp: live_positions_def)

lemma live_positions_entries:
  assumes "ht_inv ht"
  shows "entries ht = map (\<lambda>i. entry_of (arData ht ! i)) (live_positions ht)"
  unfolding entries_def live_positions_def by (rule entries_upto_conv [OF ht_inv_used [OF assms]])

lemma reset_first: "zend_hash_internal_pointer_reset_ex ht = hd (live_positions ht @ [nNumUsed ht])"
  by (simp add: zend_hash_internal_pointer_reset_ex_def zend_hash_get_first_pos_def first_from_conv live_positions_def)

lemma end_last: "zend_hash_internal_pointer_end_ex ht = (if live_positions ht = [] then nNumUsed ht else last (live_positions ht))"
  by (simp add: zend_hash_internal_pointer_end_ex_def last_live_conv live_positions_def Let_def)

lemma pos_is_first:
  assumes "0 \<in> set (live_positions ht)" shows "zend_hash_get_first_pos ht = 0"
proof -
  have "0 < nNumUsed ht" "live (arData ht ! 0)" using assms by (simp_all add: live_positions_mem)
  then show ?thesis by (simp add: zend_hash_get_first_pos_def first_from_conv upt_conv_Cons)
qed

lemma bucket_at_live:
  assumes "i \<in> set (live_positions ht)" shows "bucket_at ht i = Some i"
  using assms pos_is_first [of ht] by (auto simp: bucket_at_def live_positions_mem)

lemma move_forward_next:
  assumes "k < length (live_positions ht)"
  shows "zend_hash_move_forward_ex ht (live_positions ht ! k) = (True, (live_positions ht @ [nNumUsed ht]) ! Suc k)"
proof -
  let ?l = "live_positions ht"
  have mem: "?l ! k \<in> set ?l" using assms by (rule nth_mem)
  then have lt: "?l ! k < nNumUsed ht" by (simp add: live_positions_mem)
  have first: "(if ?l ! k = 0 then zend_hash_get_first_pos ht else ?l ! k) = ?l ! k"
    using pos_is_first [of ht] mem by auto
  have "filter (\<lambda>i. live (arData ht ! i)) [Suc (?l ! k)..<nNumUsed ht] = drop (Suc k) ?l"
    using filter_upt_after [of k "\<lambda>i. live (arData ht ! i)" "nNumUsed ht"] assms by (simp add: live_positions_def)
  then have "get_first_pos_from ht (Suc (?l ! k)) = hd (drop (Suc k) ?l @ [nNumUsed ht])"
    using lt by (simp add: first_from_conv)
  also have "\<dots> = (?l @ [nNumUsed ht]) ! Suc k"
    using assms by (simp add: hd_append hd_drop_conv_nth nth_append)
  finally show ?thesis using lt by (simp add: zend_hash_move_forward_ex_def first Let_def)
qed

lemma move_backwards_prev:
  assumes "k < length (live_positions ht)"
  shows "zend_hash_move_backwards_ex ht (live_positions ht ! k) =
    (True, if k = 0 then nNumUsed ht else live_positions ht ! (k - 1))"
proof -
  let ?l = "live_positions ht"
  have lt: "?l ! k < nNumUsed ht" using nth_mem [OF assms] by (simp add: live_positions_mem)
  have "filter (\<lambda>i. live (arData ht ! i)) [0..<?l ! k] = take k ?l"
    using filter_upt_before [of k "\<lambda>i. live (arData ht ! i)" "nNumUsed ht"] assms by (simp add: live_positions_def)
  then have "last_live ht (?l ! k) = (if k = 0 then None else Some (?l ! (k - 1)))"
    using assms by (auto simp: last_live_conv Let_def last_conv_nth)
  then show ?thesis using lt by (simp add: zend_hash_move_backwards_ex_def)
qed

text \<open>The \<open>k\<close>-th step of a walk.\<close>

definition forward_pos :: "'v HashTable \<Rightarrow> nat \<Rightarrow> nat" where
  "forward_pos ht k = ((\<lambda>pos. snd (zend_hash_move_forward_ex ht pos)) ^^ k) (zend_hash_internal_pointer_reset_ex ht)"

definition backward_pos :: "'v HashTable \<Rightarrow> nat \<Rightarrow> nat" where
  "backward_pos ht k = ((\<lambda>pos. snd (zend_hash_move_backwards_ex ht pos)) ^^ k) (zend_hash_internal_pointer_end_ex ht)"

lemma forward_pos_nth: "k \<le> length (live_positions ht) \<Longrightarrow> forward_pos ht k = (live_positions ht @ [nNumUsed ht]) ! k"
proof (induction k)
  case 0
  show ?case by (simp add: forward_pos_def reset_first hd_conv_nth)
next
  case (Suc k)
  then have k: "k < length (live_positions ht)" by simp
  have "forward_pos ht (Suc k) = snd (zend_hash_move_forward_ex ht (forward_pos ht k))" by (simp add: forward_pos_def)
  also have "forward_pos ht k = live_positions ht ! k" using Suc.IH k by (simp add: nth_append)
  finally show ?case using move_forward_next [OF k] by simp
qed

lemma backward_pos_nth: "k < length (live_positions ht) \<Longrightarrow>
  backward_pos ht k = live_positions ht ! (length (live_positions ht) - Suc k)"
proof (induction k)
  case 0
  then show ?case by (auto simp: backward_pos_def end_last last_conv_nth)
next
  case (Suc k)
  let ?l = "live_positions ht"
  have "backward_pos ht (Suc k) = snd (zend_hash_move_backwards_ex ht (backward_pos ht k))" by (simp add: backward_pos_def)
  also have "backward_pos ht k = ?l ! (length ?l - Suc k)" using Suc by simp
  also have "snd (zend_hash_move_backwards_ex ht (?l ! (length ?l - Suc k))) = ?l ! (length ?l - Suc k - 1)"
    using Suc.prems by (subst move_backwards_prev) auto
  finally show ?case by simp
qed

text \<open>A walk that has passed the last element stays there.\<close>

lemma walk_past_end:
  assumes "length (live_positions ht) \<le> k"
  shows "forward_pos ht k = nNumUsed ht" "backward_pos ht k = nNumUsed ht"
proof -
  let ?n = "length (live_positions ht)"
  have stay: "snd (zend_hash_move_forward_ex ht (nNumUsed ht)) = nNumUsed ht"
    "snd (zend_hash_move_backwards_ex ht (nNumUsed ht)) = nNumUsed ht"
    by (simp_all add: zend_hash_move_forward_ex_def zend_hash_move_backwards_ex_def)
  have bwd: "backward_pos ht ?n = nNumUsed ht"
  proof (cases ?n)
    case 0
    then show ?thesis by (simp add: backward_pos_def end_last)
  next
    case (Suc m)
    then have "backward_pos ht ?n = snd (zend_hash_move_backwards_ex ht (backward_pos ht m))" by (simp add: backward_pos_def)
    also have "backward_pos ht m = live_positions ht ! 0" using Suc by (simp add: backward_pos_nth)
    finally show ?thesis using move_backwards_prev [of 0 ht] Suc by simp
  qed
  have "forward_pos ht (?n + d) = nNumUsed ht \<and> backward_pos ht (?n + d) = nNumUsed ht" for d
  proof (induction d)
    case 0
    show ?case using bwd by (simp add: forward_pos_nth nth_append)
  next
    case (Suc d)
    then show ?case using stay by (simp add: forward_pos_def backward_pos_def)
  qed
  from this [of "k - ?n"] show "forward_pos ht k = nNumUsed ht" "backward_pos ht k = nNumUsed ht" using assms by simp_all
qed

lemma walk_ok:
  assumes "ht_inv ht" "k < length (entries ht)"
  shows "zend_hash_get_current_data_ex ht (forward_pos ht k) = Some (forward_pos ht k)"
    "zend_hash_get_current_data_ex ht (backward_pos ht k) = Some (backward_pos ht k)"
    "entry_of (arData ht ! forward_pos ht k) = entries ht ! k"
    "entry_of (arData ht ! backward_pos ht k) = rev (entries ht) ! k"
proof -
  have len: "length (live_positions ht) = length (entries ht)" by (simp add: live_positions_entries [OF assms(1)])
  then have k: "k < length (live_positions ht)" using assms(2) by simp
  then have f: "forward_pos ht k = live_positions ht ! k" by (simp add: forward_pos_nth nth_append)
  have "backward_pos ht k \<in> set (live_positions ht)" using k by (simp add: backward_pos_nth)
  then show "zend_hash_get_current_data_ex ht (forward_pos ht k) = Some (forward_pos ht k)"
    "zend_hash_get_current_data_ex ht (backward_pos ht k) = Some (backward_pos ht k)"
    using nth_mem [OF k] by (simp_all add: f zend_hash_get_current_data_ex_def bucket_at_live)
  show "entry_of (arData ht ! forward_pos ht k) = entries ht ! k"
    using k by (simp add: f live_positions_entries [OF assms(1)])
  show "entry_of (arData ht ! backward_pos ht k) = rev (entries ht) ! k"
    using k by (simp add: backward_pos_nth live_positions_entries [OF assms(1)] rev_nth)
qed

lemma walk_ends:
  assumes "ht_inv ht"
  shows "zend_hash_has_more_elements_ex ht (forward_pos ht k) = (k < length (entries ht))"
    "zend_hash_has_more_elements_ex ht (backward_pos ht k) = (k < length (entries ht))"
    "fst (zend_hash_move_forward_ex ht (forward_pos ht k)) = (k < length (entries ht))"
    "fst (zend_hash_move_backwards_ex ht (backward_pos ht k)) = (k < length (entries ht))"
proof -
  have more: "zend_hash_has_more_elements_ex ht pos = (zend_hash_get_current_data_ex ht pos \<noteq> None)" for pos
    by (simp add: zend_hash_has_more_elements_ex_def zend_hash_get_current_key_type_ex_def zend_hash_get_current_data_ex_def
        split: option.split)
  have moves: "zend_hash_get_current_data_ex ht pos \<noteq> None \<Longrightarrow> pos < nNumUsed ht" for pos
    by (simp add: zend_hash_get_current_data_ex_def bucket_at_def split: if_splits)
  have fst_move: "fst (zend_hash_move_forward_ex ht pos) = (pos < nNumUsed ht)" "fst (zend_hash_move_backwards_ex ht pos) = (pos < nNumUsed ht)" for pos
    by (simp_all add: zend_hash_move_forward_ex_def zend_hash_move_backwards_ex_def Let_def)
  have past: "zend_hash_get_current_data_ex ht (nNumUsed ht) = None" by (simp add: zend_hash_get_current_data_ex_def bucket_at_def)
  have len: "length (live_positions ht) = length (entries ht)" by (simp add: live_positions_entries [OF assms])
  have "if k < length (entries ht)
    then zend_hash_has_more_elements_ex ht (forward_pos ht k) \<and> zend_hash_has_more_elements_ex ht (backward_pos ht k) \<and>
      fst (zend_hash_move_forward_ex ht (forward_pos ht k)) \<and> fst (zend_hash_move_backwards_ex ht (backward_pos ht k))
    else \<not> zend_hash_has_more_elements_ex ht (forward_pos ht k) \<and> \<not> zend_hash_has_more_elements_ex ht (backward_pos ht k) \<and>
      \<not> fst (zend_hash_move_forward_ex ht (forward_pos ht k)) \<and> \<not> fst (zend_hash_move_backwards_ex ht (backward_pos ht k))"
    using walk_ok(1,2) [OF assms, of k] moves walk_past_end [of ht k] past by (simp add: len more fst_move)
  then show "zend_hash_has_more_elements_ex ht (forward_pos ht k) = (k < length (entries ht))"
    "zend_hash_has_more_elements_ex ht (backward_pos ht k) = (k < length (entries ht))"
    "fst (zend_hash_move_forward_ex ht (forward_pos ht k)) = (k < length (entries ht))"
    "fst (zend_hash_move_backwards_ex ht (backward_pos ht k)) = (k < length (entries ht))"
    by (auto split: if_splits)
qed

end
