(* ===== verification/Zend_Sort.thy ===== *)
theory Zend_Sort
  imports PHP_Prelude
begin

section \<open>The hybrid sort (Zend/zend\_sort.c)\<close>

text \<open>
  The array is a list, pointers are indices into it (the element size is one).  \<open>cmp\<close> is the
  comparison of two elements and \<open>sw\<close> what the swap function leaves in the two places.  A
  function gets the offset \<open>b\<close> of its base.
\<close>

type_synonym 'a compare_func = "'a \<Rightarrow> 'a \<Rightarrow> int"
type_synonym 'a swap_func = "'a \<Rightarrow> 'a \<Rightarrow> 'a \<times> 'a"

definition swp :: "'a swap_func \<Rightarrow> nat \<Rightarrow> nat \<Rightarrow> 'a list \<Rightarrow> 'a list" where
  "swp sw i j xs = (case sw (xs ! i) (xs ! j) of (p, q) \<Rightarrow> xs[i := p, j := q])"

text \<open>\<open>cmp(i, j) > 0\<close> on the elements at two indices.\<close>

definition gt_at :: "'a compare_func \<Rightarrow> 'a list \<Rightarrow> nat \<Rightarrow> nat \<Rightarrow> bool" where
  "gt_at cmp xs i j = (cmp (xs ! i) (xs ! j) > 0)"

subsection \<open>Up to five elements\<close>

definition zend_sort_2 :: "'a compare_func \<Rightarrow> 'a swap_func \<Rightarrow> nat \<Rightarrow> nat \<Rightarrow> 'a list \<Rightarrow> 'a list" where
  "zend_sort_2 cmp sw a b xs = (if gt_at cmp xs a b then swp sw a b xs else xs)"

definition zend_sort_3 :: "'a compare_func \<Rightarrow> 'a swap_func \<Rightarrow> nat \<Rightarrow> nat \<Rightarrow> nat \<Rightarrow> 'a list \<Rightarrow> 'a list" where
  "zend_sort_3 cmp sw a b c xs =
     (if \<not> gt_at cmp xs a b then
        (if \<not> gt_at cmp xs b c then xs
         else (let xs = swp sw b c xs
               in if gt_at cmp xs a b then swp sw a b xs else xs))
      else if \<not> gt_at cmp xs c b then swp sw a c xs
      else (let xs = swp sw a b xs
            in if gt_at cmp xs b c then swp sw b c xs else xs))"

definition zend_sort_4 ::
    "'a compare_func \<Rightarrow> 'a swap_func \<Rightarrow> nat \<Rightarrow> nat \<Rightarrow> nat \<Rightarrow> nat \<Rightarrow> 'a list \<Rightarrow> 'a list" where
  "zend_sort_4 cmp sw a b c d xs =
     (let xs = zend_sort_3 cmp sw a b c xs
      in if gt_at cmp xs c d then
           (let xs = swp sw c d xs
            in if gt_at cmp xs b c then
                 (let xs = swp sw b c xs
                  in if gt_at cmp xs a b then swp sw a b xs else xs)
               else xs)
         else xs)"

definition zend_sort_5 ::
    "'a compare_func \<Rightarrow> 'a swap_func \<Rightarrow> nat \<Rightarrow> nat \<Rightarrow> nat \<Rightarrow> nat \<Rightarrow> nat \<Rightarrow> 'a list \<Rightarrow> 'a list" where
  "zend_sort_5 cmp sw a b c d e xs =
     (let xs = zend_sort_4 cmp sw a b c d xs
      in if gt_at cmp xs d e then
           (let xs = swp sw d e xs
            in if gt_at cmp xs c d then
                 (let xs = swp sw c d xs
                  in if gt_at cmp xs b c then
                       (let xs = swp sw b c xs
                        in if gt_at cmp xs a b then swp sw a b xs else xs)
                     else xs)
               else xs)
         else xs)"

subsection \<open>Insertion sort\<close>

text \<open>
  The search for the place of element \<open>i\<close>, going down from \<open>j\<close>: one step at a time for the
  first six elements, two at a time after them (\<open>back_two\<close> is entered with \<open>j \<ge> 2\<close>).
\<close>

fun back_one :: "'a compare_func \<Rightarrow> 'a list \<Rightarrow> nat \<Rightarrow> nat \<Rightarrow> nat \<Rightarrow> nat" where
  "back_one cmp xs b i 0 = 0"
| "back_one cmp xs b i (Suc j) =
     (if \<not> gt_at cmp xs (b + j) (b + i) then Suc j else back_one cmp xs b i j)"

fun back_two :: "'a compare_func \<Rightarrow> 'a list \<Rightarrow> nat \<Rightarrow> nat \<Rightarrow> nat \<Rightarrow> nat" where
  "back_two cmp xs b i 0 = 0"
| "back_two cmp xs b i (Suc 0) = 0"
| "back_two cmp xs b i (Suc (Suc j)) =
     (if \<not> gt_at cmp xs (b + j) (b + i) then
        (if \<not> gt_at cmp xs (b + Suc j) (b + i) then Suc (Suc j) else Suc j)
      else if j = 0 then 0
      else if j = 1 then (if gt_at cmp xs (b + i) b then 1 else 0)
      else back_two cmp xs b i j)"

text \<open>\<open>for (k = i; k > j; k -= siz) swp(k, k - siz)\<close>\<close>

definition shift_to :: "'a swap_func \<Rightarrow> nat \<Rightarrow> nat \<Rightarrow> nat \<Rightarrow> 'a list \<Rightarrow> 'a list" where
  "shift_to sw b i j xs = fold (\<lambda>k. swp sw (b + k) (b + k - 1)) (rev [j + 1..<i + 1]) xs"

definition insert_one :: "'a compare_func \<Rightarrow> 'a swap_func \<Rightarrow> nat \<Rightarrow> nat \<Rightarrow> 'a list \<Rightarrow> 'a list" where
  "insert_one cmp sw b i xs =
     (if \<not> gt_at cmp xs (b + (i - 1)) (b + i) then xs
      else shift_to sw b i (back_one cmp xs b i (i - 1)) xs)"

definition insert_two :: "'a compare_func \<Rightarrow> 'a swap_func \<Rightarrow> nat \<Rightarrow> nat \<Rightarrow> 'a list \<Rightarrow> 'a list" where
  "insert_two cmp sw b i xs =
     (if \<not> gt_at cmp xs (b + (i - 1)) (b + i) then xs
      else shift_to sw b i (back_two cmp xs b i (i - 1)) xs)"

definition zend_insert_sort :: "'a compare_func \<Rightarrow> 'a swap_func \<Rightarrow> nat \<Rightarrow> nat \<Rightarrow> 'a list \<Rightarrow> 'a list" where
  "zend_insert_sort cmp sw b nmemb xs =
     (if nmemb \<le> 1 then xs
      else if nmemb = 2 then zend_sort_2 cmp sw b (b + 1) xs
      else if nmemb = 3 then zend_sort_3 cmp sw b (b + 1) (b + 2) xs
      else if nmemb = 4 then zend_sort_4 cmp sw b (b + 1) (b + 2) (b + 3) xs
      else if nmemb = 5 then zend_sort_5 cmp sw b (b + 1) (b + 2) (b + 3) (b + 4) xs
      else fold (insert_two cmp sw b) [6..<nmemb] (fold (insert_one cmp sw b) [1..<6] xs))"

subsection \<open>The partition step\<close>

text \<open>
  The two scans and the loop around them.  \<open>j\<close> is kept as its distance \<open>d\<close> from \<open>i\<close>; distance
  0 is the jump to \<open>done\<close>.
\<close>

fun scan_up :: "'a compare_func \<Rightarrow> 'a list \<Rightarrow> nat \<Rightarrow> nat \<Rightarrow> nat \<Rightarrow> nat \<times> nat" where
  "scan_up cmp xs p i 0 = (i, 0)"
| "scan_up cmp xs p i (Suc d) =
     (if gt_at cmp xs p i then scan_up cmp xs p (Suc i) d else (i, Suc d))"

fun scan_down :: "'a compare_func \<Rightarrow> 'a list \<Rightarrow> nat \<Rightarrow> nat \<Rightarrow> nat \<Rightarrow> nat" where
  "scan_down cmp xs p i 0 = 0"
| "scan_down cmp xs p i (Suc d) =
     (if gt_at cmp xs (i + Suc d) p then scan_down cmp xs p i d else Suc d)"

lemma scan_up_le: "scan_up cmp xs p i d = (i', d') \<Longrightarrow> i' + d' = i + d \<and> d' \<le> d"
  by (induction cmp xs p i d arbitrary: i' d' rule: scan_up.induct) (fastforce split: if_splits)+

lemma scan_down_le: "scan_down cmp xs p i d \<le> d"
  by (induction cmp xs p i d rule: scan_down.induct) auto

function zend_partition :: "'a compare_func \<Rightarrow> 'a swap_func \<Rightarrow> nat \<Rightarrow> nat \<Rightarrow> nat \<Rightarrow> 'a list \<Rightarrow> nat \<times> 'a list" where
  "zend_partition cmp sw p i d xs =
     (case scan_up cmp xs p i d of (i, d) \<Rightarrow>
       if d \<le> 1 then (i, xs)
       else (let d = scan_down cmp xs p i (d - 1)
             in if d = 0 then (i, xs)
                else (let xs = swp sw i (i + d) xs
                      in if d = 1 then (i + 1, xs)
                         else zend_partition cmp sw p (i + 1) (d - 1) xs)))"
  by pat_completeness auto
termination
proof (relation "measure (\<lambda>(cmp, sw, p, i, d, xs). d)", goal_cases)
  case (2 cmp sw p i d xs i1 d1 d2 xs1)
  have "d2 \<le> d1 - 1" using 2(3) by (simp add: scan_down_le)
  moreover have "d1 \<le> d" using 2(1) scan_up_le [of cmp xs p i d i1 d1] by simp
  ultimately show ?case using 2(2,4) by simp
qed simp

declare zend_partition.simps [simp del]

lemma zend_partition_bounds:
  assumes "zend_partition cmp sw p i d xs = (i', xs')"
  shows "i \<le> i'" "i' \<le> i + d"
proof -
  have "i \<le> fst (zend_partition cmp sw p i d xs) \<and> fst (zend_partition cmp sw p i d xs) \<le> i + d"
  proof (induction cmp sw p i d xs rule: zend_partition.induct)
    case (1 cmp sw p i d xs)
    obtain i1 d1 where s: "scan_up cmp xs p i d = (i1, d1)" by fastforce
    note b = scan_up_le [OF s] scan_down_le [of cmp xs p i1 "d1 - 1"]
    show ?case
    proof (cases "d1 \<le> 1 \<or> scan_down cmp xs p i1 (d1 - 1) \<le> 1")
      case True
      with b s show ?thesis by (subst (1 2) zend_partition.simps) (auto simp: Let_def)
    next
      case False
      let ?d = "scan_down cmp xs p i1 (d1 - 1)"
      have "i1 + 1 \<le> fst (zend_partition cmp sw p (i1 + 1) (?d - 1) (swp sw i1 (i1 + ?d) xs)) \<and>
          fst (zend_partition cmp sw p (i1 + 1) (?d - 1) (swp sw i1 (i1 + ?d) xs)) \<le> i1 + 1 + (?d - 1)"
        using False "1.IH" [OF s [symmetric] _ refl _ refl] by auto
      moreover have "i1 + 1 + (?d - 1) \<le> i + d" using b False by linarith
      ultimately show ?thesis using False b s by (subst (1 2) zend_partition.simps) (simp add: Let_def)
    qed
  qed
  with assms show "i \<le> i'" "i' \<le> i + d" by simp_all
qed

text \<open>The median goes to the second place, the loop runs, and the pivot goes between the parts.\<close>

definition sort_step :: "'a compare_func \<Rightarrow> 'a swap_func \<Rightarrow> nat \<Rightarrow> nat \<Rightarrow> 'a list \<Rightarrow> nat \<times> 'a list" where
  "sort_step cmp sw b nmemb xs =
     (let offset = nmemb div 2;
          pivot = b + offset;
          last = b + nmemb - 1;
          xs = (if nmemb div 2 ^ 10 \<noteq> 0 then
                  (let delta = offset div 2
                   in zend_sort_5 cmp sw b (b + delta) pivot (pivot + delta) last xs)
                else zend_sort_3 cmp sw b pivot last xs);
          xs = swp sw (b + 1) pivot xs;
          pivot = b + 1;
          (i, xs) = zend_partition cmp sw pivot (pivot + 1) (last - (pivot + 1)) xs
      in (i, swp sw pivot (i - 1) xs))"

lemma sort_step_bounds:
  assumes "sort_step cmp sw b n xs = (i, xs')" "2 < n"
  shows "b + 2 \<le> i" "i < b + n"
  using assms zend_partition_bounds [of cmp sw "b + 1" "b + 2" "b + n - 1 - (b + 2)"]
  by (fastforce simp: sort_step_def Let_def split: prod.splits)+

text \<open>The shorter part is sorted by the recursive call, the longer by the loop.\<close>

function zend_sort :: "'a compare_func \<Rightarrow> 'a swap_func \<Rightarrow> nat \<Rightarrow> nat \<Rightarrow> 'a list \<Rightarrow> 'a list" where
  "zend_sort cmp sw b nmemb xs =
     (if nmemb \<le> 16 then zend_insert_sort cmp sw b nmemb xs
      else
        (case sort_step cmp sw b nmemb xs of (i, xs) \<Rightarrow>
          (if i - 1 - b < b + nmemb - i then
             zend_sort cmp sw i (b + nmemb - i) (zend_sort cmp sw b (i - b - 1) xs)
           else
             zend_sort cmp sw b (i - b - 1) (zend_sort cmp sw i (b + nmemb - i) xs))))"
  by pat_completeness auto
termination
proof (relation "measure (\<lambda>(cmp, sw, b, nmemb, xs). nmemb)", goal_cases)
  case (2 cmp sw b n xs i ys)
  with sort_step_bounds [of cmp sw b n xs i ys] show ?case by simp
next
  case (3 cmp sw b n xs i ys)
  with sort_step_bounds [of cmp sw b n xs i ys] show ?case by simp
next
  case (4 cmp sw b n xs i ys)
  with sort_step_bounds [of cmp sw b n xs i ys] show ?case by simp
next
  case (5 cmp sw b n xs i ys)
  with sort_step_bounds [of cmp sw b n xs i ys] show ?case by simp
qed simp

declare zend_sort.simps [simp del]

end
