(* ===== verification/Zend_Compare.thy ===== *)
theory Zend_Compare
  imports PHP_Prelude "HOL-Library.List_Lexorder"
begin

section \<open>Comparing byte strings (Zend/zend\_operators.c)\<close>

text \<open>
  \<open>same\<close> is the test \<open>s1 == s2\<close> of the pointers.  A length difference is a \<open>size_t\<close> cut to
  \<open>int\<close>.  \<open>memcmp\<close> of the C library returns the difference of the first bytes that differ.
  For strings shorter than \<open>2 ^ 31\<close> the comparisons are the lexicographic order of the
  library on byte lists, of the lower-cased strings for those that ignore case.
\<close>

subsection \<open>Lower case\<close>

definition tolower_map :: "u8 list" where
  "tolower_map =
  [0, 1, 2, 3, 4, 5, 6, 7, 8, 9, 10, 11, 12, 13, 14, 15,
   16, 17, 18, 19, 20, 21, 22, 23, 24, 25, 26, 27, 28, 29, 30, 31,
   32, 33, 34, 35, 36, 37, 38, 39, 40, 41, 42, 43, 44, 45, 46, 47,
   48, 49, 50, 51, 52, 53, 54, 55, 56, 57, 58, 59, 60, 61, 62, 63,
   64, 97, 98, 99, 100, 101, 102, 103, 104, 105, 106, 107, 108, 109, 110, 111,
   112, 113, 114, 115, 116, 117, 118, 119, 120, 121, 122, 91, 92, 93, 94, 95,
   96, 97, 98, 99, 100, 101, 102, 103, 104, 105, 106, 107, 108, 109, 110, 111,
   112, 113, 114, 115, 116, 117, 118, 119, 120, 121, 122, 123, 124, 125, 126, 127,
   128, 129, 130, 131, 132, 133, 134, 135, 136, 137, 138, 139, 140, 141, 142, 143,
   144, 145, 146, 147, 148, 149, 150, 151, 152, 153, 154, 155, 156, 157, 158, 159,
   160, 161, 162, 163, 164, 165, 166, 167, 168, 169, 170, 171, 172, 173, 174, 175,
   176, 177, 178, 179, 180, 181, 182, 183, 184, 185, 186, 187, 188, 189, 190, 191,
   192, 193, 194, 195, 196, 197, 198, 199, 200, 201, 202, 203, 204, 205, 206, 207,
   208, 209, 210, 211, 212, 213, 214, 215, 216, 217, 218, 219, 220, 221, 222, 223,
   224, 225, 226, 227, 228, 229, 230, 231, 232, 233, 234, 235, 236, 237, 238, 239,
   240, 241, 242, 243, 244, 245, 246, 247, 248, 249, 250, 251, 252, 253, 254, 255]"

definition zend_tolower_ascii :: "u8 \<Rightarrow> u8" where
  "zend_tolower_ascii c = tolower_map ! unat c"

lemma tolower_map_conv:
  "tolower_map = map (\<lambda>c. if 65 \<le> c \<and> c \<le> 90 then of_nat (c + 32) else of_nat c) [0..<256]"
  unfolding tolower_map_def by code_simp

lemma zend_tolower_ascii_conv:
  "zend_tolower_ascii c = (if 65 \<le> c \<and> c \<le> 90 then c + 32 else c)"
proof -
  have u: "unat c < 256" using unsigned_less [of c] by simp
  then have "zend_tolower_ascii c =
      (if 65 \<le> unat c \<and> unat c \<le> 90 then of_nat (unat c + 32) else of_nat (unat c))"
    by (simp add: zend_tolower_ascii_def tolower_map_conv)
  then show ?thesis by (simp add: word_le_nat_alt)
qed

subsection \<open>The comparisons\<close>

definition size_diff :: "nat \<Rightarrow> nat \<Rightarrow> int" where
  "size_diff l1 l2 = sint (word_of_int (int l1 - int l2) :: 32 word)"

fun memcmp :: "bytes \<Rightarrow> bytes \<Rightarrow> nat \<Rightarrow> int" where
  "memcmp (a # s) (b # t) (Suc n) = (if a = b then memcmp s t n else uint a - uint b)"
| "memcmp s t n = 0"

definition zend_binary_strcmp :: "bool \<Rightarrow> bytes \<Rightarrow> bytes \<Rightarrow> int" where
  "zend_binary_strcmp same s1 s2 =
     (if same then 0
      else (let retval = memcmp s1 s2 (min (length s1) (length s2))
            in if retval = 0 then size_diff (length s1) (length s2) else retval))"

definition zend_binary_strncmp :: "bool \<Rightarrow> bytes \<Rightarrow> bytes \<Rightarrow> nat \<Rightarrow> int" where
  "zend_binary_strncmp same s1 s2 n =
     (if same then 0
      else (let retval = memcmp s1 s2 (min n (min (length s1) (length s2)))
            in if retval = 0 then size_diff (min n (length s1)) (min n (length s2)) else retval))"

text \<open>The loop \<open>while (len--)\<close> of the case-insensitive comparisons; \<open>low\<close> lowers a byte.\<close>

fun casecmp_loop :: "(u8 \<Rightarrow> u8) \<Rightarrow> bytes \<Rightarrow> bytes \<Rightarrow> nat \<Rightarrow> int option" where
  "casecmp_loop low (a # s) (b # t) (Suc n) =
     (if low a \<noteq> low b then Some (uint (low a) - uint (low b)) else casecmp_loop low s t n)"
| "casecmp_loop low s t n = None"

definition zend_binary_strcasecmp :: "bool \<Rightarrow> bytes \<Rightarrow> bytes \<Rightarrow> int" where
  "zend_binary_strcasecmp same s1 s2 =
     (if same then 0
      else case casecmp_loop zend_tolower_ascii s1 s2 (min (length s1) (length s2)) of
          Some r \<Rightarrow> r
        | None \<Rightarrow> size_diff (length s1) (length s2))"

definition zend_binary_strncasecmp :: "bool \<Rightarrow> bytes \<Rightarrow> bytes \<Rightarrow> nat \<Rightarrow> int" where
  "zend_binary_strncasecmp same s1 s2 n =
     (if same then 0
      else case casecmp_loop zend_tolower_ascii s1 s2 (min n (min (length s1) (length s2))) of
          Some r \<Rightarrow> r
        | None \<Rightarrow> size_diff (min n (length s1)) (min n (length s2)))"

text \<open>The versions for the current locale get its \<open>tolower\<close> of the C library.\<close>

definition zend_binary_strcasecmp_l :: "(u8 \<Rightarrow> u8) \<Rightarrow> bool \<Rightarrow> bytes \<Rightarrow> bytes \<Rightarrow> int" where
  "zend_binary_strcasecmp_l tolower same s1 s2 =
     (if same then 0
      else case casecmp_loop tolower s1 s2 (min (length s1) (length s2)) of
          Some r \<Rightarrow> r
        | None \<Rightarrow> size_diff (length s1) (length s2))"

definition zend_binary_strncasecmp_l :: "(u8 \<Rightarrow> u8) \<Rightarrow> bool \<Rightarrow> bytes \<Rightarrow> bytes \<Rightarrow> nat \<Rightarrow> int" where
  "zend_binary_strncasecmp_l tolower same s1 s2 n =
     (if same then 0
      else case casecmp_loop tolower s1 s2 (min n (min (length s1) (length s2))) of
          Some r \<Rightarrow> r
        | None \<Rightarrow> size_diff (min n (length s1)) (min n (length s2)))"

subsection \<open>They are the lexicographic order\<close>

definition lex_sign :: "int \<Rightarrow> bytes \<Rightarrow> bytes \<Rightarrow> bool" where
  "lex_sign r s t = ((r < 0) = (s < t) \<and> (r = 0) = (s = t) \<and> (r > 0) = (t < s))"

lemma size_diff_small:
  assumes "l1 < 2 ^ 31" "l2 < 2 ^ 31"
  shows "size_diff l1 l2 = int l1 - int l2"
proof -
  have "- (2 ^ 31) \<le> int l1 - int l2" "int l1 - int l2 < 2 ^ 31" using assms by simp_all
  then show ?thesis unfolding size_diff_def sint_sbintrunc' by (simp add: signed_take_bit_int_eq_self)
qed

lemma lex_sign_Cons: "lex_sign r s t \<Longrightarrow> lex_sign r (a # s) (a # t)"
  by (simp add: lex_sign_def)

lemma lex_sign_diff: "a \<noteq> b \<Longrightarrow> lex_sign (uint a - uint b) (a # s) (b # t)"
  by (auto simp: lex_sign_def word_less_def word_uint_eq_iff)

lemma lex_sign_nil:
  assumes "s = [] \<or> t = []" "length s < 2 ^ 31" "length t < 2 ^ 31"
  shows "lex_sign (size_diff (length s) (length t)) s t"
  using assms by (cases s; cases t) (auto simp: size_diff_small lex_sign_def)

definition strcmp_val :: "bytes \<Rightarrow> bytes \<Rightarrow> int" where
  "strcmp_val s t = (let retval = memcmp s t (min (length s) (length t))
     in if retval = 0 then size_diff (length s) (length t) else retval)"

lemma strcmp_val_Cons:
  assumes "length (a # s) < 2 ^ 31" "length (b # t) < 2 ^ 31"
  shows "strcmp_val (a # s) (b # t) = (if a = b then strcmp_val s t else uint a - uint b)"
proof -
  have "size_diff (length (a # s)) (length (b # t)) = size_diff (length s) (length t)"
    using assms by (simp add: size_diff_small)
  then show ?thesis by (auto simp: strcmp_val_def Let_def word_uint_eq_iff)
qed

lemma strcmp_val_sign: "length s < 2 ^ 31 \<Longrightarrow> length t < 2 ^ 31 \<Longrightarrow> lex_sign (strcmp_val s t) s t"
proof (induction s arbitrary: t)
  case Nil
  then show ?case using lex_sign_nil [of "[]" t] by (simp add: strcmp_val_def)
next
  case (Cons a s)
  show ?case
  proof (cases t)
    case Nil
    with Cons.prems lex_sign_nil [of "a # s" "[]"] show ?thesis by (simp add: strcmp_val_def)
  next
    case t: (Cons b u)
    have "lex_sign (strcmp_val s u) s u" using Cons by (simp add: t)
    then show ?thesis
      using strcmp_val_Cons [of a s b u] Cons.prems lex_sign_Cons lex_sign_diff by (simp add: t)
  qed
qed

lemma binary_strcmp_sign:
  assumes "length s < 2 ^ 31" "length t < 2 ^ 31"
  shows "lex_sign (zend_binary_strcmp False s t) s t"
  using strcmp_val_sign [OF assms] by (simp add: zend_binary_strcmp_def strcmp_val_def)

lemma casecmp_memcmp:
  "(case casecmp_loop low s t n of Some r \<Rightarrow> r | None \<Rightarrow> d) =
    (if memcmp (map low s) (map low t) n = 0 then d else memcmp (map low s) (map low t) n)"
  by (induction low s t n rule: casecmp_loop.induct) (auto simp: word_uint_eq_iff)

lemma binary_strcasecmp_sign:
  assumes "length s < 2 ^ 31" "length t < 2 ^ 31"
  shows "lex_sign (zend_binary_strcasecmp False s t) (map zend_tolower_ascii s) (map zend_tolower_ascii t)"
  using strcmp_val_sign [of "map zend_tolower_ascii s" "map zend_tolower_ascii t"] assms
  by (simp add: zend_binary_strcasecmp_def casecmp_memcmp strcmp_val_def Let_def cong: if_cong)

text \<open>The bounded comparisons are the others on the prefixes.\<close>

lemma memcmp_take: "memcmp (take n s) (take n t) n = memcmp s t n"
  by (induction s t n rule: memcmp.induct) (auto split: list.split nat.split simp: take_Cons')

subsection \<open>Every pair of strings\<close>

text \<open>
  Two strings either differ first in a byte behind a common prefix, or one is a prefix of the other.
\<close>

lemma memcmp_prefix: "memcmp (p @ s) (p @ t) (length p + n) = memcmp s t n"
  by (induction p) simp_all

lemma size_diff_prefix:
  "size_diff (m + n) m = sint (of_nat n :: 32 word)" "size_diff m (m + n) = sint (- of_nat n :: 32 word)"
  by (simp_all add: size_diff_def)

lemma sint_cut:
  "sint (of_nat n :: 32 word) < 0 \<longleftrightarrow> 2 ^ 31 \<le> n mod 2 ^ 32" "sint (of_nat n :: 32 word) = 0 \<longleftrightarrow> n mod 2 ^ 32 = 0"
proof -
  define m where "m = n mod 2 ^ 32"
  have e: "sint (of_nat n :: 32 word) = (int m + 2 ^ 31) mod 2 ^ 32 - 2 ^ 31"
    using int_word_sint [of "int n", where ?'a = 32] by (simp add: m_def zmod_int mod_add_left_eq)
  have "m < 2 ^ 32" by (simp add: m_def)
  then have "sint (of_nat n :: 32 word) = (if m < 2 ^ 31 then int m else int m - 2 ^ 32)"
  proof (cases "m < 2 ^ 31")
    case False
    have "(int m + 2 ^ 31) mod 2 ^ 32 = (int m - 2 ^ 31 + 2 ^ 32) mod (2 ^ 32 :: int)" by (rule arg_cong) simp
    also have "\<dots> = int m - 2 ^ 31"
      using False \<open>m < 2 ^ 32\<close> unfolding mod_add_self2 by (intro mod_pos_pos_trivial) auto
    finally show ?thesis using False e by simp
  qed (simp add: e mod_pos_pos_trivial)
  then show "sint (of_nat n :: 32 word) < 0 \<longleftrightarrow> 2 ^ 31 \<le> n mod 2 ^ 32" "sint (of_nat n :: 32 word) = 0 \<longleftrightarrow> n mod 2 ^ 32 = 0"
    using \<open>m < 2 ^ 32\<close> unfolding m_def [symmetric] by auto
qed

lemma strcmp_byte:
  assumes "a \<noteq> b"
  shows "zend_binary_strcmp False (s @ a # t) (s @ b # u) = uint a - uint b"
proof -
  have "min (length (s @ a # t)) (length (s @ b # u)) = length s + Suc (min (length t) (length u))" by simp
  then show ?thesis using assms memcmp_prefix [of s "a # t" "b # u" "Suc (min (length t) (length u))"]
    by (simp add: zend_binary_strcmp_def word_uint_eq_iff)
qed

lemma strcmp_prefix:
  "zend_binary_strcmp False (s @ t) s = sint (of_nat (length t) :: 32 word)"
  "zend_binary_strcmp False s (s @ t) = sint (- of_nat (length t) :: 32 word)"
proof -
  have "memcmp (s @ t) s (length s) = 0" "memcmp s (s @ t) (length s) = 0"
    using memcmp_prefix [of s t "[]" 0] memcmp_prefix [of s "[]" t 0] by simp_all
  then show "zend_binary_strcmp False (s @ t) s = sint (of_nat (length t) :: 32 word)"
    "zend_binary_strcmp False s (s @ t) = sint (- of_nat (length t) :: 32 word)"
    by (simp_all add: zend_binary_strcmp_def size_diff_prefix min_absorb1 min_absorb2)
qed

end
