(* ===== verification/Zend_Hash_Sort.thy ===== *)
theory Zend_Hash_Sort
  imports Zend_Hash_Del Zend_Hash_Position Zend_Sort Zend_Compare
begin

section \<open>Sorting and comparing tables (Zend/zend\_hash.c)\<close>

text \<open>
  The comparison of \<open>zend_hash_sort_ex\<close> gets two buckets.  The swap functions exchange the
  value, the hash and the key of two buckets (or only part of them) and leave the chain
  fields where they are; the chains are rebuilt afterwards.
\<close>

subsection \<open>Swapping buckets\<close>

definition zend_hash_bucket_swap :: "'v bucket swap_func" where
  "zend_hash_bucket_swap p q =
     (p\<lparr>b_val := b_val q, b_h := b_h q, b_key := b_key q\<rparr>, q\<lparr>b_val := b_val p, b_h := b_h p, b_key := b_key p\<rparr>)"

definition zend_hash_bucket_renum_swap :: "'v bucket swap_func" where
  "zend_hash_bucket_renum_swap p q = (p\<lparr>b_val := b_val q\<rparr>, q\<lparr>b_val := b_val p\<rparr>)"

definition zend_hash_bucket_packed_swap :: "'v bucket swap_func" where
  "zend_hash_bucket_packed_swap p q = (p\<lparr>b_val := b_val q, b_h := b_h q\<rparr>, q\<lparr>b_val := b_val p, b_h := b_h p\<rparr>)"

subsection \<open>zend\_hash\_sort\_ex\<close>

type_synonym 'b sort_func = "'b compare_func \<Rightarrow> 'b swap_func \<Rightarrow> nat \<Rightarrow> nat \<Rightarrow> 'b list \<Rightarrow> 'b list"

text \<open>The loop that closes the holes before sorting; it counts the live buckets in \<open>i\<close>.\<close>

definition close_holes :: "'v HashTable \<Rightarrow> nat \<times> 'v bucket list" where
  "close_holes ht =
     fold (\<lambda>j (i, ar). if Z_ISUNDEF (ar ! j) then (i, ar)
                       else (i + 1, if i \<noteq> j then ar[i := ar ! j] else ar))
       [0..<nNumUsed ht] (0, arData ht)"

text \<open>\<open>p->h = j; if (p->key) { zend_string_release(p->key); p->key = NULL; }\<close>\<close>

definition renumber_bucket :: "nat \<Rightarrow> 'v env \<times> 'v HashTable \<Rightarrow> 'v env \<times> 'v HashTable" where
  "renumber_bucket j = (\<lambda>(e, ht).
     (release_key (arData ht ! j) e, upd_bucket j (\<lambda>p. p\<lparr>b_h := of_nat j, b_key := None\<rparr>) ht))"

definition sort_finish :: "'v env \<Rightarrow> 'v HashTable \<Rightarrow> bool \<Rightarrow> ('v env \<times> 'v HashTable) res" where
  "sort_finish e ht renumber =
     (if ht_packed ht then (if \<not> renumber then zend_hash_packed_to_hash e ht else Inr (e, ht))
      else if renumber then
        (let ht = ht\<lparr>ht_packed := True, ht_static_keys := True, nTableMask := HT_MIN_MASK,
                     ht_hash := alloc_hash e HT_MIN_MASK,
                     arData := realloc_buckets e (arData ht) (nNumUsed ht) (nTableSize ht)\<rparr>
         in Inr (e, HT_HASH_RESET_PACKED ht))
      else zend_hash_rehash e ht)"

definition zend_hash_sort_ex ::
    "'v env \<Rightarrow> 'v HashTable \<Rightarrow> 'v bucket sort_func \<Rightarrow> 'v bucket compare_func \<Rightarrow> bool \<Rightarrow> ('v env \<times> 'v HashTable) res" where
  "zend_hash_sort_ex e ht srt compar renumber =
     (if \<not> nNumOfElements ht > 1 \<and> \<not> (renumber \<and> nNumOfElements ht > 0) then Inr (e, ht)
      else
        (let (i, ar) = (if HT_IS_WITHOUT_HOLES ht then (nNumUsed ht, arData ht) else close_holes ht);
             ar = srt compar (if renumber then zend_hash_bucket_renum_swap
                               else if ht_packed ht then zend_hash_bucket_packed_swap
                               else zend_hash_bucket_swap) 0 i ar;
             ht = ht\<lparr>arData := ar, nNumUsed := i, nInternalPointer := 0\<rparr>;
             (e, ht) = (if renumber
                        then (let (e, ht) = fold renumber_bucket [0..<i] (e, ht)
                              in (e, ht\<lparr>nNextFreeElement := of_nat i\<rparr>))
                        else (e, ht))
         in sort_finish e ht renumber))"

definition zend_hash_sort ::
    "'v env \<Rightarrow> 'v HashTable \<Rightarrow> 'v bucket compare_func \<Rightarrow> bool \<Rightarrow> ('v env \<times> 'v HashTable) res" where
  "zend_hash_sort e ht compare_func renumber = zend_hash_sort_ex e ht zend_sort compare_func renumber"

subsection \<open>Smallest and greatest element\<close>

definition zend_hash_minmax :: "'v HashTable \<Rightarrow> 'v bucket compare_func \<Rightarrow> bool \<Rightarrow> nat option" where
  "zend_hash_minmax ht compar flag =
     (if nNumOfElements ht = 0 then None
      else
        (let idx = get_first_pos_from ht 0
         in if idx = nNumUsed ht then None
            else Some (fold (\<lambda>idx res.
                   (let p = arData ht ! idx
                    in if Z_ISUNDEF p then res
                       else if flag then (if compar (arData ht ! res) p < 0 then idx else res)
                       else (if compar (arData ht ! res) p > 0 then idx else res)))
                 [idx..<nNumUsed ht] idx)))"

subsection \<open>Comparing two tables\<close>

text \<open>The values of two elements: slots are followed, undefined ones come first.\<close>

definition compare_values :: "'v env \<Rightarrow> 'v zval compare_func \<Rightarrow> 'v zval \<Rightarrow> 'v zval \<Rightarrow> int" where
  "compare_values e compar v1 v2 =
     (let d1 = (case v1 of IS_INDIRECT a \<Rightarrow> e_slots e a | _ \<Rightarrow> v1);
          d2 = (case v2 of IS_INDIRECT a \<Rightarrow> e_slots e a | _ \<Rightarrow> v2)
      in if d1 = IS_UNDEF then (if d2 \<noteq> IS_UNDEF then - 1 else 0)
         else if d2 = IS_UNDEF then 1
         else compar d1 d2)"

text \<open>The keys of two buckets in an ordered comparison.\<close>

definition compare_keys :: "'v bucket \<Rightarrow> 'v bucket \<Rightarrow> int" where
  "compare_keys p1 p2 =
     (case (b_key p1, b_key p2) of
        (None, None) \<Rightarrow> (if b_h p1 \<noteq> b_h p2 then (if b_h p1 > b_h p2 then 1 else - 1) else 0)
      | (Some k1, Some k2) \<Rightarrow>
          (if ZSTR_LEN k1 \<noteq> ZSTR_LEN k2 then (if ZSTR_LEN k1 > ZSTR_LEN k2 then 1 else - 1)
           else memcmp (zs_val k1) (zs_val k2) (ZSTR_LEN k1))
      | (Some k1, None) \<Rightarrow> 1
      | (None, Some k2) \<Rightarrow> - 1)"

text \<open>
  The loop over the first table.  \<open>idx2\<close> is the bucket of the second table in an ordered
  comparison; running past its end is outside the model (the assertion of the debug build).
\<close>

fun compare_loop ::
    "'v env \<Rightarrow> 'v HashTable \<Rightarrow> 'v zval compare_func \<Rightarrow> bool \<Rightarrow> 'v bucket list \<Rightarrow> nat \<Rightarrow> int res" where
  "compare_loop e ht2 compar ordered [] idx2 = Inr 0"
| "compare_loop e ht2 compar ordered (p1 # ps) idx2 =
     (if Z_ISUNDEF p1 then compare_loop e ht2 compar ordered ps idx2
      else if ordered then
        (let idx2 = get_first_pos_from ht2 idx2
         in if idx2 \<ge> nNumUsed ht2 then Inl UB
            else
              (let p2 = arData ht2 ! idx2; result = compare_keys p1 p2
               in if result \<noteq> 0 then Inr result
                  else
                    (let result = compare_values e compar (b_val p1) (b_val p2)
                     in if result \<noteq> 0 then Inr result
                        else compare_loop e ht2 compar ordered ps (idx2 + 1))))
      else
        rbind (case b_key p1 of
                 None \<Rightarrow> zend_hash_index_find ht2 (b_h p1)
               | Some key \<Rightarrow> zend_hash_find ht2 key)
          (\<lambda>r. case r of
             None \<Rightarrow> Inr 1
           | Some i \<Rightarrow>
               (let result = compare_values e compar (b_val p1) (b_val (arData ht2 ! i))
                in if result \<noteq> 0 then Inr result else compare_loop e ht2 compar ordered ps idx2)))"

definition zend_hash_compare_impl ::
    "'v env \<Rightarrow> 'v HashTable \<Rightarrow> 'v HashTable \<Rightarrow> 'v zval compare_func \<Rightarrow> bool \<Rightarrow> int res" where
  "zend_hash_compare_impl e ht1 ht2 compar ordered =
     (if nNumOfElements ht1 \<noteq> nNumOfElements ht2
      then Inr (if nNumOfElements ht1 > nNumOfElements ht2 then 1 else - 1)
      else compare_loop e ht2 compar ordered (take (nNumUsed ht1) (arData ht1)) 0)"

text \<open>
  \<open>recursive\<close> and \<open>immutable\<close> are the protection flags of the first table; \<open>same\<close> says that
  both arguments are the same table.  The protection is set during the comparison and
  removed after it, so the flags are as before.
\<close>

definition zend_hash_compare ::
    "'v env \<Rightarrow> bool \<Rightarrow> bool \<Rightarrow> 'v HashTable \<Rightarrow> 'v HashTable \<Rightarrow> 'v zval compare_func \<Rightarrow> bool \<Rightarrow> int res" where
  "zend_hash_compare e same recursive ht1 ht2 compar ordered =
     (if same then Inr 0
      else if recursive then Inl E_ERROR
      else zend_hash_compare_impl e ht1 ht2 compar ordered)"

end
