(* ===== verification/Zend_Sort_Correct.thy ===== *)
theory Zend_Sort_Correct
  imports Zend_Sort
begin

section \<open>The hybrid sort sorts\<close>

text \<open>
  The contract of the comparison and of the swap function: \<open>pv\<close> is the part of an element the
  swap exchanges and the comparison looks at, \<open>gt\<close> its strict weak order.  Under it every
  routine permutes the parts at its indices and leaves them in order; places outside its
  range are untouched.
\<close>

subsection \<open>Rearranging a set of places\<close>

definition rearranged :: "('a \<Rightarrow> 'p) \<Rightarrow> nat set \<Rightarrow> 'a list \<Rightarrow> 'a list \<Rightarrow> bool" where
  "rearranged pv S xs ys = (length ys = length xs \<and> mset (map pv ys) = mset (map pv xs) \<and>
     (\<forall>k. k \<notin> S \<longrightarrow> ys ! k = xs ! k))"

lemma rearranged_refl [simp]: "rearranged pv S xs xs"
  by (simp add: rearranged_def)

lemma rearranged_trans: "rearranged pv S xs ys \<Longrightarrow> rearranged pv S ys zs \<Longrightarrow> rearranged pv S xs zs"
  by (simp add: rearranged_def)

lemma rearranged_mono: "rearranged pv S xs ys \<Longrightarrow> S \<subseteq> T \<Longrightarrow> rearranged pv T xs ys"
  by (auto simp: rearranged_def)

lemma rearranged_length: "rearranged pv S xs ys \<Longrightarrow> length ys = length xs"
  by (simp add: rearranged_def)

lemma rearranged_same: "rearranged pv S xs ys \<Longrightarrow> k \<notin> S \<Longrightarrow> ys ! k = xs ! k"
  by (simp add: rearranged_def)

lemma mset_map_nth: "mset (map f xs) = image_mset (\<lambda>k. f (xs ! k)) (mset_set {..<length xs})"
proof -
  have "map f xs = map (\<lambda>k. f (xs ! k)) [0..<length xs]" by (rule nth_equalityI) simp_all
  then have "mset (map f xs) = image_mset (\<lambda>k. f (xs ! k)) (mset [0..<length xs])" by (metis mset_map)
  also have "mset [0..<length xs] = mset_set {..<length xs}" by (simp add: lessThan_atLeast0)
  finally show ?thesis .
qed

lemma rearranged_image:
  assumes r: "rearranged pv S xs ys" and S: "S \<subseteq> {..<length xs}"
  shows "(\<lambda>k. pv (ys ! k)) ` S = (\<lambda>k. pv (xs ! k)) ` S"
proof -
  let ?n = "{..<length xs}"
  have sp: "mset_set ?n = mset_set S + mset_set (?n - S)"
    using S by (metis finite_lessThan mset_set_Diff subset_mset.add_diff_inverse subset_imp_msubset_mset_set)
  have "image_mset (\<lambda>k. pv (ys ! k)) (mset_set ?n) = image_mset (\<lambda>k. pv (xs ! k)) (mset_set ?n)"
    using r unfolding rearranged_def by (metis mset_map_nth)
  moreover have "image_mset (\<lambda>k. pv (ys ! k)) (mset_set (?n - S)) = image_mset (\<lambda>k. pv (xs ! k)) (mset_set (?n - S))"
    by (rule image_mset_cong) (use r in \<open>auto simp: rearranged_def\<close>)
  ultimately have "image_mset (\<lambda>k. pv (ys ! k)) (mset_set S) = image_mset (\<lambda>k. pv (xs ! k)) (mset_set S)"
    by (simp add: sp)
  then have "set_mset (image_mset (\<lambda>k. pv (ys ! k)) (mset_set S)) = set_mset (image_mset (\<lambda>k. pv (xs ! k)) (mset_set S))"
    by simp
  moreover have "finite S" using S by (rule finite_subset) simp
  ultimately show ?thesis by simp
qed

text \<open>What holds of all parts at the places still does.\<close>

lemma rearranged_all:
  assumes "rearranged pv S xs ys" "S \<subseteq> {..<length xs}" "\<forall>k \<in> S. P (pv (xs ! k))"
  shows "\<forall>k \<in> S. P (pv (ys ! k))"
  using rearranged_image [OF assms(1,2)] assms(3) by (metis (no_types, lifting) image_iff)

subsection \<open>The contract\<close>

locale sorter =
  fixes cmp :: "'a compare_func" and sw :: "'a swap_func" and pv :: "'a \<Rightarrow> 'p" and gt :: "'p \<Rightarrow> 'p \<Rightarrow> bool"
  assumes cmp_gt: "(cmp x y > 0) = gt (pv x) (pv y)"
    and sw_pv: "pv (fst (sw x y)) = pv y" "pv (snd (sw x y)) = pv x"
    and gt_asym: "gt a b \<Longrightarrow> \<not> gt b a"
    and le_trans: "\<not> gt a b \<Longrightarrow> \<not> gt b c \<Longrightarrow> \<not> gt a c"
begin

definition at :: "'a list \<Rightarrow> nat \<Rightarrow> 'p" where
  "at xs k = pv (xs ! k)"

definition le :: "'p \<Rightarrow> 'p \<Rightarrow> bool" where
  "le a b = (\<not> gt a b)"

lemma le_total: "\<not> le a b \<Longrightarrow> le b a"
  using gt_asym by (auto simp: le_def)

lemma le_refl [simp]: "le a a"
  using gt_asym by (auto simp: le_def)

lemma le_tr: "le a b \<Longrightarrow> le b c \<Longrightarrow> le a c"
  using le_trans by (auto simp: le_def)

lemma gt_at_le [simp]: "gt_at cmp xs i j = (\<not> le (at xs i) (at xs j))"
  by (simp add: gt_at_def cmp_gt le_def at_def)

definition sorted_in :: "nat set \<Rightarrow> 'a list \<Rightarrow> bool" where
  "sorted_in S xs = (\<forall>i \<in> S. \<forall>j \<in> S. i < j \<longrightarrow> le (at xs i) (at xs j))"

lemma swp_at:
  assumes "i < length xs" "j < length xs"
  shows "at (swp sw i j xs) k = at xs (if k = i then j else if k = j then i else k)"
  using assms sw_pv [of "xs ! i" "xs ! j"]
  by (cases "sw (xs ! i) (xs ! j)") (auto simp: swp_def at_def nth_list_update)

lemma swp_length [simp]: "length (swp sw i j xs) = length xs"
  by (simp add: swp_def split: prod.split)

lemma swp_rearranged:
  assumes "i < length xs" "j < length xs" "{i, j} \<subseteq> S"
  shows "rearranged pv S xs (swp sw i j xs)"
proof -
  obtain p q where pq: "sw (xs ! i) (xs ! j) = (p, q)" by fastforce
  then have p: "pv p = pv (xs ! j)" "pv q = pv (xs ! i)" using sw_pv [of "xs ! i" "xs ! j"] by simp_all
  have "map pv (swp sw i j xs) = (map pv xs)[i := map pv xs ! j, j := map pv xs ! i]"
    using assms by (simp add: swp_def pq map_update p)
  then have "mset (map pv (swp sw i j xs)) = mset (map pv xs)"
    using assms(1,2) mset_swap [of j "map pv xs" i] by (simp del: mset_map)
  moreover have "swp sw i j xs ! k = xs ! k" if "k \<notin> S" for k
    using that assms(3) by (auto simp: swp_def pq) (metis nth_list_update_neq)
  ultimately show ?thesis by (simp add: rearranged_def)
qed

lemma step_if: "(P \<Longrightarrow> rearranged pv S xs ys) \<Longrightarrow> (\<not> P \<Longrightarrow> rearranged pv S xs zs) \<Longrightarrow>
    rearranged pv S xs (if P then ys else zs)"
  by simp

lemma step_swp: "rearranged pv S xs ys \<Longrightarrow> i \<in> S \<Longrightarrow> j \<in> S \<Longrightarrow> S \<subseteq> {..<length xs} \<Longrightarrow>
    rearranged pv S xs (swp sw i j ys)"
  by (rule rearranged_trans) (auto intro!: swp_rearranged simp: rearranged_length)

lemmas step_intros = step_if step_swp rearranged_refl

subsection \<open>Up to five elements\<close>

lemma sort_2:
  assumes "a \<noteq> b" "{a, b} \<subseteq> {..<length xs}"
  shows "le (at (zend_sort_2 cmp sw a b xs) a) (at (zend_sort_2 cmp sw a b xs) b)"
    "rearranged pv {a, b} xs (zend_sort_2 cmp sw a b xs)"
  using assms le_total by (auto simp: zend_sort_2_def swp_at swp_rearranged)

lemma sort_3:
  assumes "distinct [a, b, c]" "{a, b, c} \<subseteq> {..<length xs}"
  defines "ys \<equiv> zend_sort_3 cmp sw a b c xs"
  shows "le (at ys a) (at ys b)" "le (at ys b) (at ys c)" "rearranged pv {a, b, c} xs ys"
proof -
  show "rearranged pv {a, b, c} xs ys"
    unfolding ys_def zend_sort_3_def Let_def by (intro step_intros) (use assms(2) in auto)
  have "le (at ys a) (at ys b) \<and> le (at ys b) (at ys c)"
    using assms(1,2) unfolding ys_def zend_sort_3_def Let_def
    by (simp add: swp_at) (metis le_total le_tr)
  then show "le (at ys a) (at ys b)" "le (at ys b) (at ys c)" by simp_all
qed

lemma sort_4:
  assumes "distinct [a, b, c, d]" "{a, b, c, d} \<subseteq> {..<length xs}"
  defines "ys \<equiv> zend_sort_4 cmp sw a b c d xs"
  shows "le (at ys a) (at ys b)" "le (at ys b) (at ys c)" "le (at ys c) (at ys d)" "rearranged pv {a, b, c, d} xs ys"
proof -
  define zs where "zs = zend_sort_3 cmp sw a b c xs"
  have s3: "le (at zs a) (at zs b)" "le (at zs b) (at zs c)" "rearranged pv {a, b, c} xs zs"
    using sort_3 [of a b c xs] assms(1,2) by (simp_all add: zs_def)
  then have r: "rearranged pv {a, b, c, d} xs zs" by (rule_tac rearranged_mono) auto
  show "rearranged pv {a, b, c, d} xs ys"
    unfolding ys_def zend_sort_4_def Let_def zs_def [symmetric]
    by (intro step_if step_swp r) (use assms(2) in auto)
  have "length zs = length xs" using r by (rule rearranged_length)
  then have "le (at ys a) (at ys b) \<and> le (at ys b) (at ys c) \<and> le (at ys c) (at ys d)"
    using assms(1,2) s3(1,2) unfolding ys_def zend_sort_4_def Let_def zs_def [symmetric]
    by (simp add: swp_at) (metis le_total le_tr)
  then show "le (at ys a) (at ys b)" "le (at ys b) (at ys c)" "le (at ys c) (at ys d)" by simp_all
qed

lemma sort_5:
  assumes "distinct [a, b, c, d, e]" "{a, b, c, d, e} \<subseteq> {..<length xs}"
  defines "ys \<equiv> zend_sort_5 cmp sw a b c d e xs"
  shows "le (at ys a) (at ys b)" "le (at ys b) (at ys c)" "le (at ys c) (at ys d)" "le (at ys d) (at ys e)"
    "rearranged pv {a, b, c, d, e} xs ys"
proof -
  define zs where "zs = zend_sort_4 cmp sw a b c d xs"
  have s4: "le (at zs a) (at zs b)" "le (at zs b) (at zs c)" "le (at zs c) (at zs d)" "rearranged pv {a, b, c, d} xs zs"
    using sort_4 [of a b c d xs] assms(1,2) by (simp_all add: zs_def)
  then have r: "rearranged pv {a, b, c, d, e} xs zs" by (rule_tac rearranged_mono) auto
  show "rearranged pv {a, b, c, d, e} xs ys"
    unfolding ys_def zend_sort_5_def Let_def zs_def [symmetric]
    by (intro step_if step_swp r) (use assms(2) in auto)
  have "length zs = length xs" using r by (rule rearranged_length)
  then have "le (at ys a) (at ys b) \<and> le (at ys b) (at ys c) \<and> le (at ys c) (at ys d) \<and> le (at ys d) (at ys e)"
    using assms(1,2) assms(1) [THEN distinct_rev [THEN iffD2]] s4(1-3) le_total [of "at zs d" "at zs e"] le_total [of "at zs c" "at zs e"]
      le_total [of "at zs b" "at zs e"] le_total [of "at zs a" "at zs e"]
    unfolding ys_def zend_sort_5_def Let_def zs_def [symmetric]
    by (cases "le (at zs d) (at zs e)"; cases "le (at zs c) (at zs e)"; cases "le (at zs b) (at zs e)";
        cases "le (at zs a) (at zs e)") (simp_all add: swp_at)
  then show "le (at ys a) (at ys b)" "le (at ys b) (at ys c)" "le (at ys c) (at ys d)" "le (at ys d) (at ys e)" by simp_all
qed

subsection \<open>Insertion sort\<close>

text \<open>\<open>j\<close> is a place for element \<open>i\<close> in the sorted part before it.\<close>

definition place :: "'a list \<Rightarrow> nat \<Rightarrow> nat \<Rightarrow> nat \<Rightarrow> bool" where
  "place xs b i j = (j \<le> i \<and> (\<forall>k < j. le (at xs (b + k)) (at xs (b + i))) \<and>
     (\<forall>k. j \<le> k \<and> k < i \<longrightarrow> le (at xs (b + i)) (at xs (b + k))))"

definition above :: "'a list \<Rightarrow> nat \<Rightarrow> nat \<Rightarrow> nat \<Rightarrow> bool" where
  "above xs b i j = (\<forall>k. j \<le> k \<and> k < i \<longrightarrow> \<not> le (at xs (b + k)) (at xs (b + i)))"

lemma sorted_in_le: "sorted_in {b..<b + i} xs \<Longrightarrow> j \<le> k \<Longrightarrow> k < i \<Longrightarrow> le (at xs (b + j)) (at xs (b + k))"
  by (cases "j = k") (auto simp: sorted_in_def)

lemma place_found:
  assumes "sorted_in {b..<b + i} xs" "Suc j \<le> i" "le (at xs (b + j)) (at xs (b + i))" "above xs b i (Suc j)"
  shows "place xs b i (Suc j)"
  unfolding place_def
proof (intro conjI allI impI)
  fix k assume "k < Suc j"
  with sorted_in_le [OF assms(1), of k j] assms(2,3) show "le (at xs (b + k)) (at xs (b + i))"
    by (auto intro: le_tr)
qed (use assms(2,4) le_total in \<open>auto simp: above_def\<close>)

lemma above_down:
  assumes "sorted_in {b..<b + i} xs" "j \<le> j'" "\<not> le (at xs (b + j)) (at xs (b + i))"
  shows "above xs b i j"
  unfolding above_def
proof (intro allI impI notI)
  fix k assume "j \<le> k \<and> k < i" "le (at xs (b + k)) (at xs (b + i))"
  with sorted_in_le [OF assms(1), of j k] assms(3) show False by (blast intro: le_tr)
qed

lemma place_zero: "above xs b i 0 \<Longrightarrow> place xs b i 0"
  using le_total by (auto simp: place_def above_def)

lemma back_one_place:
  assumes "sorted_in {b..<b + i} xs" "j \<le> i" "above xs b i j"
  shows "place xs b i (back_one cmp xs b i j)"
  using assms(2,3)
proof (induction j)
  case 0
  then show ?case by (simp add: place_zero)
next
  case (Suc j)
  show ?case
  proof (cases "le (at xs (b + j)) (at xs (b + i))")
    case True
    with place_found [OF assms(1) Suc.prems(1) _ Suc.prems(2)] show ?thesis by simp
  next
    case False
    with above_down [OF assms(1) order.refl False] Suc show ?thesis by simp
  qed
qed

lemma back_two_place:
  assumes "sorted_in {b..<b + i} xs" "2 \<le> j" "j \<le> i" "above xs b i j"
  shows "place xs b i (back_two cmp xs b i j)"
  using assms(2-)
proof (induction j rule: induct_nat_012)
  case (ge2 j)
  let ?x = "at xs (b + i)"
  show ?case
  proof (cases "le (at xs (b + j)) ?x")
    case True
    show ?thesis
    proof (cases "le (at xs (b + Suc j)) ?x")
      case t: True
      with True place_found [OF assms(1) _ t ge2.prems(3)] ge2.prems(2) show ?thesis by simp
    next
      case False
      with True place_found [OF assms(1) _ True above_down [OF assms(1) order.refl False]] ge2.prems(2)
      show ?thesis by simp
    qed
  next
    case False
    note ab = above_down [OF assms(1) order.refl False]
    consider "j = 0" | "j = 1" | "2 \<le> j" by linarith
    then show ?thesis
    proof cases
      case 1
      with False ab show ?thesis by (simp add: place_zero)
    next
      case 2
      show ?thesis
      proof (cases "le ?x (at xs b)")
        case True
        have "le ?x (at xs (b + k))" if "k < i" for k
          using le_tr [OF True] sorted_in_le [OF assms(1), of 0 k] that by simp
        with 2 False True show ?thesis by (simp add: place_def)
      next
        case f: False
        then have "le (at xs b) ?x" by (rule le_total)
        with 2 False f ab ge2.prems(2) show ?thesis
          using le_total by (auto simp: place_def above_def)
      qed
    next
      case 3
      with False ab ge2 show ?thesis by simp
    qed
  qed
qed simp_all

lemma shift_to_Suc:
  "j \<le> i \<Longrightarrow> shift_to sw b (Suc i) j xs = shift_to sw b i j (swp sw (b + Suc i) (b + i) xs)"
  by (simp add: shift_to_def)

lemma shift_to_same: "shift_to sw b i i xs = xs"
  by (simp add: shift_to_def)

lemma shift_at:
  assumes "j \<le> i" "b + i < length xs"
  shows "at (shift_to sw b i j xs) m =
    (if m = b + j then at xs (b + i) else if b + j < m \<and> m \<le> b + i then at xs (m - 1) else at xs m)"
  using assms
proof (induction i arbitrary: xs)
  case 0
  then show ?case by (simp add: shift_to_same)
next
  case (Suc i)
  show ?case
  proof (cases "j \<le> i")
    case True
    have "at (shift_to sw b i j (swp sw (b + Suc i) (b + i) xs)) m =
        (if m = b + j then at (swp sw (b + Suc i) (b + i) xs) (b + i)
         else if b + j < m \<and> m \<le> b + i then at (swp sw (b + Suc i) (b + i) xs) (m - 1)
         else at (swp sw (b + Suc i) (b + i) xs) m)"
      using True Suc.prems by (intro Suc.IH) simp_all
    moreover have "at (swp sw (b + Suc i) (b + i) xs) k =
        at xs (if k = b + Suc i then b + i else if k = b + i then b + Suc i else k)" for k
      using Suc.prems by (intro swp_at) simp_all
    ultimately show ?thesis using True by (auto simp: shift_to_Suc)
  next
    case False
    with Suc.prems have "j = Suc i" by simp
    then show ?thesis by (simp add: shift_to_same)
  qed
qed

lemma shift_rearranged:
  "j \<le> i \<Longrightarrow> b + i < length xs \<Longrightarrow> {b..b + i} \<subseteq> S \<Longrightarrow> rearranged pv S xs (shift_to sw b i j xs)"
proof (induction i arbitrary: xs)
  case (Suc i)
  show ?case
  proof (cases "j \<le> i")
    case True
    then have "rearranged pv S (swp sw (b + Suc i) (b + i) xs) (shift_to sw b i j (swp sw (b + Suc i) (b + i) xs))"
      using Suc.prems by (intro Suc.IH) auto
    moreover have "rearranged pv S xs (swp sw (b + Suc i) (b + i) xs)"
      using Suc.prems by (intro swp_rearranged) auto
    ultimately show ?thesis using True by (auto simp: shift_to_Suc intro: rearranged_trans)
  next
    case False
    with Suc.prems have "j = Suc i" by simp
    then show ?thesis by (simp add: shift_to_same)
  qed
qed (simp add: shift_to_same)

lemma shift_sorted:
  assumes so: "sorted_in {b..<b + i} xs" and pl: "place xs b i j" and len: "b + i < length xs"
  shows "sorted_in {b..<b + Suc i} (shift_to sw b i j xs)"
  unfolding sorted_in_def
proof (intro ballI impI)
  fix m n assume mn: "m \<in> {b..<b + Suc i}" "n \<in> {b..<b + Suc i}" "m < n"
  define x where "x = at xs (b + i)"
  have j: "j \<le> i" using pl by (simp add: place_def)
  obtain p q where pq: "m = b + p" "n = b + q" "p < q" "q \<le> i"
    using mn by (metis add_less_cancel_left atLeastLessThan_iff le_Suc_ex less_Suc_eq_le add_Suc_right)
  have lo: "le (at xs (b + k)) x" if "k < j" for k using pl that by (simp add: place_def x_def)
  have hi: "le x (at xs (b + k))" if "j \<le> k" "k < i" for k using pl that by (simp add: place_def x_def)
  have so': "le (at xs (b + k)) (at xs (b + l))" if "k \<le> l" "l < i" for k l
    by (rule sorted_in_le [OF so that])
  have v: "at (shift_to sw b i j xs) (b + k) = (if k = j then x else if j < k \<and> k \<le> i then at xs (b + (k - 1)) else at xs (b + k))" for k
    using shift_at [OF j len, of "b + k"] by (auto simp: x_def)
  show "le (at (shift_to sw b i j xs) m) (at (shift_to sw b i j xs) n)"
    unfolding pq(1,2) v
    using pq(3,4) j lo [of p] hi [of "q - 1"] so' [of p q] so' [of p "q - 1"] so' [of "p - 1" "q - 1"]
    by auto
qed

text \<open>Sorted and only rearranged: the result of sorting the places from \<open>b\<close> to \<open>e\<close>.\<close>

definition sorts :: "nat \<Rightarrow> nat \<Rightarrow> 'a list \<Rightarrow> 'a list \<Rightarrow> bool" where
  "sorts b e xs ys = (rearranged pv {b..<e} xs ys \<and> sorted_in {b..<e} ys)"

lemma sorted_extend:
  assumes "sorted_in {b..<b + i} xs" "1 \<le> i" "le (at xs (b + (i - 1))) (at xs (b + i))"
  shows "sorted_in {b..<b + Suc i} xs"
  unfolding sorted_in_def
proof (intro ballI impI)
  fix m n assume mn: "m \<in> {b..<b + Suc i}" "n \<in> {b..<b + Suc i}" "m < n"
  show "le (at xs m) (at xs n)"
  proof (cases "n = b + i")
    case True
    have "m \<le> b + (i - 1)" using mn True assms(2) by auto
    then have "le (at xs m) (at xs (b + (i - 1)))"
      using sorted_in_le [OF assms(1), of "m - b" "i - 1"] mn assms(2) by auto
    with assms(3) True show ?thesis by (auto intro: le_tr)
  next
    case False
    with mn assms(1) show ?thesis by (auto simp: sorted_in_def)
  qed
qed

lemma insert_step:
  assumes "sorts b (b + i) xs ys" "1 \<le> i" "b + i < length xs"
    and place: "\<And>zs. sorted_in {b..<b + i} zs \<Longrightarrow> above zs b i (i - 1) \<Longrightarrow> place zs b i (bk zs)"
    and f: "\<And>zs. f zs = (if \<not> gt_at cmp zs (b + (i - 1)) (b + i) then zs else shift_to sw b i (bk zs) zs)"
  shows "sorts b (b + Suc i) xs (f ys)"
proof -
  have ys: "rearranged pv {b..<b + Suc i} xs ys" "sorted_in {b..<b + i} ys"
    using assms(1) rearranged_mono [of pv "{b..<b + i}" xs ys "{b..<b + Suc i}"] by (auto simp: sorts_def)
  have len: "length ys = length xs" using ys(1) by (rule rearranged_length)
  show ?thesis
  proof (cases "le (at ys (b + (i - 1))) (at ys (b + i))")
    case True
    with sorted_extend [OF ys(2) assms(2)] ys(1) show ?thesis by (simp add: sorts_def f)
  next
    case False
    moreover have "k = i - 1" if "i - 1 \<le> k \<and> k < i" for k using that assms(2) by linarith
    ultimately have "above ys b i (i - 1)" unfolding above_def by metis
    then have pl: "place ys b i (bk ys)" by (rule place [OF ys(2)])
    have "sorted_in {b..<b + Suc i} (shift_to sw b i (bk ys) ys)"
      by (rule shift_sorted [OF ys(2) pl]) (use assms(3) len in simp)
    moreover have "rearranged pv {b..<b + Suc i} ys (shift_to sw b i (bk ys) ys)"
      by (rule shift_rearranged) (use pl assms(3) len in \<open>auto simp: place_def\<close>)
    ultimately show ?thesis using False ys(1) by (auto simp: sorts_def f intro: rearranged_trans)
  qed
qed

lemma insert_loop:
  assumes "sorts b (b + m) xs ys" "1 \<le> m" "m \<le> n" "b + n \<le> length xs"
    and step: "\<And>i zs. m \<le> i \<Longrightarrow> i < n \<Longrightarrow> sorts b (b + i) xs zs \<Longrightarrow> sorts b (b + Suc i) xs (f i zs)"
  shows "sorts b (b + n) xs (fold f [m..<n] ys)"
  using assms(3,4,5)
proof (induction n rule: dec_induct)
  case (step n)
  have "sorts b (b + n) xs (fold f [m..<n] ys)" by (rule step.IH) (use step.prems in auto)
  then have "sorts b (b + Suc n) xs (f n (fold f [m..<n] ys))" using step.hyps step.prems(2) by simp
  then show ?case using step.hyps by simp
qed (use assms(1) in simp)

lemma sorts_one: "b + n \<le> length xs \<Longrightarrow> n \<le> 1 \<Longrightarrow> sorts b (b + n) xs xs"
  by (auto simp: sorts_def sorted_in_def)

lemma insert_sort_ok:
  assumes len: "b + n \<le> length xs"
  shows "sorts b (b + n) xs (zend_insert_sort cmp sw b n xs)"
proof -
  consider "n \<le> 1" | "n = 2" | "n = 3" | "n = 4" | "n = 5" | "6 \<le> n" by linarith
  then show ?thesis
  proof cases
    case 1
    with sorts_one [OF len] show ?thesis by (simp add: zend_insert_sort_def)
  next
    case 2
    have "{b..<b + 2} = {b, b + 1}" by auto
    then show ?thesis using sort_2 [of b "b + 1" xs] 2 len
      by (auto simp: zend_insert_sort_def sorts_def sorted_in_def)
  next
    case 3
    have "{b..<b + 3} = {b, b + 1, b + 2}" by auto
    then show ?thesis using sort_3 [of b "b + 1" "b + 2" xs] 3 len le_tr
      by (auto simp: zend_insert_sort_def sorts_def sorted_in_def)
  next
    case 4
    have "{b..<b + 4} = {b, b + 1, b + 2, b + 3}" by auto
    then show ?thesis using sort_4 [of b "b + 1" "b + 2" "b + 3" xs] 4 len
      by (auto simp: zend_insert_sort_def sorts_def sorted_in_def) (blast intro: le_tr)+
  next
    case 5
    have "{b..<b + 5} = {b, b + 1, b + 2, b + 3, b + 4}" by auto
    then show ?thesis using sort_5 [of b "b + 1" "b + 2" "b + 3" "b + 4" xs] 5 len
      by (auto simp: zend_insert_sort_def sorts_def sorted_in_def) (blast intro: le_tr)+
  next
    case 6
    have "sorts b (b + 6) xs (fold (insert_one cmp sw b) [1..<6] xs)"
    proof (rule insert_loop)
      show "sorts b (b + 1) xs xs" using sorts_one [of b 1 xs] len 6 by simp
      fix i zs assume "1 \<le> i" "i < 6" "sorts b (b + i) xs zs"
      then show "sorts b (b + Suc i) xs (insert_one cmp sw b i zs)"
        by (intro insert_step [where bk = "\<lambda>zs. back_one cmp zs b i (i - 1)"])
          (use len 6 in \<open>auto simp: insert_one_def intro: back_one_place\<close>)
    qed (use len 6 in auto)
    then have "sorts b (b + n) xs (fold (insert_two cmp sw b) [6..<n] (fold (insert_one cmp sw b) [1..<6] xs))"
    proof (rule insert_loop)
      fix i zs assume "6 \<le> i" "i < n" "sorts b (b + i) xs zs"
      then show "sorts b (b + Suc i) xs (insert_two cmp sw b i zs)"
        by (intro insert_step [where bk = "\<lambda>zs. back_two cmp zs b i (i - 1)"])
          (use len 6 in \<open>auto simp: insert_two_def intro: back_two_place\<close>)
    qed (use len 6 in auto)
    with 6 show ?thesis by (simp add: zend_insert_sort_def)
  qed
qed

subsection \<open>The partition\<close>

lemma scan_up_spec:
  assumes "scan_up cmp xs p i d = (i', d')"
  shows "k \<in> {i..<i'} \<Longrightarrow> le (at xs k) (at xs p)" "0 < d' \<Longrightarrow> le (at xs p) (at xs i')"
proof -
  have "(\<forall>k \<in> {i..<i'}. le (at xs k) (at xs p)) \<and> (0 < d' \<longrightarrow> le (at xs p) (at xs i'))"
    using assms
  proof (induction d arbitrary: i)
    case (Suc d)
    show ?case
    proof (cases "le (at xs p) (at xs i)")
      case False
      with Suc.IH [of "Suc i"] Suc.prems have "\<forall>k \<in> {Suc i..<i'}. le (at xs k) (at xs p)"
        "0 < d' \<longrightarrow> le (at xs p) (at xs i')" by simp_all
      moreover have "le (at xs i) (at xs p)" using False by (rule le_total)
      ultimately show ?thesis by (metis Suc_leI atLeastLessThan_iff le_neq_implies_less)
    qed (use Suc.prems in auto)
  qed simp
  then show "k \<in> {i..<i'} \<Longrightarrow> le (at xs k) (at xs p)" "0 < d' \<Longrightarrow> le (at xs p) (at xs i')" by simp_all
qed

lemma scan_down_spec:
  assumes d': "d' = scan_down cmp xs p i d"
  shows "d' < m \<Longrightarrow> m \<le> d \<Longrightarrow> le (at xs p) (at xs (i + m))" "0 < d' \<Longrightarrow> le (at xs (i + d')) (at xs p)"
proof -
  have "(\<forall>m. d' < m \<and> m \<le> d \<longrightarrow> le (at xs p) (at xs (i + m))) \<and> (0 < d' \<longrightarrow> le (at xs (i + d')) (at xs p))"
    unfolding d'
  proof (induction d)
    case (Suc d)
    show ?case
    proof (cases "le (at xs (i + Suc d)) (at xs p)")
      case False
      then have "le (at xs p) (at xs (i + Suc d))" by (rule le_total)
      with False Suc.IH show ?thesis by (auto simp: le_Suc_eq)
    qed auto
  qed simp
  then show "d' < m \<Longrightarrow> m \<le> d \<Longrightarrow> le (at xs p) (at xs (i + m))" "0 < d' \<Longrightarrow> le (at xs (i + d')) (at xs p)" by simp_all
qed

definition parted :: "'p \<Rightarrow> nat \<Rightarrow> nat \<Rightarrow> nat \<Rightarrow> 'a list \<Rightarrow> bool" where
  "parted v b i e xs = ((\<forall>k \<in> {b..<i}. le (at xs k) v) \<and> (\<forall>k \<in> {i..<e}. le v (at xs k)))"

lemma partition_ok:
  assumes "zend_partition cmp sw p i d xs = (i', ys)" "p < i" "i + d \<le> length xs"
  shows "rearranged pv {i..<i + d} xs ys \<and> parted (at xs p) i i' (i + d) ys"
  using assms
proof (induction cmp \<equiv> cmp sw \<equiv> sw p i d xs arbitrary: i' ys rule: zend_partition.induct)
  case (1 p i d xs)
  obtain i1 d1 where s: "scan_up cmp xs p i d = (i1, d1)" by fastforce
  define d2 where "d2 = scan_down cmp xs p i1 (d1 - 1)"
  define zs where "zs = swp sw i1 (i1 + d2) xs"
  have eq: "zend_partition cmp sw p i d xs = (if d1 \<le> 1 \<or> d2 = 0 then (i1, xs)
      else if d2 = 1 then (i1 + 1, zs) else zend_partition cmp sw p (i1 + 1) (d2 - 1) zs)"
    by (subst zend_partition.simps) (simp add: s d2_def zs_def Let_def)
  note up = scan_up_spec [OF s] and b = scan_up_le [OF s]
  note down = scan_down_spec [OF d2_def]
  have ge: "le (at xs p) (at xs k)" if "i1 + d2 < k" "k < i + d" for k
    using down(1) [of "k - i1"] that b by auto
  show ?case
  proof (cases "d1 \<le> 1 \<or> d2 = 0")
    case True
    then have r: "i' = i1" "ys = xs"
      using "1.prems"(1) eq by auto
    have "le (at xs p) (at xs k)" if "k \<in> {i1..<i + d}" for k
    proof (cases "k = i1")
      case t: True
      then have "0 < d1" using that b by auto
      with t up(2) show ?thesis by simp
    next
      case False
      then have "i1 + d2 < k" using True that b by (auto simp: d2_def)
      then show ?thesis using ge that by simp
    qed
    then show ?thesis using up(1) by (simp add: r parted_def)
  next
    case False
    have d2: "0 < d2" "d2 \<le> d1 - 1" "1 < d1" using False scan_down_le by (auto simp: d2_def)
    have len: "i1 < length xs" "i1 + d2 < length xs" using d2 b "1.prems"(3) by linarith+
    have z: "at zs k = at xs (if k = i1 then i1 + d2 else if k = i1 + d2 then i1 else k)" for k
      unfolding zs_def by (rule swp_at [OF len])
    have rz: "rearranged pv {i..<i + d} xs zs"
      unfolding zs_def using len b d2 by (intro swp_rearranged) auto
    have pz: "at zs p = at xs p" using "1.prems"(2) b d2 by (auto simp: z)
    have lo: "le (at zs k) (at xs p)" if "k \<in> {i..<Suc i1}" for k
      using that up(1) [of k] down(2) d2 by (auto simp: z less_Suc_eq)
    have hi: "le (at xs p) (at zs k)" if "k \<in> {i1 + d2..<i + d}" for k
      using that up(2) ge [of k] d2 by (auto simp: z)
    show ?thesis
    proof (cases "d2 = 1")
      case True
      then have r: "i' = Suc i1" "ys = zs"
        using "1.prems"(1) eq d2 by auto
      show ?thesis using rz lo hi True by (auto simp: r parted_def)
    next
      case False
      have rec: "zend_partition cmp sw p (i1 + 1) (d2 - 1) zs = (i', ys)"
        using "1.prems"(1) eq d2 False by simp
      have e: "i1 + 1 + (d2 - 1) = i1 + d2" using d2 by simp
      have ih: "rearranged pv {i1 + 1..<i1 + d2} zs ys" "parted (at zs p) (i1 + 1) i' (i1 + d2) ys"
        using "1.hyps" [OF s [symmetric] _ d2_def _ zs_def _ rec] d2 False "1.prems"(2) b len
        by (simp_all add: zs_def e)
      have out: "at ys k = at zs k" if "k \<notin> {i1 + 1..<i1 + d2}" for k
        using rearranged_same [OF ih(1) that] by (simp add: at_def)
      have "rearranged pv {i..<i + d} xs ys"
        using b d2 by (intro rearranged_trans [OF rz rearranged_mono [OF ih(1)]]) auto
      moreover have i': "i1 + 1 \<le> i'" "i' \<le> i1 + d2" using zend_partition_bounds [OF rec] d2 by simp_all
      have "le (at ys k) (at xs p)" if "k \<in> {i..<i'}" for k
        using that ih(2) out [of k] lo [of k] by (cases "k < i1 + 1") (auto simp: parted_def pz)
      moreover have "le (at xs p) (at ys k)" if "k \<in> {i'..<i + d}" for k
        using that i' ih(2) out [of k] hi [of k] by (cases "k < i1 + d2") (auto simp: parted_def pz)
      ultimately show ?thesis by (simp add: parted_def)
    qed
  qed
qed

lemma median_ok:
  assumes "16 < n" "b + n \<le> length xs"
  defines "ys \<equiv> (if n div 2 ^ 10 \<noteq> 0 then
      zend_sort_5 cmp sw b (b + n div 2 div 2) (b + n div 2) (b + n div 2 + n div 2 div 2) (b + n - 1) xs
    else zend_sort_3 cmp sw b (b + n div 2) (b + n - 1) xs)"
  shows "rearranged pv {b..<b + n} xs ys" "le (at ys b) (at ys (b + n div 2))"
    "le (at ys (b + n div 2)) (at ys (b + n - 1))"
proof -
  let ?d = "n div 2 div 2"
  have "rearranged pv {b..<b + n} xs ys \<and> le (at ys b) (at ys (b + n div 2)) \<and> le (at ys (b + n div 2)) (at ys (b + n - 1))"
  proof (cases "n div 2 ^ 10 \<noteq> 0")
    case True
    have d: "distinct [b, b + ?d, b + n div 2, b + n div 2 + ?d, b + n - 1]"
      "{b, b + ?d, b + n div 2, b + n div 2 + ?d, b + n - 1} \<subseteq> {..<length xs}"
      "{b, b + ?d, b + n div 2, b + n div 2 + ?d, b + n - 1} \<subseteq> {b..<b + n}"
      using assms(1,2) by auto
    from True sort_5 [OF d(1,2)] show ?thesis
      by (auto simp: ys_def intro: le_tr rearranged_mono [OF _ d(3)])
  next
    case False
    have d: "distinct [b, b + n div 2, b + n - 1]" "{b, b + n div 2, b + n - 1} \<subseteq> {..<length xs}"
      "{b, b + n div 2, b + n - 1} \<subseteq> {b..<b + n}"
      using assms(1,2) by auto
    from False sort_3 [OF d(1,2)] show ?thesis
      by (auto simp: ys_def intro: rearranged_mono [OF _ d(3)])
  qed
  then show "rearranged pv {b..<b + n} xs ys" "le (at ys b) (at ys (b + n div 2))"
    "le (at ys (b + n div 2)) (at ys (b + n - 1))" by simp_all
qed

lemma sort_step_ok:
  assumes st: "sort_step cmp sw b n xs = (i, zs)" and n: "16 < n" and len: "b + n \<le> length xs"
  shows "rearranged pv {b..<b + n} xs zs" "parted (at zs (i - 1)) b i (b + n) zs"
proof -
  define ys where "ys = (if n div 2 ^ 10 \<noteq> 0 then
      zend_sort_5 cmp sw b (b + n div 2 div 2) (b + n div 2) (b + n div 2 + n div 2 div 2) (b + n - 1) xs
    else zend_sort_3 cmp sw b (b + n div 2) (b + n - 1) xs)"
  note m = median_ok [OF n len, folded ys_def]
  define us where "us = swp sw (b + 1) (b + n div 2) ys"
  have e1: "b + 1 + 1 = b + 2" "b + n - 1 - (b + 2) = n - 3" by simp_all
  have step: "sort_step cmp sw b n xs = (case zend_partition cmp sw (b + 1) (b + 2) (n - 3) us of
      (i, ws) \<Rightarrow> (i, swp sw (b + 1) (i - 1) ws))"
    by (simp only: sort_step_def Let_def us_def ys_def e1)
  obtain ws where p: "zend_partition cmp sw (b + 1) (b + 2) (n - 3) us = (i, ws)" and z: "zs = swp sw (b + 1) (i - 1) ws"
    using st unfolding step by (auto split: prod.splits)
  have lens: "length ys = length xs" "length us = length xs" using m(1) by (auto simp: us_def rearranged_length)
  have u: "at us k = at ys (if k = b + 1 then b + n div 2 else if k = b + n div 2 then b + 1 else k)" for k
    unfolding us_def using n len lens by (intro swp_at) auto
  have ru: "rearranged pv {b..<b + n} xs us"
    unfolding us_def using n len lens by (intro rearranged_trans [OF m(1) swp_rearranged]) auto
  define v where "v = at us (b + 1)"
  have ub: "le (at us b) v" "le v (at us (b + n - 1))"
    using m(2,3) n by (auto simp: u v_def)
  have e: "b + 2 + (n - 3) = b + n - 1" using n by simp
  have pt: "rearranged pv {b + 2..<b + n - 1} us ws" "parted v (b + 2) i (b + n - 1) ws"
    using partition_ok [OF p, unfolded e] n len lens by (auto simp: v_def)
  have bd: "b + 2 \<le> i" "i \<le> b + n - 1" using zend_partition_bounds [OF p] n by simp_all
  have lw: "length ws = length xs" using rearranged_length [OF pt(1)] lens by simp
  have out: "at ws k = at us k" if "k \<notin> {b + 2..<b + n - 1}" for k
    using rearranged_same [OF pt(1) that] by (simp add: at_def)
  have rw: "rearranged pv {b..<b + n} xs ws"
    using n by (intro rearranged_trans [OF ru rearranged_mono [OF pt(1)]]) auto
  then show "rearranged pv {b..<b + n} xs zs"
    unfolding z using bd n len lw by (intro rearranged_trans [OF rw swp_rearranged]) auto
  have w: "le (at ws k) v" if "k \<in> {b..<i}" for k
  proof -
    consider "k = b" | "k = b + 1" | "k \<in> {b + 2..<i}" using \<open>k \<in> {b..<i}\<close> by fastforce
    then show ?thesis using ub(1) out [of k] pt(2) by cases (auto simp: parted_def v_def)
  qed
  have w': "le v (at ws k)" if "k \<in> {i..<b + n}" for k
  proof -
    consider "k = b + n - 1" | "k \<in> {i..<b + n - 1}" using \<open>k \<in> {i..<b + n}\<close> by fastforce
    then show ?thesis using ub(2) out [of k] pt(2) by cases (auto simp: parted_def)
  qed
  have zz: "at zs k = at ws (if k = b + 1 then i - 1 else if k = i - 1 then b + 1 else k)" for k
    unfolding z using bd n len lw by (intro swp_at) auto
  have "at zs (i - 1) = v" using bd out [of "b + 1"] by (auto simp: zz v_def)
  then show "parted (at zs (i - 1)) b i (b + n) zs"
    using w w' bd by (auto simp: parted_def zz)
qed

subsection \<open>The whole sort\<close>

lemma parted_rearranged:
  assumes "parted v b i e xs" "rearranged pv S xs ys" "S \<subseteq> {..<length xs}" "S \<subseteq> {b..<i} \<or> S \<subseteq> {i..<e}"
  shows "parted v b i e ys"
proof -
  have same: "at ys k = at xs k" if "k \<notin> S" for k
    using rearranged_same [OF assms(2) that] by (simp add: at_def)
  from assms(4) show ?thesis
  proof
    assume S: "S \<subseteq> {b..<i}"
    then have "\<forall>k \<in> S. le (at ys k) v"
      using rearranged_all [OF assms(2,3), where P = "\<lambda>x. le x v"] assms(1) by (auto simp: parted_def at_def)
    with S assms(1) same show ?thesis unfolding parted_def by (metis atLeastLessThan_iff leD subsetD)
  next
    assume S: "S \<subseteq> {i..<e}"
    then have "\<forall>k \<in> S. le v (at ys k)"
      using rearranged_all [OF assms(2,3), where P = "\<lambda>x. le v x"] assms(1) by (auto simp: parted_def at_def)
    with S assms(1) same show ?thesis unfolding parted_def by (metis atLeastLessThan_iff leD subsetD)
  qed
qed

lemma sorted_in_same: "sorted_in S xs \<Longrightarrow> (\<And>k. k \<in> S \<Longrightarrow> at ys k = at xs k) \<Longrightarrow> sorted_in S ys"
  by (simp add: sorted_in_def)

lemma parted_sorted:
  assumes "parted v b i e xs" "at xs (i - 1) = v" "b < i" "sorted_in {b..<i - 1} xs" "sorted_in {i..<e} xs"
  shows "sorted_in {b..<e} xs"
  unfolding sorted_in_def
proof (intro ballI impI)
  fix m n assume mn: "m \<in> {b..<e}" "n \<in> {b..<e}" "m < n"
  consider "n < i - 1" | "m \<ge> i" | "m < i" "i - 1 \<le> n" by linarith
  then show "le (at xs m) (at xs n)"
  proof cases
    case 3
    then have "le (at xs m) v" using assms(1) mn by (auto simp: parted_def)
    moreover have "le v (at xs n)"
      using assms(1,2) mn 3 by (cases "n = i - 1") (auto simp: parted_def)
    ultimately show ?thesis by (rule le_tr)
  qed (use assms(4,5) mn in \<open>auto simp: sorted_in_def\<close>)
qed

lemma sort_halves:
  assumes pt: "parted (at xs (i - 1)) b i e xs" and i: "b < i" "i < e" "e \<le> length xs"
    and S: "(s1, e1, s2, e2) = (b, i - 1, i, e) \<or> (s1, e1, s2, e2) = (i, e, b, i - 1)"
    and so: "sorts s1 e1 xs ys" "sorts s2 e2 ys zs"
  shows "rearranged pv {b..<e} xs zs" "sorted_in {b..<e} zs"
proof -
  have sub: "{s1..<e1} \<subseteq> {b..<e}" "{s2..<e2} \<subseteq> {b..<e}" "i - 1 \<notin> {s1..<e1}" "i - 1 \<notin> {s2..<e2}"
    "{s1..<e1} \<inter> {s2..<e2} = {}" "{s1..<e1} \<subseteq> {b..<i} \<or> {s1..<e1} \<subseteq> {i..<e}"
    "{s2..<e2} \<subseteq> {b..<i} \<or> {s2..<e2} \<subseteq> {i..<e}"
    using S i by auto
  have r: "rearranged pv {s1..<e1} xs ys" "rearranged pv {s2..<e2} ys zs" using so by (simp_all add: sorts_def)
  have ly: "length ys = length xs" using r(1) by (rule rearranged_length)
  show "rearranged pv {b..<e} xs zs"
    by (rule rearranged_trans [OF rearranged_mono [OF r(1) sub(1)] rearranged_mono [OF r(2) sub(2)]])
  have same: "at ys k = at xs k" if "k \<notin> {s1..<e1}" for k using rearranged_same [OF r(1) that] by (simp add: at_def)
  have same': "at zs k = at ys k" if "k \<notin> {s2..<e2}" for k using rearranged_same [OF r(2) that] by (simp add: at_def)
  have v: "at zs (i - 1) = at xs (i - 1)" using same' [OF sub(4)] same [OF sub(3)] by simp
  have "parted (at xs (i - 1)) b i e ys"
    by (rule parted_rearranged [OF pt r(1) _ sub(6)]) (use sub(1) i in auto)
  then have "parted (at xs (i - 1)) b i e zs"
    by (rule parted_rearranged [OF _ r(2) _ sub(7)]) (use sub(2) i ly in auto)
  moreover have "sorted_in {s2..<e2} zs" using so(2) by (simp add: sorts_def)
  moreover have "sorted_in {s1..<e1} zs"
    by (rule sorted_in_same [of _ ys]) (use so(1) same' sub(5) in \<open>auto simp: sorts_def\<close>)
  ultimately show "sorted_in {b..<e} zs"
    using parted_sorted [OF _ v i(1)] S by auto
qed

lemma zend_sort_ok:
  "b + n \<le> length xs \<Longrightarrow> sorts b (b + n) xs (zend_sort cmp sw b n xs)"
proof (induction n arbitrary: b xs rule: less_induct)
  case (less n)
  show ?case
  proof (cases "n \<le> 16")
    case True
    with insert_sort_ok [OF less.prems] show ?thesis by (simp add: zend_sort.simps [of cmp sw b n xs])
  next
    case False
    obtain i ys where st: "sort_step cmp sw b n xs = (i, ys)" by fastforce
    have n: "16 < n" using False by simp
    note s = sort_step_ok [OF st n less.prems] and bd = sort_step_bounds [OF st]
    have bd': "b < i" "i < b + n" "b + 2 \<le> i" using bd n by auto
    have ly: "length ys = length xs" using s(1) by (rule rearranged_length)
    have lo: "sorts b (i - 1) us (zend_sort cmp sw b (i - b - 1) us)" if "length us = length xs" for us
      using less.IH [of "i - b - 1" b us] that bd' less.prems by (simp add: algebra_simps)
    have hi: "sorts i (b + n) us (zend_sort cmp sw i (b + n - i) us)" if "length us = length xs" for us
      using less.IH [of "b + n - i" i us] that bd' less.prems by simp
    have len: "length zs = length us" if "sorts s e us zs" for s e us zs
      using that by (auto simp: sorts_def dest: rearranged_length)
    let ?zs = "zend_sort cmp sw b n xs"
    have "rearranged pv {b..<b + n} ys ?zs \<and> sorted_in {b..<b + n} ?zs"
    proof (cases "i - 1 - b < b + n - i")
      case True
      let ?us = "zend_sort cmp sw b (i - b - 1) ys"
      have z: "?zs = zend_sort cmp sw i (b + n - i) ?us"
        using False True st by (simp add: zend_sort.simps [of cmp sw b n xs])
      have u: "sorts b (i - 1) ys ?us" by (rule lo [OF ly])
      have h: "sorts i (b + n) ?us ?zs" unfolding z by (rule hi) (use len [OF u] ly in simp)
      show ?thesis using sort_halves [OF s(2) bd'(1,2) _ _ u h] less.prems ly by simp
    next
      case c: False
      let ?us = "zend_sort cmp sw i (b + n - i) ys"
      have z: "?zs = zend_sort cmp sw b (i - b - 1) ?us"
        using False c st by (simp add: zend_sort.simps [of cmp sw b n xs])
      have u: "sorts i (b + n) ys ?us" by (rule hi [OF ly])
      have h: "sorts b (i - 1) ?us ?zs" unfolding z by (rule lo) (use len [OF u] ly in simp)
      show ?thesis using sort_halves [OF s(2) bd'(1,2) _ _ u h] less.prems ly by simp
    qed
    with s(1) show ?thesis by (auto simp: sorts_def intro: rearranged_trans)
  qed
qed

end

end
