(* ===== verification/Zend_Sort_Bounded.thy ===== *)
theory Zend_Sort_Bounded
  imports Zend_Sort_Correct
begin

section \<open>Sorting under a contract that holds for some elements only\<close>

text \<open>
  A comparison that is an order on short strings only, or a swap that is one on keyless
  buckets only, keeps its contract for the elements \<open>ok\<close> admits.  On arrays of such elements
  it cannot be told from one that keeps the contract everywhere.
\<close>

locale bounded_sorter =
  fixes cmp :: "'a compare_func" and sw :: "'a swap_func" and pv :: "'a \<Rightarrow> 'p" and gt :: "'p \<Rightarrow> 'p \<Rightarrow> bool"
    and ok :: "'a \<Rightarrow> bool"
  assumes bcmp_gt: "ok x \<Longrightarrow> ok y \<Longrightarrow> (cmp x y > 0) = gt (pv x) (pv y)"
    and bsw_pv: "ok x \<Longrightarrow> ok y \<Longrightarrow> pv (fst (sw x y)) = pv y" "ok x \<Longrightarrow> ok y \<Longrightarrow> pv (snd (sw x y)) = pv x"
    and bsw_ok: "ok x \<Longrightarrow> ok y \<Longrightarrow> ok (fst (sw x y))" "ok x \<Longrightarrow> ok y \<Longrightarrow> ok (snd (sw x y))"
    and bgt_asym: "gt a b \<Longrightarrow> \<not> gt b a"
    and ble_trans: "\<not> gt a b \<Longrightarrow> \<not> gt b c \<Longrightarrow> \<not> gt a c"
begin

definition cmp' :: "'a compare_func" where
  "cmp' x y = (if gt (pv x) (pv y) then 1 else 0)"

definition sw' :: "'a swap_func" where
  "sw' x y = (if ok x \<and> ok y then sw x y else (y, x))"

text \<open>The first \<open>m\<close> elements, which are all the sort looks at, are admitted.\<close>

definition valid :: "nat \<Rightarrow> 'a list \<Rightarrow> bool" where
  "valid m xs = (m \<le> length xs \<and> (\<forall>i < m. ok (xs ! i)))"

lemma valid_length: "valid m xs \<Longrightarrow> i < m \<Longrightarrow> i < length xs"
  by (simp add: valid_def)

lemma valid_nth: "valid m xs \<Longrightarrow> i < m \<Longrightarrow> ok (xs ! i)"
  by (simp add: valid_def)

lemma agree_gt: "valid m xs \<Longrightarrow> i < m \<Longrightarrow> j < m \<Longrightarrow> gt_at cmp xs i j = gt_at cmp' xs i j"
  by (simp add: gt_at_def cmp'_def bcmp_gt valid_nth)

lemma agree_swp: "valid m xs \<Longrightarrow> i < m \<Longrightarrow> j < m \<Longrightarrow> swp sw i j xs = swp sw' i j xs"
  by (simp add: swp_def sw'_def valid_nth)

lemma length_swp' [simp]: "length (swp sw' i j xs) = length xs"
  by (simp add: swp_def split: prod.split)

lemma valid_swp:
  assumes "valid m xs" "i < m" "j < m" shows "valid m (swp sw' i j xs)"
proof -
  obtain p q where pq: "sw (xs ! i) (xs ! j) = (p, q)" by fastforce
  have "ok p" "ok q" using bsw_ok [of "xs ! i" "xs ! j"] assms by (simp_all add: pq valid_nth)
  with assms show ?thesis by (auto simp: valid_def swp_def sw'_def pq nth_list_update)
qed

lemmas agree_at = agree_gt agree_swp valid_swp

definition agrees :: "nat \<Rightarrow> 'a list \<Rightarrow> 'a list \<Rightarrow> bool" where
  "agrees m ys zs = (ys = zs \<and> valid m zs)"

lemma sort_2_agrees:
  "valid m xs \<Longrightarrow> {a, b} \<subseteq> {..<m} \<Longrightarrow> agrees m (zend_sort_2 cmp sw a b xs) (zend_sort_2 cmp' sw' a b xs)"
  by (simp add: agree_at [where m = m] agrees_def zend_sort_2_def)

lemma sort_3_agrees:
  "valid m xs \<Longrightarrow> {a, b, c} \<subseteq> {..<m} \<Longrightarrow>
   agrees m (zend_sort_3 cmp sw a b c xs) (zend_sort_3 cmp' sw' a b c xs)"
  by (simp add: agree_at [where m = m] agrees_def zend_sort_3_def Let_def)

lemma sort_4_agrees:
  "valid m xs \<Longrightarrow> {a, b, c, d} \<subseteq> {..<m} \<Longrightarrow>
   agrees m (zend_sort_4 cmp sw a b c d xs) (zend_sort_4 cmp' sw' a b c d xs)"
  using sort_3_agrees [of m xs a b c] by (simp add: agree_at [where m = m] agrees_def zend_sort_4_def Let_def)

lemma sort_5_agrees:
  "valid m xs \<Longrightarrow> {a, b, c, d, e} \<subseteq> {..<m} \<Longrightarrow>
   agrees m (zend_sort_5 cmp sw a b c d e xs) (zend_sort_5 cmp' sw' a b c d e xs)"
  using sort_4_agrees [of m xs a b c d] by (simp add: agree_at [where m = m] agrees_def zend_sort_5_def Let_def)

lemma back_one_agrees:
  "valid m xs \<Longrightarrow> b + i < m \<Longrightarrow> j \<le> i \<Longrightarrow> back_one cmp xs b i j = back_one cmp' xs b i j"
  by (induction j) (simp_all add: agree_at [where m = m])

lemma back_two_agrees:
  "valid m xs \<Longrightarrow> b + i < m \<Longrightarrow> j \<le> i \<Longrightarrow> back_two cmp xs b i j = back_two cmp' xs b i j"
  by (induction j rule: induct_nat_012) (simp_all add: agree_at [where m = m])

lemma back_one_le: "back_one cmp' xs b i j \<le> j"
  by (induction j) auto

lemma back_two_le: "back_two cmp' xs b i j \<le> j"
  by (induction j rule: induct_nat_012) auto

lemma shift_agrees:
  "valid m xs \<Longrightarrow> b + i < m \<Longrightarrow> j \<le> i \<Longrightarrow> agrees m (shift_to sw b i j xs) (shift_to sw' b i j xs)"
proof (induction i arbitrary: xs)
  case (Suc i)
  show ?case
  proof (cases "j \<le> i")
    case True
    with Suc.IH [of "swp sw' (b + Suc i) (b + i) xs"] Suc.prems show ?thesis
      by (simp add: shift_to_def agrees_def agree_at [where m = m])
  next
    case False
    with Suc.prems show ?thesis by (simp add: shift_to_def agrees_def)
  qed
qed (simp add: shift_to_def agrees_def)

lemma insert_agrees:
  assumes "valid m xs" "b + i < m" "1 \<le> i"
  shows "agrees m (insert_one cmp sw b i xs) (insert_one cmp' sw' b i xs)"
    "agrees m (insert_two cmp sw b i xs) (insert_two cmp' sw' b i xs)"
proof -
  have b: "back_one cmp' xs b i (i - 1) \<le> i" "back_two cmp' xs b i (i - 1) \<le> i"
    using back_one_le [of xs b i "i - 1"] back_two_le [of xs b i "i - 1"] by simp_all
  show "agrees m (insert_one cmp sw b i xs) (insert_one cmp' sw' b i xs)"
    using assms shift_agrees [OF assms(1,2) b(1)] by (simp add: insert_one_def back_one_agrees [where m = m] agree_at [where m = m]) (simp add: agrees_def)
  show "agrees m (insert_two cmp sw b i xs) (insert_two cmp' sw' b i xs)"
    using assms shift_agrees [OF assms(1,2) b(2)] by (simp add: insert_two_def back_two_agrees [where m = m] agree_at [where m = m]) (simp add: agrees_def)
qed

lemma agrees_trans: "agrees m ys zs \<Longrightarrow> (valid m zs \<Longrightarrow> agrees m (f zs) (g zs)) \<Longrightarrow> agrees m (f ys) (g zs)"
  by (simp add: agrees_def)

lemma fold_agrees:
  assumes "agrees m ys zs" "\<And>i us. i \<in> set is \<Longrightarrow> valid m us \<Longrightarrow> agrees m (f i us) (g i us)"
  shows "agrees m (fold f is ys) (fold g is zs)"
  using assms
proof (induction "is" arbitrary: ys zs)
  case (Cons i "is")
  have "agrees m (f i ys) (g i zs)"
    using Cons.prems(2) [of i zs] Cons.prems(1) by (simp add: agrees_def)
  from Cons.IH [OF this] Cons.prems(2) show ?case by simp
qed simp

lemma insert_sort_agrees:
  assumes "valid m xs" "b + n \<le> m"
  shows "agrees m (zend_insert_sort cmp sw b n xs) (zend_insert_sort cmp' sw' b n xs)"
proof -
  consider "n \<le> 1" | "n = 2" | "n = 3" | "n = 4" | "n = 5" | "6 \<le> n" by linarith
  then show ?thesis
  proof cases
    case 6
    have x: "agrees m xs xs" using assms(1) by (simp add: agrees_def)
    have "agrees m (fold (insert_two cmp sw b) [6..<n] (fold (insert_one cmp sw b) [1..<6] xs))
        (fold (insert_two cmp' sw' b) [6..<n] (fold (insert_one cmp' sw' b) [1..<6] xs))"
    proof (intro fold_agrees x)
      fix i us assume "i \<in> set [6..<n]" "valid m us"
      then show "agrees m (insert_two cmp sw b i us) (insert_two cmp' sw' b i us)"
        using assms(2) by (intro insert_agrees) auto
    next
      fix i us assume "i \<in> set [1..<6]" "valid m us"
      then show "agrees m (insert_one cmp sw b i us) (insert_one cmp' sw' b i us)"
        using assms(2) 6 by (intro insert_agrees) auto
    qed
    with 6 show ?thesis by (simp add: zend_insert_sort_def)
  qed (use assms sort_2_agrees sort_3_agrees sort_4_agrees sort_5_agrees in
      \<open>simp_all add: zend_insert_sort_def agrees_def\<close>)
qed

lemma scan_up_agrees: "valid m xs \<Longrightarrow> p < m \<Longrightarrow> i + d \<le> m \<Longrightarrow> scan_up cmp xs p i d = scan_up cmp' xs p i d"
  by (induction d arbitrary: i) (simp_all add: agree_at [where m = m])

lemma scan_down_agrees: "valid m xs \<Longrightarrow> p < m \<Longrightarrow> i + d < m \<Longrightarrow> scan_down cmp xs p i d = scan_down cmp' xs p i d"
  by (induction d) (simp_all add: agree_at [where m = m])

lemma partition_agrees:
  assumes "valid m xs" "p < m" "i + d \<le> m"
  shows "fst (zend_partition cmp sw p i d xs) = fst (zend_partition cmp' sw' p i d xs) \<and>
    agrees m (snd (zend_partition cmp sw p i d xs)) (snd (zend_partition cmp' sw' p i d xs))"
  using assms
proof (induction cmp \<equiv> cmp sw \<equiv> sw p i d xs rule: zend_partition.induct)
  case (1 p i d xs)
  obtain i1 d1 where s: "scan_up cmp xs p i d = (i1, d1)" by fastforce
  then have s': "scan_up cmp' xs p i d = (i1, d1)" using scan_up_agrees [of m xs p i d] "1.prems" by simp
  define d2 where "d2 = scan_down cmp xs p i1 (d1 - 1)"
  note b = scan_up_le [OF s]
  have d2: "d2 \<le> d1 - 1" by (simp add: d2_def scan_down_le)
  show ?case
  proof (cases "d1 \<le> 1")
    case True
    then show ?thesis using s s' "1.prems" by (simp add: zend_partition.simps [of _ _ p i d xs] agrees_def)
  next
    case False
    have d2': "scan_down cmp' xs p i1 (d1 - 1) = d2"
      using scan_down_agrees [of m xs p i1 "d1 - 1"] "1.prems" b False by (simp add: d2_def)
    have len: "i1 < m" "i1 + d2 < m" using "1.prems"(3) b d2 False by linarith+
    have sw: "swp sw i1 (i1 + d2) xs = swp sw' i1 (i1 + d2) xs" if "0 < d2"
      using "1.prems"(1) len by (simp add: agree_at [where m = m])
    have eq: "zend_partition cmp sw p i d xs = (if d2 = 0 then (i1, xs) else if d2 = 1 then (i1 + 1, swp sw i1 (i1 + d2) xs)
        else zend_partition cmp sw p (i1 + 1) (d2 - 1) (swp sw i1 (i1 + d2) xs))"
      using False by (subst zend_partition.simps) (simp add: s d2_def Let_def)
    have eq': "zend_partition cmp' sw' p i d xs = (if d2 = 0 then (i1, xs) else if d2 = 1 then (i1 + 1, swp sw' i1 (i1 + d2) xs)
        else zend_partition cmp' sw' p (i1 + 1) (d2 - 1) (swp sw' i1 (i1 + d2) xs))"
      using False d2' by (subst zend_partition.simps) (simp add: s' Let_def)
    have v: "valid m (swp sw' i1 (i1 + d2) xs)" if "0 < d2"
      using "1.prems"(1) len by (simp add: agree_at [where m = m])
    show ?thesis
    proof (cases "d2 \<le> 1")
      case True
      then show ?thesis using "1.prems" sw v unfolding eq eq' by (cases d2) (simp_all add: agrees_def)
    next
      case f: False
      have "fst (zend_partition cmp sw p (i1 + 1) (d2 - 1) (swp sw i1 (i1 + d2) xs)) =
            fst (zend_partition cmp' sw' p (i1 + 1) (d2 - 1) (swp sw i1 (i1 + d2) xs)) \<and>
          agrees m (snd (zend_partition cmp sw p (i1 + 1) (d2 - 1) (swp sw i1 (i1 + d2) xs)))
            (snd (zend_partition cmp' sw' p (i1 + 1) (d2 - 1) (swp sw i1 (i1 + d2) xs)))"
        using "1.hyps" [OF s [symmetric] False d2_def _ refl] f v sw "1.prems" b d2 less_imp_le [OF len(2)] by simp
      with f sw show ?thesis unfolding eq eq' by (simp add: agrees_def)
    qed
  qed
qed

lemma sort_step_agrees:
  assumes "valid m xs" "b + n \<le> m" "16 < n"
  shows "fst (sort_step cmp sw b n xs) = fst (sort_step cmp' sw' b n xs) \<and>
    agrees m (snd (sort_step cmp sw b n xs)) (snd (sort_step cmp' sw' b n xs))"
proof -
  have e1: "b + 1 + 1 = b + 2" "b + n - 1 - (b + 2) = n - 3" by simp_all
  define med where "med c s = (if n div 2 ^ 10 \<noteq> 0 then
      zend_sort_5 c s b (b + n div 2 div 2) (b + n div 2) (b + n div 2 + n div 2 div 2) (b + n - 1) xs
    else zend_sort_3 c s b (b + n div 2) (b + n - 1) xs)" for c s
  have step: "sort_step c s b n xs = (case zend_partition c s (b + 1) (b + 2) (n - 3) (swp s (b + 1) (b + n div 2) (med c s)) of
      (i, ws) \<Rightarrow> (i, swp s (b + 1) (i - 1) ws))" for c s
    by (simp only: sort_step_def Let_def med_def e1)
  have "n div 2 + n div 2 div 2 < n" "n div 2 < n" "n div 2 div 2 < n" using assms(3) by presburger+
  then have "agrees m (med cmp sw) (med cmp' sw')"
    using sort_5_agrees [of m xs b "b + n div 2 div 2" "b + n div 2" "b + n div 2 + n div 2 div 2" "b + n - 1"]
      sort_3_agrees [of m xs b "b + n div 2" "b + n - 1"] assms by (auto simp: med_def)
  then have md: "med cmp sw = med cmp' sw'" "valid m (med cmp' sw')"
    by (simp_all add: agrees_def)
  define us where "us = swp sw' (b + 1) (b + n div 2) (med cmp' sw')"
  have u: "swp sw (b + 1) (b + n div 2) (med cmp sw) = us" "valid m us"
    using md assms by (simp_all add: us_def agree_at [where m = m])
  obtain i ws where p': "zend_partition cmp' sw' (b + 1) (b + 2) (n - 3) us = (i, ws)" by fastforce
  with partition_agrees [OF u(2), of "b + 1" "b + 2" "n - 3"] assms
  have p: "zend_partition cmp sw (b + 1) (b + 2) (n - 3) us = (i, ws)" "valid m ws"
    by (auto simp: agrees_def prod_eq_iff)
  have "b + 2 \<le> i" "i < b + n" using zend_partition_bounds [OF p'] assms by simp_all
  then show ?thesis using p p' u md assms by (simp add: step agrees_def us_def [symmetric] agree_at [where m = m])
qed

lemma zend_sort_agrees:
  "valid m xs \<Longrightarrow> b + n \<le> m \<Longrightarrow> agrees m (zend_sort cmp sw b n xs) (zend_sort cmp' sw' b n xs)"
proof (induction n arbitrary: b xs rule: less_induct)
  case (less n)
  show ?case
  proof (cases "n \<le> 16")
    case True
    with insert_sort_agrees [OF less.prems] show ?thesis by (simp add: zend_sort.simps [of _ _ b n xs])
  next
    case False
    obtain i ys where st: "sort_step cmp' sw' b n xs = (i, ys)" by fastforce
    from sort_step_agrees [OF less.prems] False st
    have st': "sort_step cmp sw b n xs = (i, ys)" "valid m ys"
      by (auto simp: agrees_def prod_eq_iff)
    have bd: "b + 2 \<le> i" "i < b + n" using sort_step_bounds [OF st] False by simp_all
    have ih: "agrees m (zend_sort cmp sw c k us) (zend_sort cmp' sw' c k us)"
      if "k < n" "valid m us" "c + k \<le> b + n" for c k us
      using less.IH [of k us c] that less.prems(2) by simp
    have "agrees m (zend_sort cmp sw i (b + n - i) (zend_sort cmp sw b (i - b - 1) ys))
        (zend_sort cmp' sw' i (b + n - i) (zend_sort cmp' sw' b (i - b - 1) ys))"
      by (rule agrees_trans [OF ih]) (use bd st' in \<open>auto intro!: ih\<close>)
    moreover have "agrees m (zend_sort cmp sw b (i - b - 1) (zend_sort cmp sw i (b + n - i) ys))
        (zend_sort cmp' sw' b (i - b - 1) (zend_sort cmp' sw' i (b + n - i) ys))"
      by (rule agrees_trans [OF ih]) (use bd st' in \<open>auto intro!: ih\<close>)
    ultimately show ?thesis using False st st'
      by (simp add: zend_sort.simps [of _ _ b n xs])
  qed
qed

end

sublocale bounded_sorter \<subseteq> full: sorter cmp' sw' pv gt
proof
  fix x y
  show "(cmp' x y > 0) = gt (pv x) (pv y)" by (simp add: cmp'_def)
  show "pv (fst (sw' x y)) = pv y" "pv (snd (sw' x y)) = pv x" by (simp_all add: sw'_def bsw_pv)
next
  fix a b c
  show "gt a b \<Longrightarrow> \<not> gt b a" by (rule bgt_asym)
  show "\<not> gt a b \<Longrightarrow> \<not> gt b c \<Longrightarrow> \<not> gt a c" by (rule ble_trans)
qed

context bounded_sorter
begin

lemma bounded_sort_ok:
  assumes "valid m xs" "b + n \<le> m"
  defines "ys \<equiv> zend_sort cmp sw b n xs"
  shows "rearranged pv {b..<b + n} xs ys" "\<forall>i \<in> {b..<b + n}. \<forall>j \<in> {b..<b + n}. i < j \<longrightarrow> \<not> gt (pv (ys ! i)) (pv (ys ! j))"
    "valid m ys"
proof -
  from zend_sort_agrees [OF assms(1,2)] have ys: "ys = zend_sort cmp' sw' b n xs" "valid m ys"
    by (simp_all add: ys_def agrees_def)
  have "b + n \<le> length xs" using assms(1,2) by (simp add: valid_def)
  from full.zend_sort_ok [OF this] ys(1) have "rearranged pv {b..<b + n} xs ys" "full.sorted_in {b..<b + n} ys"
    by (simp_all add: full.sorts_def)
  then show "rearranged pv {b..<b + n} xs ys" "valid m ys"
    "\<forall>i \<in> {b..<b + n}. \<forall>j \<in> {b..<b + n}. i < j \<longrightarrow> \<not> gt (pv (ys ! i)) (pv (ys ! j))"
    using ys(2) by (simp_all add: full.sorted_in_def full.at_def full.le_def)
qed

end

end
