(* ===== verification/Zend_Hash_Sort_Correct.thy ===== *)
theory Zend_Hash_Sort_Correct
  imports Zend_Hash_Sort Zend_Sort_Bounded Zend_Hash_Bulk_Correct
begin

section \<open>Sorting a table\<close>

text \<open>
  Sorting with a comparison that is a weak order on the elements keeps every entry with its
  key, puts them in order and rebuilds the chains; with renumbering it keeps the values and
  numbers them from zero in a packed table.
\<close>

subsection \<open>The contract of a comparison of buckets\<close>

text \<open>\<open>gt\<close> compares what \<open>f\<close> reads of two buckets; \<open>ok\<close> says for which elements it does.\<close>

definition compares :: "('v bucket \<Rightarrow> 'p) \<Rightarrow> 'v bucket compare_func \<Rightarrow> ('p \<Rightarrow> 'p \<Rightarrow> bool) \<Rightarrow> ('v bucket \<Rightarrow> bool) \<Rightarrow> bool" where
  "compares f cmp gt ok =
     ((\<forall>x y. ok x \<and> ok y \<longrightarrow> (cmp x y > 0) = gt (f x) (f y)) \<and>
      (\<forall>a b. gt a b \<longrightarrow> \<not> gt b a) \<and> (\<forall>a b c. \<not> gt a b \<and> \<not> gt b c \<longrightarrow> \<not> gt a c))"

definition strip_ok :: "('v zval \<times> u64 \<times> zend_string option \<Rightarrow> bool) \<Rightarrow> 'v bucket \<Rightarrow> bool" where
  "strip_ok P p = P (strip p)"

lemma compares_cmp:
  assumes "compares f cmp gt ok" "ok x" "ok y"
  shows "(cmp x y > 0) = gt (f x) (f y)"
  by (rule conjunct1 [OF assms(1) [unfolded compares_def], rule_format]) (rule conjI [OF assms(2,3)])

lemma compares_order:
  assumes "compares f cmp gt ok"
  shows "gt a b \<Longrightarrow> \<not> gt b a" "\<not> gt a b \<Longrightarrow> \<not> gt b c \<Longrightarrow> \<not> gt a c"
proof -
  note c = assms [unfolded compares_def]
  note a = conjunct1 [OF conjunct2 [OF c]] and t = conjunct2 [OF conjunct2 [OF c]]
  show "gt a b \<Longrightarrow> \<not> gt b a" by (rule a [rule_format])
  show "\<not> gt a b \<Longrightarrow> \<not> gt b c \<Longrightarrow> \<not> gt a c" by (rule t [rule_format]) (rule conjI)
qed

lemma bucket_swap_sorter:
  fixes cmp :: "'v bucket compare_func"
  assumes c: "compares strip cmp gt (strip_ok P)"
  shows "bounded_sorter cmp zend_hash_bucket_swap strip gt (strip_ok P)"
proof
  fix x y :: "'v bucket"
  assume x: "(strip_ok P) x" and y: "(strip_ok P) y"
  show "(cmp x y > 0) = gt (strip x) (strip y)" using x y by (intro compares_cmp [OF c]) simp_all
  show "strip (fst (zend_hash_bucket_swap x y)) = strip y" "strip (snd (zend_hash_bucket_swap x y)) = strip x"
    "(strip_ok P) (fst (zend_hash_bucket_swap x y))" "(strip_ok P) (snd (zend_hash_bucket_swap x y))"
    using x y by (cases x, cases y, simp add: zend_hash_bucket_swap_def strip_def strip_ok_def)+
qed (rule compares_order [OF c]; assumption)+

lemma packed_swap_sorter:
  fixes cmp :: "'v bucket compare_func"
  assumes c: "compares strip cmp gt (strip_ok P)"
  shows "bounded_sorter cmp zend_hash_bucket_packed_swap strip gt (\<lambda>p. strip_ok P p \<and> b_key p = None)"
proof
  fix x y :: "'v bucket"
  assume x: "(\<lambda>p. strip_ok P p \<and> b_key p = None) x" and y: "(\<lambda>p. strip_ok P p \<and> b_key p = None) y"
  show "(cmp x y > 0) = gt (strip x) (strip y)" using x y by (intro compares_cmp [OF c]) simp_all
  show "strip (fst (zend_hash_bucket_packed_swap x y)) = strip y" "strip (snd (zend_hash_bucket_packed_swap x y)) = strip x"
    "(\<lambda>p. strip_ok P p \<and> b_key p = None) (fst (zend_hash_bucket_packed_swap x y))" "(\<lambda>p. strip_ok P p \<and> b_key p = None) (snd (zend_hash_bucket_packed_swap x y))"
    using x y by (cases x, cases y, simp add: zend_hash_bucket_packed_swap_def strip_def strip_ok_def)+
qed (rule compares_order [OF c]; assumption)+

lemma renum_swap_sorter:
  fixes cmp :: "'v bucket compare_func"
  assumes c: "compares b_val cmp gt (\<lambda>p. P (b_val p))"
  shows "bounded_sorter cmp zend_hash_bucket_renum_swap b_val gt (\<lambda>p. P (b_val p))"
proof
  fix x y :: "'v bucket"
  assume x: "(\<lambda>p. P (b_val p)) x" and y: "(\<lambda>p. P (b_val p)) y"
  show "(cmp x y > 0) = gt (b_val x) (b_val y)" using x y by (intro compares_cmp [OF c]) simp_all
  show "b_val (fst (zend_hash_bucket_renum_swap x y)) = b_val y" "b_val (snd (zend_hash_bucket_renum_swap x y)) = b_val x"
    "(\<lambda>p. P (b_val p)) (fst (zend_hash_bucket_renum_swap x y))" "(\<lambda>p. P (b_val p)) (snd (zend_hash_bucket_renum_swap x y))"
    using x y by (cases x, cases y, simp add: zend_hash_bucket_renum_swap_def strip_def strip_ok_def)+
qed (rule compares_order [OF c]; assumption)+

subsection \<open>Closing the holes\<close>

lemma close_holes_spec:
  assumes len: "nNumUsed ht \<le> length (arData ht)" and c: "close_holes ht = (i, ar)"
  shows "i = length (content ht)" "i \<le> nNumUsed ht" "length ar = length (arData ht)"
    "map strip (take i ar) = content ht"
proof -
  define step where "step = (\<lambda>j (i, ar). if Z_ISUNDEF (ar ! j) then (i, ar)
      else (i + 1, if i \<noteq> j then ar[i := ar ! j] else ar :: 'a bucket list))"
  have inv: "case fold step [0..<n] (0, arData ht) of (i, ar) \<Rightarrow>
      i = length (content_upto ht n) \<and> i \<le> n \<and> length ar = length (arData ht) \<and>
      map strip (take i ar) = content_upto ht n \<and> (\<forall>k \<ge> n. ar ! k = arData ht ! k)"
    if "n \<le> length (arData ht)" for n
    using that
  proof (induction n)
    case 0
    then show ?case by (simp add: content_upto_def)
  next
    case (Suc n)
    obtain i ar where s: "fold step [0..<n] (0, arData ht) = (i, ar)" by fastforce
    have ih: "i = length (content_upto ht n)" "i \<le> n" "length ar = length (arData ht)"
      "map strip (take i ar) = content_upto ht n" "\<forall>k \<ge> n. ar ! k = arData ht ! k"
      using Suc by (auto simp: s)
    have n: "n < length (arData ht)" using Suc.prems by simp
    have nth: "ar ! n = arData ht ! n" using ih(5) by simp
    show ?case
    proof (cases "live (arData ht ! n)")
      case False
      then show ?thesis using ih n nth s by (simp add: content_upto_Suc step_def)
    next
      case True
      define ar' where "ar' = (if i \<noteq> n then ar[i := ar ! n] else ar)"
      have "take (Suc i) ar' = take i ar @ [ar ! n]"
        using ih(2,3) n by (auto simp: ar'_def take_Suc_conv_app_nth)
      moreover have "\<forall>k \<ge> Suc n. ar' ! k = arData ht ! k" using ih(2,5) by (simp add: ar'_def)
      moreover have "length ar' = length (arData ht)" using ih(3) by (simp add: ar'_def)
      moreover have "fold step [0..<Suc n] (0, arData ht) = (Suc i, ar')"
        using True nth by (simp add: s) (simp add: step_def ar'_def)
      moreover have "content_upto ht (Suc n) = content_upto ht n @ [strip (arData ht ! n)]"
        using True n by (simp add: content_upto_Suc)
      ultimately show ?thesis using ih nth by simp
    qed
  qed
  have "fold step [0..<nNumUsed ht] (0, arData ht) = (i, ar)"
    using c by (simp add: close_holes_def step_def)
  from inv [OF len, unfolded this prod.case] show "i = length (content ht)" "i \<le> nNumUsed ht" "length ar = length (arData ht)"
    "map strip (take i ar) = content ht" unfolding content_def by blast+
qed

text \<open>The array that is sorted: its first \<open>i\<close> buckets are the live ones.\<close>

definition to_sort :: "'v HashTable \<Rightarrow> nat \<times> 'v bucket list" where
  "to_sort ht = (if HT_IS_WITHOUT_HOLES ht then (nNumUsed ht, arData ht) else close_holes ht)"

lemma to_sort_spec:
  assumes inv: "ht_inv ht" and t: "to_sort ht = (i, ar)"
  shows "i = nNumOfElements ht" "i \<le> nNumUsed ht" "length ar = length (arData ht)" "map strip (take i ar) = content ht"
proof -
  have len: "nNumUsed ht \<le> length (arData ht)" by (rule ht_inv_used [OF inv])
  have cnt: "nNumOfElements ht = length (content ht)"
    using ht_inv_base [OF inv] base_ok_alt [OF len] by blast
  have "i = nNumOfElements ht \<and> i \<le> nNumUsed ht \<and> length ar = length (arData ht) \<and> map strip (take i ar) = content ht"
  proof (cases "HT_IS_WITHOUT_HOLES ht")
    case True
    have "live (arData ht ! k)" if "k < nNumUsed ht" for k
      by (rule no_holes [OF inv True]) (use that len in \<open>auto simp: used_buckets_def in_set_conv_nth\<close>)
    then have "content ht = map strip (take (nNumUsed ht) (arData ht))"
      unfolding content_def by (rule content_upto_all_live(1) [OF len])
    moreover have "i = nNumUsed ht" "ar = arData ht" "nNumUsed ht = nNumOfElements ht"
      using True t by (simp_all add: to_sort_def HT_IS_WITHOUT_HOLES_def)
    ultimately show ?thesis by simp
  next
    case False
    with t close_holes_spec [OF len, of i ar] cnt show ?thesis by (simp add: to_sort_def)
  qed
  then show "i = nNumOfElements ht" "i \<le> nNumUsed ht" "length ar = length (arData ht)" "map strip (take i ar) = content ht"
    by blast+
qed

lemma content_live: "x \<in> set (content ht) \<Longrightarrow> fst x \<noteq> IS_UNDEF"
  by (auto simp: content_def content_upto_def strip_def Z_ISUNDEF_def)

text \<open>What a table holds after its first \<open>i\<close> buckets have been rearranged.\<close>

lemma content_sorted_array:
  assumes "map strip (take i ar) = map strip (take i ar')" "\<forall>p \<in> set (take i ar). live p" "i \<le> length ar" "length ar' = length ar"
  shows "content (ht\<lparr>arData := ar', nNumUsed := i, nInternalPointer := 0\<rparr>) = map strip (take i ar)"
proof -
  have "\<forall>p \<in> set (take i ar'). live p"
  proof
    fix p assume "p \<in> set (take i ar')"
    then have "strip p \<in> set (map strip (take i ar))" using assms(1) by simp
    then obtain q where "q \<in> set (take i ar)" "strip q = strip p" by auto
    with assms(2) show "live p" by (auto simp: strip_def Z_ISUNDEF_def)
  qed
  then have "filter live (take i ar') = take i ar'" by (simp add: filter_id_conv)
  then show ?thesis by (simp add: content_def content_upto_def assms(1))
qed


lemma rearranged_take:
  assumes r: "rearranged pv {0..<n} xs ys" and n: "n \<le> length xs"
  shows "mset (map pv (take n ys)) = mset (map pv (take n xs))"
proof -
  have d: "drop n ys = drop n xs"
    by (rule nth_equalityI) (use r in \<open>simp_all add: rearranged_def\<close>)
  have "mset (map pv zs) = mset (map pv (take n zs)) + mset (map pv (drop n zs))" for zs
    by (metis append_take_drop_id map_append mset_append)
  then have "mset (map pv (take n ys)) + mset (map pv (drop n xs)) = mset (map pv (take n xs)) + mset (map pv (drop n xs))"
    using r d unfolding rearranged_def by metis
  then show ?thesis by simp
qed

lemma sorted_take:
  assumes "\<forall>i \<in> {0..<0 + n}. \<forall>j \<in> {0..<0 + n}. i < j \<longrightarrow> \<not> gt (pv (ys ! i)) (pv (ys ! j))" "n \<le> length ys"
  shows "sorted_wrt (\<lambda>a b. \<not> gt a b) (map pv (take n ys))"
  using assms by (simp add: sorted_wrt_iff_nth_less)

subsection \<open>Sorting without renumbering\<close>

text \<open>A table whose elements have been permuted is as well-formed as before.\<close>

lemma base_ok_permuted:
  assumes ok: "base_ok ht" "ht_initialized ht" and p: "mset (content ht') = mset (content ht)"
    and sh: "ht_initialized ht'" "nTableSize ht' = nTableSize ht" "nNumUsed ht' \<le> nTableSize ht'"
      "length (arData ht') = nTableSize ht'" "nNumOfElements ht' = nNumOfElements ht"
  shows "base_ok ht'"
proof -
  have d: "distinct (map (fst \<circ> strip_entry) (content ht')) = distinct (map (fst \<circ> strip_entry) (content ht))"
    by (rule mset_eq_imp_distinct_iff) (simp add: p)
  have "set (content ht') = set (content ht)" "length (content ht') = length (content ht)"
    using p by (auto dest: mset_eq_setD mset_eq_length)
  with ok base_ok_alt [OF base_ok_lengths(1) [OF ok]] d sh show ?thesis by (subst base_ok_alt) simp_all
qed

lemma next_free_permuted:
  assumes "next_free_ok ht" "set (content ht') = set (content ht)" "nNextFreeElement ht' = nNextFreeElement ht"
  shows "next_free_ok ht'"
  using assms by (simp add: next_free_ok_def entries_content)

text \<open>One statement for the two swap functions that keep whole entries.\<close>

lemma sort_array_ok:
  assumes inv: "ht_inv ht" and t: "to_sort ht = (i, ar)" and P: "\<forall>x \<in> set (content ht). P x"
    and srt: "bounded_sorter cmp sw strip gt ok" and okP: "\<And>p. p \<in> set (take i ar) \<Longrightarrow> strip_ok P p \<Longrightarrow> ok p"
  defines "ht' \<equiv> ht\<lparr>arData := zend_sort cmp sw 0 i ar, nNumUsed := i, nInternalPointer := 0\<rparr>"
  shows "mset (content ht') = mset (content ht)" "sorted_wrt (\<lambda>a b. \<not> gt a b) (content ht')"
    "length (arData ht') = length (arData ht)" "i \<le> nNumUsed ht"
proof -
  note ts = to_sort_spec [OF inv t]
  have i: "i \<le> length ar" using ts(2,3) ht_inv_used [OF inv] by simp
  have set_eq: "strip ` set (take i ar) = set (content ht)" unfolding ts(4) [symmetric] by simp
  have "ok (ar ! k)" if "k < i" for k
  proof -
    have k: "ar ! k \<in> set (take i ar)" using that i by (auto simp: in_set_conv_nth intro!: exI [of _ k])
    with set_eq P show ?thesis by (intro okP) (auto simp: strip_ok_def)
  qed
  then have v: "bounded_sorter.valid ok i ar" using i by (simp add: bounded_sorter.valid_def [OF srt])
  note so = bounded_sorter.bounded_sort_ok [OF srt v, of 0 i]
  let ?ys = "zend_sort cmp sw 0 i ar"
  have m: "mset (map strip (take i ?ys)) = mset (content ht)"
    using rearranged_take [of strip i ar ?ys] so(1) i ts(4) by simp
  have len: "length ?ys = length ar" using so(1) by (simp add: rearranged_def)
  have "live p" if "p \<in> set (take i ?ys)" for p
  proof -
    have "strip p \<in> set (content ht)" using that mset_eq_setD [OF m] by auto
    from content_live [OF this] show ?thesis by (simp add: strip_def Z_ISUNDEF_def)
  qed
  then have c: "content ht' = map strip (take i ?ys)"
    unfolding ht'_def using content_sorted_array [of i ?ys ?ys ht] len i by simp
  show "mset (content ht') = mset (content ht)" using c m by simp
  show "sorted_wrt (\<lambda>a b. \<not> gt a b) (content ht')"
    unfolding c by (rule sorted_take) (use so(2) len i in simp_all)
  show "length (arData ht') = length (arData ht)" "i \<le> nNumUsed ht" using len ts by (simp_all add: ht'_def)
qed

lemma content_finish:
  assumes fin: "base_ok h1" "ht_initialized h1" "ht_packed h1 \<or> nTableMask h1 = HT_SIZE_TO_MASK (nTableSize h1)"
    and nf: "next_free_ok h1"
  shows "\<exists>e' ht'. sort_finish e h1 False = Inr (e', ht') \<and> same_env e e' \<and> ht_inv ht' \<and> \<not> ht_packed ht' \<and>
    content ht' = content h1 \<and> nNextFreeElement ht' = nNextFreeElement h1"
proof (cases "ht_packed h1")
  case True
  from zend_hash_packed_to_hash_ok [OF fin(1,2), of e] obtain e' ht' where r: "zend_hash_packed_to_hash e h1 = Inr (e', ht')"
    "same_env e e'" "ready_mixed ht'" "keeps h1 ht'" "\<not> ht_packed ht'" by blast
  have "ht_inv ht'" by (rule ht_inv_mixedI) (use r keeps_next_free nf in auto)
  with r True show ?thesis by (auto simp: sort_finish_def keeps_def)
next
  case False
  with fin(3) have m: "nTableMask h1 = HT_SIZE_TO_MASK (nTableSize h1)" by simp
  from zend_hash_rehash_ok [OF fin(1,2) m, of e] obtain e' ht' where r: "zend_hash_rehash e h1 = Inr (e', ht')"
    "same_env e e'" "ready_mixed ht'" "content ht' = content h1" "same_shape (HT_HASH_RESET h1) ht'" by blast
  have nx: "nNextFreeElement ht' = nNextFreeElement h1" "\<not> ht_packed ht'"
    using r(5) False by (simp_all add: same_shape_def HT_HASH_RESET_def)
  have "ht_inv ht'" by (rule ht_inv_mixedI) (use r nx next_free_permuted [OF nf] in auto)
  with r False nx show ?thesis by (auto simp: sort_finish_def)
qed


lemma sort_not_required:
  assumes "ht_inv ht" "\<not> nNumOfElements ht > 1"
  shows "sorted_wrt R (content ht)" "content ht = [] \<or> (\<exists>x. content ht = [x])"
proof -
  have "nNumOfElements ht = length (content ht)"
    using ht_inv_base [OF assms(1)] base_ok_alt [OF ht_inv_used [OF assms(1)]] by blast
  with assms(2) have "length (content ht) \<le> 1" by simp
  then show "content ht = [] \<or> (\<exists>x. content ht = [x])" by (cases "content ht") auto
  then show "sorted_wrt R (content ht)" by auto
qed

lemma elements_initialized:
  assumes "ht_inv ht" "nNumOfElements ht > 0" shows "ht_initialized ht"
proof (rule ccontr)
  assume "\<not> ht_initialized ht"
  then have "nNumUsed ht = 0" using assms(1) by (simp add: ht_inv_def uninit_ok_def)
  moreover obtain i ar where "to_sort ht = (i, ar)" by fastforce
  from to_sort_spec(1,2) [OF assms(1) this] have "nNumOfElements ht \<le> nNumUsed ht" by simp
  ultimately show False using assms(2) by simp
qed

lemma hash_sort_ok:
  assumes inv: "ht_inv ht" and c: "compares strip cmp gt (strip_ok P)" and P: "\<forall>x \<in> set (content ht). P x"
  shows "\<exists>e' ht'. zend_hash_sort e ht cmp False = Inr (e', ht') \<and> ht_inv ht' \<and>
    mset (content ht') = mset (content ht) \<and> sorted_wrt (\<lambda>a b. \<not> gt a b) (content ht') \<and>
    nNextFreeElement ht' = nNextFreeElement ht"
proof (cases "nNumOfElements ht > 1")
  case False
  then show ?thesis using inv sort_not_required [OF inv False]
    by (intro exI [of _ e] exI [of _ ht]) (simp add: zend_hash_sort_def zend_hash_sort_ex_def)
next
  case True
  have ini: "ht_initialized ht" using elements_initialized [OF inv] True by simp
  obtain i ar where t: "to_sort ht = (i, ar)" by fastforce
  define sw where "sw = (if ht_packed ht then zend_hash_bucket_packed_swap else (zend_hash_bucket_swap :: 'a bucket swap_func))"
  define ok where "ok = (\<lambda>p. strip_ok P p \<and> (ht_packed ht \<longrightarrow> b_key p = (None :: zend_string option)))"
  have srt: "bounded_sorter cmp sw strip gt ok"
    using packed_swap_sorter [OF c] bucket_swap_sorter [OF c] by (cases "ht_packed ht") (simp_all add: sw_def ok_def)
  have "b_key p = None" if "ht_packed ht" "p \<in> set (take i ar)" for p
  proof -
    have "strip p \<in> set (map strip (take i ar))" using that(2) by simp
    then have "strip p \<in> set (content ht)" unfolding to_sort_spec(4) [OF inv t] .
    then obtain k where k: "k < nNumUsed ht" "live (arData ht ! k)" "strip (arData ht ! k) = strip p"
      using ht_inv_used [OF inv] by (auto simp: content_def content_upto_def in_set_conv_nth)
    with that(1) inv ini have "b_key (arData ht ! k) = None" by (simp add: ht_inv_def packed_ok_def)
    with k(3) show ?thesis by (simp add: strip_def)
  qed
  then have okP: "\<And>p. p \<in> set (take i ar) \<Longrightarrow> strip_ok P p \<Longrightarrow> ok p" by (simp add: ok_def)
  define h1 where "h1 = ht\<lparr>arData := zend_sort cmp sw 0 i ar, nNumUsed := i, nInternalPointer := 0\<rparr>"
  note so = sort_array_ok [OF inv t P srt okP, folded h1_def]
  have sh: "ht_initialized h1" "nTableSize h1 = nTableSize ht" "nNumOfElements h1 = nNumOfElements ht"
    "nNumUsed h1 = i" "nNextFreeElement h1 = nNextFreeElement ht" "nTableMask h1 = nTableMask ht" "ht_packed h1 = ht_packed ht"
    using ini by (simp_all add: h1_def)
  have b: "base_ok ht" by (rule ht_inv_base [OF inv])
  then have b1: "base_ok h1"
    by (rule base_ok_permuted) (use ini sh so b in \<open>auto simp: base_ok_def\<close>)
  have nf: "next_free_ok h1"
    by (rule next_free_permuted [of ht]) (use inv so(1) sh in \<open>auto simp: ht_inv_def dest: mset_eq_setD\<close>)
  have m: "ht_packed h1 \<or> nTableMask h1 = HT_SIZE_TO_MASK (nTableSize h1)"
    using inv ini sh by (auto simp: ht_inv_def mixed_ok_def)
  have "zend_hash_sort e ht cmp False = sort_finish e h1 False"
    using True t [unfolded to_sort_def] by (simp add: zend_hash_sort_def zend_hash_sort_ex_def h1_def sw_def)
  with content_finish [OF b1 sh(1) m nf, of e] so(1,2) sh(5) show ?thesis by auto
qed

subsection \<open>Sorting with renumbering\<close>

definition renumbered :: "nat \<Rightarrow> 'v bucket list \<Rightarrow> 'v bucket list" where
  "renumbered n ar = map (\<lambda>j. (ar ! j)\<lparr>b_h := of_nat j, b_key := None\<rparr>) [0..<n] @ drop n ar"

lemma fold_renumber:
  "n \<le> length (arData ht) \<Longrightarrow>
   snd (fold renumber_bucket [0..<n] (e, ht)) = ht\<lparr>arData := renumbered n (arData ht)\<rparr>"
proof (induction n)
  case (Suc n)
  obtain e' ht' where s: "fold renumber_bucket [0..<n] (e, ht) = (e', ht')" by fastforce
  with Suc have ht': "ht' = ht\<lparr>arData := renumbered n (arData ht)\<rparr>" by simp
  have n: "renumbered n (arData ht) ! n = arData ht ! n"
    using Suc.prems by (simp add: renumbered_def nth_append)
  have "(renumbered n (arData ht))[n := (arData ht ! n)\<lparr>b_h := of_nat n, b_key := None\<rparr>] = renumbered (Suc n) (arData ht)"
    using Suc.prems Cons_nth_drop_Suc [of n "arData ht", symmetric] by (simp add: renumbered_def list_update_append)
  then show ?case by (simp add: s) (simp add: renumber_bucket_def upd_bucket_def ht' n)
qed (simp add: renumbered_def)


lemma renumbered_nth:
  "j < n \<Longrightarrow> renumbered n ar ! j = (ar ! j)\<lparr>b_h := of_nat j, b_key := None\<rparr>"
  by (simp add: renumbered_def nth_append)

lemma finish_renumber:
  assumes ok: "nNumUsed h1 = i" "i \<le> length (arData h1)"
    and p: "ht_packed h1 \<Longrightarrow> nTableMask h1 = HT_MIN_MASK \<and> ht_hash h1 = uninitialized_bucket"
    and sz: "i \<le> nTableSize h1" "length (arData h1) = nTableSize h1"
  shows "\<exists>ht'. sort_finish e h1 True = Inr (e, ht') \<and> ht_packed ht' \<and> nTableMask ht' = HT_MIN_MASK \<and>
    ht_hash ht' = uninitialized_bucket \<and> take i (arData ht') = take i (arData h1) \<and> nNumUsed ht' = i \<and>
    length (arData ht') = nTableSize h1 \<and> nTableSize ht' = nTableSize h1 \<and> ht_initialized ht' = ht_initialized h1 \<and>
    nNumOfElements ht' = nNumOfElements h1 \<and> nNextFreeElement ht' = nNextFreeElement h1"
proof (cases "ht_packed h1")
  case True
  then show ?thesis using ok p sz by (simp add: sort_finish_def)
next
  case False
  have "HT_HASH_SIZE HT_MIN_MASK = 2" by (simp add: HT_HASH_SIZE_def HT_MIN_MASK_def)
  then show ?thesis using False ok sz
    by (simp add: sort_finish_def HT_HASH_RESET_PACKED_def HT_HASH_set_def HT_HASH_pos_def Let_def
        alloc_hash_def realloc_buckets_def uninitialized_bucket_def HT_MIN_MASK_def eval_nat_numeral)
qed


text \<open>The buckets \<open>0..<n\<close> of a renumbered table are its entries.\<close>

lemma renumbered_entries:
  assumes u: "nNumUsed ht' = n" "n \<le> length ys" and d: "take n (arData ht') = take n (renumbered n ys)"
    and lv: "\<forall>p \<in> set (take n ys). live p"
  shows "entries ht' = map (\<lambda>j. (IKey (of_nat j), b_val (ys ! j))) [0..<n]"
    "map snd (entries ht') = map b_val (take n ys)"
proof -
  have live: "live (ys ! j)" if "j < n" for j
  proof -
    have "ys ! j \<in> set (take n ys)" using that u by (auto simp: in_set_conv_nth intro!: exI [of _ j])
    with lv show ?thesis by blast
  qed
  have "take n (renumbered n ys) = map (\<lambda>j. (ys ! j)\<lparr>b_h := of_nat j, b_key := None\<rparr>) [0..<n]"
    by (simp add: renumbered_def)
  moreover have "filter (\<lambda>p. live p) (map (\<lambda>j. (ys ! j)\<lparr>b_h := of_nat j, b_key := None\<rparr>) [0..<n]) =
      map (\<lambda>j. (ys ! j)\<lparr>b_h := of_nat j, b_key := None\<rparr>) [0..<n]"
    by (rule filter_True) (use live in \<open>auto simp: Z_ISUNDEF_def\<close>)
  ultimately have "filter (\<lambda>p. live p) (take n (arData ht')) = map (\<lambda>j. (ys ! j)\<lparr>b_h := of_nat j, b_key := None\<rparr>) [0..<n]"
    unfolding d by simp
  then show e: "entries ht' = map (\<lambda>j. (IKey (of_nat j), b_val (ys ! j))) [0..<n]"
    by (simp add: entries_def entries_upto_def u(1) entry_of_def key_of_def)
  show "map snd (entries ht') = map b_val (take n ys)"
    by (rule nth_equalityI) (use u in \<open>simp_all add: e\<close>)
qed

lemma small_index:
  assumes "j < n" "n \<le> 2 ^ 30"
  shows "sint (of_nat j :: u64) < sint (of_nat n :: u64)" "inj_on (\<lambda>j. of_nat j :: u64) {0..<n}"
proof -
  have s: "sint (of_nat k :: u64) = int k" if "k \<le> n" for k
    using that assms(2) by (simp add: signed_of_nat signed_take_bit_int_eq_self)
  from s [of j] s [of n] assms show "sint (of_nat j :: u64) < sint (of_nat n :: u64)" by simp
  show "inj_on (\<lambda>j. of_nat j :: u64) {0..<n}"
  proof (rule inj_onI)
    fix k l assume "k \<in> {0..<n}" "l \<in> {0..<n}" "of_nat k = (of_nat l :: u64)"
    then show "k = l" by (metis atLeastLessThan_iff less_imp_le s of_nat_eq_iff)
  qed
qed

lemma renumbered_inv:
  assumes sz: "pow2_size (nTableSize ht')" "nNumUsed ht' \<le> nTableSize ht'" "length (arData ht') = nTableSize ht'"
    and k: "ht_packed ht'" "nTableMask ht' = HT_MIN_MASK" "ht_hash ht' = uninitialized_bucket" "ht_initialized ht'"
    and n: "nNumUsed ht' = nNumOfElements ht'" "nNextFreeElement ht' = of_nat (nNumUsed ht')"
    and e: "entries ht' = map (\<lambda>j. (IKey (of_nat j), f j)) [0..<nNumUsed ht']"
    and b: "\<And>j. j < nNumUsed ht' \<Longrightarrow> b_key (arData ht' ! j) = None \<and> b_h (arData ht' ! j) = of_nat j"
  shows "ht_inv ht'"
proof -
  have small: "nNumUsed ht' \<le> 2 ^ 30" using sz(2) pow2_size_bounds(2) [OF sz(1)] by simp
  have inj: "inj_on (\<lambda>j. of_nat j :: u64) {0..<nNumUsed ht'}"
  proof (cases "nNumUsed ht' = 0")
    case False
    then show ?thesis using small_index(2) [of 0, OF _ small] by simp
  qed simp
  have "distinct (map fst (entries ht'))"
    using inj by (simp add: e comp_def distinct_map inj_on_def)
  then have "base_ok ht'" using sz b n(1) by (simp add: base_ok_def e key_ok_def)
  moreover have "next_free_ok ht'"
    using small_index(1) [OF _ small] by (auto simp: next_free_ok_def e n(2))
  moreover have "packed_ok ht'" using k b by (simp add: packed_ok_def)
  ultimately show ?thesis using k by (simp add: ht_inv_def)
qed


lemma renumber_array_ok:
  assumes inv: "ht_inv ht" and t: "to_sort ht = (i, ar)" and P: "\<forall>x \<in> set (content ht). P (fst x)"
    and c: "compares b_val cmp gt (\<lambda>p. P (b_val p))"
  defines "ys \<equiv> zend_sort cmp zend_hash_bucket_renum_swap 0 i ar"
  shows "mset (map b_val (take i ys)) = mset (map snd (entries ht))"
    "sorted_wrt (\<lambda>a b. \<not> gt a b) (map b_val (take i ys))" "length ys = length ar" "\<forall>p \<in> set (take i ys). live p"
proof -
  note ts = to_sort_spec [OF inv t]
  note srt = renum_swap_sorter [OF c]
  have i: "i \<le> length ar" using ts(2,3) ht_inv_used [OF inv] by simp
  have vals: "map b_val (take i ar) = map fst (content ht)"
    unfolding ts(4) [symmetric] by (simp add: comp_def)
  have snds: "map snd (entries ht) = map fst (content ht)"
    by (auto simp: entries_content)
  have "P (b_val (ar ! k))" if "k < i" for k
  proof -
    have "ar ! k \<in> set (take i ar)" using that i by (auto simp: in_set_conv_nth intro!: exI [of _ k])
    then have "b_val (ar ! k) \<in> set (map b_val (take i ar))" by simp
    with P show ?thesis unfolding vals by auto
  qed
  then have v: "bounded_sorter.valid (\<lambda>p. P (b_val p)) i ar" using i by (simp add: bounded_sorter.valid_def [OF srt])
  note so = bounded_sorter.bounded_sort_ok [OF srt v, of 0 i, folded ys_def]
  show m: "mset (map b_val (take i ys)) = mset (map snd (entries ht))"
    using rearranged_take [of b_val i ar ys] so(1) i vals snds by simp
  show len: "length ys = length ar" using so(1) by (simp add: rearranged_def)
  show "sorted_wrt (\<lambda>a b. \<not> gt a b) (map b_val (take i ys))"
    by (rule sorted_take) (use so(2) len i in simp_all)
  show "\<forall>p \<in> set (take i ys). live p"
  proof
    fix p assume "p \<in> set (take i ys)"
    then have "b_val p \<in> set (map fst (content ht))"
      using mset_eq_setD [OF m] unfolding snds by auto
    then obtain x where "x \<in> set (content ht)" "b_val p = fst x" by auto
    with content_live [OF this(1)] show "live p" by (simp add: Z_ISUNDEF_def)
  qed
qed

lemma hash_sort_renumber_ok:
  assumes inv: "ht_inv ht" and c: "compares b_val cmp gt (\<lambda>p. P (b_val p))" and P: "\<forall>x \<in> set (content ht). P (fst x)"
    and some: "nNumOfElements ht > 0"
  shows "\<exists>e' ht'. zend_hash_sort e ht cmp True = Inr (e', ht') \<and> ht_inv ht' \<and> ht_packed ht' \<and>
    map fst (entries ht') = map (\<lambda>j. IKey (of_nat j)) [0..<length (entries ht)] \<and>
    mset (map snd (entries ht')) = mset (map snd (entries ht)) \<and>
    sorted_wrt (\<lambda>a b. \<not> gt a b) (map snd (entries ht')) \<and>
    nNextFreeElement ht' = of_nat (length (entries ht))"
proof -
  obtain i ar where t: "to_sort ht = (i, ar)" by fastforce
  define ys where "ys = zend_sort cmp zend_hash_bucket_renum_swap 0 i ar"
  note ra = renumber_array_ok [OF inv t P c, folded ys_def]
  note ts = to_sort_spec [OF inv t]
  have ini: "ht_initialized ht" by (rule elements_initialized [OF inv some])
  have b: "base_ok ht" by (rule ht_inv_base [OF inv])
  have sz: "length (arData ht) = nTableSize ht" "pow2_size (nTableSize ht)" "nNumUsed ht \<le> nTableSize ht"
    "nNumOfElements ht = length (entries ht)" using b ini by (simp_all add: base_ok_def)
  have iy: "i \<le> length ys" "length ys = nTableSize ht" "i = nNumOfElements ht" using ts ra(3) sz by simp_all
  obtain e1 h1 where f: "fold renumber_bucket [0..<i] (e, ht\<lparr>arData := ys, nNumUsed := i, nInternalPointer := 0\<rparr>) = (e1, h1)"
    by fastforce
  with fold_renumber [of i "ht\<lparr>arData := ys, nNumUsed := i, nInternalPointer := 0\<rparr>" e] iy
  have h1: "h1 = ht\<lparr>arData := renumbered i ys, nNumUsed := i, nInternalPointer := 0\<rparr>" by simp
  define h2 where "h2 = h1\<lparr>nNextFreeElement := of_nat i\<rparr>"
  have eq: "zend_hash_sort e ht cmp True = sort_finish e1 h2 True"
    using some t [unfolded to_sort_def] f by (simp add: zend_hash_sort_def zend_hash_sort_ex_def ys_def h2_def)
  have len: "length (renumbered i ys) = length ys" using iy(1) by (simp add: renumbered_def)
  have "ht_packed h2 \<Longrightarrow> nTableMask h2 = HT_MIN_MASK \<and> ht_hash h2 = uninitialized_bucket"
    using inv ini by (simp add: h2_def h1 ht_inv_def packed_ok_def)
  from finish_renumber [of h2 i e1, OF _ _ this] len iy sz ts(2)
  obtain ht' where r: "sort_finish e1 h2 True = Inr (e1, ht')" "ht_packed ht'" "nTableMask ht' = HT_MIN_MASK"
    "ht_hash ht' = uninitialized_bucket" "take i (arData ht') = take i (renumbered i ys)" "nNumUsed ht' = i"
    "length (arData ht') = nTableSize ht" "nTableSize ht' = nTableSize ht" "ht_initialized ht'"
    "nNumOfElements ht' = i" "nNextFreeElement ht' = of_nat i"
    by (auto simp: h2_def h1 ini)
  note e = renumbered_entries [OF r(6) iy(1) r(5) ra(4)]
  have nth: "arData ht' ! j = (ys ! j)\<lparr>b_h := of_nat j, b_key := None\<rparr>" if "j < i" for j
    using that r(5) renumbered_nth [OF that] by (metis nth_take)
  have "ht_inv ht'"
    by (rule renumbered_inv [where f = "\<lambda>j. b_val (ys ! j)"]) (use r e(1) sz ts(2) nth in simp_all)
  moreover have "map fst (entries ht') = map (\<lambda>j. IKey (of_nat j)) [0..<length (entries ht)]"
    using e(1) iy(3) sz(4) by simp
  moreover have "mset (map snd (entries ht')) = mset (map snd (entries ht))" using e(2) ra(1) by (simp del: mset_map)
  ultimately show ?thesis using eq r(1,2,11) e(2) ra(2) iy(3) sz(4) by (simp del: mset_map)
qed

end
