(* ===== verification/Zend_Sort_Clients.thy ===== *)
theory Zend_Sort_Clients
  imports Zend_Hash_Sort_Correct Zend_Hash_Update_Correct
begin

section \<open>Tables the engine sorts (Zend/zend\_ini.c, Zend/zend\_vm\_trace\_handlers.h)\<close>

text \<open>
  The ini directives are sorted by key: integer keys first and descending, then the names,
  without regard to case.  The trace of the executor is sorted by count, highest first.
\<close>

subsection \<open>The comparisons\<close>

definition ini_key_compare :: "'v bucket compare_func" where
  "ini_key_compare f s =
     (case (b_key f, b_key s) of
        (None, None) \<Rightarrow> (if b_h f > b_h s then - 1 else if b_h f < b_h s then 1 else 0)
      | (None, Some _) \<Rightarrow> - 1
      | (Some _, None) \<Rightarrow> 1
      | (Some fk, Some sk) \<Rightarrow> zend_binary_strcasecmp (zs_ptr fk = zs_ptr sk) (zs_val fk) (zs_val sk))"

definition zend_ini_sort_entries :: "'v env \<Rightarrow> 'v HashTable \<Rightarrow> ('v env \<times> 'v HashTable) res" where
  "zend_ini_sort_entries e ini_directives = zend_hash_sort e ini_directives ini_key_compare False"

text \<open>The number of a value; the trace table only holds numbers.\<close>

fun Z_LVAL :: "u64 zval \<Rightarrow> int" where
  "Z_LVAL (IS_VAL n) = sint n"
| "Z_LVAL _ = 0"

definition zend_vm_trace_compare :: "u64 bucket compare_func" where
  "zend_vm_trace_compare p1 p2 =
     (if Z_LVAL (b_val p1) < Z_LVAL (b_val p2) then 1
      else if Z_LVAL (b_val p1) > Z_LVAL (b_val p2) then - 1
      else 0)"

subsection \<open>They order entries\<close>

fun ini_key :: "'v zval \<times> u64 \<times> zend_string option \<Rightarrow> u64 + bytes" where
  "ini_key (v, h, None) = Inl h"
| "ini_key (v, h, Some s) = Inr (map zend_tolower_ascii (zs_val s))"

text \<open>Is the first key behind the second in the order of \<open>ini_key_compare\<close>?\<close>

fun ini_behind :: "u64 + bytes \<Rightarrow> u64 + bytes \<Rightarrow> bool" where
  "ini_behind (Inl h) (Inl h') = (h < h')"
| "ini_behind (Inl h) (Inr t) = False"
| "ini_behind (Inr s) (Inl h') = True"
| "ini_behind (Inr s) (Inr t) = (t < s)"

definition ini_gt :: "'v zval \<times> u64 \<times> zend_string option \<Rightarrow> 'v zval \<times> u64 \<times> zend_string option \<Rightarrow> bool" where
  "ini_gt x y = ini_behind (ini_key x) (ini_key y)"

text \<open>The names: \<open>mem\<close> says which bytes are at an address, and no name is longer than an \<open>int\<close> counts.\<close>

fun ini_name_ok :: "(nat \<Rightarrow> bytes) \<Rightarrow> 'v zval \<times> u64 \<times> zend_string option \<Rightarrow> bool" where
  "ini_name_ok mem (v, h, None) = True"
| "ini_name_ok mem (v, h, Some s) = (zs_val s = mem (zs_ptr s) \<and> length (zs_val s) < 2 ^ 31)"

lemma ini_key_compare_gt:
  assumes "strip_ok (ini_name_ok mem) p" "strip_ok (ini_name_ok mem) q"
  shows "(ini_key_compare p q > 0) = ini_gt (strip p) (strip q)"
proof (cases "b_key p")
  case None
  then show ?thesis by (cases "b_key q") (auto simp: ini_key_compare_def ini_gt_def strip_def)
next
  case s: (Some s)
  show ?thesis
  proof (cases "b_key q")
    case None
    with s show ?thesis by (simp add: ini_key_compare_def ini_gt_def strip_def)
  next
    case t: (Some t)
    let ?low = "map zend_tolower_ascii"
    have st: "zs_val s = mem (zs_ptr s)" "zs_val t = mem (zs_ptr t)" "length (zs_val s) < 2 ^ 31" "length (zs_val t) < 2 ^ 31"
      using assms s t by (auto simp: strip_ok_def strip_def)
    have "(zend_binary_strcasecmp (zs_ptr s = zs_ptr t) (zs_val s) (zs_val t) > 0) = (?low (zs_val t) < ?low (zs_val s))"
    proof (cases "zs_ptr s = zs_ptr t")
      case True
      with st(1,2) show ?thesis by (simp add: zend_binary_strcasecmp_def)
    next
      case False
      with binary_strcasecmp_sign [OF st(3,4)] show ?thesis by (simp add: lex_sign_def)
    qed
    with s t show ?thesis by (simp add: ini_key_compare_def ini_gt_def strip_def)
  qed
qed

lemma ini_order: "ini_behind a b \<Longrightarrow> \<not> ini_behind b a" "\<not> ini_behind a b \<Longrightarrow> \<not> ini_behind b c \<Longrightarrow> \<not> ini_behind a c"
  by (cases a; cases b; cases c; auto)+

lemma ini_compares: "compares strip (ini_key_compare :: 'v bucket compare_func) ini_gt (strip_ok (ini_name_ok mem))"
  unfolding compares_def
proof (intro conjI allI impI)
  fix x y :: "'v bucket"
  assume "strip_ok (ini_name_ok mem) x \<and> strip_ok (ini_name_ok mem) y"
  then show "(ini_key_compare x y > 0) = ini_gt (strip x) (strip y)" by (intro ini_key_compare_gt) auto
next
  fix x y z :: "'v zval \<times> u64 \<times> zend_string option"
  show "ini_gt x y \<Longrightarrow> \<not> ini_gt y x" by (simp add: ini_gt_def ini_order(1))
  show "\<not> ini_gt x y \<and> \<not> ini_gt y z \<Longrightarrow> \<not> ini_gt x z"
    unfolding ini_gt_def by (elim conjE) (rule ini_order(2))
qed

interpretation ini: bounded_sorter ini_key_compare zend_hash_bucket_swap strip ini_gt "strip_ok (ini_name_ok mem)"
  for mem by (rule bucket_swap_sorter [OF ini_compares])

definition trace_gt :: "u64 zval \<Rightarrow> u64 zval \<Rightarrow> bool" where
  "trace_gt v w = (Z_LVAL v < Z_LVAL w)"

lemma trace_compare_gt: "(zend_vm_trace_compare p q > 0) = trace_gt (b_val p) (b_val q)"
  by (simp add: zend_vm_trace_compare_def trace_gt_def)

text \<open>The trace comparison needs nothing of its buckets.\<close>

interpretation trace: sorter zend_vm_trace_compare zend_hash_bucket_swap strip "\<lambda>x y. trace_gt (fst x) (fst y)"
  by unfold_locales (auto simp: trace_compare_gt trace_gt_def zend_hash_bucket_swap_def strip_def)

lemma trace_compares_val: "compares b_val zend_vm_trace_compare trace_gt (\<lambda>p. True)"
  by (auto simp: compares_def trace_compare_gt trace_gt_def)

lemma trace_compares: "compares strip zend_vm_trace_compare (\<lambda>x y. trace_gt (fst x) (fst y)) (strip_ok (\<lambda>x. True))"
  by (auto simp: compares_def trace_compare_gt trace_gt_def strip_def)


subsection \<open>The sorted tables\<close>

fun ini_order :: "hkey \<Rightarrow> u64 + bytes" where
  "ini_order (IKey h) = Inl h"
| "ini_order (SKey s) = Inr (map zend_tolower_ascii s)"

lemma ini_key_order: "ini_key x = ini_order (fst (strip_entry x))"
  by (cases x rule: ini_key.cases) simp_all

lemma mset_entries: "mset (content ht') = mset (content ht) \<Longrightarrow> mset (entries ht') = mset (entries ht)"
  by (simp add: entries_content)

definition ini_names :: "(nat \<Rightarrow> bytes) \<Rightarrow> 'v HashTable \<Rightarrow> bool" where
  "ini_names mem ht = (\<forall>(a, b) \<in> key_refs ht. b = mem a \<and> length b < 2 ^ 31)"

lemma ini_names_content: "ini_names mem ht \<Longrightarrow> \<forall>x \<in> set (content ht). ini_name_ok mem x"
proof
  fix x assume n: "ini_names mem ht" and x: "x \<in> set (content ht)"
  obtain v h k where xe: "x = (v, h, k)" by (cases x)
  show "ini_name_ok mem x"
  proof (cases k)
    case (Some s)
    then have "(zs_ptr s, zs_val s) \<in> key_refs ht" using x xe by (auto simp: key_refs_def)
    with n Some xe show ?thesis by (auto simp: ini_names_def)
  qed (simp add: xe)
qed

lemma ini_sort_ok:
  assumes inv: "ht_inv ht" and names: "ini_names mem ht"
  shows "\<exists>e' ht'. zend_ini_sort_entries e ht = Inr (e', ht') \<and> ht_inv ht' \<and>
    mset (entries ht') = mset (entries ht) \<and>
    sorted_wrt (\<lambda>k l. \<not> ini_behind (ini_order k) (ini_order l)) (map fst (entries ht'))"
proof -
  obtain e' ht' where r: "zend_ini_sort_entries e ht = Inr (e', ht')" "ht_inv ht'"
    "mset (content ht') = mset (content ht)" "sorted_wrt (\<lambda>a b. \<not> ini_gt a b) (content ht')"
    using hash_sort_ok [OF inv ini_compares, of mem e] ini_names_content [OF names] by (auto simp: zend_ini_sort_entries_def)
  have "sorted_wrt (\<lambda>k l. \<not> ini_behind (ini_order k) (ini_order l)) (map fst (entries ht'))"
    using r(4) by (simp add: entries_content sorted_wrt_map ini_gt_def ini_key_order)
  with r mset_entries [OF r(3)] show ?thesis by blast
qed

text \<open>
  A table of counters sorted by \<open>zend_vm_trace_compare\<close>: as it is called there, without
  renumbering, and with it.
\<close>

lemma trace_sort_ok:
  assumes "ht_inv ht"
  shows "\<exists>e' ht'. zend_hash_sort e ht zend_vm_trace_compare False = Inr (e', ht') \<and> ht_inv ht' \<and>
    mset (entries ht') = mset (entries ht) \<and>
    sorted_wrt (\<lambda>v w. Z_LVAL w \<le> Z_LVAL v) (map snd (entries ht'))"
proof -
  obtain e' ht' where r: "zend_hash_sort e ht zend_vm_trace_compare False = Inr (e', ht')" "ht_inv ht'"
    "mset (content ht') = mset (content ht)" "sorted_wrt (\<lambda>a b. \<not> trace_gt (fst a) (fst b)) (content ht')"
    using hash_sort_ok [OF assms trace_compares, of e] by auto
  have v: "snd (strip_entry x) = fst x" for x :: "'v zval \<times> u64 \<times> zend_string option" by (cases x) simp
  have "sorted_wrt (\<lambda>v w. Z_LVAL w \<le> Z_LVAL v) (map snd (entries ht'))"
    using r(4) by (simp add: entries_content sorted_wrt_map trace_gt_def v not_less)
  with r mset_entries [OF r(3)] show ?thesis by blast
qed

end
