(* ===== verification/Zend_Hash_Compare_Correct.thy ===== *)
theory Zend_Hash_Compare_Correct
  imports Zend_Hash_Sort_Correct Zend_Hash_Store
begin

section \<open>Comparing tables, and the extreme elements\<close>

text \<open>
  What \<open>zend_hash_compare\<close> and \<open>zend_hash_minmax\<close> decide of the entries of tables.
\<close>

subsection \<open>The unordered comparison decides equality of maps\<close>

text \<open>The values of a table are compared as they are: no slots.\<close>

definition plain :: "'v HashTable \<Rightarrow> bool" where
  "plain ht = (\<forall>v \<in> snd ` set (entries ht). \<forall>a. v \<noteq> IS_INDIRECT a)"

lemma compare_values_plain:
  assumes "v \<noteq> IS_UNDEF" "w \<noteq> IS_UNDEF" "\<forall>a. v \<noteq> IS_INDIRECT a" "\<forall>a. w \<noteq> IS_INDIRECT a"
  shows "compare_values e compar v w = compar v w"
  using assms by (cases v; cases w) (simp_all add: compare_values_def)

lemma located_value:
  assumes inv: "ht_inv ht" and pl: "plain ht" and l: "locate ht k = Some i"
  shows "b_val (arData ht ! i) \<noteq> IS_UNDEF" "b_val (arData ht ! i) \<noteq> IS_INDIRECT a"
    "map_of (entries ht) k = Some (b_val (arData ht ! i))"
proof -
  show m: "map_of (entries ht) k = Some (b_val (arData ht ! i))" by (simp add: map_of_locate [OF inv] l)
  show "b_val (arData ht ! i) \<noteq> IS_UNDEF" using locate_Some(2) [OF l] by (simp add: Z_ISUNDEF_def)
  from map_of_SomeD [OF m] have "b_val (arData ht ! i) \<in> snd ` set (entries ht)" by force
  with pl show "b_val (arData ht ! i) \<noteq> IS_INDIRECT a" by (auto simp: plain_def)
qed

lemma compare_loop_ok:
  assumes inv: "ht_inv ht2" and pl: "plain ht2" and eq: "\<And>v w. compar v w = 0 \<longleftrightarrow> v = w"
    and ps: "\<forall>p \<in> set ps. live p \<longrightarrow> key_ok p \<and> (\<forall>a. b_val p \<noteq> IS_INDIRECT a) \<and>
      (\<forall>s. b_key p = Some s \<longrightarrow> ptr_coherent ht2 s)"
  shows "\<exists>r. compare_loop e ht2 compar False ps idx2 = Inr r \<and>
    (r = 0 \<longleftrightarrow> (\<forall>p \<in> set ps. live p \<longrightarrow> map_of (entries ht2) (key_of p) = Some (b_val p)))"
  using ps
proof (induction ps)
  case (Cons p ps)
  show ?case
  proof (cases "live p")
    case False
    with Cons show ?thesis by simp
  next
    case lv: True
    have find: "(case b_key p of None \<Rightarrow> zend_hash_index_find ht2 (b_h p) | Some key \<Rightarrow> zend_hash_find ht2 key) =
        Inr (locate ht2 (key_of p))"
    proof (cases "b_key p")
      case None
      then show ?thesis by (simp add: index_find_ok [OF inv] key_of_def)
    next
      case (Some s)
      have "zs_ok s" using Cons.prems lv Some by (simp add: key_ok_def zs_ok_def)
      moreover have "ptr_coherent ht2 s" using Cons.prems lv Some by simp
      ultimately show ?thesis using find_bucket_ok [OF inv, of s False] Some
        by (simp add: zend_hash_find_def key_of_def)
    qed
    show ?thesis
    proof (cases "locate ht2 (key_of p)")
      case None
      then have "map_of (entries ht2) (key_of p) = None" by (simp add: map_of_locate [OF inv])
      with lv find None show ?thesis by auto
    next
      case (Some i)
      note l = located_value [OF inv pl Some]
      have cv: "compare_values e compar (b_val p) (b_val (arData ht2 ! i)) = compar (b_val p) (b_val (arData ht2 ! i))"
        by (rule compare_values_plain) (use Cons.prems lv l(1,2) in \<open>auto simp: Z_ISUNDEF_def\<close>)
      obtain r where "compare_loop e ht2 compar False ps idx2 = Inr r"
        "r = 0 \<longleftrightarrow> (\<forall>p \<in> set ps. live p \<longrightarrow> map_of (entries ht2) (key_of p) = Some (b_val p))"
        using Cons by auto
      with lv find Some cv l(3) eq show ?thesis by (auto simp: Let_def)
    qed
  qed
qed simp

lemma map_of_same:
  assumes d: "distinct (map fst es)" "distinct (map fst fs)" and n: "length es = length fs"
  shows "(\<forall>(k, v) \<in> set es. map_of fs k = Some v) \<longleftrightarrow> map_of es = map_of fs"
proof
  assume a: "\<forall>(k, v) \<in> set es. map_of fs k = Some v"
  have "map_of es \<subseteq>\<^sub>m map_of fs"
    unfolding map_le_def
  proof
    fix k assume "k \<in> dom (map_of es)"
    then obtain v where v: "map_of es k = Some v" by blast
    with a map_of_SomeD [OF v] show "map_of es k = map_of fs k" by auto
  qed
  moreover have "card (dom (map_of es)) = card (dom (map_of fs))"
    using distinct_card [OF d(1)] distinct_card [OF d(2)] n by (simp add: dom_map_of_conv_image_fst)
  ultimately have "dom (map_of es) = dom (map_of fs)"
    by (intro card_subset_eq finite_dom_map_of map_le_implies_dom_le)
  with \<open>map_of es \<subseteq>\<^sub>m map_of fs\<close> show "map_of es = map_of fs"
    by (simp add: map_le_antisym map_le_def)
next
  assume "map_of es = map_of fs"
  then show "\<forall>(k, v) \<in> set es. map_of fs k = Some v" using map_of_eq_Some_iff [OF d(1)] by auto
qed

lemma compare_unordered_ok:
  assumes inv: "ht_inv ht1" "ht_inv ht2" and pl: "plain ht1" "plain ht2" and eq: "\<And>v w. compar v w = 0 \<longleftrightarrow> v = w"
    and co: "\<And>i s. i < nNumUsed ht1 \<Longrightarrow> live (arData ht1 ! i) \<Longrightarrow> b_key (arData ht1 ! i) = Some s \<Longrightarrow> ptr_coherent ht2 s"
  shows "\<exists>r. zend_hash_compare e False False ht1 ht2 compar False = Inr r \<and>
    (r = 0 \<longleftrightarrow> map_of (entries ht1) = map_of (entries ht2))"
proof (cases "length (entries ht1) = length (entries ht2)")
  case False
  have d: "distinct (map fst (entries ht1))" "distinct (map fst (entries ht2))"
    using ht_inv_base [OF inv(1)] ht_inv_base [OF inv(2)] by (simp_all add: base_ok_def)
  have "card (dom (map_of (entries ht))) = length (entries ht)" if "distinct (map fst (entries ht))" for ht :: "'a HashTable"
    using distinct_card [OF that] by (simp add: dom_map_of_conv_image_fst)
  with d False have "map_of (entries ht1) \<noteq> map_of (entries ht2)" by metis
  with False show ?thesis
    by (simp add: zend_hash_compare_def zend_hash_compare_impl_def elements_entries [OF inv(1)] elements_entries [OF inv(2)])
next
  case True
  let ?ps = "take (nNumUsed ht1) (arData ht1)"
  have d: "distinct (map fst (entries ht1))" "distinct (map fst (entries ht2))"
    using ht_inv_base [OF inv(1)] ht_inv_base [OF inv(2)] by (simp_all add: base_ok_def)
  have ent: "set (entries ht1) = entry_of ` {p \<in> set ?ps. live p}"
    by (auto simp: entries_def entries_upto_def)
  have "key_ok p \<and> (\<forall>a. b_val p \<noteq> IS_INDIRECT a) \<and> (\<forall>s. b_key p = Some s \<longrightarrow> ptr_coherent ht2 s)"
    if p: "p \<in> set ?ps" "live p" for p
  proof -
    obtain i where i: "i < nNumUsed ht1" "p = arData ht1 ! i" using p(1) by (auto simp: in_set_conv_nth)
    then have "key_ok p" using ht_inv_base [OF inv(1)] p(2) by (simp add: base_ok_def)
    moreover have "b_val p \<in> snd ` set (entries ht1)" using p unfolding ent by (force simp: entry_of_def)
    then have "\<forall>a. b_val p \<noteq> IS_INDIRECT a" using pl(1) unfolding plain_def by blast
    ultimately show ?thesis using co i p(2) by blast
  qed
  then have "\<exists>r. compare_loop e ht2 compar False ?ps 0 = Inr r \<and>
      (r = 0 \<longleftrightarrow> (\<forall>p \<in> set ?ps. live p \<longrightarrow> map_of (entries ht2) (key_of p) = Some (b_val p)))"
    by (intro compare_loop_ok [OF inv(2) pl(2) eq]) blast
  moreover have "(\<forall>p \<in> set ?ps. live p \<longrightarrow> map_of (entries ht2) (key_of p) = Some (b_val p)) \<longleftrightarrow>
      (\<forall>(k, v) \<in> set (entries ht1). map_of (entries ht2) k = Some v)"
    unfolding ent by (auto simp: entry_of_def)
  ultimately show ?thesis using True map_of_same [OF d True]
    by (simp add: zend_hash_compare_def zend_hash_compare_impl_def elements_entries [OF inv(1)] elements_entries [OF inv(2)])
qed

subsection \<open>The extreme elements\<close>

lemma minmax_fold:
  assumes tr: "\<And>x y z. \<not> gt x y \<Longrightarrow> \<not> gt y z \<Longrightarrow> \<not> gt x z" "\<And>x y. gt x y \<Longrightarrow> \<not> gt y x"
  shows "let r = fold (\<lambda>i r. if \<not> P i then r else if gt r i then i else r) [a..<b] a0
    in (r = a0 \<or> (a \<le> r \<and> r < b \<and> P r)) \<and> \<not> gt r a0 \<and> (\<forall>i \<in> {a..<b}. P i \<longrightarrow> \<not> gt r i)"
proof (induction b)
  case 0
  show ?case using tr(2) [of a0 a0] by auto
next
  case (Suc b)
  show ?case
  proof (cases "a \<le> b")
    case False
    then show ?thesis using tr(2) [of a0 a0] by auto
  next
    case True
    define r where "r = fold (\<lambda>i r. if \<not> P i then r else if gt r i then i else r) [a..<b] a0"
    have ih: "r = a0 \<or> (a \<le> r \<and> r < b \<and> P r)" "\<not> gt r a0" "\<And>i. a \<le> i \<Longrightarrow> i < b \<Longrightarrow> P i \<Longrightarrow> \<not> gt r i"
      using Suc by (auto simp: r_def Let_def)
    have f: "fold (\<lambda>i r. if \<not> P i then r else if gt r i then i else r) [a..<Suc b] a0 =
        (if \<not> P b then r else if gt r b then b else r)"
      using True by (simp add: r_def)
    show ?thesis
    proof (cases "P b \<and> gt r b")
      case True
      then have "\<not> gt b r" using tr(2) by blast
      then have "\<not> gt b i" if "\<not> gt r i" for i using tr(1) that by blast
      moreover have "\<not> gt b b" using tr(2) by blast
      ultimately show ?thesis unfolding f Let_def using True ih \<open>a \<le> b\<close> by (auto simp: less_Suc_eq)
    next
      case False
      then show ?thesis unfolding f Let_def using ih \<open>a \<le> b\<close> by (auto simp: less_Suc_eq)
    qed
  qed
qed


text \<open>\<open>flag\<close> asks for the greatest element; the comparison is then used the other way round.\<close>

lemma minmax_ok:
  assumes inv: "ht_inv ht" and ne: "entries ht \<noteq> []"
    and lt: "\<And>x y. ok x \<Longrightarrow> ok y \<Longrightarrow> (if flag then compar x y < 0 else compar x y > 0) = gt (f x) (f y)"
    and ord: "\<And>a b c. \<not> gt a b \<Longrightarrow> \<not> gt b c \<Longrightarrow> \<not> gt a c" "\<And>a b. gt a b \<Longrightarrow> \<not> gt b a"
    and ok: "\<And>i. i < nNumUsed ht \<Longrightarrow> live (arData ht ! i) \<Longrightarrow> ok (arData ht ! i)"
  shows "\<exists>r. zend_hash_minmax ht compar flag = Some r \<and> r < nNumUsed ht \<and> live (arData ht ! r) \<and>
    (\<forall>i < nNumUsed ht. live (arData ht ! i) \<longrightarrow> \<not> gt (f (arData ht ! r)) (f (arData ht ! i)))"
proof -
  let ?n = "nNumUsed ht" and ?p = "\<lambda>i. arData ht ! i"
  define a where "a = get_first_pos_from ht 0"
  have a: "a < ?n" "live (?p a)" "\<And>i. i < a \<Longrightarrow> \<not> live (?p i)"
  proof -
    let ?l = "filter (\<lambda>i. live (?p i)) [0..<?n]"
    have "?l \<noteq> []" using ne live_positions_entries [OF inv] by (auto simp: live_positions_def)
    then have ah: "a = hd ?l" by (simp add: a_def first_from_conv)
    then have "a \<in> set ?l" using hd_in_set [OF \<open>?l \<noteq> []\<close>] by simp
    then show "a < ?n" "live (?p a)" by auto
    show "\<not> live (?p i)" if "i < a" for i
    proof
      assume "live (?p i)"
      then have "i \<in> set ?l" using that \<open>a < ?n\<close> by auto
      moreover have "sorted ?l" by (rule sorted_wrt_filter) simp
      ultimately have "hd ?l \<le> i" by (cases ?l) auto
      with ah that show False by simp
    qed
  qed
  define g where "g i j = gt (f (?p i)) (f (?p j))" for i j
  define F where "F = fold (\<lambda>i r. if \<not> live (?p i) then r else if g r i then i else r) [a..<?n] a"
  define st where "st = (\<lambda>idx res. (let p = arData ht ! idx
       in if Z_ISUNDEF p then res
          else if flag then (if compar (arData ht ! res) p < 0 then idx else res)
          else (if compar (arData ht ! res) p > 0 then idx else res)))"
  have step: "st i r = (if \<not> live (?p i) then r else if g r i then i else r)"
    if "i < ?n" "r < ?n" "live (?p r)" for i r
    using lt [OF ok [OF that(2,3)] ok [OF that(1)]] by (auto simp: st_def g_def Let_def split: if_splits)
  have fold_st: "fold st [a..<m] a = fold (\<lambda>i r. if \<not> live (?p i) then r else if g r i then i else r) [a..<m] a \<and>
      fold st [a..<m] a < ?n \<and> live (?p (fold st [a..<m] a))" if "m \<le> ?n" for m
    using that
  proof (induction m)
    case (Suc m)
    then have ih: "fold st [a..<m] a < ?n" "live (?p (fold st [a..<m] a))" by auto
    show ?case
    proof (cases "a \<le> m")
      case True
      with Suc step [of m "fold st [a..<m] a"] ih show ?thesis by auto
    qed (use a in simp)
  qed (use a in simp)
  have mm: "zend_hash_minmax ht compar flag = Some (fold st [a..<?n] a)"
    using a(1) ne elements_entries [OF inv] by (simp add: zend_hash_minmax_def a_def [symmetric] st_def Let_def)
  have "\<forall>i \<in> {a..<?n}. live (?p i) \<longrightarrow> \<not> g F i"
    using minmax_fold [of g "\<lambda>i. live (?p i)" a ?n a] ord unfolding F_def g_def Let_def by blast
  with a(3) have "\<forall>i < ?n. live (?p i) \<longrightarrow> \<not> g F i" by (meson atLeastLessThan_iff not_le)
  with mm fold_st [of ?n] show ?thesis unfolding F_def g_def by auto
qed

end
