(* ===== verification/Zend_Hash_Order_Properties.thy ===== *)
theory Zend_Hash_Order_Properties
  imports Zend_Hash_Table_Properties Zend_Sort_Clients Zend_Hash_Compare_Correct
begin

section \<open>The properties of iterating, sorting and comparing tables\<close>

text \<open>
  The properties of walking, sorting and comparing tables.
\<close>

subsection \<open>A table with two entries\<close>

definition demo_two :: "int HashTable" where
  "demo_two = snd (snd (projr (zend_hash_index_update demo_env demo_one 7 (IS_VAL 2))))"

lemma demo_two_stored:
  "\<exists>r. zend_hash_index_update demo_env demo_one 7 (IS_VAL 2) = Inr r \<and> demo_two = snd (snd r) \<and>
    ht_inv (snd (snd r)) \<and> entries (snd (snd r)) = entries demo_one @ [(IKey 7, IS_VAL 2)] \<and>
    key_refs (snd (snd r)) \<subseteq> key_refs demo_one"
  using index_update_ok [OF demo_one(1), of "IS_VAL 2" demo_env 7] demo_one(2) demo_one_fields
  by (auto simp: demo_two_def stored_def assoc_put_def)

lemma demo_two:
  "ht_inv demo_two" "entries demo_two = [(SKey [97, 98], IS_VAL 1), (IKey 7, IS_VAL 2)]"
  "named (\<lambda>_. [97, 98]) demo_two"
proof -
  have "named (\<lambda>_. [97, 98]) demo_one" using demo_run_inv by (simp add: store_inv_def)
  with demo_two_stored show "ht_inv demo_two" "entries demo_two = [(SKey [97, 98], IS_VAL 1), (IKey 7, IS_VAL 2)]"
    "named (\<lambda>_. [97, 98]) demo_two" using demo_one(2) by (auto simp: named_def)
qed

subsection \<open>Iteration\<close>

text \<open>
  C16. Walking a table forwards from \<open>zend_hash_internal_pointer_reset\<close> visits its entries in
  order, backwards from \<open>zend_hash_internal_pointer_end\<close> in reverse order; at every step there
  is a current element.  Both walks end: the moves succeed and there are more elements exactly as
  many times as there are entries, from then on the position stays past the end.
\<close>

theorem zend_hash_walk_correct:
  assumes "ht_inv ht"
  shows "(\<forall>k < length (entries ht).
      zend_hash_get_current_data_ex ht (forward_pos ht k) = Some (forward_pos ht k) \<and>
      zend_hash_get_current_data_ex ht (backward_pos ht k) = Some (backward_pos ht k) \<and>
      entry_of (arData ht ! forward_pos ht k) = entries ht ! k \<and>
      entry_of (arData ht ! backward_pos ht k) = rev (entries ht) ! k) \<and>
    (\<forall>k. zend_hash_has_more_elements_ex ht (forward_pos ht k) = (k < length (entries ht)) \<and>
      zend_hash_has_more_elements_ex ht (backward_pos ht k) = (k < length (entries ht)) \<and>
      fst (zend_hash_move_forward_ex ht (forward_pos ht k)) = (k < length (entries ht)) \<and>
      fst (zend_hash_move_backwards_ex ht (backward_pos ht k)) = (k < length (entries ht)))"
  using walk_ok [OF assms] walk_ends [OF assms] by blast

theorem zend_hash_walk_correct_witness:
  "entry_of (arData demo_two ! forward_pos demo_two 1) = (IKey 7, IS_VAL 2) \<and>
   entry_of (arData demo_two ! backward_pos demo_two 1) = (SKey [97, 98], IS_VAL 1) \<and>
   \<not> zend_hash_has_more_elements_ex demo_two (backward_pos demo_two 2)"
  using zend_hash_walk_correct [OF demo_two(1)] by (simp add: demo_two(2))

subsection \<open>Sorting\<close>

text \<open>
  C17. \<open>zend_sort\<close> sorts: with a comparison that orders what the swap exchanges (\<open>pv\<close>) by a weak
  order \<open>gt\<close>, the \<open>nmemb\<close> elements from \<open>b\<close> on end up in order and are a permutation of what they
  were; everything else is untouched.
\<close>

theorem zend_sort_correct:
  assumes "\<And>x y. (cmp x y > 0) = gt (pv x) (pv y)"
    "\<And>x y. pv (fst (sw x y)) = pv y \<and> pv (snd (sw x y)) = pv x"
    "\<And>a b. gt a b \<Longrightarrow> \<not> gt b a" "\<And>a b c. \<not> gt a b \<Longrightarrow> \<not> gt b c \<Longrightarrow> \<not> gt a c"
    "b + nmemb \<le> length xs"
  defines "ys \<equiv> zend_sort cmp sw b nmemb xs"
  shows "rearranged pv {b..<b + nmemb} xs ys \<and>
    sorted_wrt (\<lambda>p q. \<not> gt p q) (map pv (take nmemb (drop b ys)))"
proof -
  have s: "sorter cmp sw pv gt"
  proof (unfold_locales)
    show "(cmp x y > 0) = gt (pv x) (pv y)" for x y by (rule assms(1))
    show "pv (fst (sw x y)) = pv y" "pv (snd (sw x y)) = pv x" for x y using assms(2) [of x y] by blast+
    show "gt a c \<Longrightarrow> \<not> gt c a" for a c by (rule assms(3))
    show "\<not> gt a c \<Longrightarrow> \<not> gt c d \<Longrightarrow> \<not> gt a d" for a c d by (rule assms(4))
  qed
  note so = sorter.zend_sort_ok [OF s assms(5), folded ys_def]
  have r: "rearranged pv {b..<b + nmemb} xs ys" using so by (simp add: sorter.sorts_def [OF s])
  moreover have "\<not> gt (pv (ys ! (b + i))) (pv (ys ! (b + j)))" if "i < j" "j < nmemb" for i j
    using so that by (simp add: sorter.sorts_def [OF s] sorter.sorted_in_def [OF s] sorter.le_def [OF s] sorter.at_def [OF s])
  moreover have "length ys = length xs" using r by (rule rearranged_length)
  ultimately show ?thesis using assms(5) by (simp add: sorted_wrt_iff_nth_less)
qed

theorem zend_sort_correct_witness:
  "sorted_wrt (\<lambda>p q. \<not> q < p) (map id (take 4 (drop 1 (zend_sort (\<lambda>x y. x - y) (\<lambda>x y. (y, x)) 1 4 [9, 7, 3, 5, 1 :: int]))))"
  by (rule conjunct2 [OF zend_sort_correct]) auto

text \<open>
  C18. \<open>zend_ini_sort_entries\<close> puts the directives in the order of \<open>ini_key_compare\<close> (integer keys
  descending, then the names ignoring case), keeps every entry with its key, and leaves a
  well-formed table.  The names are the bytes at their addresses and shorter than \<open>2 ^ 31\<close>.
\<close>

theorem zend_ini_sort_entries_correct:
  assumes "ht_inv ht" "ini_names mem ht"
  shows "\<exists>e' ht'. zend_ini_sort_entries e ht = Inr (e', ht') \<and> ht_inv ht' \<and>
    mset (entries ht') = mset (entries ht) \<and>
    sorted_wrt (\<lambda>k l. \<not> ini_behind (ini_order k) (ini_order l)) (map fst (entries ht'))"
  by (rule ini_sort_ok [OF assms])

theorem zend_ini_sort_entries_correct_witness:
  "\<exists>e' ht'. zend_ini_sort_entries demo_env demo_two = Inr (e', ht') \<and>
    entries ht' = [(IKey 7, IS_VAL 2), (SKey [97, 98], IS_VAL 1)]"
proof -
  have n: "ini_names (\<lambda>_. [97, 98]) demo_two" using demo_two(3) by (auto simp: ini_names_def named_def)
  obtain e' ht' where r: "zend_ini_sort_entries demo_env demo_two = Inr (e', ht')"
    "mset (entries ht') = {#(SKey [97, 98], IS_VAL 1), (IKey 7, IS_VAL 2)#}"
    "sorted_wrt (\<lambda>k l. \<not> ini_behind (ini_order k) (ini_order l)) (map fst (entries ht'))"
    using zend_ini_sort_entries_correct [OF demo_two(1) n, of demo_env] demo_two(2) by auto
  from mset_eq_length [of "entries ht'" "[(SKey [97, 98], IS_VAL 1), (IKey 7, IS_VAL 2)]"] r(2)
  obtain x y where xy: "entries ht' = [x, y]" by (auto simp: length_Suc_conv numeral_2_eq_2)
  from mset_eq_setD [of "entries ht'" "[(SKey [97, 98], IS_VAL 1), (IKey 7, IS_VAL 2)]"] r(2) xy
  have "x = (SKey [97, 98], IS_VAL 1) \<and> y = (IKey 7, IS_VAL 2) \<or> x = (IKey 7, IS_VAL 2) \<and> y = (SKey [97, 98], IS_VAL 1)"
    by (simp add: doubleton_eq_iff)
  with r(1,3) xy show ?thesis by auto
qed

text \<open>
  C19. \<open>zend_hash_sort\<close> with renumbering sorts the values and numbers them from zero in a packed
  table whose next free key is their number.  \<open>gt\<close> is the weak order by which the comparison
  orders the values \<open>P\<close> admits.
\<close>

theorem zend_hash_sort_renumber_correct:
  assumes "ht_inv ht" "compares b_val cmp gt (\<lambda>p. P (b_val p))" "\<forall>x \<in> set (entries ht). P (snd x)" "entries ht \<noteq> []"
  shows "\<exists>e' ht'. zend_hash_sort e ht cmp True = Inr (e', ht') \<and> ht_inv ht' \<and> ht_packed ht' \<and>
    map fst (entries ht') = map (\<lambda>j. IKey (of_nat j)) [0..<length (entries ht)] \<and>
    mset (map snd (entries ht')) = mset (map snd (entries ht)) \<and>
    sorted_wrt (\<lambda>a b. \<not> gt a b) (map snd (entries ht')) \<and>
    nNextFreeElement ht' = of_nat (length (entries ht))"
proof -
  have v: "snd (strip_entry x) = fst x" for x :: "'a zval \<times> u64 \<times> zend_string option" by (cases x) simp
  have "\<forall>x \<in> set (content ht). P (fst x)" using assms(3) by (simp add: entries_content v)
  then show ?thesis
    using hash_sort_renumber_ok [OF assms(1,2), of e] assms(4) by (simp add: elements_entries [OF assms(1)] del: mset_map)
qed

definition demo_compare :: "int bucket \<Rightarrow> int bucket \<Rightarrow> int" where
  "demo_compare p q = (case (b_val p, b_val q) of (IS_VAL a, IS_VAL b) \<Rightarrow> b - a | _ \<Rightarrow> 0)"

theorem zend_hash_sort_renumber_correct_witness:
  "\<exists>e' ht'. zend_hash_sort demo_env demo_two demo_compare True = Inr (e', ht') \<and>
    map fst (entries ht') = [IKey 0, IKey 1] \<and> nNextFreeElement ht' = 2"
proof -
  let ?gt = "\<lambda>v w. case (v, w) of (IS_VAL a, IS_VAL b) \<Rightarrow> a < b | (IS_VAL a, _) \<Rightarrow> False | (_, IS_VAL b) \<Rightarrow> True | _ \<Rightarrow> (False :: bool)"
  have c: "compares b_val demo_compare ?gt (\<lambda>p. \<exists>a. b_val p = IS_VAL a)"
    by (auto simp: compares_def demo_compare_def split: zval.splits)
  have "[0..<2] = [0, 1 :: nat]" by (simp add: upt_rec)
  with zend_hash_sort_renumber_correct [OF demo_two(1) c, of demo_env] demo_two(2) show ?thesis by auto
qed


subsection \<open>Comparing and extremes\<close>

text \<open>
  C20. The unordered \<open>zend_hash_compare\<close>, with a comparison that is zero on equal values only,
  answers 0 exactly if the two tables are the same map, whatever their order and layout.
\<close>

theorem zend_hash_compare_correct:
  assumes "ht_inv ht1" "ht_inv ht2" "plain ht1" "plain ht2" "\<And>v w. compar v w = 0 \<longleftrightarrow> v = w"
    and "\<And>i s. i < nNumUsed ht1 \<Longrightarrow> live (arData ht1 ! i) \<Longrightarrow> b_key (arData ht1 ! i) = Some s \<Longrightarrow> ptr_coherent ht2 s"
  shows "\<exists>r. zend_hash_compare e False False ht1 ht2 compar False = Inr r \<and>
    (r = 0 \<longleftrightarrow> map_of (entries ht1) = map_of (entries ht2))"
  by (rule compare_unordered_ok [OF assms])

lemma demo_two_coherent:
  assumes "i < nNumUsed demo_two" "live (arData demo_two ! i)" "b_key (arData demo_two ! i) = Some s"
  shows "zs_val s = [97, 98]"
proof -
  have "arData demo_two ! i \<in> set (take (nNumUsed demo_two) (arData demo_two))"
    using assms(1) ht_inv_used [OF demo_two(1)] by (auto simp: in_set_conv_nth intro!: exI [of _ i])
  with assms have "strip (arData demo_two ! i) \<in> set (content demo_two)" by (simp add: content_def content_upto_def)
  with assms(3) have "(zs_ptr s, zs_val s) \<in> key_refs demo_two" by (auto simp: key_refs_def strip_def)
  with demo_two(3) show ?thesis by (auto simp: named_def)
qed

theorem zend_hash_compare_correct_witness:
  "\<exists>r. zend_hash_compare demo_env False False demo_two demo_two (\<lambda>v w. if v = w then 0 else 1) False = Inr r \<and> r = 0"
proof -
  have pl: "plain demo_two" by (simp add: plain_def demo_two(2))
  have co: "ptr_coherent demo_two s"
    if "i < nNumUsed demo_two" "live (arData demo_two ! i)" "b_key (arData demo_two ! i) = Some s" for i s
    using demo_two_coherent demo_two_coherent [OF that] by (auto simp: ptr_coherent_def split: option.split)
  from zend_hash_compare_correct [OF demo_two(1) demo_two(1) pl pl _ co, where compar = "\<lambda>v w. if v = w then 0 else 1" and e = demo_env]
  show ?thesis by simp
qed

text \<open>
  C21. \<open>zend_hash_minmax\<close> of a table with elements returns a live element that is extreme for the
  weak order \<open>gt\<close> of the comparison: a least one, or for \<open>flag\<close> (where the comparison is read the
  other way round) a greatest one.
\<close>

theorem zend_hash_minmax_correct:
  assumes "ht_inv ht" "entries ht \<noteq> []"
    "\<And>x y. ok x \<Longrightarrow> ok y \<Longrightarrow> (if flag then compar x y < 0 else compar x y > 0) = gt (f x) (f y)"
    "\<And>a b c. \<not> gt a b \<Longrightarrow> \<not> gt b c \<Longrightarrow> \<not> gt a c" "\<And>a b. gt a b \<Longrightarrow> \<not> gt b a"
    "\<And>i. i < nNumUsed ht \<Longrightarrow> live (arData ht ! i) \<Longrightarrow> ok (arData ht ! i)"
  shows "\<exists>r. zend_hash_minmax ht compar flag = Some r \<and> r < nNumUsed ht \<and> live (arData ht ! r) \<and>
    (\<forall>i < nNumUsed ht. live (arData ht ! i) \<longrightarrow> \<not> gt (f (arData ht ! r)) (f (arData ht ! i)))"
  by (rule minmax_ok [where ok = ok and gt = gt and f = f]) (fact assms)+

theorem zend_hash_minmax_correct_witness:
  "\<exists>r. zend_hash_minmax demo_two ini_key_compare False = Some r \<and> live (arData demo_two ! r)"
proof -
  have ok: "strip_ok (ini_name_ok (\<lambda>_. [97, 98])) (arData demo_two ! i)" if "i < nNumUsed demo_two" "live (arData demo_two ! i)" for i
    using demo_two_coherent [OF that] by (cases "b_key (arData demo_two ! i)") (simp_all add: strip_ok_def strip_def)
  have "\<exists>r. zend_hash_minmax demo_two ini_key_compare False = Some r \<and> r < nNumUsed demo_two \<and>
      live (arData demo_two ! r) \<and> (\<forall>i < nNumUsed demo_two. live (arData demo_two ! i) \<longrightarrow>
        \<not> ini_gt (strip (arData demo_two ! r)) (strip (arData demo_two ! i)))"
  proof (rule zend_hash_minmax_correct [where ok = "strip_ok (ini_name_ok (\<lambda>_. [97, 98]))"])
    show "ht_inv demo_two" by (rule demo_two(1))
    show "entries demo_two \<noteq> []" by (simp add: demo_two(2))
    show "\<not> ini_gt a b \<Longrightarrow> \<not> ini_gt b c \<Longrightarrow> \<not> ini_gt a c" for a b c :: "int zval \<times> u64 \<times> zend_string option"
      unfolding ini_gt_def by (rule ini_order(2))
    show "ini_gt a b \<Longrightarrow> \<not> ini_gt b a" for a b :: "int zval \<times> u64 \<times> zend_string option"
      unfolding ini_gt_def by (rule ini_order(1))
  qed (simp add: ini_key_compare_gt, rule ok)
  then show ?thesis by blast
qed

end
