(* ===== verification/Zend_Memstr.thy ===== *)
theory Zend_Memstr
  imports Zend_Compare Zend_String
begin

section \<open>Lower-casing and searching strings (Zend/zend\_operators.c)\<close>

text \<open>
  Lower-casing, and the forward and backward search for a byte string in another one, each by the
  simple loop and by the skipping algorithm for long strings.
\<close>

subsection \<open>Lower-casing\<close>

text \<open>The three writers lower each byte; \<open>zend_str_tolower\<close> does so in place.\<close>

definition zend_str_tolower_copy :: "bytes \<Rightarrow> bytes" where
  "zend_str_tolower_copy source = map zend_tolower_ascii source"

definition zend_str_tolower_dup :: "bytes \<Rightarrow> bytes" where
  "zend_str_tolower_dup source = zend_str_tolower_copy source"

definition zend_str_tolower :: "bytes \<Rightarrow> bytes" where
  "zend_str_tolower str = map zend_tolower_ascii str"

text \<open>
  \<open>zend_str_tolower_dup_ex\<close> copies only when there is a byte to change: the bytes before the
  first such byte as they are, the rest lowered.  \<open>before\<close> is the part already passed.
\<close>

fun tolower_scan :: "bytes \<Rightarrow> bytes \<Rightarrow> bytes option" where
  "tolower_scan before [] = None"
| "tolower_scan before (c # p) =
     (if c \<noteq> zend_tolower_ascii c then Some (before @ map zend_tolower_ascii (c # p))
      else tolower_scan (before @ [c]) p)"

definition zend_str_tolower_dup_ex :: "bytes \<Rightarrow> bytes option" where
  "zend_str_tolower_dup_ex source = tolower_scan [] source"

text \<open>For a string the copy is a new string at \<open>addr\<close>; unchanged strings are shared.\<close>

definition zend_string_tolower_ex :: "nat \<Rightarrow> zend_string \<Rightarrow> zend_string" where
  "zend_string_tolower_ex addr str =
     (case tolower_scan [] (zs_val str) of Some r \<Rightarrow> zend_string_init addr r | None \<Rightarrow> str)"

lemma tolower_scan_ok:
  "map zend_tolower_ascii before = before \<Longrightarrow>
   tolower_scan before p = (if map zend_tolower_ascii p = p then None else Some (map zend_tolower_ascii (before @ p)))"
proof (induction p arbitrary: before)
  case (Cons c p)
  show ?case
  proof (cases "c = zend_tolower_ascii c")
    case True
    with Cons.IH [of "before @ [c]"] Cons.prems show ?thesis by simp
  next
    case False
    with Cons.prems show ?thesis by auto
  qed
qed simp

subsection \<open>The shift table of the Sunday search\<close>

text \<open>
  \<open>unsigned int td[256]\<close>: the loops over the needle, forwards and backwards.  The backward loop
  starts at \<open>int i = needle_len - 1\<close>, and so looks at \<open>int_length\<close> bytes of the needle.
\<close>

definition int_length :: "nat \<Rightarrow> nat" where
  "int_length len = nat (sint (of_nat len - 1 :: 32 word) + 1)"

lemma int_length_small: "len < 2 ^ 31 \<Longrightarrow> int_length len = len"
proof (cases len)
  case (Suc n)
  moreover assume "len < 2 ^ 31"
  ultimately show ?thesis by (simp add: int_length_def signed_of_nat signed_take_bit_int_eq_self)
qed (simp add: int_length_def)

definition zend_memnstr_ex_pre :: "bytes \<Rightarrow> bool \<Rightarrow> u8 \<Rightarrow> u32" where
  "zend_memnstr_ex_pre needle reverse =
     (let td = (\<lambda>c. of_nat (length needle + 1))
      in if reverse
         then fold (\<lambda>i td. td(needle ! i := of_nat (i + 1))) (rev [0..<int_length (length needle)]) td
         else fold (\<lambda>i td. td(needle ! i := of_nat (length needle) - of_nat i)) [0..<length needle] td)"

text \<open>The comparison loop: the needle is what stands at \<open>p\<close>.\<close>

fun starts_with :: "bytes \<Rightarrow> bytes \<Rightarrow> bool" where
  "starts_with [] p = True"
| "starts_with (a # s) [] = False"
| "starts_with (a # s) (b # p) = (a = b \<and> starts_with s p)"

subsection \<open>Searching forwards and backwards\<close>

text \<open>
  Positions are offsets into the haystack, \<open>e\<close> the last one the needle fits at.  The result is
  \<open>None\<close> when the loop does not end.
\<close>

partial_function (option) memnstr_loop ::
    "(u8 \<Rightarrow> u32) \<Rightarrow> bytes \<Rightarrow> bytes \<Rightarrow> nat \<Rightarrow> nat \<Rightarrow> nat option option" where
  "memnstr_loop td haystack needle e p =
     (if p \<le> e then
        (if starts_with needle (drop p haystack) then Some (Some p)
         else if p = e then Some None
         else memnstr_loop td haystack needle e (p + unat (td (haystack ! (p + length needle)))))
      else Some None)"

definition zend_memnstr_ex :: "bytes \<Rightarrow> bytes \<Rightarrow> nat option option" where
  "zend_memnstr_ex haystack needle =
     (if length needle = 0 \<or> length haystack < length needle then Some None
      else memnstr_loop (zend_memnstr_ex_pre needle False) haystack needle
             (length haystack - length needle) 0)"

partial_function (option) memnrstr_loop ::
    "(u8 \<Rightarrow> u32) \<Rightarrow> bytes \<Rightarrow> bytes \<Rightarrow> int \<Rightarrow> nat option option" where
  "memnrstr_loop td haystack needle p =
     (if p \<ge> 0 then
        (if starts_with needle (drop (nat p) haystack) then Some (Some (nat p))
         else if p = 0 then Some None
         else memnrstr_loop td haystack needle (p - uint (td (haystack ! (nat p - 1)))))
      else Some None)"

definition zend_memnrstr_ex :: "bytes \<Rightarrow> bytes \<Rightarrow> nat option option" where
  "zend_memnrstr_ex haystack needle =
     (if length needle = 0 \<or> length haystack < length needle then Some None
      else memnrstr_loop (zend_memnstr_ex_pre needle True) haystack needle
             (int (length haystack) - int (length needle)))"

subsection \<open>The search finds the first and the last occurrence\<close>

definition occurs :: "bytes \<Rightarrow> bytes \<Rightarrow> nat \<Rightarrow> bool" where
  "occurs haystack needle p =
     (p + length needle \<le> length haystack \<and> (\<forall>i < length needle. haystack ! (p + i) = needle ! i))"

lemma starts_with_conv:
  "starts_with s p \<longleftrightarrow> length s \<le> length p \<and> (\<forall>i < length s. p ! i = s ! i)"
proof (induction s p rule: starts_with.induct)
  case (3 a s b p)
  then show ?case by (auto simp: nth_Cons less_Suc_eq_0_disj split: nat.split)
qed auto

lemma starts_with_occurs:
  "p + length needle \<le> length haystack \<Longrightarrow> starts_with needle (drop p haystack) = occurs haystack needle p"
  by (auto simp: starts_with_conv occurs_def)

lemma pre_forward:
  assumes len: "length needle + 1 < 2 ^ 32"
  defines "td \<equiv> zend_memnstr_ex_pre needle False"
  shows "0 < unat (td c)" "unat (td c) \<le> length needle + 1"
    "i < length needle \<Longrightarrow> needle ! i = c \<Longrightarrow> unat (td c) \<le> length needle - i"
proof -
  let ?m = "length needle"
  define t where "t n = fold (\<lambda>i td. td(needle ! i := of_nat ?m - of_nat i)) [0..<n] (\<lambda>c. of_nat (?m + 1) :: u32)" for n
  have td: "td = t ?m" by (simp add: td_def t_def zend_memnstr_ex_pre_def Let_def)
  have v: "unat (of_nat ?m - of_nat i :: u32) = ?m - i" if "i \<le> ?m" for i
  proof -
    have "(of_nat ?m - of_nat i :: u32) = of_nat (?m - i)" using that by (simp add: of_nat_diff)
    also have "unat \<dots> = ?m - i" using len by (simp add: unat_of_nat take_bit_nat_eq_self)
    finally show ?thesis .
  qed
  have m1: "unat (of_nat (?m + 1) :: u32) = ?m + 1" using len by (simp only: unat_of_nat) (simp add: take_bit_nat_eq_self)
  have step: "t (Suc n) = (t n)(needle ! n := of_nat ?m - of_nat n)" for n by (simp add: t_def)
  have "0 < unat (t n c) \<and> unat (t n c) \<le> ?m + 1 \<and>
      (\<forall>i < n. needle ! i = c \<longrightarrow> unat (t n c) \<le> ?m - i)" if "n \<le> ?m" for n
    using that
  proof (induction n)
    case 0
    have "t 0 c = of_nat (?m + 1)" by (simp add: t_def)
    then show ?case using m1 by (simp del: of_nat_add of_nat_Suc)
  next
    case (Suc n)
    show ?case
    proof (cases "needle ! n = c")
      case True
      then have "unat (t (Suc n) c) = ?m - n" using v [of n] Suc.prems by (simp add: step)
      with Suc.prems show ?thesis by auto
    next
      case False
      then have "t (Suc n) c = t n c" by (simp add: step)
      with Suc False show ?thesis by (auto simp: less_Suc_eq)
    qed
  qed
  from this [of ?m] show "0 < unat (td c)" "unat (td c) \<le> ?m + 1"
    "i < ?m \<Longrightarrow> needle ! i = c \<Longrightarrow> unat (td c) \<le> ?m - i" by (simp_all add: td)
qed

text \<open>No occurrence starts within the shift.\<close>

lemma shift_skips:
  assumes "length needle + 1 < 2 ^ 32" "p < q" "q < p + unat (zend_memnstr_ex_pre needle False (haystack ! (p + length needle)))"
  shows "\<not> occurs haystack needle q"
proof
  assume o: "occurs haystack needle q"
  let ?m = "length needle" and ?c = "haystack ! (p + length needle)"
  have q: "q \<le> p + ?m" using assms(3) pre_forward(2) [OF assms(1), of ?c] by linarith
  define i where "i = p + ?m - q"
  have i: "i < ?m" "q + i = p + ?m" using q assms(2) by (auto simp: i_def)
  then have "needle ! i = ?c" using o by (auto simp: occurs_def)
  with pre_forward(3) [OF assms(1) i(1)] have "unat (zend_memnstr_ex_pre needle False ?c) \<le> ?m - i" by simp
  with assms(2,3) i q show False by (simp add: i_def)
qed

lemma memnstr_loop_ok:
  assumes len: "length needle + 1 < 2 ^ 32" "length needle \<le> length haystack"
    and e: "e = length haystack - length needle" and none: "\<forall>q < p. \<not> occurs haystack needle q"
  shows "\<exists>r. memnstr_loop (zend_memnstr_ex_pre needle False) haystack needle e p = Some r \<and>
    (case r of None \<Rightarrow> \<forall>q. \<not> occurs haystack needle q
     | Some q \<Rightarrow> occurs haystack needle q \<and> (\<forall>q' < q. \<not> occurs haystack needle q'))"
  using none
proof (induction "Suc e - p" arbitrary: p rule: less_induct)
  case less
  let ?td = "zend_memnstr_ex_pre needle False"
  let ?s = "unat (?td (haystack ! (p + length needle)))"
  have "length haystack = e + length needle" using e len(2) by simp
  then have far: "\<not> occurs haystack needle q" if "e < q" for q using that by (simp add: occurs_def)
  show ?case
  proof (cases "p \<le> e")
    case False
    with less.prems far show ?thesis
      by (subst memnstr_loop.simps) (auto, metis not_less less_le_trans leI)
  next
    case True
    then have st: "starts_with needle (drop p haystack) = occurs haystack needle p"
      using e len(2) by (intro starts_with_occurs) simp
    show ?thesis
    proof (cases "occurs haystack needle p \<or> p = e")
      case t: True
      with less.prems far True st show ?thesis
        by (subst memnstr_loop.simps) (auto, metis linorder_neqE_nat)
    next
      case False
      have "memnstr_loop ?td haystack needle e p = memnstr_loop ?td haystack needle e (p + ?s)"
        using True False st by (subst memnstr_loop.simps) simp
      moreover have "\<forall>q < p + ?s. \<not> occurs haystack needle q"
      proof (intro allI impI)
        fix q assume "q < p + ?s"
        then show "\<not> occurs haystack needle q"
          using less.prems False shift_skips [OF len(1), of p q haystack] by (metis linorder_neqE_nat)
      qed
      moreover have "Suc e - (p + ?s) < Suc e - p"
        using True pre_forward(1) [OF len(1), of "haystack ! (p + length needle)"] by simp
      ultimately show ?thesis using less.hyps [of "p + ?s"] by simp
    qed
  qed
qed

lemma zend_memnstr_ex_ok:
  assumes "length needle + 1 < 2 ^ 32" "needle \<noteq> []"
  shows "\<exists>r. zend_memnstr_ex haystack needle = Some r \<and>
    (case r of None \<Rightarrow> \<forall>q. \<not> occurs haystack needle q
     | Some q \<Rightarrow> occurs haystack needle q \<and> (\<forall>q' < q. \<not> occurs haystack needle q'))"
proof (cases "length haystack < length needle")
  case True
  then show ?thesis by (simp add: zend_memnstr_ex_def occurs_def)
next
  case False
  then show ?thesis
    using memnstr_loop_ok [OF assms(1) _ refl, of haystack 0] assms(2) by (simp add: zend_memnstr_ex_def)
qed

lemma pre_backward:
  assumes len: "length needle < 2 ^ 31"
  defines "td \<equiv> zend_memnstr_ex_pre needle True"
  shows "0 < unat (td c)" "unat (td c) \<le> length needle + 1"
    "i < length needle \<Longrightarrow> needle ! i = c \<Longrightarrow> unat (td c) \<le> i + 1"
proof -
  let ?m = "length needle"
  define t where "t n = fold (\<lambda>i td. td(needle ! i := of_nat (i + 1))) (rev [n..<?m]) (\<lambda>c. of_nat (?m + 1) :: u32)" for n
  have td: "td = t 0" by (simp add: td_def t_def zend_memnstr_ex_pre_def Let_def int_length_small [OF len])
  have v: "unat (of_nat i :: u32) = i" if "i \<le> ?m + 1" for i
    using len that by (simp add: unat_of_nat take_bit_nat_eq_self)
  have step: "t n = (t (Suc n))(needle ! n := of_nat (n + 1))" if "n < ?m" for n
    using that by (simp add: t_def upt_conv_Cons)
  have "0 < unat (t n c) \<and> unat (t n c) \<le> ?m + 1 \<and>
      (\<forall>i. n \<le> i \<and> i < ?m \<and> needle ! i = c \<longrightarrow> unat (t n c) \<le> i + 1)" if "n \<le> ?m" for n
    using that
  proof (induction n rule: inc_induct)
    case base
    have "t ?m c = of_nat (?m + 1)" by (simp add: t_def)
    then show ?case using v [of "?m + 1"] by (simp del: of_nat_add of_nat_Suc)
  next
    case (step n)
    show ?case
    proof (cases "needle ! n = c")
      case True
      then have "t n c = of_nat (n + 1)" using \<open>n < ?m\<close> \<open>\<And>n. n < ?m \<Longrightarrow> t n = _ n\<close> by simp
      then have "unat (t n c) = n + 1" using v [of "n + 1"] step.hyps by (simp del: of_nat_add of_nat_Suc)
      with step.hyps show ?thesis by auto
    next
      case False
      then have "t n c = t (Suc n) c" using \<open>n < ?m\<close> \<open>\<And>n. n < ?m \<Longrightarrow> t n = _ n\<close> by simp
      moreover have "Suc n \<le> i" if "n \<le> i" "needle ! i = c" for i using that False by (cases "i = n") auto
      ultimately show ?thesis using step.IH by simp
    qed
  qed
  from this [of 0] show "0 < unat (td c)" "unat (td c) \<le> ?m + 1"
    "i < ?m \<Longrightarrow> needle ! i = c \<Longrightarrow> unat (td c) \<le> i + 1" by (simp_all add: td)
qed

lemma shift_skips_back:
  assumes "length needle < 2 ^ 31" "0 < p" "p < q + unat (zend_memnstr_ex_pre needle True (haystack ! (p - 1)))" "q < p"
  shows "\<not> occurs haystack needle q"
proof
  assume o: "occurs haystack needle q"
  let ?m = "length needle" and ?c = "haystack ! (p - 1)"
  define i where "i = p - 1 - q"
  have i: "i < ?m" "q + i = p - 1"
    using assms(2-4) pre_backward(2) [OF assms(1), of ?c] by (auto simp: i_def)
  then have "needle ! i = ?c" using o by (auto simp: occurs_def)
  with pre_backward(3) [OF assms(1) i(1)] have "unat (zend_memnstr_ex_pre needle True ?c) \<le> i + 1" by simp
  with assms(2-4) i show False by linarith
qed

lemma memnrstr_loop_ok:
  assumes len: "length needle < 2 ^ 31" "length needle \<le> length haystack"
    and p: "p \<le> int (length haystack) - int (length needle)"
    and none: "\<forall>q. p < int q \<longrightarrow> \<not> occurs haystack needle q"
  shows "\<exists>r. memnrstr_loop (zend_memnstr_ex_pre needle True) haystack needle p = Some r \<and>
    (case r of None \<Rightarrow> \<forall>q. \<not> occurs haystack needle q
     | Some q \<Rightarrow> occurs haystack needle q \<and> (\<forall>q' > q. \<not> occurs haystack needle q'))"
  using p none
proof (induction "nat (p + 1)" arbitrary: p rule: less_induct)
  case less
  let ?td = "zend_memnstr_ex_pre needle True"
  define s where "s = unat (?td (haystack ! (nat p - 1)))"
  show ?case
  proof (cases "p \<ge> 0")
    case False
    with less.prems(2) show ?thesis by (subst memnrstr_loop.simps) simp
  next
    case True
    then have st: "starts_with needle (drop (nat p) haystack) = occurs haystack needle (nat p)"
      using less.prems(1) by (intro starts_with_occurs) linarith
    show ?thesis
    proof (cases "occurs haystack needle (nat p)")
      case t: True
      have "\<forall>q' > nat p. \<not> occurs haystack needle q'" using less.prems(2) True by auto
      with t True st show ?thesis by (subst memnrstr_loop.simps) simp
    next
      case f: False
      show ?thesis
      proof (cases "p = 0")
        case z: True
        have "\<not> occurs haystack needle q" for q
          using less.prems(2) f z by (cases "q = 0") auto
        with f z st show ?thesis by (subst memnrstr_loop.simps) simp
      next
        case False
        have u: "uint (?td (haystack ! (nat p - 1))) = int s" by (simp add: s_def)
        have "memnrstr_loop ?td haystack needle p = memnrstr_loop ?td haystack needle (p - int s)"
          using True False f st u by (subst memnrstr_loop.simps) simp
        moreover have "\<forall>q. p - int s < int q \<longrightarrow> \<not> occurs haystack needle q"
        proof (intro allI impI)
          fix q assume q: "p - int s < int q"
          consider "p < int q" | "q = nat p" | "q < nat p" using True by linarith
          then show "\<not> occurs haystack needle q"
          proof cases
            case 3
            have "nat p < q + s" using q True by linarith
            with 3 show ?thesis by (intro shift_skips_back [OF len(1)]) (simp_all add: s_def)
          qed (use less.prems(2) f in auto)
        qed
        moreover have "0 < s" using pre_backward(1) [OF len(1)] by (simp add: s_def)
        then have "nat (p - int s + 1) < nat (p + 1)" "p - int s \<le> int (length haystack) - int (length needle)"
          using True less.prems(1) by linarith+
        ultimately show ?thesis using less.hyps [of "p - int s"] by simp
      qed
    qed
  qed
qed

lemma zend_memnrstr_ex_ok:
  assumes "length needle < 2 ^ 31" "needle \<noteq> []"
  shows "\<exists>r. zend_memnrstr_ex haystack needle = Some r \<and>
    (case r of None \<Rightarrow> \<forall>q. \<not> occurs haystack needle q
     | Some q \<Rightarrow> occurs haystack needle q \<and> (\<forall>q' > q. \<not> occurs haystack needle q'))"
proof (cases "length haystack < length needle")
  case True
  then show ?thesis by (simp add: zend_memnrstr_ex_def occurs_def)
next
  case False
  have "\<forall>q. int (length haystack) - int (length needle) < int q \<longrightarrow> \<not> occurs haystack needle q"
    by (auto simp: occurs_def)
  with False show ?thesis
    using memnrstr_loop_ok [OF assms(1) _ order.refl, of haystack] assms(2) by (simp add: zend_memnrstr_ex_def)
qed


subsection \<open>The inlined searches of Zend/zend\_operators.h\<close>

text \<open>\<open>memchr\<close> and \<open>zend_memrchr\<close> on the \<open>n\<close> bytes from \<open>p\<close> on, and on the first \<open>n\<close> bytes.\<close>

fun memchr :: "bytes \<Rightarrow> u8 \<Rightarrow> nat \<Rightarrow> nat \<Rightarrow> nat option" where
  "memchr s c p 0 = None"
| "memchr s c p (Suc n) = (if s ! p = c then Some p else memchr s c (Suc p) n)"

fun zend_memrchr :: "bytes \<Rightarrow> u8 \<Rightarrow> nat \<Rightarrow> nat option" where
  "zend_memrchr s c 0 = None"
| "zend_memrchr s c (Suc n) = (if s ! n = c then Some n else zend_memrchr s c n)"

lemma memchr_Some: "memchr s c p n = Some q \<Longrightarrow> p \<le> q \<and> q < p + n \<and> s ! q = c \<and> (\<forall>k. p \<le> k \<and> k < q \<longrightarrow> s ! k \<noteq> c)"
proof (induction s c p n rule: memchr.induct)
  case (2 s c p n)
  show ?case
  proof (cases "s ! p = c")
    case False
    with 2 have "Suc p \<le> q \<and> q < Suc p + n \<and> s ! q = c \<and> (\<forall>k. Suc p \<le> k \<and> k < q \<longrightarrow> s ! k \<noteq> c)" by simp
    with False show ?thesis by (auto simp: Suc_le_eq) (metis le_neq_implies_less)
  qed (use 2 in \<open>auto split: if_splits\<close>)
qed simp

lemma memchr_None: "memchr s c p n = None \<Longrightarrow> p \<le> k \<Longrightarrow> k < p + n \<Longrightarrow> s ! k \<noteq> c"
proof (induction s c p n rule: memchr.induct)
  case (2 s c p n)
  then show ?case by (cases "k = p") (auto split: if_splits)
qed simp

lemma memrchr_Some: "zend_memrchr s c n = Some q \<Longrightarrow> q < n \<and> s ! q = c \<and> (\<forall>k. q < k \<and> k < n \<longrightarrow> s ! k \<noteq> c)"
  by (induction s c n rule: zend_memrchr.induct) (auto split: if_splits simp: less_Suc_eq)

lemma memrchr_None: "zend_memrchr s c n = None \<Longrightarrow> k < n \<Longrightarrow> s ! k \<noteq> c"
  by (induction s c n rule: zend_memrchr.induct) (auto split: if_splits simp: less_Suc_eq)

text \<open>
  The loops for short strings: \<open>memchr\<close> finds the first byte of the needle, the last byte is
  compared, and then the bytes between them.
\<close>

definition inner_match :: "bytes \<Rightarrow> bytes \<Rightarrow> nat \<Rightarrow> bool" where
  "inner_match haystack needle p =
     (needle ! (length needle - 1) = haystack ! (p + length needle - 1) \<and>
      memcmp (drop 1 needle) (drop (p + 1) haystack) (length needle - 2) = 0)"

function memnstr_short :: "bytes \<Rightarrow> bytes \<Rightarrow> nat \<Rightarrow> nat \<Rightarrow> nat option" where
  "memnstr_short haystack needle e p =
     (if p \<le> e then
        (case memchr haystack (needle ! 0) p (e - p + 1) of
           None \<Rightarrow> None
         | Some p \<Rightarrow> if inner_match haystack needle p then Some p else memnstr_short haystack needle e (p + 1))
      else None)"
  by pat_completeness auto
termination
  by (relation "measure (\<lambda>(haystack, needle, e, p). e + 1 - p)") (auto dest!: memchr_Some simp del: memchr.simps)

declare memnstr_short.simps [simp del]

definition zend_memnstr :: "bytes \<Rightarrow> bytes \<Rightarrow> nat option option" where
  "zend_memnstr haystack needle =
     (let needle_len = length needle; off_s = length haystack
      in if needle_len = 1 then Some (memchr haystack (needle ! 0) 0 off_s)
         else if needle_len > off_s then Some None
         else if off_s < 1024 \<or> needle_len < 9 then Some (memnstr_short haystack needle (off_s - needle_len) 0)
         else zend_memnstr_ex haystack needle)"

text \<open>The backward loop; \<open>n\<close> is \<open>p - haystack + 1\<close>, the number of places left.\<close>

function memnrstr_short :: "bytes \<Rightarrow> bytes \<Rightarrow> nat \<Rightarrow> nat option" where
  "memnrstr_short haystack needle n =
     (case zend_memrchr haystack (needle ! 0) n of
        None \<Rightarrow> None
      | Some p \<Rightarrow> if inner_match haystack needle p then Some p else memnrstr_short haystack needle p)"
  by pat_completeness auto
termination
  by (relation "measure (\<lambda>(haystack, needle, n). n)") (auto dest!: memrchr_Some)

declare memnrstr_short.simps [simp del]

definition zend_memnrstr :: "bytes \<Rightarrow> bytes \<Rightarrow> nat option option" where
  "zend_memnrstr haystack needle =
     (let needle_len = length needle; off_s = length haystack
      in if needle_len = 1 then Some (zend_memrchr haystack (needle ! 0) off_s)
         else if needle_len > off_s then Some None
         else if off_s < 1024 \<or> needle_len < 3 then Some (memnrstr_short haystack needle (off_s - needle_len + 1))
         else zend_memnrstr_ex haystack needle)"

lemma memcmp_zero:
  "n \<le> length s \<Longrightarrow> n \<le> length t \<Longrightarrow> memcmp s t n = 0 \<longleftrightarrow> (\<forall>i < n. s ! i = t ! i)"
proof (induction s t n rule: memcmp.induct)
  case (1 a s b t n)
  then show ?case by (auto simp: word_uint_eq_iff nth_Cons less_Suc_eq_0_disj split: nat.split)
qed auto

lemma inner_match_occurs:
  assumes p: "p + length needle \<le> length haystack" and m: "2 \<le> length needle"
  shows "haystack ! p = needle ! 0 \<and> inner_match haystack needle p \<longleftrightarrow> occurs haystack needle p"
proof -
  let ?m = "length needle"
  have mid: "memcmp (drop 1 needle) (drop (p + 1) haystack) (?m - 2) = 0 \<longleftrightarrow> (\<forall>i < ?m - 2. needle ! (i + 1) = haystack ! (p + (i + 1)))"
    using p m by (subst memcmp_zero) (auto simp: add_ac)
  have split_i: "(\<forall>i < ?m. P i) \<longleftrightarrow> P 0 \<and> P (?m - 1) \<and> (\<forall>i < ?m - 2. P (i + 1))" for P
  proof
    assume a: "P 0 \<and> P (?m - 1) \<and> (\<forall>i < ?m - 2. P (i + 1))"
    show "\<forall>i < ?m. P i"
    proof (intro allI impI)
      fix i assume "i < ?m"
      then consider "i = 0" | "i = ?m - 1" | "i - 1 < ?m - 2" "i = i - 1 + 1" by linarith
      then show "P i" using a by cases (simp, simp, metis)
    qed
  next
    assume a: "\<forall>i < ?m. P i"
    have "0 < ?m" "?m - 1 < ?m" "\<forall>i < ?m - 2. i + 1 < ?m" using m by auto
    with a show "P 0 \<and> P (?m - 1) \<and> (\<forall>i < ?m - 2. P (i + 1))" by blast
  qed
  have l: "p + ?m - 1 = p + (?m - 1)" using m by simp
  show ?thesis unfolding occurs_def inner_match_def mid split_i l using p by (auto simp: eq_commute)
qed


text \<open>The short loops find the first and the last occurrence.\<close>

lemma memnstr_short_ok:
  assumes m: "2 \<le> length needle" "length needle \<le> length haystack" and e: "e = length haystack - length needle"
    and none: "\<forall>q < p. \<not> occurs haystack needle q"
  shows "case memnstr_short haystack needle e p of None \<Rightarrow> \<forall>q. \<not> occurs haystack needle q
     | Some q \<Rightarrow> occurs haystack needle q \<and> (\<forall>q' < q. \<not> occurs haystack needle q')"
  using none
proof (induction haystack \<equiv> haystack needle \<equiv> needle e \<equiv> e p rule: memnstr_short.induct)
  case (1 p)
  have fits: "q + length needle \<le> length haystack" if "q \<le> e" for q using that m e by simp
  have past: "\<not> occurs haystack needle q" if "e < q" for q using that m e by (auto simp: occurs_def)
  show ?case
  proof (cases "p \<le> e")
    case False
    have "\<not> occurs haystack needle q" for q
      using "1.prems" past [of q] False by (cases "q < p") auto
    with False show ?thesis by (subst memnstr_short.simps) simp
  next
    case p: True
    show ?thesis
    proof (cases "memchr haystack (needle ! 0) p (e - p + 1)")
      case None
      have "\<not> occurs haystack needle q" for q
      proof (cases "p \<le> q \<and> q \<le> e")
        case True
        then have "haystack ! q \<noteq> needle ! 0" using memchr_None [OF None, of q] by simp
        then show ?thesis using inner_match_occurs [OF fits m(1), of q] True by auto
      qed (use past "1.prems" in auto)
      with None p show ?thesis by (subst memnstr_short.simps) simp
    next
      case (Some q)
      note q = memchr_Some [OF Some]
      have o: "occurs haystack needle q \<longleftrightarrow> inner_match haystack needle q"
        using q p inner_match_occurs [OF fits m(1), of q] by auto
      have before: "\<not> occurs haystack needle k" if "k < q" for k
      proof (cases "k < p")
        case False
        with that q have "haystack ! k \<noteq> needle ! 0" by auto
        then show ?thesis using inner_match_occurs [OF fits m(1), of k] that q p by auto
      qed (use "1.prems" in auto)
      show ?thesis
      proof (cases "inner_match haystack needle q")
        case True
        with Some p o before show ?thesis by (subst memnstr_short.simps) simp
      next
        case False
        have "\<forall>k < q + 1. \<not> occurs haystack needle k" using before o False by (auto simp: less_Suc_eq)
        with "1.hyps" [OF p Some False] Some p False show ?thesis by (subst memnstr_short.simps) simp
      qed
    qed
  qed
qed

lemma memnrstr_short_ok:
  assumes m: "2 \<le> length needle" "length needle \<le> length haystack" and n: "n \<le> length haystack - length needle + 1"
    and none: "\<forall>q \<ge> n. \<not> occurs haystack needle q"
  shows "case memnrstr_short haystack needle n of None \<Rightarrow> \<forall>q. \<not> occurs haystack needle q
     | Some q \<Rightarrow> occurs haystack needle q \<and> (\<forall>q' > q. \<not> occurs haystack needle q')"
  using n none
proof (induction haystack \<equiv> haystack needle \<equiv> needle n rule: memnrstr_short.induct)
  case (1 n)
  have fits: "q + length needle \<le> length haystack" if "q < n" for q using that "1.prems"(1) m by simp
  show ?case
  proof (cases "zend_memrchr haystack (needle ! 0) n")
    case None
    have "\<not> occurs haystack needle q" for q
    proof (cases "q < n")
      case True
      with memrchr_None [OF None True] inner_match_occurs [OF fits [OF True] m(1)] show ?thesis by auto
    qed (use "1.prems" in auto)
    with None show ?thesis by (subst memnrstr_short.simps) simp
  next
    case (Some q)
    note q = memrchr_Some [OF Some]
    have o: "occurs haystack needle q \<longleftrightarrow> inner_match haystack needle q"
      using q inner_match_occurs [OF fits m(1)] by auto
    have after: "\<not> occurs haystack needle k" if "q < k" for k
    proof (cases "k < n")
      case True
      with that q have "haystack ! k \<noteq> needle ! 0" by auto
      then show ?thesis using inner_match_occurs [OF fits [OF True] m(1)] by auto
    qed (use "1.prems" in auto)
    show ?thesis
    proof (cases "inner_match haystack needle q")
      case True
      with Some o after show ?thesis by (subst memnrstr_short.simps) simp
    next
      case False
      have "\<forall>k \<ge> q. \<not> occurs haystack needle k" using after o False by (auto simp: le_less)
      with "1.hyps" [OF Some False] "1.prems"(1) q Some False show ?thesis by (subst memnrstr_short.simps) simp
    qed
  qed
qed

lemma occurs_one: "length needle = 1 \<Longrightarrow> occurs haystack needle q \<longleftrightarrow> q < length haystack \<and> haystack ! q = needle ! 0"
  by (auto simp: occurs_def less_Suc_eq)

lemma zend_memnstr_ok:
  assumes "length needle + 1 < 2 ^ 32" "needle \<noteq> []"
  shows "\<exists>r. zend_memnstr haystack needle = Some r \<and>
    (case r of None \<Rightarrow> \<forall>q. \<not> occurs haystack needle q
     | Some q \<Rightarrow> occurs haystack needle q \<and> (\<forall>q' < q. \<not> occurs haystack needle q'))"
proof -
  have m: "0 < length needle" using assms(2) by simp
  consider (one) "length needle = 1" | (long) "2 \<le> length needle" "length haystack < length needle"
    | (short) "2 \<le> length needle" "length needle \<le> length haystack" "length haystack < 1024 \<or> length needle < 9"
    | (sunday) "2 \<le> length needle" "length needle \<le> length haystack" "\<not> (length haystack < 1024 \<or> length needle < 9)"
    using m by linarith
  then show ?thesis
  proof cases
    case one
    show ?thesis
    proof (cases "memchr haystack (needle ! 0) 0 (length haystack)")
      case None
      with one memchr_None [OF None] show ?thesis by (auto simp: zend_memnstr_def occurs_one)
    next
      case (Some q)
      with one memchr_Some [OF Some] show ?thesis by (auto simp: zend_memnstr_def occurs_one)
    qed
  next
    case long
    then show ?thesis by (simp add: zend_memnstr_def occurs_def)
  next
    case short
    from memnstr_short_ok [OF short(1,2) refl, of 0] short show ?thesis by (simp add: zend_memnstr_def)
  next
    case sunday
    with zend_memnstr_ex_ok [OF assms] show ?thesis by (auto simp: zend_memnstr_def)
  qed
qed

lemma zend_memnrstr_ok:
  assumes "length needle < 2 ^ 31" "needle \<noteq> []"
  shows "\<exists>r. zend_memnrstr haystack needle = Some r \<and>
    (case r of None \<Rightarrow> \<forall>q. \<not> occurs haystack needle q
     | Some q \<Rightarrow> occurs haystack needle q \<and> (\<forall>q' > q. \<not> occurs haystack needle q'))"
proof -
  have m: "0 < length needle" using assms(2) by simp
  consider (one) "length needle = 1" | (long) "2 \<le> length needle" "length haystack < length needle"
    | (short) "2 \<le> length needle" "length needle \<le> length haystack" "length haystack < 1024 \<or> length needle < 3"
    | (sunday) "2 \<le> length needle" "length needle \<le> length haystack" "\<not> (length haystack < 1024 \<or> length needle < 3)"
    using m by linarith
  then show ?thesis
  proof cases
    case one
    show ?thesis
    proof (cases "zend_memrchr haystack (needle ! 0) (length haystack)")
      case None
      with one memrchr_None [OF None] show ?thesis by (auto simp: zend_memnrstr_def occurs_one)
    next
      case (Some q)
      with one memrchr_Some [OF Some] show ?thesis by (auto simp: zend_memnrstr_def occurs_one)
    qed
  next
    case long
    then show ?thesis by (simp add: zend_memnrstr_def occurs_def)
  next
    case short
    have "\<forall>q \<ge> length haystack - length needle + 1. \<not> occurs haystack needle q" using short by (auto simp: occurs_def)
    from memnrstr_short_ok [OF short(1,2) order.refl this] short show ?thesis by (simp add: zend_memnrstr_def)
  next
    case sunday
    with zend_memnrstr_ex_ok [OF assms] show ?thesis by (auto simp: zend_memnrstr_def)
  qed
qed

end
