(* ===== verification/Zend_Numeric_Key.thy ===== *)
theory Zend_Numeric_Key
  imports Zend_String
begin

section \<open>Integers as strings, and strings that are integers (Zend/zend\_hash.c, Zend/zend\_operators.c)\<close>

text \<open>
  An array key that is a decimal integer is stored as that integer.  The test for it and the
  conversion of an integer to a string fit together: a string is taken for the integer \<open>n\<close>
  exactly if it is what \<open>zend_long_to_str\<close> writes for \<open>n\<close>.  A string is followed by a zero
  byte in memory, which is what \<open>char_at\<close> reads at its end.
\<close>

subsection \<open>Is the key a number?\<close>

definition char_at :: "bytes \<Rightarrow> nat \<Rightarrow> u8" where
  "char_at s i = (if i < length s then s ! i else 0)"

definition is_digit :: "u8 \<Rightarrow> bool" where
  "is_digit c = (sint c \<le> 57 \<and> sint c \<ge> 48)"

definition MAX_LENGTH_OF_LONG :: nat where
  "MAX_LENGTH_OF_LONG = 20"

definition ZEND_LONG_MAX :: u64 where
  "ZEND_LONG_MAX = 0x7fffffffffffffff"

text \<open>The digits after the first.\<close>

fun numeric_loop :: "u64 \<Rightarrow> bytes \<Rightarrow> u64 option" where
  "numeric_loop idx [] = Some idx"
| "numeric_loop idx (c # tmp) =
     (if is_digit c then numeric_loop (idx * 10 + word_of_int (sint c - 48)) tmp else None)"

text \<open>Called only when the first byte after the sign is a digit.\<close>

definition zend_handle_numeric_str_ex :: "bytes \<Rightarrow> u64 option" where
  "zend_handle_numeric_str_ex key =
     (let neg = (char_at key 0 = 45);
          tmp = (if neg then drop 1 key else key)
      in if char_at tmp 0 = 48 \<and> length key > 1 \<or> length tmp > MAX_LENGTH_OF_LONG - 1 then None
         else (case numeric_loop (word_of_int (sint (char_at tmp 0) - 48)) (drop 1 tmp) of
             None \<Rightarrow> None
           | Some idx \<Rightarrow>
               (if neg then (if idx - 1 > ZEND_LONG_MAX then None else Some (0 - idx))
                else if idx > ZEND_LONG_MAX then None
                else Some idx)))"

definition zend_handle_numeric_str :: "bytes \<Rightarrow> u64 option" where
  "zend_handle_numeric_str key =
     (if sint (char_at key 0) > 57 then None
      else if sint (char_at key 0) < 48 then
        (if char_at key 0 \<noteq> 45 then None
         else if \<not> is_digit (char_at key 1) then None
         else zend_handle_numeric_str_ex key)
      else zend_handle_numeric_str_ex key)"

subsection \<open>The decimal form of an integer\<close>

text \<open>The buffer is filled from its end; \<open>buf\<close> is what has been written.\<close>

function zend_print_ulong_to_buf :: "bytes \<Rightarrow> u64 \<Rightarrow> bytes" where
  "zend_print_ulong_to_buf buf num =
     (let buf = (ucast (num mod 10) + 48) # buf; num = num div 10
      in if num > 0 then zend_print_ulong_to_buf buf num else buf)"
  by pat_completeness auto
termination
proof (relation "measure (\<lambda>(buf, num). unat num)", goal_cases)
  case (2 buf num buf' num')
  then have "unat num' = unat num div 10" "0 < unat num'"
    by (simp_all add: unat_div word_less_nat_alt)
  then show ?case by simp
qed simp

declare zend_print_ulong_to_buf.simps [simp del]

definition zend_print_long_to_buf :: "u64 \<Rightarrow> bytes" where
  "zend_print_long_to_buf num =
     (if sint num < 0 then 45 # zend_print_ulong_to_buf [] (NOT num + 1)
      else zend_print_ulong_to_buf [] num)"

text \<open>One-digit numbers are shared interned strings at \<open>chars\<close>, others are new strings at \<open>addr\<close>.\<close>

definition zend_long_to_str :: "(u8 \<Rightarrow> zend_string) \<Rightarrow> nat \<Rightarrow> u64 \<Rightarrow> zend_string" where
  "zend_long_to_str chars addr num =
     (if num \<le> 9 then chars (48 + ucast num) else zend_string_init addr (zend_print_long_to_buf num))"

subsection \<open>Decimal digits of natural numbers\<close>

fun decimal :: "nat \<Rightarrow> bytes" where
  "decimal n = (if n < 10 then [of_nat n + 48] else decimal (n div 10) @ [of_nat (n mod 10) + 48])"

declare decimal.simps [simp del]

definition digit_val :: "u8 \<Rightarrow> nat" where
  "digit_val c = unat c - 48"

definition value_from :: "nat \<Rightarrow> bytes \<Rightarrow> nat" where
  "value_from = foldl (\<lambda>v c. v * 10 + digit_val c)"

lemma value_from_simps [simp]:
  "value_from v [] = v" "value_from v (c # s) = value_from (v * 10 + digit_val c) s"
  "value_from v (s @ t) = value_from (value_from v s) t"
  by (simp_all add: value_from_def)

lemma digit_cases:
  assumes "n < 10"
  shows "is_digit (of_nat n + 48)" "digit_val (of_nat n + 48) = n" "sint (of_nat n + 48 :: u8) = int n + 48"
proof -
  have "n \<in> {0, 1, 2, 3, 4, 5, 6, 7, 8, 9}" using assms by auto
  then show "is_digit (of_nat n + 48)" "digit_val (of_nat n + 48) = n" "sint (of_nat n + 48 :: u8) = int n + 48"
    by (auto simp: is_digit_def digit_val_def)
qed

lemma is_digit_unat: "is_digit c \<longleftrightarrow> 48 \<le> unat c \<and> unat c \<le> 57"
proof -
  have u: "0 \<le> uint c" "uint c < 256" using unsigned_less [of c, where 'a = int] by simp_all
  have "sint c = (uint c + 128) mod 256 - 128"
    by (simp add: sint_uint signed_take_bit_eq_take_bit_shift take_bit_eq_mod)
  moreover have "(uint c + 128) mod 256 = (if uint c < 128 then uint c + 128 else uint c - 128)"
    using u by (simp add: mod_pos_geq)
  ultimately have sc: "sint c = (if uint c < 128 then uint c else uint c - 256)" by simp
  have of_nat_unat: "int (unat c) = uint c" by simp
  then have "48 \<le> unat c \<and> unat c \<le> 57 \<longleftrightarrow> 48 \<le> uint c \<and> uint c \<le> 57"
    by linarith
  moreover have "sint c \<le> 57 \<and> sint c \<ge> 48 \<longleftrightarrow> 48 \<le> uint c \<and> uint c \<le> 57"
    unfolding sc using u by auto
  ultimately show ?thesis unfolding is_digit_def by blast
qed

lemma is_digit_decimal: "is_digit c \<Longrightarrow> \<exists>n < 10. c = of_nat n + 48 \<and> digit_val c = n"
proof -
  assume d: "is_digit c"
  then have u: "48 \<le> unat c" "unat c \<le> 57" by (simp_all add: is_digit_unat)
  have "c = of_nat (unat c - 48) + 48"
    using u by (simp add: of_nat_diff)
  with u show ?thesis by (intro exI [of _ "unat c - 48"]) (simp add: digit_val_def)
qed

lemma decimal_digits: "\<forall>c \<in> set (decimal n). is_digit c"
proof (induction n rule: decimal.induct)
  case (1 n)
  then show ?case by (subst decimal.simps) (auto simp: digit_cases)
qed

lemma value_decimal: "value_from 0 (decimal n) = n"
proof (induction n rule: decimal.induct)
  case (1 n)
  then show ?case by (subst decimal.simps) (simp add: digit_cases)
qed

lemma decimal_nonempty [simp]: "decimal n \<noteq> []"
  by (subst decimal.simps) simp

text \<open>No leading zero, and the length of a number below a power of ten.\<close>

lemma decimal_hd: "0 < n \<Longrightarrow> hd (decimal n) \<noteq> 48"
proof (induction n rule: decimal.induct)
  case (1 n)
  show ?case
  proof (cases "n < 10")
    case True
    then have "digit_val (of_nat n + 48) = n" by (rule digit_cases)
    moreover have "digit_val 48 = 0" by (simp add: digit_val_def)
    ultimately have "of_nat n + 48 \<noteq> (48 :: u8)" using 1(2) by (intro notI) simp
    then show ?thesis using True by (subst decimal.simps) simp
  next
    case False
    then show ?thesis using 1 by (subst decimal.simps) simp
  qed
qed

lemma decimal_length: "n < 10 ^ k \<Longrightarrow> 0 < k \<Longrightarrow> length (decimal n) \<le> k"
proof (induction k arbitrary: n)
  case (Suc k)
  show ?case
  proof (cases "n < 10")
    case True
    then show ?thesis by (subst decimal.simps) simp
  next
    case False
    then have "0 < k" using Suc.prems by (cases k) auto
    moreover have "n div 10 < 10 ^ k" using Suc.prems(1) by (simp add: less_mult_imp_div_less mult.commute)
    ultimately have "length (decimal (n div 10)) \<le> k" by (intro Suc.IH)
    then show ?thesis using False by (subst decimal.simps) simp
  qed
qed simp

lemma value_bound: "\<forall>c \<in> set s. is_digit c \<Longrightarrow> value_from v s < (v + 1) * 10 ^ length s"
proof (induction s arbitrary: v)
  case (Cons c s)
  then have "digit_val c < 10" using is_digit_decimal [of c] by auto
  then have "v * 10 + digit_val c + 1 \<le> (v + 1) * 10" by simp
  then have "(v * 10 + digit_val c + 1) * 10 ^ length s \<le> (v + 1) * 10 * 10 ^ length s" by (rule mult_le_mono1)
  moreover have "value_from (v * 10 + digit_val c) s < (v * 10 + digit_val c + 1) * 10 ^ length s"
    by (rule Cons.IH) (use Cons.prems in simp)
  ultimately have "value_from (v * 10 + digit_val c) s < (v + 1) * 10 * 10 ^ length s" by (rule less_le_trans [rotated])
  then show ?case by (simp add: algebra_simps)
qed simp

text \<open>Digits without a leading zero are the decimal form of their value.\<close>

lemma decimal_value:
  assumes "s \<noteq> []" "\<forall>c \<in> set s. is_digit c" "length s = 1 \<or> hd s \<noteq> 48"
  shows "decimal (value_from 0 s) = s"
  using assms
proof (induction s rule: rev_induct)
  case (snoc c s)
  obtain d where d: "d < 10" "c = of_nat d + 48" "digit_val c = d"
    using is_digit_decimal [of c] snoc.prems(2) by auto
  show ?case
  proof (cases "s = []")
    case True
    with d show ?thesis by (subst decimal.simps) simp
  next
    case False
    then have h: "hd s \<noteq> 48" "\<forall>c \<in> set s. is_digit c" using snoc.prems by (auto simp: hd_append)
    then have ih: "decimal (value_from 0 s) = s" using snoc.IH False by simp
    obtain a t where s: "s = a # t" using False by (cases s) auto
    have "0 < value_from 0 s"
    proof (rule ccontr)
      assume "\<not> 0 < value_from 0 s"
      then have "s = [48]" using ih by (subst (asm) decimal.simps) simp
      with h show False by simp
    qed
    then have "10 \<le> value_from 0 s * 10 + d" by simp
    then show ?thesis using ih d by (subst decimal.simps) simp
  qed
qed simp


subsection \<open>The printed form is the decimal form\<close>

lemma print_ulong_decimal: "zend_print_ulong_to_buf buf num = decimal (unat num) @ buf"
proof (induction buf num rule: zend_print_ulong_to_buf.induct)
  case (1 buf num)
  have m: "unat (num mod 10) = unat num mod 10" by (simp add: unat_mod)
  have "(ucast (num mod 10) :: u8) = of_nat (unat (num mod 10))" by simp
  then have c: "(ucast (num mod 10) + 48 :: u8) = of_nat (unat num mod 10) + 48"
    unfolding m by simp
  have q: "unat (num div 10) = unat num div 10" by (simp add: unat_div)
  have pos: "0 < num div 10 \<longleftrightarrow> \<not> unat num < 10"
    unfolding word_less_nat_alt q by (simp add: not_less div_greater_zero_iff)
  show ?case
  proof (cases "unat num < 10")
    case True
    then show ?thesis using pos c by (subst zend_print_ulong_to_buf.simps, subst decimal.simps) (simp add: Let_def)
  next
    case False
    then show ?thesis using pos c q "1.IH" [OF refl refl]
      by (subst zend_print_ulong_to_buf.simps, subst decimal.simps) (simp add: Let_def)
  qed
qed

lemma numeric_loop_value:
  assumes "\<forall>c \<in> set s. is_digit c" "value_from (unat idx) s < 2 ^ 64"
  shows "numeric_loop idx s = Some (of_nat (value_from (unat idx) s))"
  using assms
proof (induction s arbitrary: idx)
  case (Cons c s)
  obtain d where d: "d < 10" "c = of_nat d + 48" "digit_val c = d"
    using is_digit_decimal [of c] Cons.prems(1) by auto
  have mono: "v \<le> value_from v t" for v t
  proof (induction t arbitrary: v)
    case (Cons a t)
    have "v \<le> v * 10 + digit_val a" by simp
    also have "\<dots> \<le> value_from (v * 10 + digit_val a) t" by (rule Cons.IH)
    finally show ?case by simp
  qed simp
  have "unat idx * 10 + d < 2 ^ 64" using mono [of "unat idx * 10 + d" s] Cons.prems(2) d(3) by simp
  then have v: "unat (of_nat (unat idx * 10 + d) :: u64) = unat idx * 10 + d"
    by (simp only: unat_of_nat) (simp add: take_bit_nat_eq_self)
  have "word_of_int (sint c - 48) = (of_nat d :: u64)" using digit_cases(3) [OF d(1)] d(2) by simp
  then have "idx * 10 + word_of_int (sint c - 48) = of_nat (unat idx * 10 + d)" by simp
  moreover define nx where "nx = idx * 10 + word_of_int (sint c - 48)"
  ultimately have n: "unat nx = unat idx * 10 + d" using v by (simp only:)
  have "numeric_loop idx (c # s) = numeric_loop nx s" using Cons.prems(1) by (simp add: nx_def)
  moreover have "numeric_loop nx s = Some (of_nat (value_from (unat nx) s))"
    by (rule Cons.IH) (use Cons.prems n d(3) in simp_all)
  ultimately show ?case using n d(3) by simp
qed simp

lemma numeric_loop_digits: "numeric_loop idx s = Some r \<Longrightarrow> \<forall>c \<in> set s. is_digit c"
  by (induction idx s rule: numeric_loop.induct) (auto split: if_splits)


subsection \<open>A numeric key is the decimal form of its number\<close>

lemma signed_number:
  fixes n :: u64
  shows "sint n < 0 \<longleftrightarrow> n > ZEND_LONG_MAX" "n \<le> ZEND_LONG_MAX \<longleftrightarrow> unat n < 2 ^ 63"
proof -
  have u: "0 \<le> uint n" "uint n < 2 ^ 64" using unsigned_less [of n, where 'a = int] by simp_all
  have "sint n = (uint n + 2 ^ 63) mod 2 ^ 64 - 2 ^ 63"
    by (simp add: sint_uint signed_take_bit_eq_take_bit_shift take_bit_eq_mod)
  moreover have "(uint n + 2 ^ 63) mod 2 ^ 64 = (if uint n < 2 ^ 63 then uint n + 2 ^ 63 else uint n - 2 ^ 63)"
    using u by (simp add: mod_pos_geq)
  ultimately have sn: "sint n = (if uint n < 2 ^ 63 then uint n else uint n - 2 ^ 64)" by simp
  have m: "n > ZEND_LONG_MAX \<longleftrightarrow> uint n \<ge> 2 ^ 63" by (auto simp: ZEND_LONG_MAX_def word_less_def)
  show "sint n < 0 \<longleftrightarrow> n > ZEND_LONG_MAX" unfolding sn m using u by auto
  have "int (unat n) = uint n" by simp
  then have "unat n < 9223372036854775808 \<longleftrightarrow> uint n < 9223372036854775808" by linarith
  with m show "n \<le> ZEND_LONG_MAX \<longleftrightarrow> unat n < 2 ^ 63" by (simp add: not_less [symmetric])
qed

lemma print_long_decimal:
  "zend_print_long_to_buf n = (if n > ZEND_LONG_MAX then 45 # decimal (unat (- n)) else decimal (unat n))"
proof -
  have "NOT n + 1 = - n" by (simp add: minus_eq_not_plus_1)
  then show ?thesis by (simp add: zend_print_long_to_buf_def signed_number print_ulong_decimal)
qed

text \<open>The digits of a number, read by the loop of \<open>zend_handle_numeric_str_ex\<close>.\<close>

definition digits_ok :: "bytes \<Rightarrow> bool" where
  "digits_ok ds = (ds \<noteq> [] \<and> (\<forall>c \<in> set ds. is_digit c) \<and> length ds \<le> 19)"

lemma digits_value_bound: "digits_ok ds \<Longrightarrow> value_from 0 ds < 2 ^ 64"
proof -
  assume d: "digits_ok ds"
  then have "value_from 0 ds < 10 ^ length ds" using value_bound [of ds 0] by (simp add: digits_ok_def)
  also have "(10 :: nat) ^ length ds \<le> 10 ^ 19" using d by (intro power_increasing) (simp_all add: digits_ok_def)
  finally show ?thesis by simp
qed

lemma loop_digits:
  assumes "is_digit (char_at ds 0)" "length ds \<le> 19"
  shows "numeric_loop (word_of_int (sint (char_at ds 0) - 48)) (drop 1 ds) =
    (if digits_ok ds then Some (of_nat (value_from 0 ds)) else None)"
proof -
  have "char_at ds 0 \<noteq> 0" using assms(1) by (auto simp: is_digit_def)
  then obtain c s where ds: "ds = c # s" by (cases ds) (auto simp: char_at_def)
  with assms(1) obtain d where d: "d < 10" "c = of_nat d + 48" "digit_val c = d"
    using is_digit_decimal [of c] by (auto simp: char_at_def)
  have w: "word_of_int (sint c - 48) = (of_nat d :: u64)" using digit_cases(3) [OF d(1)] d(2) by simp
  have u: "unat (of_nat d :: u64) = d" using d(1) by (simp add: unat_of_nat take_bit_nat_eq_self)
  show ?thesis
  proof (cases "digits_ok ds")
    case True
    then have "numeric_loop (of_nat d) s = Some (of_nat (value_from d s))"
      using numeric_loop_value [of s "of_nat d"] digits_value_bound [OF True] u d(3) by (simp add: ds digits_ok_def)
    with True d(3) w show ?thesis by (simp add: ds char_at_def)
  next
    case False
    then have "\<not> (\<forall>c \<in> set s. is_digit c)" using assms by (simp add: digits_ok_def ds char_at_def)
    then have "numeric_loop (of_nat d) s = None"
      using numeric_loop_digits [of "of_nat d" s] by (cases "numeric_loop (of_nat d :: u64) s") auto
    with False w show ?thesis by (simp add: ds char_at_def)
  qed
qed


lemma unat_of_value: "v < 2 ^ 64 \<Longrightarrow> unat (of_nat v :: u64) = v"
  by (simp add: unat_of_nat take_bit_nat_eq_self)

lemma unat_negate: "n \<noteq> 0 \<Longrightarrow> unat (- n) = 2 ^ 64 - unat (n :: u64)"
proof -
  assume n: "n \<noteq> 0"
  have lt: "unat n < 2 ^ 64" using unsigned_less [of n, where 'a = nat] by simp
  have "(of_nat (2 ^ 64 - unat n) :: u64) = of_nat (2 ^ 64) - of_nat (unat n)"
    using lt by (intro of_nat_diff) simp
  also have "\<dots> = - n" by simp
  finally have "unat (- n) = unat (of_nat (2 ^ 64 - unat n) :: u64)" by simp
  also have "\<dots> = 2 ^ 64 - unat n" using n by (intro unat_of_value) (simp add: unat_gt_0)
  finally show ?thesis .
qed

lemma handle_pos:
  assumes "is_digit (char_at ds 0)"
  shows "zend_handle_numeric_str_ex ds =
    (if digits_ok ds \<and> (length ds = 1 \<or> hd ds \<noteq> 48) \<and> value_from 0 ds < 2 ^ 63
     then Some (of_nat (value_from 0 ds)) else None)"
proof -
  have c: "char_at ds 0 \<noteq> 45" "char_at ds 0 \<noteq> 0" using assms by (auto simp: is_digit_def)
  then obtain a s where ds: "ds = a # s" by (cases ds) (auto simp: char_at_def)
  have h: "char_at ds 0 = 48 \<and> length ds > 1 \<longleftrightarrow> \<not> (length ds = 1 \<or> hd ds \<noteq> 48)" by (auto simp: ds char_at_def)
  show ?thesis
  proof (cases "length ds > 19 \<or> char_at ds 0 = 48 \<and> length ds > 1")
    case True
    then show ?thesis using c h
      by (auto simp: zend_handle_numeric_str_ex_def Let_def MAX_LENGTH_OF_LONG_def digits_ok_def)
  next
    case False
    then have l: "length ds \<le> 19" by simp
    have v: "(of_nat (value_from 0 ds) :: u64) \<le> ZEND_LONG_MAX \<longleftrightarrow> value_from 0 ds < 2 ^ 63" if "digits_ok ds"
      using digits_value_bound [OF that] by (simp add: signed_number unat_of_value)
    have "zend_handle_numeric_str_ex ds = (case numeric_loop (word_of_int (sint (char_at ds 0) - 48)) (drop 1 ds) of
        None \<Rightarrow> None | Some idx \<Rightarrow> if idx > ZEND_LONG_MAX then None else Some idx)"
      using c False by (auto simp: zend_handle_numeric_str_ex_def Let_def MAX_LENGTH_OF_LONG_def cong: option.case_cong)
    with loop_digits [OF assms l] v False h show ?thesis by (auto simp: not_le)
  qed
qed

lemma handle_neg:
  assumes "is_digit (char_at ds 0)"
  shows "zend_handle_numeric_str_ex (45 # ds) =
    (if digits_ok ds \<and> hd ds \<noteq> 48 \<and> value_from 0 ds \<le> 2 ^ 63
     then Some (- of_nat (value_from 0 ds)) else None)"
proof -
  have c: "char_at ds 0 \<noteq> 0" using assms by (auto simp: is_digit_def)
  then obtain a s where ds: "ds = a # s" by (cases ds) (auto simp: char_at_def)
  have h: "char_at ds 0 = 48 \<and> length (45 # ds) > 1 \<longleftrightarrow> hd ds = 48" by (simp add: ds char_at_def)
  have k: "char_at (45 # ds) 0 = 45" "drop 1 (45 # ds) = ds" by (simp_all add: char_at_def)
  show ?thesis
  proof (cases "length ds > 19 \<or> hd ds = 48")
    case True
    then show ?thesis using k h
      by (auto simp: zend_handle_numeric_str_ex_def Let_def MAX_LENGTH_OF_LONG_def digits_ok_def)
  next
    case False
    then have l: "length ds \<le> 19" by simp
    have v: "(of_nat (value_from 0 ds) :: u64) - 1 \<le> ZEND_LONG_MAX \<longleftrightarrow> value_from 0 ds \<le> 2 ^ 63" if d: "digits_ok ds"
    proof -
      have "decimal (value_from 0 ds) = ds" by (rule decimal_value) (use d False in \<open>auto simp: digits_ok_def\<close>)
      moreover have "decimal 0 = [48]" by (subst decimal.simps) simp
      ultimately have pos: "0 < value_from 0 ds" using False by (cases "value_from 0 ds = 0") auto
      have "(of_nat (value_from 0 ds) :: u64) - 1 = of_nat (value_from 0 ds - 1)" using pos by (simp add: of_nat_diff)
      moreover have "unat (of_nat (value_from 0 ds - 1) :: u64) = value_from 0 ds - 1"
        by (rule unat_of_value) (use digits_value_bound [OF d] in simp)
      ultimately show ?thesis using pos by (auto simp: signed_number)
    qed
    have "zend_handle_numeric_str_ex (45 # ds) = (case numeric_loop (word_of_int (sint (char_at ds 0) - 48)) (drop 1 ds) of
        None \<Rightarrow> None | Some idx \<Rightarrow> if idx - 1 > ZEND_LONG_MAX then None else Some (0 - idx))"
      using k h False by (auto simp: zend_handle_numeric_str_ex_def Let_def MAX_LENGTH_OF_LONG_def cong: option.case_cong)
    with loop_digits [OF assms l] v False h show ?thesis by (auto simp: not_le)
  qed
qed

lemma handle_cases:
  "zend_handle_numeric_str key = Some n \<longleftrightarrow>
    (is_digit (char_at key 0) \<and> zend_handle_numeric_str_ex key = Some n) \<or>
    (\<exists>ds. key = 45 # ds \<and> is_digit (char_at ds 0) \<and> zend_handle_numeric_str_ex key = Some n)"
proof -
  have m: "char_at key 0 = 45 \<longleftrightarrow> (\<exists>ds. key = 45 # ds)" by (cases key) (auto simp: char_at_def)
  have d: "char_at (45 # ds) 1 = char_at ds 0" for ds by (simp add: char_at_def)
  have s: "sint (45 :: u8) = 45" by simp
  show ?thesis
  proof (cases "char_at key 0 = 45")
    case True
    then obtain ds where "key = 45 # ds" using m by blast
    with d [of ds] True s show ?thesis by (auto simp: zend_handle_numeric_str_def is_digit_def)
  next
    case False
    with m show ?thesis by (auto simp: zend_handle_numeric_str_def is_digit_def)
  qed
qed

lemma decimal_ok:
  assumes "v \<le> 2 ^ 63"
  shows "digits_ok (decimal v)" "is_digit (char_at (decimal v) 0)"
    "0 < v \<Longrightarrow> hd (decimal v) \<noteq> 48" "length (decimal v) = 1 \<or> hd (decimal v) \<noteq> 48"
proof -
  have "v < 10 ^ 19" using assms by simp
  then have "length (decimal v) \<le> 19" by (rule decimal_length) simp
  then show d: "digits_ok (decimal v)" using decimal_digits by (simp add: digits_ok_def)
  show "is_digit (char_at (decimal v) 0)" using d by (cases "decimal v") (auto simp: digits_ok_def char_at_def)
  show h: "0 < v \<Longrightarrow> hd (decimal v) \<noteq> 48" by (rule decimal_hd)
  show "length (decimal v) = 1 \<or> hd (decimal v) \<noteq> 48" using h by (cases "v = 0") (simp_all add: decimal.simps [of 0])
qed

lemma numeric_key_iff: "zend_handle_numeric_str key = Some n \<longleftrightarrow> key = zend_print_long_to_buf n"
proof
  assume "zend_handle_numeric_str key = Some n"
  then consider (pos) "is_digit (char_at key 0)" "zend_handle_numeric_str_ex key = Some n"
    | (neg) ds where "key = 45 # ds" "is_digit (char_at ds 0)" "zend_handle_numeric_str_ex key = Some n"
    unfolding handle_cases by blast
  then show "key = zend_print_long_to_buf n"
  proof cases
    case pos
    then have k: "digits_ok key" "length key = 1 \<or> hd key \<noteq> 48" "value_from 0 key < 2 ^ 63" "n = of_nat (value_from 0 key)"
      by (simp_all add: handle_pos split: if_splits)
    then have "unat n = value_from 0 key" by (simp add: unat_of_value)
    moreover have "decimal (value_from 0 key) = key" by (rule decimal_value) (use k in \<open>simp_all add: digits_ok_def\<close>)
    ultimately show ?thesis using k(3) signed_number(2) [of n] by (auto simp: print_long_decimal)
  next
    case neg
    then have k: "digits_ok ds" "hd ds \<noteq> 48" "value_from 0 ds \<le> 2 ^ 63" "n = - of_nat (value_from 0 ds)"
      by (simp_all add: handle_neg split: if_splits)
    have d: "decimal (value_from 0 ds) = ds" by (rule decimal_value) (use k in \<open>simp_all add: digits_ok_def\<close>)
    have "decimal 0 = [48]" by (subst decimal.simps) simp
    with d k(2) have pos: "0 < value_from 0 ds" by (cases "value_from 0 ds = 0") auto
    have m: "unat (- n) = value_from 0 ds" using k(3,4) by (simp add: unat_of_value)
    then have "n \<noteq> 0" using pos by (intro notI) simp
    with m have "unat n = 2 ^ 64 - value_from 0 ds" using pos unat_negate [of "- n"] by auto
    then have "\<not> unat n < 2 ^ 63" using k(3) by simp
    then show ?thesis using m d neg(1) signed_number(2) [of n] by (auto simp: print_long_decimal not_le)
  qed
next
  assume key: "key = zend_print_long_to_buf n"
  show "zend_handle_numeric_str key = Some n"
  proof (cases "n > ZEND_LONG_MAX")
    case True
    then have "\<not> unat n < 2 ^ 63" using signed_number(2) [of n] by (simp add: not_le [symmetric])
    moreover have "n \<noteq> 0" using True by auto
    ultimately have v: "unat (- n) \<le> 2 ^ 63" "0 < unat (- n)"
      using unsigned_less [of n, where 'a = nat] by (simp_all add: unat_negate)
    have "zend_handle_numeric_str_ex key = Some n"
      using handle_neg [OF decimal_ok(2) [OF v(1)]] decimal_ok [OF v(1)] v True
      by (simp add: key print_long_decimal value_decimal)
    then show ?thesis unfolding handle_cases using True decimal_ok(2) [OF v(1)] by (simp add: key print_long_decimal)
  next
    case False
    then have v: "unat n < 2 ^ 63" using signed_number(2) [of n] by (simp add: not_less)
    then have le: "unat n \<le> 2 ^ 63" by simp
    have "zend_handle_numeric_str_ex key = Some n"
      using handle_pos [OF decimal_ok(2) [OF le]] decimal_ok [OF le] v False
      by (simp add: key print_long_decimal value_decimal)
    then show ?thesis unfolding handle_cases using False decimal_ok(2) [OF le] by (simp add: key print_long_decimal)
  qed
qed

lemma print_long_length: "length (zend_print_long_to_buf n) \<le> MAX_LENGTH_OF_LONG"
proof (cases "n > ZEND_LONG_MAX")
  case True
  then have "\<not> unat n < 2 ^ 63" using signed_number(2) [of n] by (simp add: not_le [symmetric])
  moreover have "n \<noteq> 0" using True by auto
  ultimately have "unat (- n) \<le> 2 ^ 63" by (simp add: unat_negate)
  with decimal_ok(1) have "length (decimal (unat (- n))) \<le> 19" by (simp add: digits_ok_def)
  with True show ?thesis by (simp add: print_long_decimal MAX_LENGTH_OF_LONG_def)
next
  case False
  then have "unat n \<le> 2 ^ 63" using signed_number(2) [of n] by (simp add: not_less)
  with decimal_ok(1) have "length (decimal (unat n)) \<le> 19" by (simp add: digits_ok_def)
  with False show ?thesis by (simp add: print_long_decimal MAX_LENGTH_OF_LONG_def)
qed

end
