(* ===== verification/Zend_Symtable.thy ===== *)
theory Zend_Symtable
  imports Zend_Numeric_Key Zend_Hash_Del_Correct
begin

section \<open>Symbol tables: string keys that may be numbers (Zend/zend\_hash.h)\<close>

text \<open>
  The \<open>zend_symtable\<close> functions look at the key first: a key that is the decimal form of an
  integer goes to the integer part of the table, any other to the string part.  So a symbol
  table is a map on strings: different strings are different keys (\<open>sym_key_inj\<close>).
\<close>

subsection \<open>The operations\<close>

definition zend_symtable_add_new where
  "zend_symtable_add_new e ht key pData =
     (case zend_handle_numeric_str (zs_val key) of
        Some idx \<Rightarrow> zend_hash_index_add_new e ht idx pData
      | None \<Rightarrow> zend_hash_add_new e ht key pData)"

definition zend_symtable_update where
  "zend_symtable_update e ht key pData =
     (case zend_handle_numeric_str (zs_val key) of
        Some idx \<Rightarrow> zend_hash_index_update e ht idx pData
      | None \<Rightarrow> zend_hash_update e ht key pData)"

definition zend_symtable_update_ind where
  "zend_symtable_update_ind e ht key pData =
     (case zend_handle_numeric_str (zs_val key) of
        Some idx \<Rightarrow> zend_hash_index_update e ht idx pData
      | None \<Rightarrow> zend_hash_update_ind e ht key pData)"

definition zend_symtable_del where
  "zend_symtable_del e ht key =
     (case zend_handle_numeric_str (zs_val key) of
        Some idx \<Rightarrow> zend_hash_index_del e ht idx
      | None \<Rightarrow> zend_hash_del e ht key)"

definition zend_symtable_del_ind where
  "zend_symtable_del_ind e ht key =
     (case zend_handle_numeric_str (zs_val key) of
        Some idx \<Rightarrow> zend_hash_index_del e ht idx
      | None \<Rightarrow> zend_hash_del_ind e ht key)"

definition zend_symtable_find where
  "zend_symtable_find ht key =
     (case zend_handle_numeric_str (zs_val key) of
        Some idx \<Rightarrow> zend_hash_index_find ht idx
      | None \<Rightarrow> zend_hash_find ht key)"

text \<open>The value of a found integer key is not followed.\<close>

definition value_at :: "'v HashTable \<Rightarrow> nat option \<Rightarrow> 'v zval option" where
  "value_at ht r = map_option (\<lambda>i. b_val (arData ht ! i)) r"

definition zend_symtable_find_ind where
  "zend_symtable_find_ind e ht key =
     (case zend_handle_numeric_str (zs_val key) of
        Some idx \<Rightarrow> rbind (zend_hash_index_find ht idx) (\<lambda>r. Inr (value_at ht r))
      | None \<Rightarrow> zend_hash_find_ind e ht key)"

definition zend_symtable_exists where
  "zend_symtable_exists ht key =
     (case zend_handle_numeric_str (zs_val key) of
        Some idx \<Rightarrow> zend_hash_index_exists ht idx
      | None \<Rightarrow> zend_hash_exists ht key)"

definition zend_symtable_exists_ind where
  "zend_symtable_exists_ind e ht key =
     (case zend_handle_numeric_str (zs_val key) of
        Some idx \<Rightarrow> zend_hash_index_exists ht idx
      | None \<Rightarrow> zend_hash_exists_ind e ht key)"

definition zend_symtable_str_update where
  "zend_symtable_str_update e ht str pData =
     (case zend_handle_numeric_str str of
        Some idx \<Rightarrow> zend_hash_index_update e ht idx pData
      | None \<Rightarrow> zend_hash_str_update e ht str pData)"

definition zend_symtable_str_update_ind where
  "zend_symtable_str_update_ind e ht str pData =
     (case zend_handle_numeric_str str of
        Some idx \<Rightarrow> zend_hash_index_update e ht idx pData
      | None \<Rightarrow> zend_hash_str_update_ind e ht str pData)"

definition zend_symtable_str_del where
  "zend_symtable_str_del e ht str =
     (case zend_handle_numeric_str str of
        Some idx \<Rightarrow> zend_hash_index_del e ht idx
      | None \<Rightarrow> zend_hash_str_del e ht str)"

definition zend_symtable_str_del_ind where
  "zend_symtable_str_del_ind e ht str =
     (case zend_handle_numeric_str str of
        Some idx \<Rightarrow> zend_hash_index_del e ht idx
      | None \<Rightarrow> zend_hash_str_del_ind e ht str)"

definition zend_symtable_str_find where
  "zend_symtable_str_find ht str =
     (case zend_handle_numeric_str str of
        Some idx \<Rightarrow> zend_hash_index_find ht idx
      | None \<Rightarrow> zend_hash_str_find ht str)"

definition zend_symtable_str_exists where
  "zend_symtable_str_exists ht str =
     (case zend_handle_numeric_str str of
        Some idx \<Rightarrow> zend_hash_index_exists ht idx
      | None \<Rightarrow> zend_hash_str_exists ht str)"

subsection \<open>A symbol table is a map on strings\<close>

definition sym_key :: "bytes \<Rightarrow> hkey" where
  "sym_key s = (case zend_handle_numeric_str s of Some n \<Rightarrow> IKey n | None \<Rightarrow> SKey s)"

lemma sym_key_inj: "sym_key s = sym_key t \<Longrightarrow> s = t"
  by (auto simp: sym_key_def numeric_key_iff split: option.splits)

lemma sym_find_ok:
  assumes "ht_inv ht" "ptr_coherent ht key" "zs_ok key"
  shows "zend_symtable_find ht key = Inr (locate ht (sym_key (zs_val key)))"
  using index_find_ok [OF assms(1)] find_bucket_ok [OF assms, of False]
  by (simp add: zend_symtable_find_def sym_key_def zend_hash_find_def split: option.splits)

lemma sym_str_find_ok:
  assumes "ht_inv ht"
  shows "zend_symtable_str_find ht str = Inr (locate ht (sym_key str))"
  using index_find_ok [OF assms] str_find_bucket_ok [OF assms]
  by (simp add: zend_symtable_str_find_def sym_key_def zend_hash_str_find_def zend_hash_func_def split: option.splits)

text \<open>An update owes the string a reference only when it becomes a string key.\<close>

definition sym_ptr :: "zend_string \<Rightarrow> nat" where
  "sym_ptr key = (case sym_key (zs_val key) of IKey n \<Rightarrow> 0 | SKey s \<Rightarrow> zs_ptr key)"

definition sym_log :: "zend_string \<Rightarrow> 'v effect list" where
  "sym_log key = (case sym_key (zs_val key) of IKey n \<Rightarrow> [] | SKey s \<Rightarrow> key_log key)"

lemma sym_update_ok:
  assumes inv: "ht_inv ht" and sz: "nTableSize ht < 2 ^ 30" and key: "good_key ht key" and v: "v \<noteq> IS_UNDEF"
  shows "\<exists>r. zend_symtable_update e ht key v = Inr r \<and>
    stored e ht (sym_key (zs_val key)) (sym_ptr key) v (update_log ht (sym_key (zs_val key)) (sym_log key)) r"
proof (cases "zend_handle_numeric_str (zs_val key)")
  case None
  with hash_update_ok [OF inv sz key v, of e] show ?thesis
    by (simp add: zend_symtable_update_def sym_key_def sym_ptr_def sym_log_def)
next
  case (Some n)
  with index_update_ok [OF inv sz v, of e n] show ?thesis
    by (simp add: zend_symtable_update_def sym_key_def sym_ptr_def sym_log_def)
qed

lemma sym_del_ok:
  assumes inv: "ht_inv ht" and co: "ptr_coherent ht key" and ok: "zs_ok key"
  shows "del_outcome e ht (sym_key (zs_val key)) (zend_symtable_del e ht key)"
  using hash_del_ok [OF assms, of e] hash_index_del_ok [OF inv, of e]
  by (simp add: zend_symtable_del_def sym_key_def split: option.splits)

end
