(* ===== verification/Zend_Operators_Properties.thy ===== *)
theory Zend_Operators_Properties
  imports Zend_Hash_Properties Zend_Memstr Zend_Symtable
begin

section \<open>The properties of strings: comparison, search, numeric keys\<close>

text \<open>
  The properties of the string operators, numeric keys and symbol tables.
\<close>

subsection \<open>Comparison and case\<close>

text \<open>
  C22. \<open>zend_binary_strcasecmp\<close> is the lexicographic order of the lower-cased strings, for strings
  whose lengths are positive \<open>int\<close> values: negative, zero or positive as the first is less,
  equal or greater.
\<close>

theorem zend_binary_strcasecmp_correct:
  assumes "length s < 2 ^ 31" "length t < 2 ^ 31"
  shows "lex_sign (zend_binary_strcasecmp False s t) (map zend_tolower_ascii s) (map zend_tolower_ascii t)"
  by (rule binary_strcasecmp_sign [OF assms])

theorem zend_binary_strcasecmp_correct_witness:
  "zend_binary_strcasecmp False [65, 98] [97, 66] = 0"
proof -
  have "map zend_tolower_ascii [65, 98] = map zend_tolower_ascii [97, 66]"
    by (simp add: zend_tolower_ascii_conv)
  with zend_binary_strcasecmp_correct [of "[65, 98]" "[97, 66]"] show ?thesis by (simp add: lex_sign_def)
qed



text \<open>
  C24. \<open>zend_str_tolower_dup_ex\<close> returns a copy exactly if lower-casing changes the string, and then
  the lower-cased string.
\<close>

theorem zend_str_tolower_dup_ex_correct:
  "zend_str_tolower_dup_ex s = (if zend_str_tolower s = s then None else Some (zend_str_tolower s))"
  by (simp add: zend_str_tolower_dup_ex_def zend_str_tolower_def tolower_scan_ok)

subsection \<open>Search\<close>

text \<open>
  C25. \<open>zend_memnstr\<close> terminates and returns the first occurrence of the needle, whichever of its
  three algorithms it takes, for needles up to the length its table of shifts can hold.
\<close>

theorem zend_memnstr_correct:
  assumes "length needle + 1 < 2 ^ 32" "needle \<noteq> []"
  shows "\<exists>r. zend_memnstr haystack needle = Some r \<and>
    (case r of None \<Rightarrow> \<forall>q. \<not> occurs haystack needle q
     | Some q \<Rightarrow> occurs haystack needle q \<and> (\<forall>q' < q. \<not> occurs haystack needle q'))"
  by (rule zend_memnstr_ok [OF assms])

theorem zend_memnstr_correct_witness:
  "\<exists>r. zend_memnstr [97, 98, 97, 98, 99] [97, 98, 99] = Some (Some r) \<and> occurs [97, 98, 97, 98, 99] [97, 98, 99] r"
proof -
  have "occurs [97, 98, 97, 98, 99] [97, 98, 99] 2"
    by (auto simp: occurs_def less_Suc_eq numeral_2_eq_2 numeral_3_eq_3)
  with zend_memnstr_correct [of "[97, 98, 99]" "[97, 98, 97, 98, 99]"] show ?thesis
    by (auto split: option.splits)
qed

text \<open>
  C26. \<open>zend_memnrstr\<close> terminates and returns the last occurrence of the needle, for needles
  shorter than \<open>2 ^ 31\<close> bytes.
\<close>

theorem zend_memnrstr_correct:
  assumes "length needle < 2 ^ 31" "needle \<noteq> []"
  shows "\<exists>r. zend_memnrstr haystack needle = Some r \<and>
    (case r of None \<Rightarrow> \<forall>q. \<not> occurs haystack needle q
     | Some q \<Rightarrow> occurs haystack needle q \<and> (\<forall>q' > q. \<not> occurs haystack needle q'))"
  by (rule zend_memnrstr_ok [OF assms])

theorem zend_memnrstr_correct_witness:
  "\<exists>r. zend_memnrstr [97, 98, 97, 98] [97, 98] = Some (Some r) \<and> occurs [97, 98, 97, 98] [97, 98] r"
proof -
  have "occurs [97, 98, 97, 98] [97, 98] 2" by (auto simp: occurs_def less_Suc_eq numeral_2_eq_2)
  with zend_memnrstr_correct [of "[97, 98]" "[97, 98, 97, 98]"] show ?thesis by (auto split: option.splits)
qed

subsection \<open>Numeric keys\<close>

text \<open>
  C27. A string is taken for the integer key \<open>n\<close> exactly if it is the decimal form \<open>zend_long_to_str\<close>
  prints for \<open>n\<close>: the two are inverse, and no other spelling (leading zeros, a plus sign,
  \<open>-0\<close>, numbers out of range) is numeric.  The printed form fits the buffer.
\<close>

theorem zend_handle_numeric_str_correct:
  "(zend_handle_numeric_str key = Some n \<longleftrightarrow> key = zend_print_long_to_buf n) \<and>
   length (zend_print_long_to_buf n) \<le> MAX_LENGTH_OF_LONG"
  by (simp add: numeric_key_iff print_long_length)

text \<open>
  C28. \<open>zend_symtable_update\<close> makes a symbol table a map on strings: it stores the value under a key
  that no other string has, as an integer key without a reference to the string if the
  string is a number.
\<close>

theorem zend_symtable_update_correct:
  assumes "ht_inv ht" "nTableSize ht < 2 ^ 30" "good_key ht key" "v \<noteq> IS_UNDEF"
  shows "(\<exists>r e' ht'. zend_symtable_update e ht key v = Inr (r, e', ht') \<and> ht_inv ht' \<and>
      entries ht' = assoc_put (sym_key (zs_val key)) v (entries ht) \<and>
      (\<forall>key'. ptr_coherent ht' key' \<and> zs_ok key' \<longrightarrow>
        zend_symtable_find ht' key' = Inr (locate ht' (sym_key (zs_val key'))))) \<and>
    inj sym_key"
proof
  obtain r e' ht' where s: "zend_symtable_update e ht key v = Inr (r, e', ht')"
    "stored e ht (sym_key (zs_val key)) (sym_ptr key) v (update_log ht (sym_key (zs_val key)) (sym_log key)) (r, e', ht')"
    using sym_update_ok [OF assms, of e] by (auto simp: prod_eq_iff)
  then have "ht_inv ht'" "entries ht' = assoc_put (sym_key (zs_val key)) v (entries ht)" by (auto simp: stored_def)
  with s(1) sym_find_ok show "\<exists>r e' ht'. zend_symtable_update e ht key v = Inr (r, e', ht') \<and> ht_inv ht' \<and>
      entries ht' = assoc_put (sym_key (zs_val key)) v (entries ht) \<and>
      (\<forall>key'. ptr_coherent ht' key' \<and> zs_ok key' \<longrightarrow>
        zend_symtable_find ht' key' = Inr (locate ht' (sym_key (zs_val key'))))" by blast
  show "inj sym_key" by (rule injI) (rule sym_key_inj)
qed

theorem zend_symtable_update_correct_witness:
  "\<exists>r e' ht'. zend_symtable_update demo_env demo_one (zend_string_init 9 [52, 50]) (IS_VAL 3) = Inr (r, e', ht') \<and>
    entries ht' = [(SKey [97, 98], IS_VAL 1), (IKey 42, IS_VAL 3)]"
proof -
  have k: "sym_key [52, 50] = IKey 42"
    by (simp add: sym_key_def zend_handle_numeric_str_def zend_handle_numeric_str_ex_def char_at_def is_digit_def
        MAX_LENGTH_OF_LONG_def ZEND_LONG_MAX_def)
  have g: "good_key demo_one (zend_string_init 9 [52, 50])"
  proof -
    have "zs_ptr s \<noteq> 9" if "i < nNumUsed demo_one" "b_key (arData demo_one ! i) = Some s" for i s
      using that demo_one_eq demo_one_fields by (auto simp: appended_def new_bucket_def hashed_def demo_key_def zend_string_init_def)
    then show ?thesis by (auto simp: good_key_def ptr_coherent_def zs_ok_def zend_string_init_def split: option.split)
  qed
  from zend_symtable_update_correct [OF demo_one(1) _ g, of "IS_VAL 3" demo_env] k demo_one(2) demo_one_fields
  show ?thesis by (auto simp: zend_string_init_def assoc_put_def)
qed

end
