(* ===== verification/Stack_Interface.thy ===== *)
theory Stack_Interface
  imports PHP_Prelude
begin

section \<open>What a client of a stack relies on\<close>

text \<open>
  \<open>ab\<close> is the contents, the top first; below \<open>limit\<close> elements there is room for one more.  The laws are those of one push and one pop; the
  lemmas are what clients do: push a list and pop it again.
\<close>

locale lifo =
  fixes inv :: "'s \<Rightarrow> bool"
    and ab :: "'s \<Rightarrow> 'a list"
    and push :: "'a \<Rightarrow> 's \<Rightarrow> 's res"
    and pop :: "'s \<Rightarrow> ('a \<times> 's) res"
    and limit :: nat
  assumes push_law: "inv s \<Longrightarrow> length (ab s) < limit \<Longrightarrow> \<exists>s'. push x s = Inr s' \<and> inv s' \<and> ab s' = x # ab s"
    and pop_law: "inv s \<Longrightarrow> ab s = x # xs \<Longrightarrow> \<exists>s'. pop s = Inr (x, s') \<and> inv s' \<and> ab s' = xs"
begin

fun pops :: "nat \<Rightarrow> 's \<Rightarrow> ('a list \<times> 's) res" where
  "pops 0 s = Inr ([], s)"
| "pops (Suc n) s = rbind (pop s) (\<lambda>(x, s). rbind (pops n s) (\<lambda>(xs, s). Inr (x # xs, s)))"

lemma pushes_ok: "inv s \<Longrightarrow> length xs + length (ab s) \<le> limit \<Longrightarrow> \<exists>s'. fold_res push xs s = Inr s' \<and> inv s' \<and> ab s' = rev xs @ ab s"
proof (induction xs arbitrary: s)
  case (Cons x xs)
  from push_law [OF Cons.prems(1), of x] Cons.prems(2)
  obtain s1 where s1: "push x s = Inr s1" "inv s1" "ab s1 = x # ab s" by auto
  with Cons.IH [OF s1(2)] Cons.prems(2) show ?case by simp
qed simp

lemma pops_ok: "inv s \<Longrightarrow> ab s = xs @ ys \<Longrightarrow> \<exists>s'. pops (length xs) s = Inr (xs, s') \<and> inv s' \<and> ab s' = ys"
proof (induction xs arbitrary: s)
  case (Cons x xs)
  then have "ab s = x # (xs @ ys)" by simp
  from pop_law [OF Cons.prems(1) this] obtain s1 where s1: "pop s = Inr (x, s1)" "inv s1" "ab s1 = xs @ ys" by blast
  from Cons.IH [OF s1(2,3)] s1(1) show ?case by auto
qed simp

text \<open>Pushing a list and popping as many elements gives the list backwards.\<close>

lemma push_pop:
  assumes "inv s" "length xs + length (ab s) \<le> limit"
  shows "\<exists>s1 s2. fold_res push xs s = Inr s1 \<and> pops (length xs) s1 = Inr (rev xs, s2) \<and> inv s2 \<and> ab s2 = ab s"
proof -
  from pushes_ok [OF assms] obtain s1 where s1: "fold_res push xs s = Inr s1" "inv s1" "ab s1 = rev xs @ ab s" by blast
  from pops_ok [OF s1(2,3)] s1(1) show ?thesis by auto
qed

end

end
