(* ===== verification/C_Int.thy ===== *)
theory C_Int
  imports PHP_Prelude
begin

section \<open>The type int of C\<close>

text \<open>
  Counters and sizes that the containers keep in an \<open>int\<close>.  A sum or product that is not an \<open>int\<close>
  of 32 bits is undefined behaviour (\<open>UB\<close>); the conversion of a longer integer cuts it to 32 bits.
\<close>

definition INT_MAX :: int where "INT_MAX = 2 ^ 31 - 1"

definition int_result :: "int \<Rightarrow> int res" where
  "int_result x = (if - INT_MAX - 1 \<le> x \<and> x \<le> INT_MAX then Inr x else Inl UB)"

definition int_cast :: "int \<Rightarrow> int" where
  "int_cast x = sint (word_of_int x :: 32 word)"

lemma int_result_ok [simp]: "0 \<le> x \<Longrightarrow> x \<le> INT_MAX \<Longrightarrow> int_result x = Inr x"
  by (simp add: int_result_def INT_MAX_def)

lemma int_result_Inr: "int_result x = Inr y \<longleftrightarrow> y = x \<and> - INT_MAX - 1 \<le> x \<and> x \<le> INT_MAX"
  by (auto simp: int_result_def)

lemma int_cast_id [simp]: "- INT_MAX - 1 \<le> x \<Longrightarrow> x \<le> INT_MAX \<Longrightarrow> int_cast x = x"
  by (simp add: int_cast_def INT_MAX_def int_word_sint)

end
