(* ===== verification/Zend_Stack.thy ===== *)
theory Zend_Stack
  imports Stack_Interface Store_Interfaces C_Int
begin

section \<open>The two stacks of the engine (Zend/zend\_stack.c, Zend/zend\_ptr\_stack.c)\<close>

text \<open>
  \<open>zend_stack\<close> copies elements of one size, \<open>zend_ptr_stack\<close> holds pointers.  Both grow their
  array by a block at a time; \<open>None\<close> is the null pointer before the first allocation, \<open>junk\<close>
  what is in memory that has just been allocated.  \<open>top\<close> and \<open>max\<close> are \<open>int\<close> in C: a push that
  takes one of them past \<open>INT_MAX\<close> is undefined.
\<close>

subsection \<open>Arrays\<close>

definition realloc_elements :: "'a \<Rightarrow> 'a list option \<Rightarrow> nat \<Rightarrow> 'a list" where
  "realloc_elements junk old n =
     (let xs = (case old of None \<Rightarrow> [] | Some xs \<Rightarrow> xs)
      in take n xs @ replicate (n - length xs) junk)"

definition array_get :: "'a list option \<Rightarrow> int \<Rightarrow> 'a res" where
  "array_get arr i = (case arr of None \<Rightarrow> Inl UB
     | Some xs \<Rightarrow> if 0 \<le> i \<and> i < int (length xs) then Inr (xs ! nat i) else Inl UB)"

definition array_set :: "'a list option \<Rightarrow> int \<Rightarrow> 'a \<Rightarrow> 'a list option res" where
  "array_set arr i x = (case arr of None \<Rightarrow> Inl UB
     | Some xs \<Rightarrow> if 0 \<le> i \<and> i < int (length xs) then Inr (Some (xs[nat i := x])) else Inl UB)"

subsection \<open>zend\_stack\<close>

record 'a zend_stack =
  stk_top :: int
  stk_max :: int
  stk_elements :: "'a list option"

definition STACK_BLOCK_SIZE :: int where
  "STACK_BLOCK_SIZE = 16"

definition zend_stack_init :: "'a zend_stack" where
  "zend_stack_init = \<lparr>stk_top = 0, stk_max = 0, stk_elements = None\<rparr>"

definition zend_stack_push :: "'a \<Rightarrow> 'a zend_stack \<Rightarrow> 'a \<Rightarrow> (int \<times> 'a zend_stack) res" where
  "zend_stack_push junk stack element =
     rbind (if stk_top stack \<ge> stk_max stack
            then rbind (int_result (stk_max stack + STACK_BLOCK_SIZE)) (\<lambda>mx.
                   Inr (stack\<lparr>stk_max := mx,
                          stk_elements := Some (realloc_elements junk (stk_elements stack) (nat mx))\<rparr>))
            else Inr stack) (\<lambda>stack.
       rbind (array_set (stk_elements stack) (stk_top stack) element) (\<lambda>elements.
         rbind (int_result (stk_top stack + 1)) (\<lambda>top.
           Inr (stk_top stack, stack\<lparr>stk_elements := elements, stk_top := top\<rparr>))))"

text \<open>The element on top, or a null pointer.\<close>

definition zend_stack_top :: "'a zend_stack \<Rightarrow> 'a option res" where
  "zend_stack_top stack =
     (if stk_top stack > 0 then rbind (array_get (stk_elements stack) (stk_top stack - 1)) (\<lambda>x. Inr (Some x))
      else Inr None)"

definition zend_stack_del_top :: "'a zend_stack \<Rightarrow> 'a zend_stack" where
  "zend_stack_del_top stack = stack\<lparr>stk_top := stk_top stack - 1\<rparr>"

definition zend_stack_int_top :: "int zend_stack \<Rightarrow> int res" where
  "zend_stack_int_top stack =
     rbind (zend_stack_top stack) (\<lambda>e. case e of Some e \<Rightarrow> Inr e | None \<Rightarrow> Inr (- 1))"

definition zend_stack_is_empty :: "'a zend_stack \<Rightarrow> bool" where
  "zend_stack_is_empty stack = (stk_top stack = 0)"

definition zend_stack_destroy :: "'a zend_stack \<Rightarrow> 'a zend_stack" where
  "zend_stack_destroy stack = stack\<lparr>stk_elements := None\<rparr>"

definition zend_stack_base :: "'a zend_stack \<Rightarrow> 'a list option" where
  "zend_stack_base stack = stk_elements stack"

definition zend_stack_count :: "'a zend_stack \<Rightarrow> int" where
  "zend_stack_count stack = stk_top stack"

text \<open>
  The loops of \<open>zend_stack_apply\<close>: a nonzero answer of the callback stops them.  The callback may
  change the element in place and a state of its own.
\<close>

fun apply_until :: "('a \<Rightarrow> 's \<Rightarrow> bool \<times> 'a \<times> 's) \<Rightarrow> int list \<Rightarrow> 'a list option \<times> 's \<Rightarrow> ('a list option \<times> 's) res" where
  "apply_until f [] (elements, s) = Inr (elements, s)"
| "apply_until f (i # is) (elements, s) =
     rbind (array_get elements i) (\<lambda>x.
       (let (stop, x, s) = f x s
        in rbind (array_set elements i x) (\<lambda>elements.
             if stop then Inr (elements, s) else apply_until f is (elements, s))))"

definition zend_stack_apply ::
    "'a zend_stack \<Rightarrow> nat \<Rightarrow> ('a \<Rightarrow> 's \<Rightarrow> bool \<times> 'a \<times> 's) \<Rightarrow> 's \<Rightarrow> ('a zend_stack \<times> 's) res" where
  "zend_stack_apply stack type f s =
     (let idx = (if type = 1 then rev [0..stk_top stack - 1]
                 else if type = 2 then [0..stk_top stack - 1] else [])
      in rbind (apply_until f idx (stk_elements stack, s))
           (\<lambda>(elements, s). Inr (stack\<lparr>stk_elements := elements\<rparr>, s)))"

definition zend_stack_apply_with_argument ::
    "'a zend_stack \<Rightarrow> nat \<Rightarrow> ('a \<Rightarrow> 'b \<Rightarrow> 's \<Rightarrow> bool \<times> 'a \<times> 's) \<Rightarrow> 'b \<Rightarrow> 's \<Rightarrow> ('a zend_stack \<times> 's) res" where
  "zend_stack_apply_with_argument stack type f arg s = zend_stack_apply stack type (\<lambda>x. f x arg) s"

definition zend_stack_clean ::
    "'a zend_stack \<Rightarrow> ('a \<Rightarrow> 's \<Rightarrow> 'a \<times> 's) option \<Rightarrow> bool \<Rightarrow> 's \<Rightarrow> ('a zend_stack \<times> 's) res" where
  "zend_stack_clean stack func free_elements s =
     rbind (case func of None \<Rightarrow> Inr (stk_elements stack, s)
            | Some f \<Rightarrow> apply_until (\<lambda>x s. (False, f x s)) [0..stk_top stack - 1] (stk_elements stack, s))
       (\<lambda>(elements, s). Inr (let stack = stack\<lparr>stk_elements := elements\<rparr>
         in if free_elements then stack\<lparr>stk_elements := None, stk_top := 0, stk_max := 0\<rparr> else stack, s))"

subsection \<open>zend\_ptr\_stack\<close>

text \<open>\<open>top_element\<close> is an address inside the array, kept as an offset.\<close>

record 'a zend_ptr_stack =
  ps_top :: int
  ps_max :: int
  ps_elements :: "'a list option"
  ps_top_element :: int

definition PTR_STACK_BLOCK_SIZE :: int where
  "PTR_STACK_BLOCK_SIZE = 64"

definition zend_ptr_stack_init :: "'a zend_ptr_stack" where
  "zend_ptr_stack_init = \<lparr>ps_top = 0, ps_max = 0, ps_elements = None, ps_top_element = 0\<rparr>"

text \<open>\<open>do { max += PTR_STACK_BLOCK_SIZE; } while (top + count > max)\<close>\<close>

function grow_max :: "int \<Rightarrow> int \<Rightarrow> int res" where
  "grow_max need mx =
     (case int_result (mx + PTR_STACK_BLOCK_SIZE) of
        Inl e \<Rightarrow> Inl e
      | Inr mx \<Rightarrow> if need > mx then grow_max need mx else Inr mx)"
  by pat_completeness auto
termination
  by (relation "measure (\<lambda>(need, mx). nat (need - mx))") (auto simp: PTR_STACK_BLOCK_SIZE_def int_result_Inr)

declare grow_max.simps [simp del]

definition ptr_stack_resize :: "'a \<Rightarrow> 'a zend_ptr_stack \<Rightarrow> int \<Rightarrow> 'a zend_ptr_stack res" where
  "ptr_stack_resize junk stack cnt =
     rbind (int_result (ps_top stack + cnt)) (\<lambda>need.
       if need > ps_max stack then
         rbind (grow_max need (ps_max stack)) (\<lambda>mx.
           Inr (stack\<lparr>ps_max := mx, ps_elements := Some (realloc_elements junk (ps_elements stack) (nat mx)),
                  ps_top_element := ps_top stack\<rparr>))
       else Inr stack)"

text \<open>\<open>stack->top++; *(stack->top_element++) = elem\<close>\<close>

definition ptr_store :: "'a \<Rightarrow> 'a zend_ptr_stack \<Rightarrow> 'a zend_ptr_stack res" where
  "ptr_store elem stack =
     rbind (int_result (ps_top stack + 1)) (\<lambda>top.
       rbind (array_set (ps_elements stack) (ps_top_element stack) elem) (\<lambda>elements.
         Inr (stack\<lparr>ps_top := top, ps_elements := elements, ps_top_element := ps_top_element stack + 1\<rparr>)))"

definition zend_ptr_stack_n_push :: "'a \<Rightarrow> 'a zend_ptr_stack \<Rightarrow> 'a list \<Rightarrow> 'a zend_ptr_stack res" where
  "zend_ptr_stack_n_push junk stack elems =
     rbind (ptr_stack_resize junk stack (int (length elems))) (fold_res ptr_store elems)"

definition zend_ptr_stack_push :: "'a \<Rightarrow> 'a zend_ptr_stack \<Rightarrow> 'a \<Rightarrow> 'a zend_ptr_stack res" where
  "zend_ptr_stack_push junk stack ptr = rbind (ptr_stack_resize junk stack 1) (ptr_store ptr)"

definition zend_ptr_stack_2_push :: "'a \<Rightarrow> 'a zend_ptr_stack \<Rightarrow> 'a \<Rightarrow> 'a \<Rightarrow> 'a zend_ptr_stack res" where
  "zend_ptr_stack_2_push junk stack a b = rbind (ptr_stack_resize junk stack 2) (fold_res ptr_store [a, b])"

definition zend_ptr_stack_3_push :: "'a \<Rightarrow> 'a zend_ptr_stack \<Rightarrow> 'a \<Rightarrow> 'a \<Rightarrow> 'a \<Rightarrow> 'a zend_ptr_stack res" where
  "zend_ptr_stack_3_push junk stack a b c = rbind (ptr_stack_resize junk stack 3) (fold_res ptr_store [a, b, c])"

definition zend_ptr_stack_pop :: "'a zend_ptr_stack \<Rightarrow> ('a \<times> 'a zend_ptr_stack) res" where
  "zend_ptr_stack_pop stack =
     rbind (array_get (ps_elements stack) (ps_top_element stack - 1))
       (\<lambda>x. Inr (x, stack\<lparr>ps_top := ps_top stack - 1, ps_top_element := ps_top_element stack - 1\<rparr>))"

fun zend_ptr_stack_n_pop :: "nat \<Rightarrow> 'a zend_ptr_stack \<Rightarrow> ('a list \<times> 'a zend_ptr_stack) res" where
  "zend_ptr_stack_n_pop 0 stack = Inr ([], stack)"
| "zend_ptr_stack_n_pop (Suc n) stack =
     rbind (zend_ptr_stack_pop stack) (\<lambda>(x, stack).
       rbind (zend_ptr_stack_n_pop n stack) (\<lambda>(xs, stack). Inr (x # xs, stack)))"

definition zend_ptr_stack_2_pop :: "'a zend_ptr_stack \<Rightarrow> ('a list \<times> 'a zend_ptr_stack) res" where
  "zend_ptr_stack_2_pop stack = zend_ptr_stack_n_pop 2 stack"

definition zend_ptr_stack_3_pop :: "'a zend_ptr_stack \<Rightarrow> ('a list \<times> 'a zend_ptr_stack) res" where
  "zend_ptr_stack_3_pop stack = zend_ptr_stack_n_pop 3 stack"

definition zend_ptr_stack_top :: "'a zend_ptr_stack \<Rightarrow> 'a res" where
  "zend_ptr_stack_top stack = array_get (ps_elements stack) (ps_top stack - 1)"

text \<open>The block that is freed; the fields of the stack stay as they are.\<close>

definition zend_ptr_stack_destroy :: "'a zend_ptr_stack \<Rightarrow> 'a list option" where
  "zend_ptr_stack_destroy stack = ps_elements stack"

definition ptr_apply :: "('a \<Rightarrow> 's \<Rightarrow> 's) \<Rightarrow> int list \<Rightarrow> 'a zend_ptr_stack \<Rightarrow> 's \<Rightarrow> 's res" where
  "ptr_apply func idx stack s = fold_res (\<lambda>i s. rbind (array_get (ps_elements stack) i) (\<lambda>x. Inr (func x s))) idx s"

definition zend_ptr_stack_apply :: "'a zend_ptr_stack \<Rightarrow> ('a \<Rightarrow> 's \<Rightarrow> 's) \<Rightarrow> 's \<Rightarrow> 's res" where
  "zend_ptr_stack_apply stack func s = ptr_apply func (rev [0..ps_top stack - 1]) stack s"

definition zend_ptr_stack_reverse_apply :: "'a zend_ptr_stack \<Rightarrow> ('a \<Rightarrow> 's \<Rightarrow> 's) \<Rightarrow> 's \<Rightarrow> 's res" where
  "zend_ptr_stack_reverse_apply stack func s = ptr_apply func [0..ps_top stack - 1] stack s"

text \<open>\<open>pefree\<close> of an element is an effect on the state too.\<close>

definition zend_ptr_stack_clean ::
    "'a zend_ptr_stack \<Rightarrow> ('a \<Rightarrow> 's \<Rightarrow> 's) \<Rightarrow> ('a \<Rightarrow> 's \<Rightarrow> 's) \<Rightarrow> bool \<Rightarrow> 's \<Rightarrow> ('a zend_ptr_stack \<times> 's) res" where
  "zend_ptr_stack_clean stack func pefree free_elements s =
     rbind (zend_ptr_stack_apply stack func s) (\<lambda>s.
       rbind (if free_elements then ptr_apply pefree (rev [0..ps_top stack - 1]) stack s else Inr s) (\<lambda>s.
         Inr (stack\<lparr>ps_top := 0, ps_top_element := 0\<rparr>, s)))"

definition zend_ptr_stack_num_elements :: "'a zend_ptr_stack \<Rightarrow> int" where
  "zend_ptr_stack_num_elements stack = ps_top stack"


subsection \<open>Both are stacks\<close>

definition zend_stack_ok :: "'a zend_stack \<Rightarrow> bool" where
  "zend_stack_ok stack = (0 \<le> stk_top stack \<and> stk_top stack \<le> stk_max stack \<and>
     (case stk_elements stack of None \<Rightarrow> stk_max stack = 0 | Some xs \<Rightarrow> int (length xs) = stk_max stack))"

definition block :: "'a list option \<Rightarrow> 'a list" where
  "block elements = (case elements of None \<Rightarrow> [] | Some xs \<Rightarrow> xs)"

definition zend_stack_list :: "'a zend_stack \<Rightarrow> 'a list" where
  "zend_stack_list stack = rev (take (nat (stk_top stack)) (block (stk_elements stack)))"

definition zend_stack_pop :: "'a zend_stack \<Rightarrow> ('a \<times> 'a zend_stack) res" where
  "zend_stack_pop stack =
     rbind (zend_stack_top stack) (\<lambda>e. case e of None \<Rightarrow> Inl UB | Some x \<Rightarrow> Inr (x, zend_stack_del_top stack))"

lemma realloc_elements_simps [simp]:
  "length (realloc_elements junk old n) = n"
  "k \<le> n \<Longrightarrow> k \<le> length (block old) \<Longrightarrow> take k (realloc_elements junk old n) = take k (block old)"
  by (auto simp: realloc_elements_def block_def Let_def split: option.split)

lemma array_set_ok: "0 \<le> i \<Longrightarrow> i < int (length xs) \<Longrightarrow> array_set (Some xs) i x = Inr (Some (xs[nat i := x]))"
  by (simp add: array_set_def)

lemma take_update_last: "i < length xs \<Longrightarrow> take (Suc i) (xs[i := x]) = take i xs @ [x]"
  by (simp add: take_Suc_conv_app_nth)

lemma zend_stack_length: "zend_stack_ok s \<Longrightarrow> int (length (zend_stack_list s)) = stk_top s"
  by (auto simp: zend_stack_ok_def zend_stack_list_def block_def split: option.splits)

lemma zend_stack_push_ok:
  assumes "zend_stack_ok s" "length (zend_stack_list s) < nat (INT_MAX - STACK_BLOCK_SIZE)"
  shows "\<exists>s'. rbind (zend_stack_push junk s x) (\<lambda>(i, s). Inr s) = Inr s' \<and> zend_stack_ok s' \<and>
    zend_stack_list s' = x # zend_stack_list s"
proof -
  let ?t = "nat (stk_top s)"
  have room: "stk_top s + STACK_BLOCK_SIZE < INT_MAX"
    using assms(2) zend_stack_length [OF assms(1)] by linarith
  define s1 where "s1 = (if stk_top s \<ge> stk_max s
      then s\<lparr>stk_max := stk_max s + STACK_BLOCK_SIZE,
        stk_elements := Some (realloc_elements junk (stk_elements s) (nat (stk_max s + STACK_BLOCK_SIZE)))\<rparr> else s)"
  have top: "stk_top s1 = stk_top s" by (simp add: s1_def)
  have len: "int (length (block (stk_elements s))) = stk_max s" "0 \<le> stk_top s" "stk_top s \<le> stk_max s"
    using assms(1) by (auto simp: zend_stack_ok_def block_def split: option.splits)
  obtain xs where xs: "stk_elements s1 = Some xs" "int (length xs) = stk_max s1" "stk_top s < stk_max s1"
    "take ?t xs = take ?t (block (stk_elements s))"
  proof (cases "stk_top s \<ge> stk_max s")
    case True
    then show thesis using len by (intro that) (auto simp: s1_def STACK_BLOCK_SIZE_def)
  next
    case False
    then obtain ys where "stk_elements s = Some ys" using assms(1) by (auto simp: zend_stack_ok_def split: option.splits)
    then show thesis using False len by (intro that) (auto simp: s1_def block_def)
  qed
  have "zend_stack_push junk s x = Inr (stk_top s, s1\<lparr>stk_elements := Some (xs[?t := x]), stk_top := stk_top s + 1\<rparr>)"
    using xs(1-3) len room by (auto simp: zend_stack_push_def s1_def STACK_BLOCK_SIZE_def array_set_ok)
  moreover have "nat (stk_top s + 1) = Suc ?t" using len(2) by simp
  moreover have "?t < length xs" using xs(2,3) len(2) by linarith
  ultimately show ?thesis using xs len(2)
    by (simp add: zend_stack_ok_def zend_stack_list_def block_def take_update_last)
qed

lemma zend_stack_pop_ok:
  assumes "zend_stack_ok s" "zend_stack_list s = x # xs"
  shows "\<exists>s'. zend_stack_pop s = Inr (x, s') \<and> zend_stack_ok s' \<and> zend_stack_list s' = xs"
proof -
  let ?b = "block (stk_elements s)"
  have t: "take (nat (stk_top s)) ?b = rev xs @ [x]"
    using assms(2) by (simp add: zend_stack_list_def rev_swap)
  have len: "int (length ?b) = stk_max s" "stk_top s \<le> stk_max s"
    using assms(1) by (auto simp: zend_stack_ok_def block_def split: option.splits)
  then have n: "nat (stk_top s) = Suc (length xs)" using arg_cong [OF t, of length] by simp
  then have "?b \<noteq> []" using len by auto
  then obtain ys where ys: "stk_elements s = Some ys" by (auto simp: block_def split: option.splits)
  with t n have nth: "ys ! length xs = x" "take (length xs) ys = rev xs" "length xs < length ys"
    using len n nth_take [of "length xs" "Suc (length xs)" ys] take_take [of "length xs" "Suc (length xs)" ys]
    by (auto simp: block_def nth_append)
  have p: "stk_top s = int (length xs) + 1" using n by linarith
  have "zend_stack_pop s = Inr (x, s\<lparr>stk_top := stk_top s - 1\<rparr>)"
    using ys nth p by (simp add: zend_stack_pop_def zend_stack_top_def array_get_def zend_stack_del_top_def)
  with p ys nth len assms(1) show ?thesis
    by (simp add: zend_stack_ok_def zend_stack_list_def block_def)
qed

interpretation zend_stack: lifo zend_stack_ok zend_stack_list
  "\<lambda>x s. rbind (zend_stack_push junk s x) (\<lambda>(i, s). Inr s)" zend_stack_pop
  "nat (INT_MAX - STACK_BLOCK_SIZE)" for junk
  by unfold_locales (rule zend_stack_push_ok zend_stack_pop_ok; assumption)+


definition ptr_stack_ok :: "'a zend_ptr_stack \<Rightarrow> bool" where
  "ptr_stack_ok stack = (0 \<le> ps_top stack \<and> ps_top stack \<le> ps_max stack \<and> ps_top_element stack = ps_top stack \<and>
     (case ps_elements stack of None \<Rightarrow> ps_max stack = 0 | Some xs \<Rightarrow> int (length xs) = ps_max stack))"

definition ptr_stack_list :: "'a zend_ptr_stack \<Rightarrow> 'a list" where
  "ptr_stack_list stack = rev (take (nat (ps_top stack)) (block (ps_elements stack)))"

text \<open>A block more than what is needed is enough room for the loop.\<close>

lemma grow_max_ok:
  "mx < need \<Longrightarrow> 0 \<le> mx \<Longrightarrow> need + PTR_STACK_BLOCK_SIZE \<le> INT_MAX + 1 \<Longrightarrow>
   \<exists>m. grow_max need mx = Inr m \<and> need \<le> m \<and> m \<le> INT_MAX"
proof (induction need mx rule: grow_max.induct)
  case (1 need mx)
  let ?m = "mx + PTR_STACK_BLOCK_SIZE"
  have m: "int_result ?m = Inr ?m" "0 \<le> ?m" "?m \<le> INT_MAX" using "1.prems" by (simp_all add: PTR_STACK_BLOCK_SIZE_def)
  show ?case
  proof (cases "need > ?m")
    case True
    with "1.IH" [OF m(1)] "1.prems" m show ?thesis by (simp add: grow_max.simps [of _ mx])
  qed (use m in \<open>simp add: grow_max.simps [of _ mx]\<close>)
qed

text \<open>The room there is for \<open>n\<close> more elements.\<close>

definition ptr_room :: "nat \<Rightarrow> 'a zend_ptr_stack \<Rightarrow> bool" where
  "ptr_room n stack = (ptr_stack_ok stack \<and> (n = 0 \<or> ps_elements stack \<noteq> None) \<and> ps_top stack + int n \<le> ps_max stack \<and>
     ps_top stack + int n \<le> INT_MAX)"

lemma ptr_stack_length: "ptr_stack_ok s \<Longrightarrow> int (length (ptr_stack_list s)) = ps_top s"
  by (auto simp: ptr_stack_ok_def ptr_stack_list_def block_def split: option.splits)

lemma ptr_stack_resize_ok:
  assumes "ptr_stack_ok s" "int (length (ptr_stack_list s) + n) + PTR_STACK_BLOCK_SIZE \<le> INT_MAX + 1"
  shows "\<exists>s'. ptr_stack_resize junk s (int n) = Inr s' \<and> ptr_room n s' \<and> ptr_stack_list s' = ptr_stack_list s"
proof -
  let ?need = "ps_top s + int n"
  have len: "int (length (block (ps_elements s))) = ps_max s" "0 \<le> ps_top s" "ps_top s \<le> ps_max s"
    using assms(1) by (auto simp: ptr_stack_ok_def block_def split: option.splits)
  have fit: "?need + PTR_STACK_BLOCK_SIZE \<le> INT_MAX + 1" using assms(2) ptr_stack_length [OF assms(1)] by simp
  then have need: "int_result ?need = Inr ?need" "?need \<le> INT_MAX" using len by (simp_all add: PTR_STACK_BLOCK_SIZE_def)
  show ?thesis
  proof (cases "?need > ps_max s")
    case True
    with grow_max_ok [OF _ _ fit, of "ps_max s"] len obtain m where m: "grow_max ?need (ps_max s) = Inr m" "?need \<le> m" by auto
    let ?s = "s\<lparr>ps_max := m, ps_elements := Some (realloc_elements junk (ps_elements s) (nat m)), ps_top_element := ps_top s\<rparr>"
    have "nat (ps_top s) \<le> length (block (ps_elements s))" "nat (ps_top s) \<le> nat m" using len m(2) by linarith+
    then have "ptr_stack_list ?s = ptr_stack_list s" by (simp add: ptr_stack_list_def block_def [of "Some _"])
    moreover have "ptr_room n ?s" using len m need by (simp add: ptr_room_def ptr_stack_ok_def)
    ultimately show ?thesis using True need m(1) by (simp add: ptr_stack_resize_def)
  next
    case False
    then show ?thesis using assms(1) need len
      by (auto simp: ptr_stack_resize_def ptr_room_def block_def split: option.splits)
  qed
qed

lemma ptr_store_ok:
  assumes "ptr_room (Suc n) s"
  shows "\<exists>s'. ptr_store x s = Inr s' \<and> ptr_room n s' \<and> ptr_stack_list s' = x # ptr_stack_list s"
proof -
  obtain xs where xs: "ps_elements s = Some xs" "int (length xs) = ps_max s" "0 \<le> ps_top s" "ps_top_element s = ps_top s"
    "ps_top s + int (Suc n) \<le> ps_max s" "ps_top s + int (Suc n) \<le> INT_MAX"
    using assms by (auto simp: ptr_room_def ptr_stack_ok_def)
  have t: "nat (ps_top s) < length xs" "nat (ps_top s + 1) = Suc (nat (ps_top s))" using xs by linarith+
  have "ptr_store x s = Inr (s\<lparr>ps_top := ps_top s + 1, ps_elements := Some (xs[nat (ps_top s) := x]), ps_top_element := ps_top s + 1\<rparr>)"
    using xs by (simp add: ptr_store_def array_set_ok)
  then show ?thesis using xs t
    by (simp add: ptr_room_def ptr_stack_ok_def ptr_stack_list_def block_def take_update_last)
qed

interpretation ptr_loop: simulation ptr_room ptr_stack_list ptr_store "(#)" "\<lambda>x. True"
  by unfold_locales (rule ptr_store_ok)

lemma fold_Cons_rev: "fold (#) xs ys = rev xs @ ys"
  by (induction xs arbitrary: ys) simp_all

text \<open>One resize is enough for all the elements a call pushes.\<close>

lemma ptr_n_push_ok:
  assumes "ptr_stack_ok s" "int (length (ptr_stack_list s) + length xs) + PTR_STACK_BLOCK_SIZE \<le> INT_MAX + 1"
  shows "\<exists>s'. zend_ptr_stack_n_push junk s xs = Inr s' \<and> ptr_stack_ok s' \<and> ptr_stack_list s' = rev xs @ ptr_stack_list s"
proof -
  from ptr_stack_resize_ok [OF assms] obtain s1 where s1: "ptr_stack_resize junk s (int (length xs)) = Inr s1"
    "ptr_room (length xs) s1" "ptr_stack_list s1 = ptr_stack_list s" by blast
  from ptr_loop.loop_ok [of xs 0 s1] s1 show ?thesis
    by (auto simp: zend_ptr_stack_n_push_def fold_Cons_rev ptr_room_def)
qed

lemma ptr_push_ok:
  assumes "ptr_stack_ok s" "length (ptr_stack_list s) < nat (INT_MAX + 1 - PTR_STACK_BLOCK_SIZE)"
  shows "\<exists>s'. zend_ptr_stack_push junk s x = Inr s' \<and> ptr_stack_ok s' \<and> ptr_stack_list s' = x # ptr_stack_list s"
proof -
  have "zend_ptr_stack_push junk s x = zend_ptr_stack_n_push junk s [x]"
    by (simp add: zend_ptr_stack_n_push_def zend_ptr_stack_push_def rbind_def split: sum.splits)
  moreover have "int (length (ptr_stack_list s) + length [x]) + PTR_STACK_BLOCK_SIZE \<le> INT_MAX + 1"
    using assms(2) by simp
  ultimately show ?thesis using ptr_n_push_ok [OF assms(1), of "[x]" junk] by simp
qed

lemma ptr_pop_ok:
  assumes "ptr_stack_ok s" "ptr_stack_list s = x # xs"
  shows "\<exists>s'. zend_ptr_stack_pop s = Inr (x, s') \<and> ptr_stack_ok s' \<and> ptr_stack_list s' = xs"
proof -
  let ?b = "block (ps_elements s)"
  have t: "take (nat (ps_top s)) ?b = rev xs @ [x]"
    using assms(2) by (simp add: ptr_stack_list_def rev_swap)
  have len: "int (length ?b) = ps_max s" "ps_top s \<le> ps_max s"
    using assms(1) by (auto simp: ptr_stack_ok_def block_def split: option.splits)
  then have n: "nat (ps_top s) = Suc (length xs)" using arg_cong [OF t, of length] by simp
  then have "?b \<noteq> []" using len by auto
  then obtain ys where ys: "ps_elements s = Some ys" by (auto simp: block_def split: option.splits)
  with t n have nth: "ys ! length xs = x" "take (length xs) ys = rev xs" "length xs < length ys"
    using len n nth_take [of "length xs" "Suc (length xs)" ys] take_take [of "length xs" "Suc (length xs)" ys]
    by (auto simp: block_def nth_append)
  have p: "ps_top s = int (length xs) + 1" using n by linarith
  have "zend_ptr_stack_pop s = Inr (x, s\<lparr>ps_top := ps_top s - 1, ps_top_element := ps_top s - 1\<rparr>)"
    using ys nth p assms(1) by (simp add: zend_ptr_stack_pop_def array_get_def ptr_stack_ok_def)
  with p ys nth len assms(1) show ?thesis
    by (simp add: ptr_stack_ok_def ptr_stack_list_def block_def)
qed

interpretation zend_ptr_stack: lifo ptr_stack_ok ptr_stack_list "\<lambda>x s. zend_ptr_stack_push junk s x" zend_ptr_stack_pop
  "nat (INT_MAX + 1 - PTR_STACK_BLOCK_SIZE)" for junk by unfold_locales (rule ptr_push_ok ptr_pop_ok; assumption)+

lemma ptr_n_pop: "zend_ptr_stack_n_pop n s = zend_ptr_stack.pops n s"
  by (induction n arbitrary: s) (simp_all add: zend_ptr_stack.pops.simps)

lemma ptr_push_pop:
  assumes "ptr_stack_ok s" "int (length (ptr_stack_list s) + length xs) + PTR_STACK_BLOCK_SIZE \<le> INT_MAX + 1"
  shows "\<exists>s1 s2. zend_ptr_stack_n_push junk s xs = Inr s1 \<and> zend_ptr_stack_n_pop (length xs) s1 = Inr (rev xs, s2) \<and>
    ptr_stack_ok s2 \<and> ptr_stack_list s2 = ptr_stack_list s"
proof -
  from ptr_n_push_ok [OF assms] obtain s1 where s1: "zend_ptr_stack_n_push junk s xs = Inr s1" "ptr_stack_ok s1"
    "ptr_stack_list s1 = rev xs @ ptr_stack_list s" by blast
  from zend_ptr_stack.pops_ok [OF s1(2,3)] s1(1) show ?thesis by (auto simp: ptr_n_pop)
qed

end
