(* ===== verification/Zend_Llist.thy ===== *)
theory Zend_Llist
  imports PHP_Prelude Zend_Sort
begin

section \<open>Doubly linked lists (Zend/zend\_llist.c)\<close>

text \<open>
  The elements of a list are nodes of a heap, linked in both directions.  \<open>None\<close> is the null
  pointer.  \<open>pemalloc\<close> is given by the address it returns.  A read or a write of an address that
  holds no node is \<open>UB\<close>; so is, with \<open>None\<close>, a traversal that leaves the heap or does not return.
  \<open>Dtor\<close> and \<open>Free\<close> are the calls of the destructor and of \<open>pefree\<close>, in order.
\<close>

type_synonym addr = nat

record 'a node =
  nd_next :: "addr option"
  nd_prev :: "addr option"
  nd_data :: 'a

datatype 'a llist_effect = Dtor_data 'a | Free_node addr

record 'a zend_llist =
  ll_heap :: "addr \<Rightarrow> 'a node option"
  ll_head :: "addr option"
  ll_tail :: "addr option"
  ll_count :: nat
  ll_dtor :: bool
  ll_traverse_ptr :: "addr option"
  ll_log :: "'a llist_effect list"

subsection \<open>Memory\<close>

definition node_at :: "'a zend_llist \<Rightarrow> addr \<Rightarrow> 'a node res" where
  "node_at l a = (case ll_heap l a of None \<Rightarrow> Inl UB | Some n \<Rightarrow> Inr n)"

definition upd_node :: "addr \<Rightarrow> ('a node \<Rightarrow> 'a node) \<Rightarrow> 'a zend_llist \<Rightarrow> 'a zend_llist res" where
  "upd_node a f l = rbind (node_at l a) (\<lambda>n. Inr (l\<lparr>ll_heap := (ll_heap l)(a \<mapsto> f n)\<rparr>))"

definition put_node :: "addr \<Rightarrow> 'a node \<Rightarrow> 'a zend_llist \<Rightarrow> 'a zend_llist" where
  "put_node a n l = l\<lparr>ll_heap := (ll_heap l)(a \<mapsto> n)\<rparr>"

definition call_ll_dtor :: "'a \<Rightarrow> 'a zend_llist \<Rightarrow> 'a zend_llist" where
  "call_ll_dtor x l = (if ll_dtor l then l\<lparr>ll_log := ll_log l @ [Dtor_data x]\<rparr> else l)"

definition free_node :: "addr \<Rightarrow> 'a zend_llist \<Rightarrow> 'a zend_llist" where
  "free_node a l = l\<lparr>ll_heap := (ll_heap l)(a := None), ll_log := ll_log l @ [Free_node a]\<rparr>"

subsection \<open>Insertion and deletion\<close>

definition zend_llist_init :: "bool \<Rightarrow> 'a zend_llist \<Rightarrow> 'a zend_llist" where
  "zend_llist_init dtor l = l\<lparr>ll_head := None, ll_tail := None, ll_count := 0, ll_dtor := dtor\<rparr>"

definition zend_llist_add_element :: "'a zend_llist \<Rightarrow> addr \<Rightarrow> 'a \<Rightarrow> 'a zend_llist res" where
  "zend_llist_add_element l tmp element =
     rbind (case ll_tail l of
              Some t \<Rightarrow> upd_node t (\<lambda>n. n\<lparr>nd_next := Some tmp\<rparr>)
                (put_node tmp \<lparr>nd_next = None, nd_prev = ll_tail l, nd_data = element\<rparr> l)
            | None \<Rightarrow> Inr ((put_node tmp \<lparr>nd_next = None, nd_prev = None, nd_data = element\<rparr> l)\<lparr>ll_head := Some tmp\<rparr>))
       (\<lambda>l. Inr (l\<lparr>ll_tail := Some tmp, ll_count := ll_count l + 1\<rparr>))"

definition zend_llist_prepend_element :: "'a zend_llist \<Rightarrow> addr \<Rightarrow> 'a \<Rightarrow> 'a zend_llist res" where
  "zend_llist_prepend_element l tmp element =
     rbind (case ll_head l of
              Some h \<Rightarrow> upd_node h (\<lambda>n. n\<lparr>nd_prev := Some tmp\<rparr>)
                (put_node tmp \<lparr>nd_next = ll_head l, nd_prev = None, nd_data = element\<rparr> l)
            | None \<Rightarrow> Inr ((put_node tmp \<lparr>nd_next = None, nd_prev = None, nd_data = element\<rparr> l)\<lparr>ll_tail := Some tmp\<rparr>))
       (\<lambda>l. Inr (l\<lparr>ll_head := Some tmp, ll_count := ll_count l + 1\<rparr>))"

text \<open>The macro \<open>DEL_LLIST_ELEMENT\<close>.  The count is a \<open>size_t\<close>; a node in the list is counted.\<close>

definition unlink_next :: "'a node \<Rightarrow> 'a zend_llist \<Rightarrow> 'a zend_llist res" where
  "unlink_next n l = (case nd_prev n of
       Some p \<Rightarrow> upd_node p (\<lambda>m. m\<lparr>nd_next := nd_next n\<rparr>) l
     | None \<Rightarrow> Inr (l\<lparr>ll_head := nd_next n\<rparr>))"

definition unlink_prev :: "'a node \<Rightarrow> 'a zend_llist \<Rightarrow> 'a zend_llist res" where
  "unlink_prev n l = (case nd_next n of
       Some q \<Rightarrow> upd_node q (\<lambda>m. m\<lparr>nd_prev := nd_prev n\<rparr>) l
     | None \<Rightarrow> Inr (l\<lparr>ll_tail := nd_prev n\<rparr>))"

definition DEL_LLIST_ELEMENT :: "addr \<Rightarrow> 'a zend_llist \<Rightarrow> 'a zend_llist res" where
  "DEL_LLIST_ELEMENT current l =
     rbind (node_at l current) (\<lambda>n.
       rbind (unlink_next n l) (\<lambda>l.
         rbind (unlink_prev n l) (\<lambda>l.
           (let l = free_node current (call_ll_dtor (nd_data n) l)
            in Inr (l\<lparr>ll_count := ll_count l - 1\<rparr>)))))"

text \<open>The first node whose data the predicate accepts.\<close>

partial_function (option) llist_find :: "(addr \<Rightarrow> 'a node option) \<Rightarrow> ('a \<Rightarrow> bool) \<Rightarrow> addr option \<Rightarrow> addr option option" where
  "llist_find h P current =
     (case current of None \<Rightarrow> Some None
      | Some a \<Rightarrow> (case h a of None \<Rightarrow> None
          | Some n \<Rightarrow> if P (nd_data n) then Some (Some a) else llist_find h P (nd_next n)))"

definition of_traversal :: "'a option \<Rightarrow> 'a res" where
  "of_traversal r = (case r of None \<Rightarrow> Inl UB | Some x \<Rightarrow> Inr x)"

definition zend_llist_del_element :: "'a zend_llist \<Rightarrow> 'b \<Rightarrow> ('a \<Rightarrow> 'b \<Rightarrow> bool) \<Rightarrow> 'a zend_llist res" where
  "zend_llist_del_element l element compare =
     rbind (of_traversal (llist_find (ll_heap l) (\<lambda>x. compare x element) (ll_head l)))
       (\<lambda>r. case r of None \<Rightarrow> Inr l | Some a \<Rightarrow> DEL_LLIST_ELEMENT a l)"

text \<open>The loop of \<open>zend_llist_destroy\<close>: each node is destroyed and freed after its successor is read.\<close>

partial_function (option) destroy_loop :: "addr option \<Rightarrow> 'a zend_llist \<Rightarrow> 'a zend_llist option" where
  "destroy_loop current l =
     (case current of None \<Rightarrow> Some l
      | Some a \<Rightarrow> (case ll_heap l a of None \<Rightarrow> None
          | Some n \<Rightarrow> destroy_loop (nd_next n) (free_node a (call_ll_dtor (nd_data n) l))))"

definition zend_llist_destroy :: "'a zend_llist \<Rightarrow> 'a zend_llist res" where
  "zend_llist_destroy l = rbind (of_traversal (destroy_loop (ll_head l) l)) (\<lambda>l. Inr (l\<lparr>ll_count := 0\<rparr>))"

definition zend_llist_clean :: "'a zend_llist \<Rightarrow> 'a zend_llist res" where
  "zend_llist_clean l = rbind (zend_llist_destroy l) (\<lambda>l. Inr (l\<lparr>ll_head := None, ll_tail := None\<rparr>))"

definition zend_llist_remove_tail :: "'a zend_llist \<Rightarrow> 'a zend_llist res" where
  "zend_llist_remove_tail l =
     (case ll_tail l of None \<Rightarrow> Inr l
      | Some old_tail \<Rightarrow> rbind (node_at l old_tail) (\<lambda>n.
          rbind (case nd_prev n of
                   Some p \<Rightarrow> upd_node p (\<lambda>m. m\<lparr>nd_next := None\<rparr>) l
                 | None \<Rightarrow> Inr (l\<lparr>ll_head := None\<rparr>))
            (\<lambda>l. Inr (free_node old_tail (call_ll_dtor (nd_data n)
                  (l\<lparr>ll_tail := nd_prev n, ll_count := ll_count l - 1\<rparr>))))))"

subsection \<open>Traversal\<close>

text \<open>The nodes from an address on, in the order a loop over \<open>next\<close> meets them.\<close>

partial_function (option) llist_walk :: "(addr \<Rightarrow> 'a node option) \<Rightarrow> addr option \<Rightarrow> addr list option" where
  "llist_walk h current =
     (case current of None \<Rightarrow> Some []
      | Some a \<Rightarrow> (case h a of None \<Rightarrow> None
          | Some n \<Rightarrow> Option.bind (llist_walk h (nd_next n)) (\<lambda>as. Some (a # as))))"

text \<open>The callback may change the data in place and a state of its own.\<close>

definition apply_node :: "('a \<Rightarrow> 's \<Rightarrow> 'a \<times> 's) \<Rightarrow> addr \<Rightarrow> 'a zend_llist \<times> 's \<Rightarrow> ('a zend_llist \<times> 's) res" where
  "apply_node func a = (\<lambda>(l, s).
     rbind (node_at l a) (\<lambda>n. (let (x, s) = func (nd_data n) s in Inr (put_node a (n\<lparr>nd_data := x\<rparr>) l, s))))"

definition zend_llist_apply :: "'a zend_llist \<Rightarrow> ('a \<Rightarrow> 's \<Rightarrow> 'a \<times> 's) \<Rightarrow> 's \<Rightarrow> ('a zend_llist \<times> 's) res" where
  "zend_llist_apply l func s =
     rbind (of_traversal (llist_walk (ll_heap l) (ll_head l))) (\<lambda>as. fold_res (apply_node func) as (l, s))"

definition zend_llist_apply_with_argument ::
    "'a zend_llist \<Rightarrow> ('a \<Rightarrow> 'b \<Rightarrow> 's \<Rightarrow> 'a \<times> 's) \<Rightarrow> 'b \<Rightarrow> 's \<Rightarrow> ('a zend_llist \<times> 's) res" where
  "zend_llist_apply_with_argument l func arg s = zend_llist_apply l (\<lambda>x. func x arg) s"

definition zend_llist_apply_with_arguments ::
    "'a zend_llist \<Rightarrow> ('a \<Rightarrow> 'b list \<Rightarrow> 's \<Rightarrow> 'a \<times> 's) \<Rightarrow> 'b list \<Rightarrow> 's \<Rightarrow> ('a zend_llist \<times> 's) res" where
  "zend_llist_apply_with_arguments l func args s = zend_llist_apply l (\<lambda>x. func x args) s"

text \<open>\<open>zend_llist_apply_with_del\<close> reads the successor before the callback and the deletion.\<close>

partial_function (option) apply_del_loop ::
    "('a \<Rightarrow> 's \<Rightarrow> bool \<times> 's) \<Rightarrow> addr option \<Rightarrow> 'a zend_llist \<Rightarrow> 's \<Rightarrow> ('a zend_llist \<times> 's) option" where
  "apply_del_loop func element l s =
     (case element of None \<Rightarrow> Some (l, s)
      | Some a \<Rightarrow> (case ll_heap l a of None \<Rightarrow> None
          | Some n \<Rightarrow> (case func (nd_data n) s of (del, s) \<Rightarrow>
              (if del then (case DEL_LLIST_ELEMENT a l of Inl _ \<Rightarrow> None | Inr l \<Rightarrow> apply_del_loop func (nd_next n) l s)
               else apply_del_loop func (nd_next n) l s))))"

definition zend_llist_apply_with_del :: "'a zend_llist \<Rightarrow> ('a \<Rightarrow> 's \<Rightarrow> bool \<times> 's) \<Rightarrow> 's \<Rightarrow> ('a zend_llist \<times> 's) res" where
  "zend_llist_apply_with_del l func s = of_traversal (apply_del_loop func (ll_head l) l s)"

text \<open>\<open>dst\<close> and \<open>src\<close> have their own heaps; \<open>addrs\<close> are the addresses of the new nodes.\<close>

definition zend_llist_copy :: "'a zend_llist \<Rightarrow> 'a zend_llist \<Rightarrow> addr list \<Rightarrow> 'a zend_llist res" where
  "zend_llist_copy dst src addrs =
     rbind (of_traversal (llist_walk (ll_heap src) (ll_head src))) (\<lambda>ptrs.
       fold_res (\<lambda>(a, ptr) dst. rbind (node_at src ptr) (\<lambda>n. zend_llist_add_element dst a (nd_data n)))
         (zip addrs ptrs) (zend_llist_init (ll_dtor src) dst))"

definition zend_llist_count :: "'a zend_llist \<Rightarrow> nat" where
  "zend_llist_count l = ll_count l"

subsection \<open>Sorting\<close>

text \<open>The array of element pointers is sorted and the list is linked again in its order.\<close>

definition zend_llist_swap :: "addr swap_func" where
  "zend_llist_swap p q = (q, p)"

definition relink :: "addr \<times> addr \<Rightarrow> 'a zend_llist \<Rightarrow> 'a zend_llist res" where
  "relink = (\<lambda>(a, b) l. rbind (upd_node b (\<lambda>n. n\<lparr>nd_prev := Some a\<rparr>) l) (upd_node a (\<lambda>n. n\<lparr>nd_next := Some b\<rparr>)))"

definition zend_llist_sort :: "'a zend_llist \<Rightarrow> ('a \<Rightarrow> 'a \<Rightarrow> int) \<Rightarrow> 'a zend_llist res" where
  "zend_llist_sort l comp_func =
     (if ll_count l = 0 then Inr l
      else rbind (of_traversal (llist_walk (ll_heap l) (ll_head l))) (\<lambda>ptrs.
        (let data = (\<lambda>a. nd_data (the (ll_heap l a)));
             elements = zend_sort (\<lambda>a b. comp_func (data a) (data b)) zend_llist_swap 0 (ll_count l) ptrs
         in rbind (upd_node (hd elements) (\<lambda>n. n\<lparr>nd_prev := None\<rparr>) (l\<lparr>ll_head := Some (hd elements)\<rparr>)) (\<lambda>l.
              rbind (fold_res relink (zip elements (tl elements)) l) (\<lambda>l.
                rbind (upd_node (last elements) (\<lambda>n. n\<lparr>nd_next := None\<rparr>) l) (\<lambda>l.
                  Inr (l\<lparr>ll_tail := Some (last elements)\<rparr>)))))))"

subsection \<open>Positions\<close>

text \<open>\<open>pos\<close> is the position of the caller or, without one, the traversal pointer of the list.\<close>

definition data_at :: "'a zend_llist \<Rightarrow> addr option \<Rightarrow> 'a option res" where
  "data_at l p = (case p of None \<Rightarrow> Inr None | Some a \<Rightarrow> rbind (node_at l a) (\<lambda>n. Inr (Some (nd_data n))))"

definition set_pos :: "addr option \<Rightarrow> 'a zend_llist \<Rightarrow> addr option option \<Rightarrow> addr option option \<times> 'a zend_llist" where
  "set_pos p l pos = (case pos of Some _ \<Rightarrow> (Some p, l) | None \<Rightarrow> (None, l\<lparr>ll_traverse_ptr := p\<rparr>))"

definition cur_pos :: "'a zend_llist \<Rightarrow> addr option option \<Rightarrow> addr option" where
  "cur_pos l pos = (case pos of Some p \<Rightarrow> p | None \<Rightarrow> ll_traverse_ptr l)"

definition zend_llist_get_first_ex ::
    "'a zend_llist \<Rightarrow> addr option option \<Rightarrow> ('a option \<times> addr option option \<times> 'a zend_llist) res" where
  "zend_llist_get_first_ex l pos = rbind (data_at l (ll_head l)) (\<lambda>d. Inr (d, set_pos (ll_head l) l pos))"

definition zend_llist_get_last_ex ::
    "'a zend_llist \<Rightarrow> addr option option \<Rightarrow> ('a option \<times> addr option option \<times> 'a zend_llist) res" where
  "zend_llist_get_last_ex l pos = rbind (data_at l (ll_tail l)) (\<lambda>d. Inr (d, set_pos (ll_tail l) l pos))"

definition zend_llist_get_next_ex ::
    "'a zend_llist \<Rightarrow> addr option option \<Rightarrow> ('a option \<times> addr option option \<times> 'a zend_llist) res" where
  "zend_llist_get_next_ex l pos =
     (case cur_pos l pos of None \<Rightarrow> Inr (None, pos, l)
      | Some a \<Rightarrow> rbind (node_at l a) (\<lambda>n.
          rbind (data_at l (nd_next n)) (\<lambda>d. Inr (d, set_pos (nd_next n) l pos))))"

definition zend_llist_get_prev_ex ::
    "'a zend_llist \<Rightarrow> addr option option \<Rightarrow> ('a option \<times> addr option option \<times> 'a zend_llist) res" where
  "zend_llist_get_prev_ex l pos =
     (case cur_pos l pos of None \<Rightarrow> Inr (None, pos, l)
      | Some a \<Rightarrow> rbind (node_at l a) (\<lambda>n.
          rbind (data_at l (nd_prev n)) (\<lambda>d. Inr (d, set_pos (nd_prev n) l pos))))"

end
