(* ===== verification/Zend_Llist_Correct.thy ===== *)
theory Zend_Llist_Correct
  imports Zend_Llist Zend_Sort_Correct
begin

section \<open>A linked list stands for a list of addresses and their data\<close>

text \<open>
  A well-formed list is a doubly linked segment of the heap from head to tail; the operations are
  those of a sequence of data.
\<close>

subsection \<open>Segments\<close>

definition first :: "addr list \<Rightarrow> addr option \<Rightarrow> addr option" where
  "first as q = (case as of [] \<Rightarrow> q | a # _ \<Rightarrow> Some a)"

definition lastp :: "addr option \<Rightarrow> addr list \<Rightarrow> addr option" where
  "lastp p as = (if as = [] then p else Some (last as))"

lemma first_simps [simp]: "first [] q = q" "first (a # as) q = Some a" "first (as @ bs) q = first as (first bs q)"
  by (cases as; simp add: first_def)+

lemma lastp_simps [simp]: "lastp p [] = p" "lastp p (as @ [a]) = Some a" "lastp p (a # as) = lastp (Some a) as"
  "lastp p (as @ bs) = lastp (lastp p as) bs"
  by (simp_all add: lastp_def)

text \<open>The nodes \<open>as\<close> are linked one after the other, from \<open>p\<close> before to \<open>q\<close> after them.\<close>

fun seg :: "(addr \<Rightarrow> 'a node option) \<Rightarrow> addr option \<Rightarrow> addr list \<Rightarrow> addr option \<Rightarrow> bool" where
  "seg h p [] q = True"
| "seg h p (a # as) q = ((\<exists>d. h a = Some \<lparr>nd_next = first as q, nd_prev = p, nd_data = d\<rparr>) \<and> seg h (Some a) as q)"

lemma seg_append: "seg h p (as @ bs) q \<longleftrightarrow> seg h p as (first bs q) \<and> seg h (lastp p as) bs q"
  by (induction as arbitrary: p) auto

lemma seg_cong: "(\<And>a. a \<in> set as \<Longrightarrow> h a = h' a) \<Longrightarrow> seg h p as q = seg h' p as q"
  by (induction as arbitrary: p) auto

lemma seg_mem: "seg h p as q \<Longrightarrow> a \<in> set as \<Longrightarrow> \<exists>n. h a = Some n"
  by (induction as arbitrary: p) auto

definition data_of :: "(addr \<Rightarrow> 'a node option) \<Rightarrow> addr \<Rightarrow> 'a" where
  "data_of h a = nd_data (the (h a))"

definition ll_wf :: "'a zend_llist \<Rightarrow> addr list \<Rightarrow> bool" where
  "ll_wf l as = (distinct as \<and> seg (ll_heap l) None as None \<and> ll_head l = first as None \<and>
     ll_tail l = lastp None as \<and> ll_count l = length as)"

definition ll_data :: "'a zend_llist \<Rightarrow> addr list \<Rightarrow> 'a list" where
  "ll_data l as = map (data_of (ll_heap l)) as"

lemma ll_data_cong: "(\<And>a. a \<in> set as \<Longrightarrow> data_of (ll_heap l) a = data_of (ll_heap l') a) \<Longrightarrow> ll_data l as = ll_data l' as"
  by (simp add: ll_data_def)

lemma upd_node_simps [simp]:
  "ll_heap l a = Some n \<Longrightarrow> upd_node a f l = Inr (put_node a (f n) l)"
  by (simp add: upd_node_def node_at_def put_node_def)

lemma put_node_simps [simp]:
  "ll_heap (put_node a n l) = (ll_heap l)(a \<mapsto> n)" "ll_head (put_node a n l) = ll_head l"
  "ll_tail (put_node a n l) = ll_tail l" "ll_count (put_node a n l) = ll_count l"
  "ll_dtor (put_node a n l) = ll_dtor l" "ll_log (put_node a n l) = ll_log l"
  by (simp_all add: put_node_def)

lemma call_ll_dtor_simps [simp]:
  "ll_heap (call_ll_dtor x l) = ll_heap l" "ll_head (call_ll_dtor x l) = ll_head l"
  "ll_tail (call_ll_dtor x l) = ll_tail l" "ll_count (call_ll_dtor x l) = ll_count l"
  "ll_dtor (call_ll_dtor x l) = ll_dtor l"
  "ll_log (call_ll_dtor x l) = ll_log l @ (if ll_dtor l then [Dtor_data x] else [])"
  by (simp_all add: call_ll_dtor_def)

lemma free_node_simps [simp]:
  "ll_heap (free_node a l) = (ll_heap l)(a := None)" "ll_head (free_node a l) = ll_head l"
  "ll_tail (free_node a l) = ll_tail l" "ll_count (free_node a l) = ll_count l"
  "ll_dtor (free_node a l) = ll_dtor l" "ll_log (free_node a l) = ll_log l @ [Free_node a]"
  by (simp_all add: free_node_def)

subsection \<open>Adding\<close>

lemma add_element_ok:
  assumes wf: "ll_wf l as" and fresh: "ll_heap l tmp = None"
  shows "\<exists>l'. zend_llist_add_element l tmp x = Inr l' \<and> ll_wf l' (as @ [tmp]) \<and>
    ll_data l' (as @ [tmp]) = ll_data l as @ [x] \<and> ll_dtor l' = ll_dtor l \<and> ll_log l' = ll_log l"
proof (cases as rule: rev_cases)
  case Nil
  then show ?thesis using wf
    by (simp add: zend_llist_add_element_def ll_wf_def ll_data_def data_of_def)
next
  case (snoc bs t)
  have sg: "seg (ll_heap l) None bs (Some t)" "seg (ll_heap l) (lastp None bs) [t] None"
    "distinct bs" "t \<notin> set bs" "ll_tail l = Some t"
    using wf by (auto simp: ll_wf_def snoc seg_append)
  then obtain d where d: "ll_heap l t = Some \<lparr>nd_next = None, nd_prev = lastp None bs, nd_data = d\<rparr>" by auto
  have ne: "t \<noteq> tmp" "tmp \<notin> set bs" using d fresh seg_mem [OF sg(1)] by fastforce+
  let ?l1 = "put_node tmp \<lparr>nd_next = None, nd_prev = Some t, nd_data = x\<rparr> l"
  let ?l2 = "put_node t \<lparr>nd_next = Some tmp, nd_prev = lastp None bs, nd_data = d\<rparr> ?l1"
  have add: "zend_llist_add_element l tmp x = Inr (?l2\<lparr>ll_tail := Some tmp, ll_count := ll_count l + 1\<rparr>)"
    using sg(5) d ne by (simp add: zend_llist_add_element_def)
  have "seg (ll_heap ?l2) None bs (Some t)"
    using sg(1) seg_cong [of bs "ll_heap ?l2" "ll_heap l"] sg(4) ne by fastforce
  moreover have "map (data_of (ll_heap ?l2)) bs = map (data_of (ll_heap l)) bs"
    using sg(4) ne by (auto simp: data_of_def)
  ultimately show ?thesis using add wf sg ne d
    by (simp add: ll_wf_def snoc seg_append ll_data_def data_of_def)
qed

subsection \<open>Deleting\<close>

lemma del_ok:
  assumes wf: "ll_wf l (as @ a # bs)"
  shows "\<exists>l'. DEL_LLIST_ELEMENT a l = Inr l' \<and> ll_wf l' (as @ bs) \<and> ll_data l' (as @ bs) = ll_data l (as @ bs) \<and>
    ll_dtor l' = ll_dtor l \<and> ll_heap l' a = None \<and>
    ll_log l' = ll_log l @ (if ll_dtor l then [Dtor_data (data_of (ll_heap l) a)] else []) @ [Free_node a]"
proof -
  let ?h = "ll_heap l" and ?p = "lastp None as" and ?q = "first bs None"
  obtain d where d: "?h a = Some \<lparr>nd_next = ?q, nd_prev = ?p, nd_data = d\<rparr>"
    using wf by (auto simp: ll_wf_def seg_append)
  have sg: "seg ?h None as (Some a)" "seg ?h (Some a) bs None" "distinct as" "distinct bs" "set as \<inter> set bs = {}"
    "a \<notin> set as" "a \<notin> set bs"
    using wf by (auto simp: ll_wf_def seg_append)
  let ?n = "\<lparr>nd_next = ?q, nd_prev = ?p, nd_data = d\<rparr>"
  obtain l1 where l1: "unlink_next ?n l = Inr l1" "seg (ll_heap l1) None as ?q" "ll_head l1 = first as ?q"
    "\<And>x. x \<notin> set as \<Longrightarrow> ll_heap l1 x = ?h x" "\<And>x. data_of (ll_heap l1) x = data_of ?h x"
    "ll_tail l1 = ll_tail l" "ll_count l1 = ll_count l" "ll_dtor l1 = ll_dtor l" "ll_log l1 = ll_log l"
  proof (cases as rule: rev_cases)
    case Nil
    then show thesis by (intro that [of "l\<lparr>ll_head := ?q\<rparr>"]) (auto simp: unlink_next_def)
  next
    case (snoc cs c)
    from sg(1) obtain dc where c: "?h c = Some \<lparr>nd_next = Some a, nd_prev = lastp None cs, nd_data = dc\<rparr>"
      "seg ?h None cs (Some c)" by (auto simp: snoc seg_append)
    let ?l = "put_node c \<lparr>nd_next = ?q, nd_prev = lastp None cs, nd_data = dc\<rparr> l"
    have "seg (ll_heap ?l) None cs (Some c)"
      using c(2) seg_cong [of cs "ll_heap ?l" ?h] sg(3) snoc by fastforce
    moreover have "ll_head l = first cs (Some c)" using wf by (simp add: ll_wf_def snoc)
    ultimately show thesis using c(1)
      by (intro that [of ?l]) (auto simp: unlink_next_def snoc seg_append data_of_def)
  qed
  have ln: "seg (ll_heap l1) (Some a) bs None"
    using sg(2) seg_cong [of bs "ll_heap l1" ?h] l1(4) sg(5) by fastforce
  obtain l2 where l2: "unlink_prev ?n l1 = Inr l2" "seg (ll_heap l2) None as ?q" "seg (ll_heap l2) ?p bs None"
    "ll_tail l2 = lastp ?p bs" "\<And>x. data_of (ll_heap l2) x = data_of ?h x"
    "ll_head l2 = first as ?q" "ll_count l2 = ll_count l" "ll_dtor l2 = ll_dtor l" "ll_log l2 = ll_log l"
  proof (cases bs)
    case Nil
    then show thesis using l1 by (intro that [of "l1\<lparr>ll_tail := ?p\<rparr>"]) (auto simp: unlink_prev_def)
  next
    case (Cons c cs)
    from ln obtain dc where c: "ll_heap l1 c = Some \<lparr>nd_next = first cs None, nd_prev = Some a, nd_data = dc\<rparr>"
      "seg (ll_heap l1) (Some c) cs None" by (auto simp: Cons)
    let ?l = "put_node c \<lparr>nd_next = first cs None, nd_prev = ?p, nd_data = dc\<rparr> l1"
    have "seg (ll_heap ?l) (Some c) cs None"
      using c(2) seg_cong [of cs "ll_heap ?l" "ll_heap l1"] sg(4) Cons by fastforce
    moreover have "seg (ll_heap ?l) None as (Some c)"
      using l1(2) seg_cong [of as "ll_heap ?l" "ll_heap l1"] sg(5) Cons by fastforce
    moreover have "data_of (ll_heap ?l) x = data_of ?h x" for x
      using l1(5) [of x] c(1) by (cases "x = c") (simp_all add: data_of_def)
    moreover have "ll_tail l = lastp (Some c) cs" using wf by (simp add: ll_wf_def Cons)
    ultimately show thesis using c(1) l1 
      by (intro that [of ?l]) (auto simp: unlink_prev_def Cons)
  qed
  have eq: "DEL_LLIST_ELEMENT a l = Inr ((free_node a (call_ll_dtor d l2))\<lparr>ll_count := ll_count l - 1\<rparr>)"
    using d l1(1) l2(1,7) by (simp add: DEL_LLIST_ELEMENT_def node_at_def Let_def)
  let ?h3 = "(ll_heap l2)(a := None)"
  have "seg ?h3 None as ?q" "seg ?h3 ?p bs None"
    using l2(2,3) seg_cong [of as ?h3 "ll_heap l2"] seg_cong [of bs ?h3 "ll_heap l2"] sg(6,7) by fastforce+
  moreover have "map (data_of ?h3) (as @ bs) = map (data_of ?h) (as @ bs)"
  proof (rule map_cong [OF refl])
    fix x assume "x \<in> set (as @ bs)"
    then have "x \<noteq> a" using sg(6,7) by auto
    then show "data_of ?h3 x = data_of ?h x" using l2(5) [of x] by (simp add: data_of_def)
  qed
  moreover have "data_of ?h a = d" using d by (simp add: data_of_def)
  ultimately show ?thesis using eq l2 sg wf
    by (auto simp: ll_wf_def seg_append ll_data_def)
qed


lemma find_seg:
  "seg h p as None \<Longrightarrow> llist_find h P (first as None) = Some (find (\<lambda>a. P (data_of h a)) as)"
proof (induction as arbitrary: p)
  case Nil
  show ?case by (subst llist_find.simps) simp
next
  case (Cons a as)
  then show ?case by (subst llist_find.simps) (auto simp: data_of_def)
qed

lemma walk_seg: "seg h p as None \<Longrightarrow> llist_walk h (first as None) = Some as"
proof (induction as arbitrary: p)
  case Nil
  show ?case by (subst llist_walk.simps) simp
next
  case (Cons a as)
  then show ?case by (subst llist_walk.simps) auto
qed

lemma find_split: "find P as = Some a \<Longrightarrow> \<exists>bs cs. as = bs @ a # cs \<and> P a \<and> (\<forall>b \<in> set bs. \<not> P b)"
proof (induction as)
  case (Cons b as)
  show ?case
  proof (cases "P b")
    case True
    with Cons.prems show ?thesis by (intro exI [of _ "[]"] exI [of _ as]) simp
  next
    case False
    with Cons obtain bs cs where "as = bs @ a # cs" "P a" "\<forall>b \<in> set bs. \<not> P b" by auto
    with False show ?thesis by (intro exI [of _ "b # bs"] exI [of _ cs]) auto
  qed
qed simp

text \<open>Deleting removes the first element the comparison accepts.\<close>

fun remove_first :: "('a \<Rightarrow> bool) \<Rightarrow> 'a list \<Rightarrow> 'a list" where
  "remove_first P [] = []"
| "remove_first P (x # xs) = (if P x then xs else x # remove_first P xs)"

lemma remove_first_split: "\<forall>b \<in> set bs. \<not> P b \<Longrightarrow> P a \<Longrightarrow> remove_first P (bs @ a # cs) = bs @ cs"
  by (induction bs) auto

lemma remove_first_id: "\<forall>b \<in> set bs. \<not> P b \<Longrightarrow> remove_first P bs = bs"
  by (induction bs) auto

lemma del_element_ok:
  assumes wf: "ll_wf l as"
  shows "\<exists>l' as'. zend_llist_del_element l e compare = Inr l' \<and> ll_wf l' as' \<and>
    ll_data l' as' = remove_first (\<lambda>x. compare x e) (ll_data l as) \<and>
    ll_log l' = ll_log l @ (case find (\<lambda>a. compare (data_of (ll_heap l) a) e) as of None \<Rightarrow> []
      | Some a \<Rightarrow> (if ll_dtor l then [Dtor_data (data_of (ll_heap l) a)] else []) @ [Free_node a])"
proof -
  let ?P = "\<lambda>a. compare (data_of (ll_heap l) a) e"
  have f: "llist_find (ll_heap l) (\<lambda>x. compare x e) (ll_head l) = Some (find ?P as)"
    using wf find_seg [of "ll_heap l" None as "\<lambda>x. compare x e"] by (simp add: ll_wf_def)
  show ?thesis
  proof (cases "find ?P as")
    case None
    then have "\<forall>x \<in> set (ll_data l as). \<not> compare x e" by (auto simp: find_None_iff ll_data_def)
    then have "remove_first (\<lambda>x. compare x e) (ll_data l as) = ll_data l as" by (rule remove_first_id)
    with None f wf show ?thesis
      by (intro exI [of _ l] exI [of _ as]) (simp add: zend_llist_del_element_def of_traversal_def)
  next
    case (Some a)
    then obtain bs cs where as: "as = bs @ a # cs" "?P a" "\<forall>b \<in> set bs. \<not> ?P b" using find_split by metis
    from del_ok [OF wf [unfolded as(1)]] obtain l' where l': "DEL_LLIST_ELEMENT a l = Inr l'" "ll_wf l' (bs @ cs)"
      "ll_data l' (bs @ cs) = ll_data l (bs @ cs)"
      "ll_log l' = ll_log l @ (if ll_dtor l then [Dtor_data (data_of (ll_heap l) a)] else []) @ [Free_node a]" by blast
    have "remove_first (\<lambda>x. compare x e) (ll_data l as) = ll_data l (bs @ cs)"
      using as remove_first_split [of "ll_data l bs" "\<lambda>x. compare x e" "data_of (ll_heap l) a" "ll_data l cs"]
      by (simp add: ll_data_def)
    with l' f Some show ?thesis
      by (intro exI [of _ l'] exI [of _ "bs @ cs"]) (simp add: zend_llist_del_element_def of_traversal_def)
  qed
qed

subsection \<open>Destroying\<close>

text \<open>Each node is destroyed and freed once, in order.\<close>

definition destroyed :: "bool \<Rightarrow> (addr \<Rightarrow> 'a node option) \<Rightarrow> addr list \<Rightarrow> 'a llist_effect list" where
  "destroyed dtor h as = concat (map (\<lambda>a. (if dtor then [Dtor_data (data_of h a)] else []) @ [Free_node a]) as)"

lemma destroyed_Cons: "destroyed dtor h (a # as) = (if dtor then [Dtor_data (data_of h a)] else []) @ Free_node a # destroyed dtor h as"
  by (simp add: destroyed_def)

lemma destroyed_cong: "(\<And>a. a \<in> set as \<Longrightarrow> data_of h a = data_of h' a) \<Longrightarrow> destroyed dtor h as = destroyed dtor h' as"
  unfolding destroyed_def by (intro arg_cong [where f = concat] map_cong refl) simp

lemma destroy_loop_ok:
  assumes "seg (ll_heap l) p as None" "distinct as"
  shows "\<exists>l'. destroy_loop (first as None) l = Some l' \<and> ll_heap l' = (ll_heap l) |` (- set as) \<and>
    ll_log l' = ll_log l @ destroyed (ll_dtor l) (ll_heap l) as"
  using assms
proof (induction as arbitrary: l p)
  case Nil
  show ?case by (subst destroy_loop.simps) (simp add: restrict_map_def destroyed_def)
next
  case (Cons a as)
  then obtain d where d: "ll_heap l a = Some \<lparr>nd_next = first as None, nd_prev = p, nd_data = d\<rparr>" by auto
  let ?l = "free_node a (call_ll_dtor d l)"
  have "seg (ll_heap ?l) (Some a) as None"
    using Cons.prems seg_cong [of as "ll_heap ?l" "ll_heap l"] by fastforce
  moreover have "distinct as" using Cons.prems(2) by simp
  ultimately obtain l' where l': "destroy_loop (first as None) ?l = Some l'"
    "ll_heap l' = (ll_heap ?l) |` (- set as)"
    "ll_log l' = ll_log ?l @ destroyed (ll_dtor ?l) (ll_heap ?l) as"
    using Cons.IH [of ?l "Some a"] by blast
  have "destroyed (ll_dtor l) (ll_heap ?l) as = destroyed (ll_dtor l) (ll_heap l) as"
    by (rule destroyed_cong) (use Cons.prems(2) in \<open>auto simp: data_of_def\<close>)
  moreover have "(ll_heap ?l) |` (- set as) = (ll_heap l) |` (- set (a # as))"
    by (rule ext) (simp add: restrict_map_def)
  moreover have "destroy_loop (first (a # as) None) l = destroy_loop (first as None) ?l"
    by (subst destroy_loop.simps) (simp add: d)
  moreover have "data_of (ll_heap l) a = d" using d by (simp add: data_of_def)
  ultimately show ?case using l' by (intro exI [of _ l']) (simp add: destroyed_Cons)
qed

lemma clean_ok:
  assumes wf: "ll_wf l as"
  shows "\<exists>l'. zend_llist_clean l = Inr l' \<and> ll_wf l' [] \<and> ll_heap l' = (ll_heap l) |` (- set as) \<and>
    ll_log l' = ll_log l @ destroyed (ll_dtor l) (ll_heap l) as"
  using destroy_loop_ok [of l None as] wf
  by (auto simp: zend_llist_clean_def zend_llist_destroy_def of_traversal_def ll_wf_def)

subsection \<open>Sorting\<close>

text \<open>
  \<open>es\<close> is linked up to the successor of its last node; everything but links inside \<open>es\<close> is
  as before.
\<close>

definition relinked :: "addr option \<Rightarrow> addr list \<Rightarrow> 'a zend_llist \<Rightarrow> 'a zend_llist \<Rightarrow> bool" where
  "relinked p es l l' = ((\<forall>x. data_of (ll_heap l') x = data_of (ll_heap l) x) \<and>
     (\<forall>x. x \<notin> set es \<longrightarrow> ll_heap l' x = ll_heap l x) \<and>
     (\<exists>m. ll_heap l' (last es) = Some m \<and> (\<forall>q. seg ((ll_heap l')(last es \<mapsto> m\<lparr>nd_next := q\<rparr>)) p es q)) \<and>
     ll_head l' = ll_head l \<and> ll_tail l' = ll_tail l \<and> ll_count l' = ll_count l \<and>
     (ll_dtor l' \<longleftrightarrow> ll_dtor l) \<and> ll_log l' = ll_log l)"

lemma relink_ok:
  assumes "\<forall>x \<in> set (a # es). ll_heap l x \<noteq> None" "distinct (a # es)" "ll_heap l a = Some n" "nd_prev n = p"
  shows "\<exists>l'. fold_res relink (zip (a # es) es) l = Inr l' \<and> relinked p (a # es) l l'"
  using assms
proof (induction es arbitrary: a l n p)
  case Nil
  then show ?case by (cases n) (auto simp: relinked_def)
next
  case (Cons b es)
  obtain m where m: "ll_heap l b = Some m" using Cons.prems(1) by auto
  have ab: "a \<noteq> b" "a \<notin> set es" using Cons.prems(2) by auto
  let ?l = "put_node a (n\<lparr>nd_next := Some b\<rparr>) (put_node b (m\<lparr>nd_prev := Some a\<rparr>) l)"
  have r: "relink (a, b) l = Inr ?l" using m ab Cons.prems(3) by (simp add: relink_def)
  have "\<forall>x \<in> set (b # es). ll_heap ?l x \<noteq> None" using Cons.prems(1) by auto
  moreover have "distinct (b # es)" "ll_heap ?l b = Some (m\<lparr>nd_prev := Some a\<rparr>)" using Cons.prems(2) ab by auto
  ultimately obtain l' where l': "fold_res relink (zip (b # es) es) ?l = Inr l'" "relinked (Some a) (b # es) ?l l'"
    using Cons.IH [of b ?l "m\<lparr>nd_prev := Some a\<rparr>" "Some a"] by auto
  obtain m' where m': "ll_heap l' (last (b # es)) = Some m'"
    "\<And>q. seg ((ll_heap l')(last (b # es) \<mapsto> m'\<lparr>nd_next := q\<rparr>)) (Some a) (b # es) q"
    using l'(2) unfolding relinked_def by blast
  have la: "last (b # es) \<noteq> a" using ab last_in_set [of "b # es"] by (metis list.set_intros(1) list.simps(3) set_ConsD)
  have "ll_heap l' a = Some (n\<lparr>nd_next := Some b\<rparr>)" using l'(2) ab by (simp add: relinked_def)
  then have sg: "seg ((ll_heap l')(last (b # es) \<mapsto> m'\<lparr>nd_next := q\<rparr>)) p (a # b # es) q" for q
    using m'(2) [of q] la Cons.prems(4) by (cases n) (simp del: last.simps)
  have dt: "data_of (ll_heap l') x = data_of (ll_heap l) x" for x
    using l'(2) m Cons.prems(3) unfolding relinked_def by (auto simp: data_of_def split: if_splits)
  have "relinked p (a # b # es) l l'"
    using l'(2) sg dt m'(1) by (auto simp: relinked_def)
  with r l'(1) show ?case by (intro exI [of _ l']) simp
qed


lemma llist_sorter:
  assumes "\<And>x y. (cf x y > 0) = gt x y" "\<And>x y. gt x y \<Longrightarrow> \<not> gt y x" "\<And>x y z. \<not> gt x y \<Longrightarrow> \<not> gt y z \<Longrightarrow> \<not> gt x z"
  shows "sorter (\<lambda>a b. cf (f a) (f b)) zend_llist_swap (\<lambda>a. a) (\<lambda>a b. gt (f a) (f b))"
proof (unfold_locales)
  show "(cf (f x) (f y) > 0) = gt (f x) (f y)" for x y by (rule assms(1))
  show "gt (f a) (f b) \<Longrightarrow> \<not> gt (f b) (f a)" for a b by (rule assms(2))
  show "\<not> gt (f a) (f b) \<Longrightarrow> \<not> gt (f b) (f c) \<Longrightarrow> \<not> gt (f a) (f c)" for a b c by (rule assms(3))
qed (simp_all add: zend_llist_swap_def)

lemma sort_ptrs_ok:
  assumes s: "sorter cmp sw (\<lambda>a. a) gt"
  shows "mset (zend_sort cmp sw 0 (length as) as) = mset as"
    "sorted_wrt (\<lambda>a b. \<not> gt a b) (zend_sort cmp sw 0 (length as) as)"
proof -
  let ?es = "zend_sort cmp sw 0 (length as) as"
  have so: "sorter.sorts (\<lambda>a. a) gt 0 (0 + length as) as ?es" by (rule sorter.zend_sort_ok [OF s]) simp
  then have r: "rearranged (\<lambda>a. a) {0..<length as} as ?es" by (simp add: sorter.sorts_def [OF s])
  then show "mset ?es = mset as" by (simp add: rearranged_def)
  have "\<not> gt (?es ! i) (?es ! j)" if "i < j" "j < length as" for i j
    using so that by (simp add: sorter.sorts_def [OF s] sorter.sorted_in_def [OF s] sorter.le_def [OF s] sorter.at_def [OF s])
  then show "sorted_wrt (\<lambda>a b. \<not> gt a b) ?es"
    using rearranged_length [OF r] by (simp add: sorted_wrt_iff_nth_less)
qed

lemma llist_sort_ok:
  assumes wf: "ll_wf l as"
    and c: "\<And>x y. (cf x y > 0) = gt x y" "\<And>x y. gt x y \<Longrightarrow> \<not> gt y x" "\<And>x y z. \<not> gt x y \<Longrightarrow> \<not> gt y z \<Longrightarrow> \<not> gt x z"
  shows "\<exists>l' es. zend_llist_sort l cf = Inr l' \<and> ll_wf l' es \<and> mset es = mset as \<and>
    mset (ll_data l' es) = mset (ll_data l as) \<and> sorted_wrt (\<lambda>x y. \<not> gt x y) (ll_data l' es) \<and> ll_log l' = ll_log l"
proof (cases "as = []")
  case True
  with wf show ?thesis
    by (intro exI [of _ l] exI [of _ "[]"]) (simp add: zend_llist_sort_def ll_wf_def ll_data_def)
next
  case False
  let ?h = "ll_heap l" and ?f = "data_of (ll_heap l)"
  have w: "llist_walk ?h (ll_head l) = Some as" "length as = ll_count l" "distinct as"
    using wf walk_seg [of ?h None as] by (simp_all add: ll_wf_def)
  define es where "es = zend_sort (\<lambda>a b. cf (?f a) (?f b)) zend_llist_swap 0 (ll_count l) as"
  have srt: "sorter (\<lambda>a b. cf (?f a) (?f b)) zend_llist_swap (\<lambda>a. a) (\<lambda>a b. gt (?f a) (?f b))"
    by (rule llist_sorter) (fact c)+
  have so: "mset es = mset as" "sorted_wrt (\<lambda>a b. \<not> gt (?f a) (?f b)) es"
    using sort_ptrs_ok [OF srt, where as = as] w(2) by (simp_all add: es_def)
  have es: "set es = set as" "distinct es" "length es = length as"
    using mset_eq_setD [OF so(1)] mset_eq_imp_distinct_iff [OF so(1)] mset_eq_length [OF so(1)] w(3) by auto
  then obtain a bs where ab: "es = a # bs" using False by (cases es) auto
  have mem: "\<forall>x \<in> set es. ?h x \<noteq> None" using wf seg_mem es(1) by (fastforce simp: ll_wf_def)
  then obtain n where n: "?h a = Some n" using ab by auto
  let ?l1 = "put_node a (n\<lparr>nd_prev := None\<rparr>) (l\<lparr>ll_head := Some a\<rparr>)"
  have "\<forall>x \<in> set (a # bs). ll_heap ?l1 x \<noteq> None" using mem ab by auto
  moreover have "distinct (a # bs)" "ll_heap ?l1 a = Some (n\<lparr>nd_prev := None\<rparr>)" using es(2) ab by auto
  ultimately obtain l2 where l2: "fold_res relink (zip es bs) ?l1 = Inr l2" "relinked None es ?l1 l2"
    using relink_ok [of a bs ?l1 "n\<lparr>nd_prev := None\<rparr>" None] ab by auto
  then obtain m where m: "ll_heap l2 (last es) = Some m" "\<And>q. seg ((ll_heap l2)(last es \<mapsto> m\<lparr>nd_next := q\<rparr>)) None es q"
    unfolding relinked_def by blast
  define l3 where "l3 = (put_node (last es) (m\<lparr>nd_next := None\<rparr>) l2)\<lparr>ll_tail := Some (last es)\<rparr>"
  have eq: "zend_llist_sort l cf = Inr l3"
  proof -
    have cnt: "ll_count l \<noteq> 0" using False by (simp flip: w(2))
    have ord: "zend_sort (\<lambda>a b. cf (nd_data (the (ll_heap l a))) (nd_data (the (ll_heap l b)))) zend_llist_swap 0 (ll_count l) as = a # bs"
      using ab by (simp add: es_def data_of_def)
    from cnt l2(1) n m(1) w(1) show ?thesis
      by (simp add: zend_llist_sort_def of_traversal_def Let_def ord l3_def ab)
  qed
  have dt: "data_of (ll_heap l3) x = ?f x" for x
    using l2(2) m(1) n unfolding relinked_def l3_def by (auto simp: data_of_def split: if_splits)
  have wf3: "ll_wf l3 es"
    using es(2,3) m(2) [of None] l2(2) ab w(2) by (simp add: ll_wf_def l3_def relinked_def first_def lastp_def)
  have ld: "ll_data l3 es = map ?f es" by (simp add: ll_data_def dt)
  have "mset (ll_data l3 es) = mset (ll_data l as)" using so(1) by (simp add: ld ll_data_def [of l])
  moreover have "sorted_wrt (\<lambda>x y. \<not> gt x y) (ll_data l3 es)" using so(2) by (simp add: ld sorted_wrt_map)
  moreover have "ll_log l3 = ll_log l" using l2(2) by (simp add: l3_def relinked_def)
  ultimately show ?thesis using eq so(1) wf3
    by (intro exI [of _ l3] exI [of _ es]) simp
qed

end
