(* ===== verification/Zend_Container_Properties.thy ===== *)
theory Zend_Container_Properties
  imports Zend_Stack Zend_Llist_Correct
begin

section \<open>The properties of stacks and linked lists\<close>

text \<open>
  The properties of the stacks and the linked list.
\<close>

subsection \<open>Stacks\<close>

text \<open>
  C29. Whatever is pushed on a \<open>zend_ptr_stack\<close> with one \<open>n_push\<close> comes back, last first, from one
  \<open>n_pop\<close>, and what was on the stack before is there again; growing by blocks of 64 never moves
  or loses an element.  \<open>top\<close> and \<open>max\<close> are \<open>int\<close>: the bound on the number of elements is
  the one below which neither of them overflows, whatever \<open>max\<close> is when the array grows.
\<close>

theorem zend_ptr_stack_correct:
  assumes "ptr_stack_ok s" "int (length (ptr_stack_list s) + length xs) \<le> 2 ^ 31 - 64"
  shows "\<exists>s1 s2. zend_ptr_stack_n_push junk s xs = Inr s1 \<and> ptr_stack_ok s1 \<and>
    ptr_stack_list s1 = rev xs @ ptr_stack_list s \<and>
    zend_ptr_stack_n_pop (length xs) s1 = Inr (rev xs, s2) \<and> ptr_stack_ok s2 \<and> ptr_stack_list s2 = ptr_stack_list s"
proof -
  have r: "int (length (ptr_stack_list s) + length xs) + PTR_STACK_BLOCK_SIZE \<le> INT_MAX + 1"
    using assms(2) by (simp add: INT_MAX_def PTR_STACK_BLOCK_SIZE_def)
  from ptr_push_pop [OF assms(1) r, of junk] ptr_n_push_ok [OF assms(1) r, of junk] show ?thesis by fastforce
qed

theorem zend_ptr_stack_correct_witness:
  "\<exists>s1 s2. zend_ptr_stack_n_push 0 zend_ptr_stack_init [3::nat, 4] = Inr s1 \<and> ptr_stack_list s1 = [4, 3] \<and>
    zend_ptr_stack_n_pop 2 s1 = Inr ([4, 3], s2) \<and> ptr_stack_list s2 = []"
proof -
  have "ptr_stack_ok (zend_ptr_stack_init :: nat zend_ptr_stack)"
    "int (length (ptr_stack_list (zend_ptr_stack_init :: nat zend_ptr_stack)) + length [3::nat, 4]) \<le> 2 ^ 31 - 64"
    by (simp_all add: ptr_stack_ok_def zend_ptr_stack_init_def ptr_stack_list_def)
  from zend_ptr_stack_correct [OF this, of 0] show ?thesis
    by (auto simp: ptr_stack_list_def zend_ptr_stack_init_def numeral_2_eq_2)
qed

text \<open>
  C30. A \<open>zend_stack\<close> that holds elements and is destroyed keeps its old \<open>top\<close> and \<open>max\<close>: unless
  it was full, the next push writes through a null pointer.  Emptying it with \<open>zend_stack_clean\<close>
  and \<open>free_elements\<close> instead leaves a stack that takes any element.
\<close>

theorem zend_stack_push_after_destroy:
  assumes "zend_stack_ok s"
  shows "(stk_top s < stk_max s \<longrightarrow> zend_stack_push junk (zend_stack_destroy s) x = Inl UB) \<and>
    (\<exists>s1 i s2. zend_stack_clean s None True st = Inr (s1, st) \<and> zend_stack_push junk s1 x = Inr (i, s2) \<and>
       zend_stack_ok s2 \<and> zend_stack_list s2 = [x])"
proof
  show "stk_top s < stk_max s \<longrightarrow> zend_stack_push junk (zend_stack_destroy s) x = Inl UB"
    by (simp add: zend_stack_push_def zend_stack_destroy_def array_set_def)
  let ?s1 = "s\<lparr>stk_elements := None, stk_top := 0, stk_max := 0\<rparr>"
  have c: "zend_stack_clean s None True st = Inr (?s1, st)" by (simp add: zend_stack_clean_def Let_def)
  have "zend_stack_ok ?s1" "zend_stack_list ?s1 = []" by (simp_all add: zend_stack_ok_def zend_stack_list_def)
  moreover have "0 < nat (INT_MAX - STACK_BLOCK_SIZE)" by (simp add: INT_MAX_def STACK_BLOCK_SIZE_def)
  ultimately show "\<exists>s1 i s2. zend_stack_clean s None True st = Inr (s1, st) \<and> zend_stack_push junk s1 x = Inr (i, s2) \<and>
       zend_stack_ok s2 \<and> zend_stack_list s2 = [x]"
    using zend_stack_push_ok [of ?s1 junk x] c by (auto simp: rbind_def split: sum.splits)
qed

theorem zend_stack_push_after_destroy_witness:
  "zend_stack_push 0 (zend_stack_destroy \<lparr>stk_top = 1, stk_max = 16, stk_elements = Some (replicate 16 (5::nat))\<rparr>) 7 = Inl UB"
proof -
  have "zend_stack_ok \<lparr>stk_top = 1, stk_max = 16, stk_elements = Some (replicate 16 (5::nat))\<rparr>"
    by (simp add: zend_stack_ok_def)
  from conjunct1 [OF zend_stack_push_after_destroy [OF this]] show ?thesis by simp
qed

subsection \<open>Linked lists\<close>

text \<open>
  C31. \<open>zend_llist_del_element\<close> terminates, removes the first element the comparison accepts and keeps
  both directions of the links, head, tail and count right; the element is destroyed and its node
  freed exactly once, and nothing happens when there is no such element.
\<close>

theorem zend_llist_del_element_correct:
  assumes "ll_wf l as"
  shows "\<exists>l' as'. zend_llist_del_element l e compare = Inr l' \<and> ll_wf l' as' \<and>
    ll_data l' as' = remove_first (\<lambda>x. compare x e) (ll_data l as) \<and>
    ll_log l' = ll_log l @ (case find (\<lambda>a. compare (data_of (ll_heap l) a) e) as of None \<Rightarrow> []
      | Some a \<Rightarrow> (if ll_dtor l then [Dtor_data (data_of (ll_heap l) a)] else []) @ [Free_node a])"
  by (rule del_element_ok [OF assms])

definition demo_list :: "nat zend_llist" where
  "demo_list = \<lparr>ll_heap = [1 \<mapsto> \<lparr>nd_next = Some 2, nd_prev = None, nd_data = 8\<rparr>,
       2 \<mapsto> \<lparr>nd_next = None, nd_prev = Some 1, nd_data = 5\<rparr>],
     ll_head = Some 1, ll_tail = Some 2, ll_count = 2, ll_dtor = True, ll_traverse_ptr = None, ll_log = []\<rparr>"

lemma demo_list_ok: "ll_wf demo_list [1, 2]" "ll_data demo_list [1, 2] = [8, 5]"
  by (simp_all add: demo_list_def ll_wf_def ll_data_def data_of_def)

theorem zend_llist_del_element_correct_witness:
  "\<exists>l' as'. zend_llist_del_element demo_list 5 (=) = Inr l' \<and> ll_wf l' as' \<and> ll_data l' as' = [8] \<and>
    ll_log l' = [Dtor_data 5, Free_node 2]"
proof -
  have d: "data_of (ll_heap demo_list) 1 = 8" "data_of (ll_heap demo_list) 2 = 5" "ll_dtor demo_list" "ll_log demo_list = []"
    by (simp_all add: demo_list_def data_of_def)
  show ?thesis
    using zend_llist_del_element_correct [OF demo_list_ok(1), of 5 "(=)", unfolded demo_list_ok(2)]
    by (simp add: d del: One_nat_def)
qed

text \<open>
  C32. \<open>zend_llist_sort\<close> sorts the nodes with the hybrid sort and relinks them: the list keeps its
  elements, they are in order, and every link, the head and the tail fit; no node is allocated,
  destroyed or freed.
\<close>

theorem zend_llist_sort_correct:
  assumes "ll_wf l as" "\<And>x y. (cf x y > 0) = gt x y" "\<And>x y. gt x y \<Longrightarrow> \<not> gt y x"
    "\<And>x y z. \<not> gt x y \<Longrightarrow> \<not> gt y z \<Longrightarrow> \<not> gt x z"
  shows "\<exists>l' es. zend_llist_sort l cf = Inr l' \<and> ll_wf l' es \<and> mset es = mset as \<and>
    mset (ll_data l' es) = mset (ll_data l as) \<and> sorted_wrt (\<lambda>x y. \<not> gt x y) (ll_data l' es) \<and> ll_log l' = ll_log l"
  by (rule llist_sort_ok) (fact assms)+

theorem zend_llist_sort_correct_witness:
  "\<exists>l' es. zend_llist_sort demo_list (\<lambda>x y. int x - int y) = Inr l' \<and> ll_wf l' es \<and>
    mset (ll_data l' es) = {#5, 8#} \<and> sorted_wrt (\<lambda>x y. \<not> x > y) (ll_data l' es)"
proof -
  have "\<exists>l' es. zend_llist_sort demo_list (\<lambda>x y. int x - int y) = Inr l' \<and> ll_wf l' es \<and> mset es = mset [1, 2] \<and>
    mset (ll_data l' es) = mset (ll_data demo_list [1, 2]) \<and> sorted_wrt (\<lambda>x y. \<not> x > y) (ll_data l' es) \<and>
    ll_log l' = ll_log demo_list"
    by (rule zend_llist_sort_correct [OF demo_list_ok(1), where gt = "(>)"]) auto
  then show ?thesis unfolding demo_list_ok(2) by (auto simp: add_mset_commute)
qed

end
