(* ===== verification/Spl_Heap.thy ===== *)
theory Spl_Heap
  imports C_Int
begin

section \<open>Heaps of SPL (ext/spl/spl\_heap.c)\<close>

text \<open>
  The array-based binary heap and the methods of \<open>SplHeap\<close>, \<open>SplMinHeap\<close>, \<open>SplMaxHeap\<close> and
  \<open>SplPriorityQueue\<close> on it.  A value is undefined, an array as a list of its entries, or something
  else.  \<open>compare_function\<close> of the engine is an argument of the comparisons.  A comparison gets
  and returns whether an exception is pending (\<open>EG(exception)\<close>); a user's \<open>compare\<close> method may
  throw and otherwise returns an integer.
\<close>

datatype 'a spl_value = Undef_value | Array_value "(string \<times> 'a spl_value) list" | Other_value 'a

type_synonym 'a heap_cmp = "'a spl_value \<Rightarrow> 'a spl_value \<Rightarrow> bool \<Rightarrow> int \<times> bool"
type_synonym 'a user_compare = "'a spl_value \<Rightarrow> 'a spl_value \<Rightarrow> int option"

subsection \<open>Comparisons\<close>

definition SPL_HEAP_CORRUPTED :: "32 word" where "SPL_HEAP_CORRUPTED = 1"

definition SPL_PQUEUE_EXTR_MASK :: "32 word" where "SPL_PQUEUE_EXTR_MASK = 3"
definition SPL_PQUEUE_EXTR_BOTH :: "32 word" where "SPL_PQUEUE_EXTR_BOTH = 3"
definition SPL_PQUEUE_EXTR_DATA :: "32 word" where "SPL_PQUEUE_EXTR_DATA = 1"
definition SPL_PQUEUE_EXTR_PRIORITY :: "32 word" where "SPL_PQUEUE_EXTR_PRIORITY = 2"

unbundle bit_operations_syntax

text \<open>\<open>zend_hash_str_find(Z_ARRVAL_P(value), key)\<close>\<close>

definition array_find :: "'a spl_value \<Rightarrow> string \<Rightarrow> 'a spl_value option" where
  "array_find v key = (case v of Array_value entries \<Rightarrow> map_of entries key | _ \<Rightarrow> None)"

definition spl_pqueue_extract_helper :: "'a spl_value \<Rightarrow> 32 word \<Rightarrow> 'a spl_value option" where
  "spl_pqueue_extract_helper value flags =
     (if flags AND SPL_PQUEUE_EXTR_BOTH = SPL_PQUEUE_EXTR_BOTH then Some value
      else if flags AND SPL_PQUEUE_EXTR_BOTH > 0 then
        (if flags AND SPL_PQUEUE_EXTR_DATA = SPL_PQUEUE_EXTR_DATA then array_find value ''data''
         else array_find value ''priority'')
      else None)"

text \<open>
  \<open>spl_ptr_heap_cmp_cb_helper\<close> with the sign its callers take of the result.  \<open>None\<close> for the
  user's method is no object or no method of its own.  The method is a function of its two arguments:
  a state of its own, and calls it makes on the heap that is being changed, are left out.  The
  \<open>zend_long\<close> of \<open>compare_function\<close> is cast to \<open>int\<close>.
\<close>

definition call_compare :: "'a user_compare \<Rightarrow> 'a heap_cmp" where
  "call_compare f a b exc = (case f a b of None \<Rightarrow> (0, True)
     | Some lval \<Rightarrow> (if lval > 0 then 1 else if lval < 0 then - 1 else 0, exc))"

definition spl_ptr_heap_zval_max_cmp ::
    "('a spl_value \<Rightarrow> 'a spl_value \<Rightarrow> int) \<Rightarrow> 'a user_compare option \<Rightarrow> 'a heap_cmp" where
  "spl_ptr_heap_zval_max_cmp compare_function fptr a b exc =
     (if exc then (0, exc)
      else case fptr of Some f \<Rightarrow> call_compare f a b exc | None \<Rightarrow> (int_cast (compare_function a b), exc))"

definition spl_ptr_heap_zval_min_cmp ::
    "('a spl_value \<Rightarrow> 'a spl_value \<Rightarrow> int) \<Rightarrow> 'a user_compare option \<Rightarrow> 'a heap_cmp" where
  "spl_ptr_heap_zval_min_cmp compare_function fptr a b exc =
     (if exc then (0, exc)
      else case fptr of Some f \<Rightarrow> call_compare f a b exc | None \<Rightarrow> (int_cast (compare_function b a), exc))"

text \<open>A node without a priority raises a recoverable error, which is not modelled further, and compares equal.\<close>

definition spl_ptr_pqueue_zval_cmp ::
    "('a spl_value \<Rightarrow> 'a spl_value \<Rightarrow> int) \<Rightarrow> 'a user_compare option \<Rightarrow> 'a heap_cmp" where
  "spl_ptr_pqueue_zval_cmp compare_function fptr a b exc =
     (case (spl_pqueue_extract_helper a SPL_PQUEUE_EXTR_PRIORITY, spl_pqueue_extract_helper b SPL_PQUEUE_EXTR_PRIORITY) of
        (Some pa, Some pb) \<Rightarrow>
          (if exc then (0, exc)
           else case fptr of Some f \<Rightarrow> call_compare f pa pb exc | None \<Rightarrow> (int_cast (compare_function pa pb), exc))
      | _ \<Rightarrow> (0, exc))"

subsection \<open>The heap\<close>

text \<open>\<open>count\<close> and \<open>max_size\<close> are \<open>int\<close> in C and never negative; the insertion checks their range.\<close>

record 'a spl_ptr_heap =
  ph_elements :: "'a spl_value list"
  ph_count :: nat
  ph_max_size :: nat
  ph_flags :: "32 word"

definition PTR_HEAP_BLOCK_SIZE :: nat where "PTR_HEAP_BLOCK_SIZE = 64"

definition spl_ptr_heap_init :: "'a spl_ptr_heap" where
  "spl_ptr_heap_init = \<lparr>ph_elements = replicate PTR_HEAP_BLOCK_SIZE Undef_value, ph_count = 0,
     ph_max_size = PTR_HEAP_BLOCK_SIZE, ph_flags = 0\<rparr>"

text \<open>The loop of the insertion: the hole at \<open>i\<close> moves up while its parent is less than \<open>elem\<close>.\<close>

function sift_up :: "'a heap_cmp \<Rightarrow> 'a spl_value \<Rightarrow> nat \<Rightarrow> 'a spl_value list \<Rightarrow> bool \<Rightarrow> nat \<times> 'a spl_value list \<times> bool" where
  "sift_up cmp elem i elements exc =
     (if i > 0 then
        (let (c, exc) = cmp (elements ! ((i - 1) div 2)) elem exc
         in if c < 0 then sift_up cmp elem ((i - 1) div 2) (elements[i := elements ! ((i - 1) div 2)]) exc
            else (i, elements, exc))
      else (i, elements, exc))"
  by pat_completeness auto
termination
  by (relation "measure (\<lambda>(cmp, elem, i, elements, exc). i)") auto

declare sift_up.simps [simp del]

text \<open>\<open>max_size * 2\<close> is a product of \<open>int\<close>: it overflows when the array holds 2^30 elements.\<close>

definition heap_grow :: "'a spl_ptr_heap \<Rightarrow> 'a spl_ptr_heap res" where
  "heap_grow heap =
     rbind (int_result (int (ph_count heap) + 1)) (\<lambda>need.
       if need > int (ph_max_size heap) then
         rbind (int_result (int (ph_max_size heap) * 2)) (\<lambda>mx.
           Inr (heap\<lparr>ph_elements := ph_elements heap @ replicate (ph_max_size heap) Undef_value,
                  ph_max_size := nat mx\<rparr>))
       else Inr heap)"

definition corrupt_on :: "bool \<Rightarrow> 'a spl_ptr_heap \<Rightarrow> 'a spl_ptr_heap" where
  "corrupt_on exc heap = (if exc then heap\<lparr>ph_flags := ph_flags heap OR SPL_HEAP_CORRUPTED\<rparr> else heap)"

definition spl_ptr_heap_insert ::
    "'a heap_cmp \<Rightarrow> 'a spl_ptr_heap \<Rightarrow> 'a spl_value \<Rightarrow> bool \<Rightarrow> (bool \<times> 'a spl_ptr_heap) res" where
  "spl_ptr_heap_insert cmp heap elem exc =
     rbind (heap_grow heap) (\<lambda>heap.
       (let (i, elements, exc) = sift_up cmp elem (ph_count heap) (ph_elements heap) exc;
            heap = corrupt_on exc (heap\<lparr>ph_elements := elements, ph_count := ph_count heap + 1\<rparr>)
        in Inr (exc, heap\<lparr>ph_elements := (ph_elements heap)[i := elem]\<rparr>)))"

definition spl_ptr_heap_top :: "'a spl_ptr_heap \<Rightarrow> 'a spl_value option" where
  "spl_ptr_heap_top heap =
     (if ph_count heap = 0 then None
      else case ph_elements heap ! 0 of Undef_value \<Rightarrow> None | v \<Rightarrow> Some v)"

text \<open>
  The loop of the deletion: the hole at \<open>i\<close> moves down to the greater of its children while
  \<open>bottom\<close> is less than that.  \<open>cnt\<close> is the count after the deletion.
\<close>

function sift_down ::
    "'a heap_cmp \<Rightarrow> 'a spl_value \<Rightarrow> nat \<Rightarrow> nat \<Rightarrow> nat \<Rightarrow> 'a spl_value list \<Rightarrow> bool \<Rightarrow> nat \<times> 'a spl_value list \<times> bool" where
  "sift_down cmp bottom limit cnt i elements exc =
     (if i < limit then
        (let j = i * 2 + 1;
             (c, exc) = (if j \<noteq> cnt then cmp (elements ! (j + 1)) (elements ! j) exc else (0, exc));
             j = (if j \<noteq> cnt \<and> c > 0 then j + 1 else j);
             (c, exc) = cmp bottom (elements ! j) exc
         in if c < 0 then sift_down cmp bottom limit cnt j (elements[i := elements ! j]) exc
            else (i, elements, exc))
      else (i, elements, exc))"
  by pat_completeness auto
termination
  by (relation "measure (\<lambda>(cmp, bottom, limit, cnt, i, elements, exc). limit - i)") (auto split: if_splits)

declare sift_down.simps [simp del]

text \<open>For an empty heap \<open>limit\<close> is \<open>(0 - 1) / 2\<close>, which C rounds to 0; it is not used.\<close>

definition spl_ptr_heap_delete_top ::
    "'a heap_cmp \<Rightarrow> 'a spl_ptr_heap \<Rightarrow> bool \<Rightarrow> 'a spl_value \<times> bool \<times> 'a spl_ptr_heap" where
  "spl_ptr_heap_delete_top cmp heap exc =
     (let limit = (ph_count heap - 1) div 2
      in if ph_count heap = 0 then (Undef_value, exc, heap)
         else
           (let elem = ph_elements heap ! 0;
                cnt = ph_count heap - 1;
                bottom = ph_elements heap ! cnt;
                (i, elements, exc) = sift_down cmp bottom limit cnt 0 (ph_elements heap) exc;
                heap = corrupt_on exc (heap\<lparr>ph_elements := elements, ph_count := cnt\<rparr>)
            in (elem, exc, heap\<lparr>ph_elements := (ph_elements heap)[i := bottom]\<rparr>)))"

text \<open>The copy of a heap, and the values whose reference counts it increases.\<close>

definition spl_ptr_heap_clone :: "'a spl_ptr_heap \<Rightarrow> 'a spl_ptr_heap \<times> 'a spl_value list" where
  "spl_ptr_heap_clone from = (from, take (ph_count from) (ph_elements from))"

text \<open>The values a heap gives up when it is destroyed.\<close>

definition spl_ptr_heap_destroy :: "'a spl_ptr_heap \<Rightarrow> 'a spl_value list" where
  "spl_ptr_heap_destroy heap = filter (\<lambda>v. v \<noteq> Undef_value) (take (ph_count heap) (ph_elements heap))"

definition spl_ptr_heap_count :: "'a spl_ptr_heap \<Rightarrow> nat" where
  "spl_ptr_heap_count heap = ph_count heap"

subsection \<open>Objects\<close>

text \<open>
  The comparison of an object, with the user's method where a subclass has one.  A method answers
  with a value, an exception it throws, or only a recoverable error.  \<open>refs\<close> is the log of changes
  of reference counts: of a value that is stored or copied out, and of one that is given up.
\<close>

datatype cmp_kind = Max_cmp | Min_cmp | Pqueue_cmp

datatype 'a ref_change = Addref 'a | Delref 'a

record 'a spl_heap_object =
  so_heap :: "'a spl_ptr_heap"
  so_flags :: "32 word"
  so_cmp :: cmp_kind
  so_fptr_cmp :: "'a user_compare option"
  so_refs :: "'a spl_value ref_change list"

datatype 'a method_result = Ret_bool bool | Ret_long int | Ret_null | Ret_value 'a | Throws string | Recoverable_error

text \<open>The classes of an object up to the first of SPL: the methods of the nearest one decide.\<close>

datatype spl_class = SplHeap_class | SplMinHeap_class | SplMaxHeap_class | SplPriorityQueue_class

definition spl_heap_object_new_ex ::
    "spl_class \<Rightarrow> 'a user_compare option \<Rightarrow> 'a spl_heap_object option \<Rightarrow> bool \<Rightarrow> 'a spl_heap_object" where
  "spl_heap_object_new_ex parent own_compare orig clone_orig =
     (let intern = (case orig of
            Some other \<Rightarrow>
              (if clone_orig then
                 (let (heap, refs) = spl_ptr_heap_clone (so_heap other)
                  in \<lparr>so_heap = heap, so_flags = so_flags other, so_cmp = so_cmp other, so_fptr_cmp = None,
                      so_refs = map Addref refs\<rparr>)
               else \<lparr>so_heap = so_heap other, so_flags = so_flags other, so_cmp = so_cmp other, so_fptr_cmp = None,
                      so_refs = []\<rparr>)
          | None \<Rightarrow> \<lparr>so_heap = spl_ptr_heap_init, so_flags = 0, so_cmp = Max_cmp, so_fptr_cmp = None, so_refs = []\<rparr>);
          intern = (case parent of
            SplPriorityQueue_class \<Rightarrow> intern\<lparr>so_cmp := Pqueue_cmp, so_flags := SPL_PQUEUE_EXTR_DATA\<rparr>
          | SplMinHeap_class \<Rightarrow> intern\<lparr>so_cmp := Min_cmp\<rparr>
          | SplMaxHeap_class \<Rightarrow> intern\<lparr>so_cmp := Max_cmp\<rparr>
          | SplHeap_class \<Rightarrow> intern)
      in intern\<lparr>so_fptr_cmp := own_compare\<rparr>)"

definition object_cmp :: "('a spl_value \<Rightarrow> 'a spl_value \<Rightarrow> int) \<Rightarrow> 'a spl_heap_object \<Rightarrow> 'a heap_cmp" where
  "object_cmp compare_function intern =
     (case so_cmp intern of
        Max_cmp \<Rightarrow> spl_ptr_heap_zval_max_cmp compare_function (so_fptr_cmp intern)
      | Min_cmp \<Rightarrow> spl_ptr_heap_zval_min_cmp compare_function (so_fptr_cmp intern)
      | Pqueue_cmp \<Rightarrow> spl_ptr_pqueue_zval_cmp compare_function (so_fptr_cmp intern))"

definition log_refs :: "'a spl_value ref_change list \<Rightarrow> 'a spl_heap_object \<Rightarrow> 'a spl_heap_object" where
  "log_refs rs intern = intern\<lparr>so_refs := so_refs intern @ rs\<rparr>"

definition corrupted :: "'a spl_heap_object \<Rightarrow> bool" where
  "corrupted intern \<longleftrightarrow> ph_flags (so_heap intern) AND SPL_HEAP_CORRUPTED \<noteq> 0"

definition corrupted_message :: string where
  "corrupted_message = ''Heap is corrupted, heap properties are no longer ensured.''"

subsection \<open>Methods\<close>

text \<open>Arguments have been parsed; each method starts with no exception pending and says whether one is.\<close>

type_synonym 'a method_outcome = "'a spl_value method_result \<times> bool \<times> 'a spl_heap_object"

definition SplHeap_insert ::
    "('a spl_value \<Rightarrow> 'a spl_value \<Rightarrow> int) \<Rightarrow> 'a spl_value \<Rightarrow> 'a spl_heap_object \<Rightarrow> 'a method_outcome res" where
  "SplHeap_insert compare_function value intern =
     (if corrupted intern then Inr (Throws corrupted_message, True, intern)
      else (let intern = log_refs [Addref value] intern
            in rbind (spl_ptr_heap_insert (object_cmp compare_function intern) (so_heap intern) value False)
                 (\<lambda>(exc, heap). Inr (Ret_bool True, exc, intern\<lparr>so_heap := heap\<rparr>))))"

definition SplHeap_extract ::
    "('a spl_value \<Rightarrow> 'a spl_value \<Rightarrow> int) \<Rightarrow> 'a spl_heap_object \<Rightarrow> 'a method_outcome" where
  "SplHeap_extract compare_function intern =
     (if corrupted intern then (Throws corrupted_message, True, intern)
      else (let (v, exc, heap) = spl_ptr_heap_delete_top (object_cmp compare_function intern) (so_heap intern) False;
                intern = intern\<lparr>so_heap := heap\<rparr>
            in if v = Undef_value then (Throws ''Can't extract from an empty heap'', True, intern)
               else (Ret_value v, exc, intern)))"

definition SplHeap_top :: "'a spl_heap_object \<Rightarrow> 'a method_outcome" where
  "SplHeap_top intern =
     (if corrupted intern then (Throws corrupted_message, True, intern)
      else case spl_ptr_heap_top (so_heap intern) of
        None \<Rightarrow> (Throws ''Can't peek at an empty heap'', True, intern)
      | Some v \<Rightarrow> (Ret_value v, False, log_refs [Addref v] intern))"

definition SplHeap_count :: "'a spl_heap_object \<Rightarrow> 'a method_outcome" where
  "SplHeap_count intern = (Ret_long (int (spl_ptr_heap_count (so_heap intern))), False, intern)"

definition SplHeap_isEmpty :: "'a spl_heap_object \<Rightarrow> 'a method_outcome" where
  "SplHeap_isEmpty intern = (Ret_bool (spl_ptr_heap_count (so_heap intern) = 0), False, intern)"

text \<open>The element of a priority queue: an array of its data and its priority.\<close>

definition pqueue_elem :: "'a spl_value \<Rightarrow> 'a spl_value \<Rightarrow> 'a spl_value" where
  "pqueue_elem data priority = Array_value [(''data'', data), (''priority'', priority)]"

definition SplPriorityQueue_insert ::
    "('a spl_value \<Rightarrow> 'a spl_value \<Rightarrow> int) \<Rightarrow> 'a spl_value \<Rightarrow> 'a spl_value \<Rightarrow> 'a spl_heap_object \<Rightarrow>
      'a method_outcome res" where
  "SplPriorityQueue_insert compare_function data priority intern =
     (if corrupted intern then Inr (Throws corrupted_message, True, intern)
      else (let intern = log_refs [Addref data, Addref priority] intern
            in rbind (spl_ptr_heap_insert (object_cmp compare_function intern) (so_heap intern)
                  (pqueue_elem data priority) False)
                 (\<lambda>(exc, heap). Inr (Ret_bool True, exc, intern\<lparr>so_heap := heap\<rparr>))))"

definition SplPriorityQueue_extract ::
    "('a spl_value \<Rightarrow> 'a spl_value \<Rightarrow> int) \<Rightarrow> 'a spl_heap_object \<Rightarrow> 'a method_outcome" where
  "SplPriorityQueue_extract compare_function intern =
     (if corrupted intern then (Throws corrupted_message, True, intern)
      else (let (value, exc, heap) = spl_ptr_heap_delete_top (object_cmp compare_function intern) (so_heap intern) False;
                intern = intern\<lparr>so_heap := heap\<rparr>
            in if value = Undef_value then (Throws ''Can't extract from an empty heap'', True, intern)
               else case spl_pqueue_extract_helper value (so_flags intern) of
                 None \<Rightarrow> (Recoverable_error, exc, log_refs [Delref value] intern)
               | Some out \<Rightarrow> (Ret_value out, exc, log_refs [Addref out, Delref value] intern)))"

definition SplPriorityQueue_top :: "'a spl_heap_object \<Rightarrow> 'a method_outcome" where
  "SplPriorityQueue_top intern =
     (if corrupted intern then (Throws corrupted_message, True, intern)
      else case spl_ptr_heap_top (so_heap intern) of
        None \<Rightarrow> (Throws ''Can't peek at an empty heap'', True, intern)
      | Some value \<Rightarrow> (case spl_pqueue_extract_helper value (so_flags intern) of
            None \<Rightarrow> (Recoverable_error, False, intern)
          | Some out \<Rightarrow> (Ret_value out, False, log_refs [Addref out] intern)))"

definition SplPriorityQueue_setExtractFlags :: "64 word \<Rightarrow> 'a spl_heap_object \<Rightarrow> 'a method_outcome" where
  "SplPriorityQueue_setExtractFlags value intern =
     (let intern = intern\<lparr>so_flags := ucast value AND SPL_PQUEUE_EXTR_MASK\<rparr>
      in (Ret_long (uint (so_flags intern)), False, intern))"

definition SplPriorityQueue_getExtractFlags :: "'a spl_heap_object \<Rightarrow> 'a method_outcome" where
  "SplPriorityQueue_getExtractFlags intern = (Ret_long (uint (so_flags intern)), False, intern)"

definition SplHeap_recoverFromCorruption :: "'a spl_heap_object \<Rightarrow> 'a method_outcome" where
  "SplHeap_recoverFromCorruption intern =
     (Ret_bool True, False, intern\<lparr>so_heap := (so_heap intern)\<lparr>ph_flags := ph_flags (so_heap intern) AND NOT SPL_HEAP_CORRUPTED\<rparr>\<rparr>)"

definition SplHeap_isCorrupted :: "'a spl_heap_object \<Rightarrow> 'a method_outcome" where
  "SplHeap_isCorrupted intern = (Ret_bool (corrupted intern), False, intern)"

text \<open>
  \<open>SplHeap::next\<close> takes the top element before it checks its arguments (\<open>no_args\<close>), and whether
  or not the heap is corrupted.
\<close>

definition SplHeap_next ::
    "('a spl_value \<Rightarrow> 'a spl_value \<Rightarrow> int) \<Rightarrow> bool \<Rightarrow> 'a spl_heap_object \<Rightarrow> 'a method_outcome" where
  "SplHeap_next compare_function no_args intern =
     (let (elem, exc, heap) = spl_ptr_heap_delete_top (object_cmp compare_function intern) (so_heap intern) False;
          intern = intern\<lparr>so_heap := heap\<rparr>
      in if no_args then (Ret_null, exc, log_refs [Delref elem] intern) else (Ret_null, exc, intern))"

definition SplHeap_valid :: "'a spl_heap_object \<Rightarrow> 'a method_outcome" where
  "SplHeap_valid intern = (Ret_bool (ph_count (so_heap intern) \<noteq> 0), False, intern)"

definition SplHeap_key :: "'a spl_heap_object \<Rightarrow> 'a method_outcome" where
  "SplHeap_key intern = (Ret_long (int (ph_count (so_heap intern)) - 1), False, intern)"

definition SplHeap_current :: "'a spl_heap_object \<Rightarrow> 'a method_outcome" where
  "SplHeap_current intern =
     (if ph_count (so_heap intern) = 0 \<or> ph_elements (so_heap intern) ! 0 = Undef_value then (Ret_null, False, intern)
      else (let v = ph_elements (so_heap intern) ! 0 in (Ret_value v, False, log_refs [Addref v] intern)))"

definition SplPriorityQueue_current :: "'a spl_heap_object \<Rightarrow> 'a method_outcome" where
  "SplPriorityQueue_current intern =
     (if ph_count (so_heap intern) = 0 \<or> ph_elements (so_heap intern) ! 0 = Undef_value then (Ret_null, False, intern)
      else case spl_pqueue_extract_helper (ph_elements (so_heap intern) ! 0) (so_flags intern) of
        None \<Rightarrow> (Ret_null, False, intern)
      | Some data \<Rightarrow> (Ret_value data, False, log_refs [Addref data] intern))"

subsection \<open>Iterators\<close>

text \<open>They have no position of their own: moving forward takes the top element off the heap.\<close>

definition spl_heap_it_valid :: "'a spl_heap_object \<Rightarrow> bool" where
  "spl_heap_it_valid object = (ph_count (so_heap object) \<noteq> 0)"

definition spl_heap_it_get_current_data :: "'a spl_heap_object \<Rightarrow> (string, 'a spl_value option) sum" where
  "spl_heap_it_get_current_data object =
     (if corrupted object then Inl corrupted_message
      else if ph_count (so_heap object) = 0 \<or> ph_elements (so_heap object) ! 0 = Undef_value then Inr None
      else Inr (Some (ph_elements (so_heap object) ! 0)))"

definition spl_pqueue_it_get_current_data :: "'a spl_heap_object \<Rightarrow> (string, 'a spl_value option) sum" where
  "spl_pqueue_it_get_current_data object =
     (if corrupted object then Inl corrupted_message
      else if ph_count (so_heap object) = 0 \<or> ph_elements (so_heap object) ! 0 = Undef_value then Inr None
      else Inr (spl_pqueue_extract_helper (ph_elements (so_heap object) ! 0) (so_flags object)))"

definition spl_heap_it_get_current_key :: "'a spl_heap_object \<Rightarrow> int" where
  "spl_heap_it_get_current_key object = int (ph_count (so_heap object)) - 1"

definition spl_heap_it_move_forward ::
    "('a spl_value \<Rightarrow> 'a spl_value \<Rightarrow> int) \<Rightarrow> 'a spl_heap_object \<Rightarrow> (string, unit) sum \<times> bool \<times> 'a spl_heap_object" where
  "spl_heap_it_move_forward compare_function object =
     (if corrupted object then (Inl corrupted_message, True, object)
      else (let (elem, exc, heap) = spl_ptr_heap_delete_top (object_cmp compare_function object) (so_heap object) False
            in (Inr (), exc, log_refs [Delref elem] (object\<lparr>so_heap := heap\<rparr>))))"

end
