(* ===== verification/Priority_Queue_Interface.thy ===== *)
theory Priority_Queue_Interface
  imports PHP_Prelude "HOL-Library.Multiset"
begin

section \<open>What a client of a priority queue relies on\<close>

text \<open>
  \<open>less\<close> is the order of the queue, which has room for one more below \<open>limit\<close> elements; extracting takes out an element no other one is above.
\<close>

locale priority_queue =
  fixes inv :: "'s \<Rightarrow> bool"
    and contents :: "'s \<Rightarrow> 'a multiset"
    and ins :: "'a \<Rightarrow> 's \<Rightarrow> 's res"
    and take_top :: "'s \<Rightarrow> 'a \<times> 's"
    and less :: "'a \<Rightarrow> 'a \<Rightarrow> bool"
    and limit :: nat
  assumes ins_law: "inv s \<Longrightarrow> size (contents s) < limit \<Longrightarrow>
      \<exists>s'. ins x s = Inr s' \<and> inv s' \<and> contents s' = add_mset x (contents s)"
    and take_law: "inv s \<Longrightarrow> contents s \<noteq> {#} \<Longrightarrow> take_top s = (x, s') \<Longrightarrow>
      x \<in># contents s \<and> (\<forall>y \<in># contents s. \<not> less x y) \<and> inv s' \<and> contents s' = contents s - {#x#}"
begin

fun extracts :: "nat \<Rightarrow> 's \<Rightarrow> 'a list \<times> 's" where
  "extracts 0 s = ([], s)"
| "extracts (Suc n) s = (let (x, s) = take_top s; (xs, s) = extracts n s in (x # xs, s))"

lemma inserts_ok:
  "inv s \<Longrightarrow> length xs + size (contents s) \<le> limit \<Longrightarrow>
   \<exists>s'. fold_res ins xs s = Inr s' \<and> inv s' \<and> contents s' = mset xs + contents s"
proof (induction xs arbitrary: s)
  case (Cons x xs)
  from ins_law [OF Cons.prems(1), of x] Cons.prems(2)
  obtain s1 where s1: "ins x s = Inr s1" "inv s1" "contents s1 = add_mset x (contents s)" by auto
  with Cons.IH [OF s1(2)] Cons.prems(2) show ?case by simp
qed simp

lemma extracts_ok:
  "inv s \<Longrightarrow> n \<le> size (contents s) \<Longrightarrow> extracts n s = (xs, s') \<Longrightarrow>
   length xs = n \<and> sorted_wrt (\<lambda>x y. \<not> less x y) xs \<and> inv s' \<and> mset xs + contents s' = contents s"
proof (induction n arbitrary: s xs)
  case (Suc n)
  obtain x s1 where x: "take_top s = (x, s1)" by (cases "take_top s")
  obtain ys where ys: "extracts n s1 = (ys, s')" "xs = x # ys"
    using Suc.prems(3) x by (auto split: prod.splits)
  have "contents s \<noteq> {#}" using Suc.prems(2) by auto
  note x1 = take_law [OF Suc.prems(1) this x]
  then have "n \<le> size (contents s1)" using Suc.prems(2) by (simp add: size_Diff_singleton)
  with x1 have ih: "length ys = n \<and> sorted_wrt (\<lambda>x y. \<not> less x y) ys \<and> inv s' \<and> mset ys + contents s' = contents s1"
    using Suc.IH [OF _ _ ys(1)] by blast
  have "y \<in># contents s" if "y \<in> set ys" for y
    using that x1 ih by (metis in_diffD set_mset_mset union_iff)
  with ys(2) x1 ih show ?case by (auto simp: insert_DiffM)
qed simp

text \<open>A list put into an empty queue and taken out again is sorted, the greatest first.\<close>

lemma queue_sorts:
  assumes "inv s" "contents s = {#}" "length xs \<le> limit"
  shows "\<exists>s1. fold_res ins xs s = Inr s1 \<and> (\<forall>ys s'. extracts (length xs) s1 = (ys, s') \<longrightarrow>
    mset ys = mset xs \<and> sorted_wrt (\<lambda>x y. \<not> less x y) ys \<and> inv s' \<and> contents s' = {#})"
proof -
  from inserts_ok [OF assms(1), of xs] assms(2,3)
  obtain s1 where s1: "fold_res ins xs s = Inr s1" "inv s1" "contents s1 = mset xs" by auto
  have "mset ys = mset xs \<and> sorted_wrt (\<lambda>x y. \<not> less x y) ys \<and> inv s' \<and> contents s' = {#}"
    if "extracts (length xs) s1 = (ys, s')" for ys s'
  proof -
    from extracts_ok [OF s1(2) _ that] s1(3)
    have e: "length ys = length xs" "sorted_wrt (\<lambda>x y. \<not> less x y) ys" "inv s'" "mset ys + contents s' = mset xs" by auto
    from e(4) have "size (mset ys) + size (contents s') = size (mset xs)" by (metis size_union)
    with e(1) have "contents s' = {#}" by simp
    with e show ?thesis by simp
  qed
  with s1(1) show ?thesis by blast
qed

end

end
