(* ===== verification/Spl_Heap_Correct.thy ===== *)
theory Spl_Heap_Correct
  imports Spl_Heap Priority_Queue_Interface
begin

section \<open>The heap of SPL is a priority queue\<close>

text \<open>
  The loops of the array heap keep its contents whatever the comparison does, and keep its order for a
  comparison that is one.  The heap implements the interface of a priority queue.
\<close>

subsection \<open>No comparison loses or duplicates an element\<close>

lemma mset_move:
  assumes "i < length xs" "j < length xs"
  shows "mset (xs[i := xs ! j, j := x]) = mset (xs[i := x])"
proof (cases "i = j")
  case False
  have "mset (xs[i := x, i := xs[i := x] ! j, j := xs[i := x] ! i]) = mset (xs[i := x])"
    using assms by (intro mset_swap) auto
  then show ?thesis using False assms(1) by simp
qed simp

lemma mset_take_move:
  assumes "i < n" "j < n" "n \<le> length xs"
  shows "mset (take n (xs[i := xs ! j, j := x])) = mset (take n (xs[i := x]))"
  using mset_move [of i "take n xs" j x] assms by (simp add: take_update_swap)

lemma sift_up_mset:
  assumes "sift_up cmp x i xs exc = (i', xs', exc')" "i < n" "n \<le> length xs"
  shows "i' \<le> i \<and> length xs' = length xs \<and> mset (take n (xs'[i' := x])) = mset (take n (xs[i := x]))"
  using assms
proof (induction cmp x i xs exc rule: sift_up.induct)
  case (1 cmp x i xs exc)
  let ?p = "(i - 1) div 2"
  obtain c e where c: "cmp (xs ! ?p) x exc = (c, e)" by (cases "cmp (xs ! ?p) x exc")
  show ?case
  proof (cases "i > 0 \<and> c < 0")
    case True
    then have s: "sift_up cmp x ?p (xs[i := xs ! ?p]) e = (i', xs', exc')"
      using "1.prems"(1) c by (subst (asm) sift_up.simps) simp
    have "?p < n" "?p \<le> i" using "1.prems"(2) by auto
    then show ?thesis
      using "1.IH" [OF _ c [symmetric] refl _ s] True "1.prems"(2,3) mset_take_move [of i n ?p xs x] by auto
  next
    case False
    then show ?thesis using "1.prems"(1) c by (subst (asm) sift_up.simps) (auto split: if_splits)
  qed
qed

text \<open>One round of the loop down.\<close>

lemma sift_down_step:
  assumes "i < l" "(if i * 2 + 1 \<noteq> n then cmp (xs ! (i * 2 + 1 + 1)) (xs ! (i * 2 + 1)) exc else (0, exc)) = (c, e)"
    "j = (if i * 2 + 1 \<noteq> n \<and> c > 0 then i * 2 + 1 + 1 else i * 2 + 1)" "cmp b (xs ! j) e = (d, e')"
  shows "sift_down cmp b l n i xs exc = (if d < 0 then sift_down cmp b l n j (xs[i := xs ! j]) e' else (i, xs, e'))"
  by (subst sift_down.simps) (simp only: assms(1,2) assms(3) [symmetric] assms(4) if_True Let_def prod.case)

lemma sift_down_stop: "\<not> i < l \<Longrightarrow> sift_down cmp b l n i xs exc = (i, xs, exc)"
  by (subst sift_down.simps) simp

lemma sift_down_mset:
  assumes "sift_down cmp b l n i xs exc = (i', xs', exc')" "l \<le> n div 2" "i \<le> n" "n < length xs" "xs ! n = b"
  shows "i' \<le> n \<and> length xs' = length xs \<and> mset (take n (xs'[i' := b])) = mset (take n (xs[i := b]))"
  using assms
proof (induction cmp b l n i xs exc rule: sift_down.induct)
  case (1 cmp b l n i xs exc)
  show ?case
  proof (cases "i < l")
    case False
    then show ?thesis using "1.prems" by (simp add: sift_down_stop)
  next
    case True
    let ?j = "i * 2 + 1"
    obtain c e where c: "(if ?j \<noteq> n then cmp (xs ! (?j + 1)) (xs ! ?j) exc else (0, exc)) = (c, e)" by (metis surj_pair)
    define j where "j = (if ?j \<noteq> n \<and> c > 0 then ?j + 1 else ?j)"
    obtain d e' where d: "cmp b (xs ! j) e = (d, e')" by (metis surj_pair)
    have j: "j \<le> n" "i < n" using True "1.prems"(2) by (auto simp: j_def)
    show ?thesis
    proof (cases "d < 0")
      case False
      then show ?thesis using "1.prems" sift_down_step [OF True c j_def d] by simp
    next
      case lt: True
      have s: "sift_down cmp b l n j (xs[i := xs ! j]) e' = (i', xs', exc')"
        using "1.prems"(1) lt sift_down_step [OF True c j_def d] by simp
      have "xs[i := xs ! j] ! n = b" using j "1.prems"(5) by simp
      with "1.IH" [OF True refl c [symmetric] refl j_def d [symmetric] refl lt s "1.prems"(2) j(1)] "1.prems"(4)
      have r: "i' \<le> n" "length xs' = length xs"
        "mset (take n (xs'[i' := b])) = mset (take n (xs[i := xs ! j, j := b]))" by auto
      have "mset (take n (xs[i := xs ! j, j := b])) = mset (take n (xs[i := b]))"
      proof (cases "j = n")
        case True
        then show ?thesis using "1.prems"(5) by simp
      next
        case False
        then show ?thesis using mset_take_move [of i n j xs b] j "1.prems"(4) by simp
      qed
      with r show ?thesis by simp
    qed
  qed
qed

definition heap_shape :: "'a spl_ptr_heap \<Rightarrow> bool" where
  "heap_shape h = (ph_count h \<le> ph_max_size h \<and> length (ph_elements h) = ph_max_size h \<and> 0 < ph_max_size h)"

definition heap_contents :: "'a spl_ptr_heap \<Rightarrow> 'a spl_value multiset" where
  "heap_contents h = mset (take (ph_count h) (ph_elements h))"

lemma contents_size: "heap_shape h \<Longrightarrow> size (heap_contents h) = ph_count h"
  by (simp add: heap_shape_def heap_contents_def)

lemma heap_grow_Inr:
  assumes "heap_grow h = Inr g" "heap_shape h"
  shows "ph_count g = ph_count h" "ph_flags g = ph_flags h" "Suc (ph_count h) \<le> length (ph_elements g)" "heap_shape g"
    "k < ph_count h \<Longrightarrow> ph_elements g ! k = ph_elements h ! k"
    "take (ph_count h) (ph_elements g) = take (ph_count h) (ph_elements h)"
  using assms by (auto simp: heap_grow_def heap_shape_def nth_append int_result_Inr elim!: rbind_InrE split: if_splits)

text \<open>Growing the array of fewer than 2^30 elements does not overflow.\<close>

definition heap_limit :: nat where "heap_limit = 2 ^ 30"

lemma heap_grow_ok: "ph_count h < heap_limit \<Longrightarrow> \<exists>g. heap_grow h = Inr g"
  by (auto simp: heap_grow_def heap_limit_def INT_MAX_def)

lemma heap_grow_overflow: "ph_count h = heap_limit \<Longrightarrow> ph_max_size h = heap_limit \<Longrightarrow> heap_grow h = Inl UB"
  by (simp add: heap_grow_def heap_limit_def int_result_def INT_MAX_def)

text \<open>Whatever the comparison answers, and whether or not it throws.\<close>

lemma insert_contents:
  assumes "heap_shape h" "spl_ptr_heap_insert cmp h x exc = Inr (exc', h')"
  shows "heap_shape h' \<and> heap_contents h' = add_mset x (heap_contents h) \<and> ph_count h' = Suc (ph_count h) \<and>
    ph_flags h' = (if exc' then ph_flags h OR SPL_HEAP_CORRUPTED else ph_flags h)"
proof -
  let ?n = "ph_count h"
  obtain g where grow: "heap_grow h = Inr g" using assms(2) by (auto simp: spl_ptr_heap_insert_def elim: rbind_InrE)
  note g = heap_grow_Inr [OF grow assms(1)]
  obtain i xs e where s: "sift_up cmp x ?n (ph_elements g) exc = (i, xs, e)" by (metis surj_pair)
  note m = sift_up_mset [OF s lessI g(3)]
  have "take (Suc ?n) ((ph_elements g)[?n := x]) = take ?n (ph_elements h) @ [x]"
    using g(3,6) by (simp add: take_Suc_conv_app_nth)
  with m have c: "mset (take (Suc ?n) (xs[i := x])) = add_mset x (heap_contents h)" by (simp add: heap_contents_def)
  have "exc' = e" "h' = (corrupt_on e (g\<lparr>ph_elements := xs, ph_count := Suc ?n\<rparr>))\<lparr>ph_elements := xs[i := x]\<rparr>"
    using assms(2) s g(1) grow by (auto simp: spl_ptr_heap_insert_def corrupt_on_def Let_def)
  moreover have "Suc ?n \<le> ph_max_size g" using g(3,4) by (simp add: heap_shape_def)
  ultimately show ?thesis using c m g(2,3,4)
    by (simp add: heap_shape_def heap_contents_def corrupt_on_def)
qed

lemma insert_returns:
  assumes "ph_count h < heap_limit"
  shows "\<exists>exc' h'. spl_ptr_heap_insert cmp h x exc = Inr (exc', h')"
  using heap_grow_ok [OF assms] by (auto simp: spl_ptr_heap_insert_def Let_def split: prod.split)

lemma delete_contents:
  assumes "heap_shape h" "ph_count h > 0" "spl_ptr_heap_delete_top cmp h exc = (x, exc', h')"
  shows "heap_shape h' \<and> x = ph_elements h ! 0 \<and> add_mset x (heap_contents h') = heap_contents h \<and>
    Suc (ph_count h') = ph_count h \<and> ph_flags h' = (if exc' then ph_flags h OR SPL_HEAP_CORRUPTED else ph_flags h)"
proof -
  define n where "n = ph_count h - 1"
  let ?xs = "ph_elements h"
  have n: "ph_count h = Suc n" "n < length ?xs" using assms(1,2) by (auto simp: n_def heap_shape_def)
  obtain i xs e where s: "sift_down cmp (?xs ! n) (n div 2) n 0 ?xs exc = (i, xs, e)" by (metis surj_pair)
  from sift_down_mset [OF s _ _ n(2) refl]
  have m: "length xs = length ?xs" "mset (take n (xs[i := ?xs ! n])) = mset (take n (?xs[0 := ?xs ! n]))" by auto
  have "add_mset (?xs ! 0) (mset (take n (?xs[0 := ?xs ! n]))) = mset (take (Suc n) ?xs)"
  proof (cases n)
    case (Suc k)
    then obtain y ys where "?xs = y # ys" using n by (cases ?xs) auto
    with n Suc show ?thesis by (simp add: take_Suc_conv_app_nth)
  qed (use n in \<open>cases ?xs; simp\<close>)
  moreover have "x = ?xs ! 0" "exc' = e"
    "h' = (corrupt_on e (h\<lparr>ph_elements := xs, ph_count := n\<rparr>))\<lparr>ph_elements := xs[i := ?xs ! n]\<rparr>"
    using assms(3) s n(1) by (auto simp: spl_ptr_heap_delete_top_def Let_def corrupt_on_def)
  ultimately show ?thesis using m n assms(1)
    by (simp add: heap_shape_def heap_contents_def corrupt_on_def)
qed

subsection \<open>Order\<close>

definition par :: "nat \<Rightarrow> nat" where
  "par k = (k - 1) div 2"

lemma par_less: "0 < k \<Longrightarrow> par k < k"
  by (simp add: par_def)

lemma par_children: "0 < k \<Longrightarrow> par k = i \<longleftrightarrow> k = 2 * i + 1 \<or> k = 2 * i + 2"
  by (auto simp: par_def)

locale heap_order =
  fixes cmp :: "'a heap_cmp" and lt :: "'a spl_value \<Rightarrow> 'a spl_value \<Rightarrow> bool"
  assumes cmp_ok: "\<exists>c. cmp a b False = (c, False) \<and> (c < 0 \<longleftrightarrow> lt a b) \<and> (c > 0 \<longleftrightarrow> lt b a)"
    and lt_asym: "lt a b \<Longrightarrow> \<not> lt b a"
    and not_lt_trans: "\<not> lt a b \<Longrightarrow> \<not> lt b c \<Longrightarrow> \<not> lt a c"
begin

definition ge :: "'a spl_value \<Rightarrow> 'a spl_value \<Rightarrow> bool" where
  "ge a b = (\<not> lt a b)"

lemma ge_refl [simp]: "ge a a"
  using lt_asym by (auto simp: ge_def)

lemma ge_trans: "ge a b \<Longrightarrow> ge b c \<Longrightarrow> ge a c"
  using not_lt_trans by (auto simp: ge_def)

lemma lt_ge: "lt a b \<Longrightarrow> ge b a"
  using lt_asym by (auto simp: ge_def)

text \<open>
  Every node but those with a hole is at most its parent; what hangs below a hole at \<open>i\<close> is at
  most what is above it.
\<close>

definition heap_ok :: "nat \<Rightarrow> 'a spl_value list \<Rightarrow> bool" where
  "heap_ok n xs = (\<forall>k. 0 < k \<and> k < n \<longrightarrow> ge (xs ! par k) (xs ! k))"

definition below_hole :: "nat \<Rightarrow> nat \<Rightarrow> 'a spl_value list \<Rightarrow> bool" where
  "below_hole n i xs = (\<forall>k. 0 < k \<and> k < n \<and> par k = i \<and> 0 < i \<longrightarrow> ge (xs ! par i) (xs ! k))"

definition rising :: "nat \<Rightarrow> nat \<Rightarrow> 'a spl_value list \<Rightarrow> bool" where
  "rising n i xs = ((\<forall>k. 0 < k \<and> k < n \<and> k \<noteq> i \<longrightarrow> ge (xs ! par k) (xs ! k)) \<and> below_hole n i xs)"

definition sinking :: "nat \<Rightarrow> nat \<Rightarrow> 'a spl_value list \<Rightarrow> bool" where
  "sinking n i xs = ((\<forall>k. 0 < k \<and> k < n \<and> par k \<noteq> i \<longrightarrow> ge (xs ! par k) (xs ! k)) \<and> below_hole n i xs)"

lemma heap_top: "heap_ok n xs \<Longrightarrow> k < n \<Longrightarrow> ge (xs ! 0) (xs ! k)"
proof (induction k rule: less_induct)
  case (less k)
  show ?case
  proof (cases "k = 0")
    case False
    then have "ge (xs ! 0) (xs ! par k)" using less par_less [of k] by simp
    moreover have "ge (xs ! par k) (xs ! k)" using less.prems False by (simp add: heap_ok_def)
    ultimately show ?thesis by (rule ge_trans)
  qed simp
qed

lemma rising_step:
  assumes "rising n i (xs[i := x])" "0 < i" "i < n" "n \<le> length xs" "lt (xs ! par i) x"
  shows "rising n (par i) (xs[i := xs ! par i, par i := x])"
proof -
  let ?p = "par i"
  have pi: "?p < i" using assms(2) by (rule par_less)
  have nth: "xs[i := xs ! ?p, ?p := x] ! k = (if k = ?p then x else if k = i then xs ! ?p else xs ! k)" for k
    using pi assms(3,4) by (simp add: nth_list_update)
  have old: "ge (xs ! par k) (xs ! k)" if "0 < k" "k < n" "k \<noteq> i" "par k \<noteq> i" for k
    using assms(1) that unfolding rising_def by (auto dest!: spec [of _ k])
  have below: "ge (xs ! ?p) (xs ! k)" if "0 < k" "k < n" "par k = i" for k
    using assms(1,2) that pi par_less [of k] unfolding rising_def below_hole_def by (auto dest!: spec [of _ k])
  have "ge (xs[i := xs ! ?p, ?p := x] ! par k) (xs[i := xs ! ?p, ?p := x] ! k)" if k: "0 < k" "k < n" "k \<noteq> ?p" for k
  proof -
    have px: "ge x (xs ! ?p)" using assms(5) by (rule lt_ge)
    consider "k = i" | "k \<noteq> i" "par k = i" | "k \<noteq> i" "par k = ?p" | "k \<noteq> i" "par k \<noteq> i" "par k \<noteq> ?p" by blast
    then show ?thesis
    proof cases
      case 1
      with px pi show ?thesis unfolding nth by simp
    next
      case 2
      with below [OF k(1,2)] k pi show ?thesis unfolding nth by auto
    next
      case 3
      have "ge (xs ! ?p) (xs ! k)" using old [OF k(1,2) 3(1)] 3(2) pi by simp
      with px have "ge x (xs ! k)" by (rule ge_trans)
      with 3 k show ?thesis unfolding nth by auto
    next
      case 4
      with old [OF k(1,2)] k show ?thesis unfolding nth by auto
    qed
  qed
  moreover have "ge (xs[i := xs ! ?p, ?p := x] ! par ?p) (xs[i := xs ! ?p, ?p := x] ! k)"
    if k: "0 < k" "k < n" "par k = ?p" "0 < ?p" for k
  proof -
    have pp: "par ?p < ?p" using k(4) by (rule par_less)
    have up: "ge (xs ! par ?p) (xs ! ?p)" using old [of ?p] k pp pi assms(3) by auto
    have "k \<noteq> ?p" using k par_less [of k] by auto
    moreover have "ge (xs ! ?p) (xs ! k)" if "k \<noteq> i" using old [OF k(1,2) that] k(3) pi by simp
    ultimately show ?thesis using up pp pi unfolding nth by (cases "k = i") (auto intro: ge_trans)
  qed
  ultimately show ?thesis by (simp add: rising_def below_hole_def)
qed

lemma sift_up_heap:
  assumes "sift_up cmp x i xs False = (i', xs', exc')" "rising n i (xs[i := x])" "i < n" "n \<le> length xs"
  shows "heap_ok n (xs'[i' := x]) \<and> \<not> exc'"
  using assms
proof (induction i arbitrary: xs rule: less_induct)
  case (less i)
  obtain c where c: "cmp (xs ! par i) x False = (c, False)" "c < 0 \<longleftrightarrow> lt (xs ! par i) x"
    using cmp_ok by blast
  note unf = less.prems(1) [unfolded sift_up.simps [of _ _ i], folded par_def, unfolded c(1)]
  show ?case
  proof (cases "0 < i \<and> lt (xs ! par i) x")
    case True
    with unf c(2) have s: "sift_up cmp x (par i) (xs[i := xs ! par i]) False = (i', xs', exc')" by simp
    have "rising n (par i) (xs[i := xs ! par i, par i := x])" using rising_step less.prems True by blast
    then show ?thesis using less.IH [OF par_less s] True less.prems(3,4) par_less [of i] by simp
  next
    case False
    with unf c(2) have e: "i' = i" "xs' = xs" "\<not> exc'" by (auto split: if_splits)
    have "ge (xs[i := x] ! par k) (xs[i := x] ! k)" if k: "0 < k" "k < n" for k
    proof (cases "k = i")
      case True
      with False k have "ge (xs ! par i) x" by (simp add: ge_def)
      then show ?thesis using True k less.prems(4) par_less [of i] by simp
    next
      case False
      then show ?thesis using less.prems(2) k by (simp add: rising_def)
    qed
    then show ?thesis using e by (simp add: heap_ok_def)
  qed
qed


lemma sinking_step:
  assumes "sinking n i (xs[i := b])" "j < n" "0 < j" "par j = i" "n \<le> length xs" "lt b (xs ! j)"
    and sib: "\<And>k. 0 < k \<Longrightarrow> k < n \<Longrightarrow> par k = i \<Longrightarrow> ge (xs ! j) (xs ! k)"
  shows "sinking n j (xs[i := xs ! j, j := b])"
proof -
  have ij: "i < j" using par_less [OF assms(3)] assms(4) by simp
  have nth: "xs[i := xs ! j, j := b] ! k = (if k = j then b else if k = i then xs ! j else xs ! k)" for k
    using ij assms(2,5) by (simp add: nth_list_update)
  have old: "ge (xs ! par k) (xs ! k)" if "0 < k" "k < n" "k \<noteq> i" "par k \<noteq> i" for k
    using assms(1) that unfolding sinking_def by (auto dest!: spec [of _ k])
  have above: "ge (xs ! par i) (xs ! k)" if "0 < k" "k < n" "par k = i" "0 < i" for k
    using assms(1) that par_less [of k] par_less [of i] unfolding sinking_def below_hole_def by (auto dest!: spec [of _ k])
  have "ge (xs[i := xs ! j, j := b] ! par k) (xs[i := xs ! j, j := b] ! k)" if k: "0 < k" "k < n" "par k \<noteq> j" for k
  proof -
    consider "k = j" | "k = i" | "k \<noteq> j" "k \<noteq> i" "par k = i" | "k \<noteq> j" "k \<noteq> i" "par k \<noteq> i" by blast
    then show ?thesis
    proof cases
      case 1
      with assms(4,6) ij show ?thesis unfolding nth by (simp add: lt_ge)
    next
      case 2
      with above [OF assms(3,2,4)] k ij par_less [of i] show ?thesis unfolding nth by auto
    next
      case 3
      with sib [OF k(1,2)] ij show ?thesis unfolding nth by auto
    next
      case 4
      with old [OF k(1,2)] k(3) show ?thesis unfolding nth by auto
    qed
  qed
  moreover have "ge (xs[i := xs ! j, j := b] ! par j) (xs[i := xs ! j, j := b] ! k)"
    if k: "0 < k" "k < n" "par k = j" for k
  proof -
    have jk: "j < k" using k par_less [of k] by simp
    then have "ge (xs ! j) (xs ! k)" using old [of k] k ij by auto
    with jk ij assms(4) show ?thesis unfolding nth by auto
  qed
  ultimately show ?thesis by (simp add: sinking_def below_hole_def)
qed

lemma sinking_done:
  assumes "sinking n i (xs[i := b])" "i < n" "n \<le> length xs"
    "\<And>k. 0 < k \<Longrightarrow> k < n \<Longrightarrow> par k = i \<Longrightarrow> ge b (xs ! k)"
  shows "heap_ok n (xs[i := b])"
  unfolding heap_ok_def
proof (intro allI impI)
  fix k assume k: "0 < k \<and> k < n"
  show "ge (xs[i := b] ! par k) (xs[i := b] ! k)"
  proof (cases "par k = i")
    case True
    then show ?thesis using k assms(2,3) assms(4) [of k] par_less [of k] by simp
  next
    case False
    then show ?thesis using assms(1) k by (simp add: sinking_def)
  qed
qed

lemma sift_down_heap:
  assumes "sift_down cmp b (n div 2) n i xs False = (i', xs', exc')" "sinking n i (xs[i := b])" "i < n"
    "n < length xs" "xs ! n = b"
  shows "heap_ok n (xs'[i' := b]) \<and> \<not> exc'"
  using assms
proof (induction "n - i" arbitrary: i xs rule: less_induct)
  case less
  show ?case
  proof (cases "i < n div 2")
    case False
    then have e: "i' = i" "xs' = xs" "\<not> exc'" using less.prems(1) by (simp_all add: sift_down_stop)
    have "heap_ok n (xs[i := b])"
    proof (rule sinking_done)
      fix k assume "0 < k" "k < n" "par k = i"
      with False show "ge b (xs ! k)" by (auto simp: par_def)
    qed (use less.prems in auto)
    with e show ?thesis by simp
  next
    case True
    let ?j = "i * 2 + 1"
    have jn: "?j < n" using True by simp
    obtain c where c: "cmp (xs ! (?j + 1)) (xs ! ?j) False = (c, False)" "c > 0 \<longleftrightarrow> lt (xs ! ?j) (xs ! (?j + 1))"
      using cmp_ok by blast
    then have c': "(if ?j \<noteq> n then cmp (xs ! (?j + 1)) (xs ! ?j) False else (0, False)) = (c, False)" using jn by simp
    define j where "j = (if ?j \<noteq> n \<and> c > 0 then ?j + 1 else ?j)"
    obtain d where d: "cmp b (xs ! j) False = (d, False)" "d < 0 \<longleftrightarrow> lt b (xs ! j)" using cmp_ok by blast
    note st = sift_down_step [where cmp = cmp and b = b, OF True c' j_def d(1)]
    have jj: "j \<le> n" "0 < j" "par j = i" "i < j" using jn by (auto simp: j_def par_def)
    have big: "ge (xs ! j) (xs ! k)" if "0 < k" "par k = i" for k
      using that c(2) jn lt_asym ge_refl by (auto simp: par_children j_def ge_def mult.commute [of 2])
    show ?thesis
    proof (cases "lt b (xs ! j)")
      case lt: True
      have "j \<noteq> n" using lt less.prems(5) lt_asym by auto
      with jj have "j < n" by simp
      have s: "sift_down cmp b (n div 2) n j (xs[i := xs ! j]) False = (i', xs', exc')"
        using less.prems(1) st d(2) lt by simp
      have "sinking n j (xs[i := xs ! j, j := b])"
        by (rule sinking_step) (use less.prems \<open>j < n\<close> jj lt big in auto)
      moreover have "xs[i := xs ! j] ! n = b" using jj \<open>j < n\<close> less.prems(5) by simp
      ultimately show ?thesis using less.hyps [OF _ s] \<open>j < n\<close> jj less.prems(4) by simp
    next
      case False
      then have e: "i' = i" "xs' = xs" "\<not> exc'" using less.prems(1) st d(2) by simp_all
      have "heap_ok n (xs[i := b])"
      proof (rule sinking_done)
        fix k assume k: "0 < k" "k < n" "par k = i"
        with big [of k] False show "ge b (xs ! k)"
          using not_lt_trans [of b "xs ! j" "xs ! k"] by (auto simp: ge_def)
      qed (use less.prems in auto)
      with e show ?thesis by simp
    qed
  qed
qed


definition heap_inv :: "'a spl_ptr_heap \<Rightarrow> bool" where
  "heap_inv h = (heap_shape h \<and> heap_ok (ph_count h) (ph_elements h))"

lemma heap_ok_cong: "(\<And>k. k < n \<Longrightarrow> xs ! k = ys ! k) \<Longrightarrow> heap_ok n xs = heap_ok n ys"
  unfolding heap_ok_def by (metis less_trans par_less)

lemma insert_ok:
  assumes "heap_inv h" "spl_ptr_heap_insert cmp h x False = Inr (e, h')"
  shows "\<not> e \<and> heap_inv h'"
proof -
  let ?n = "ph_count h"
  have shape: "heap_shape h" using assms(1) by (simp add: heap_inv_def)
  obtain g where grow: "heap_grow h = Inr g" using assms(2) by (auto simp: spl_ptr_heap_insert_def elim: rbind_InrE)
  note g = heap_grow_Inr [OF grow shape]
  obtain i xs exc where s: "sift_up cmp x ?n (ph_elements g) False = (i, xs, exc)" by (metis surj_pair)
  have ok: "heap_ok ?n (ph_elements g)"
    using assms(1) heap_ok_cong [of ?n "ph_elements h" "ph_elements g"] g(5) by (auto simp: heap_inv_def)
  have "rising (Suc ?n) ?n ((ph_elements g)[?n := x])"
    unfolding rising_def below_hole_def
  proof (intro conjI allI impI)
    fix k assume "0 < k \<and> k < Suc ?n \<and> k \<noteq> ?n"
    then have k: "0 < k" "k < ?n" by auto
    then have "par k < ?n" using par_less [of k] by simp
    with ok k show "ge ((ph_elements g)[?n := x] ! par k) ((ph_elements g)[?n := x] ! k)" by (simp add: heap_ok_def)
  next
    fix k assume "0 < k \<and> k < Suc ?n \<and> par k = ?n \<and> 0 < ?n"
    then show "ge ((ph_elements g)[?n := x] ! par ?n) ((ph_elements g)[?n := x] ! k)" using par_less [of k] by auto
  qed
  then have h: "heap_ok (Suc ?n) (xs[i := x])" "\<not> exc" using sift_up_heap [OF s _ lessI g(3)] by auto
  have m: "length xs = length (ph_elements g)" using sift_up_mset [OF s lessI g(3)] by simp
  have "e = False" "h' = g\<lparr>ph_elements := xs[i := x], ph_count := Suc ?n\<rparr>"
    using assms(2) s h(2) g(1) grow by (auto simp: spl_ptr_heap_insert_def corrupt_on_def)
  with h(1) m g(3,4) show ?thesis by (simp add: heap_inv_def heap_shape_def)
qed

lemma delete_ok:
  assumes "heap_inv h" "ph_count h > 0" "spl_ptr_heap_delete_top cmp h False = (x, exc, h')"
  shows "\<not> exc \<and> heap_inv h' \<and> x = ph_elements h ! 0 \<and> (\<forall>y \<in> set (take (ph_count h) (ph_elements h)). \<not> lt x y)"
proof -
  define n where "n = ph_count h - 1"
  let ?xs = "ph_elements h"
  have n: "ph_count h = Suc n" "n < length ?xs" using assms(1,2) by (auto simp: n_def heap_inv_def heap_shape_def)
  obtain i xs e where s: "sift_down cmp (?xs ! n) (n div 2) n 0 ?xs False = (i, xs, e)" by (metis surj_pair)
  have ok: "heap_ok (Suc n) ?xs" using assms(1) n by (simp add: heap_inv_def)
  have "heap_ok n (xs[i := ?xs ! n]) \<and> \<not> e"
  proof (cases "n = 0")
    case True
    then show ?thesis using s by (simp add: sift_down_stop heap_ok_def)
  next
    case False
    have "sinking n 0 (?xs[0 := ?xs ! n])"
      using ok n(2) par_less by (fastforce simp: sinking_def below_hole_def heap_ok_def nth_list_update)
    then show ?thesis using sift_down_heap [OF s] n False by simp
  qed
  moreover have "length xs = length ?xs" using sift_down_mset [OF s] n by simp
  moreover have "x = ?xs ! 0" "exc = e" "h' = (corrupt_on e (h\<lparr>ph_elements := xs, ph_count := n\<rparr>))\<lparr>ph_elements := xs[i := ?xs ! n]\<rparr>"
    using assms(3) s n(1) by (auto simp: spl_ptr_heap_delete_top_def Let_def corrupt_on_def)
  moreover have "\<not> lt (?xs ! 0) y" if "y \<in> set (take (Suc n) ?xs)" for y
    using that heap_top [OF ok] n(2) by (auto simp: in_set_conv_nth ge_def)
  ultimately show ?thesis using assms(1) n by (simp add: heap_inv_def heap_shape_def corrupt_on_def)
qed


text \<open>The queue the client sees: insertion and removal with no exception pending.\<close>

definition put :: "'a spl_value \<Rightarrow> 'a spl_ptr_heap \<Rightarrow> 'a spl_ptr_heap res" where
  "put x h = rbind (spl_ptr_heap_insert cmp h x False) (\<lambda>(exc, h). Inr h)"

definition take_out :: "'a spl_ptr_heap \<Rightarrow> 'a spl_value \<times> 'a spl_ptr_heap" where
  "take_out h = (let (x, exc, h) = spl_ptr_heap_delete_top cmp h False in (x, h))"

lemma put_law:
  assumes "heap_inv h" "size (heap_contents h) < heap_limit"
  shows "\<exists>h'. put x h = Inr h' \<and> heap_inv h' \<and> heap_contents h' = add_mset x (heap_contents h)"
proof -
  have shape: "heap_shape h" using assms(1) by (simp add: heap_inv_def)
  with assms(2) insert_returns [of h cmp x False] obtain e h' where h': "spl_ptr_heap_insert cmp h x False = Inr (e, h')"
    by (auto simp: contents_size)
  with insert_ok [OF assms(1) h'] insert_contents [OF shape h'] show ?thesis by (simp add: put_def)
qed

lemma take_out_law:
  assumes "heap_inv h" "heap_contents h \<noteq> {#}" "take_out h = (x, h')"
  shows "x \<in># heap_contents h \<and> (\<forall>y \<in># heap_contents h. \<not> lt x y) \<and> heap_inv h' \<and>
    heap_contents h' = heap_contents h - {#x#}"
proof -
  have c: "ph_count h > 0" using assms(2) by (auto simp: heap_contents_def)
  obtain exc where d: "spl_ptr_heap_delete_top cmp h False = (x, exc, h')"
    using assms(3) by (auto simp: take_out_def split: prod.splits)
  have sh: "heap_shape h" using assms(1) by (simp add: heap_inv_def)
  have "add_mset x (heap_contents h') = heap_contents h" using delete_contents [OF sh c d] by blast
  then have "x \<in># heap_contents h" "heap_contents h' = heap_contents h - {#x#}"
    by (metis union_single_eq_member, metis add_mset_remove_trivial)
  with delete_ok [OF assms(1) c d] show ?thesis by (auto simp: heap_contents_def)
qed

end

sublocale heap_order \<subseteq> priority_queue heap_inv heap_contents put take_out lt heap_limit
  by unfold_locales (rule put_law take_out_law; assumption)+

text \<open>Values compared by their rank, as \<open>compare_function\<close> compares integers.\<close>

definition ranked :: "('a spl_value \<Rightarrow> int) \<Rightarrow> 'a spl_value \<Rightarrow> 'a spl_value \<Rightarrow> int" where
  "ranked rank a b = sgn (rank a - rank b)"

lemma ranked_sign: "ranked rank a b < 0 \<longleftrightarrow> rank a < rank b" "ranked rank a b > 0 \<longleftrightarrow> rank b < rank a"
  by (auto simp: ranked_def sgn_if)

lemma int_cast_ranked [simp]: "int_cast (ranked rank a b) = ranked rank a b"
  by (rule int_cast_id) (auto simp: ranked_def sgn_if INT_MAX_def)

interpretation max_heap: heap_order "spl_ptr_heap_zval_max_cmp (ranked rank) None" "\<lambda>a b. rank a < rank b" for rank
  by unfold_locales (auto simp: spl_ptr_heap_zval_max_cmp_def ranked_sign)

interpretation min_heap: heap_order "spl_ptr_heap_zval_min_cmp (ranked rank) None" "\<lambda>a b. rank b < rank a" for rank
  by unfold_locales (auto simp: spl_ptr_heap_zval_min_cmp_def ranked_sign)

subsection \<open>Comparisons that agree on what is in the heap\<close>

lemma sift_up_agree:
  assumes "\<And>a b. a \<in> V \<Longrightarrow> b \<in> V \<Longrightarrow> cmp a b False = cmp' a b False \<and> \<not> snd (cmp' a b False)"
    "x \<in> V" "\<forall>k < i. xs ! k \<in> V"
  shows "sift_up cmp x i xs False = sift_up cmp' x i xs False"
  using assms(3)
proof (induction i arbitrary: xs rule: less_induct)
  case (less i)
  let ?p = "(i - 1) div 2"
  show ?case
  proof (cases "i > 0")
    case True
    then have p: "?p < i" by auto
    then have v: "xs ! ?p \<in> V" using less.prems by blast
    obtain c where c: "cmp' (xs ! ?p) x False = (c, False)" "cmp (xs ! ?p) x False = (c, False)"
      using assms(1) [OF v assms(2)] by (cases "cmp' (xs ! ?p) x False") auto
    have "sift_up cmp x ?p (xs[i := xs ! ?p]) False = sift_up cmp' x ?p (xs[i := xs ! ?p]) False"
      using less.IH [OF p, of "xs[i := xs ! ?p]"] less.prems p by simp
    with c show ?thesis by (subst (1 2) sift_up.simps) simp
  qed (subst (1 2) sift_up.simps, simp)
qed

lemma sift_down_agree:
  assumes "\<And>a b. a \<in> V \<Longrightarrow> b \<in> V \<Longrightarrow> cmp a b False = cmp' a b False \<and> \<not> snd (cmp' a b False)"
    "b \<in> V" "\<forall>k \<le> n. xs ! k \<in> V" "n < length xs" "l \<le> n div 2"
  shows "sift_down cmp b l n i xs False = sift_down cmp' b l n i xs False"
  using assms(3,4)
proof (induction "n - i" arbitrary: i xs rule: less_induct)
  case less
  show ?case
  proof (cases "i < l")
    case True
    let ?j = "i * 2 + 1"
    have jn: "?j < n" using True assms(5) by simp
    then have v: "xs ! (?j + 1) \<in> V" "xs ! ?j \<in> V" using less.prems by auto
    obtain c where c: "cmp' (xs ! (?j + 1)) (xs ! ?j) False = (c, False)" "cmp (xs ! (?j + 1)) (xs ! ?j) False = (c, False)"
      using assms(1) [OF v] by (cases "cmp' (xs ! (?j + 1)) (xs ! ?j) False") auto
    then have c': "(if ?j \<noteq> n then cmp (xs ! (?j + 1)) (xs ! ?j) False else (0, False)) = (c, False)"
      "(if ?j \<noteq> n then cmp' (xs ! (?j + 1)) (xs ! ?j) False else (0, False)) = (c, False)" using jn by simp_all
    define j where "j = (if ?j \<noteq> n \<and> c > 0 then ?j + 1 else ?j)"
    have j: "j \<le> n" "i < j" using jn by (auto simp: j_def)
    then have vj: "xs ! j \<in> V" using less.prems by blast
    obtain d where d: "cmp' b (xs ! j) False = (d, False)" "cmp b (xs ! j) False = (d, False)"
      using assms(1) [OF assms(2) vj] by (cases "cmp' b (xs ! j) False") auto
    have "\<forall>k \<le> n. xs[i := xs ! j] ! k \<in> V" using less.prems j by (simp add: nth_list_update)
    then have "sift_down cmp b l n j (xs[i := xs ! j]) False = sift_down cmp' b l n j (xs[i := xs ! j]) False"
      using less.hyps [of j "xs[i := xs ! j]"] j jn less.prems(2) by simp
    then show ?thesis
      by (simp add: sift_down_step [where cmp = cmp and b = b, OF True c'(1) j_def d(2)]
          sift_down_step [where cmp = cmp' and b = b, OF True c'(2) j_def d(1)])
  qed (simp add: sift_down_stop)
qed

subsection \<open>Priority queues\<close>

text \<open>
  An object of \<open>SplPriorityQueue\<close> that returns the data of its elements, all of which have a
  priority.  \<open>pq_total\<close> agrees with its comparison on them and is total.
\<close>

definition prio :: "'a spl_value \<Rightarrow> 'a spl_value" where
  "prio v = (case array_find v ''priority'' of Some p \<Rightarrow> p | None \<Rightarrow> Undef_value)"

definition pq_total :: "('a spl_value \<Rightarrow> 'a spl_value \<Rightarrow> int) \<Rightarrow> 'a heap_cmp" where
  "pq_total cf a b exc = (cf (prio a) (prio b), exc)"

definition pq_lt :: "('a spl_value \<Rightarrow> 'a spl_value \<Rightarrow> int) \<Rightarrow> 'a spl_value \<Rightarrow> 'a spl_value \<Rightarrow> bool" where
  "pq_lt cf a b = (cf (prio a) (prio b) < 0)"

text \<open>What \<open>compare_function\<close> must be: a total preorder, with results that an \<open>int\<close> holds.\<close>

definition total_order :: "('a spl_value \<Rightarrow> 'a spl_value \<Rightarrow> int) \<Rightarrow> bool" where
  "total_order cf = ((\<forall>a b. cf a b > 0 \<longleftrightarrow> cf b a < 0) \<and> (\<forall>a b c. cf a b \<ge> 0 \<longrightarrow> cf b c \<ge> 0 \<longrightarrow> cf a c \<ge> 0) \<and>
     (\<forall>a b. - INT_MAX - 1 \<le> cf a b \<and> cf a b \<le> INT_MAX))"

lemma pq_heap_order: "total_order cf \<Longrightarrow> heap_order (pq_total cf) (pq_lt cf)"
  unfolding heap_order_def total_order_def pq_total_def pq_lt_def
  by (metis less_asym linorder_not_less)

definition pq_ok :: "('a spl_value \<Rightarrow> 'a spl_value \<Rightarrow> int) \<Rightarrow> 'a spl_heap_object \<Rightarrow> bool" where
  "pq_ok cf intern = (\<not> corrupted intern \<and> so_cmp intern = Pqueue_cmp \<and> so_fptr_cmp intern = None \<and>
     so_flags intern = SPL_PQUEUE_EXTR_DATA \<and> heap_order.heap_inv (pq_lt cf) (so_heap intern) \<and>
     (\<forall>v \<in># heap_contents (so_heap intern). \<exists>d p. v = pqueue_elem d p))"

definition pq_contents :: "'a spl_heap_object \<Rightarrow> 'a spl_value multiset" where
  "pq_contents intern = heap_contents (so_heap intern)"

lemma prio_elem [simp]: "prio (pqueue_elem d p) = p" "spl_pqueue_extract_helper (pqueue_elem d p) SPL_PQUEUE_EXTR_PRIORITY = Some p"
  "spl_pqueue_extract_helper (pqueue_elem d p) SPL_PQUEUE_EXTR_DATA = Some d"
  by (simp_all add: prio_def pqueue_elem_def array_find_def spl_pqueue_extract_helper_def
      SPL_PQUEUE_EXTR_PRIORITY_def SPL_PQUEUE_EXTR_DATA_def SPL_PQUEUE_EXTR_BOTH_def)

lemma pq_agree:
  assumes "pq_ok cf intern" "total_order cf" "a \<in> {v. \<exists>d p. v = pqueue_elem d p}" "b \<in> {v. \<exists>d p. v = pqueue_elem d p}"
  shows "object_cmp cf intern a b False = pq_total cf a b False \<and> \<not> snd (pq_total cf a b False)"
  using assms by (auto simp: pq_ok_def object_cmp_def spl_ptr_pqueue_zval_cmp_def pq_total_def total_order_def)

lemma contents_nth: "k < ph_count h \<Longrightarrow> heap_shape h \<Longrightarrow> ph_elements h ! k \<in># heap_contents h"
  unfolding heap_contents_def heap_shape_def set_mset_mset in_set_conv_nth by (intro exI [of _ k]) simp

lemma pq_insert_agree:
  assumes "pq_ok cf intern" "total_order cf" "heap_shape (so_heap intern)"
  shows "spl_ptr_heap_insert (object_cmp cf intern) (so_heap intern) (pqueue_elem d p) False =
    spl_ptr_heap_insert (pq_total cf) (so_heap intern) (pqueue_elem d p) False"
proof (cases "heap_grow (so_heap intern)")
  case (Inr g)
  let ?V = "{v. \<exists>d p. v = pqueue_elem d p}"
  have "\<forall>k < ph_count g. ph_elements g ! k \<in> ?V"
    using contents_nth [OF _ assms(3)] assms(1) heap_grow_Inr [OF Inr assms(3)] by (auto simp: pq_ok_def)
  then have "sift_up (object_cmp cf intern) (pqueue_elem d p) (ph_count g) (ph_elements g) False =
      sift_up (pq_total cf) (pqueue_elem d p) (ph_count g) (ph_elements g) False"
    by (intro sift_up_agree [where V = ?V] pq_agree [OF assms(1,2)]) auto
  then show ?thesis by (simp add: spl_ptr_heap_insert_def Inr)
qed (simp add: spl_ptr_heap_insert_def)

lemma pq_delete_agree:
  assumes "pq_ok cf intern" "total_order cf" "heap_shape (so_heap intern)" "ph_count (so_heap intern) > 0"
  shows "spl_ptr_heap_delete_top (object_cmp cf intern) (so_heap intern) False =
    spl_ptr_heap_delete_top (pq_total cf) (so_heap intern) False"
proof -
  let ?h = "so_heap intern" and ?V = "{v. \<exists>d p. v = pqueue_elem d p}"
  have v: "ph_elements ?h ! k \<in> ?V" if "k < ph_count ?h" for k
    using contents_nth [OF that assms(3)] assms(1) by (simp add: pq_ok_def)
  then have v': "\<forall>k \<le> ph_count ?h - 1. ph_elements ?h ! k \<in> ?V" using assms(4) by auto
  have "sift_down (object_cmp cf intern) (ph_elements ?h ! (ph_count ?h - 1)) ((ph_count ?h - 1) div 2) (ph_count ?h - 1) 0
      (ph_elements ?h) False =
    sift_down (pq_total cf) (ph_elements ?h ! (ph_count ?h - 1)) ((ph_count ?h - 1) div 2) (ph_count ?h - 1) 0
      (ph_elements ?h) False"
    by (intro sift_down_agree [where V = ?V] pq_agree [OF assms(1,2)])
      (use v v' assms(3,4) in \<open>auto simp: heap_shape_def\<close>)
  then show ?thesis by (simp add: spl_ptr_heap_delete_top_def Let_def)
qed

lemma log_refs_simps [simp]: "so_heap (log_refs rs i) = so_heap i" "so_flags (log_refs rs i) = so_flags i"
  "so_cmp (log_refs rs i) = so_cmp i" "so_fptr_cmp (log_refs rs i) = so_fptr_cmp i"
  by (simp_all add: log_refs_def)

lemma object_cmp_cong: "so_cmp i = so_cmp j \<Longrightarrow> so_fptr_cmp i = so_fptr_cmp j \<Longrightarrow> object_cmp cf i = object_cmp cf j"
  by (cases "so_cmp j") (simp_all add: object_cmp_def)

lemma object_cmp_log [simp]: "object_cmp cf (log_refs rs i) = object_cmp cf i"
  by (rule object_cmp_cong) simp_all

lemma corrupted_log [simp]: "corrupted (log_refs rs i) = corrupted i"
  by (simp add: corrupted_def)

lemma pq_shape: "pq_ok cf intern \<Longrightarrow> total_order cf \<Longrightarrow> heap_shape (so_heap intern)"
  by (simp add: pq_ok_def heap_order.heap_inv_def [OF pq_heap_order])

lemma pq_insert_ok:
  assumes "pq_ok cf intern" "total_order cf" "size (pq_contents intern) < heap_limit"
  shows "\<exists>i'. SplPriorityQueue_insert cf d p intern = Inr (Ret_bool True, False, i') \<and> pq_ok cf i' \<and>
    pq_contents i' = add_mset (pqueue_elem d p) (pq_contents intern)"
proof -
  note ho = pq_heap_order [OF assms(2)] and sh = pq_shape [OF assms(1,2)]
  have hi: "heap_order.heap_inv (pq_lt cf) (so_heap intern)" using assms(1) by (simp add: pq_ok_def)
  have "ph_count (so_heap intern) < heap_limit" using assms(3) sh by (simp add: pq_contents_def contents_size)
  from insert_returns [OF this] obtain exc h where
    h: "spl_ptr_heap_insert (pq_total cf) (so_heap intern) (pqueue_elem d p) False = Inr (exc, h)" by blast
  from heap_order.insert_ok [OF ho hi h] have "\<not> exc" "heap_order.heap_inv (pq_lt cf) h" by simp_all
  with insert_contents [OF sh h] h assms(1) pq_insert_agree [OF assms(1,2) sh] show ?thesis
    by (auto simp: SplPriorityQueue_insert_def Let_def pq_ok_def pq_contents_def corrupted_def)
qed

lemma pq_extract_ok:
  assumes "pq_ok cf intern" "total_order cf" "pq_contents intern \<noteq> {#}"
  shows "\<exists>d p i'. SplPriorityQueue_extract cf intern = (Ret_value d, False, i') \<and> pq_ok cf i' \<and>
    pq_contents intern = add_mset (pqueue_elem d p) (pq_contents i') \<and>
    (\<forall>d' p'. pqueue_elem d' p' \<in># pq_contents intern \<longrightarrow> cf p p' \<ge> 0)"
proof -
  note ho = pq_heap_order [OF assms(2)] and sh = pq_shape [OF assms(1,2)]
  have hi: "heap_order.heap_inv (pq_lt cf) (so_heap intern)" using assms(1) by (simp add: pq_ok_def)
  have c: "ph_count (so_heap intern) > 0" using assms(3) by (auto simp: pq_contents_def heap_contents_def)
  obtain x exc h where h: "spl_ptr_heap_delete_top (pq_total cf) (so_heap intern) False = (x, exc, h)" by (metis surj_pair)
  note dc = delete_contents [OF sh c h]
  have mem: "x \<in># pq_contents intern" using dc by (metis pq_contents_def union_single_eq_member)
  then obtain d p where x: "x = pqueue_elem d p" using assms(1) by (auto simp: pq_ok_def pq_contents_def)
  from heap_order.delete_ok [OF ho hi c h]
  have d: "\<not> exc" "heap_order.heap_inv (pq_lt cf) h" "\<And>y. y \<in># pq_contents intern \<Longrightarrow> \<not> pq_lt cf x y"
    by (auto simp: pq_contents_def heap_contents_def)
  let ?i = "log_refs [Addref d, Delref x] (intern\<lparr>so_heap := h\<rparr>)"
  have "x \<noteq> Undef_value" "spl_pqueue_extract_helper x (so_flags intern) = Some d" "\<not> corrupted intern"
    using assms(1) x by (simp_all add: pq_ok_def) (simp add: pqueue_elem_def)
  then have "SplPriorityQueue_extract cf intern = (Ret_value d, False, ?i)"
    using h d(1) pq_delete_agree [OF assms(1,2) sh c] by (simp add: SplPriorityQueue_extract_def)
  moreover have "v \<in># heap_contents (so_heap intern)" if "v \<in># heap_contents h" for v
    using that dc by (metis insert_iff set_mset_add_mset_insert)
  then have "pq_ok cf ?i" using assms(1) d(1,2) dc by (simp add: pq_ok_def corrupted_def)
  moreover have "cf p p' \<ge> 0" if "pqueue_elem d' p' \<in># pq_contents intern" for d' p'
    using d(3) [OF that] x by (simp add: pq_lt_def not_less)
  moreover have "pq_contents intern = add_mset (pqueue_elem d p) (pq_contents ?i)"
    using dc unfolding x pq_contents_def by (elim conjE) simp
  ultimately show ?thesis by blast
qed

text \<open>Inserting a list of data with priorities, and extracting a number of elements.\<close>

fun pq_insert_all ::
    "('a spl_value \<Rightarrow> 'a spl_value \<Rightarrow> int) \<Rightarrow> ('a spl_value \<times> 'a spl_value) list \<Rightarrow> 'a spl_heap_object \<Rightarrow> 'a spl_heap_object option" where
  "pq_insert_all cf [] intern = Some intern"
| "pq_insert_all cf ((d, p) # ps) intern =
     (case SplPriorityQueue_insert cf d p intern of
        Inr (Ret_bool True, False, intern) \<Rightarrow> pq_insert_all cf ps intern | _ \<Rightarrow> None)"

fun pq_extract_all ::
    "('a spl_value \<Rightarrow> 'a spl_value \<Rightarrow> int) \<Rightarrow> nat \<Rightarrow> 'a spl_heap_object \<Rightarrow> ('a spl_value list \<times> 'a spl_heap_object) option" where
  "pq_extract_all cf 0 intern = Some ([], intern)"
| "pq_extract_all cf (Suc n) intern =
     (case SplPriorityQueue_extract cf intern of
        (Ret_value d, False, intern) \<Rightarrow> (case pq_extract_all cf n intern of Some (ds, intern) \<Rightarrow> Some (d # ds, intern) | None \<Rightarrow> None)
      | _ \<Rightarrow> None)"

definition pairs :: "('a spl_value \<times> 'a spl_value) list \<Rightarrow> 'a spl_value multiset" where
  "pairs ps = mset (map (\<lambda>(d, p). pqueue_elem d p) ps)"

lemma pq_insert_all_ok:
  "pq_ok cf i \<Longrightarrow> total_order cf \<Longrightarrow> length ps + size (pq_contents i) \<le> heap_limit \<Longrightarrow>
   \<exists>i'. pq_insert_all cf ps i = Some i' \<and> pq_ok cf i' \<and> pq_contents i' = pairs ps + pq_contents i"
proof (induction ps arbitrary: i)
  case (Cons q ps)
  obtain d p where q: "q = (d, p)" by (cases q)
  have "size (pq_contents i) < heap_limit" using Cons.prems(3) by simp
  from pq_insert_ok [OF Cons.prems(1,2) this, of d p]
  obtain i1 where i1: "SplPriorityQueue_insert cf d p i = Inr (Ret_bool True, False, i1)"
    "pq_ok cf i1" "pq_contents i1 = add_mset (pqueue_elem d p) (pq_contents i)" by blast
  from Cons.IH [OF i1(2) Cons.prems(2)] Cons.prems(3) i1 q show ?case by (auto simp: pairs_def)
qed (simp add: pairs_def)

lemma pq_extract_all_ok:
  "pq_ok cf i \<Longrightarrow> total_order cf \<Longrightarrow> n \<le> size (pq_contents i) \<Longrightarrow>
   \<exists>qs i'. pq_extract_all cf n i = Some (map fst qs, i') \<and> pq_ok cf i' \<and> length qs = n \<and>
     pq_contents i = pairs qs + pq_contents i' \<and> sorted_wrt (\<lambda>(_, p) (_, p'). cf p p' \<ge> 0) qs"
proof (induction n arbitrary: i)
  case (Suc n)
  then have "pq_contents i \<noteq> {#}" by auto
  from pq_extract_ok [OF Suc.prems(1,2) this] obtain d p i1 where i1: "SplPriorityQueue_extract cf i = (Ret_value d, False, i1)"
    "pq_ok cf i1" "pq_contents i = add_mset (pqueue_elem d p) (pq_contents i1)"
    "\<And>d' p'. pqueue_elem d' p' \<in># pq_contents i \<Longrightarrow> cf p p' \<ge> 0" by blast
  have "n \<le> size (pq_contents i1)" using Suc.prems(3) i1(3) by simp
  from Suc.IH [OF i1(2) Suc.prems(2) this] obtain qs i2 where i2: "pq_extract_all cf n i1 = Some (map fst qs, i2)" "pq_ok cf i2"
    "length qs = n" "pq_contents i1 = pairs qs + pq_contents i2" "sorted_wrt (\<lambda>(_, p) (_, p'). cf p p' \<ge> 0) qs" by blast
  have "cf p p' \<ge> 0" if "(d', p') \<in> set qs" for d' p'
  proof -
    have "pqueue_elem d' p' \<in># pairs qs" using that by (auto simp: pairs_def intro!: image_eqI [where x = "(d', p')"])
    then have "pqueue_elem d' p' \<in># pq_contents i" using i1(3) i2(4) by simp
    then show ?thesis by (rule i1(4))
  qed
  then have "sorted_wrt (\<lambda>(_, p) (_, p'). cf p p' \<ge> 0) ((d, p) # qs)" using i2(5) by auto
  moreover have "pq_contents i = pairs ((d, p) # qs) + pq_contents i2" using i1(3) i2(4) by (simp add: pairs_def)
  ultimately show ?case using i1(1) i2(1-3) by (intro exI [of _ "(d, p) # qs"] exI [of _ i2]) simp
qed (simp add: pairs_def)

lemma pairs_inj: "pairs ps = pairs qs \<Longrightarrow> mset ps = mset qs"
proof -
  have inj: "inj (\<lambda>(d, p). pqueue_elem d p)" by (auto simp: inj_on_def pqueue_elem_def)
  assume "pairs ps = pairs qs"
  then have "image_mset (\<lambda>(d, p). pqueue_elem d p) (mset ps) = image_mset (\<lambda>(d, p). pqueue_elem d p) (mset qs)"
    by (simp add: pairs_def)
  then show ?thesis using inj by (metis multiset.inj_map_strong UNIV_I inj_onD)
qed

end
