(* ===== verification/Spl_Heap_Properties.thy ===== *)
theory Spl_Heap_Properties
  imports Spl_Heap_Correct
begin

section \<open>The properties of the heaps of SPL\<close>

text \<open>
  The properties of the SPL heaps.
\<close>

lemma corrupted_bit [simp]: "SPL_HEAP_CORRUPTED \<noteq> 0"
  by (simp add: SPL_HEAP_CORRUPTED_def)

lemma heap_contents_flags [simp]: "heap_contents (h\<lparr>ph_flags := f\<rparr>) = heap_contents h"
  by (simp add: heap_contents_def)

lemma recovered [simp]: "(f AND NOT SPL_HEAP_CORRUPTED) AND SPL_HEAP_CORRUPTED = 0"
  by (rule bit_word_eqI) (auto simp: bit_simps)

text \<open>
  C33. A new \<open>SplPriorityQueue\<close> takes any list of up to 2^30 data with priorities and gives all of it
  back, in the order of falling priority, for every total preorder \<open>compare_function\<close> whose results
  an \<open>int\<close> holds.  With one more element the product \<open>max_size * 2\<close> of the insertion overflows.
\<close>

theorem SplPriorityQueue_correct:
  assumes "total_order cf" "length ps \<le> 2 ^ 30"
  shows "\<exists>i1 i2 qs. pq_insert_all cf ps (spl_heap_object_new_ex SplPriorityQueue_class None None False) = Some i1 \<and>
    pq_extract_all cf (length ps) i1 = Some (map fst qs, i2) \<and> mset qs = mset ps \<and>
    sorted_wrt (\<lambda>(_, p) (_, p'). cf p p' \<ge> 0) qs \<and> pq_contents i2 = {#}"
proof -
  let ?new = "spl_heap_object_new_ex SplPriorityQueue_class None None False :: 'a spl_heap_object"
  have "pq_ok cf ?new" "pq_contents ?new = {#}"
    by (simp_all add: pq_ok_def pq_contents_def spl_heap_object_new_ex_def spl_ptr_heap_init_def corrupted_def
        heap_order.heap_inv_def [OF pq_heap_order [OF assms(1)]] heap_order.heap_ok_def [OF pq_heap_order [OF assms(1)]]
        heap_shape_def heap_contents_def PTR_HEAP_BLOCK_SIZE_def)
  with pq_insert_all_ok [OF _ assms(1), of ?new ps] assms(2) obtain i1 where i1: "pq_insert_all cf ps ?new = Some i1" "pq_ok cf i1"
    "pq_contents i1 = pairs ps" by (auto simp: heap_limit_def)
  have n: "length ps = size (pairs ps)" by (simp add: pairs_def)
  then obtain qs i2 where q: "pq_extract_all cf (length ps) i1 = Some (map fst qs, i2)" "length qs = length ps"
    "pairs ps = pairs qs + pq_contents i2" "sorted_wrt (\<lambda>(_, p) (_, p'). cf p p' \<ge> 0) qs"
    using pq_extract_all_ok [OF i1(2) assms(1), of "length ps"] i1(3) by auto
  have "size (pairs ps) = size (pairs qs) + size (pq_contents i2)" using arg_cong [OF q(3), of size] by simp
  then have e: "pq_contents i2 = {#}" using q(2) by (simp add: pairs_def)
  then have "pairs qs = pairs ps" using q(3) by simp
  then have "mset qs = mset ps" by (rule pairs_inj)
  with e i1(1) q(1,4) show ?thesis
    by (intro exI [of _ i1] exI [of _ i2] exI [of _ qs] conjI)
qed

definition demo_pairs :: "(int spl_value \<times> int spl_value) list" where
  "demo_pairs = [(Other_value 7, Other_value 1), (Other_value 8, Other_value 2)]"

theorem SplPriorityQueue_correct_witness:
  "\<exists>i1 i2 qs. pq_insert_all (ranked (\<lambda>v. case v of Other_value n \<Rightarrow> n | _ \<Rightarrow> 0)) demo_pairs
      (spl_heap_object_new_ex SplPriorityQueue_class None None False) = Some i1 \<and>
    pq_extract_all (ranked (\<lambda>v. case v of Other_value n \<Rightarrow> n | _ \<Rightarrow> 0)) 2 i1 = Some (map fst qs, i2) \<and>
    mset qs = mset demo_pairs \<and> pq_contents i2 = {#}"
proof -
  have "total_order (ranked (\<lambda>v. case v of Other_value n \<Rightarrow> n | _ \<Rightarrow> 0))"
    by (auto simp: total_order_def ranked_def sgn_if INT_MAX_def split: if_splits)
  moreover have "length demo_pairs = 2" by (simp add: demo_pairs_def)
  ultimately show ?thesis using SplPriorityQueue_correct [of _ demo_pairs] by fastforce
qed

text \<open>
  C34. Whatever a user's comparison answers for two values and wherever it throws, an insertion into a
  heap of fewer than 2^30 elements neither loses nor duplicates an element, and it marks the heap
  corrupted exactly if there was an exception.  Until \<open>recoverFromCorruption\<close>, which gives all the
  elements back, every insertion, extraction, look at the top and step of an iterator then throws and
  changes nothing.  \<open>SplHeap::next\<close> does not look at the mark: it throws no such exception, takes the
  top off the corrupted heap and drops it.
\<close>

theorem SplHeap_insert_corruption:
  assumes "heap_shape (so_heap intern)" "\<not> corrupted intern" "ph_count (so_heap intern) < 2 ^ 30"
  shows "\<exists>r exc i'. SplHeap_insert cf v intern = Inr (r, exc, i') \<and>
    heap_contents (so_heap i') = add_mset v (heap_contents (so_heap intern)) \<and> (corrupted i' \<longleftrightarrow> exc) \<and>
    (exc \<longrightarrow> SplHeap_insert cf w i' = Inr (Throws corrupted_message, True, i') \<and>
       SplHeap_extract cf i' = (Throws corrupted_message, True, i') \<and>
       SplHeap_top i' = (Throws corrupted_message, True, i') \<and>
       spl_heap_it_move_forward cf i' = (Inl corrupted_message, True, i') \<and>
       (\<exists>e n. SplHeap_next cf True i' = (Ret_null, e, n) \<and> corrupted n \<and>
          add_mset (ph_elements (so_heap i') ! 0) (heap_contents (so_heap n)) = heap_contents (so_heap i') \<and>
          so_refs n = so_refs i' @ [Delref (ph_elements (so_heap i') ! 0)])) \<and>
    (\<exists>i''. SplHeap_recoverFromCorruption i' = (Ret_bool True, False, i'') \<and> \<not> corrupted i'' \<and>
       heap_contents (so_heap i'') = heap_contents (so_heap i'))"
proof -
  have "ph_count (so_heap intern) < heap_limit" using assms(3) by (simp add: heap_limit_def)
  from insert_returns [OF this] obtain e h
    where h: "spl_ptr_heap_insert (object_cmp cf intern) (so_heap intern) v False = Inr (e, h)" by blast
  define i' where "i' = (log_refs [Addref v] intern)\<lparr>so_heap := h\<rparr>"
  have i': "SplHeap_insert cf v intern = Inr (Ret_bool True, e, i')" "so_heap i' = h"
    using assms(2) h by (simp_all add: SplHeap_insert_def i'_def)
  note c = insert_contents [OF assms(1) h]
  have cor: "corrupted i' \<longleftrightarrow> e" using c i' assms(2) by (auto simp: corrupted_def)
  obtain x e2 h2 where d: "spl_ptr_heap_delete_top (object_cmp cf i') h False = (x, e2, h2)" by (metis surj_pair)
  from delete_contents [OF _ _ d] c have dc: "x = ph_elements h ! 0" "add_mset x (heap_contents h2) = heap_contents h"
    "ph_flags h2 = (if e2 then ph_flags h OR SPL_HEAP_CORRUPTED else ph_flags h)" by auto
  have next_off: "SplHeap_next cf True i' = (Ret_null, e2, log_refs [Delref x] (i'\<lparr>so_heap := h2\<rparr>))"
    using d i'(2) by (simp add: SplHeap_next_def)
  have "corrupted (log_refs [Delref x] (i'\<lparr>so_heap := h2\<rparr>))" if e
    using that cor dc(3) i'(2) by (auto simp: corrupted_def)
  then have n: "\<exists>e n. SplHeap_next cf True i' = (Ret_null, e, n) \<and> corrupted n \<and>
      add_mset (ph_elements (so_heap i') ! 0) (heap_contents (so_heap n)) = heap_contents (so_heap i') \<and>
      so_refs n = so_refs i' @ [Delref (ph_elements (so_heap i') ! 0)]" if e
    using that next_off dc i'(2) by (simp add: log_refs_def)
  show ?thesis
    by (rule exI [of _ "Ret_bool True"], rule exI [of _ e], rule exI [of _ i'])
      (use c cor i' n in \<open>simp add: SplHeap_insert_def SplHeap_extract_def SplHeap_top_def spl_heap_it_move_forward_def
        SplHeap_recoverFromCorruption_def corrupted_def\<close>)
qed

theorem SplHeap_insert_corruption_witness:
  "\<exists>r i'. SplHeap_insert (\<lambda>a b. 0) (Other_value 3)
     \<lparr>so_heap = \<lparr>ph_elements = [Other_value (1::int), Undef_value], ph_count = 1, ph_max_size = 2, ph_flags = 0\<rparr>,
      so_flags = 0, so_cmp = Max_cmp, so_fptr_cmp = Some (\<lambda>a b. None), so_refs = []\<rparr> = Inr (r, True, i') \<and>
    corrupted i' \<and> SplHeap_top i' = (Throws corrupted_message, True, i')"
proof -
  let ?i = "\<lparr>so_heap = \<lparr>ph_elements = [Other_value (1::int), Undef_value], ph_count = 1, ph_max_size = 2, ph_flags = 0\<rparr>,
      so_flags = 0, so_cmp = Max_cmp, so_fptr_cmp = Some (\<lambda>a b. None), so_refs = []\<rparr>"
  have "heap_shape (so_heap ?i)" "\<not> corrupted ?i" "ph_count (so_heap ?i) < 2 ^ 30"
    by (simp_all add: heap_shape_def corrupted_def)
  from SplHeap_insert_corruption [OF this, of "\<lambda>a b. 0" "Other_value 3"]
  obtain r exc i' where e: "SplHeap_insert (\<lambda>a b. 0) (Other_value 3) ?i = Inr (r, exc, i')" "corrupted i' \<longleftrightarrow> exc"
    "exc \<longrightarrow> SplHeap_top i' = (Throws corrupted_message, True, i')" by blast
  moreover have "exc"
    using e(1) by (auto simp: SplHeap_insert_def spl_ptr_heap_insert_def sift_up.simps object_cmp_def heap_grow_def log_refs_def
        spl_ptr_heap_zval_max_cmp_def call_compare_def corrupted_def INT_MAX_def Let_def)
  ultimately show ?thesis by (intro exI [of _ r] exI [of _ i'] conjI) (simp_all only: simp_thms)
qed

end
