(* ===== verification/Zend_Gc.thy ===== *)
theory Zend_Gc
  imports PHP_Prelude
begin

section \<open>The cycle collector: marking and scanning (Zend/zend\_gc.c)\<close>

text \<open>
  The refcounted values of a request are the nodes of a heap; an address is an index into it.  A
  node has the fields of \<open>GC_TYPE_INFO\<close> the collector uses (its type, and the color and the buffer
  address of \<open>GC_INFO\<close>), its count of references, and what the collector finds in it: for an
  object the values and the table its \<open>get_gc\<close> handler returns, for an array its buckets, for a
  reference its value.  An \<open>INDIRECT\<close> value stands for the value it points to.

  The C code walks the graph by recursion, with a jump for the last child.  Nothing is done after a
  child returns but going on to the next one, so here the children still to come are a worklist;
  the order of all changes is that of the C code.  An address outside the heap, which C would
  dereference, is passed over; the heaps of the theorems have none.
\<close>

datatype gc_color = GC_BLACK | GC_WHITE | GC_GREY | GC_PURPLE

datatype gc_type = IS_OBJECT | IS_ARRAY | IS_REFERENCE | Other_type

datatype gc_zval = Undef_zval | Plain_zval | Counted_zval nat | Indirect_zval gc_zval

record gc_node =
  gn_type :: gc_type
  gn_refcount :: int
  gn_color :: gc_color
  gn_address :: nat
  gn_free_called :: bool
  gn_get_gc :: bool
  gn_zvals :: "gc_zval list"
  gn_ht :: "gc_zval list option"
  gn_has_destructor :: bool
  gn_destructor_called :: bool

type_synonym gc_heap = "gc_node list"

subsection \<open>Colors and counts\<close>

definition is_color :: "gc_heap \<Rightarrow> nat \<Rightarrow> gc_color \<Rightarrow> bool" where
  "is_color h ref c = (ref < length h \<and> gn_color (h ! ref) = c)"

definition not_color :: "gc_heap \<Rightarrow> nat \<Rightarrow> gc_color \<Rightarrow> bool" where
  "not_color h ref c = (ref < length h \<and> gn_color (h ! ref) \<noteq> c)"

definition set_color :: "nat \<Rightarrow> gc_color \<Rightarrow> gc_heap \<Rightarrow> gc_heap" where
  "set_color ref c h = h[ref := (h ! ref)\<lparr>gn_color := c\<rparr>]"

definition GC_ADDREF :: "nat \<Rightarrow> gc_heap \<Rightarrow> gc_heap" where
  "GC_ADDREF ref h = h[ref := (h ! ref)\<lparr>gn_refcount := gn_refcount (h ! ref) + 1\<rparr>]"

definition GC_DELREF :: "nat \<Rightarrow> gc_heap \<Rightarrow> gc_heap" where
  "GC_DELREF ref h = h[ref := (h ! ref)\<lparr>gn_refcount := gn_refcount (h ! ref) - 1\<rparr>]"

subsection \<open>What a node refers to\<close>

definition Z_INDIRECT :: "gc_zval \<Rightarrow> gc_zval" where
  "Z_INDIRECT z = (case z of Indirect_zval z \<Rightarrow> z | _ \<Rightarrow> z)"

definition ht_values :: "gc_node \<Rightarrow> gc_zval list" where
  "ht_values n = (case gn_ht n of None \<Rightarrow> [] | Some zs \<Rightarrow> map Z_INDIRECT zs)"

definition object_values :: "gc_node \<Rightarrow> gc_zval list" where
  "object_values n = (if \<not> gn_free_called n \<and> gn_get_gc n then gn_zvals n @ ht_values n else [])"

text \<open>The values the collector visits, in its order; the symbol table is left alone.\<close>

definition gc_values :: "gc_node \<Rightarrow> gc_zval list" where
  "gc_values n = (case gn_type n of
       IS_OBJECT \<Rightarrow> object_values n
     | IS_ARRAY \<Rightarrow> ht_values n
     | IS_REFERENCE \<Rightarrow> gn_zvals n
     | Other_type \<Rightarrow> [])"

fun counted :: "gc_zval list \<Rightarrow> nat list" where
  "counted [] = []"
| "counted (Counted_zval r # zs) = r # counted zs"
| "counted (_ # zs) = counted zs"

definition is_symbol_table :: "nat \<Rightarrow> gc_heap \<Rightarrow> nat \<Rightarrow> bool" where
  "is_symbol_table st h ref = (gn_type (h ! ref) = IS_ARRAY \<and> ref = st)"

definition gc_children :: "nat \<Rightarrow> gc_heap \<Rightarrow> nat \<Rightarrow> nat list" where
  "gc_children st h ref = (if is_symbol_table st h ref then [] else counted (gc_values (h ! ref)))"

definition with_color :: "gc_color \<Rightarrow> gc_heap \<Rightarrow> nat" where
  "with_color c h = length (filter (\<lambda>n. gn_color n = c) h)"

definition without_color :: "gc_color \<Rightarrow> gc_heap \<Rightarrow> nat" where
  "without_color c h = length (filter (\<lambda>n. gn_color n \<noteq> c) h)"

lemma refcount_simps [simp]:
  "length (GC_ADDREF r h) = length h" "length (GC_DELREF r h) = length h" "length (set_color r c h) = length h"
  by (simp_all add: GC_ADDREF_def GC_DELREF_def set_color_def)

lemma filter_update_same: "i < length xs \<Longrightarrow> P x = P (xs ! i) \<Longrightarrow> length (filter P (xs[i := x])) = length (filter P xs)"
  by (induction xs arbitrary: i) (auto split: nat.splits simp: nth_Cons')

lemma filter_update_less: "i < length xs \<Longrightarrow> P (xs ! i) \<Longrightarrow> \<not> P x \<Longrightarrow> length (filter P (xs[i := x])) < length (filter P xs)"
proof (induction xs arbitrary: i)
  case (Cons y ys)
  then show ?case by (cases i) (auto simp: le_imp_less_Suc)
qed simp

lemma colors_refcount [simp]:
  "with_color c (GC_ADDREF r h) = with_color c h" "with_color c (GC_DELREF r h) = with_color c h"
  "without_color c (GC_ADDREF r h) = without_color c h" "without_color c (GC_DELREF r h) = without_color c h"
  unfolding with_color_def without_color_def GC_ADDREF_def GC_DELREF_def
  by (cases "r < length h"; simp add: filter_update_same list_update_beyond)+

lemma is_color_refcount [simp]:
  "is_color (GC_ADDREF r h) x c = is_color h x c" "is_color (GC_DELREF r h) x c = is_color h x c"
  "not_color (GC_ADDREF r h) x c = not_color h x c" "not_color (GC_DELREF r h) x c = not_color h x c"
  by (cases "r = x"; auto simp: is_color_def not_color_def GC_ADDREF_def GC_DELREF_def)+

lemma without_color_set: "not_color h r c \<Longrightarrow> without_color c (set_color r c h) < without_color c h"
  by (auto simp: not_color_def without_color_def set_color_def intro: filter_update_less)

lemma without_color_count:
  "not_color h r c \<Longrightarrow> without_color c (set_color r c (GC_ADDREF r h)) < without_color c h"
  "not_color h r c \<Longrightarrow> without_color c (set_color r c (GC_DELREF r h)) < without_color c h"
  using without_color_set [of "GC_ADDREF r h" r c] without_color_set [of "GC_DELREF r h" r c] by simp_all

lemma without_color_other: "not_color h r c \<Longrightarrow> c' \<noteq> c \<Longrightarrow> without_color c (set_color r c' h) = without_color c h"
  by (auto simp: not_color_def without_color_def set_color_def intro: filter_update_same)

lemma with_color_set: "is_color h r c \<Longrightarrow> c' \<noteq> c \<Longrightarrow> with_color c (set_color r c' h) < with_color c h"
  by (auto simp: is_color_def with_color_def set_color_def intro: filter_update_less)

lemma with_color_leave: "c' \<noteq> c \<Longrightarrow> with_color c (set_color r c' h) \<le> with_color c h"
proof (cases "is_color h r c")
  case False
  assume "c' \<noteq> c"
  then show ?thesis using False
    by (cases "r < length h") (simp_all add: is_color_def with_color_def set_color_def filter_update_same list_update_beyond)
qed (use with_color_set less_imp_le in blast)

subsection \<open>Marking grey\<close>

function mark_grey_work :: "nat \<Rightarrow> nat list \<Rightarrow> gc_heap \<Rightarrow> gc_heap" where
  "mark_grey_work st [] h = h"
| "mark_grey_work st (ref # work) h =
     (let h = GC_DELREF ref h
      in if \<not> not_color h ref GC_GREY then mark_grey_work st work h
         else if is_symbol_table st h ref then mark_grey_work st work (set_color ref GC_BLACK h)
         else mark_grey_work st (gc_children st h ref @ work) (set_color ref GC_GREY h))"
  by pat_completeness auto
termination
  by (relation "measures [\<lambda>(st, work, h). without_color GC_GREY h, \<lambda>(st, work, h). length work]")
    (auto simp: without_color_other without_color_count)

definition gc_mark_grey :: "nat \<Rightarrow> nat \<Rightarrow> gc_heap \<Rightarrow> gc_heap" where
  "gc_mark_grey st ref h =
     (if \<not> not_color h ref GC_GREY then h
      else if is_symbol_table st h ref then set_color ref GC_BLACK h
      else mark_grey_work st (gc_children st h ref) (set_color ref GC_GREY h))"

subsection \<open>Scanning\<close>

text \<open>\<open>gc_scan_black\<close> gives back the references of what turns out to be in use.\<close>

function scan_black_work :: "nat \<Rightarrow> nat list \<Rightarrow> gc_heap \<Rightarrow> gc_heap" where
  "scan_black_work st [] h = h"
| "scan_black_work st (ref # work) h =
     (let h = GC_ADDREF ref h
      in if \<not> not_color h ref GC_BLACK then scan_black_work st work h
         else scan_black_work st (gc_children st h ref @ work) (set_color ref GC_BLACK h))"
  by pat_completeness auto
termination
  by (relation "measures [\<lambda>(st, work, h). without_color GC_BLACK h, \<lambda>(st, work, h). length work]")
    (auto simp: without_color_count)

definition gc_scan_black :: "nat \<Rightarrow> nat \<Rightarrow> gc_heap \<Rightarrow> gc_heap" where
  "gc_scan_black st ref h = scan_black_work st (gc_children st h ref) (set_color ref GC_BLACK h)"

lemma scan_black_grey: "with_color GC_GREY (scan_black_work st work h) \<le> with_color GC_GREY h"
proof (induction st work h rule: scan_black_work.induct)
  case (2 st ref work h)
  let ?h = "GC_ADDREF ref h"
  have "with_color GC_GREY (set_color ref GC_BLACK ?h) \<le> with_color GC_GREY ?h" by (rule with_color_leave) simp
  with 2 show ?case by (auto simp: Let_def)
qed simp

function scan_work :: "nat \<Rightarrow> nat list \<Rightarrow> gc_heap \<Rightarrow> gc_heap" where
  "scan_work st [] h = h"
| "scan_work st (ref # work) h =
     (if \<not> is_color h ref GC_GREY then scan_work st work h
      else if gn_refcount (h ! ref) > 0 then scan_work st work (gc_scan_black st ref h)
      else if is_symbol_table st h ref then scan_work st work (set_color ref GC_BLACK h)
      else scan_work st (gc_children st h ref @ work) (set_color ref GC_WHITE h))"
  by pat_completeness auto
termination
proof (relation "measures [\<lambda>(st, work, h). with_color GC_GREY h, \<lambda>(st, work, h). length work]", goal_cases)
  case (3 st ref work h)
  then have "with_color GC_GREY (set_color ref GC_BLACK h) < with_color GC_GREY h" by (simp add: with_color_set)
  then have "with_color GC_GREY (gc_scan_black st ref h) < with_color GC_GREY h"
    using scan_black_grey [of st "gc_children st h ref" "set_color ref GC_BLACK h"] by (simp add: gc_scan_black_def)
  then show ?case by simp
qed (auto simp: with_color_set)

definition gc_scan :: "nat \<Rightarrow> nat \<Rightarrow> gc_heap \<Rightarrow> gc_heap" where
  "gc_scan st ref h = scan_work st [ref] h"

end
