(* ===== verification/Zend_Gc_Buffer.thy ===== *)
theory Zend_Gc_Buffer
  imports Zend_Gc
begin

section \<open>The cycle collector: the root buffer (Zend/zend\_gc.c)\<close>

text \<open>
  The buffer holds the possible roots and, during a collection, the garbage; slots given back form
  a linked list.  The two low bits of a slot say which it is.  Slot 0 is never used.  Memory of the
  buffer that has not been written yet reads as \<open>Null_ref\<close>; no operation looks at it.
\<close>

datatype gc_entry = Null_ref | Root_ref nat | Unused_ref nat | Garbage_ref nat

record gc_state =
  gs_heap :: gc_heap
  gs_symbol_table :: nat
  G_enabled :: bool
  G_active :: bool
  G_protected :: bool
  G_full :: bool
  G_buf :: "gc_entry list"
  G_unused :: nat
  G_first_unused :: nat
  G_threshold :: nat
  G_buf_size :: nat
  G_num_roots :: nat
  G_runs :: nat
  G_collected :: nat

definition GC_INVALID :: nat where "GC_INVALID = 0"
definition GC_FIRST_ROOT :: nat where "GC_FIRST_ROOT = 1"
definition GC_DEFAULT_BUF_SIZE :: nat where "GC_DEFAULT_BUF_SIZE = 16 * 1024"
definition GC_BUF_GROW_STEP :: nat where "GC_BUF_GROW_STEP = 128 * 1024"
definition GC_MAX_UNCOMPRESSED :: nat where "GC_MAX_UNCOMPRESSED = 1024 * 1024"
definition GC_MAX_BUF_SIZE :: nat where "GC_MAX_BUF_SIZE = 0x40000000"
definition GC_THRESHOLD_DEFAULT :: nat where "GC_THRESHOLD_DEFAULT = 10000"
definition GC_THRESHOLD_STEP :: nat where "GC_THRESHOLD_STEP = 10000"
definition GC_THRESHOLD_MAX :: nat where "GC_THRESHOLD_MAX = 1000000000"
definition GC_THRESHOLD_TRIGGER :: int where "GC_THRESHOLD_TRIGGER = 100"

subsection \<open>Slots\<close>

text \<open>
  A slot as the machine word it is; addresses of values are multiples of 8.  \<open>GC_LIST2IDX\<close> cuts the
  word to 32 bits before it divides.
\<close>

fun entry_word :: "gc_entry \<Rightarrow> nat" where
  "entry_word Null_ref = 0"
| "entry_word (Root_ref r) = 8 * r"
| "entry_word (Unused_ref l) = l"
| "entry_word (Garbage_ref r) = 8 * r + 2"

definition GC_IDX2LIST :: "nat \<Rightarrow> nat" where
  "GC_IDX2LIST idx = idx * 8 + 1"

definition GC_LIST2IDX :: "nat \<Rightarrow> nat" where
  "GC_LIST2IDX l = (l mod 2 ^ 32) div 8"

fun GC_IS_UNUSED :: "gc_entry \<Rightarrow> bool" where
  "GC_IS_UNUSED (Unused_ref _) = True"
| "GC_IS_UNUSED _ = False"

fun entry_ref :: "gc_entry \<Rightarrow> nat option" where
  "entry_ref (Root_ref r) = Some r"
| "entry_ref (Garbage_ref r) = Some r"
| "entry_ref _ = None"

definition on_heap :: "(gc_heap \<Rightarrow> gc_heap) \<Rightarrow> gc_state \<Rightarrow> gc_state" where
  "on_heap f g = g\<lparr>gs_heap := f (gs_heap g)\<rparr>"

definition GC_REF_SET_INFO :: "nat \<Rightarrow> nat \<Rightarrow> gc_color \<Rightarrow> gc_heap \<Rightarrow> gc_heap" where
  "GC_REF_SET_INFO ref addr c h = h[ref := (h ! ref)\<lparr>gn_address := addr, gn_color := c\<rparr>]"

definition gc_compress :: "nat \<Rightarrow> nat" where
  "gc_compress idx = idx mod GC_MAX_UNCOMPRESSED"

text \<open>The search ends at the end of the buffer, where C would go on reading.\<close>

function gc_decompress :: "gc_entry list \<Rightarrow> nat \<Rightarrow> nat \<Rightarrow> nat res" where
  "gc_decompress buf ref idx =
     (if idx \<ge> length buf then Inl UB
      else if entry_ref (buf ! idx) = Some ref then Inr idx
      else gc_decompress buf ref (idx + GC_MAX_UNCOMPRESSED))"
  by pat_completeness auto
termination
  by (relation "measure (\<lambda>(buf, ref, idx). length buf - idx)") (auto simp: GC_MAX_UNCOMPRESSED_def)

declare gc_decompress.simps [simp del]

definition gc_fetch_unused :: "gc_state \<Rightarrow> nat \<times> gc_state" where
  "gc_fetch_unused g = (G_unused g, g\<lparr>G_unused := GC_LIST2IDX (entry_word (G_buf g ! G_unused g))\<rparr>)"

definition gc_link_unused :: "nat \<Rightarrow> gc_state \<Rightarrow> gc_state" where
  "gc_link_unused root g = g\<lparr>G_buf := (G_buf g)[root := Unused_ref (GC_IDX2LIST (G_unused g))], G_unused := root\<rparr>"

definition gc_fetch_next_unused :: "gc_state \<Rightarrow> nat \<times> gc_state" where
  "gc_fetch_next_unused g = (G_first_unused g, g\<lparr>G_first_unused := G_first_unused g + 1\<rparr>)"

definition gc_remove_from_roots :: "nat \<Rightarrow> gc_state \<Rightarrow> gc_state" where
  "gc_remove_from_roots root g = (let g = gc_link_unused root g in g\<lparr>G_num_roots := G_num_roots g - 1\<rparr>)"

definition GC_HAS_UNUSED :: "gc_state \<Rightarrow> bool" where
  "GC_HAS_UNUSED g = (G_unused g \<noteq> GC_INVALID)"

definition GC_HAS_NEXT_UNUSED_UNDER_THRESHOLD :: "gc_state \<Rightarrow> bool" where
  "GC_HAS_NEXT_UNUSED_UNDER_THRESHOLD g = (G_first_unused g < G_threshold g)"

definition GC_HAS_NEXT_UNUSED :: "gc_state \<Rightarrow> bool" where
  "GC_HAS_NEXT_UNUSED g = (G_first_unused g \<noteq> G_buf_size g)"

subsection \<open>Setting up and switching\<close>

definition gc_globals_ctor_ex :: "gc_heap \<Rightarrow> nat \<Rightarrow> gc_state" where
  "gc_globals_ctor_ex h st = \<lparr>gs_heap = h, gs_symbol_table = st, G_enabled = False, G_active = False, G_protected = True,
     G_full = False, G_buf = [], G_unused = GC_INVALID, G_first_unused = GC_INVALID, G_threshold = GC_INVALID,
     G_buf_size = GC_INVALID, G_num_roots = 0, G_runs = 0, G_collected = 0\<rparr>"

definition root_buffer_dtor :: "gc_state \<Rightarrow> gc_state" where
  "root_buffer_dtor g = g\<lparr>G_buf := []\<rparr>"

definition gc_reset :: "gc_state \<Rightarrow> gc_state" where
  "gc_reset g =
     (if G_buf g \<noteq> [] then g\<lparr>G_active := False, G_protected := False, G_full := False, G_unused := GC_INVALID,
        G_first_unused := GC_FIRST_ROOT, G_num_roots := 0, G_runs := 0, G_collected := 0\<rparr>
      else g)"

definition gc_enable :: "bool \<Rightarrow> gc_state \<Rightarrow> bool \<times> gc_state" where
  "gc_enable enable g =
     (let old_enabled = G_enabled g;
          g = g\<lparr>G_enabled := enable\<rparr>
      in (old_enabled,
          if enable \<and> \<not> old_enabled \<and> G_buf g = [] then
            gc_reset (g\<lparr>G_buf := replicate GC_DEFAULT_BUF_SIZE Null_ref, G_buf_size := GC_DEFAULT_BUF_SIZE,
              G_threshold := GC_THRESHOLD_DEFAULT + GC_FIRST_ROOT\<rparr>)
          else g))"

definition gc_enabled :: "gc_state \<Rightarrow> bool" where
  "gc_enabled g = G_enabled g"

definition gc_protect :: "bool \<Rightarrow> gc_state \<Rightarrow> bool \<times> gc_state" where
  "gc_protect protect g = (G_protected g, g\<lparr>G_protected := protect\<rparr>)"

definition gc_protected :: "gc_state \<Rightarrow> bool" where
  "gc_protected g = G_protected g"

subsection \<open>Growing\<close>

text \<open>The warning that is raised when the buffer cannot grow is not modelled.\<close>

definition gc_grow_root_buffer :: "gc_state \<Rightarrow> gc_state" where
  "gc_grow_root_buffer g =
     (if G_buf_size g \<ge> GC_MAX_BUF_SIZE \<and> \<not> G_full g then
        g\<lparr>G_active := True, G_protected := True, G_full := True\<rparr>
      else
        (let new_size = (if G_buf_size g < GC_BUF_GROW_STEP then G_buf_size g * 2 else G_buf_size g + GC_BUF_GROW_STEP);
             new_size = (if new_size > GC_MAX_BUF_SIZE then GC_MAX_BUF_SIZE else new_size)
         in g\<lparr>G_buf := take new_size (G_buf g) @ replicate (new_size - length (G_buf g)) Null_ref, G_buf_size := new_size\<rparr>))"

definition gc_adjust_threshold :: "int \<Rightarrow> gc_state \<Rightarrow> gc_state" where
  "gc_adjust_threshold cnt g =
     (if cnt < GC_THRESHOLD_TRIGGER then
        (if G_threshold g < GC_THRESHOLD_MAX then
           (let new_threshold = G_threshold g + GC_THRESHOLD_STEP;
                new_threshold = (if new_threshold > GC_THRESHOLD_MAX then GC_THRESHOLD_MAX else new_threshold);
                g = (if new_threshold > G_buf_size g then gc_grow_root_buffer g else g)
            in if new_threshold \<le> G_buf_size g then g\<lparr>G_threshold := new_threshold\<rparr> else g)
         else g)
      else if G_threshold g > GC_THRESHOLD_DEFAULT then
        (let new_threshold = G_threshold g - GC_THRESHOLD_STEP;
             new_threshold = (if new_threshold < GC_THRESHOLD_DEFAULT then GC_THRESHOLD_DEFAULT else new_threshold)
         in g\<lparr>G_threshold := new_threshold\<rparr>)
      else g)"

subsection \<open>Adding and removing roots\<close>

definition new_root :: "nat \<Rightarrow> nat \<times> gc_state \<Rightarrow> gc_state" where
  "new_root ref = (\<lambda>(idx, g).
     (let g = g\<lparr>G_buf := (G_buf g)[idx := Root_ref ref]\<rparr>;
          g = on_heap (GC_REF_SET_INFO ref (gc_compress idx) GC_PURPLE) g
      in g\<lparr>G_num_roots := G_num_roots g + 1\<rparr>))"

text \<open>\<open>gc_collect_cycles\<close> is a function pointer; \<open>rc_dtor\<close> destroys a value whose count has become zero.\<close>

definition gc_possible_root_when_full ::
    "(gc_state \<Rightarrow> int \<times> gc_state) \<Rightarrow> (nat \<Rightarrow> gc_state \<Rightarrow> gc_state) \<Rightarrow> nat \<Rightarrow> gc_state \<Rightarrow> gc_state" where
  "gc_possible_root_when_full collect rc_dtor ref g =
     (let store = (\<lambda>g. if GC_HAS_UNUSED g then new_root ref (gc_fetch_unused g)
            else if GC_HAS_NEXT_UNUSED g then new_root ref (gc_fetch_next_unused g)
            else (let g = gc_grow_root_buffer g
                  in if \<not> GC_HAS_NEXT_UNUSED g then g else new_root ref (gc_fetch_next_unused g)))
      in if G_enabled g \<and> \<not> G_active g then
           (let (cnt, g) = collect (on_heap (GC_ADDREF ref) g);
                g = on_heap (GC_DELREF ref) (gc_adjust_threshold cnt g);
                n = gs_heap g ! ref
            in if gn_refcount n = 0 then rc_dtor ref g
               else if gn_address n \<noteq> 0 \<or> gn_color n \<noteq> GC_BLACK then g
               else store g)
         else store g)"

definition gc_possible_root ::
    "(gc_state \<Rightarrow> int \<times> gc_state) \<Rightarrow> (nat \<Rightarrow> gc_state \<Rightarrow> gc_state) \<Rightarrow> nat \<Rightarrow> gc_state \<Rightarrow> gc_state" where
  "gc_possible_root collect rc_dtor ref g =
     (if G_protected g then g
      else if GC_HAS_UNUSED g then new_root ref (gc_fetch_unused g)
      else if GC_HAS_NEXT_UNUSED_UNDER_THRESHOLD g then new_root ref (gc_fetch_next_unused g)
      else gc_possible_root_when_full collect rc_dtor ref g)"

definition gc_remove_compressed :: "nat \<Rightarrow> nat \<Rightarrow> gc_state \<Rightarrow> gc_state res" where
  "gc_remove_compressed ref idx g =
     rbind (gc_decompress (G_buf g) ref idx) (\<lambda>root. Inr (gc_remove_from_roots root g))"

definition gc_remove_from_buffer :: "nat \<Rightarrow> gc_state \<Rightarrow> gc_state res" where
  "gc_remove_from_buffer ref g =
     (let idx = gn_address (gs_heap g ! ref);
          g = on_heap (GC_REF_SET_INFO ref 0 GC_BLACK) g
      in if G_first_unused g \<ge> GC_MAX_UNCOMPRESSED then gc_remove_compressed ref idx g
         else Inr (gc_remove_from_roots idx g))"

subsection \<open>Two-finger compaction\<close>

text \<open>The upper finger stops at slot 0, which is not unused; the lower one at the end of the buffer.\<close>

function skip_used :: "gc_entry list \<Rightarrow> nat \<Rightarrow> nat" where
  "skip_used buf free = (if free < length buf \<and> \<not> GC_IS_UNUSED (buf ! free) then skip_used buf (free + 1) else free)"
  by pat_completeness auto
termination
  by (relation "measure (\<lambda>(buf, free). length buf - free)") auto

declare skip_used.simps [simp del]

fun skip_unused :: "gc_entry list \<Rightarrow> nat \<Rightarrow> nat" where
  "skip_unused buf 0 = 0"
| "skip_unused buf (Suc scan) = (if GC_IS_UNUSED (buf ! Suc scan) then skip_unused buf scan else Suc scan)"

lemma skip_used_ge: "free \<le> skip_used buf free"
  by (induction buf free rule: skip_used.induct) (subst skip_used.simps, auto)

lemma skip_unused_le: "skip_unused buf scan \<le> scan"
  by (induction scan) auto

text \<open>The entry of the upper finger moves to the lower one, and its value learns its new address.\<close>

definition move_entry :: "nat \<Rightarrow> nat \<Rightarrow> gc_state \<Rightarrow> gc_state" where
  "move_entry scan free g =
     (let p = G_buf g ! scan;
          g = g\<lparr>G_buf := (G_buf g)[free := p]\<rparr>
      in case entry_ref p of None \<Rightarrow> g
         | Some r \<Rightarrow> on_heap (GC_REF_SET_INFO r (gc_compress free) (gn_color (gs_heap g ! r))) g)"

function compact_loop :: "nat \<Rightarrow> nat \<Rightarrow> nat \<Rightarrow> gc_state \<Rightarrow> gc_state" where
  "compact_loop endp free scan g =
     (if free < scan then
        (let free = skip_used (G_buf g) free;
             scan = skip_unused (G_buf g) scan
         in if scan > free then
              (let g = move_entry scan free g
               in if scan - 1 \<le> endp then g else compact_loop endp (free + 1) (scan - 1) g)
            else compact_loop endp free scan g)
      else g)"
  by pat_completeness auto
termination
proof (relation "measure (\<lambda>(endp, free, scan, g). scan - free)", goal_cases)
  case (2 endp free scan g x xa xb)
  then show ?case using skip_used_ge [of free "G_buf g"] skip_unused_le [of "G_buf g" scan] by auto
qed auto

declare compact_loop.simps [simp del]

definition gc_compact :: "gc_state \<Rightarrow> gc_state" where
  "gc_compact g =
     (if G_num_roots g + GC_FIRST_ROOT \<noteq> G_first_unused g then
        (let g = (if G_num_roots g \<noteq> 0 then compact_loop (G_num_roots g) GC_FIRST_ROOT (G_first_unused g - 1) g else g)
         in g\<lparr>G_unused := GC_INVALID, G_first_unused := G_num_roots g + GC_FIRST_ROOT\<rparr>)
      else g)"

end
