(* ===== verification/Zend_Gc_Collect.thy ===== *)
theory Zend_Gc_Collect
  imports Zend_Gc_Buffer
begin

section \<open>The cycle collector: a collection (Zend/zend\_gc.c)\<close>

text \<open>
  The functions of a collection in the order of the C code: the loops over the roots, collecting the
  white values, taking captured values off the buffer, and the collection itself.
\<close>

subsection \<open>The roots\<close>

text \<open>The loops over the buffer read each slot when they come to it; marking changes none.\<close>

definition slots :: "gc_state \<Rightarrow> nat list" where
  "slots g = [GC_FIRST_ROOT..<G_first_unused g]"

definition mark_slot :: "nat \<Rightarrow> gc_state \<Rightarrow> gc_state" where
  "mark_slot i g = (case G_buf g ! i of
       Root_ref r \<Rightarrow> (if is_color (gs_heap g) r GC_PURPLE then on_heap (gc_mark_grey (gs_symbol_table g) r) g else g)
     | _ \<Rightarrow> g)"

definition gc_mark_roots :: "gc_state \<Rightarrow> gc_state" where
  "gc_mark_roots g = (let g = gc_compact g in fold mark_slot (slots g) g)"

definition scan_slot :: "nat \<Rightarrow> gc_state \<Rightarrow> gc_state" where
  "scan_slot i g = (case G_buf g ! i of
       Root_ref r \<Rightarrow> on_heap (gc_scan (gs_symbol_table g) r) g
     | _ \<Rightarrow> g)"

definition gc_scan_roots :: "gc_state \<Rightarrow> gc_state" where
  "gc_scan_roots g = fold scan_slot (slots g) g"

subsection \<open>Collecting white nodes\<close>

definition new_garbage :: "nat \<Rightarrow> nat \<times> gc_state \<Rightarrow> gc_state" where
  "new_garbage ref = (\<lambda>(idx, g).
     (let g = g\<lparr>G_buf := (G_buf g)[idx := Garbage_ref ref]\<rparr>;
          g = on_heap (GC_REF_SET_INFO ref (gc_compress idx) GC_BLACK) g
      in g\<lparr>G_num_roots := G_num_roots g + 1\<rparr>))"

definition gc_add_garbage :: "nat \<Rightarrow> gc_state \<Rightarrow> gc_state" where
  "gc_add_garbage ref g =
     (if GC_HAS_UNUSED g then new_garbage ref (gc_fetch_unused g)
      else if GC_HAS_NEXT_UNUSED g then new_garbage ref (gc_fetch_next_unused g)
      else (let g = gc_grow_root_buffer g
            in if \<not> GC_HAS_NEXT_UNUSED g then g else new_garbage ref (gc_fetch_next_unused g)))"

text \<open>
  The count also counts the values that are not refcounted.  Behind the last refcounted value of an
  object without a table, it is the first value of the object that is looked at each time.
\<close>

fun is_counted :: "gc_zval \<Rightarrow> bool" where
  "is_counted (Counted_zval _) = True"
| "is_counted _ = False"

definition count_plain :: "gc_zval list \<Rightarrow> int" where
  "count_plain zs = int (length (filter (\<lambda>z. \<not> is_counted z \<and> z \<noteq> Undef_zval) zs))"

definition count_object_values :: "gc_zval list \<Rightarrow> int" where
  "count_object_values zs =
     (let behind = length (takeWhile (\<lambda>z. \<not> is_counted z) (rev zs))
      in (if zs \<noteq> [] \<and> hd zs \<noteq> Undef_zval then int behind else 0) + count_plain (take (length zs - behind) zs))"

definition count_values :: "gc_node \<Rightarrow> int" where
  "count_values n = (case gn_type n of
       IS_OBJECT \<Rightarrow> (if gn_free_called n \<or> \<not> gn_get_gc n then 0
         else case gn_ht n of None \<Rightarrow> count_object_values (gn_zvals n)
            | Some _ \<Rightarrow> count_plain (gn_zvals n) + count_plain (ht_values n))
     | IS_ARRAY \<Rightarrow> count_plain (ht_values n)
     | _ \<Rightarrow> 0)"

type_synonym collecting = "gc_state \<times> bool \<times> int"

text \<open>\<open>gc_collect_white\<close> on a white node, before it goes on to the children.\<close>

definition to_be_freed :: "gc_node \<Rightarrow> bool" where
  "to_be_freed n = (gn_type n = IS_ARRAY \<or> gn_type n = IS_OBJECT \<and> \<not> gn_free_called n \<and> gn_get_gc n)"

definition collect_node :: "nat \<Rightarrow> collecting \<Rightarrow> collecting" where
  "collect_node ref = (\<lambda>(g, flags, cnt).
     (let g = on_heap (set_color ref GC_BLACK) g;
          n = gs_heap g ! ref;
          cnt = (if gn_type n \<noteq> IS_REFERENCE then cnt + 1 else cnt);
          g = (if to_be_freed n \<and> gn_address n = 0 then gc_add_garbage ref g else g);
          flags = (flags \<or> gn_type n = IS_OBJECT \<and> to_be_freed n \<and> gn_has_destructor n)
      in (g, flags, cnt + count_values n)))"

definition white_children :: "gc_heap \<Rightarrow> nat \<Rightarrow> nat list" where
  "white_children h ref = counted (gc_values (h ! ref))"

lemma buffer_heap [simp]:
  "gs_heap (g\<lparr>G_buf := b\<rparr>) = gs_heap g" "gs_heap (gc_grow_root_buffer g) = gs_heap g"
  "gs_heap (snd (gc_fetch_unused g)) = gs_heap g" "gs_heap (snd (gc_fetch_next_unused g)) = gs_heap g"
  "gs_heap (on_heap f g) = f (gs_heap g)"
  by (simp_all add: gc_grow_root_buffer_def gc_fetch_unused_def gc_fetch_next_unused_def on_heap_def Let_def)

text \<open>Adding garbage changes the buffer address of its node and makes it black.\<close>

lemma new_garbage_heap: "gs_heap (new_garbage ref p) = GC_REF_SET_INFO ref (gc_compress (fst p)) GC_BLACK (gs_heap (snd p))"
  by (cases p) (simp add: new_garbage_def Let_def on_heap_def)

lemma add_garbage_heap: "\<exists>a. gs_heap (gc_add_garbage ref g) = GC_REF_SET_INFO ref a GC_BLACK (gs_heap g) \<or>
    gs_heap (gc_add_garbage ref g) = gs_heap g"
  by (auto simp: gc_add_garbage_def new_garbage_heap Let_def)

lemma set_info_twice: "GC_REF_SET_INFO ref a c (GC_REF_SET_INFO ref b c' h) = GC_REF_SET_INFO ref a c h"
  by (cases "ref < length h"; cases "h ! ref") (simp_all add: GC_REF_SET_INFO_def list_update_beyond)

lemma set_info_white:
  "is_color h ref GC_WHITE \<Longrightarrow> with_color GC_WHITE (GC_REF_SET_INFO ref a GC_BLACK h) < with_color GC_WHITE h"
  by (auto simp: is_color_def with_color_def GC_REF_SET_INFO_def intro: filter_update_less)

lemma collect_node_heap:
  "\<exists>a. gs_heap (fst (collect_node ref (g, flags, cnt))) = GC_REF_SET_INFO ref a GC_BLACK (gs_heap g)"
proof -
  let ?h = "set_color ref GC_BLACK (gs_heap g)"
  have "set_color ref GC_BLACK (gs_heap g) = GC_REF_SET_INFO ref (gn_address (gs_heap g ! ref)) GC_BLACK (gs_heap g)"
    by (simp add: set_color_def GC_REF_SET_INFO_def)
  then show ?thesis
    using add_garbage_heap [of ref "on_heap (set_color ref GC_BLACK) g"]
    by (auto simp: collect_node_def Let_def set_info_twice)
qed

function collect_white_work :: "nat list \<Rightarrow> collecting \<Rightarrow> collecting" where
  "collect_white_work [] s = s"
| "collect_white_work (ref # work) (g, flags, cnt) =
     (let g = on_heap (GC_ADDREF ref) g
      in if \<not> is_color (gs_heap g) ref GC_WHITE then collect_white_work work (g, flags, cnt)
         else collect_white_work (white_children (gs_heap g) ref @ work) (collect_node ref (g, flags, cnt)))"
  by pat_completeness auto
termination
proof (relation "measures [\<lambda>(work, s). with_color GC_WHITE (gs_heap (fst s)), \<lambda>(work, s). length work]", goal_cases)
  case (3 ref work g flags cnt g')
  obtain a where "gs_heap (fst (collect_node ref (g', flags, cnt))) = GC_REF_SET_INFO ref a GC_BLACK (gs_heap g')"
    using collect_node_heap by blast
  then have "with_color GC_WHITE (gs_heap (fst (collect_node ref (g', flags, cnt)))) < with_color GC_WHITE (gs_heap g')"
    using set_info_white [of "gs_heap g'" ref a] 3 by simp
  with 3 show ?case by (auto simp: on_heap_def)
qed (auto simp: on_heap_def)

definition gc_collect_white :: "nat \<Rightarrow> collecting \<Rightarrow> collecting" where
  "gc_collect_white ref = (\<lambda>(g, flags, cnt).
     (if \<not> is_color (gs_heap g) ref GC_WHITE then (g, flags, cnt)
      else collect_white_work (white_children (gs_heap g) ref) (collect_node ref (g, flags, cnt))))"

text \<open>The two loops of \<open>gc_collect_roots\<close>.\<close>

definition drop_black :: "nat \<Rightarrow> gc_state \<Rightarrow> gc_state" where
  "drop_black i g = (case G_buf g ! i of
       Root_ref r \<Rightarrow> (if is_color (gs_heap g) r GC_BLACK
         then gc_remove_from_roots i (on_heap (GC_REF_SET_INFO r 0 GC_BLACK) g) else g)
     | _ \<Rightarrow> g)"

definition collect_slot :: "nat \<Rightarrow> collecting \<Rightarrow> collecting" where
  "collect_slot i = (\<lambda>(g, flags, cnt).
     (case entry_ref (G_buf g ! i) of
        None \<Rightarrow> (g, flags, cnt)
      | Some r \<Rightarrow> gc_collect_white r (g\<lparr>G_buf := (G_buf g)[i := Garbage_ref r]\<rparr>, flags, cnt)))"

definition gc_collect_roots :: "gc_state \<Rightarrow> collecting" where
  "gc_collect_roots g =
     (let g = gc_compact (fold drop_black (slots g) g)
      in fold collect_slot (slots g) (g, False, 0))"

subsection \<open>A collection\<close>

text \<open>
  What a destructor has captured is taken off the buffer with everything it refers to.  \<open>root\<close> is
  the slot of the node the walk starts with.
\<close>

definition in_buffer :: "gc_heap \<Rightarrow> nat \<Rightarrow> bool" where
  "in_buffer h ref = (ref < length h \<and> gn_address (h ! ref) \<noteq> 0 \<and> gn_color (h ! ref) = GC_BLACK)"

definition buffered :: "gc_heap \<Rightarrow> nat" where
  "buffered h = length (filter (\<lambda>n. gn_address n \<noteq> 0 \<and> gn_color n = GC_BLACK) h)"

lemma remove_roots_heap [simp]: "gs_heap (gc_remove_from_roots i g) = gs_heap g"
  by (simp add: gc_remove_from_roots_def gc_link_unused_def Let_def)

lemma remove_buffer_heap: "gc_remove_from_buffer ref g = Inr g' \<Longrightarrow> gs_heap g' = GC_REF_SET_INFO ref 0 GC_BLACK (gs_heap g)"
  by (auto simp: gc_remove_from_buffer_def gc_remove_compressed_def Let_def elim!: rbind_InrE split: if_splits)

lemma buffered_less: "in_buffer h ref \<Longrightarrow> buffered (GC_REF_SET_INFO ref 0 GC_BLACK h) < buffered h"
  unfolding in_buffer_def buffered_def GC_REF_SET_INFO_def by (intro filter_update_less) auto

function remove_nested_work :: "nat list \<Rightarrow> gc_state \<Rightarrow> gc_state res" where
  "remove_nested_work [] g = Inr g"
| "remove_nested_work (ref # work) g =
     (if \<not> in_buffer (gs_heap g) ref then remove_nested_work work g
      else (case gc_remove_from_buffer ref g of
              Inl e \<Rightarrow> Inl e
            | Inr g' \<Rightarrow> remove_nested_work (white_children (gs_heap g) ref @ work) g'))"
  by pat_completeness auto
termination
  by (relation "measures [\<lambda>(work, g). buffered (gs_heap g), \<lambda>(work, g). length work]")
    (auto simp: remove_buffer_heap buffered_less)

definition gc_remove_nested_data_from_buffer :: "nat \<Rightarrow> nat \<Rightarrow> gc_state \<Rightarrow> gc_state res" where
  "gc_remove_nested_data_from_buffer ref root g =
     (let g = on_heap (GC_REF_SET_INFO ref 0 GC_BLACK) (gc_remove_from_roots root g)
      in remove_nested_work (white_children (gs_heap g) ref) g)"

text \<open>
  The user's destructors and the release of a value's data are arguments; \<open>efree\<close> is kept as the
  list of what has been freed.
\<close>

definition call_destructor :: "(nat \<Rightarrow> gc_state \<Rightarrow> gc_state) \<Rightarrow> nat \<Rightarrow> gc_state \<Rightarrow> gc_state" where
  "call_destructor dtor_obj i g = (case G_buf g ! i of
       Garbage_ref p \<Rightarrow>
         (let n = gs_heap g ! p
          in if gn_type n = IS_OBJECT \<and> \<not> gn_destructor_called n then
               (let g = on_heap (\<lambda>h. h[p := (h ! p)\<lparr>gn_destructor_called := True\<rparr>]) g
                in if gn_has_destructor n
                   then on_heap (GC_DELREF p) (dtor_obj p (on_heap (GC_ADDREF p) g)) else g)
             else g)
     | _ \<Rightarrow> g)"

definition remember_count :: "gc_state \<Rightarrow> nat \<Rightarrow> int" where
  "remember_count g i = (case G_buf g ! i of Garbage_ref p \<Rightarrow> gn_refcount (gs_heap g ! p) | _ \<Rightarrow> 0)"

definition remove_captured :: "(nat \<Rightarrow> int) \<Rightarrow> nat \<Rightarrow> gc_state \<Rightarrow> gc_state res" where
  "remove_captured refcounts i g = (case G_buf g ! i of
       Garbage_ref p \<Rightarrow> (if gn_refcount (gs_heap g ! p) > refcounts i then gc_remove_nested_data_from_buffer p i g else Inr g)
     | _ \<Rightarrow> Inr g)"

definition call_destructors :: "(nat \<Rightarrow> gc_state \<Rightarrow> gc_state) \<Rightarrow> gc_state \<Rightarrow> gc_state res" where
  "call_destructors dtor_obj g =
     (let refcounts = remember_count g;
          idx = slots g
      in fold_res (remove_captured refcounts) idx (fold (call_destructor dtor_obj) idx g))"

definition set_type_null :: "nat \<Rightarrow> gc_heap \<Rightarrow> gc_heap" where
  "set_type_null p h = h[p := (h ! p)\<lparr>gn_type := Other_type\<rparr>]"

definition destroy_slot :: "(nat \<Rightarrow> gc_state \<Rightarrow> gc_state) \<Rightarrow> nat \<Rightarrow> gc_state \<Rightarrow> gc_state" where
  "destroy_slot free_value i g = (case G_buf g ! i of
       Garbage_ref p \<Rightarrow>
         (let n = gs_heap g ! p
          in if gn_type n = IS_OBJECT then
               (let g = on_heap (set_type_null p) g
                in if \<not> gn_free_called n then
                     on_heap (GC_DELREF p) (free_value p (on_heap (GC_ADDREF p)
                       (on_heap (\<lambda>h. h[p := (h ! p)\<lparr>gn_free_called := True\<rparr>]) g)))
                   else g)
             else if gn_type n = IS_ARRAY then free_value p (on_heap (set_type_null p) g)
             else g)
     | _ \<Rightarrow> g)"

definition free_slot :: "nat \<Rightarrow> gc_state \<times> nat list \<Rightarrow> gc_state \<times> nat list" where
  "free_slot i = (\<lambda>(g, freed). case G_buf g ! i of
       Garbage_ref p \<Rightarrow> (gc_remove_from_roots i g, freed @ [p])
     | _ \<Rightarrow> (g, freed))"

definition zend_gc_collect_cycles ::
    "(nat \<Rightarrow> gc_state \<Rightarrow> gc_state) \<Rightarrow> (nat \<Rightarrow> gc_state \<Rightarrow> gc_state) \<Rightarrow> gc_state \<Rightarrow> (int \<times> gc_state \<times> nat list) res" where
  "zend_gc_collect_cycles dtor_obj free_value g =
     (if G_num_roots g = 0 then Inr (0, gc_compact g, [])
      else if G_active g then Inr (0, g, [])
      else
        (let g = g\<lparr>G_runs := G_runs g + 1, G_active := True\<rparr>;
             g = gc_scan_roots (gc_mark_roots g);
             (g, flags, cnt) = gc_collect_roots g
         in if G_num_roots g = 0 then Inr (0, g\<lparr>G_active := False\<rparr>, [])
            else rbind (if flags then call_destructors dtor_obj g else Inr g) (\<lambda>g.
              if flags \<and> G_protected g then Inr (0, g, [])
              else
                (let g = g\<lparr>G_protected := True\<rparr>;
                     idx = slots g;
                     g = fold (destroy_slot free_value) idx g;
                     (g, freed) = fold free_slot idx (g, []);
                     g = g\<lparr>G_collected := nat (int (G_collected g) + cnt), G_protected := False, G_active := False\<rparr>
                 in Inr (cnt, gc_compact g, freed)))))"

record zend_gc_status =
  st_runs :: nat
  st_collected :: nat
  st_threshold :: nat
  st_num_roots :: nat

definition zend_gc_get_status :: "gc_state \<Rightarrow> zend_gc_status" where
  "zend_gc_get_status g = \<lparr>st_runs = G_runs g, st_collected = G_collected g, st_threshold = G_threshold g,
     st_num_roots = G_num_roots g\<rparr>"

end
