(* ===== verification/Zend_Gc_Correct.thy ===== *)
theory Zend_Gc_Correct
  imports Zend_Gc
begin

section \<open>Marking and scanning find the garbage\<close>

text \<open>
  What marking and scanning do to colors and counts: marking takes from the counts the references
  that come from the suspected part, scanning gives them back to what is alive, and white is what no
  reference from outside leads to.
\<close>

subsection \<open>Reading the heap\<close>

definition rc :: "gc_heap \<Rightarrow> nat \<Rightarrow> int" where
  "rc h x = gn_refcount (h ! x)"

definition col :: "gc_heap \<Rightarrow> nat \<Rightarrow> gc_color" where
  "col h x = gn_color (h ! x)"

lemma rc_simps [simp]:
  "r < length h \<Longrightarrow> rc (GC_ADDREF r h) x = rc h x + of_bool (x = r)"
  "r < length h \<Longrightarrow> rc (GC_DELREF r h) x = rc h x - of_bool (x = r)"
  "rc (set_color r c h) x = rc h x"
  by (cases "x = r"; cases "r < length h"; simp add: rc_def GC_ADDREF_def GC_DELREF_def set_color_def list_update_beyond)+

lemma col_simps [simp]:
  "col (GC_ADDREF r h) x = col h x" "col (GC_DELREF r h) x = col h x"
  "r < length h \<Longrightarrow> col (set_color r c h) x = (if x = r then c else col h x)"
  by (cases "x = r"; cases "r < length h"; simp add: col_def GC_ADDREF_def GC_DELREF_def set_color_def list_update_beyond)+

lemma color_col: "is_color h r c \<longleftrightarrow> r < length h \<and> col h r = c" "not_color h r c \<longleftrightarrow> r < length h \<and> col h r \<noteq> c"
  by (simp_all add: is_color_def not_color_def col_def)

lemma gc_values_simps [simp]:
  "gc_values (n\<lparr>gn_refcount := i\<rparr>) = gc_values n" "gc_values (n\<lparr>gn_color := c\<rparr>) = gc_values n"
  by (cases "gn_type n"; simp add: gc_values_def object_values_def ht_values_def)+

lemma symbol_table_simps [simp]:
  "is_symbol_table st (GC_ADDREF r h) x = is_symbol_table st h x" "is_symbol_table st (GC_DELREF r h) x = is_symbol_table st h x"
  "is_symbol_table st (set_color r c h) x = is_symbol_table st h x"
  by (cases "x = r"; cases "r < length h"; simp add: is_symbol_table_def GC_ADDREF_def GC_DELREF_def set_color_def list_update_beyond)+

lemma children_simps [simp]:
  "gc_children st (GC_ADDREF r h) x = gc_children st h x" "gc_children st (GC_DELREF r h) x = gc_children st h x"
  "gc_children st (set_color r c h) x = gc_children st h x"
  by (simp_all only: gc_children_def symbol_table_simps)
    (cases "x = r"; cases "r < length h"; simp add: GC_ADDREF_def GC_DELREF_def set_color_def list_update_beyond)+

subsection \<open>Counting references\<close>

text \<open>The references to \<open>y\<close> from the nodes of a set.\<close>

definition refs :: "nat \<Rightarrow> gc_heap \<Rightarrow> nat set \<Rightarrow> nat \<Rightarrow> int" where
  "refs st h X y = (\<Sum>x \<in> X. int (count_list (gc_children st h x) y))"

lemma refs_insert: "finite X \<Longrightarrow> x \<notin> X \<Longrightarrow> refs st h (insert x X) y = int (count_list (gc_children st h x) y) + refs st h X y"
  by (simp add: refs_def)

lemma refs_nonneg: "0 \<le> refs st h X y"
  by (simp add: refs_def sum_nonneg)

lemma refs_pos: "finite X \<Longrightarrow> 0 < refs st h X y \<longleftrightarrow> (\<exists>x \<in> X. y \<in> set (gc_children st h x))"
  using sum_nonneg_eq_0_iff [of X "\<lambda>x. int (count_list (gc_children st h x) y)"] refs_nonneg [of st h X y]
  by (auto simp: refs_def less_le count_list_0_iff)

lemma refs_Un: "finite X \<Longrightarrow> finite Y \<Longrightarrow> X \<inter> Y = {} \<Longrightarrow> refs st h (X \<union> Y) y = refs st h X y + refs st h Y y"
  by (simp add: refs_def sum.union_disjoint)

lemma refs_cong: "gc_children st h = gc_children st h' \<Longrightarrow> refs st h X y = refs st h' X y"
  by (simp add: refs_def)

definition nodes :: "gc_heap \<Rightarrow> gc_color \<Rightarrow> nat set" where
  "nodes h c = {x. x < length h \<and> col h x = c}"

lemma finite_nodes [simp]: "finite (nodes h c)"
  by (simp add: nodes_def)

lemma nodes_refcount [simp]: "nodes (GC_ADDREF r h) c = nodes h c" "nodes (GC_DELREF r h) c = nodes h c"
  by (simp_all add: nodes_def)

lemma nodes_set: "r < length h \<Longrightarrow> nodes (set_color r c h) c' = (if c = c' then insert r (nodes h c') else nodes h c' - {r})"
  by (auto simp: nodes_def)

text \<open>All references of the heap lead into it.\<close>

definition closed_heap :: "nat \<Rightarrow> gc_heap \<Rightarrow> bool" where
  "closed_heap st h = (\<forall>x < length h. \<forall>y \<in> set (gc_children st h x). y < length h)"

text \<open>What does not change: the size of the heap, its references and where the symbol table is.\<close>

definition same_graph :: "nat \<Rightarrow> gc_heap \<Rightarrow> gc_heap \<Rightarrow> bool" where
  "same_graph st h h' = (length h' = length h \<and> gc_children st h' = gc_children st h \<and> is_symbol_table st h' = is_symbol_table st h)"

lemma same_graph_simps [simp]: "same_graph st h h" "same_graph st h (GC_ADDREF r h') = same_graph st h h'"
  "same_graph st h (GC_DELREF r h') = same_graph st h h'" "same_graph st h (set_color r c h') = same_graph st h h'"
  by (simp_all add: same_graph_def fun_eq_iff)

definition edges :: "nat \<Rightarrow> gc_heap \<Rightarrow> (nat \<times> nat) set" where
  "edges st h = {(x, y). x < length h \<and> y \<in> set (gc_children st h x)}"

subsection \<open>Marking\<close>

text \<open>
  The grey nodes have given up their references, but for those in the worklist; what they refer to
  is grey too or still to come, but for the symbol table, which is black.
\<close>

definition marked :: "nat \<Rightarrow> gc_heap \<Rightarrow> nat \<Rightarrow> bool" where
  "marked st h y = (col h y = GC_GREY \<or> is_symbol_table st h y \<and> col h y = GC_BLACK)"

definition marking :: "nat \<Rightarrow> gc_heap \<Rightarrow> nat list \<Rightarrow> gc_heap \<Rightarrow> bool" where
  "marking st h0 W h = (same_graph st h0 h \<and> set W \<subseteq> {..<length h0} \<and>
     (\<forall>y < length h0. rc h y = rc h0 y - refs st h0 (nodes h GC_GREY) y + int (count_list W y)) \<and>
     (\<forall>x \<in> nodes h GC_GREY. \<not> is_symbol_table st h0 x \<and> (\<forall>y \<in> set (gc_children st h0 x). marked st h y \<or> y \<in> set W)) \<and>
     (\<forall>x < length h0. col h x = GC_GREY \<or> col h x = col h0 x \<or> is_symbol_table st h0 x \<and> col h x = GC_BLACK))"

lemma marked_mono:
  assumes "marked st h y" "r < length h" "c = GC_GREY \<and> \<not> is_symbol_table st h r \<or> c = GC_BLACK \<and> is_symbol_table st h r"
  shows "marked st (set_color r c h) y"
  using assms by (auto simp: marked_def)

lemma marking_perm: "mset W = mset W' \<Longrightarrow> marking st h0 W h = marking st h0 W' h"
proof -
  assume m: "mset W = mset W'"
  have "set W = set W'" using m by (rule mset_eq_setD)
  moreover have "count_list W y = count_list W' y" for y using m count_mset by metis
  ultimately show ?thesis unfolding marking_def by simp
qed

lemma marking_visit:
  assumes m: "marking st h0 W h" and "closed_heap st h0" "r < length h0" "col h r \<noteq> GC_GREY" "\<not> is_symbol_table st h0 r"
  shows "marking st h0 (gc_children st h0 r @ W) (set_color r GC_GREY h)"
proof -
  have g: "length h = length h0" "is_symbol_table st h = is_symbol_table st h0" using m by (auto simp: marking_def same_graph_def)
  have n: "nodes (set_color r GC_GREY h) GC_GREY = insert r (nodes h GC_GREY)" using assms(3) g by (simp add: nodes_set)
  have "r \<notin> nodes h GC_GREY" using assms(4) by (simp add: nodes_def)
  then have "refs st h0 (nodes (set_color r GC_GREY h) GC_GREY) y = int (count_list (gc_children st h0 r) y) + refs st h0 (nodes h GC_GREY) y" for y
    by (simp add: n refs_insert)
  moreover have "marked st (set_color r GC_GREY h) y" if "marked st h y" for y
    using marked_mono [OF that] assms(3,5) g by simp
  then have "\<forall>x \<in> nodes (set_color r GC_GREY h) GC_GREY. \<not> is_symbol_table st h0 x \<and>
      (\<forall>y \<in> set (gc_children st h0 x). marked st (set_color r GC_GREY h) y \<or> y \<in> set (gc_children st h0 r @ W))"
    using m assms(5) unfolding marking_def n by fastforce
  moreover have "set (gc_children st h0 r) \<subseteq> {..<length h0}" using assms(2,3) by (auto simp: closed_heap_def)
  ultimately show ?thesis using m assms(3) g
    unfolding marking_def by simp
qed

lemma marking_symbol_table:
  assumes m: "marking st h0 W h" and "r < length h0" "col h r \<noteq> GC_GREY" "is_symbol_table st h0 r"
  shows "marking st h0 W (set_color r GC_BLACK h)"
proof -
  have g: "length h = length h0" "is_symbol_table st h = is_symbol_table st h0" using m by (auto simp: marking_def same_graph_def)
  have n: "nodes (set_color r GC_BLACK h) GC_GREY = nodes h GC_GREY" using assms(2,3) g by (auto simp: nodes_set nodes_def)
  have "marked st (set_color r GC_BLACK h) y" if "marked st h y" for y
    using marked_mono [OF that] assms(2,4) g by simp
  then have "\<forall>x \<in> nodes h GC_GREY. \<not> is_symbol_table st h0 x \<and>
      (\<forall>y \<in> set (gc_children st h0 x). marked st (set_color r GC_BLACK h) y \<or> y \<in> set W)"
    using m unfolding marking_def by blast
  with n show ?thesis using m assms(2,4) g unfolding marking_def by simp
qed

lemma marking_next:
  assumes "marking st h0 (r # W) h" "marked st h r"
  shows "marking st h0 W (GC_DELREF r h)"
proof -
  have g: "length h = length h0" "is_symbol_table st h = is_symbol_table st h0" "r < length h"
    using assms(1) by (auto simp: marking_def same_graph_def)
  have m: "marked st (GC_DELREF r h) y = marked st h y" for y by (simp add: marked_def)
  have "\<forall>x \<in> nodes h GC_GREY. \<not> is_symbol_table st h0 x \<and> (\<forall>y \<in> set (gc_children st h0 x). marked st h y \<or> y \<in> set W)"
    using assms unfolding marking_def by (metis set_ConsD)
  then show ?thesis using assms(1) g(3) unfolding marking_def m by simp
qed

lemma set_color_DELREF: "set_color r c (GC_DELREF r h) = GC_DELREF r (set_color r c h)"
  by (cases "r < length h"; cases "h ! r") (simp_all add: set_color_def GC_DELREF_def list_update_beyond)

lemma mark_grey_work_ok:
  "marking st h0 W h \<Longrightarrow> closed_heap st h0 \<Longrightarrow>
   marking st h0 [] (mark_grey_work st W h) \<and> (\<forall>y. marked st h y \<or> y \<in> set W \<longrightarrow> marked st (mark_grey_work st W h) y)"
proof (induction st W h rule: mark_grey_work.induct)
  case (2 st r W h)
  have g: "length h = length h0" "is_symbol_table st h = is_symbol_table st h0" "gc_children st h = gc_children st h0" "r < length h0"
    using "2.prems"(1) by (auto simp: marking_def same_graph_def)
  have keep: "marked st h y \<Longrightarrow> marked st (GC_DELREF r (set_color r c h)) y"
    if "c = GC_GREY \<and> \<not> is_symbol_table st h r \<or> c = GC_BLACK \<and> is_symbol_table st h r" for c y
    using marked_mono [of st h y r c] that g by (simp add: marked_def)
  consider "col h r = GC_GREY" | "col h r \<noteq> GC_GREY" "is_symbol_table st h0 r" | "col h r \<noteq> GC_GREY" "\<not> is_symbol_table st h0 r" by blast
  then show ?case
  proof cases
    case 1
    then have "marked st h r" by (simp add: marked_def)
    note m = marking_next [OF "2.prems"(1) this]
    have "mark_grey_work st (r # W) h = mark_grey_work st W (GC_DELREF r h)" using 1 by (simp add: color_col)
    with "2.IH"(1) [OF refl _ m "2.prems"(2)] 1 \<open>marked st h r\<close> show ?thesis by (auto simp: color_col marked_def)
  next
    case 2
    let ?h = "GC_DELREF r (set_color r GC_BLACK h)"
    have mr: "marked st (set_color r GC_BLACK h) r" using 2 g by (simp add: marked_def)
    have m: "marking st h0 W ?h"
      by (rule marking_next [OF marking_symbol_table mr]) (use "2.prems"(1) g 2 in auto)
    have "mark_grey_work st (r # W) h = mark_grey_work st W ?h" using 2 g by (simp add: color_col set_color_DELREF)
    with "2.IH"(2) [OF refl _ _ m [folded set_color_DELREF] "2.prems"(2)] 2 g mr keep [of GC_BLACK] show ?thesis
      by (auto simp: color_col set_color_DELREF marked_def)
  next
    case 3
    let ?h = "GC_DELREF r (set_color r GC_GREY h)"
    have mr: "marked st (set_color r GC_GREY h) r" using g by (simp add: marked_def)
    have "marking st h0 (gc_children st h0 r @ r # W) (set_color r GC_GREY h)"
      by (rule marking_visit) (use "2.prems" g 3 in auto)
    then have "marking st h0 (r # gc_children st h0 r @ W) (set_color r GC_GREY h)"
      by (rule marking_perm [THEN iffD1, rotated]) simp
    then have m: "marking st h0 (gc_children st h0 r @ W) ?h" using mr by (rule marking_next)
    have "mark_grey_work st (r # W) h = mark_grey_work st (gc_children st h0 r @ W) ?h"
      using 3 g by (simp add: color_col set_color_DELREF)
    with "2.IH"(3) [OF refl _ _ _ "2.prems"(2)] m 3 g mr keep [of GC_GREY] show ?thesis
      by (auto simp: color_col set_color_DELREF marked_def)
  qed
qed simp


lemma mark_grey_ok:
  assumes m: "marking st h0 [] h" and c: "closed_heap st h0" and r: "r < length h0"
  shows "marking st h0 [] (gc_mark_grey st r h) \<and> marked st (gc_mark_grey st r h) r \<and>
    (\<forall>y. marked st h y \<longrightarrow> marked st (gc_mark_grey st r h) y)"
proof -
  have g: "length h = length h0" "is_symbol_table st h = is_symbol_table st h0" "gc_children st h = gc_children st h0"
    using m by (auto simp: marking_def same_graph_def)
  have keep: "marked st h y \<Longrightarrow> marked st (set_color r c h) y"
    if "c = GC_GREY \<and> \<not> is_symbol_table st h r \<or> c = GC_BLACK \<and> is_symbol_table st h r" for c y
    using marked_mono [of st h y r c] that g r by simp
  consider "col h r = GC_GREY" | "col h r \<noteq> GC_GREY" "is_symbol_table st h0 r" | "col h r \<noteq> GC_GREY" "\<not> is_symbol_table st h0 r" by blast
  then show ?thesis
  proof cases
    case 1
    with m show ?thesis by (simp add: gc_mark_grey_def color_col marked_def)
  next
    case 2
    then have e: "gc_mark_grey st r h = set_color r GC_BLACK h" using g r by (simp add: gc_mark_grey_def color_col)
    have "marked st (set_color r GC_BLACK h) r" using 2 g r by (simp add: marked_def)
    then show ?thesis using marking_symbol_table [OF m r 2] keep [of GC_BLACK] 2 g unfolding e by auto
  next
    case 3
    then have e: "gc_mark_grey st r h = mark_grey_work st (gc_children st h0 r) (set_color r GC_GREY h)"
      using g r by (simp add: gc_mark_grey_def color_col)
    have "marking st h0 (gc_children st h0 r) (set_color r GC_GREY h)" using marking_visit [OF m c r 3] by simp
    from mark_grey_work_ok [OF this c] keep [of GC_GREY] 3 g r show ?thesis unfolding e by (auto simp: marked_def)
  qed
qed

text \<open>Only what can be reached from the roots becomes grey.\<close>

definition closed_set :: "nat \<Rightarrow> gc_heap \<Rightarrow> nat set \<Rightarrow> bool" where
  "closed_set st h R = (\<forall>x \<in> R. set (gc_children st h x) \<subseteq> R)"

lemma nodes_set_subset: "c \<noteq> c' \<Longrightarrow> nodes (set_color r c h) c' \<subseteq> nodes h c'"
  by (cases "r < length h") (auto simp: nodes_set, simp add: set_color_def list_update_beyond)

lemma nodes_set_insert: "nodes (set_color r c h) c \<subseteq> insert r (nodes h c)"
  by (cases "r < length h") (auto simp: nodes_set, simp add: set_color_def list_update_beyond)

lemma mark_grey_work_within:
  "nodes h GC_GREY \<subseteq> R \<Longrightarrow> set W \<subseteq> R \<Longrightarrow> closed_set st h R \<Longrightarrow> nodes (mark_grey_work st W h) GC_GREY \<subseteq> R"
proof (induction st W h rule: mark_grey_work.induct)
  case (2 st r W h)
  let ?h = "GC_DELREF r h"
  have "nodes (set_color r GC_BLACK ?h) GC_GREY \<subseteq> R" using nodes_set_subset [of GC_BLACK GC_GREY r ?h] "2.prems"(1) by auto
  moreover have "nodes (set_color r GC_GREY ?h) GC_GREY \<subseteq> R" using nodes_set_insert [of r GC_GREY ?h] "2.prems"(1,2) by auto
  moreover have "set (gc_children st h r @ W) \<subseteq> R" using "2.prems"(2,3) by (auto simp: closed_set_def)
  moreover have "closed_set st ?h R" "closed_set st (set_color r c ?h) R" for c using "2.prems"(3) by (simp_all add: closed_set_def)
  ultimately show ?case using "2.IH" "2.prems" by (auto simp: Let_def)
qed simp

lemma mark_grey_within:
  assumes "nodes h GC_GREY \<subseteq> R" "r \<in> R" "closed_set st h R"
  shows "nodes (gc_mark_grey st r h) GC_GREY \<subseteq> R"
proof -
  have "nodes (set_color r GC_BLACK h) GC_GREY \<subseteq> R" using nodes_set_subset [of GC_BLACK GC_GREY r h] assms(1) by auto
  moreover have "nodes (mark_grey_work st (gc_children st h r) (set_color r GC_GREY h)) GC_GREY \<subseteq> R"
    by (rule mark_grey_work_within) (use nodes_set_insert [of r GC_GREY h] assms in \<open>auto simp: closed_set_def\<close>)
  ultimately show ?thesis using assms(1) by (simp add: gc_mark_grey_def)
qed

text \<open>The loop of \<open>gc_mark_roots\<close> over the roots in the buffer.\<close>

definition mark_root :: "nat \<Rightarrow> nat \<Rightarrow> gc_heap \<Rightarrow> gc_heap" where
  "mark_root st r h = (if is_color h r GC_PURPLE then gc_mark_grey st r h else h)"

definition suspects :: "nat \<Rightarrow> gc_heap \<Rightarrow> nat list \<Rightarrow> nat set" where
  "suspects st h rs = {y. \<exists>r \<in> set rs. is_color h r GC_PURPLE \<and> (r, y) \<in> (edges st h)\<^sup>*}"

lemma reach_bound: "(r, y) \<in> (edges st h)\<^sup>* \<Longrightarrow> closed_heap st h \<Longrightarrow> r < length h \<Longrightarrow> y < length h"
  by (induction rule: rtrancl_induct) (auto simp: closed_heap_def edges_def)

lemma suspects_bound: "closed_heap st h \<Longrightarrow> suspects st h rs \<subseteq> {..<length h}"
  using reach_bound by (fastforce simp: suspects_def is_color_def)

lemma closed_suspects:
  assumes "closed_heap st h"
  shows "closed_set st h (suspects st h rs)"
  unfolding closed_set_def
proof (intro ballI subsetI)
  fix x y assume x: "x \<in> suspects st h rs" and y: "y \<in> set (gc_children st h x)"
  then have "(x, y) \<in> edges st h" using suspects_bound [OF assms] by (auto simp: edges_def)
  with x show "y \<in> suspects st h rs" unfolding suspects_def by (auto intro: rtrancl_into_rtrancl)
qed

lemma mark_roots_ok:
  assumes c: "closed_heap st h0" and grey: "nodes h0 GC_GREY = {}" and rs: "set rs \<subseteq> {..<length h0}"
  defines "h \<equiv> fold (mark_root st) rs h0"
  shows "marking st h0 [] h \<and> nodes h GC_GREY = suspects st h0 rs - {x. is_symbol_table st h0 x} \<and>
    (\<forall>r \<in> set rs. col h0 r = GC_PURPLE \<longrightarrow> marked st h r)"
proof -
  let ?R = "suspects st h0 rs"
  have cl: "closed_set st h0 ?R" by (rule closed_suspects [OF c])
  have "marking st h0 [] (fold (mark_root st) qs h') \<and> nodes (fold (mark_root st) qs h') GC_GREY \<subseteq> ?R \<and>
      (\<forall>y. marked st h' y \<longrightarrow> marked st (fold (mark_root st) qs h') y) \<and>
      (\<forall>r \<in> set qs. col h0 r = GC_PURPLE \<longrightarrow> marked st (fold (mark_root st) qs h') r)"
    if "marking st h0 [] h'" "nodes h' GC_GREY \<subseteq> ?R" "set qs \<subseteq> set rs" for qs h'
    using that
  proof (induction qs arbitrary: h')
    case (Cons r qs)
    have g: "length h' = length h0" "is_symbol_table st h' = is_symbol_table st h0" "gc_children st h' = gc_children st h0" and rl: "r < length h0"
      using Cons.prems rs by (auto simp: marking_def same_graph_def)
    have rc: "col h' r = GC_GREY \<or> col h' r = col h0 r \<or> is_symbol_table st h0 r \<and> col h' r = GC_BLACK"
      using Cons.prems(1) rl by (simp add: marking_def)
    have "marking st h0 [] (mark_root st r h') \<and> nodes (mark_root st r h') GC_GREY \<subseteq> ?R \<and>
      (\<forall>y. marked st h' y \<longrightarrow> marked st (mark_root st r h') y) \<and> (col h0 r = GC_PURPLE \<longrightarrow> marked st (mark_root st r h') r)"
    proof (cases "col h' r = GC_PURPLE")
      case True
      then have p: "col h0 r = GC_PURPLE" using rc by auto
      then have "r \<in> ?R" using Cons.prems(3) rl by (auto simp: suspects_def color_col intro!: bexI [of _ r])
      then have "nodes (gc_mark_grey st r h') GC_GREY \<subseteq> ?R"
        using mark_grey_within [OF Cons.prems(2)] cl g by (simp add: closed_set_def)
      with mark_grey_ok [OF Cons.prems(1) c rl] True g rl show ?thesis by (simp add: mark_root_def color_col)
    next
      case False
      then show ?thesis using Cons.prems rc by (auto simp: mark_root_def color_col marked_def g)
    qed
    with Cons.IH [of "mark_root st r h'"] Cons.prems(3) show ?case by simp
  qed simp
  from this [of h0 rs] grey c have m: "marking st h0 [] h" "nodes h GC_GREY \<subseteq> ?R"
    "\<forall>r \<in> set rs. col h0 r = GC_PURPLE \<longrightarrow> marked st h r"
    unfolding h_def by (auto simp: marking_def refs_def)
  have g: "length h = length h0" "is_symbol_table st h = is_symbol_table st h0" using m(1) by (auto simp: marking_def same_graph_def)
  have "marked st h y" if "(r, y) \<in> (edges st h0)\<^sup>*" "marked st h r" for r y
    using that
  proof (induction rule: rtrancl_induct)
    case (step y z)
    then have e: "y < length h0" "z \<in> set (gc_children st h0 y)" by (auto simp: edges_def)
    then have "\<not> is_symbol_table st h0 y" by (auto simp: gc_children_def)
    then have "y \<in> nodes h GC_GREY" using step g e(1) by (simp add: marked_def nodes_def)
    then show ?case using e(2) m(1) by (simp add: marking_def)
  qed
  then have "?R \<subseteq> {y. marked st h y}" using m(3) by (auto simp: suspects_def color_col)
  moreover have "\<forall>x \<in> nodes h GC_GREY. \<not> is_symbol_table st h0 x" using m(1) by (simp add: marking_def)
  ultimately have "nodes h GC_GREY = ?R - {x. is_symbol_table st h0 x}"
    using m(2) suspects_bound [OF c, of rs] g by (auto simp: nodes_def marked_def)
  with m(1,3) show ?thesis by blast
qed

subsection \<open>Scanning\<close>

text \<open>
  \<open>hm\<close> is the heap after marking, \<open>G\<close> its grey nodes.  \<open>alive\<close>: reached from a grey node that still
  has references, which come from outside \<open>G\<close>.
\<close>

definition alive :: "nat \<Rightarrow> gc_heap \<Rightarrow> nat \<Rightarrow> bool" where
  "alive st hm x = (\<exists>z \<in> nodes hm GC_GREY. rc hm z > 0 \<and> (z, x) \<in> (edges st hm)\<^sup>*)"

definition black_part :: "gc_heap \<Rightarrow> gc_heap \<Rightarrow> nat set" where
  "black_part hm h = nodes hm GC_GREY \<inter> nodes h GC_BLACK"

definition scanning :: "nat \<Rightarrow> gc_heap \<Rightarrow> nat list \<Rightarrow> gc_heap \<Rightarrow> bool" where
  "scanning st hm W h = (same_graph st hm h \<and>
     (\<forall>y < length hm. rc h y = rc hm y + refs st hm (black_part hm h) y - int (count_list W y)) \<and>
     (\<forall>y \<in> set W. y < length hm \<and> (\<exists>x \<in> black_part hm h. y \<in> set (gc_children st hm x))) \<and>
     (\<forall>x \<in> black_part hm h. alive st hm x \<and>
        (\<forall>y \<in> set (gc_children st hm x). y \<in> nodes hm GC_GREY \<longrightarrow> y \<in> black_part hm h \<or> y \<in> set W)) \<and>
     (\<forall>x \<in> nodes hm GC_GREY. col h x \<in> {GC_GREY, GC_WHITE, GC_BLACK} \<and> (col h x = GC_WHITE \<longrightarrow> rc h x \<le> 0)) \<and>
     (\<forall>x < length hm. x \<notin> nodes hm GC_GREY \<longrightarrow> col h x = col hm x))"

definition marked_heap :: "nat \<Rightarrow> gc_heap \<Rightarrow> bool" where
  "marked_heap st hm = (closed_heap st hm \<and>
     (\<forall>x \<in> nodes hm GC_GREY. \<not> is_symbol_table st hm x \<and> (\<forall>y \<in> set (gc_children st hm x). marked st hm y)) \<and>
     (\<forall>y < length hm. rc hm y \<ge> 0))"

lemma finite_black [simp]: "finite (black_part hm h)"
  by (simp add: black_part_def)

lemma scanning_perm: "mset W = mset W' \<Longrightarrow> scanning st hm W h \<Longrightarrow> scanning st hm W' h"
proof -
  assume m: "mset W = mset W'" and s: "scanning st hm W h"
  have "set W = set W'" using m by (rule mset_eq_setD)
  moreover have "count_list W y = count_list W' y" for y using m count_mset by metis
  ultimately show "scanning st hm W' h" using s unfolding scanning_def by simp
qed

text \<open>A live node of the grey part turns black.\<close>

lemma scanning_black:
  assumes s: "scanning st hm W h" and mh: "marked_heap st hm" and r: "r \<in> nodes hm GC_GREY" "col h r \<noteq> GC_BLACK" "alive st hm r"
  shows "scanning st hm (gc_children st hm r @ W) (set_color r GC_BLACK h)"
proof -
  have g: "length h = length hm" using s by (simp add: scanning_def same_graph_def)
  have rl: "r < length hm" using r(1) by (simp add: nodes_def)
  have b: "black_part hm (set_color r GC_BLACK h) = insert r (black_part hm h)"
    using r(1) g by (auto simp: black_part_def nodes_set nodes_def)
  have "r \<notin> black_part hm h" using r(2) by (simp add: black_part_def nodes_def)
  then have "refs st hm (black_part hm (set_color r GC_BLACK h)) y =
      int (count_list (gc_children st hm r) y) + refs st hm (black_part hm h) y" for y
    by (simp add: b refs_insert)
  moreover have "y < length hm" if "y \<in> set (gc_children st hm r)" for y
    using mh rl that by (auto simp: marked_heap_def closed_heap_def)
  moreover have "(\<forall>x \<in> insert r (black_part hm h). alive st hm x \<and>
      (\<forall>y \<in> set (gc_children st hm x). y \<in> nodes hm GC_GREY \<longrightarrow> y \<in> insert r (black_part hm h) \<or> y \<in> set (gc_children st hm r @ W)))"
    using s r(3) unfolding scanning_def by auto
  ultimately show ?thesis using s r(1) rl g unfolding scanning_def b by (auto simp: b)
qed

lemma scanning_next:
  assumes "scanning st hm (r # W) h" "r \<in> nodes hm GC_GREY \<longrightarrow> col h r = GC_BLACK"
  shows "scanning st hm W (GC_ADDREF r h)"
proof -
  have g: "length h = length hm" "r < length h" using assms(1) by (auto simp: scanning_def same_graph_def)
  have b: "black_part hm (GC_ADDREF r h) = black_part hm h" by (simp add: black_part_def)
  have "r \<in> nodes hm GC_GREY \<longrightarrow> r \<in> black_part hm h" using assms(2) g by (auto simp: black_part_def nodes_def)
  then show ?thesis using assms g unfolding scanning_def b by (auto simp: b)
qed

lemma set_color_ADDREF: "set_color r c (GC_ADDREF r h) = GC_ADDREF r (set_color r c h)"
  by (cases "r < length h"; cases "h ! r") (simp_all add: set_color_def GC_ADDREF_def list_update_beyond)

lemma scan_black_work_ok:
  "scanning st hm W h \<Longrightarrow> marked_heap st hm \<Longrightarrow>
   scanning st hm [] (scan_black_work st W h) \<and> (\<forall>x. col (scan_black_work st W h) x \<in> {col h x, GC_BLACK})"
proof (induction st W h rule: scan_black_work.induct)
  case (2 st r W h)
  have g: "length h = length hm" "gc_children st h = gc_children st hm" "r < length hm"
    using "2.prems"(1) by (auto simp: scanning_def same_graph_def)
  obtain x where x: "x \<in> black_part hm h" "r \<in> set (gc_children st hm x)" using "2.prems"(1) by (auto simp: scanning_def)
  then have xg: "x \<in> nodes hm GC_GREY" by (simp add: black_part_def)
  show ?case
  proof (cases "col h r = GC_BLACK")
    case True
    have m: "scanning st hm W (GC_ADDREF r h)" by (rule scanning_next [OF "2.prems"(1)]) (simp add: True)
    with "2.IH"(1) [OF refl _ m "2.prems"(2)] True show ?thesis by (simp add: color_col)
  next
    case False
    have "marked st hm r" using "2.prems"(2) xg x(2) by (simp add: marked_heap_def)
    then have rg: "r \<in> nodes hm GC_GREY"
      using False "2.prems"(1) g by (auto simp: marked_def nodes_def scanning_def)
    have "(x, r) \<in> edges st hm" using xg x(2) by (simp add: edges_def nodes_def)
    then have "alive st hm r" using "2.prems"(1) x(1) unfolding scanning_def alive_def
      by (meson rtrancl_into_rtrancl)
    from scanning_black [OF "2.prems" rg False this]
    have "scanning st hm (gc_children st hm r @ r # W) (set_color r GC_BLACK h)" .
    then have "scanning st hm (r # gc_children st hm r @ W) (set_color r GC_BLACK h)"
      by (rule scanning_perm [rotated]) simp
    then have m: "scanning st hm (gc_children st h r @ W) (set_color r GC_BLACK (GC_ADDREF r h))"
      unfolding set_color_ADDREF using g by (intro scanning_next) simp_all
    have "\<not> \<not> not_color (GC_ADDREF r h) r GC_BLACK" using False g by (simp add: color_col)
    from "2.IH"(2) [OF refl this _ "2.prems"(2)] m False g show ?thesis
      by (auto simp: color_col split: if_splits)
  qed
qed simp

lemma scan_black_ok:
  assumes s: "scanning st hm [] h" and mh: "marked_heap st hm" and r: "is_color h r GC_GREY" "rc h r > 0" "r \<in> nodes hm GC_GREY"
  shows "scanning st hm [] (gc_scan_black st r h) \<and> (\<forall>x. col (gc_scan_black st r h) x \<in> {col h x, GC_BLACK}) \<and>
    col (gc_scan_black st r h) r = GC_BLACK"
proof -
  have g: "length h = length hm" "gc_children st h = gc_children st hm" using s by (auto simp: scanning_def same_graph_def)
  have rl: "r < length hm" using r(3) by (simp add: nodes_def)
  have "alive st hm r"
  proof (cases "rc hm r > 0")
    case True
    with r(3) show ?thesis by (auto simp: alive_def)
  next
    case False
    then have "refs st hm (black_part hm h) r > 0" using s r(2) rl by (simp add: scanning_def)
    then obtain x where x: "x \<in> black_part hm h" "r \<in> set (gc_children st hm x)" by (auto simp: refs_pos)
    then have "(x, r) \<in> edges st hm" by (simp add: edges_def black_part_def nodes_def)
    then show ?thesis using s x(1) unfolding scanning_def alive_def by (meson rtrancl_into_rtrancl)
  qed
  from scanning_black [OF s mh r(3) _ this] r(1)
  have "scanning st hm (gc_children st hm r) (set_color r GC_BLACK h)" by (simp add: color_col)
  note w = scan_black_work_ok [OF this mh]
  have "col (set_color r GC_BLACK h) r = GC_BLACK" using rl g by simp
  with w rl show ?thesis unfolding gc_scan_black_def g(2)
    by (metis col_simps(3) g(1) insertE insert_iff singletonD)
qed

text \<open>What a white node refers to has been scanned, or is still to come.\<close>

definition whites :: "nat \<Rightarrow> gc_heap \<Rightarrow> nat list \<Rightarrow> gc_heap \<Rightarrow> bool" where
  "whites st hm W h = (\<forall>x \<in> nodes hm GC_GREY. col h x = GC_WHITE \<longrightarrow>
     (\<forall>y \<in> set (gc_children st hm x). is_color h y GC_GREY \<longrightarrow> y \<in> set W))"

lemma whites_mono:
  assumes "whites st hm W h" "\<forall>x. col h' x \<in> {col h x, GC_BLACK}" "length h' = length h" "r \<in> set W \<longrightarrow> \<not> is_color h' r GC_GREY"
  shows "whites st hm (remove1 r W) h'"
  unfolding whites_def
proof (intro ballI impI)
  fix x y assume x: "x \<in> nodes hm GC_GREY" "col h' x = GC_WHITE" and y: "y \<in> set (gc_children st hm x)" "is_color h' y GC_GREY"
  have "col h x = GC_WHITE" using assms(2) x(2) by (metis gc_color.distinct(1) insertE singletonD)
  moreover have "is_color h y GC_GREY" using assms(2,3) y(2)
    by (metis color_col(1) gc_color.distinct(3) insertE singletonD)
  ultimately have "y \<in> set W" using assms(1) x(1) y(1) by (auto simp: whites_def)
  with assms(4) y(2) show "y \<in> set (remove1 r W)" by (metis in_set_remove1)
qed

lemma scan_work_ok:
  "scanning st hm [] h \<Longrightarrow> whites st hm W h \<Longrightarrow> marked_heap st hm \<Longrightarrow>
   scanning st hm [] (scan_work st W h) \<and> whites st hm [] (scan_work st W h) \<and>
   (\<forall>x. is_color (scan_work st W h) x GC_GREY \<longrightarrow> is_color h x GC_GREY \<and> x \<notin> set W)"
proof (induction st W h rule: scan_work.induct)
  case (2 st r W h)
  note s = "2.prems"(1) and w = "2.prems"(2) and mh = "2.prems"(3)
  have g: "length h = length hm" "gc_children st h = gc_children st hm" "is_symbol_table st h = is_symbol_table st hm"
    using s by (auto simp: scanning_def same_graph_def)
  show ?case
  proof (cases "is_color h r GC_GREY")
    case False
    have w': "whites st hm W h" using whites_mono [OF w, of h r] False by simp
    from "2.IH"(1) [OF _ s w' mh] False show ?thesis by auto
  next
    case grey: True
    have rg: "r \<in> nodes hm GC_GREY" using grey s g by (auto simp: color_col scanning_def nodes_def)
    then have sym: "\<not> is_symbol_table st h r" using mh g by (simp add: marked_heap_def)
    show ?thesis
    proof (cases "gn_refcount (h ! r) > 0")
      case True
      note b = scan_black_ok [OF s mh grey True [folded rc_def] rg]
      have lb: "length (gc_scan_black st r h) = length h" using b g by (simp add: scanning_def same_graph_def)
      have w': "whites st hm W (gc_scan_black st r h)"
        using whites_mono [OF w, of "gc_scan_black st r h" r] b lb by (simp add: color_col)
      have "is_color h x GC_GREY \<and> x \<noteq> r" if "is_color (gc_scan_black st r h) x GC_GREY" for x
        using that b lb by (metis color_col(1) gc_color.distinct(3) insertE singletonD)
      with "2.IH"(2) [OF _ True _ w' mh] b grey True show ?thesis by auto
    next
      case False
      let ?h = "set_color r GC_WHITE h"
      have rl: "r < length h" using grey by (simp add: color_col)
      have bp: "black_part hm ?h = black_part hm h" using grey rl by (auto simp: black_part_def nodes_set nodes_def color_col)
      have cw: "\<forall>x \<in> nodes hm GC_GREY. col ?h x \<in> {GC_GREY, GC_WHITE, GC_BLACK} \<and> (col ?h x = GC_WHITE \<longrightarrow> rc ?h x \<le> 0)"
        using s False rl by (auto simp: scanning_def rc_def [of h r])
      have s': "scanning st hm [] ?h"
        using s rg rl cw unfolding scanning_def bp by (auto simp: bp)
      have "whites st hm (gc_children st h r @ W) ?h"
        unfolding whites_def
      proof (intro ballI impI)
        fix x y assume x: "x \<in> nodes hm GC_GREY" "col ?h x = GC_WHITE" and y: "y \<in> set (gc_children st hm x)" "is_color ?h y GC_GREY"
        have yg: "is_color h y GC_GREY" "y \<noteq> r" using y(2) rl by (auto simp: color_col split: if_splits)
        show "y \<in> set (gc_children st h r @ W)"
        proof (cases "x = r")
          case True
          with y(1) g show ?thesis by simp
        next
          case False
          with x(2) rl have "col h x = GC_WHITE" by simp
          with w x(1) y(1) yg show ?thesis by (auto simp: whites_def)
        qed
      qed
      moreover have "is_color h x GC_GREY \<and> x \<noteq> r" if "is_color ?h x GC_GREY" for x
        using that rl by (auto simp: color_col split: if_splits)
      ultimately show ?thesis using "2.IH"(4) [OF _ False sym s' _ mh] grey False sym by auto
    qed
  qed
qed simp

text \<open>The loop of \<open>gc_scan_roots\<close>.\<close>

lemma scan_roots_ok:
  assumes "scanning st hm [] h" "whites st hm [] h" "marked_heap st hm" "set rs \<subseteq> {..<length hm}"
  defines "h' \<equiv> fold (gc_scan st) rs h"
  shows "scanning st hm [] h' \<and> whites st hm [] h' \<and> (\<forall>x. is_color h' x GC_GREY \<longrightarrow> is_color h x GC_GREY \<and> x \<notin> set rs)"
  using assms(1,2,4) unfolding h'_def
proof (induction rs arbitrary: h)
  case (Cons r rs)
  have w: "whites st hm [r] h" using Cons.prems(2) by (auto simp: whites_def)
  note r = scan_work_ok [OF Cons.prems(1) w assms(3), folded gc_scan_def]
  from Cons.IH [of "gc_scan st r h"] r Cons.prems(3) show ?case by auto
qed simp

subsection \<open>Marking and scanning together\<close>

text \<open>
  \<open>ext y\<close> is the number of references to \<open>y\<close> that are not in the heap: variables, the stack of the
  virtual machine, the symbol table.  Garbage is what is suspected and has no ancestor that is not
  suspected or has such a reference.
\<close>

definition counts_ok :: "nat \<Rightarrow> gc_heap \<Rightarrow> (nat \<Rightarrow> int) \<Rightarrow> bool" where
  "counts_ok st h ext = (\<forall>y < length h. 0 \<le> ext y \<and> rc h y = ext y + refs st h {..<length h} y)"

definition heap_ready :: "nat \<Rightarrow> gc_heap \<Rightarrow> nat list \<Rightarrow> bool" where
  "heap_ready st h rs = (closed_heap st h \<and> nodes h GC_GREY = {} \<and> nodes h GC_WHITE = {} \<and> set rs \<subseteq> {..<length h})"

definition garbage :: "nat \<Rightarrow> gc_heap \<Rightarrow> nat list \<Rightarrow> (nat \<Rightarrow> int) \<Rightarrow> nat \<Rightarrow> bool" where
  "garbage st h rs ext y = (\<forall>z. (z, y) \<in> (edges st h)\<^sup>* \<longrightarrow> z \<in> suspects st h rs \<and> \<not> is_symbol_table st h z \<and> ext z = 0)"

lemma refs_diff: "finite X \<Longrightarrow> Y \<subseteq> X \<Longrightarrow> refs st h X y - refs st h Y y = refs st h (X - Y) y"
  by (simp add: refs_def sum_diff)

lemma marked_then:
  assumes "heap_ready st h0 rs" "counts_ok st h0 ext"
  defines "h1 \<equiv> fold (mark_root st) rs h0"
  shows "marked_heap st h1" "scanning st h1 [] h1" "whites st h1 [] h1"
    "nodes h1 GC_GREY = suspects st h0 rs - {x. is_symbol_table st h0 x}" "same_graph st h0 h1"
    "\<And>y. y < length h0 \<Longrightarrow> rc h1 y = ext y + refs st h0 ({..<length h0} - nodes h1 GC_GREY) y"
    "\<And>y. y < length h0 \<Longrightarrow> col h1 y \<noteq> GC_WHITE" "\<And>r. r \<in> set rs \<Longrightarrow> col h0 r = GC_PURPLE \<Longrightarrow> marked st h1 r"
proof -
  have m: "marking st h0 [] h1" and gr: "nodes h1 GC_GREY = suspects st h0 rs - {x. is_symbol_table st h0 x}"
    and pr: "\<forall>r \<in> set rs. col h0 r = GC_PURPLE \<longrightarrow> marked st h1 r"
    using mark_roots_ok [of st h0 rs] assms(1) unfolding h1_def heap_ready_def by blast+
  show sg: "same_graph st h0 h1" using m by (simp add: marking_def)
  then have g: "length h1 = length h0" "gc_children st h1 = gc_children st h0" "is_symbol_table st h1 = is_symbol_table st h0"
    by (auto simp: same_graph_def)
  have sub: "nodes h1 GC_GREY \<subseteq> {..<length h0}" using g by (auto simp: nodes_def)
  show r1: "rc h1 y = ext y + refs st h0 ({..<length h0} - nodes h1 GC_GREY) y" if "y < length h0" for y
    using m assms(2) that refs_diff [OF _ sub, of st h0 y] by (auto simp: marking_def counts_ok_def)
  show nw: "col h1 y \<noteq> GC_WHITE" if "y < length h0" for y
    using m that assms(1) by (auto simp: marking_def heap_ready_def nodes_def dest: spec [of _ y])
  have "0 \<le> rc h1 y" if "y < length h1" for y
    using r1 [of y] that g assms(2) refs_nonneg [of st h0 "{..<length h0} - nodes h1 GC_GREY" y] by (simp add: counts_ok_def)
  with m assms(1) g show "marked_heap st h1"
    unfolding marked_heap_def marking_def heap_ready_def closed_heap_def by auto
  have "black_part h1 h1 = {}" by (auto simp: black_part_def nodes_def)
  then show "scanning st h1 [] h1" using g by (auto simp: scanning_def refs_def nodes_def)
  show "whites st h1 [] h1" using nw g by (auto simp: whites_def nodes_def)
  show "nodes h1 GC_GREY = suspects st h0 rs - {x. is_symbol_table st h0 x}" by (rule gr)
  show "marked st h1 r" if "r \<in> set rs" "col h0 r = GC_PURPLE" for r using pr that by blast
qed

lemma scanned_then:
  assumes "heap_ready st h0 rs" "counts_ok st h0 ext"
  defines "h1 \<equiv> fold (mark_root st) rs h0"
  defines "h2 \<equiv> fold (gc_scan st) rs h1"
  shows "same_graph st h0 h2" "nodes h2 GC_GREY = {}"
    "nodes h1 GC_GREY = black_part h1 h2 \<union> nodes h2 GC_WHITE" "black_part h1 h2 \<inter> nodes h2 GC_WHITE = {}"
    "\<And>y. y < length h0 \<Longrightarrow> rc h2 y = rc h0 y - refs st h0 (nodes h2 GC_WHITE) y"
    "\<And>x. x \<in> black_part h1 h2 \<Longrightarrow> alive st h1 x" "\<And>x. x \<in> nodes h2 GC_WHITE \<Longrightarrow> rc h2 x \<le> 0"
    "\<And>r. r \<in> set rs \<Longrightarrow> col h0 r = GC_PURPLE \<Longrightarrow> col h2 r \<in> {GC_WHITE, GC_BLACK}"
proof -
  note m = marked_then [OF assms(1,2), folded h1_def]
  have g: "length h1 = length h0" "gc_children st h1 = gc_children st h0" "is_symbol_table st h1 = is_symbol_table st h0"
    using m(5) by (auto simp: same_graph_def)
  have rs: "set rs \<subseteq> {..<length h1}" using assms(1) g by (simp add: heap_ready_def)
  from scan_roots_ok [OF m(2,3,1) rs, folded h2_def]
  have s: "scanning st h1 [] h2" and w: "whites st h1 [] h2"
    and gr: "\<And>x. is_color h2 x GC_GREY \<Longrightarrow> is_color h1 x GC_GREY \<and> x \<notin> set rs" by blast+
  show sg: "same_graph st h0 h2" using s m(5) by (simp add: scanning_def same_graph_def)
  then have l2: "length h2 = length h0" by (simp add: same_graph_def)
  let ?G = "nodes h1 GC_GREY"
  have cols: "col h2 x \<in> {GC_GREY, GC_WHITE, GC_BLACK}" if "x \<in> ?G" for x using s that by (simp add: scanning_def)
  have out: "col h2 x = col h1 x" if "x < length h0" "x \<notin> ?G" for x using s that g by (simp add: scanning_def)
  have "col h2 y \<noteq> GC_GREY" if "(r, y) \<in> (edges st h0)\<^sup>*" "r \<in> set rs" "is_color h0 r GC_PURPLE" for r y
    using that(1)
  proof (induction rule: rtrancl_induct)
    case base
    show ?case using gr [of r] that(2) rs l2 g by (auto simp: color_col)
  next
    case (step y z)
    have e: "y < length h0" "z \<in> set (gc_children st h0 y)" using step(2) by (auto simp: edges_def)
    then have "\<not> is_symbol_table st h0 y" by (auto simp: gc_children_def)
    moreover have "y \<in> suspects st h0 rs" using step(1) that(2,3) by (auto simp: suspects_def)
    ultimately have yG: "y \<in> ?G" using m(4) by simp
    have zl: "z < length h0" using e assms(1) by (auto simp: heap_ready_def closed_heap_def)
    consider "col h2 y = GC_WHITE" | "col h2 y = GC_BLACK" using cols [OF yG] step(3) by auto
    then show ?case
    proof cases
      case 1
      then have "\<not> is_color h2 z GC_GREY" using w yG e(2) g by (auto simp: whites_def)
      with zl l2 show ?thesis by (simp add: color_col)
    next
      case 2
      then have "y \<in> black_part h1 h2" using yG e(1) l2 by (auto simp: black_part_def nodes_def)
      then have "z \<in> ?G \<longrightarrow> z \<in> black_part h1 h2" using s e(2) g by (auto simp: scanning_def)
      then show ?thesis using out [OF zl] zl g by (auto simp: black_part_def nodes_def)
    qed
  qed
  then have sus: "col h2 y \<noteq> GC_GREY" if "y \<in> suspects st h0 rs" for y
    using that by (auto simp: suspects_def)
  show ng: "nodes h2 GC_GREY = {}"
  proof (rule ccontr)
    assume "nodes h2 GC_GREY \<noteq> {}"
    then obtain x where x: "is_color h2 x GC_GREY" by (auto simp: nodes_def color_col)
    then have "x \<in> ?G" using gr [OF x] by (simp add: color_col nodes_def)
    with m(4) sus [of x] x show False by (simp add: color_col)
  qed
  have white: "nodes h2 GC_WHITE \<subseteq> ?G"
  proof
    fix x assume x: "x \<in> nodes h2 GC_WHITE"
    then show "x \<in> ?G" using out [of x] m(7) [of x] l2 by (auto simp: nodes_def)
  qed
  show split: "?G = black_part h1 h2 \<union> nodes h2 GC_WHITE"
    using cols white ng l2 g by (fastforce simp: black_part_def nodes_def)
  show disj: "black_part h1 h2 \<inter> nodes h2 GC_WHITE = {}" by (auto simp: black_part_def nodes_def)
  show "rc h2 y = rc h0 y - refs st h0 (nodes h2 GC_WHITE) y" if y: "y < length h0" for y
  proof -
    have "rc h2 y = rc h1 y + refs st h0 (black_part h1 h2) y"
      using s y g refs_cong [OF g(2)] by (simp add: scanning_def)
    moreover have "rc h1 y = rc h0 y - refs st h0 ?G y"
      using mark_roots_ok [of st h0 rs] assms(1) y unfolding h1_def heap_ready_def marking_def by simp
    moreover have "refs st h0 ?G y = refs st h0 (black_part h1 h2) y + refs st h0 (nodes h2 GC_WHITE) y"
      unfolding split using disj by (intro refs_Un) auto
    ultimately show ?thesis by simp
  qed
  show "alive st h1 x" if "x \<in> black_part h1 h2" for x using s that by (simp add: scanning_def)
  show "rc h2 x \<le> 0" if "x \<in> nodes h2 GC_WHITE" for x using s that white by (auto simp: scanning_def nodes_def)
  show "col h2 r \<in> {GC_WHITE, GC_BLACK}" if r: "r \<in> set rs" "col h0 r = GC_PURPLE" for r
  proof (cases "r \<in> ?G")
    case True
    then show ?thesis unfolding split by (auto simp: black_part_def nodes_def)
  next
    case False
    have rl: "r < length h0" using r(1) rs g(1) by auto
    then have "col h1 r = GC_BLACK" using m(8) [OF r] False g(1) by (auto simp: marked_def nodes_def)
    then show ?thesis using out [OF rl False] by simp
  qed
qed

lemma white_iff_garbage:
  assumes "heap_ready st h0 rs" "counts_ok st h0 ext" "y < length h0"
  defines "h1 \<equiv> fold (mark_root st) rs h0"
  defines "h2 \<equiv> fold (gc_scan st) rs h1"
  shows "col h2 y = GC_WHITE \<longleftrightarrow> garbage st h0 rs ext y"
proof -
  note m = marked_then [OF assms(1,2), folded h1_def] and s = scanned_then [OF assms(1,2), folded h1_def, folded h2_def]
  have g: "length h1 = length h0" "gc_children st h1 = gc_children st h0" "length h2 = length h0"
    using m(5) s(1) by (auto simp: same_graph_def)
  let ?G = "nodes h1 GC_GREY" and ?W = "nodes h2 GC_WHITE"
  have e: "edges st h1 = edges st h0" using g by (simp add: edges_def)
  have anc: "ext x = 0 \<and> (\<forall>p. (p, x) \<in> edges st h0 \<longrightarrow> p \<in> ?W)" if x: "x \<in> ?W" for x
  proof -
    have xl: "x < length h0" using x g by (simp add: nodes_def)
    have sub: "?W \<subseteq> {..<length h0}" using g by (auto simp: nodes_def)
    have "rc h2 x = ext x + refs st h0 ({..<length h0} - ?W) x"
      using s(5) [OF xl] assms(2) xl refs_diff [OF _ sub, of st h0 x] by (simp add: counts_ok_def)
    moreover have "0 \<le> ext x" using assms(2) xl by (simp add: counts_ok_def)
    ultimately have "ext x = 0" "\<not> 0 < refs st h0 ({..<length h0} - ?W) x"
      using s(7) [OF x] refs_nonneg [of st h0 "{..<length h0} - ?W" x] by linarith+
    then show ?thesis by (auto simp: refs_pos edges_def)
  qed
  show ?thesis
  proof
    assume "col h2 y = GC_WHITE"
    then have y: "y \<in> ?W" using assms(3) g by (simp add: nodes_def)
    have "z \<in> ?W" if "(z, y) \<in> (edges st h0)\<^sup>*" for z
      using that
    proof (induction rule: converse_rtrancl_induct)
      case (step p z)
      from anc [OF step(3)] step(1) show ?case by blast
    qed (rule y)
    then show "garbage st h0 rs ext y" unfolding garbage_def using anc s(3) m(4) by blast
  next
    assume gb: "garbage st h0 rs ext y"
    then have "y \<in> ?G" using m(4) by (auto simp: garbage_def)
    moreover have "y \<notin> black_part h1 h2"
    proof
      assume "y \<in> black_part h1 h2"
      from s(6) [OF this] obtain z where z: "z \<in> ?G" "rc h1 z > 0" "(z, y) \<in> (edges st h0)\<^sup>*"
        unfolding alive_def e by blast
      have zl: "z < length h0" using z(1) g by (simp add: nodes_def)
      have "ext z = 0" using gb z(3) by (simp add: garbage_def)
      then have "0 < refs st h0 ({..<length h0} - ?G) z" using z(2) m(6) [OF zl] by linarith
      then obtain p where p: "p < length h0" "p \<notin> ?G" "z \<in> set (gc_children st h0 p)"
        by (subst (asm) refs_pos) auto
      then have "(p, y) \<in> (edges st h0)\<^sup>*" 
        by (intro converse_rtrancl_into_rtrancl [OF _ z(3)]) (simp add: edges_def)
      with gb p(2) m(4) show False by (auto simp: garbage_def)
    qed
    ultimately show "col h2 y = GC_WHITE" using s(3) by (auto simp: nodes_def)
  qed
qed

end
