(* ===== verification/Zend_Gc_Buffer_Correct.thy ===== *)
theory Zend_Gc_Buffer_Correct
  imports Zend_Gc_Buffer Zend_Gc_Correct
begin

section \<open>The root buffer\<close>

text \<open>
  The root buffer as the list of its entries, and compaction: it keeps the entries, closes all
  gaps and changes nothing of the heap but the buffer addresses.
\<close>

definition used_in :: "gc_entry list \<Rightarrow> nat \<Rightarrow> nat \<Rightarrow> gc_entry list" where
  "used_in buf a b = filter (\<lambda>e. \<not> GC_IS_UNUSED e) (map ((!) buf) [a..<b])"

definition used_entries :: "gc_state \<Rightarrow> gc_entry list" where
  "used_entries g = used_in (G_buf g) GC_FIRST_ROOT (G_first_unused g)"

lemma used_in_split: "a \<le> b \<Longrightarrow> b \<le> c \<Longrightarrow> used_in buf a c = used_in buf a b @ used_in buf b c"
  unfolding used_in_def by (metis filter_append le_Suc_ex map_append upt_add_eq_append)

lemma used_in_simps [simp]:
  "b \<le> a \<Longrightarrow> used_in buf a b = []"
  "used_in buf a (Suc a) = (if GC_IS_UNUSED (buf ! a) then [] else [buf ! a])"
  by (simp_all add: used_in_def)

lemma used_in_cong: "(\<And>i. a \<le> i \<Longrightarrow> i < b \<Longrightarrow> buf ! i = buf' ! i) \<Longrightarrow> used_in buf a b = used_in buf' a b"
  unfolding used_in_def by (intro arg_cong [where f = "filter _"] map_cong) auto

lemma used_in_length: "length (used_in buf a b) \<le> b - a"
  unfolding used_in_def by (rule order_trans [OF length_filter_le]) simp

lemma used_in_full: "length (used_in buf a b) = b - a \<Longrightarrow> i \<in> {a..<b} \<Longrightarrow> \<not> GC_IS_UNUSED (buf ! i)"
  using length_filter_less [of "buf ! i" "map ((!) buf) [a..<b]" "\<lambda>e. \<not> GC_IS_UNUSED e"]
  by (auto simp: used_in_def)

subsection \<open>The fingers\<close>

lemma skip_used_stops:
  "i \<in> {free..<skip_used buf free} \<Longrightarrow> i < length buf \<and> \<not> GC_IS_UNUSED (buf ! i)"
  "skip_used buf free < length buf \<Longrightarrow> GC_IS_UNUSED (buf ! skip_used buf free)"
proof (induction buf free rule: skip_used.induct)
  case (1 buf free)
  { case 1 then show ?case using "1.IH"(1) by (subst (asm) skip_used.simps) (cases "i = free"; auto split: if_splits) }
  { case 2 then show ?case using "1.IH"(2) by (subst skip_used.simps, subst (asm) skip_used.simps) (auto split: if_splits) }
qed

lemma skip_unused_stops:
  "i \<in> {skip_unused buf scan<..scan} \<Longrightarrow> GC_IS_UNUSED (buf ! i)"
  "skip_unused buf scan \<noteq> 0 \<Longrightarrow> \<not> GC_IS_UNUSED (buf ! skip_unused buf scan)"
  by (induction scan) (auto simp: less_Suc_eq_le le_Suc_eq split: if_splits)

text \<open>What the upper finger passes over holds no entry.\<close>

lemma used_in_skip: "a \<le> skip_unused buf scan + 1 \<Longrightarrow> used_in buf a (scan + 1) = used_in buf a (skip_unused buf scan + 1)"
proof -
  assume a: "a \<le> skip_unused buf scan + 1"
  have "used_in buf (skip_unused buf scan + 1) (scan + 1) = []"
    using skip_unused_stops(1) [of _ buf scan] by (auto simp: used_in_def filter_empty_conv)
  then show ?thesis using used_in_split [OF a, of "scan + 1" buf] skip_unused_le [of buf scan] by simp
qed

text \<open>One move keeps the entries up to the upper finger, which goes down by one.\<close>

lemma used_in_move:
  assumes "a \<le> free" "free < scan" "scan < length buf" "GC_IS_UNUSED (buf ! free)" "\<not> GC_IS_UNUSED (buf ! scan)"
  shows "mset (used_in (buf[free := buf ! scan]) a scan) = mset (used_in buf a (scan + 1))"
proof -
  let ?b = "buf[free := buf ! scan]"
  have "used_in ?b a free = used_in buf a free" "used_in ?b (Suc free) scan = used_in buf (Suc free) scan"
    by (intro used_in_cong; simp)+
  moreover have "used_in ?b free (Suc free) = [buf ! scan]" using assms by simp
  moreover have "used_in ?b a scan = used_in ?b a free @ used_in ?b free (Suc free) @ used_in ?b (Suc free) scan"
    using assms used_in_split [of a free scan ?b] used_in_split [of free "Suc free" scan ?b] by simp
  moreover have "used_in buf a (scan + 1) = used_in buf a free @ used_in buf free (Suc free) @ used_in buf (Suc free) scan @ [buf ! scan]"
    using assms used_in_split [of a free "scan + 1" buf] used_in_split [of free "Suc free" "scan + 1" buf]
      used_in_split [of "Suc free" scan "scan + 1" buf] by simp
  ultimately show ?thesis using assms(4) by simp
qed

subsection \<open>Compaction\<close>

text \<open>Compaction changes nothing of a value but its address in the buffer.\<close>

definition same_but_address :: "gc_heap \<Rightarrow> gc_heap \<Rightarrow> bool" where
  "same_but_address h h' = (length h' = length h \<and> (\<forall>i < length h. \<exists>a. h' ! i = (h ! i)\<lparr>gn_address := a\<rparr>))"

lemma same_but_address_refl [simp]: "same_but_address h h"
proof -
  have "h ! i = (h ! i)\<lparr>gn_address := gn_address (h ! i)\<rparr>" for i by simp
  then show ?thesis unfolding same_but_address_def by blast
qed

lemma same_but_address_trans: "same_but_address h h' \<Longrightarrow> same_but_address h' h'' \<Longrightarrow> same_but_address h h''"
  unfolding same_but_address_def
proof (elim conjE, intro conjI allI impI)
  fix i assume a: "\<forall>i<length h. \<exists>a. h' ! i = (h ! i)\<lparr>gn_address := a\<rparr>" "\<forall>i<length h'. \<exists>a. h'' ! i = (h' ! i)\<lparr>gn_address := a\<rparr>"
    "length h' = length h" "i < length h"
  then obtain b c where "h' ! i = (h ! i)\<lparr>gn_address := b\<rparr>" "h'' ! i = (h' ! i)\<lparr>gn_address := c\<rparr>" by metis
  then have "h'' ! i = (h ! i)\<lparr>gn_address := c\<rparr>" by (cases "h ! i") simp
  then show "\<exists>a. h'' ! i = (h ! i)\<lparr>gn_address := a\<rparr>" ..
qed simp

lemma same_but_address_set: "same_but_address h (GC_REF_SET_INFO r a (gn_color (h ! r)) h)"
  unfolding same_but_address_def
proof (intro conjI allI impI)
  fix i assume "i < length h"
  show "\<exists>b. GC_REF_SET_INFO r a (gn_color (h ! r)) h ! i = (h ! i)\<lparr>gn_address := b\<rparr>"
  proof (cases "i = r")
    case True
    with \<open>i < length h\<close> show ?thesis by (intro exI [of _ a]) (cases "h ! r"; simp add: GC_REF_SET_INFO_def)
  next
    case False
    then have "GC_REF_SET_INFO r a (gn_color (h ! r)) h ! i = (h ! i)\<lparr>gn_address := gn_address (h ! i)\<rparr>"
      by (simp add: GC_REF_SET_INFO_def)
    then show ?thesis ..
  qed
qed (simp add: GC_REF_SET_INFO_def)

lemma same_but_address_reads:
  assumes "same_but_address h h'" "i < length h"
  shows "rc h' i = rc h i" "col h' i = col h i" "gc_values (h' ! i) = gc_values (h ! i)" "gn_type (h' ! i) = gn_type (h ! i)"
proof -
  obtain a where a: "h' ! i = (h ! i)\<lparr>gn_address := a\<rparr>" using assms by (auto simp: same_but_address_def)
  then show "rc h' i = rc h i" "col h' i = col h i" "gn_type (h' ! i) = gn_type (h ! i)" by (simp_all add: rc_def col_def)
  show "gc_values (h' ! i) = gc_values (h ! i)"
    using a by (cases "gn_type (h ! i)"; simp add: gc_values_def object_values_def ht_values_def)
qed

text \<open>Everything of the state but the buffer, the heap's addresses and the two ends.\<close>

definition compacts :: "gc_state \<Rightarrow> gc_state \<Rightarrow> bool" where
  "compacts g g' = (same_but_address (gs_heap g) (gs_heap g') \<and> length (G_buf g') = length (G_buf g) \<and>
     (\<exists>h b. g' = g\<lparr>gs_heap := h, G_buf := b\<rparr>))"

lemma compactsI:
  "g' = g\<lparr>gs_heap := h, G_buf := b\<rparr> \<Longrightarrow> same_but_address (gs_heap g) h \<Longrightarrow> length b = length (G_buf g) \<Longrightarrow> compacts g g'"
  unfolding compacts_def by auto

lemma compacts_refl [simp]: "compacts g g"
  by (rule compactsI [where h = "gs_heap g" and b = "G_buf g"]) simp_all

lemma compacts_trans:
  assumes "compacts g g'" "compacts g' g''"
  shows "compacts g g''"
proof (rule compactsI [where h = "gs_heap g''" and b = "G_buf g''"])
  show "g'' = g\<lparr>gs_heap := gs_heap g'', G_buf := G_buf g''\<rparr>" using assms by (auto simp: compacts_def)
qed (use assms in \<open>auto simp: compacts_def intro: same_but_address_trans\<close>)

lemma compacts_fields:
  assumes "compacts g g'"
  shows "gs_symbol_table g' = gs_symbol_table g" "G_num_roots g' = G_num_roots g" "G_first_unused g' = G_first_unused g"
    "G_unused g' = G_unused g" "G_buf_size g' = G_buf_size g" "G_active g' = G_active g" "G_protected g' = G_protected g"
  using assms unfolding compacts_def by auto

lemma move_entry_compacts: "compacts g (move_entry scan free g)"
proof (cases "entry_ref (G_buf g ! scan)")
  case None
  then show ?thesis
    by (intro compactsI [where h = "gs_heap g" and b = "(G_buf g)[free := G_buf g ! scan]"]) (simp_all add: move_entry_def)
next
  case (Some r)
  then show ?thesis
    by (intro compactsI [where h = "GC_REF_SET_INFO r (gc_compress free) (gn_color (gs_heap g ! r)) (gs_heap g)" and b = "(G_buf g)[free := G_buf g ! scan]"]) (simp_all add: move_entry_def on_heap_def same_but_address_set)
qed

lemma move_entry_buf [simp]: "G_buf (move_entry scan free g) = (G_buf g)[free := G_buf g ! scan]"
  by (auto simp: move_entry_def Let_def on_heap_def split: option.splits)

lemma used_in_all: "\<forall>i \<in> {a..<b}. \<not> GC_IS_UNUSED (buf ! i) \<Longrightarrow> length (used_in buf a b) = b - a"
proof -
  assume "\<forall>i \<in> {a..<b}. \<not> GC_IS_UNUSED (buf ! i)"
  then have "used_in buf a b = map ((!) buf) [a..<b]" by (auto simp: used_in_def filter_id_conv)
  then show ?thesis by simp
qed

lemma compact_done:
  assumes "scan \<le> free" "\<forall>i \<in> {1..<free}. \<not> GC_IS_UNUSED (buf ! i)" "mset (used_in buf 1 (scan + 1)) = M"
  shows "mset (used_in buf 1 (size M + 1)) = M"
proof (cases "scan = 0")
  case False
  have full: "length (used_in buf 1 scan) = scan - 1" using assms(1,2) by (intro used_in_all) auto
  have sp: "used_in buf 1 (scan + 1) = used_in buf 1 scan @ used_in buf scan (Suc scan)"
    using False used_in_split [of 1 scan "scan + 1" buf] by simp
  then have "size M = (if GC_IS_UNUSED (buf ! scan) then scan - 1 else scan)"
    using assms(3) full False by auto
  then show ?thesis using assms(3) sp False by (auto split: if_splits)
qed (use assms in auto)

lemma compact_loop_ok:
  assumes "1 \<le> free" "scan < length (G_buf g)" "\<forall>i \<in> {1..<free}. \<not> GC_IS_UNUSED (G_buf g ! i)"
    "mset (used_in (G_buf g) 1 (scan + 1)) = M" "size M = endp"
  shows "compacts g (compact_loop endp free scan g) \<and> mset (used_in (G_buf (compact_loop endp free scan g)) 1 (endp + 1)) = M"
  using assms
proof (induction endp free scan g rule: compact_loop.induct)
  case (1 endp free scan g)
  let ?buf = "G_buf g" and ?F = "skip_used (G_buf g) free" and ?S = "skip_unused (G_buf g) scan"
  show ?case
  proof (cases "free < scan")
    case False
    then have "compact_loop endp free scan g = g" by (subst compact_loop.simps) simp
    then show ?thesis using compact_done [of scan free ?buf M] False "1.prems" by simp
  next
    case True
    have F: "\<forall>i \<in> {1..<?F}. \<not> GC_IS_UNUSED (?buf ! i)"
      using "1.prems"(3) skip_used_stops(1) [of _ free ?buf] by (metis atLeastLessThan_iff not_less)
    have S: "mset (used_in ?buf 1 (?S + 1)) = M" using "1.prems"(4) used_in_skip [of 1 ?buf scan] by simp
    show ?thesis
    proof (cases "?F < ?S")
      case False
      then have "compact_loop endp free scan g = g"
        using True by (subst compact_loop.simps, subst compact_loop.simps) simp
      then show ?thesis using compact_done [OF _ F S] False "1.prems"(5) by simp
    next
      case FS: True
      let ?g = "move_entry ?S ?F g"
      have SL: "?S < length ?buf" using skip_unused_le [of ?buf scan] "1.prems"(2) by simp
      have m: "mset (used_in (?buf[?F := ?buf ! ?S]) 1 ?S) = M"
        using used_in_move [of 1 ?F ?S ?buf] FS SL S skip_used_ge [of free ?buf] "1.prems"(1)
          skip_used_stops(2) [of ?buf free] skip_unused_stops(2) [of ?buf scan] by simp
      show ?thesis
      proof (cases "?S - 1 \<le> endp")
        case le: True
        then have e: "compact_loop endp free scan g = ?g" using True FS by (subst compact_loop.simps) (simp add: Let_def)
        have "endp \<le> ?S - 1" using arg_cong [OF m, of size] "1.prems"(5) used_in_length [of "?buf[?F := ?buf ! ?S]" 1 ?S] by simp
        with le FS have "endp + 1 = ?S" by simp
        with e m move_entry_compacts show ?thesis by simp
      next
        case False
        then have e: "compact_loop endp free scan g = compact_loop endp (?F + 1) (?S - 1) ?g"
          using True FS by (subst compact_loop.simps) (simp add: Let_def)
        have "\<forall>i \<in> {1..<?F + 1}. \<not> GC_IS_UNUSED (G_buf ?g ! i)"
          using F skip_unused_stops(2) [of ?buf scan] FS SL by (auto simp: nth_list_update less_Suc_eq)
        moreover have "mset (used_in (G_buf ?g) 1 (?S - 1 + 1)) = M" using m FS by simp
        ultimately have "compacts ?g (compact_loop endp (?F + 1) (?S - 1) ?g) \<and>
            mset (used_in (G_buf (compact_loop endp (?F + 1) (?S - 1) ?g)) 1 (endp + 1)) = M"
          using "1.IH"(1) [OF True refl refl FS refl False] "1.prems"(5) SL by simp
        with e compacts_trans [OF move_entry_compacts] show ?thesis by metis
      qed
    qed
  qed
qed

lemma gc_compact_ok:
  assumes "1 \<le> G_first_unused g" "G_first_unused g \<le> length (G_buf g)" "G_num_roots g = length (used_entries g)"
    "G_num_roots g + 1 = G_first_unused g \<longrightarrow> G_unused g = GC_INVALID"
  defines "g' \<equiv> gc_compact g"
  shows "same_but_address (gs_heap g) (gs_heap g')" "mset (used_entries g') = mset (used_entries g)"
    "G_first_unused g' = G_num_roots g + 1" "G_num_roots g' = G_num_roots g" "G_unused g' = GC_INVALID"
    "length (G_buf g') = length (G_buf g)" "gs_symbol_table g' = gs_symbol_table g"
    "\<forall>i \<in> {1..<G_first_unused g'}. \<not> GC_IS_UNUSED (G_buf g' ! i)" "G_buf_size g' = G_buf_size g"
proof -
  let ?g = "compact_loop (G_num_roots g) GC_FIRST_ROOT (G_first_unused g - 1) g"
  have c: "compacts g ?g \<and> mset (used_in (G_buf ?g) 1 (G_num_roots g + 1)) = mset (used_entries g)"
    using compact_loop_ok [of 1 "G_first_unused g - 1" g "mset (used_entries g)" "G_num_roots g"] assms(1-3)
    by (simp add: GC_FIRST_ROOT_def used_entries_def)
  note f = compacts_fields [OF conjunct1 [OF c]]
  have "same_but_address (gs_heap g) (gs_heap g') \<and> mset (used_entries g') = mset (used_entries g) \<and>
    G_first_unused g' = G_num_roots g + 1 \<and> G_num_roots g' = G_num_roots g \<and> G_unused g' = GC_INVALID \<and>
    length (G_buf g') = length (G_buf g) \<and> gs_symbol_table g' = gs_symbol_table g \<and> G_buf_size g' = G_buf_size g"
  proof (cases "G_num_roots g + GC_FIRST_ROOT = G_first_unused g")
    case True
    then show ?thesis using assms(4) by (simp add: g'_def gc_compact_def GC_FIRST_ROOT_def)
  next
    case ne: False
    show ?thesis
    proof (cases "G_num_roots g = 0")
      case True
      then show ?thesis using ne assms(3) by (simp add: g'_def gc_compact_def GC_FIRST_ROOT_def used_entries_def [of "g\<lparr>G_unused := _, G_first_unused := _\<rparr>"])
    next
      case False
      then show ?thesis using ne c f
        by (simp add: g'_def gc_compact_def Let_def GC_FIRST_ROOT_def used_entries_def [of "_\<lparr>G_unused := _, G_first_unused := _\<rparr>"]
            compacts_def)
    qed
  qed
  then show all: "same_but_address (gs_heap g) (gs_heap g')" "mset (used_entries g') = mset (used_entries g)"
    "G_first_unused g' = G_num_roots g + 1" "G_num_roots g' = G_num_roots g" "G_unused g' = GC_INVALID"
    "length (G_buf g') = length (G_buf g)" "gs_symbol_table g' = gs_symbol_table g" "G_buf_size g' = G_buf_size g" by blast+
  have "length (used_in (G_buf g') 1 (G_first_unused g')) = G_first_unused g' - 1"
    using arg_cong [OF all(2), of size] all(3) assms(3) by (simp add: used_entries_def GC_FIRST_ROOT_def)
  then show "\<forall>i \<in> {1..<G_first_unused g'}. \<not> GC_IS_UNUSED (G_buf g' ! i)" using used_in_full by blast
qed

end
