(* ===== verification/Zend_Gc_Collect_Correct.thy ===== *)
theory Zend_Gc_Collect_Correct
  imports Zend_Gc_Collect Zend_Gc_Buffer_Correct
begin

section \<open>A collection finds the garbage and gives back every count\<close>

text \<open>
  The loops over the buffer are the loops over the roots of the heap that \<open>Zend_Gc_Correct\<close> is about.
\<close>

text \<open>
  The buffer before a collection: its ends fit, the number of roots is right, and every root is a
  purple value of the heap.
\<close>

definition buffer_ok :: "gc_state \<Rightarrow> bool" where
  "buffer_ok g = (1 \<le> G_first_unused g \<and> G_first_unused g \<le> length (G_buf g) \<and> G_buf_size g = length (G_buf g) \<and>
     G_buf_size g \<le> GC_MAX_BUF_SIZE \<and> G_num_roots g = length (used_entries g) \<and>
     (\<forall>e \<in> set (used_entries g). \<exists>r. e = Root_ref r \<and> is_color (gs_heap g) r GC_PURPLE) \<and>
     (G_num_roots g + 1 = G_first_unused g \<longrightarrow> G_unused g = GC_INVALID))"

definition root_refs :: "gc_state \<Rightarrow> nat list" where
  "root_refs g = map (\<lambda>e. the (entry_ref e)) (used_entries g)"

subsection \<open>Marking and scanning through the buffer\<close>

lemma on_heap_simps [simp]:
  "G_buf (on_heap f g) = G_buf g" "gs_symbol_table (on_heap f g) = gs_symbol_table g"
  "G_first_unused (on_heap f g) = G_first_unused g" "G_num_roots (on_heap f g) = G_num_roots g"
  "G_unused (on_heap f g) = G_unused g" "G_buf_size (on_heap f g) = G_buf_size g"
  "on_heap f (on_heap f' g) = on_heap (f \<circ> f') g" "slots (on_heap f g) = slots g" "on_heap (\<lambda>h. h) g = g"
  by (simp_all add: on_heap_def slots_def)

lemma mark_slots:
  "\<forall>i \<in> set is. \<exists>r. G_buf g ! i = Root_ref r \<Longrightarrow>
   fold mark_slot is g = on_heap (fold (mark_root (gs_symbol_table g)) (map (\<lambda>i. the (entry_ref (G_buf g ! i))) is)) g"
proof (induction "is" arbitrary: g)
  case (Cons i "is")
  then obtain r where r: "G_buf g ! i = Root_ref r" by auto
  then have "mark_slot i g = on_heap (mark_root (gs_symbol_table g) r) g"
    by (simp add: mark_slot_def mark_root_def on_heap_def)
  with Cons r show ?case by (simp add: comp_def)
qed (simp add: id_def)

lemma scan_slots:
  "\<forall>i \<in> set is. \<exists>r. G_buf g ! i = Root_ref r \<Longrightarrow>
   fold scan_slot is g = on_heap (fold (gc_scan (gs_symbol_table g)) (map (\<lambda>i. the (entry_ref (G_buf g ! i))) is)) g"
proof (induction "is" arbitrary: g)
  case (Cons i "is")
  then obtain r where r: "G_buf g ! i = Root_ref r" by auto
  then have "scan_slot i g = on_heap (gc_scan (gs_symbol_table g) r) g" by (simp add: scan_slot_def)
  with Cons r show ?case by (simp add: comp_def)
qed (simp add: id_def)

text \<open>The graph of a heap does not depend on the buffer addresses.\<close>

lemma children_address:
  assumes "same_but_address h h'" "i < length h"
  shows "gc_children st h' i = gc_children st h i" "is_symbol_table st h' i = is_symbol_table st h i"
proof -
  show t: "is_symbol_table st h' i = is_symbol_table st h i"
    using same_but_address_reads [OF assms] by (auto simp: is_symbol_table_def)
  show "gc_children st h' i = gc_children st h i"
    using same_but_address_reads [OF assms] by (simp only: gc_children_def t)
qed

lemma edges_address: "same_but_address h h' \<Longrightarrow> edges st h' = edges st h"
  using children_address by (auto simp: edges_def same_but_address_def)

lemma suspects_address: "same_but_address h h' \<Longrightarrow> set rs' = set rs \<Longrightarrow> suspects st h' rs' = suspects st h rs"
  using same_but_address_reads(2) unfolding suspects_def
  by (auto simp: edges_address color_col same_but_address_def)

lemma ready_address:
  assumes "same_but_address h h'" "heap_ready st h rs" "counts_ok st h ext" "set rs' = set rs"
  shows "heap_ready st h' rs'" "counts_ok st h' ext" "garbage st h' rs' ext y \<longleftrightarrow> garbage st h rs ext y"
proof -
  have l: "length h' = length h" using assms(1) by (simp add: same_but_address_def)
  note r = same_but_address_reads [OF assms(1)] and c = children_address [OF assms(1)]
  show "heap_ready st h' rs'"
    using assms(2,4) l r(2) c by (auto simp: heap_ready_def closed_heap_def nodes_def)
  have "refs st h' {..<length h} x = refs st h {..<length h} x" for x
    unfolding refs_def using c by (intro sum.cong) auto
  then show "counts_ok st h' ext" using assms(3) l r(1) by (simp add: counts_ok_def)
  have "closed_heap st h" using assms(2) by (simp add: heap_ready_def)
  then have "z < length h" if "z \<in> suspects st h rs" for z using that suspects_bound by blast
  then show "garbage st h' rs' ext y \<longleftrightarrow> garbage st h rs ext y"
    unfolding garbage_def suspects_address [OF assms(1,4)] edges_address [OF assms(1)] using c(2) by blast
qed

text \<open>The buffer after compaction: the roots in some order, one behind the other.\<close>

lemma compact_roots:
  assumes "buffer_ok g"
  defines "g' \<equiv> gc_compact g"
  shows "same_but_address (gs_heap g) (gs_heap g')" "gs_symbol_table g' = gs_symbol_table g"
    "\<forall>i \<in> set (slots g'). \<exists>r. G_buf g' ! i = Root_ref r \<and> r \<in> set (root_refs g)"
    "set (map (\<lambda>i. the (entry_ref (G_buf g' ! i))) (slots g')) = set (root_refs g)"
    "G_unused g' = 0" "G_buf_size g' = length (G_buf g')" "G_first_unused g' = G_num_roots g' + 1"
    "G_first_unused g' \<le> G_buf_size g'" "G_buf_size g' \<le> GC_MAX_BUF_SIZE"
proof -
  note c = gc_compact_ok [of g, folded g'_def]
  have b: "1 \<le> G_first_unused g" "G_first_unused g \<le> length (G_buf g)" "G_num_roots g = length (used_entries g)"
    "G_num_roots g + 1 = G_first_unused g \<longrightarrow> G_unused g = GC_INVALID" using assms(1) by (auto simp: buffer_ok_def)
  note c = c [OF b]
  show "same_but_address (gs_heap g) (gs_heap g')" "gs_symbol_table g' = gs_symbol_table g" "G_unused g' = 0"
    "G_first_unused g' = G_num_roots g' + 1"
    using c by (simp_all add: GC_INVALID_def)
  have bs: "G_buf_size g' = G_buf_size g" using c(9) by simp
  have "used_entries g' = map ((!) (G_buf g')) (slots g')"
    using c(8) by (auto simp: used_entries_def used_in_def slots_def GC_FIRST_ROOT_def filter_id_conv)
  then have e: "set (map ((!) (G_buf g')) (slots g')) = set (used_entries g)" using mset_eq_setD [OF c(2)] by simp
  have "length (used_entries g) \<le> G_first_unused g - 1"
    using used_in_length [of "G_buf g" 1 "G_first_unused g"] by (simp add: used_entries_def GC_FIRST_ROOT_def)
  then show "G_buf_size g' = length (G_buf g')" "G_first_unused g' \<le> G_buf_size g'" "G_buf_size g' \<le> GC_MAX_BUF_SIZE"
    using b c(3,6) bs assms(1) by (auto simp: buffer_ok_def)
  show "\<forall>i \<in> set (slots g'). \<exists>r. G_buf g' ! i = Root_ref r \<and> r \<in> set (root_refs g)"
  proof
    fix i assume "i \<in> set (slots g')"
    then have "G_buf g' ! i \<in> set (used_entries g)" using e by (metis imageI list.set_map)
    then show "\<exists>r. G_buf g' ! i = Root_ref r \<and> r \<in> set (root_refs g)"
      using assms(1) unfolding buffer_ok_def root_refs_def by (metis entry_ref.simps(1) imageI list.set_map option.sel)
  qed
  show "set (map (\<lambda>i. the (entry_ref (G_buf g' ! i))) (slots g')) = set (root_refs g)"
    using arg_cong [OF e, of "image (\<lambda>e. the (entry_ref e))"] by (simp add: root_refs_def image_image)
qed

text \<open>The state after marking and scanning.\<close>

definition scanned :: "gc_state \<Rightarrow> gc_state" where
  "scanned g = gc_scan_roots (gc_mark_roots g)"

lemma fold_mark_map: "fold (mark_root st) (map f xs) h = fold (\<lambda>x. mark_root st (f x)) xs h"
  by (simp add: fold_map comp_def)

lemma scanned_heap:
  assumes "buffer_ok g"
  defines "rs \<equiv> map (\<lambda>i. the (entry_ref (G_buf (gc_compact g) ! i))) (slots (gc_compact g))"
  shows "scanned g = on_heap (\<lambda>h. fold (gc_scan (gs_symbol_table g)) rs (fold (mark_root (gs_symbol_table g)) rs h)) (gc_compact g)"
    "set rs = set (root_refs g)"
proof -
  note c = compact_roots [OF assms(1)]
  have r: "\<forall>i \<in> set (slots (gc_compact g)). \<exists>r. G_buf (gc_compact g) ! i = Root_ref r" using c(3) by blast
  have "gc_mark_roots g = on_heap (fold (mark_root (gs_symbol_table g)) rs) (gc_compact g)"
    unfolding gc_mark_roots_def Let_def rs_def using mark_slots [OF r] c(2) by simp
  moreover have "gc_scan_roots (on_heap f (gc_compact g)) = on_heap (fold (gc_scan (gs_symbol_table g)) rs) (on_heap f (gc_compact g))" for f
    unfolding gc_scan_roots_def rs_def using scan_slots [of "slots (gc_compact g)" "on_heap f (gc_compact g)"] r c(2) by simp
  ultimately show "scanned g = on_heap (\<lambda>h. fold (gc_scan (gs_symbol_table g)) rs (fold (mark_root (gs_symbol_table g)) rs h)) (gc_compact g)"
    by (simp add: scanned_def comp_def)
  show "set rs = set (root_refs g)" unfolding rs_def by (rule c(4))
qed

lemma scanned_ok:
  assumes "buffer_ok g" "heap_ready (gs_symbol_table g) (gs_heap g) (root_refs g)" "counts_ok (gs_symbol_table g) (gs_heap g) ext"
  defines "h \<equiv> gs_heap g" and "h' \<equiv> gs_heap (scanned g)" and "st \<equiv> gs_symbol_table g"
  shows "length h' = length h" "gc_children st h' = gc_children st (gs_heap (gc_compact g))" "nodes h' GC_GREY = {}"
    "\<And>y. y < length h \<Longrightarrow> col h' y = GC_WHITE \<longleftrightarrow> garbage st h (root_refs g) ext y"
    "\<And>y. y < length h \<Longrightarrow> rc h' y = rc h y - refs st h (nodes h' GC_WHITE) y"
    "is_symbol_table st h' = is_symbol_table st (gs_heap (gc_compact g))"
    "\<And>r. r \<in> set (root_refs g) \<Longrightarrow> col h' r \<in> {GC_WHITE, GC_BLACK}"
proof -
  note c = compact_roots [OF assms(1)]
  define rs where "rs = map (\<lambda>i. the (entry_ref (G_buf (gc_compact g) ! i))) (slots (gc_compact g))"
  let ?c = "gs_heap (gc_compact g)"
  have h': "h' = fold (gc_scan st) rs (fold (mark_root st) rs ?c)" and rs: "set rs = set (root_refs g)"
    using scanned_heap [OF assms(1), folded rs_def] by (simp_all add: h'_def st_def)
  note r = ready_address [OF c(1) assms(2,3) rs, folded st_def]
  have lc: "length ?c = length h" using c(1) by (simp add: same_but_address_def h_def)
  note s = scanned_then [OF r(1,2), folded h'] and w = white_iff_garbage [OF r(1,2), folded h']
  show l: "length h' = length h" "gc_children st h' = gc_children st ?c" "nodes h' GC_GREY = {}"
    "is_symbol_table st h' = is_symbol_table st ?c"
    using s(1,2) lc by (simp_all add: same_graph_def)
  show "col h' r \<in> {GC_WHITE, GC_BLACK}" if "r \<in> set (root_refs g)" for r
  proof -
    have r: "is_color h r GC_PURPLE" using that assms(1) by (auto simp: root_refs_def buffer_ok_def h_def)
    then have "col ?c r = GC_PURPLE" using same_but_address_reads(2) [OF c(1)] by (simp add: color_col h_def)
    with s(8) [of r] rs that show ?thesis by blast
  qed
  show "col h' y = GC_WHITE \<longleftrightarrow> garbage st h (root_refs g) ext y" if "y < length h" for y
    using w [of y] r(3) [of y] that lc by (simp add: h_def)
  show "rc h' y = rc h y - refs st h (nodes h' GC_WHITE) y" if y: "y < length h" for y
  proof -
    have "refs st ?c (nodes h' GC_WHITE) y = refs st h (nodes h' GC_WHITE) y"
      unfolding refs_def h_def using children_address [OF c(1)] l(1) by (intro sum.cong) (auto simp: nodes_def h_def)
    then show ?thesis using s(5) [of y] y lc same_but_address_reads(1) [OF c(1)] by (simp add: h_def)
  qed
qed

end
