(* ===== verification/Zend_Gc_Garbage_Correct.thy ===== *)
theory Zend_Gc_Garbage_Correct
  imports Zend_Gc_Collect_Correct
begin

section \<open>Collecting the white nodes\<close>

text \<open>
  The walk over the white values gives back the references they have to each other and puts arrays
  and objects into the buffer.
\<close>

subsection \<open>The heap\<close>

text \<open>
  \<open>hs\<close> is the heap with the white nodes found, \<open>W0\<close> the set of them.  The nodes that have turned
  black have their references back, but for those in the worklist.
\<close>

definition collecting_heap :: "nat \<Rightarrow> gc_heap \<Rightarrow> nat set \<Rightarrow> nat list \<Rightarrow> gc_heap \<Rightarrow> bool" where
  "collecting_heap st hs W0 W h = (length h = length hs \<and>
     (\<forall>x < length hs. gc_values (h ! x) = gc_values (hs ! x) \<and> to_be_freed (h ! x) = to_be_freed (hs ! x)) \<and>
     set W \<subseteq> {..<length hs} \<and>
     (\<forall>y < length hs. rc h y = rc hs y + refs st hs (W0 - nodes h GC_WHITE) y - int (count_list W y)) \<and>
     nodes h GC_WHITE \<subseteq> W0 \<and> (\<forall>x \<in> W0. col h x \<in> {GC_WHITE, GC_BLACK}) \<and>
     (\<forall>x < length hs. x \<notin> W0 \<longrightarrow> col h x = col hs x) \<and>
     (\<forall>x \<in> W0 - nodes h GC_WHITE. \<forall>y \<in> set (gc_children st hs x). y \<in> nodes h GC_WHITE \<longrightarrow> y \<in> set W))"

lemma collecting_heapD:
  assumes "collecting_heap st hs W0 W h"
  shows "length h = length hs" "x < length hs \<Longrightarrow> gc_values (h ! x) = gc_values (hs ! x)" "nodes h GC_WHITE \<subseteq> W0"
    "x < length hs \<Longrightarrow> to_be_freed (h ! x) = to_be_freed (hs ! x)"
  using assms unfolding collecting_heap_def by blast+

definition white_set :: "nat \<Rightarrow> gc_heap \<Rightarrow> nat set \<Rightarrow> bool" where
  "white_set st hs W0 = (closed_heap st hs \<and> W0 = nodes hs GC_WHITE \<and> (\<forall>x \<in> W0. \<not> is_symbol_table st hs x))"

lemma white_children_eq: "white_set st hs W0 \<Longrightarrow> x \<in> W0 \<Longrightarrow> white_children hs x = gc_children st hs x"
  by (simp add: white_set_def white_children_def gc_children_def)

lemma nth_set_info:
  "GC_REF_SET_INFO r a c h ! x = (if x = r \<and> r < length h then (h ! x)\<lparr>gn_address := a, gn_color := c\<rparr> else h ! x)"
  by (cases "r < length h"; cases "x = r") (simp_all add: GC_REF_SET_INFO_def list_update_beyond)

lemma set_info_simps [simp]:
  "length (GC_REF_SET_INFO r a c h) = length h"
  "rc (GC_REF_SET_INFO r a c h) x = rc h x"
  "r < length h \<Longrightarrow> col (GC_REF_SET_INFO r a c h) x = (if x = r then c else col h x)"
  "to_be_freed (GC_REF_SET_INFO r a c h ! x) = to_be_freed (h ! x)"
  "x \<noteq> r \<Longrightarrow> GC_REF_SET_INFO r a c h ! x = h ! x"
  by (simp add: GC_REF_SET_INFO_def) (simp_all add: nth_set_info rc_def col_def to_be_freed_def)

lemma set_info_values [simp]: "gc_values (GC_REF_SET_INFO r a c h ! x) = gc_values (h ! x)"
proof -
  have "gc_values (n\<lparr>gn_address := a, gn_color := c\<rparr>) = gc_values n" for n
    by (cases "gn_type n"; simp add: gc_values_def object_values_def ht_values_def)
  then show ?thesis by (simp add: nth_set_info)
qed

lemma addref_simps [simp]:
  "gc_values (GC_ADDREF r h ! x) = gc_values (h ! x)" "to_be_freed (GC_ADDREF r h ! x) = to_be_freed (h ! x)"
  "length (GC_ADDREF r h) = length h" "gn_address (GC_ADDREF r h ! x) = gn_address (h ! x)"
  by (cases "x = r"; cases "r < length h"; simp add: GC_ADDREF_def list_update_beyond to_be_freed_def)+

lemma nodes_info: "r < length h \<Longrightarrow> c \<noteq> c' \<Longrightarrow> nodes (GC_REF_SET_INFO r a c h) c' = nodes h c' - {r}"
  by (auto simp: nodes_def)

lemma set_info_ADDREF: "GC_REF_SET_INFO r a c (GC_ADDREF r h) = GC_ADDREF r (GC_REF_SET_INFO r a c h)"
  by (cases "r < length h"; cases "h ! r") (simp_all add: GC_REF_SET_INFO_def GC_ADDREF_def list_update_beyond)

lemma collecting_heap_perm: "mset W = mset W' \<Longrightarrow> collecting_heap st hs W0 W h \<Longrightarrow> collecting_heap st hs W0 W' h"
proof -
  assume m: "mset W = mset W'" and s: "collecting_heap st hs W0 W h"
  have "set W = set W'" using m by (rule mset_eq_setD)
  moreover have "count_list W y = count_list W' y" for y using m count_mset by metis
  ultimately show "collecting_heap st hs W0 W' h" using s unfolding collecting_heap_def by simp
qed

lemma collecting_visit:
  assumes c: "collecting_heap st hs W0 W h" and w: "white_set st hs W0" and r: "r \<in> nodes h GC_WHITE"
  shows "collecting_heap st hs W0 (gc_children st hs r @ W) (GC_REF_SET_INFO r a GC_BLACK h)"
proof -
  let ?h = "GC_REF_SET_INFO r a GC_BLACK h"
  have rl: "r < length h" "length h = length hs" and r0: "r \<in> W0" using r c by (auto simp: nodes_def collecting_heap_def)
  have fin: "finite W0" using w by (simp add: white_set_def)
  have n: "nodes ?h GC_WHITE = nodes h GC_WHITE - {r}" using nodes_info [OF rl(1), of GC_BLACK GC_WHITE a] by simp
  have d: "W0 - nodes ?h GC_WHITE = insert r (W0 - nodes h GC_WHITE)" using n r0 by auto
  have "refs st hs (W0 - nodes ?h GC_WHITE) y = int (count_list (gc_children st hs r) y) + refs st hs (W0 - nodes h GC_WHITE) y" for y
    unfolding d using fin r by (intro refs_insert) auto
  moreover have "set (gc_children st hs r) \<subseteq> {..<length hs}"
    using w rl by (auto simp: white_set_def closed_heap_def)
  moreover have "\<forall>x \<in> W0 - nodes ?h GC_WHITE. \<forall>y \<in> set (gc_children st hs x). y \<in> nodes ?h GC_WHITE \<longrightarrow> y \<in> set (gc_children st hs r @ W)"
    unfolding d n using c by (auto simp: collecting_heap_def)
  ultimately show ?thesis using c rl r0 unfolding collecting_heap_def by (auto simp: n)
qed

lemma collecting_next:
  assumes "collecting_heap st hs W0 (r # W) h" "col h r \<noteq> GC_WHITE"
  shows "collecting_heap st hs W0 W (GC_ADDREF r h)"
proof -
  have g: "r < length h" "length h = length hs" using assms(1) by (auto simp: collecting_heap_def)
  have "r \<notin> nodes h GC_WHITE" using assms(2) by (simp add: nodes_def)
  then show ?thesis using assms(1) g unfolding collecting_heap_def nodes_refcount by auto
qed

lemma collecting_step:
  assumes "collecting_heap st hs W0 (r # W) h" "white_set st hs W0" "col h r = GC_WHITE"
  shows "collecting_heap st hs W0 (gc_children st hs r @ W) (GC_REF_SET_INFO r a GC_BLACK (GC_ADDREF r h))"
proof -
  have g: "r < length h" using assms(1) by (auto simp: collecting_heap_def)
  then have "r \<in> nodes h GC_WHITE" using assms(3) by (simp add: nodes_def)
  from collecting_visit [OF assms(1,2) this]
  have "collecting_heap st hs W0 (r # gc_children st hs r @ W) (GC_REF_SET_INFO r a GC_BLACK h)"
    by (rule collecting_heap_perm [rotated]) simp
  then show ?thesis unfolding set_info_ADDREF using g by (intro collecting_next) simp_all
qed

subsection \<open>The buffer\<close>

definition room :: "gc_state \<Rightarrow> bool" where
  "room g = (G_unused g = GC_INVALID \<and> 1 \<le> G_first_unused g \<and> G_first_unused g \<le> G_buf_size g \<and>
     G_buf_size g = length (G_buf g) \<and> G_buf_size g \<le> GC_MAX_BUF_SIZE \<and> G_num_roots g + 1 = G_first_unused g)"

definition adds :: "nat set \<Rightarrow> gc_state \<Rightarrow> gc_state \<Rightarrow> bool" where
  "adds W0 g g' = (G_first_unused g \<le> G_first_unused g' \<and> (\<forall>i < G_first_unused g. G_buf g' ! i = G_buf g ! i) \<and>
     (\<forall>i \<in> {G_first_unused g..<G_first_unused g'}. \<exists>r \<in> W0. G_buf g' ! i = Garbage_ref r))"

definition held :: "gc_state \<Rightarrow> nat set" where
  "held g = {r. \<exists>i \<in> {1..<G_first_unused g}. G_buf g ! i = Garbage_ref r}"

lemma adds_trans: "adds W0 g g' \<Longrightarrow> adds W0 g' g'' \<Longrightarrow> adds W0 g g''"
  unfolding adds_def
proof (elim conjE, intro conjI allI ballI impI)
  fix i assume a: "\<forall>i\<in>{G_first_unused g..<G_first_unused g'}. \<exists>r\<in>W0. G_buf g' ! i = Garbage_ref r"
    "\<forall>i\<in>{G_first_unused g'..<G_first_unused g''}. \<exists>r\<in>W0. G_buf g'' ! i = Garbage_ref r"
    "\<forall>i<G_first_unused g'. G_buf g'' ! i = G_buf g' ! i" "i \<in> {G_first_unused g..<G_first_unused g''}"
  then show "\<exists>r\<in>W0. G_buf g'' ! i = Garbage_ref r" by (cases "i < G_first_unused g'") auto
qed auto

lemma adds_refl [simp]: "adds W0 g g"
  by (simp add: adds_def)

lemma adds_held: "adds W0 g g' \<Longrightarrow> held g \<subseteq> held g'"
  unfolding adds_def held_def by force

lemma room_grow:
  assumes "room g" "\<not> GC_HAS_NEXT_UNUSED g"
  defines "g' \<equiv> gc_grow_root_buffer g"
  shows "room g'" "adds W0 g g'" "GC_HAS_NEXT_UNUSED g' \<or> G_first_unused g' = GC_MAX_BUF_SIZE"
    "G_first_unused g' = G_first_unused g" "gs_symbol_table g' = gs_symbol_table g"
  using assms(1,2) unfolding g'_def room_def adds_def GC_HAS_NEXT_UNUSED_def gc_grow_root_buffer_def
  by (auto simp: Let_def nth_append GC_BUF_GROW_STEP_def)

lemma room_new:
  assumes "room g" "GC_HAS_NEXT_UNUSED g" "r \<in> W0"
  defines "g' \<equiv> new_garbage r (gc_fetch_next_unused g)"
  shows "room g'" "adds W0 g g'" "r \<in> held g'" "gs_symbol_table g' = gs_symbol_table g"
proof -
  have l: "G_first_unused g < length (G_buf g)" using assms(1,2) by (auto simp: room_def GC_HAS_NEXT_UNUSED_def)
  have e: "G_buf g' = (G_buf g)[G_first_unused g := Garbage_ref r]" "G_first_unused g' = G_first_unused g + 1"
    "G_num_roots g' = G_num_roots g + 1" "G_unused g' = G_unused g" "G_buf_size g' = G_buf_size g" "gs_symbol_table g' = gs_symbol_table g"
    by (simp_all add: g'_def new_garbage_def gc_fetch_next_unused_def Let_def on_heap_def)
  show "room g'" "adds W0 g g'" "gs_symbol_table g' = gs_symbol_table g"
    using assms(1,3) l by (auto simp: room_def adds_def e nth_list_update)
  show "r \<in> held g'"
    unfolding held_def e using assms(1) l by (auto simp: room_def intro!: bexI [of _ "G_first_unused g"])
qed

lemma room_add:
  assumes "room g" "r \<in> W0"
  defines "g' \<equiv> gc_add_garbage r g"
  shows "room g' \<and> adds W0 g g' \<and> (r \<in> held g' \<or> G_first_unused g' = GC_MAX_BUF_SIZE) \<and> gs_symbol_table g' = gs_symbol_table g"
proof -
  have u: "\<not> GC_HAS_UNUSED g" using assms(1) by (simp add: room_def GC_HAS_UNUSED_def)
  show ?thesis
  proof (cases "GC_HAS_NEXT_UNUSED g")
    case True
    then show ?thesis using room_new [OF assms(1) True assms(2)] u by (simp add: g'_def gc_add_garbage_def)
  next
    case no: False
    note gr = room_grow [OF assms(1) no]
    show ?thesis
    proof (cases "GC_HAS_NEXT_UNUSED (gc_grow_root_buffer g)")
      case True
      with room_new [OF gr(1) True assms(2)] gr adds_trans [OF gr(2)] u no show ?thesis
        by (simp add: g'_def gc_add_garbage_def Let_def)
    next
      case False
      then show ?thesis using gr u no by (simp add: g'_def gc_add_garbage_def Let_def)
    qed
  qed
qed

subsection \<open>The walk\<close>

text \<open>
  Every collected array and object that was not in the buffer is put there, unless the buffer has
  its greatest size and is full.
\<close>

definition collecting :: "nat \<Rightarrow> gc_heap \<Rightarrow> nat set \<Rightarrow> nat list \<Rightarrow> gc_state \<Rightarrow> bool" where
  "collecting st hs W0 W g = (collecting_heap st hs W0 W (gs_heap g) \<and> room g \<and>
     (\<forall>x \<in> nodes (gs_heap g) GC_WHITE. gn_address (gs_heap g ! x) = gn_address (hs ! x)) \<and>
     (\<forall>x \<in> W0 - nodes (gs_heap g) GC_WHITE. to_be_freed (hs ! x) \<and> gn_address (hs ! x) = 0 \<longrightarrow>
        x \<in> held g \<or> G_first_unused g = GC_MAX_BUF_SIZE))"

lemma room_on_heap [simp]: "room (on_heap f g) = room g" "adds W0 (on_heap f g) g' = adds W0 g g'"
  "adds W0 g' (on_heap f g) = adds W0 g' g" "held (on_heap f g) = held g"
  by (simp_all add: room_def adds_def held_def on_heap_def)

lemma adds_full: "adds W0 g g' \<Longrightarrow> room g' \<Longrightarrow> G_first_unused g = GC_MAX_BUF_SIZE \<Longrightarrow> G_first_unused g' = GC_MAX_BUF_SIZE"
  by (simp add: adds_def room_def)

lemma collect_node_room:
  fixes f :: bool and c :: int
  assumes "room g" "r \<in> W0" "r < length (gs_heap g)"
  defines "g' \<equiv> fst (collect_node r (g, f, c))"
  shows "room g' \<and> adds W0 g g' \<and>
    (to_be_freed (gs_heap g ! r) \<and> gn_address (gs_heap g ! r) = 0 \<longrightarrow> r \<in> held g' \<or> G_first_unused g' = GC_MAX_BUF_SIZE)"
proof -
  have n: "to_be_freed (set_color r GC_BLACK (gs_heap g) ! r) = to_be_freed (gs_heap g ! r)"
    "gn_address (set_color r GC_BLACK (gs_heap g) ! r) = gn_address (gs_heap g ! r)"
    using assms(3) by (simp_all add: set_color_def to_be_freed_def)
  have "room (on_heap (set_color r GC_BLACK) g)" using assms(1) by simp
  note a = room_add [OF this assms(2), unfolded room_on_heap]
  show ?thesis using a assms(1) n by (simp add: g'_def collect_node_def Let_def)
qed

lemma collect_node_ok:
  fixes fl :: bool and cnt :: int
  assumes c: "collecting st hs W0 W g" and r: "r \<in> nodes (gs_heap g) GC_WHITE"
    and h: "\<And>a. collecting_heap st hs W0 W' (GC_REF_SET_INFO r a GC_BLACK (f (gs_heap g)))"
    and f: "f = GC_ADDREF r \<or> f = (\<lambda>h. h)"
  defines "g' \<equiv> fst (collect_node r (on_heap f g, fl, cnt))"
  shows "collecting st hs W0 W' g' \<and> adds W0 g g' \<and> nodes (gs_heap g') GC_WHITE = nodes (gs_heap g) GC_WHITE - {r}"
proof -
  have rl: "r < length (gs_heap g)" and r0: "r \<in> W0" using r c by (auto simp: nodes_def collecting_def collecting_heap_def)
  have fl: "length (f (gs_heap g)) = length (gs_heap g)" "nodes (f (gs_heap g)) GC_WHITE = nodes (gs_heap g) GC_WHITE"
    "gn_address (f (gs_heap g) ! x) = gn_address (gs_heap g ! x)" "to_be_freed (f (gs_heap g) ! x) = to_be_freed (gs_heap g ! x)" for x
    using f by auto
  obtain a where a: "gs_heap g' = GC_REF_SET_INFO r a GC_BLACK (f (gs_heap g))"
    using collect_node_heap [of r "on_heap f g" fl cnt] unfolding g'_def by auto
  have n: "nodes (gs_heap g') GC_WHITE = nodes (gs_heap g) GC_WHITE - {r}"
    unfolding a using rl fl nodes_info [of r "f (gs_heap g)" GC_BLACK GC_WHITE a] by simp
  have rm: "room (on_heap f g)" using c by (simp add: collecting_def)
  note cr = collect_node_room [OF rm r0, of fl cnt, folded g'_def, unfolded room_on_heap]
  have hd: "to_be_freed (gs_heap g ! r) = to_be_freed (hs ! r)" "gn_address (gs_heap g ! r) = gn_address (hs ! r)"
    using c r rl by (auto simp: collecting_def collecting_heap_def)
  have held: "r \<in> held g' \<or> G_first_unused g' = GC_MAX_BUF_SIZE" if "to_be_freed (hs ! r)" "gn_address (hs ! r) = 0"
    using cr that hd fl rl by simp
  have ad: "adds W0 g g'" "room g'" using cr rl fl by simp_all
  have addr: "gn_address (gs_heap g' ! x) = gn_address (hs ! x)" if "x \<in> nodes (gs_heap g') GC_WHITE" for x
    using that c fl unfolding n by (simp add: a collecting_def)
  have "x \<in> held g' \<or> G_first_unused g' = GC_MAX_BUF_SIZE"
    if "x \<in> W0 - nodes (gs_heap g') GC_WHITE" "to_be_freed (hs ! x)" "gn_address (hs ! x) = 0" for x
  proof (cases "x = r")
    case False
    then have "x \<in> held g \<or> G_first_unused g = GC_MAX_BUF_SIZE" using c that unfolding n by (simp add: collecting_def)
    then show ?thesis using adds_held [OF ad(1)] adds_full [OF ad] by blast
  qed (use held that in simp)
  then show ?thesis using ad addr n h [of a] unfolding collecting_def a by blast
qed

lemma collect_white_work_ok:
  "collecting st hs W0 W (fst s) \<Longrightarrow> white_set st hs W0 \<Longrightarrow>
   collecting st hs W0 [] (fst (collect_white_work W s)) \<and> adds W0 (fst s) (fst (collect_white_work W s)) \<and>
   nodes (gs_heap (fst (collect_white_work W s))) GC_WHITE \<subseteq> nodes (gs_heap (fst s)) GC_WHITE"
proof (induction W s rule: collect_white_work.induct)
  case (2 r W g fl cnt)
  let ?g = "on_heap (GC_ADDREF r) g"
  have h: "collecting_heap st hs W0 (r # W) (gs_heap g)" and rl: "r < length (gs_heap g)"
    using "2.prems"(1) by (auto simp: collecting_def collecting_heap_def)
  show ?case
  proof (cases "col (gs_heap g) r = GC_WHITE")
    case False
    have "collecting st hs W0 W ?g"
      using "2.prems"(1) collecting_next [OF h False] by (simp add: collecting_def)
    with "2.IH"(1) [OF refl] "2.prems"(2) False show ?thesis by (simp add: color_col)
  next
    case True
    then have r: "r \<in> nodes (gs_heap g) GC_WHITE" using rl by (simp add: nodes_def)
    then have r0: "r \<in> W0" using h by (auto simp: collecting_heap_def)
    have ch: "white_children (gs_heap ?g) r = gc_children st hs r"
      using h rl white_children_eq [OF "2.prems"(2) r0] by (simp add: white_children_def collecting_heap_def)
    have "collecting_heap st hs W0 (gc_children st hs r @ W) (GC_REF_SET_INFO r a GC_BLACK (GC_ADDREF r (gs_heap g)))" for a
      by (rule collecting_step [OF h "2.prems"(2) True])
    from collect_node_ok [where f = "GC_ADDREF r", OF "2.prems"(1) [unfolded fst_conv] r this, of fl cnt]
    have n: "collecting st hs W0 (gc_children st hs r @ W) (fst (collect_node r (?g, fl, cnt)))"
      "adds W0 g (fst (collect_node r (?g, fl, cnt)))"
      "nodes (gs_heap (fst (collect_node r (?g, fl, cnt)))) GC_WHITE \<subseteq> nodes (gs_heap g) GC_WHITE" by auto
    have w: "is_color (gs_heap ?g) r GC_WHITE" using True rl by (simp add: color_col)
    have "collect_white_work (r # W) (g, fl, cnt) = collect_white_work (gc_children st hs r @ W) (collect_node r (?g, fl, cnt))"
      using w ch by simp
    with "2.IH"(2) [OF refl _ _ "2.prems"(2)] w n adds_trans [OF n(2)] ch show ?thesis by auto
  qed
qed simp

lemma collect_white_ok:
  fixes r :: nat and fl :: bool and cnt :: int
  assumes c: "collecting st hs W0 [] g" and w: "white_set st hs W0"
  defines "g' \<equiv> fst (gc_collect_white r (g, fl, cnt))"
  shows "collecting st hs W0 [] g' \<and> adds W0 g g' \<and> nodes (gs_heap g') GC_WHITE \<subseteq> nodes (gs_heap g) GC_WHITE - {r}"
proof (cases "is_color (gs_heap g) r GC_WHITE")
  case False
  then show ?thesis using c by (auto simp: g'_def gc_collect_white_def nodes_def is_color_def col_def)
next
  case True
  then have r: "r \<in> nodes (gs_heap g) GC_WHITE" by (simp add: nodes_def color_col)
  have h: "collecting_heap st hs W0 [] (gs_heap g)" using c by (simp add: collecting_def)
  then have r0: "r \<in> W0" using r unfolding collecting_heap_def by blast
  have rl: "r < length hs" using r unfolding nodes_def collecting_heapD(1) [OF h] by blast
  note v = collecting_heapD(2) [OF h rl]
  have ch: "white_children (gs_heap g) r = gc_children st hs r"
    using v white_children_eq [OF w r0] by (simp add: white_children_def)
  have "collecting_heap st hs W0 (gc_children st hs r) (GC_REF_SET_INFO r a GC_BLACK (gs_heap g))" for a
    using collecting_visit [OF h w r] by simp
  from collect_node_ok [where f = "\<lambda>h. h", OF c r this, of fl cnt]
  have n: "collecting st hs W0 (gc_children st hs r) (fst (collect_node r (g, fl, cnt)))" "adds W0 g (fst (collect_node r (g, fl, cnt)))"
    "nodes (gs_heap (fst (collect_node r (g, fl, cnt)))) GC_WHITE = nodes (gs_heap g) GC_WHITE - {r}" by simp_all
  from collect_white_work_ok [OF n(1) w] adds_trans [OF n(2)] n(3) True ch show ?thesis
    by (simp add: g'_def gc_collect_white_def)
qed

end
