(* ===== verification/Zend_Gc_Roots_Correct.thy ===== *)
theory Zend_Gc_Roots_Correct
  imports Zend_Gc_Garbage_Correct
begin

section \<open>From the roots to the garbage\<close>

text \<open>
  The loops of \<open>gc_collect_roots\<close>: black roots leave the buffer, the white ones are collected, and
  with marking and scanning before them they find the garbage and restore the counts.
\<close>

subsection \<open>What marking and scanning leave alone\<close>

definition shape :: "gc_heap \<Rightarrow> gc_heap" where
  "shape h = map (\<lambda>n. n\<lparr>gn_refcount := 0, gn_color := GC_BLACK\<rparr>) h"

lemma map_update_same: "(\<And>n. f (g n) = f n) \<Longrightarrow> map f (h[r := g (h ! r)]) = map f h"
  by (cases "r < length h") (auto simp: list_eq_iff_nth_eq nth_list_update list_update_beyond)

lemma shape_simps [simp]: "shape (GC_ADDREF r h) = shape h" "shape (GC_DELREF r h) = shape h" "shape (set_color r c h) = shape h"
  unfolding shape_def GC_ADDREF_def GC_DELREF_def set_color_def by (intro map_update_same; simp)+

lemma shape_nth:
  assumes "shape h = shape h'" "x < length h"
  shows "gn_address (h' ! x) = gn_address (h ! x)" "to_be_freed (h' ! x) = to_be_freed (h ! x)"
proof -
  have l: "length h' = length h" using arg_cong [OF assms(1), of length] by (simp add: shape_def)
  have "shape h ! x = shape h' ! x" using assms(1) by simp
  then have "(h ! x)\<lparr>gn_refcount := 0, gn_color := GC_BLACK\<rparr> = (h' ! x)\<lparr>gn_refcount := 0, gn_color := GC_BLACK\<rparr>"
    using assms(2) l by (simp add: shape_def)
  then show "gn_address (h' ! x) = gn_address (h ! x)" "to_be_freed (h' ! x) = to_be_freed (h ! x)"
    by (cases "h ! x"; cases "h' ! x"; simp add: to_be_freed_def)+
qed

lemma shape_mark: "shape (mark_grey_work st W h) = shape h"
  by (induction st W h rule: mark_grey_work.induct) (simp_all add: Let_def)

lemma shape_black: "shape (scan_black_work st W h) = shape h"
  by (induction st W h rule: scan_black_work.induct) (simp_all add: Let_def)

lemma shape_scan: "shape (scan_work st W h) = shape h"
  by (induction st W h rule: scan_work.induct) (auto simp: Let_def gc_scan_black_def shape_black)

lemma shape_roots: "shape (fold (mark_root st) rs h) = shape h" "shape (fold (gc_scan st) rs h) = shape h"
  by (induction rs arbitrary: h) (simp_all add: mark_root_def gc_mark_grey_def shape_mark gc_scan_def shape_scan gc_scan_black_def shape_black)

subsection \<open>Addresses\<close>

lemma compact_loop_heap:
  "(\<And>i. free \<le> i \<Longrightarrow> i \<le> scan \<Longrightarrow> entry_ref (G_buf g ! i) \<noteq> Some x) \<Longrightarrow>
   gs_heap (compact_loop endp free scan g) ! x = gs_heap g ! x"
proof (induction endp free scan g rule: compact_loop.induct)
  case (1 endp free scan g)
  let ?f = "skip_used (G_buf g) free" and ?s = "skip_unused (G_buf g) scan"
  let ?m = "move_entry ?s ?f g"
  have b: "free \<le> ?f" "?s \<le> scan" by (rule skip_used_ge, rule skip_unused_le)
  show ?case
  proof (cases "free < scan \<and> ?f < ?s")
    case True
    have r: "entry_ref (G_buf g ! ?s) \<noteq> Some x" using 1(3) b True by auto
    have m: "gs_heap ?m ! x = gs_heap g ! x"
      using r by (auto simp: move_entry_def Let_def on_heap_def split: option.splits)
    have "entry_ref (G_buf ?m ! i) \<noteq> Some x" if "?f + 1 \<le> i" "i \<le> ?s - 1" for i
      using 1(3) [of i] b that by (auto simp: move_entry_def Let_def on_heap_def split: option.splits)
    with "1.IH"(1) True m show ?thesis by (subst compact_loop.simps) (simp add: Let_def)
  next
    case no: False
    show ?thesis
    proof (cases "free < scan")
      case True
      have "entry_ref (G_buf g ! i) \<noteq> Some x" if "?f \<le> i" "i \<le> ?s" for i
        using 1(3) [of i] b that by auto
      with "1.IH"(2) True no show ?thesis by (subst compact_loop.simps) (simp add: Let_def)
    qed (subst compact_loop.simps, simp)
  qed
qed

lemma compact_heap:
  assumes "\<And>i. 1 \<le> i \<Longrightarrow> i < G_first_unused g \<Longrightarrow> entry_ref (G_buf g ! i) \<noteq> Some x"
  shows "gs_heap (gc_compact g) ! x = gs_heap g ! x"
proof (cases "G_first_unused g \<le> 1")
  case True
  then show ?thesis by (subst gc_compact_def) (simp add: Let_def GC_FIRST_ROOT_def, subst compact_loop.simps, simp)
next
  case False
  then show ?thesis using compact_loop_heap [of 1 "G_first_unused g - 1" g x "G_num_roots g"] assms
    by (simp add: gc_compact_def Let_def GC_FIRST_ROOT_def)
qed

text \<open>Values with a buffer address are in the buffer.\<close>

definition addressed :: "gc_state \<Rightarrow> bool" where
  "addressed g = (\<forall>x < length (gs_heap g). gn_address (gs_heap g ! x) \<noteq> 0 \<longrightarrow> x \<in> set (root_refs g))"

lemma compact_addressed:
  assumes "buffer_ok g" "addressed g" "x < length (gs_heap g)" "gn_address (gs_heap (gc_compact g) ! x) \<noteq> 0"
  shows "x \<in> set (root_refs g)"
proof (rule ccontr)
  assume no: "x \<notin> set (root_refs g)"
  have "entry_ref (G_buf g ! i) \<noteq> Some x" if "1 \<le> i" "i < G_first_unused g" for i
  proof
    assume e: "entry_ref (G_buf g ! i) = Some x"
    then have "\<not> GC_IS_UNUSED (G_buf g ! i)" by (cases "G_buf g ! i") auto
    then have "G_buf g ! i \<in> set (used_entries g)" using that by (simp add: used_entries_def used_in_def GC_FIRST_ROOT_def)
    then have "x \<in> set (root_refs g)" unfolding root_refs_def using e by (force intro: image_eqI)
    with no show False ..
  qed
  then have "gs_heap (gc_compact g) ! x = gs_heap g ! x" by (rule compact_heap)
  with assms no show False by (auto simp: addressed_def)
qed

lemma to_be_freed_address: "same_but_address h h' \<Longrightarrow> x < length h \<Longrightarrow> to_be_freed (h' ! x) = to_be_freed (h ! x)"
  by (auto simp: same_but_address_def to_be_freed_def)

subsection \<open>Dropping the black roots\<close>

definition black_slot :: "gc_state \<Rightarrow> nat \<Rightarrow> bool" where
  "black_slot g i = (\<exists>r. G_buf g ! i = Root_ref r \<and> is_color (gs_heap g) r GC_BLACK)"

definition drops :: "nat list \<Rightarrow> gc_state \<Rightarrow> gc_state \<Rightarrow> bool" where
  "drops is g g' = (same_but_address (gs_heap g) (gs_heap g') \<and> length (G_buf g') = length (G_buf g) \<and>
     G_first_unused g' = G_first_unused g \<and> G_buf_size g' = G_buf_size g \<and> gs_symbol_table g' = gs_symbol_table g \<and>
     (\<forall>j < length (G_buf g). if j \<in> set is \<and> black_slot g j then GC_IS_UNUSED (G_buf g' ! j) else G_buf g' ! j = G_buf g ! j) \<and>
     G_num_roots g' = G_num_roots g - length (filter (black_slot g) is) \<and>
     (filter (black_slot g) is = [] \<longrightarrow> G_unused g' = G_unused g) \<and>
     (\<forall>x < length (gs_heap g). col (gs_heap g) x \<noteq> GC_BLACK \<longrightarrow> gs_heap g' ! x = gs_heap g ! x))"

lemma drop_black_ok:
  assumes "distinct is" "set is \<subseteq> {..<length (G_buf g)}"
  shows "drops is g (fold drop_black is g)"
  using assms
proof (induction "is" arbitrary: g)
  case (Cons i "is")
  show ?case
  proof (cases "black_slot g i")
    case False
    then have e: "drop_black i g = g" by (auto simp: drop_black_def black_slot_def split: gc_entry.splits)
    from Cons.IH [of g] Cons.prems have "drops is g (fold drop_black is g)" by simp
    then show ?thesis using False by (auto simp: e drops_def)
  next
    case True
    then obtain r where r: "G_buf g ! i = Root_ref r" "is_color (gs_heap g) r GC_BLACK" by (auto simp: black_slot_def)
    let ?g = "drop_black i g"
    have e: "gs_heap ?g = GC_REF_SET_INFO r 0 GC_BLACK (gs_heap g)" "G_first_unused ?g = G_first_unused g" "G_buf_size ?g = G_buf_size g"
      "gs_symbol_table ?g = gs_symbol_table g" "G_num_roots ?g = G_num_roots g - 1"
      "G_buf ?g = (G_buf g)[i := Unused_ref (GC_IDX2LIST (G_unused g))]"
      using r by (simp_all add: drop_black_def gc_remove_from_roots_def gc_link_unused_def on_heap_def Let_def)
    have rl: "r < length (gs_heap g)" "gn_color (gs_heap g ! r) = GC_BLACK" using r(2) by (auto simp: is_color_def)
    have s: "same_but_address (gs_heap g) (gs_heap ?g)"
      using same_but_address_set [of "gs_heap g" r 0] rl by (simp add: e)
    have col: "is_color (gs_heap ?g) x GC_BLACK = is_color (gs_heap g) x GC_BLACK" for x
      using r(2) by (auto simp: e color_col)
    have bl: "black_slot ?g j = black_slot g j" if "j \<in> set is" for j
    proof -
      have "j \<noteq> i" using that Cons.prems(1) by auto
      then show ?thesis by (simp add: black_slot_def col e(6))
    qed
    then have f: "filter (black_slot ?g) is = filter (black_slot g) is" by (auto intro: filter_cong)
    have d: "drops is ?g (fold drop_black is ?g)" using Cons.IH [of ?g] Cons.prems by (simp add: e)
    have h: "gs_heap ?g ! x = gs_heap g ! x" "col (gs_heap ?g) x \<noteq> GC_BLACK"
      if "x < length (gs_heap g)" "col (gs_heap g) x \<noteq> GC_BLACK" for x
      using that r(2) by (auto simp: e color_col nth_set_info)
    let ?d = "fold drop_black is ?g"
    have buf: "if j \<in> set (i # is) \<and> black_slot g j then GC_IS_UNUSED (G_buf ?d ! j) else G_buf ?d ! j = G_buf g ! j"
      if j: "j < length (G_buf g)" for j
    proof (cases "j = i")
      case True
      then have "G_buf ?d ! j = G_buf ?g ! j" using d j Cons.prems(1) by (simp add: drops_def e)
      then show ?thesis using True j \<open>black_slot g i\<close> by (simp add: e)
    next
      case False
      then show ?thesis using d j bl [of j] by (simp add: drops_def e)
    qed
    have "same_but_address (gs_heap g) (gs_heap ?d)" using same_but_address_trans [OF s] d by (simp add: drops_def)
    moreover have "gs_heap ?d ! x = gs_heap g ! x" if "x < length (gs_heap g)" "col (gs_heap g) x \<noteq> GC_BLACK" for x
      using d h [OF that] that by (simp add: drops_def e)
    ultimately show ?thesis using d buf True by (simp add: drops_def e f)
  qed
qed (simp add: drops_def)

text \<open>After marking and scanning, every slot holds a root that is white or black.\<close>

definition two_colors :: "gc_state \<Rightarrow> bool" where
  "two_colors g = (\<forall>i \<in> {1..<G_first_unused g}. \<exists>r < length (gs_heap g). G_buf g ! i = Root_ref r \<and>
     col (gs_heap g) r \<in> {GC_WHITE, GC_BLACK})"

lemma drop_black_compact:
  assumes "room g" "two_colors g"
  defines "g3 \<equiv> fold drop_black (slots g) g"
  defines "g4 \<equiv> gc_compact g3"
  shows "room g4" "same_but_address (gs_heap g) (gs_heap g4)" "gs_symbol_table g4 = gs_symbol_table g"
    "\<And>i. i \<in> {1..<G_first_unused g4} \<Longrightarrow> \<exists>r \<in> nodes (gs_heap g) GC_WHITE. G_buf g4 ! i = Root_ref r"
    "\<And>i r. i \<in> {1..<G_first_unused g} \<Longrightarrow> G_buf g ! i = Root_ref r \<Longrightarrow> r \<in> nodes (gs_heap g) GC_WHITE \<Longrightarrow>
       \<exists>j \<in> {1..<G_first_unused g4}. G_buf g4 ! j = Root_ref r"
    "\<And>x. x \<in> nodes (gs_heap g) GC_WHITE \<Longrightarrow> gn_address (gs_heap g4 ! x) \<noteq> 0 \<Longrightarrow>
       gn_address (gs_heap g ! x) \<noteq> 0 \<or> (\<exists>j \<in> {1..<G_first_unused g4}. G_buf g4 ! j = Root_ref x)"
proof -
  let ?fu = "G_first_unused g"
  have sl: "slots g = [1..<?fu]" by (simp add: slots_def GC_FIRST_ROOT_def)
  have fl: "?fu \<le> length (G_buf g)" using assms(1) by (simp add: room_def)
  have d: "drops [1..<?fu] g g3" unfolding g3_def sl using fl by (intro drop_black_ok) auto
  have slot: "if black_slot g i then GC_IS_UNUSED (G_buf g3 ! i) else G_buf g3 ! i = G_buf g ! i" if "i \<in> {1..<?fu}" for i
    using d that fl by (auto simp: drops_def)
  have white: "\<exists>r \<in> nodes (gs_heap g) GC_WHITE. G_buf g ! i = Root_ref r" if "i \<in> {1..<?fu}" "\<not> black_slot g i" for i
    using assms(2) that by (auto simp: two_colors_def black_slot_def color_col nodes_def)
  have us: "GC_IS_UNUSED (G_buf g3 ! i) = black_slot g i" if i: "i \<in> {1..<?fu}" for i
    using slot [OF i] white [OF i] by (auto split: if_splits)
  have "length (used_entries g3) = length (filter (\<lambda>i. \<not> black_slot g i) [1..<?fu])"
    using d us unfolding used_entries_def used_in_def filter_map length_map GC_FIRST_ROOT_def comp_def
    by (intro arg_cong [where f = length] filter_cong) (auto simp: drops_def)
  moreover have "length (filter (black_slot g) [1..<?fu]) + length (filter (\<lambda>i. \<not> black_slot g i) [1..<?fu]) = ?fu - 1"
    using sum_length_filter_compl [of "black_slot g" "[1..<?fu]"] by simp
  moreover have nr: "G_num_roots g3 = G_num_roots g - length (filter (black_slot g) [1..<?fu])"
    "filter (black_slot g) [1..<?fu] = [] \<longrightarrow> G_unused g3 = G_unused g" "G_first_unused g3 = ?fu" "length (G_buf g3) = length (G_buf g)"
    "G_buf_size g3 = G_buf_size g" "gs_symbol_table g3 = gs_symbol_table g" "same_but_address (gs_heap g) (gs_heap g3)"
    using d by (simp_all add: drops_def)
  moreover have rm: "G_num_roots g + 1 = ?fu" "G_unused g = GC_INVALID" "1 \<le> ?fu" using assms(1) by (simp_all add: room_def)
  ultimately have pre: "1 \<le> G_first_unused g3" "G_first_unused g3 \<le> length (G_buf g3)" "G_num_roots g3 = length (used_entries g3)"
    and "G_num_roots g3 + 1 = G_first_unused g3 \<longrightarrow> length (filter (black_slot g) [1..<?fu]) = 0"
    using fl by (simp, simp, linarith, linarith)
  then have pre4: "G_num_roots g3 + 1 = G_first_unused g3 \<longrightarrow> G_unused g3 = GC_INVALID"
    using nr(2) rm(2) by simp
  note c = gc_compact_ok [OF pre pre4, folded g4_def]
  have lu: "length (used_entries g3) \<le> ?fu - 1"
    using used_in_length [of "G_buf g3" 1 ?fu] nr(3) by (simp add: used_entries_def GC_FIRST_ROOT_def)
  then have "G_first_unused g4 \<le> ?fu" using c(3) pre(3) rm(3) by linarith
  then show "room g4" using c(3-6,9) nr(4,5) fl assms(1) by (simp add: room_def)
  show "same_but_address (gs_heap g) (gs_heap g4)" using same_but_address_trans [OF nr(7) c(1)] .
  show "gs_symbol_table g4 = gs_symbol_table g" using c(7) nr(6) by simp
  have "used_entries g4 = map ((!) (G_buf g4)) [1..<G_first_unused g4]"
    using c(8) by (auto simp: used_entries_def used_in_def GC_FIRST_ROOT_def filter_id_conv)
  then have e: "(!) (G_buf g4) ` {1..<G_first_unused g4} = set (used_entries g3)"
    using mset_eq_setD [OF c(2)] by simp
  have u3: "set (used_entries g3) = {e. \<exists>i \<in> {1..<?fu}. e = G_buf g ! i \<and> \<not> black_slot g i}"
  proof -
    have s: "G_buf g3 ! i = G_buf g ! i" if "i \<in> {1..<?fu}" "\<not> black_slot g i" for i
      using slot [OF that(1)] that(2) by simp
    have "set (used_entries g3) = (!) (G_buf g3) ` {i \<in> {1..<?fu}. \<not> GC_IS_UNUSED (G_buf g3 ! i)}"
      using nr(3) by (auto simp: used_entries_def used_in_def GC_FIRST_ROOT_def)
    also have "{i \<in> {1..<?fu}. \<not> GC_IS_UNUSED (G_buf g3 ! i)} = {i \<in> {1..<?fu}. \<not> black_slot g i}"
      using us by blast
    finally show ?thesis using s by (auto simp: image_iff intro: bexI)
  qed
  show "\<exists>r \<in> nodes (gs_heap g) GC_WHITE. G_buf g4 ! i = Root_ref r" if "i \<in> {1..<G_first_unused g4}" for i
  proof -
    have "G_buf g4 ! i \<in> set (used_entries g3)" using that e by blast
    then show ?thesis using white u3 by auto
  qed
  show "\<exists>j \<in> {1..<G_first_unused g4}. G_buf g4 ! j = Root_ref r"
    if "i \<in> {1..<?fu}" "G_buf g ! i = Root_ref r" "r \<in> nodes (gs_heap g) GC_WHITE" for i r
  proof -
    have "\<not> black_slot g i" using that by (auto simp: black_slot_def is_color_def nodes_def col_def)
    then have "Root_ref r \<in> set (used_entries g3)" using that u3 by force
    then show ?thesis using e by (metis (no_types, lifting) imageE)
  qed
  show "gn_address (gs_heap g ! x) \<noteq> 0 \<or> (\<exists>j \<in> {1..<G_first_unused g4}. G_buf g4 ! j = Root_ref x)"
    if x: "x \<in> nodes (gs_heap g) GC_WHITE" "gn_address (gs_heap g4 ! x) \<noteq> 0" for x
  proof (cases "Root_ref x \<in> set (used_entries g3)")
    case True
    then show ?thesis using e by (metis (no_types, lifting) imageE)
  next
    case False
    have "entry_ref (G_buf g3 ! i) \<noteq> Some x" if "1 \<le> i" "i < G_first_unused g3" for i
    proof
      assume en: "entry_ref (G_buf g3 ! i) = Some x"
      have i: "i \<in> {1..<?fu}" using that nr(3) by simp
      have "\<not> GC_IS_UNUSED (G_buf g3 ! i)" using en by (cases "G_buf g3 ! i") auto
      then have "\<not> black_slot g i" "G_buf g3 ! i = G_buf g ! i" using us [OF i] slot [OF i] by auto
      with white [OF i] en have "G_buf g ! i = Root_ref x" by auto
      with u3 i False \<open>\<not> black_slot g i\<close> show False by force
    qed
    then have "gs_heap g4 ! x = gs_heap g3 ! x" unfolding g4_def by (rule compact_heap)
    moreover have "gs_heap g3 ! x = gs_heap g ! x" using d x(1) by (simp add: drops_def nodes_def)
    ultimately show ?thesis using x(2) by simp
  qed
qed

subsection \<open>The loop over the white roots\<close>

definition collected :: "nat \<Rightarrow> gc_heap \<Rightarrow> nat set \<Rightarrow> gc_state \<Rightarrow> nat \<Rightarrow> gc_state \<Rightarrow> bool" where
  "collected st hs W0 g4 n g = (collecting st hs W0 [] g \<and> G_first_unused g4 \<le> G_first_unused g \<and>
     (\<forall>i \<in> {n..<G_first_unused g4}. G_buf g ! i = G_buf g4 ! i) \<and>
     (\<forall>i \<in> {1..<n} \<union> {G_first_unused g4..<G_first_unused g}. \<exists>r \<in> W0. G_buf g ! i = Garbage_ref r) \<and>
     (\<forall>i \<in> {1..<n}. \<exists>r. G_buf g4 ! i = Root_ref r \<and> G_buf g ! i = Garbage_ref r \<and> r \<notin> nodes (gs_heap g) GC_WHITE))"

lemma collecting_entry:
  assumes "collecting st hs W0 [] g" "G_buf g ! i = Root_ref r"
  shows "collecting st hs W0 [] (g\<lparr>G_buf := (G_buf g)[i := Garbage_ref r]\<rparr>)"
proof -
  have "held g \<subseteq> held (g\<lparr>G_buf := (G_buf g)[i := Garbage_ref r]\<rparr>)"
  proof
    fix x assume "x \<in> held g"
    then obtain j where j: "j \<in> {1..<G_first_unused g}" "G_buf g ! j = Garbage_ref x" by (auto simp: held_def)
    then have "j \<noteq> i" using assms(2) by auto
    with j show "x \<in> held (g\<lparr>G_buf := (G_buf g)[i := Garbage_ref r]\<rparr>)" by (auto simp: held_def intro!: bexI [of _ j])
  qed
  moreover have "room (g\<lparr>G_buf := (G_buf g)[i := Garbage_ref r]\<rparr>) = room g" by (simp add: room_def)
  ultimately show ?thesis using assms(1) unfolding collecting_def by (simp add: subset_iff) blast
qed

lemma collect_slot_ok:
  assumes c: "collected st hs W0 g4 n g" and w: "white_set st hs W0" and n: "1 \<le> n" "n < G_first_unused g4"
    and r: "G_buf g4 ! n = Root_ref r" "r \<in> W0"
  shows "collected st hs W0 g4 (Suc n) (fst (collect_slot n (g, fl, cnt)))"
proof -
  let ?u = "g\<lparr>G_buf := (G_buf g)[n := Garbage_ref r]\<rparr>"
  let ?g = "fst (gc_collect_white r (?u, fl, cnt))"
  have gn: "G_buf g ! n = Root_ref r" and co: "collecting st hs W0 [] g" and fu: "G_first_unused g4 \<le> G_first_unused g"
    using c n r(1) by (auto simp: collected_def)
  have e: "fst (collect_slot n (g, fl, cnt)) = ?g" using gn by (simp add: collect_slot_def)
  have len: "n < length (G_buf g)" using co n fu by (simp add: collecting_def room_def)
  note k = collect_white_ok [OF collecting_entry [OF co gn] w, of r fl cnt]
  have ad: "adds W0 ?u ?g" and nw: "nodes (gs_heap ?g) GC_WHITE \<subseteq> nodes (gs_heap g) GC_WHITE - {r}" using k by simp_all
  have old: "G_buf ?g ! i = (if i = n then Garbage_ref r else G_buf g ! i)" if "i < G_first_unused g" for i
    using ad that len by (simp add: adds_def)
  have new: "\<exists>r \<in> W0. G_buf ?g ! i = Garbage_ref r" if "i \<in> {G_first_unused g..<G_first_unused ?g}" for i
    using ad that by (simp add: adds_def)
  have grow: "G_first_unused g \<le> G_first_unused ?g" using ad by (simp add: adds_def)
  show ?thesis
    unfolding collected_def e
  proof (intro conjI ballI)
    show "collecting st hs W0 [] ?g" using k by blast
    show "G_first_unused g4 \<le> G_first_unused ?g" using fu grow by simp
    show "G_buf ?g ! i = G_buf g4 ! i" if "i \<in> {Suc n..<G_first_unused g4}" for i
      using that old [of i] fu c by (simp add: collected_def)
    show "\<exists>r \<in> W0. G_buf ?g ! i = Garbage_ref r" if "i \<in> {1..<Suc n} \<union> {G_first_unused g4..<G_first_unused ?g}" for i
    proof (cases "i < G_first_unused g")
      case True
      then show ?thesis using that old [of i] n r(2) c by (cases "i = n") (auto simp: collected_def)
    next
      case False
      then show ?thesis using that n fu new [of i] by auto
    qed
    show "\<exists>r. G_buf g4 ! i = Root_ref r \<and> G_buf ?g ! i = Garbage_ref r \<and> r \<notin> nodes (gs_heap ?g) GC_WHITE"
      if "i \<in> {1..<Suc n}" for i
    proof (cases "i = n")
      case True
      then show ?thesis using r old [of i] n fu nw by auto
    next
      case False
      then show ?thesis using that old [of i] n fu nw c by (fastforce simp: collected_def)
    qed
  qed
qed

lemma collect_slots_ok:
  assumes "room g4" "gs_heap g4 = hs" "white_set st hs W0"
    and "\<And>i. i \<in> {1..<G_first_unused g4} \<Longrightarrow> \<exists>r \<in> W0. G_buf g4 ! i = Root_ref r"
  shows "collected st hs W0 g4 (G_first_unused g4) (fst (fold collect_slot (slots g4) (g4, fl, cnt)))"
proof -
  have start: "collected st hs W0 g4 1 g4"
    using assms(1-3) by (auto simp: collected_def collecting_def collecting_heap_def white_set_def refs_def nodes_def)
  have "collected st hs W0 g4 (Suc k) (fst (fold collect_slot [1..<Suc k] (g4, fl, cnt)))" if "Suc k \<le> G_first_unused g4" for k
    using that
  proof (induction k)
    case (Suc k)
    obtain g f c where s: "fold collect_slot [1..<Suc k] (g4, fl, cnt) = (g, f, c)" by (metis prod_cases3)
    obtain r where r: "r \<in> W0" "G_buf g4 ! Suc k = Root_ref r" using assms(4) [of "Suc k"] Suc.prems by auto
    have "collected st hs W0 g4 (Suc k) g" using Suc s by simp
    from collect_slot_ok [OF this assms(3) _ _ r(2,1), of f c] Suc.prems s show ?case by simp
  qed (use start in simp)
  from this [of "G_first_unused g4 - 1"] assms(1) show ?thesis
    by (simp add: room_def slots_def GC_FIRST_ROOT_def)
qed

subsection \<open>All together\<close>

lemma scanned_room:
  assumes "buffer_ok g" "heap_ready (gs_symbol_table g) (gs_heap g) (root_refs g)" "counts_ok (gs_symbol_table g) (gs_heap g) ext"
  shows "room (scanned g)" "two_colors (scanned g)" "gs_symbol_table (scanned g) = gs_symbol_table g"
    "shape (gs_heap (scanned g)) = shape (gs_heap (gc_compact g))"
    "set (root_refs g) \<subseteq> {r. \<exists>i \<in> {1..<G_first_unused (scanned g)}. G_buf (scanned g) ! i = Root_ref r}"
proof -
  note c = compact_roots [OF assms(1)] and s = scanned_ok [OF assms] and e = scanned_heap [OF assms(1)]
  have f: "G_buf (scanned g) = G_buf (gc_compact g)" "G_first_unused (scanned g) = G_first_unused (gc_compact g)"
    unfolding e(1) by simp_all
  show "gs_symbol_table (scanned g) = gs_symbol_table g" unfolding e(1) using c(2) by simp
  show "shape (gs_heap (scanned g)) = shape (gs_heap (gc_compact g))" unfolding e(1) by (simp add: shape_roots)
  show "room (scanned g)" unfolding e(1) room_on_heap using c(5-9) by (simp add: room_def GC_INVALID_def)
  have sl: "slots (gc_compact g) = [1..<G_first_unused (gc_compact g)]" by (simp add: slots_def GC_FIRST_ROOT_def)
  have "\<exists>r < length (gs_heap (scanned g)). G_buf (gc_compact g) ! i = Root_ref r \<and> col (gs_heap (scanned g)) r \<in> {GC_WHITE, GC_BLACK}"
    if i: "i \<in> set (slots (gc_compact g))" for i
  proof -
    obtain r where r: "G_buf (gc_compact g) ! i = Root_ref r" "r \<in> set (root_refs g)" using bspec [OF c(3) i] by blast
    then have "r < length (gs_heap g)" using assms(2) unfolding heap_ready_def by blast
    then have "r < length (gs_heap (scanned g))" unfolding s(1) .
    with r s(7) show ?thesis by blast
  qed
  then show "two_colors (scanned g)" unfolding two_colors_def f by (simp add: sl)
  show "set (root_refs g) \<subseteq> {r. \<exists>i \<in> {1..<G_first_unused (scanned g)}. G_buf (scanned g) ! i = Root_ref r}"
  proof
    fix r assume "r \<in> set (root_refs g)"
    then obtain i where i: "i \<in> set (slots (gc_compact g))" "r = the (entry_ref (G_buf (gc_compact g) ! i))"
      unfolding c(4) [symmetric] by auto
    with c(3) have "G_buf (gc_compact g) ! i = Root_ref r" by fastforce
    with i(1) show "r \<in> {r. \<exists>i \<in> {1..<G_first_unused (scanned g)}. G_buf (scanned g) ! i = Root_ref r}"
      unfolding f by (auto simp: sl)
  qed
qed

text \<open>What is garbage is reached from a root that is garbage, over garbage.\<close>

lemma garbage_back: "garbage st h rs ext y \<Longrightarrow> (z, y) \<in> (edges st h)\<^sup>* \<Longrightarrow> garbage st h rs ext z"
  unfolding garbage_def by (meson rtrancl_trans)

lemma garbage_root:
  assumes "garbage st h rs ext y"
  obtains r where "r \<in> set rs" "(r, y) \<in> (edges st h)\<^sup>*" "garbage st h rs ext r"
proof -
  have "y \<in> suspects st h rs" using assms by (auto simp: garbage_def)
  then obtain r where "r \<in> set rs" "(r, y) \<in> (edges st h)\<^sup>*" by (auto simp: suspects_def)
  then show thesis using that garbage_back [OF assms] by blast
qed

lemma collect_roots_ok:
  assumes ok: "buffer_ok g" "heap_ready (gs_symbol_table g) (gs_heap g) (root_refs g)" "counts_ok (gs_symbol_table g) (gs_heap g) ext"
    and ad: "addressed g"
  defines "h \<equiv> gs_heap g" and "st \<equiv> gs_symbol_table g" and "g' \<equiv> fst (gc_collect_roots (scanned g))"
  shows "\<And>y. y < length h \<Longrightarrow> rc (gs_heap g') y = rc h y"
    "nodes (gs_heap g') GC_WHITE = {}" "nodes (gs_heap g') GC_GREY = {}"
    "\<And>i. i \<in> {1..<G_first_unused g'} \<Longrightarrow> \<exists>r. G_buf g' ! i = Garbage_ref r \<and> r < length h \<and> garbage st h (root_refs g) ext r"
    "\<And>r. r < length h \<Longrightarrow> garbage st h (root_refs g) ext r \<Longrightarrow> to_be_freed (h ! r) \<Longrightarrow>
       r \<in> held g' \<or> G_first_unused g' = GC_MAX_BUF_SIZE"
proof -
  define g2 where "g2 = scanned g"
  define g4 where "g4 = gc_compact (fold drop_black (slots g2) g2)"
  define hs where "hs = gs_heap g4"
  define W0 where "W0 = nodes hs GC_WHITE"
  note c = compact_roots [OF ok(1)] and s = scanned_ok [OF ok, folded h_def st_def g2_def]
    and r = scanned_room [OF ok, folded st_def g2_def]
  note d = drop_black_compact [OF r(1,2), folded g4_def, folded hs_def]
  have l: "length (gs_heap g2) = length h" "length hs = length h" using s(1) d(2) by (simp_all add: same_but_address_def)
  note rd = same_but_address_reads [OF d(2)] and ch = children_address [OF d(2), of _ st]
    and cc = children_address [OF c(1), of _ st, folded h_def]
  have W2: "W0 = nodes (gs_heap g2) GC_WHITE" using rd(2) l by (auto simp: W0_def nodes_def)
  have W: "y \<in> W0 \<longleftrightarrow> y < length h \<and> garbage st h (root_refs g) ext y" for y
    using s(4) [of y] l unfolding W2 by (auto simp: nodes_def)
  have kids: "gc_children st hs x = gc_children st h x" "is_symbol_table st hs x = is_symbol_table st h x" if "x < length h" for x
    using ch [of x] cc [of x] s(2,6) l that by simp_all
  have cl: "closed_heap st h" using ok(2) by (simp add: heap_ready_def h_def st_def)
  have ws: "white_set st hs W0"
  proof -
    have "\<not> is_symbol_table st h x" if "x \<in> W0" for x using that unfolding W by (auto simp: garbage_def)
    then show ?thesis using cl kids l W unfolding white_set_def closed_heap_def W0_def [symmetric] by simp
  qed
  obtain f cnt where e: "gc_collect_roots g2 = fold collect_slot (slots g4) (g4, f, cnt)"
    by (simp add: gc_collect_roots_def Let_def g4_def)
  have co: "collected st hs W0 g4 (G_first_unused g4) g'"
    unfolding g'_def g2_def [symmetric] e
    by (rule collect_slots_ok [OF d(1) hs_def [symmetric] ws]) (use d(4) W2 in blast)
  then have k: "collecting_heap st hs W0 [] (gs_heap g')" "collecting st hs W0 [] g'" by (auto simp: collected_def collecting_def)
  have bf: "1 \<le> G_first_unused g4" using d(1) by (simp add: room_def)
  have lg: "length (gs_heap g') = length h" using collecting_heapD(1) [OF k(1)] l by simp
  have root: "r \<notin> nodes (gs_heap g') GC_WHITE" if rs: "r \<in> set (root_refs g)" and rW: "r \<in> W0" for r
  proof -
    obtain i where "i \<in> {1..<G_first_unused g2}" "G_buf g2 ! i = Root_ref r" using r(5) rs by blast
    from d(5) [OF this] rW obtain j where j: "j \<in> {1..<G_first_unused g4}" "G_buf g4 ! j = Root_ref r" unfolding W2 by blast
    then obtain q where "G_buf g4 ! j = Root_ref q" "q \<notin> nodes (gs_heap g') GC_WHITE" using co unfolding collected_def by blast
    with j(2) show ?thesis by simp
  qed
  have "y \<notin> nodes (gs_heap g') GC_WHITE" if y: "y \<in> W0" for y
  proof -
    obtain q where q: "q \<in> set (root_refs g)" "(q, y) \<in> (edges st h)\<^sup>*" using y garbage_root unfolding W by metis
    from q(2) y show ?thesis
    proof (induction rule: rtrancl_induct)
      case base
      then show ?case using root [OF q(1)] by blast
    next
      case (step y z)
      have yz: "y < length h" "z \<in> set (gc_children st h y)" using step(2) by (auto simp: edges_def)
      have yW: "y \<in> W0" using step(2,4) yz garbage_back [of st h "root_refs g" ext z y] unfolding W by blast
      then have "y \<in> W0 - nodes (gs_heap g') GC_WHITE" using step(3) by blast
      then show ?case using k(1) yz kids(1) [OF yz(1)] unfolding collecting_heap_def by fastforce
    qed
  qed
  then show nw: "nodes (gs_heap g') GC_WHITE = {}" using collecting_heapD(3) [OF k(1)] by blast
  show "rc (gs_heap g') y = rc h y" if y: "y < length h" for y
  proof -
    have "rc (gs_heap g') y = rc hs y + refs st hs W0 y"
      using k(1) y l unfolding collecting_heap_def nw by simp
    moreover have "refs st hs W0 y = refs st h W0 y"
      unfolding refs_def using kids(1) W by (intro sum.cong) auto
    ultimately show ?thesis using s(5) [OF y] rd(1) [of y] y l unfolding W2 by (simp add: hs_def)
  qed
  show "nodes (gs_heap g') GC_GREY = {}"
  proof -
    have "col (gs_heap g') x \<noteq> GC_GREY" if x: "x < length h" for x
    proof (cases "x \<in> W0")
      case True
      then show ?thesis using k(1) unfolding collecting_heap_def by fastforce
    next
      case False
      then have "col (gs_heap g') x = col hs x" using k(1) x l unfolding collecting_heap_def by simp
      also have "col hs x \<noteq> GC_GREY" using s(3) rd(2) [of x] x l by (auto simp: nodes_def)
      finally show ?thesis .
    qed
    then show ?thesis using lg by (auto simp: nodes_def)
  qed
  show "\<exists>r. G_buf g' ! i = Garbage_ref r \<and> r < length h \<and> garbage st h (root_refs g) ext r" if i: "i \<in> {1..<G_first_unused g'}" for i
  proof -
    have "i \<in> {1..<G_first_unused g4} \<union> {G_first_unused g4..<G_first_unused g'}" using i by auto
    with co obtain r where "r \<in> W0" "G_buf g' ! i = Garbage_ref r" unfolding collected_def by blast
    then show ?thesis using W by blast
  qed
  show "r \<in> held g' \<or> G_first_unused g' = GC_MAX_BUF_SIZE"
    if y: "r < length h" "garbage st h (root_refs g) ext r" "to_be_freed (h ! r)" for r
  proof -
    have rW: "r \<in> W0" using y W by blast
    have sh: "gn_address (gs_heap g2 ! r) = gn_address (gs_heap (gc_compact g) ! r)"
      "to_be_freed (gs_heap g2 ! r) = to_be_freed (gs_heap (gc_compact g) ! r)"
      using shape_nth [OF r(4)] y(1) l by auto
    have tf: "to_be_freed (hs ! r) = to_be_freed (h ! r)"
      using to_be_freed_address [OF d(2), of r] to_be_freed_address [OF c(1), of r] sh(2) y(1) l by (simp add: h_def)
    show ?thesis
    proof (cases "gn_address (hs ! r) = 0")
      case True
      then show ?thesis using k(2) rW nw tf y(3) by (simp add: collecting_def)
    next
      case False
      have "\<exists>j \<in> {1..<G_first_unused g4}. G_buf g4 ! j = Root_ref r"
      proof (cases "gn_address (gs_heap g2 ! r) = 0")
        case True
        then show ?thesis using d(6) [of r] rW False unfolding W2 hs_def by blast
      next
        case nz: False
        then have "r \<in> set (root_refs g)" using compact_addressed [OF ok(1) ad] y(1) sh by (simp add: h_def)
        then obtain i where "i \<in> {1..<G_first_unused g2}" "G_buf g2 ! i = Root_ref r" using r(5) by blast
        from d(5) [OF this] rW show ?thesis unfolding W2 by blast
      qed
      then obtain j where j: "j \<in> {1..<G_first_unused g4}" "G_buf g4 ! j = Root_ref r" by blast
      then obtain q where "G_buf g4 ! j = Root_ref q" "G_buf g' ! j = Garbage_ref q" using co unfolding collected_def by blast
      then have "G_buf g' ! j = Garbage_ref r" using j(2) by simp
      moreover have "G_first_unused g4 \<le> G_first_unused g'" using co by (simp add: collected_def)
      ultimately show ?thesis using j(1) by (auto simp: held_def intro!: bexI [of _ j])
    qed
  qed
qed

end
