(* ===== verification/Zend_Gc_Properties.thy ===== *)
theory Zend_Gc_Properties
  imports Zend_Gc_Roots_Correct
begin

section \<open>The properties of the cycle collector\<close>

text \<open>
  What a collection does, as the properties of the collector, with a heap of two arrays as witness.
\<close>

text \<open>
  C35. After \<open>gc_mark_roots\<close> and \<open>gc_scan_roots\<close> a value is white exactly if it is garbage: it is
  reached from a root, and neither it nor anything it is reached from is the symbol table, has a
  reference from outside the heap, or is not reached from a root.  Nothing is left grey.
\<close>

theorem gc_scan_roots_finds_garbage:
  assumes "buffer_ok g" "heap_ready (gs_symbol_table g) (gs_heap g) (root_refs g)"
    "counts_ok (gs_symbol_table g) (gs_heap g) ext"
  shows "length (gs_heap (gc_scan_roots (gc_mark_roots g))) = length (gs_heap g) \<and>
    nodes (gs_heap (gc_scan_roots (gc_mark_roots g))) GC_GREY = {} \<and>
    (\<forall>y < length (gs_heap g). col (gs_heap (gc_scan_roots (gc_mark_roots g))) y = GC_WHITE \<longleftrightarrow>
       garbage (gs_symbol_table g) (gs_heap g) (root_refs g) ext y)"
  using scanned_ok(1,3,4) [OF assms] unfolding scanned_def by blast

text \<open>
  Two arrays that each hold themselves, both in the buffer; a variable refers to the second.
\<close>

definition demo_array :: "int \<Rightarrow> nat \<Rightarrow> nat \<Rightarrow> gc_node" where
  "demo_array n a r = \<lparr>gn_type = IS_ARRAY, gn_refcount = n, gn_color = GC_PURPLE, gn_address = a, gn_free_called = False,
     gn_get_gc = False, gn_zvals = [], gn_ht = Some [Counted_zval r], gn_has_destructor = False, gn_destructor_called = False\<rparr>"

definition demo_gc :: gc_state where
  "demo_gc = \<lparr>gs_heap = [demo_array 1 1 0, demo_array 2 2 1], gs_symbol_table = 2, G_enabled = True, G_active = True,
     G_protected = False, G_full = False, G_buf = [Null_ref, Root_ref 0, Root_ref 1, Null_ref], G_unused = GC_INVALID,
     G_first_unused = 3, G_threshold = 10001, G_buf_size = 4, G_num_roots = 2, G_runs = 0, G_collected = 0\<rparr>"

definition demo_ext :: "nat \<Rightarrow> int" where
  "demo_ext y = (if y = 1 then 1 else 0)"

lemma demo_reads [simp]:
  "gc_children 2 (gs_heap demo_gc) 0 = [0]"
  "gc_children 2 (gs_heap demo_gc) (Suc 0) = [1]"
  "col (gs_heap demo_gc) 0 = GC_PURPLE" "col (gs_heap demo_gc) (Suc 0) = GC_PURPLE"
  "rc (gs_heap demo_gc) 0 = 1" "rc (gs_heap demo_gc) (Suc 0) = 2" "length (gs_heap demo_gc) = 2" "gs_symbol_table demo_gc = 2"
  by (simp_all add: gc_children_def is_symbol_table_def gc_values_def ht_values_def demo_array_def Z_INDIRECT_def
      demo_gc_def col_def rc_def)

lemma demo_ready:
  "buffer_ok demo_gc" "heap_ready (gs_symbol_table demo_gc) (gs_heap demo_gc) (root_refs demo_gc)"
  "counts_ok (gs_symbol_table demo_gc) (gs_heap demo_gc) demo_ext" "addressed demo_gc"
proof -
  have u: "used_entries demo_gc = [Root_ref 0, Root_ref 1]"
    by (simp add: used_entries_def used_in_def demo_gc_def GC_FIRST_ROOT_def upt_rec)
  show "buffer_ok demo_gc"
    unfolding buffer_ok_def u by (simp add: color_col) (simp add: demo_gc_def GC_MAX_BUF_SIZE_def)
  have r: "root_refs demo_gc = [0, 1]" by (simp add: root_refs_def u)
  have less: "x < 2 \<longleftrightarrow> x = 0 \<or> x = 1" for x :: nat by auto
  have "closed_heap 2 (gs_heap demo_gc)" unfolding closed_heap_def using demo_reads by (auto simp: less)
  moreover have "col (gs_heap demo_gc) x = GC_PURPLE" if "x < 2" for x
    using that demo_reads(3,4) unfolding less by auto
  then have "nodes (gs_heap demo_gc) c = {}" if "c \<noteq> GC_PURPLE" for c using that by (auto simp: nodes_def)
  ultimately show "heap_ready (gs_symbol_table demo_gc) (gs_heap demo_gc) (root_refs demo_gc)"
    by (simp add: heap_ready_def r)
  have two: "{..<length (gs_heap demo_gc)} = {0, 1}" by (auto simp: less)
  show "counts_ok (gs_symbol_table demo_gc) (gs_heap demo_gc) demo_ext"
    unfolding counts_ok_def two refs_def using demo_reads by (auto simp: demo_ext_def less)
  show "addressed demo_gc" by (auto simp: addressed_def less r)
qed

theorem gc_scan_roots_finds_garbage_witness:
  "(garbage 2 (gs_heap demo_gc) (root_refs demo_gc) demo_ext 0 \<longleftrightarrow>
      col (gs_heap (gc_scan_roots (gc_mark_roots demo_gc))) 0 = GC_WHITE) \<and>
   \<not> garbage 2 (gs_heap demo_gc) (root_refs demo_gc) demo_ext 1"
  using gc_scan_roots_finds_garbage [OF demo_ready(1-3)] by (auto simp: garbage_def demo_ext_def)

text \<open>
  C36. \<open>gc_collect_roots\<close> then gives every value its count of references back, those of the garbage
  included, and leaves no value white.  Every slot of the buffer holds garbage, and every garbage
  array and object is in a slot, unless the buffer has its greatest size and is full.
\<close>

theorem gc_collect_roots_correct:
  assumes "buffer_ok g" "heap_ready (gs_symbol_table g) (gs_heap g) (root_refs g)"
    "counts_ok (gs_symbol_table g) (gs_heap g) ext" "addressed g"
    "gc_collect_roots (gc_scan_roots (gc_mark_roots g)) = (g', flags, cnt)"
  shows "(\<forall>y < length (gs_heap g). rc (gs_heap g') y = rc (gs_heap g) y) \<and>
    nodes (gs_heap g') GC_WHITE = {} \<and> nodes (gs_heap g') GC_GREY = {} \<and>
    (\<forall>i \<in> {1..<G_first_unused g'}. \<exists>r < length (gs_heap g). G_buf g' ! i = Garbage_ref r \<and>
       garbage (gs_symbol_table g) (gs_heap g) (root_refs g) ext r) \<and>
    (\<forall>r < length (gs_heap g). garbage (gs_symbol_table g) (gs_heap g) (root_refs g) ext r \<and> to_be_freed (gs_heap g ! r) \<longrightarrow>
       (\<exists>i \<in> {1..<G_first_unused g'}. G_buf g' ! i = Garbage_ref r) \<or> G_first_unused g' = GC_MAX_BUF_SIZE)"
proof -
  have e: "fst (gc_collect_roots (scanned g)) = g'" using assms(5) by (simp add: scanned_def)
  note c = collect_roots_ok [OF assms(1-4), unfolded e]
  then show ?thesis unfolding held_def by blast
qed

theorem gc_collect_roots_correct_witness:
  "rc (gs_heap (fst (gc_collect_roots (gc_scan_roots (gc_mark_roots demo_gc))))) 0 = 1"
proof -
  obtain g' flags cnt where e: "gc_collect_roots (gc_scan_roots (gc_mark_roots demo_gc)) = (g', flags, cnt)" by (metis prod_cases3)
  have "rc (gs_heap g') 0 = rc (gs_heap demo_gc) 0"
    using gc_collect_roots_correct [OF demo_ready e] by simp
  then show ?thesis using e by simp
qed

end
