(* ===== verification/Zend_Mm_Bitset.thy ===== *)
theory Zend_Mm_Bitset
  imports PHP_Prelude
begin

section \<open>The page bitset of the memory manager (Zend/zend\_alloc.c, Zend/zend\_bitset.h)\<close>

text \<open>
  A bitset is a list of 64-bit words.  Where the C code calls a compiler builtin or else counts bits
  itself, its own code is modelled.  Pointers that step through the words are word indices.
\<close>

definition ZEND_MM_BITSET_LEN :: nat where
  "ZEND_MM_BITSET_LEN = 64"

definition halve :: "nat \<Rightarrow> nat \<times> u64 \<Rightarrow> nat \<times> u64" where
  "halve k = (\<lambda>(n, b). if b AND mask k = mask k then (n + k, drop_bit k b) else (n, b))"

definition zend_mm_bitset_nts :: "u64 \<Rightarrow> nat" where
  "zend_mm_bitset_nts bitset =
     (if bitset = - 1 then ZEND_MM_BITSET_LEN
      else (let (n, b) = halve 2 (halve 4 (halve 8 (halve 16 (halve 32 (0, bitset))))) in n + unat (b AND 1)))"

definition halve_zero :: "nat \<Rightarrow> nat \<times> u64 \<Rightarrow> nat \<times> u64" where
  "halve_zero k = (\<lambda>(n, b). if b AND mask k = 0 then (n + k, drop_bit k b) else (n, b))"

definition zend_ulong_ntz :: "u64 \<Rightarrow> nat" where
  "zend_ulong_ntz num =
     (if num = 0 then ZEND_MM_BITSET_LEN
      else (let (n, b) = halve_zero 2 (halve_zero 4 (halve_zero 8 (halve_zero 16 (halve_zero 32 (1, num))))) in n - unat (b AND 1)))"

text \<open>
  The searches return the number of a bit, or \<open>None\<close> for -1.  Their loops test the size after the
  first word.
\<close>

fun find_word :: "(u64 \<Rightarrow> bool) \<Rightarrow> nat \<Rightarrow> u64 list \<Rightarrow> nat \<Rightarrow> nat option" where
  "find_word P i bitset 0 = None"
| "find_word P i bitset (Suc n) = (if P (bitset ! i) then Some i else find_word P (i + 1) bitset n)"

definition zend_mm_bitset_find_zero :: "u64 list \<Rightarrow> nat \<Rightarrow> nat option" where
  "zend_mm_bitset_find_zero bitset sz =
     map_option (\<lambda>i. i * ZEND_MM_BITSET_LEN + zend_mm_bitset_nts (bitset ! i)) (find_word (\<lambda>w. w \<noteq> - 1) 0 bitset (max 1 sz))"

definition zend_mm_bitset_find_one :: "u64 list \<Rightarrow> nat \<Rightarrow> nat option" where
  "zend_mm_bitset_find_one bitset sz =
     map_option (\<lambda>i. i * ZEND_MM_BITSET_LEN + zend_ulong_ntz (bitset ! i)) (find_word (\<lambda>w. w \<noteq> 0) 0 bitset (max 1 sz))"

definition zend_mm_bitset_find_zero_and_set :: "u64 list \<Rightarrow> nat \<Rightarrow> nat option \<times> u64 list" where
  "zend_mm_bitset_find_zero_and_set bitset sz =
     (case find_word (\<lambda>w. w \<noteq> - 1) 0 bitset (max 1 sz) of
        None \<Rightarrow> (None, bitset)
      | Some i \<Rightarrow> (let n = zend_mm_bitset_nts (bitset ! i)
                  in (Some (i * ZEND_MM_BITSET_LEN + n), bitset[i := bitset ! i OR push_bit n 1])))"

definition zend_mm_bitset_is_set :: "u64 list \<Rightarrow> nat \<Rightarrow> bool" where
  "zend_mm_bitset_is_set bitset b = (drop_bit (b mod ZEND_MM_BITSET_LEN) (bitset ! (b div ZEND_MM_BITSET_LEN)) AND 1 \<noteq> 0)"

definition on_word :: "nat \<Rightarrow> (u64 \<Rightarrow> u64) \<Rightarrow> u64 list \<Rightarrow> u64 list" where
  "on_word pos f bitset = bitset[pos := f (bitset ! pos)]"

definition zend_mm_bitset_set_bit :: "u64 list \<Rightarrow> nat \<Rightarrow> u64 list" where
  "zend_mm_bitset_set_bit bitset b =
     on_word (b div ZEND_MM_BITSET_LEN) (\<lambda>w. w OR push_bit (b mod ZEND_MM_BITSET_LEN) 1) bitset"

definition zend_mm_bitset_reset_bit :: "u64 list \<Rightarrow> nat \<Rightarrow> u64 list" where
  "zend_mm_bitset_reset_bit bitset b =
     on_word (b div ZEND_MM_BITSET_LEN) (\<lambda>w. w AND NOT (push_bit (b mod ZEND_MM_BITSET_LEN) 1)) bitset"

text \<open>\<open>\<lbrakk>pos, endp)\<close> is what the loop over the whole words goes through.\<close>

definition fill_words :: "u64 \<Rightarrow> nat \<Rightarrow> nat \<Rightarrow> u64 list \<Rightarrow> u64 list" where
  "fill_words v pos endp bitset = fold (\<lambda>i bs. bs[i := v]) [pos..<endp] bitset"

definition from_bit :: "nat \<Rightarrow> u64" where
  "from_bit b = push_bit b (- 1)"

definition up_to_bit :: "nat \<Rightarrow> u64" where
  "up_to_bit e = drop_bit (ZEND_MM_BITSET_LEN - 1 - e) (- 1)"

definition zend_mm_bitset_set_range :: "u64 list \<Rightarrow> nat \<Rightarrow> nat \<Rightarrow> u64 list" where
  "zend_mm_bitset_set_range bitset start len =
     (if len = 1 then zend_mm_bitset_set_bit bitset start
      else
        (let pos = start div ZEND_MM_BITSET_LEN;
             endp = (start + len - 1) div ZEND_MM_BITSET_LEN;
             b = start mod ZEND_MM_BITSET_LEN;
             e = (start + len - 1) mod ZEND_MM_BITSET_LEN
         in if pos \<noteq> endp then
              (let bitset = on_word pos (\<lambda>w. w OR from_bit b) bitset;
                   bitset = fill_words (- 1) (pos + 1) endp bitset
               in on_word endp (\<lambda>w. w OR up_to_bit e) bitset)
            else on_word pos (\<lambda>w. w OR (from_bit b AND up_to_bit e)) bitset))"

definition zend_mm_bitset_reset_range :: "u64 list \<Rightarrow> nat \<Rightarrow> nat \<Rightarrow> u64 list" where
  "zend_mm_bitset_reset_range bitset start len =
     (if len = 1 then zend_mm_bitset_reset_bit bitset start
      else
        (let pos = start div ZEND_MM_BITSET_LEN;
             endp = (start + len - 1) div ZEND_MM_BITSET_LEN;
             b = start mod ZEND_MM_BITSET_LEN;
             e = (start + len - 1) mod ZEND_MM_BITSET_LEN
         in if pos \<noteq> endp then
              (let bitset = on_word pos (\<lambda>w. w AND NOT (NOT (push_bit b 1 - 1))) bitset;
                   bitset = fill_words 0 (pos + 1) endp bitset
               in on_word endp (\<lambda>w. w AND NOT (up_to_bit e)) bitset)
            else on_word pos (\<lambda>w. w AND NOT (from_bit b AND up_to_bit e)) bitset))"

definition zend_mm_bitset_is_free_range :: "u64 list \<Rightarrow> nat \<Rightarrow> nat \<Rightarrow> bool" where
  "zend_mm_bitset_is_free_range bitset start len =
     (if len = 1 then \<not> zend_mm_bitset_is_set bitset start
      else
        (let pos = start div ZEND_MM_BITSET_LEN;
             endp = (start + len - 1) div ZEND_MM_BITSET_LEN;
             b = start mod ZEND_MM_BITSET_LEN;
             e = (start + len - 1) mod ZEND_MM_BITSET_LEN
         in if pos \<noteq> endp then
              (if bitset ! pos AND from_bit b \<noteq> 0 then False
               else if \<exists>i \<in> set [pos + 1..<endp]. bitset ! i \<noteq> 0 then False
               else bitset ! endp AND up_to_bit e = 0)
            else bitset ! pos AND (from_bit b AND up_to_bit e) = 0))"

subsection \<open>Bits\<close>

text \<open>\<open>page bs k\<close>: bit \<open>k\<close> of the bitset.\<close>

definition page :: "u64 list \<Rightarrow> nat \<Rightarrow> bool" where
  "page bs k = bit (bs ! (k div 64)) (k mod 64)"

lemma word_zero_iff: "(w :: u64) = 0 \<longleftrightarrow> (\<forall>i < 64. \<not> bit w i)"
  by (auto simp: bit_eq_iff)

lemma word_ones_iff: "(w :: u64) = - 1 \<longleftrightarrow> (\<forall>i < 64. bit w i)"
  by (auto simp: bit_eq_iff)

lemma bit_from [simp]: "bit (from_bit b) i \<longleftrightarrow> b \<le> i \<and> i < 64"
  by (auto simp: from_bit_def bit_simps)

lemma bit_up_to: "e < 64 \<Longrightarrow> bit (up_to_bit e) i \<longleftrightarrow> i \<le> e"
  by (auto simp: up_to_bit_def bit_simps ZEND_MM_BITSET_LEN_def)

lemma bit_not_minus: "b < 64 \<Longrightarrow> bit (NOT (push_bit b (1 :: u64) - 1)) i \<longleftrightarrow> b \<le> i \<and> i < 64"
proof -
  assume "b < 64"
  have "push_bit b (1 :: u64) - 1 = mask b" by (simp add: mask_eq_exp_minus_1)
  then show ?thesis by (auto simp: bit_simps)
qed

lemma page_on_word:
  assumes "pos < length bs" "\<And>w i. i < 64 \<Longrightarrow> bit (f w) i = g i (bit w i)"
  shows "page (on_word pos f bs) k = (if k div 64 = pos then g (k mod 64) (page bs k) else page bs k)"
  using assms by (simp add: page_def on_word_def)

lemma fill_words_length [simp]: "length (fill_words v a b bs) = length bs"
  unfolding fill_words_def by (rule fold_invariant [where Q = "\<lambda>_. True"]) simp_all

lemma fill_words_nth: "b \<le> length bs \<Longrightarrow> fill_words v a b bs ! i = (if i \<in> {a..<b} then v else bs ! i)"
proof (induction b)
  case (Suc b)
  then show ?case
  proof (cases "a \<le> b")
    case True
    then have "fill_words v a (Suc b) bs = (fill_words v a b bs)[b := v]" by (simp add: fill_words_def)
    with Suc True show ?thesis by (auto simp: nth_list_update less_Suc_eq)
  qed (simp add: fill_words_def)
qed (simp add: fill_words_def)

lemma range_length [simp]: "length (zend_mm_bitset_set_range bs s n) = length bs" "length (zend_mm_bitset_reset_range bs s n) = length bs"
  by (simp_all add: zend_mm_bitset_set_range_def zend_mm_bitset_reset_range_def zend_mm_bitset_set_bit_def
      zend_mm_bitset_reset_bit_def on_word_def Let_def)

lemma le_div_mod: "(a :: nat) \<le> b \<longleftrightarrow> a div 64 < b div 64 \<or> a div 64 = b div 64 \<and> a mod 64 \<le> b mod 64"
  using div_mult_mod_eq [of a 64] div_mult_mod_eq [of b 64] div_le_mono [of a b 64] div_le_mono [of b a 64]
    mod_less_divisor [of 64 a] mod_less_divisor [of 64 b] by linarith

lemma page_single:
  assumes "s < 64 * length bs"
  shows "page (zend_mm_bitset_set_bit bs s) k = (page bs k \<or> k = s)"
    "page (zend_mm_bitset_reset_bit bs s) k = (page bs k \<and> k \<noteq> s)"
proof -
  have d: "s div 64 < length bs" using assms by (simp add: less_mult_imp_div_less mult.commute)
  have k: "k = s \<longleftrightarrow> k div 64 = s div 64 \<and> k mod 64 = s mod 64" by (metis div_mult_mod_eq)
  show "page (zend_mm_bitset_set_bit bs s) k = (page bs k \<or> k = s)"
    unfolding zend_mm_bitset_set_bit_def k using d
    by (subst page_on_word [where g = "\<lambda>i b. b \<or> i = s mod 64"]) (auto simp: bit_simps ZEND_MM_BITSET_LEN_def)
  show "page (zend_mm_bitset_reset_bit bs s) k = (page bs k \<and> k \<noteq> s)"
    unfolding zend_mm_bitset_reset_bit_def k using d
    by (subst page_on_word [where g = "\<lambda>i b. b \<and> i \<noteq> s mod 64"]) (auto simp: bit_simps ZEND_MM_BITSET_LEN_def)
qed

lemma page_fill: "b \<le> length bs \<Longrightarrow> page (fill_words v a b bs) k = (if k div 64 \<in> {a..<b} then bit v (k mod 64) else page bs k)"
  by (simp add: page_def fill_words_nth)

text \<open>A range in words.\<close>

lemma in_range:
  fixes k s n :: nat
  assumes "0 < n"
  shows "k \<in> {s..<s + n} \<longleftrightarrow> (s div 64 < k div 64 \<or> s div 64 = k div 64 \<and> s mod 64 \<le> k mod 64) \<and>
    (k div 64 < (s + n - 1) div 64 \<or> k div 64 = (s + n - 1) div 64 \<and> k mod 64 \<le> (s + n - 1) mod 64)"
proof -
  have "k \<in> {s..<s + n} \<longleftrightarrow> s \<le> k \<and> k \<le> s + n - 1" using assms by (simp only: atLeastLessThan_iff) arith
  then show ?thesis by (simp only: le_div_mod [of s k] le_div_mod [of k "s + n - 1"])
qed

lemma page_set_range:
  assumes "0 < n" "s + n \<le> 64 * length bs"
  shows "page (zend_mm_bitset_set_range bs s n) k = (page bs k \<or> k \<in> {s..<s + n})"
proof (cases "n = 1")
  case True
  then show ?thesis using page_single(1) [of s bs k] assms by (auto simp: zend_mm_bitset_set_range_def)
next
  case False
  define m where "m = s + n - 1"
  have q: "m div 64 < length bs" using assms by (simp add: less_mult_imp_div_less mult.commute m_def)
  have p: "s div 64 \<le> m div 64" using assms(1) unfolding m_def by (intro div_le_mono) simp
  have u: "bit (up_to_bit (m mod 64)) i \<longleftrightarrow> i \<le> m mod 64" for i by (rule bit_up_to) simp
  have e: "zend_mm_bitset_set_range bs s n =
    (if s div 64 \<noteq> m div 64 then on_word (m div 64) (\<lambda>w. w OR up_to_bit (m mod 64))
       (fill_words (- 1) (s div 64 + 1) (m div 64) (on_word (s div 64) (\<lambda>w. w OR from_bit (s mod 64)) bs))
     else on_word (s div 64) (\<lambda>w. w OR (from_bit (s mod 64) AND up_to_bit (m mod 64))) bs)"
    using False unfolding zend_mm_bitset_set_range_def ZEND_MM_BITSET_LEN_def m_def Let_def by simp
  note r = in_range [OF assms(1), of k s, folded m_def]
  show ?thesis
  proof (cases "s div 64 = m div 64")
    case True
    then show ?thesis unfolding r e using q
      by (simp, subst page_on_word [where g = "\<lambda>i b. b \<or> s mod 64 \<le> i \<and> i \<le> m mod 64"]) (auto simp: bit_simps u)
  next
    case ne: False
    let ?w = "on_word (s div 64) (\<lambda>w. w OR from_bit (s mod 64)) bs"
    have l: "s div 64 < length bs" "m div 64 \<le> length ?w" using p q by (auto simp: on_word_def)
    have 1: "page (zend_mm_bitset_set_range bs s n) k =
      (page (fill_words (- 1) (s div 64 + 1) (m div 64) ?w) k \<or> k div 64 = m div 64 \<and> k mod 64 \<le> m mod 64)"
      unfolding e using ne q
      by (simp, subst page_on_word [where g = "\<lambda>i b. b \<or> i \<le> m mod 64"]) (auto simp: bit_simps u on_word_def)
    have 2: "page ?w k = (page bs k \<or> k div 64 = s div 64 \<and> s mod 64 \<le> k mod 64)"
      using l(1) by (subst page_on_word [where g = "\<lambda>i b. b \<or> s mod 64 \<le> i"]) (auto simp: bit_simps)
    show ?thesis unfolding 1 page_fill [OF l(2)] 2 r using p ne by auto
  qed
qed

lemma page_reset_range:
  assumes "0 < n" "s + n \<le> 64 * length bs"
  shows "page (zend_mm_bitset_reset_range bs s n) k = (page bs k \<and> k \<notin> {s..<s + n})"
proof (cases "n = 1")
  case True
  then show ?thesis using page_single(2) [of s bs k] assms by (auto simp: zend_mm_bitset_reset_range_def)
next
  case False
  define m where "m = s + n - 1"
  have q: "m div 64 < length bs" using assms by (simp add: less_mult_imp_div_less mult.commute m_def)
  have p: "s div 64 \<le> m div 64" using assms(1) unfolding m_def by (intro div_le_mono) simp
  have u: "bit (up_to_bit (m mod 64)) i \<longleftrightarrow> i \<le> m mod 64" for i by (rule bit_up_to) simp
  have v: "bit (NOT (push_bit (s mod 64) (1 :: u64) - 1)) i \<longleftrightarrow> s mod 64 \<le> i \<and> i < 64" for i by (rule bit_not_minus) simp
  have e: "zend_mm_bitset_reset_range bs s n =
    (if s div 64 \<noteq> m div 64 then on_word (m div 64) (\<lambda>w. w AND NOT (up_to_bit (m mod 64)))
       (fill_words 0 (s div 64 + 1) (m div 64) (on_word (s div 64) (\<lambda>w. w AND NOT (NOT (push_bit (s mod 64) 1 - 1))) bs))
     else on_word (s div 64) (\<lambda>w. w AND NOT (from_bit (s mod 64) AND up_to_bit (m mod 64))) bs)"
    using False unfolding zend_mm_bitset_reset_range_def ZEND_MM_BITSET_LEN_def m_def Let_def by simp
  note r = in_range [OF assms(1), of k s, folded m_def]
  show ?thesis
  proof (cases "s div 64 = m div 64")
    case True
    then show ?thesis unfolding r e using q
      by (simp, subst page_on_word [where g = "\<lambda>i b. b \<and> \<not> (s mod 64 \<le> i \<and> i \<le> m mod 64)"]) (auto simp: bit_simps u)
  next
    case ne: False
    let ?w = "on_word (s div 64) (\<lambda>w. w AND NOT (NOT (push_bit (s mod 64) 1 - 1))) bs"
    have l: "s div 64 < length bs" "m div 64 \<le> length ?w" using p q by (auto simp: on_word_def)
    have 1: "page (zend_mm_bitset_reset_range bs s n) k =
      (page (fill_words 0 (s div 64 + 1) (m div 64) ?w) k \<and> \<not> (k div 64 = m div 64 \<and> k mod 64 \<le> m mod 64))"
      unfolding e using ne q
      by (simp only: if_P simp_thms, subst page_on_word [where g = "\<lambda>i b. b \<and> \<not> i \<le> m mod 64"]) (auto simp: bit_simps u on_word_def)
    have 2: "page ?w k = (page bs k \<and> \<not> (k div 64 = s div 64 \<and> s mod 64 \<le> k mod 64))"
      using l(1) by (subst page_on_word [where g = "\<lambda>i b. b \<and> \<not> s mod 64 \<le> i"])
        (auto simp: bit_simps mask_eq_exp_minus_1 [symmetric])
    show ?thesis unfolding 1 page_fill [OF l(2)] 2 r using p ne by auto
  qed
qed

lemma is_set_page: "zend_mm_bitset_is_set bs k = page bs k"
proof -
  have "(w :: u64) AND 1 \<noteq> 0 \<longleftrightarrow> bit w 0" for w
    by (auto simp: word_zero_iff bit_and_iff bit_1_iff)
  then show ?thesis by (simp add: zend_mm_bitset_is_set_def page_def ZEND_MM_BITSET_LEN_def bit_drop_bit_eq)
qed

text \<open>The pages of a range, in the words it covers.\<close>

lemma and_zero_iff: "(w :: u64) AND v = 0 \<longleftrightarrow> (\<forall>i < 64. bit v i \<longrightarrow> \<not> bit w i)"
  by (auto simp: word_zero_iff bit_and_iff)

lemma all_pages: "(\<forall>k. P (k div 64) (k mod 64) \<longrightarrow> \<not> page bs k) \<longleftrightarrow> (\<forall>q. \<forall>i < 64. P q i \<longrightarrow> \<not> bit (bs ! q) i)"
proof
  assume a: "\<forall>k. P (k div 64) (k mod 64) \<longrightarrow> \<not> page bs k"
  show "\<forall>q. \<forall>i < 64. P q i \<longrightarrow> \<not> bit (bs ! q) i"
  proof (intro allI impI)
    fix q i :: nat assume "i < 64" "P q i"
    then show "\<not> bit (bs ! q) i" using a [rule_format, of "q * 64 + i"] by (simp add: page_def)
  qed
qed (simp add: page_def)

lemma is_free_range_correct:
  assumes "0 < n"
  shows "zend_mm_bitset_is_free_range bs s n \<longleftrightarrow> (\<forall>k \<in> {s..<s + n}. \<not> page bs k)"
proof (cases "n = 1")
  case True
  then show ?thesis by (simp add: zend_mm_bitset_is_free_range_def is_set_page)
next
  case False
  define m where "m = s + n - 1"
  let ?P = "\<lambda>q i. (s div 64 < q \<or> s div 64 = q \<and> s mod 64 \<le> i) \<and> (q < m div 64 \<or> q = m div 64 \<and> i \<le> m mod 64)"
  have p: "s div 64 \<le> m div 64" using assms unfolding m_def by (intro div_le_mono) simp
  have u: "bit (up_to_bit (m mod 64)) i \<longleftrightarrow> i \<le> m mod 64" for i by (rule bit_up_to) simp
  have e: "zend_mm_bitset_is_free_range bs s n =
    (if s div 64 \<noteq> m div 64 then bs ! (s div 64) AND from_bit (s mod 64) = 0 \<and>
       (\<forall>q \<in> {s div 64 + 1..<m div 64}. bs ! q = 0) \<and> bs ! (m div 64) AND up_to_bit (m mod 64) = 0
     else bs ! (s div 64) AND (from_bit (s mod 64) AND up_to_bit (m mod 64)) = 0)"
    using False unfolding zend_mm_bitset_is_free_range_def ZEND_MM_BITSET_LEN_def m_def Let_def by auto
  have "(\<forall>k \<in> {s..<s + n}. \<not> page bs k) \<longleftrightarrow> (\<forall>k. ?P (k div 64) (k mod 64) \<longrightarrow> \<not> page bs k)"
    using in_range [OF assms, of _ s, folded m_def] by blast
  also have "\<dots> \<longleftrightarrow> (\<forall>q. \<forall>i < 64. ?P q i \<longrightarrow> \<not> bit (bs ! q) i)" by (rule all_pages)
  also have "\<dots> \<longleftrightarrow> zend_mm_bitset_is_free_range bs s n"
  proof (cases "s div 64 = m div 64")
    case True
    then show ?thesis unfolding e and_zero_iff by (auto simp: bit_and_iff u)
  next
    case ne: False
    show ?thesis
    proof
      assume a: "\<forall>q. \<forall>i < 64. ?P q i \<longrightarrow> \<not> bit (bs ! q) i"
      show "zend_mm_bitset_is_free_range bs s n"
        unfolding e and_zero_iff unfolding word_zero_iff using a ne p by (auto simp: u)
    next
      assume a: "zend_mm_bitset_is_free_range bs s n"
      show "\<forall>q. \<forall>i < 64. ?P q i \<longrightarrow> \<not> bit (bs ! q) i"
        using a ne p unfolding e and_zero_iff unfolding word_zero_iff by (auto simp: u)
    qed
  qed
  finally show ?thesis by simp
qed

subsection \<open>Counting bits\<close>

text \<open>The first \<open>n\<close> bits of \<open>w\<close> are \<open>v\<close>, \<open>b\<close> is the rest, and not all of its first \<open>k\<close> bits are \<open>v\<close>.\<close>

definition run_of :: "bool \<Rightarrow> u64 \<Rightarrow> nat \<Rightarrow> nat \<Rightarrow> u64 \<Rightarrow> bool" where
  "run_of v w k n b = (b = drop_bit n w \<and> (\<forall>i < n. bit w i = v) \<and> (\<exists>j < k. bit b j \<noteq> v) \<and> n + k \<le> 64)"

lemma run_of_half:
  assumes "run_of v w (2 * k) n b"
  shows "\<forall>i < k. bit b i = v \<Longrightarrow> run_of v w k (n + k) (drop_bit k b)" "\<not> (\<forall>i < k. bit b i = v) \<Longrightarrow> run_of v w k n b"
proof -
  have b: "b = drop_bit n w" "\<forall>i < n. bit w i = v" "\<exists>j < 2 * k. bit b j \<noteq> v" "n + 2 * k \<le> 64"
    using assms by (auto simp: run_of_def)
  { assume a: "\<forall>i < k. bit b i = v"
    obtain j where j: "j < 2 * k" "bit b j \<noteq> v" using b(3) by blast
    then have "k \<le> j" using a by (meson not_le)
    then have "bit (drop_bit k b) (j - k) \<noteq> v" "j - k < k" using j by (simp_all add: bit_drop_bit_eq)
    moreover have "bit w i = v" if "i < n + k" for i
      using that a b by (cases "i < n") (auto simp: bit_drop_bit_eq dest: spec [of _ "i - n"])
    ultimately show "run_of v w k (n + k) (drop_bit k b)" using b by (auto simp: run_of_def add.commute) }
  show "\<not> (\<forall>i < k. bit b i = v) \<Longrightarrow> run_of v w k n b" using b by (auto simp: run_of_def)
qed

lemma and_mask_iff:
  assumes "k \<le> 64"
  shows "(b :: u64) AND mask k = mask k \<longleftrightarrow> (\<forall>i < k. bit b i)" "(b :: u64) AND mask k = 0 \<longleftrightarrow> (\<forall>i < k. \<not> bit b i)"
proof -
  show "(b :: u64) AND mask k = 0 \<longleftrightarrow> (\<forall>i < k. \<not> bit b i)"
    using assms unfolding word_zero_iff by (auto simp: bit_simps) (meson less_le_trans)
  have "(b :: u64) AND mask k = mask k \<longleftrightarrow> (\<forall>i < 64. bit (b AND mask k) i = bit (mask k :: u64) i)"
    by (auto simp: bit_eq_iff)
  also have "\<dots> \<longleftrightarrow> (\<forall>i < 64. i < k \<longrightarrow> bit b i)" by (auto simp: bit_simps)
  also have "\<dots> \<longleftrightarrow> (\<forall>i < k. bit b i)" using assms by (meson less_le_trans)
  finally show "(b :: u64) AND mask k = mask k \<longleftrightarrow> (\<forall>i < k. bit b i)" .
qed

lemma halve_run:
  assumes "run_of True w (2 * k) n b" "halve k (n, b) = (n', b')"
  shows "run_of True w k n' b'"
proof -
  have k: "k \<le> 64" using assms(1) by (simp add: run_of_def)
  show ?thesis using run_of_half [OF assms(1)] assms(2) by (auto simp: halve_def and_mask_iff [OF k] split: if_splits)
qed

lemma halve_zero_run:
  assumes "run_of False w (2 * k) n b" "halve_zero k (n + 1, b) = (n', b')"
  shows "1 \<le> n' \<and> run_of False w k (n' - 1) b'"
proof -
  have k: "k \<le> 64" using assms(1) by (simp add: run_of_def)
  show ?thesis using run_of_half [OF assms(1)] assms(2) by (auto simp: halve_zero_def and_mask_iff [OF k] split: if_splits)
qed

lemma unat_low: "unat ((b :: u64) AND 1) = (if bit b 0 then 1 else 0)"
  by (simp add: and_one_eq bit_0 mod2_eq_if)

lemma run_of_two: "run_of v w 2 n b \<Longrightarrow> n' = (if bit b 0 = v then n + 1 else n) \<Longrightarrow>
    n' < 64 \<and> bit w n' \<noteq> v \<and> (\<forall>i < n'. bit w i = v)"
  by (auto simp: run_of_def bit_drop_bit_eq less_Suc_eq numeral_2_eq_2)

lemma nts_correct:
  assumes "w \<noteq> - 1"
  shows "zend_mm_bitset_nts w < 64 \<and> \<not> bit w (zend_mm_bitset_nts w) \<and> (\<forall>i < zend_mm_bitset_nts w. bit w i)"
proof -
  have 0: "run_of True w (2 * 32) 0 w" using assms by (auto simp: run_of_def word_ones_iff)
  obtain a b c d e where h: "halve 32 (0, w) = a" "halve 16 a = b" "halve 8 b = c" "halve 4 c = d" "halve 2 d = e" by blast
  have "run_of True w 32 (fst a) (snd a)" using halve_run [OF 0] h(1) by (cases a) simp
  then have "run_of True w 16 (fst b) (snd b)" using halve_run [of w 16] h(2) by (cases b) simp
  then have "run_of True w 8 (fst c) (snd c)" using halve_run [of w 8] h(3) by (cases c) simp
  then have "run_of True w 4 (fst d) (snd d)" using halve_run [of w 4] h(4) by (cases d) simp
  then have "run_of True w 2 (fst e) (snd e)" using halve_run [of w 2] h(5) by (cases e) simp
  moreover have "zend_mm_bitset_nts w = fst e + (if bit (snd e) 0 then 1 else 0)"
    using assms h by (cases e) (simp add: zend_mm_bitset_nts_def unat_low)
  ultimately show ?thesis using run_of_two [of True w "fst e" "snd e"] by (cases "bit (snd e) 0") simp_all
qed

lemma ntz_correct:
  assumes "w \<noteq> 0"
  shows "zend_ulong_ntz w < 64 \<and> bit w (zend_ulong_ntz w) \<and> (\<forall>i < zend_ulong_ntz w. \<not> bit w i)"
proof -
  have 0: "run_of False w (2 * 32) 0 w" using assms by (auto simp: run_of_def word_zero_iff)
  obtain a b c d e where h: "halve_zero 32 (1, w) = a" "halve_zero 16 a = b" "halve_zero 8 b = c" "halve_zero 4 c = d" "halve_zero 2 d = e" by blast
  have s: "1 \<le> fst q \<and> run_of False w k (fst q - 1) (snd q)"
    if "1 \<le> fst p \<and> run_of False w (2 * k) (fst p - 1) (snd p)" "halve_zero k p = q" for k p q
    using halve_zero_run [of w k "fst p - 1" "snd p" "fst q" "snd q"] that by (cases p; cases q) simp
  have "1 \<le> fst a \<and> run_of False w 32 (fst a - 1) (snd a)" using s [of "(1, w)" 32 a] 0 h(1) by simp
  then have "1 \<le> fst b \<and> run_of False w 16 (fst b - 1) (snd b)" using s [of a 16 b] h(2) by simp
  then have "1 \<le> fst c \<and> run_of False w 8 (fst c - 1) (snd c)" using s [of b 8 c] h(3) by simp
  then have "1 \<le> fst d \<and> run_of False w 4 (fst d - 1) (snd d)" using s [of c 4 d] h(4) by simp
  then have e: "1 \<le> fst e \<and> run_of False w 2 (fst e - 1) (snd e)" using s [of d 2 e] h(5) by simp
  moreover have "zend_ulong_ntz w = fst e - (if bit (snd e) 0 then 1 else 0)"
    using assms h by (cases e) (simp add: zend_ulong_ntz_def unat_low)
  ultimately show ?thesis using run_of_two [of False w "fst e - 1" "snd e"] by (auto split: if_splits)
qed

subsection \<open>Clearing and filling the low bits\<close>

lemma mask_plus_one: "(mask n :: u64) + 1 = 2 ^ n"
  by (simp add: mask_eq_exp_minus_1)

lemma clear_low_ones:
  assumes "w \<noteq> - 1"
  shows "bit (w AND (w + 1)) i \<longleftrightarrow> bit w i \<and> zend_mm_bitset_nts w < i"
proof -
  let ?n = "zend_mm_bitset_nts w"
  note n = nts_correct [OF assms]
  let ?high = "w AND NOT (mask (Suc ?n))"
  have "w = ?high OR mask ?n"
  proof (rule bit_word_eqI)
    fix i assume "i < LENGTH(64)"
    then show "bit w i = bit (?high OR mask ?n) i"
      using n by (cases i ?n rule: linorder_cases) (auto simp: bit_simps)
  qed
  also have "\<dots> = ?high + mask ?n" by (rule disjunctive_add [symmetric]) (auto simp: bit_simps)
  finally have "w + 1 = ?high + (mask ?n + 1)" by (metis add.assoc)
  also have "\<dots> = ?high + push_bit ?n 1" by (simp add: mask_plus_one)
  also have "\<dots> = ?high OR push_bit ?n 1" by (rule disjunctive_add) (auto simp: bit_simps)
  finally have "bit (w + 1) i \<longleftrightarrow> bit w i \<and> ?n < i \<or> i = ?n" for i
    using n by (auto simp: bit_simps dest: bit_imp_le_length)
  then show ?thesis using n by (auto simp: bit_and_iff)
qed

lemma fill_low_zeros:
  assumes "w \<noteq> 0"
  shows "bit (w OR (w - 1)) i \<longleftrightarrow> bit w i \<or> i < zend_ulong_ntz w"
proof -
  let ?n = "zend_ulong_ntz w"
  note n = ntz_correct [OF assms]
  let ?high = "w AND NOT (mask (Suc ?n))"
  have "w = ?high OR push_bit ?n 1"
  proof (rule bit_word_eqI)
    fix i assume "i < LENGTH(64)"
    then show "bit w i = bit (?high OR push_bit ?n 1) i" 
      using n by (cases i ?n rule: linorder_cases) (auto simp: bit_simps)
  qed
  also have "\<dots> = ?high + push_bit ?n 1" by (rule disjunctive_add [symmetric]) (auto simp: bit_simps)
  finally have "w - 1 = ?high + (push_bit ?n 1 - 1)" by (metis add_diff_eq)
  also have "\<dots> = ?high + mask ?n" by (simp add: mask_eq_exp_minus_1)
  also have "\<dots> = ?high OR mask ?n" by (rule disjunctive_add) (auto simp: bit_simps)
  finally have "bit (w - 1) i \<longleftrightarrow> bit w i \<and> ?n < i \<or> i < ?n" for i
    using n by (auto simp: bit_simps dest: bit_imp_le_length)
  then show ?thesis by (auto simp: bit_or_iff)
qed

lemma nts_le: "zend_mm_bitset_nts w \<le> 64"
  using nts_correct [of w] by (cases "w = - 1") (simp_all add: zend_mm_bitset_nts_def ZEND_MM_BITSET_LEN_def)

lemma nts_greater: "(\<And>i. i < n \<Longrightarrow> bit w i) \<Longrightarrow> n \<le> 64 \<Longrightarrow> n \<le> zend_mm_bitset_nts w"
  using nts_correct [of w] by (cases "w = - 1") (auto simp: zend_mm_bitset_nts_def ZEND_MM_BITSET_LEN_def not_less intro: leI)

lemma nts_next:
  assumes "w \<noteq> - 1" "w AND (w + 1) \<noteq> 0"
  shows "zend_mm_bitset_nts w < zend_mm_bitset_nts ((w AND (w + 1)) OR ((w AND (w + 1)) - 1))"
proof -
  let ?t = "w AND (w + 1)"
  note z = ntz_correct [OF assms(2)]
  have "zend_mm_bitset_nts w < zend_ulong_ntz ?t" using z clear_low_ones [OF assms(1)] by blast
  moreover have "Suc (zend_ulong_ntz ?t) \<le> zend_mm_bitset_nts (?t OR (?t - 1))"
    using z by (intro nts_greater) (auto simp: fill_low_zeros [OF assms(2)] less_Suc_eq)
  ultimately show ?thesis by simp
qed

end
