(* ===== verification/Zend_Mm_Search.thy ===== *)
theory Zend_Mm_Search
  imports Zend_Mm_Bitset
begin

section \<open>The search for free pages (Zend/zend\_alloc.c, \<open>zend_mm_alloc_pages\<close>)\<close>

text \<open>
  The best-fit search of one chunk.  \<open>tmp\<close> is the word looked at, with the part that has been
  dealt with set, \<open>ws\<close> the words after it, \<open>i\<close> the number of its first page.  The result is the
  first page of the run, if any, and the new \<open>free_tail\<close>.  At the last word \<open>ws\<close> is empty, so the
  test \<open>i == ZEND_MM_PAGES\<close> is the test for the empty list.
\<close>

definition ZEND_MM_PAGES :: nat where
  "ZEND_MM_PAGES = 512"

fun skip_allocated :: "nat \<Rightarrow> u64 \<Rightarrow> u64 list \<Rightarrow> (nat \<times> u64 \<times> u64 list) option" where
  "skip_allocated i tmp ws =
     (if tmp = - 1 then (case ws of [] \<Rightarrow> None | w # ws' \<Rightarrow> skip_allocated (i + ZEND_MM_BITSET_LEN) w ws')
      else Some (i, tmp, ws))"

fun skip_free :: "nat \<Rightarrow> nat \<Rightarrow> u64 \<Rightarrow> u64 list \<Rightarrow> (nat \<times> u64 \<times> u64 list) option" where
  "skip_free free_tail i tmp ws =
     (if tmp = 0 then
        (let i = i + ZEND_MM_BITSET_LEN
         in if i \<ge> free_tail then None
            else (case ws of [] \<Rightarrow> None | w # ws' \<Rightarrow> skip_free free_tail i w ws'))
      else Some (i, tmp, ws))"

declare skip_allocated.simps [simp del] skip_free.simps [simp del]

lemma skip_allocated_words:
  "skip_allocated i tmp [] = (if tmp = - 1 then None else Some (i, tmp, []))"
  "skip_allocated i tmp (w # ws) = (if tmp = - 1 then skip_allocated (i + ZEND_MM_BITSET_LEN) w ws else Some (i, tmp, w # ws))"
  by (subst skip_allocated.simps, simp)+

lemma skip_free_words:
  "skip_free t i tmp [] = (if tmp = 0 then None else Some (i, tmp, []))"
  "skip_free t i tmp (w # ws) = (if tmp = 0 then if i + ZEND_MM_BITSET_LEN \<ge> t then None else skip_free t (i + ZEND_MM_BITSET_LEN) w ws
     else Some (i, tmp, w # ws))"
  by (subst skip_free.simps, simp add: Let_def)+

lemma skip_allocated_shrinks: "skip_allocated i tmp ws = Some (i', tmp', ws') \<Longrightarrow>
    tmp' \<noteq> - 1 \<and> (length ws' < length ws \<or> ws' = ws \<and> tmp' = tmp \<and> i' = i)"
proof (induction ws arbitrary: i tmp)
  case (Cons w ws)
  then show ?case by (cases "tmp = - 1") (fastforce simp: skip_allocated_words)+
qed (simp add: skip_allocated_words split: if_splits)

lemma skip_free_shrinks: "skip_free t i tmp ws = Some (i', tmp', ws') \<Longrightarrow>
    tmp' \<noteq> 0 \<and> (length ws' < length ws \<or> ws' = ws \<and> tmp' = tmp \<and> i' = i)"
proof (induction ws arbitrary: i tmp)
  case (Cons w ws)
  then show ?case by (cases "tmp = 0") (fastforce simp: skip_free_words split: if_splits)+
qed (simp add: skip_free_words split: if_splits)

lemma best_fit_shrinks:
  assumes "skip_allocated i tmp ws = Some (i1, t1, ws1)" "skip_free free_tail i1 (t1 AND (t1 + 1)) ws1 = Some (i2, t2, ws2)"
  shows "length ws2 < length ws \<or> length ws2 = length ws \<and>
    ZEND_MM_BITSET_LEN - zend_mm_bitset_nts (t2 OR (t2 - 1)) < ZEND_MM_BITSET_LEN - zend_mm_bitset_nts tmp"
proof (cases "length ws2 < length ws")
  case False
  with skip_allocated_shrinks [OF assms(1)] skip_free_shrinks [OF assms(2)]
  have e: "ws2 = ws" "t1 = tmp" "t2 = t1 AND (t1 + 1)" by auto
  have "zend_mm_bitset_nts tmp < zend_mm_bitset_nts (t2 OR (t2 - 1))"
    using nts_next [of t1] e skip_allocated_shrinks [OF assms(1)] skip_free_shrinks [OF assms(2)] by simp
  then show ?thesis using e nts_le [of "t2 OR (t2 - 1)"] unfolding ZEND_MM_BITSET_LEN_def by simp
qed simp

function best_fit :: "nat \<Rightarrow> nat \<Rightarrow> int \<Rightarrow> nat \<Rightarrow> nat \<Rightarrow> u64 \<Rightarrow> u64 list \<Rightarrow> nat option \<times> nat" where
  "best_fit pages_count free_tail best best_len i tmp ws =
     (case skip_allocated i tmp ws of
        None \<Rightarrow> ((if best > 0 then Some (nat best) else None), free_tail)
      | Some (i, tmp, ws) \<Rightarrow>
          (let page_num = i + zend_mm_bitset_nts tmp;
               tmp = tmp AND (tmp + 1)
           in case skip_free free_tail i tmp ws of
                None \<Rightarrow>
                  (let len = ZEND_MM_PAGES - page_num
                   in if len \<ge> pages_count \<and> len < best_len then (Some page_num, page_num + pages_count)
                      else ((if best > 0 then Some (nat best) else None), page_num))
              | Some (i, tmp, ws) \<Rightarrow>
                  (let len = i + zend_ulong_ntz tmp - page_num
                   in if len = pages_count then (Some page_num, free_tail)
                      else if len \<ge> pages_count \<and> len < best_len
                      then best_fit pages_count free_tail (int page_num) len i (tmp OR (tmp - 1)) ws
                      else best_fit pages_count free_tail best best_len i (tmp OR (tmp - 1)) ws)))"
  by pat_completeness auto

termination
proof (relation "measures [\<lambda>(n, t, b, l, i, tmp, ws). length ws,
    \<lambda>(n, t, b, l, i, tmp, ws). ZEND_MM_BITSET_LEN - zend_mm_bitset_nts tmp]", goal_cases)
  case (2 n ft b l i tmp ws a i1 y t1 ws1 pn t1' a2 i2 y2 t2 ws2 len)
  then show ?case using best_fit_shrinks [of i tmp ws i1 t1 ws1 ft i2 t2 ws2] by auto
next
  case (3 n ft b l i tmp ws a i1 y t1 ws1 pn t1' a2 i2 y2 t2 ws2 len)
  then show ?case using best_fit_shrinks [of i tmp ws i1 t1 ws1 ft i2 t2 ws2] by auto
qed simp

declare best_fit.simps [simp del]

definition search_pages :: "nat \<Rightarrow> nat \<Rightarrow> u64 list \<Rightarrow> nat option \<times> nat" where
  "search_pages pages_count free_tail free_map =
     best_fit pages_count free_tail (- 1) ZEND_MM_PAGES 0 (free_map ! 0) (drop 1 free_map)"

end
