(* ===== verification/Zend_Mm_Search_Correct.thy ===== *)
theory Zend_Mm_Search_Correct
  imports Zend_Mm_Search
begin

section \<open>The search is best fit\<close>

text \<open>
  A hole is a run of free pages that cannot be made longer.  The search finds the first of the
  shortest holes with enough pages.
\<close>

definition hole :: "u64 list \<Rightarrow> nat \<Rightarrow> nat \<Rightarrow> bool" where
  "hole bs p l = (0 < l \<and> p + l \<le> ZEND_MM_PAGES \<and> (\<forall>k \<in> {p..<p + l}. \<not> page bs k) \<and>
     (p = 0 \<or> page bs (p - 1)) \<and> (p + l = ZEND_MM_PAGES \<or> page bs (p + l)))"

definition best_hole :: "u64 list \<Rightarrow> nat \<Rightarrow> nat \<Rightarrow> nat \<Rightarrow> bool" where
  "best_hole bs n p l = (hole bs p l \<and> n \<le> l \<and> (\<forall>p' l'. hole bs p' l' \<and> n \<le> l' \<longrightarrow> l < l' \<or> l = l' \<and> p \<le> p'))"

text \<open>Behind \<open>free_tail\<close> all is free, but for a run that goes on from before it.\<close>

definition tail_ok :: "u64 list \<Rightarrow> nat \<Rightarrow> bool" where
  "tail_ok bs t = (0 < t \<and> t \<le> ZEND_MM_PAGES \<and> (\<forall>k. t \<le> k \<and> k < ZEND_MM_PAGES \<and> page bs k \<longrightarrow> (\<forall>j \<in> {t - 1..k}. page bs j)))"

subsection \<open>The loops over the words\<close>

definition at_word :: "u64 list \<Rightarrow> (nat \<Rightarrow> bool) \<Rightarrow> nat \<Rightarrow> u64 \<Rightarrow> u64 list \<Rightarrow> bool" where
  "at_word bs P i tmp ws = (\<exists>q < length bs. i = 64 * q \<and> ws = drop (Suc q) bs \<and> (\<forall>j < 64. bit tmp j = P (i + j)))"

lemma at_next:
  assumes "at_word bs P i tmp (w # ws)" "\<And>k. i + 64 \<le> k \<Longrightarrow> P k = page bs k"
  shows "at_word bs P (i + 64) w ws"
proof -
  obtain q where q: "q < length bs" "i = 64 * q" "w # ws = drop (Suc q) bs" using assms(1) by (auto simp: at_word_def)
  then have l: "Suc q < length bs" by (metis drop_all leI list.distinct(1))
  then have w: "w = bs ! Suc q" "ws = drop (Suc (Suc q)) bs" using q(3) by (simp_all add: Cons_nth_drop_Suc [symmetric])
  have "bit w j = P (i + 64 + j)" if "j < 64" for j
  proof -
    have "64 * q + 64 + j = j + 64 * Suc q" by simp
    then have "(64 * q + 64 + j) div 64 = Suc q" "(64 * q + 64 + j) mod 64 = j" using that by (simp_all only: mod_mult_self2 div_mult_self2) simp_all
    then have "page bs (i + 64 + j) = bit w j" using q(2) w(1) by (simp add: page_def add.assoc)
    then show ?thesis using assms(2) [of "i + 64 + j"] by simp
  qed
  with l w q(2) show ?thesis unfolding at_word_def by (intro exI [of _ "Suc q"]) simp
qed

lemma at_last: "at_word bs P i tmp [] \<Longrightarrow> 64 * length bs = ZEND_MM_PAGES \<Longrightarrow> i + 64 = ZEND_MM_PAGES"
  by (fastforce simp: at_word_def)

lemma skip_allocated_ok:
  assumes "at_word bs P i tmp ws" "\<And>k. i + 64 \<le> k \<Longrightarrow> P k = page bs k" "64 * length bs = ZEND_MM_PAGES" "\<forall>k \<in> {p..<i}. P k"
  shows "case skip_allocated i tmp ws of None \<Rightarrow> \<forall>k \<in> {p..<ZEND_MM_PAGES}. P k
    | Some (i', tmp', ws') \<Rightarrow> at_word bs P i' tmp' ws' \<and> i \<le> i' \<and> tmp' \<noteq> - 1 \<and> (\<forall>k \<in> {p..<i'}. P k)"
  using assms(1,2,4)
proof (induction ws arbitrary: i tmp)
  case Nil
  have "\<forall>k \<in> {p..<ZEND_MM_PAGES}. P k" if "tmp = - 1"
  proof
    fix k assume k: "k \<in> {p..<ZEND_MM_PAGES}"
    obtain q where q: "i = 64 * q" "\<forall>j < 64. bit tmp j = P (i + j)" using Nil.prems(1) by (auto simp: at_word_def)
    show "P k"
    proof (cases "k < i")
      case False
      then show ?thesis using q(2) that k at_last [OF Nil.prems(1) assms(3)]
        by (auto dest!: spec [of _ "k - i"] simp: word_ones_iff)
    qed (use k Nil.prems(3) in simp)
  qed
  then show ?case using Nil.prems by (simp add: skip_allocated_words)
next
  case (Cons w ws)
  show ?case
  proof (cases "tmp = - 1")
    case True
    have "P k" if "k \<in> {p..<i + 64}" for k
    proof (cases "k < i")
      case False
      then show ?thesis using Cons.prems(1) True that by (auto simp: at_word_def word_ones_iff dest!: spec [of _ "k - i"])
    qed (use that Cons.prems(3) in simp)
    then show ?thesis
      using Cons.IH [OF at_next [OF Cons.prems(1,2)]] Cons.prems(2) True
      by (auto simp: skip_allocated_words ZEND_MM_BITSET_LEN_def split: option.splits)
  qed (use Cons.prems in \<open>simp add: skip_allocated_words\<close>)
qed

lemma skip_free_ok:
  assumes "at_word bs P i tmp ws" "\<And>k. i + 64 \<le> k \<Longrightarrow> P k = page bs k" "64 * length bs = ZEND_MM_PAGES" "\<forall>k \<in> {p..<i}. \<not> P k"
    "p < i + 64"
  shows "case skip_free t i tmp ws of
      None \<Rightarrow> \<exists>i' > p. (t \<le> i' \<or> i' = ZEND_MM_PAGES) \<and> i' \<le> ZEND_MM_PAGES \<and> (\<forall>k \<in> {p..<i'}. \<not> P k)
    | Some (i', tmp', ws') \<Rightarrow> at_word bs P i' tmp' ws' \<and> i \<le> i' \<and> tmp' \<noteq> 0 \<and> (\<forall>k \<in> {p..<i'}. \<not> P k)"
  using assms(1,2,4,5)
proof (induction ws arbitrary: i tmp)
  case Nil
  have "\<forall>k \<in> {p..<ZEND_MM_PAGES}. \<not> P k" if "tmp = 0"
  proof
    fix k assume k: "k \<in> {p..<ZEND_MM_PAGES}"
    obtain q where q: "i = 64 * q" "\<forall>j < 64. bit tmp j = P (i + j)" using Nil.prems(1) by (auto simp: at_word_def)
    show "\<not> P k"
    proof (cases "k < i")
      case False
      then show ?thesis using q(2) that k at_last [OF Nil.prems(1) assms(3)]
        by (auto dest!: spec [of _ "k - i"])
    qed (use k Nil.prems(3) in simp)
  qed
  then show ?case using Nil.prems at_last [OF Nil.prems(1) assms(3)] by (auto simp: skip_free_words)
next
  case (Cons w ws)
  show ?case
  proof (cases "tmp = 0")
    case True
    have f: "\<not> P k" if "k \<in> {p..<i + 64}" for k
    proof (cases "k < i")
      case False
      then show ?thesis using Cons.prems(1) True that by (auto simp: at_word_def dest!: spec [of _ "k - i"])
    qed (use that Cons.prems(3) in simp)
    have le: "i + 64 \<le> ZEND_MM_PAGES" using Cons.prems(1) assms(3) by (auto simp: at_word_def)
    show ?thesis
    proof (cases "t \<le> i + 64")
      case True
      then have "skip_free t i tmp (w # ws) = None" using \<open>tmp = 0\<close> by (simp add: skip_free_words ZEND_MM_BITSET_LEN_def)
      then show ?thesis using f le Cons.prems(4) True by (auto intro!: exI [of _ "i + 64"])
    next
      case False
      then show ?thesis
        using Cons.IH [OF at_next [OF Cons.prems(1,2)]] Cons.prems(2,4) f \<open>tmp = 0\<close>
        by (auto simp: skip_free_words ZEND_MM_BITSET_LEN_def split: option.splits)
    qed
  qed (use Cons.prems in \<open>simp add: skip_free_words\<close>)
qed

subsection \<open>The search\<close>

definition searched :: "u64 list \<Rightarrow> nat \<Rightarrow> nat \<Rightarrow> int \<Rightarrow> nat \<Rightarrow> bool" where
  "searched bs n p best best_len =
     (if best > 0 then nat best < p \<and> hole bs (nat best) best_len \<and> n < best_len \<and> nat best + best_len < ZEND_MM_PAGES \<and>
        nat best + best_len \<le> p \<and>
        (\<forall>p' l'. hole bs p' l' \<and> n \<le> l' \<and> p' < p \<longrightarrow> best_len < l' \<or> best_len = l' \<and> nat best \<le> p')
      else best_len = ZEND_MM_PAGES \<and> (\<forall>p' l'. hole bs p' l' \<and> n \<le> l' \<longrightarrow> p \<le> p'))"

text \<open>The search moves \<open>free_tail\<close> only to where all is free behind it.\<close>

definition new_tail :: "u64 list \<Rightarrow> nat \<Rightarrow> nat \<Rightarrow> bool" where
  "new_tail bs t t' = (t' = t \<or> 0 < t' \<and> t' \<le> ZEND_MM_PAGES \<and> (\<forall>k \<in> {t'..<ZEND_MM_PAGES}. \<not> page bs k))"

definition search_result :: "u64 list \<Rightarrow> nat \<Rightarrow> nat \<Rightarrow> nat option \<times> nat \<Rightarrow> bool" where
  "search_result bs t n r = (new_tail bs t (snd r) \<and>
     (case fst r of None \<Rightarrow> \<forall>p' l'. hole bs p' l' \<longrightarrow> l' < n
      | Some s \<Rightarrow> 0 < s \<and> s + n \<le> snd r \<and> (\<exists>l. best_hole bs n s l)))"

lemma hole_unique: "hole bs p l \<Longrightarrow> hole bs p l' \<Longrightarrow> l = l'"
proof (rule ccontr)
  assume h: "hole bs p l" "hole bs p l'" and "l \<noteq> l'"
  then consider "l < l'" | "l' < l" by linarith
  then show False
    using h by cases (auto simp: hole_def)
qed

lemma hole_after:
  assumes "hole bs p' l'" "\<forall>k \<in> {p..<pn}. page bs k" "p \<le> p'"
  shows "pn \<le> p'"
proof (rule ccontr)
  assume "\<not> pn \<le> p'"
  then have "page bs p'" using assms(2,3) by simp
  with assms(1) show False by (auto simp: hole_def)
qed

lemma hole_inside:
  assumes "hole bs p' l'" "\<forall>k \<in> {pn..<e}. \<not> page bs k" "pn < p'"
  shows "e \<le> p'"
proof (rule ccontr)
  assume "\<not> e \<le> p'"
  then have "p' - 1 \<in> {pn..<e}" using assms(3) unfolding atLeastLessThan_iff by linarith
  then have "\<not> page bs (p' - 1)" using assms(2) by blast
  with assms(1,3) show False by (auto simp: hole_def)
qed

lemma searched_step:
  assumes "searched bs n p best best_len" "hole bs pn l" "\<forall>k \<in> {p..<pn}. page bs k" "p \<le> pn" "0 < pn" "pn + l < ZEND_MM_PAGES"
  shows "n < l \<Longrightarrow> l < best_len \<Longrightarrow> searched bs n (pn + l) (int pn) l"
    "\<not> (n \<le> l \<and> l < best_len) \<Longrightarrow> searched bs n (pn + l) best best_len"
    "l = n \<Longrightarrow> best_hole bs n pn l"
proof -
  have free: "\<forall>k \<in> {pn..<pn + l}. \<not> page bs k" using assms(2) by (simp add: hole_def)
  have later: "p' < p \<or> p' = pn \<and> l' = l \<or> pn + l \<le> p'" if "hole bs p' l'" for p' l'
    using hole_after [OF that assms(3)] hole_inside [OF that free] hole_unique [OF that] assms(2) by fastforce
  have l: "0 < l" using assms(2) by (simp add: hole_def)
  { assume n: "n < l" "l < best_len"
    have "l < l' \<or> l = l' \<and> pn \<le> p'" if "hole bs p' l'" "n \<le> l'" "p' < pn + l" for p' l'
      using later [OF that(1)] that assms(1) n by (fastforce simp: searched_def split: if_splits)
    then show "searched bs n (pn + l) (int pn) l" using assms(2,5,6) n l by (simp add: searched_def) }
  { assume no: "\<not> (n \<le> l \<and> l < best_len)"
    show "searched bs n (pn + l) best best_len"
    proof (cases "best > 0")
      case True
      have "best_len < l' \<or> best_len = l' \<and> nat best \<le> p'" if "hole bs p' l'" "n \<le> l'" "p' < pn + l" for p' l'
        using later [OF that(1)] that assms(1,4) no True by (auto simp: searched_def)
      then show ?thesis using assms(1,4) True by (simp add: searched_def)
    next
      case False
      have "pn + l \<le> p'" if "hole bs p' l'" "n \<le> l'" for p' l'
      proof -
        have "\<not> p' < p" "best_len = ZEND_MM_PAGES" using that assms(1) False by (auto simp: searched_def not_less)
        then show ?thesis using later [OF that(1)] that(2) no assms(6) by auto
      qed
      then show ?thesis using assms(1) False unfolding searched_def if_not_P [OF False] by blast
    qed }
  { assume n: "l = n"
    have "l < l' \<or> l = l' \<and> pn \<le> p'" if "hole bs p' l'" "n \<le> l'" for p' l'
      using later [OF that(1)] that assms(1,4) n by (fastforce simp: searched_def split: if_splits)
    then show "best_hole bs n pn l" using assms(2) n by (simp add: best_hole_def) }
qed

lemma best_result:
  assumes "searched bs n p best best_len" "new_tail bs t0 t" "\<And>p' l'. hole bs p' l' \<Longrightarrow> n \<le> l' \<Longrightarrow> p' < p \<or> best > 0 \<and> (best_len < l' \<or> best_len = l' \<and> nat best \<le> p')"
    "best > 0 \<Longrightarrow> nat best + best_len \<le> t"
  shows "search_result bs t0 n (if best > 0 then Some (nat best) else None, t)"
proof (cases "best > 0")
  case True
  have "best_len < l' \<or> best_len = l' \<and> nat best \<le> p'" if "hole bs p' l'" "n \<le> l'" for p' l'
    using assms(3) [OF that] that assms(1) True by (auto simp: searched_def)
  then have "best_hole bs n (nat best) best_len" using assms(1) True by (simp add: best_hole_def searched_def)
  moreover have "nat best + n \<le> t" using assms(1,4) True by (simp add: searched_def)
  ultimately show ?thesis using True assms(2) by (auto simp: search_result_def)
next
  case False
  have "l' < n" if "hole bs p' l'" for p' l'
    using assms(3) [OF that] that assms(1) False by (force simp: searched_def not_less)
  then show ?thesis using False assms(2) by (simp add: search_result_def)
qed

lemma tail_free:
  assumes "tail_ok bs t" "pn < i" "t \<le> i \<or> i = ZEND_MM_PAGES" "\<forall>k \<in> {pn..<i}. \<not> page bs k"
  shows "\<forall>k \<in> {pn..<ZEND_MM_PAGES}. \<not> page bs k"
proof (intro ballI notI)
  fix k assume k: "k \<in> {pn..<ZEND_MM_PAGES}" "page bs k"
  then have "i \<le> k" using assms(4) by (meson atLeastLessThan_iff not_le)
  then have t: "t \<le> i" using assms(3) k(1) by auto
  have "t \<le> k" "k < ZEND_MM_PAGES" using t k(1) \<open>i \<le> k\<close> by auto
  then have "\<forall>j \<in> {t - 1..k}. page bs j" using assms(1) k(2) unfolding tail_ok_def by blast
  moreover have "i - 1 \<in> {t - 1..k}" using t \<open>i \<le> k\<close> by auto
  moreover have "i - 1 \<in> {pn..<i}" using assms(2) by auto
  ultimately show False using assms(4) by blast
qed

lemma hole_before_tail:
  assumes "tail_ok bs t" "hole bs p l" "p + l < ZEND_MM_PAGES"
  shows "p + l \<le> t"
proof (rule ccontr)
  assume "\<not> p + l \<le> t"
  moreover have l: "page bs (p + l)" "0 < l" using assms(2,3) by (auto simp: hole_def)
  ultimately have "t \<le> p + l" "p + l < ZEND_MM_PAGES" "page bs (p + l)" using assms(3) by auto
  then have "\<forall>j \<in> {t - 1..p + l}. page bs j" using assms(1) unfolding tail_ok_def by blast
  moreover have "p + l - 1 \<in> {t - 1..p + l}" "\<not> page bs (p + l - 1)"
    using \<open>\<not> p + l \<le> t\<close> l(2) assms(2) by (auto simp: hole_def)
  ultimately show False by blast
qed

lemma tail_ok_free: "\<forall>k \<in> {t..<ZEND_MM_PAGES}. \<not> page bs k \<Longrightarrow> 0 < t \<Longrightarrow> t \<le> ZEND_MM_PAGES \<Longrightarrow> tail_ok bs t"
  by (auto simp: tail_ok_def)

lemma new_tail_ok: "tail_ok bs t \<Longrightarrow> new_tail bs t t' \<Longrightarrow> tail_ok bs t'"
  by (auto simp: new_tail_def intro: tail_ok_free)

lemma best_fit_ok:
  assumes "64 * length bs = ZEND_MM_PAGES" "page bs 0" "0 < n" "tail_ok bs t"
  shows "at_word bs (\<lambda>k. page bs k \<or> k < p) i tmp ws \<Longrightarrow> p \<le> i + 64 \<Longrightarrow> page bs p \<Longrightarrow> p < ZEND_MM_PAGES \<Longrightarrow>
    \<forall>k \<in> {p..<i}. page bs k \<Longrightarrow> searched bs n p best best_len \<Longrightarrow>
    search_result bs t n (best_fit n t best best_len i tmp ws)"
proof (induction "ZEND_MM_PAGES - p" arbitrary: p i tmp ws best best_len rule: less_induct)
  case less
  let ?P = "\<lambda>k. page bs k \<or> k < p"
  have P: "?P k = page bs k" if "i + 64 \<le> k" for k using that less.prems(2,3) by (cases "k = p") auto
  have run: "\<forall>k \<in> {p..<i}. ?P k" using less.prems(5) by blast
  note sa = skip_allocated_ok [OF less.prems(1) P assms(1) run]
  show ?case
  proof (cases "skip_allocated i tmp ws")
    case None
    then have all: "\<forall>k \<in> {p..<ZEND_MM_PAGES}. page bs k" using sa by auto
    have "p' < p" if "hole bs p' l'" for p' l'
      using hole_after [OF that all] that by (fastforce simp: hole_def)
    moreover have "nat best + best_len \<le> t" if "best > 0"
      using less.prems(6) that assms(4) hole_before_tail by (auto simp: searched_def)
    ultimately show ?thesis
      using None best_result [OF less.prems(6), of t t] by (subst best_fit.simps) (simp add: new_tail_def)
  next
    case (Some s)
    obtain i1 t1 ws1 where s: "s = (i1, t1, ws1)" by (cases s)
    have w1: "at_word bs ?P i1 t1 ws1" "i \<le> i1" "t1 \<noteq> - 1" "\<forall>k \<in> {p..<i1}. ?P k" using sa Some s by auto
    define pn where "pn = i1 + zend_mm_bitset_nts t1"
    note nts = nts_correct [OF w1(3)]
    have bits: "bit t1 j = ?P (i1 + j)" if "j < 64" for j using w1(1) that by (auto simp: at_word_def)
    have np: "\<not> page bs pn" "p < pn" using bits nts less.prems(3) unfolding pn_def by (auto simp: not_less order.order_iff_strict)
    have before: "?P k" if k: "k \<in> {p..<pn}" for k
    proof (cases "k < i1")
      case False
      then have "k - i1 < zend_mm_bitset_nts t1" "i1 + (k - i1) = k" using k unfolding pn_def by auto
      then show ?thesis using nts bits [of "k - i1"] by auto
    qed (use k w1(4) in simp)
    then have pages: "\<forall>k \<in> {p..<pn}. page bs k" by auto
    let ?Q = "\<lambda>k. page bs k \<and> pn < k"
    let ?t = "t1 AND (t1 + 1)"
    have "bit ?t j = ?Q (i1 + j)" if "j < 64" for j
      using bits [OF that] np(2) unfolding clear_low_ones [OF w1(3)] pn_def by auto
    then have w2: "at_word bs ?Q i1 ?t ws1" using w1(1) by (auto simp: at_word_def)
    have Q: "?Q k = page bs k" if "i1 + 64 \<le> k" for k using that nts unfolding pn_def by auto
    have pn64: "pn < i1 + 64" using nts by (simp add: pn_def)
    have none: "\<forall>k \<in> {pn..<i1}. \<not> ?Q k" by (auto simp: pn_def)
    have i1: "i1 + 64 \<le> ZEND_MM_PAGES" using w1(1) assms(1) by (auto simp: at_word_def)
    note sf = skip_free_ok [OF w2 Q assms(1) none pn64, of t]
    have start: "0 < pn" "page bs (pn - 1)" using np(2) pages by auto
    show ?thesis
    proof (cases "skip_free t i1 ?t ws1")
      case None
      then obtain i' where i': "pn < i'" "t \<le> i' \<or> i' = ZEND_MM_PAGES" "i' \<le> ZEND_MM_PAGES" "\<forall>k \<in> {pn..<i'}. \<not> page bs k"
        using sf np(1) by (fastforce simp: order.order_iff_strict)
      note free = tail_free [OF assms(4) i'(1,2,4)]
      let ?l = "ZEND_MM_PAGES - pn"
      have h: "hole bs pn ?l" using free start i'(1,3) by (auto simp: hole_def)
      have later: "p' < p \<or> p' = pn \<and> l' = ?l" if "hole bs p' l'" for p' l'
      proof -
        have "ZEND_MM_PAGES \<le> p'" if "pn < p'" using hole_inside [OF \<open>hole bs p' l'\<close> _ that] free by blast
        moreover have "l' = ?l" if "p' = pn" using hole_unique [OF \<open>hole bs p' l'\<close>] h that by blast
        moreover have "p' < ZEND_MM_PAGES" using that by (simp add: hole_def)
        moreover have "p \<le> p' \<Longrightarrow> pn \<le> p'" by (rule hole_after [OF that pages])
        ultimately show ?thesis by linarith
      qed
      have e: "best_fit n t best best_len i tmp ws = (if n \<le> ?l \<and> ?l < best_len then (Some pn, pn + n)
          else (if best > 0 then Some (nat best) else None, pn))"
        using Some None s by (subst best_fit.simps) (simp add: Let_def pn_def)
      show ?thesis
      proof (cases "n \<le> ?l \<and> ?l < best_len")
        case True
        have "?l < l' \<or> ?l = l' \<and> pn \<le> p'" if "hole bs p' l'" "n \<le> l'" for p' l'
          using later [OF that(1)] less.prems(6) that True by (fastforce simp: searched_def split: if_splits)
        then have "best_hole bs n pn ?l" using h True by (simp add: best_hole_def)
        moreover have "new_tail bs t (pn + n)" using free True assms(3) i'(1,3) by (auto simp: new_tail_def)
        ultimately show ?thesis using True start(1) unfolding e by (auto simp: search_result_def)
      next
        case False
        have "new_tail bs t pn" using free start(1) i'(1,3) by (auto simp: new_tail_def)
        moreover have "p' < p \<or> best > 0 \<and> (best_len < l' \<or> best_len = l' \<and> nat best \<le> p')" if "hole bs p' l'" "n \<le> l'" for p' l'
          using later [OF that(1)] that(2) False less.prems(6) np(2) start(1) less.prems(4)
          by (auto simp: searched_def split: if_splits)
        moreover have "nat best + best_len \<le> pn" if "best > 0" using less.prems(6) that np(2) by (auto simp: searched_def)
        ultimately show ?thesis unfolding e if_not_P [OF False] by (rule best_result [OF less.prems(6)])
      qed
    next
      case (Some s2)
      obtain i2 t2 ws2 where s2: "s2 = (i2, t2, ws2)" by (cases s2)
      have w3: "at_word bs ?Q i2 t2 ws2" "i1 \<le> i2" "t2 \<noteq> 0" "\<forall>k \<in> {pn..<i2}. \<not> ?Q k" using sf Some s2 by auto
      note ntz = ntz_correct [OF w3(3)]
      define e where "e = i2 + zend_ulong_ntz t2"
      have bits2: "bit t2 j = ?Q (i2 + j)" if "j < 64" for j using w3(1) that by (auto simp: at_word_def)
      have pe: "page bs e" "pn < e" using bits2 ntz unfolding e_def by auto
      have i2: "i2 + 64 \<le> ZEND_MM_PAGES" using w3(1) assms(1) by (auto simp: at_word_def)
      have free: "\<not> page bs k" if k: "k \<in> {pn..<e}" for k
      proof (cases "k = pn \<or> k < i2")
        case False
        then have "k - i2 < zend_ulong_ntz t2" "i2 + (k - i2) = k" using k unfolding e_def by auto
        then have "\<not> ?Q k" using bits2 [of "k - i2"] ntz by auto
        then show ?thesis using False k by auto
      qed (use np(1) w3(4) k in force)
      have el: "e < ZEND_MM_PAGES" using ntz i2 by (simp add: e_def)
      have h: "hole bs pn (e - pn)" using pe free start el by (auto simp: hole_def)
      note st = searched_step [OF less.prems(6) h pages _ start(1)]
      have pe': "pn + (e - pn) = e" using pe(2) by simp
      have rec: "search_result bs t n (best_fit n t b bl i2 (t2 OR (t2 - 1)) ws2)" if "searched bs n e b bl" for b bl
      proof (rule less.hyps [where p = e])
        show "ZEND_MM_PAGES - e < ZEND_MM_PAGES - p" using el pe(2) np(2) by simp
        have "bit (t2 OR (t2 - 1)) j = (page bs (i2 + j) \<or> i2 + j < e)" if "j < 64" for j
          using bits2 [OF that] free np(2) pe(2) unfolding fill_low_zeros [OF w3(3)] e_def by (auto simp: not_less)
        then show "at_word bs (\<lambda>k. page bs k \<or> k < e) i2 (t2 OR (t2 - 1)) ws2" using w3(1) by (auto simp: at_word_def)
        show "e \<le> i2 + 64" "\<forall>k \<in> {e..<i2}. page bs k" using ntz by (auto simp: e_def)
      qed (use pe el that in auto)
      have eq: "best_fit n t best best_len i tmp ws = (if e - pn = n then (Some pn, t)
          else if n \<le> e - pn \<and> e - pn < best_len then best_fit n t (int pn) (e - pn) i2 (t2 OR (t2 - 1)) ws2
          else best_fit n t best best_len i2 (t2 OR (t2 - 1)) ws2)"
        using \<open>skip_allocated i tmp ws = Some s\<close> Some s s2 by (subst best_fit.simps) (simp add: Let_def pn_def e_def)
      show ?thesis
      proof (cases "e - pn = n")
        case True
        then have "best_hole bs n pn (e - pn)" using st(3) pe' el np(2) by simp
        moreover have "pn + n \<le> t" using hole_before_tail [OF assms(4) h] pe' el True by simp
        ultimately show ?thesis using True start(1) unfolding eq by (auto simp: search_result_def new_tail_def)
      next
        case False
        then show ?thesis unfolding eq using rec st(1,2) pe' el np(2) by simp
      qed
    qed
  qed
qed

lemma search_pages_ok:
  assumes "64 * length bs = ZEND_MM_PAGES" "page bs 0" "0 < n" "tail_ok bs t"
  shows "search_result bs t n (search_pages n t bs)"
  unfolding search_pages_def
proof (rule best_fit_ok [OF assms, where p = 0])
  have "0 < length bs" using assms(1) by (simp add: ZEND_MM_PAGES_def)
  then show "at_word bs (\<lambda>k. page bs k \<or> k < 0) 0 (bs ! 0) (drop 1 bs)"
    unfolding at_word_def by (intro exI [of _ 0]) (simp add: page_def)
qed (use assms(2) in \<open>auto simp: searched_def ZEND_MM_PAGES_def\<close>)

end
