(* ===== verification/Zend_Mm.thy ===== *)
theory Zend_Mm
  imports Zend_Mm_Search Complex_Main
begin

section \<open>The memory manager: chunks, pages and small blocks (Zend/zend\_alloc.c)\<close>

text \<open>
  The memory of the manager, not that of its users: the chunk headers by the address of the chunk,
  the link in the first word of a free small block, and the nodes of the list of huge blocks.  An
  address is a number, \<open>0\<close> is \<open>NULL\<close>.  The functions of the operating system are arguments over a
  state \<open>'os\<close>.  Sizes are natural numbers.  \<open>double\<close>s are rational numbers.  The model is of the
  release build on a POSIX system without custom storage or a custom heap.
\<close>

definition ZEND_MM_CHUNK_SIZE :: nat where "ZEND_MM_CHUNK_SIZE = 2 * 1024 * 1024"
definition ZEND_MM_PAGE_SIZE :: nat where "ZEND_MM_PAGE_SIZE = 4 * 1024"
definition ZEND_MM_FIRST_PAGE :: nat where "ZEND_MM_FIRST_PAGE = 1"
definition ZEND_MM_MAX_SMALL_SIZE :: nat where "ZEND_MM_MAX_SMALL_SIZE = 3072"
definition ZEND_MM_MAX_LARGE_SIZE :: nat where
  "ZEND_MM_MAX_LARGE_SIZE = ZEND_MM_CHUNK_SIZE - ZEND_MM_PAGE_SIZE * ZEND_MM_FIRST_PAGE"
definition ZEND_MM_BINS :: nat where "ZEND_MM_BINS = 30"
definition REAL_PAGE_SIZE :: nat where "REAL_PAGE_SIZE = ZEND_MM_PAGE_SIZE"

definition bin_data_size :: "nat list" where
  "bin_data_size = [8, 16, 24, 32, 40, 48, 56, 64, 80, 96, 112, 128, 160, 192, 224, 256, 320, 384, 448, 512, 640, 768, 896,
     1024, 1280, 1536, 1792, 2048, 2560, 3072]"

definition bin_elements :: "nat list" where
  "bin_elements = [512, 256, 170, 128, 102, 85, 73, 64, 51, 42, 36, 32, 25, 21, 18, 16, 64, 32, 9, 8, 32, 16, 9, 8, 16, 8, 16, 8,
     8, 4]"

definition bin_pages :: "nat list" where
  "bin_pages = [1, 1, 1, 1, 1, 1, 1, 1, 1, 1, 1, 1, 1, 1, 1, 1, 5, 3, 1, 1, 5, 3, 2, 2, 5, 3, 7, 4, 5, 3]"

text \<open>Alignments are powers of two, so the masks of the C code are remainders.\<close>

definition ZEND_MM_ALIGNED_OFFSET :: "nat \<Rightarrow> nat \<Rightarrow> nat" where
  "ZEND_MM_ALIGNED_OFFSET sz alignment = sz mod alignment"

definition ZEND_MM_ALIGNED_BASE :: "nat \<Rightarrow> nat \<Rightarrow> nat" where
  "ZEND_MM_ALIGNED_BASE sz alignment = sz - sz mod alignment"

definition ZEND_MM_SIZE_TO_NUM :: "nat \<Rightarrow> nat \<Rightarrow> nat" where
  "ZEND_MM_SIZE_TO_NUM sz alignment = (sz + (alignment - 1)) div alignment"

definition ZEND_MM_ALIGNED_SIZE_EX :: "nat \<Rightarrow> nat \<Rightarrow> nat" where
  "ZEND_MM_ALIGNED_SIZE_EX sz alignment = (sz + alignment - 1) div alignment * alignment"

subsection \<open>The service word of a page\<close>

definition ZEND_MM_IS_LRUN :: u32 where "ZEND_MM_IS_LRUN = 0x40000000"
definition ZEND_MM_IS_SRUN :: u32 where "ZEND_MM_IS_SRUN = 0x80000000"

definition ZEND_MM_LRUN_PAGES :: "u32 \<Rightarrow> nat" where "ZEND_MM_LRUN_PAGES info = unat (info AND 0x3ff)"
definition ZEND_MM_SRUN_BIN_NUM :: "u32 \<Rightarrow> nat" where "ZEND_MM_SRUN_BIN_NUM info = unat (info AND 0x1f)"
definition ZEND_MM_SRUN_FREE_COUNTER :: "u32 \<Rightarrow> nat" where "ZEND_MM_SRUN_FREE_COUNTER info = unat (drop_bit 16 (info AND 0x01ff0000))"
definition ZEND_MM_NRUN_OFFSET :: "u32 \<Rightarrow> nat" where "ZEND_MM_NRUN_OFFSET info = unat (drop_bit 16 (info AND 0x01ff0000))"

definition ZEND_MM_LRUN :: "nat \<Rightarrow> u32" where "ZEND_MM_LRUN cnt = ZEND_MM_IS_LRUN OR of_nat cnt"
definition ZEND_MM_SRUN :: "nat \<Rightarrow> u32" where "ZEND_MM_SRUN bin_num = ZEND_MM_IS_SRUN OR of_nat bin_num"
definition ZEND_MM_SRUN_EX :: "nat \<Rightarrow> nat \<Rightarrow> u32" where
  "ZEND_MM_SRUN_EX bin_num cnt = (ZEND_MM_IS_SRUN OR of_nat bin_num) OR push_bit 16 (of_nat cnt)"
definition ZEND_MM_NRUN :: "nat \<Rightarrow> nat \<Rightarrow> u32" where
  "ZEND_MM_NRUN bin_num off = ((ZEND_MM_IS_SRUN OR ZEND_MM_IS_LRUN) OR of_nat bin_num) OR push_bit 16 (of_nat off)"

subsection \<open>Chunks and the heap\<close>

record mm_chunk =
  ch_next :: nat
  ch_prev :: nat
  ch_free_pages :: nat
  ch_free_tail :: nat
  ch_num :: nat
  ch_free_map :: "u64 list"
  ch_map :: "u32 list"

record mm_huge =
  hg_ptr :: nat
  hg_size :: nat
  hg_next :: nat

record 'os mm_os =
  os_mmap :: "nat \<Rightarrow> 'os \<Rightarrow> nat \<times> 'os"
  os_mmap_fixed :: "nat \<Rightarrow> nat \<Rightarrow> 'os \<Rightarrow> bool \<times> 'os"
  os_munmap :: "nat \<Rightarrow> nat \<Rightarrow> 'os \<Rightarrow> 'os"

record 'os mm_heap =
  hp_size :: nat
  hp_peak :: nat
  hp_free_slot :: "nat list"
  hp_real_size :: nat
  hp_real_peak :: nat
  hp_limit :: nat
  hp_overflow :: bool
  hp_huge_list :: nat
  hp_main_chunk :: nat
  hp_cached_chunks :: nat
  hp_chunks_count :: int
  hp_peak_chunks_count :: int
  hp_cached_chunks_count :: int
  hp_avg_chunks_count :: rat
  hp_last_chunks_delete_boundary :: int
  hp_last_chunks_delete_count :: int
  hp_chunk :: "nat \<Rightarrow> mm_chunk"
  hp_slot_next :: "nat \<Rightarrow> nat"
  hp_huge :: "nat \<Rightarrow> mm_huge"
  hp_copied :: "(nat \<times> nat \<times> nat) list"
  hp_os :: 'os

definition upd_chunk :: "nat \<Rightarrow> (mm_chunk \<Rightarrow> mm_chunk) \<Rightarrow> 'os mm_heap \<Rightarrow> 'os mm_heap" where
  "upd_chunk c f h = h\<lparr>hp_chunk := (hp_chunk h)(c := f (hp_chunk h c))\<rparr>"

definition zero_chunk :: mm_chunk where
  "zero_chunk = \<lparr>ch_next = 0, ch_prev = 0, ch_free_pages = 0, ch_free_tail = 0, ch_num = 0, ch_free_map = replicate 8 0,
     ch_map = replicate ZEND_MM_PAGES 0\<rparr>"

definition ZEND_MM_PAGE_ADDR :: "nat \<Rightarrow> nat \<Rightarrow> nat" where
  "ZEND_MM_PAGE_ADDR chunk page_num = chunk + page_num * ZEND_MM_PAGE_SIZE"

text \<open>Memory that is newly mapped is zero.\<close>

definition zend_mm_chunk_alloc_int :: "'os mm_os \<Rightarrow> nat \<Rightarrow> nat \<Rightarrow> 'os \<Rightarrow> nat \<times> 'os" where
  "zend_mm_chunk_alloc_int os sz alignment s =
     (let (ptr, s) = os_mmap os sz s
      in if ptr = 0 then (0, s)
         else if ZEND_MM_ALIGNED_OFFSET ptr alignment = 0 then (ptr, s)
         else
           (let s = os_munmap os ptr sz s;
                (ptr, s) = os_mmap os (sz + alignment - REAL_PAGE_SIZE) s;
                off = ZEND_MM_ALIGNED_OFFSET ptr alignment;
                (ptr, alignment, s) =
                  (if off \<noteq> 0 then
                     (let off = alignment - off in (ptr + off, alignment - off, os_munmap os ptr off s))
                   else (ptr, alignment, s));
                s = (if alignment > REAL_PAGE_SIZE then os_munmap os (ptr + sz) (alignment - REAL_PAGE_SIZE) s else s)
            in (ptr, s)))"

definition zend_mm_chunk_alloc :: "'os mm_os \<Rightarrow> nat \<Rightarrow> nat \<Rightarrow> 'os mm_heap \<Rightarrow> nat \<times> 'os mm_heap" where
  "zend_mm_chunk_alloc os sz alignment h =
     (let (ptr, s) = zend_mm_chunk_alloc_int os sz alignment (hp_os h)
      in (ptr, h\<lparr>hp_os := s\<rparr>))"

definition zend_mm_chunk_free :: "'os mm_os \<Rightarrow> nat \<Rightarrow> nat \<Rightarrow> 'os mm_heap \<Rightarrow> 'os mm_heap" where
  "zend_mm_chunk_free os a sz h = h\<lparr>hp_os := os_munmap os a sz (hp_os h)\<rparr>"

definition zend_mm_chunk_truncate :: "'os mm_os \<Rightarrow> nat \<Rightarrow> nat \<Rightarrow> nat \<Rightarrow> 'os mm_heap \<Rightarrow> 'os mm_heap" where
  "zend_mm_chunk_truncate os a old_size new_size h = h\<lparr>hp_os := os_munmap os (a + new_size) (old_size - new_size) (hp_os h)\<rparr>"

definition zend_mm_chunk_extend :: "'os mm_os \<Rightarrow> nat \<Rightarrow> nat \<Rightarrow> nat \<Rightarrow> 'os mm_heap \<Rightarrow> bool \<times> 'os mm_heap" where
  "zend_mm_chunk_extend os a old_size new_size h =
     (let (ok, s) = os_mmap_fixed os (a + old_size) (new_size - old_size) (hp_os h)
      in (ok, h\<lparr>hp_os := s\<rparr>))"

text \<open>The chunks in use are a ring of links in both directions.\<close>

definition init_pages :: "mm_chunk \<Rightarrow> mm_chunk" where
  "init_pages c = c\<lparr>ch_free_pages := ZEND_MM_PAGES - ZEND_MM_FIRST_PAGE, ch_free_tail := ZEND_MM_FIRST_PAGE,
     ch_free_map := (ch_free_map c)[0 := push_bit ZEND_MM_FIRST_PAGE 1 - 1], ch_map := (ch_map c)[0 := ZEND_MM_LRUN ZEND_MM_FIRST_PAGE]\<rparr>"

definition zend_mm_chunk_init :: "nat \<Rightarrow> 'os mm_heap \<Rightarrow> 'os mm_heap" where
  "zend_mm_chunk_init chunk h =
     (let h = upd_chunk chunk (\<lambda>c. c\<lparr>ch_next := hp_main_chunk h\<rparr>) h;
          h = upd_chunk chunk (\<lambda>c. c\<lparr>ch_prev := ch_prev (hp_chunk h (hp_main_chunk h))\<rparr>) h;
          h = upd_chunk (ch_prev (hp_chunk h chunk)) (\<lambda>c. c\<lparr>ch_next := chunk\<rparr>) h;
          h = upd_chunk (ch_next (hp_chunk h chunk)) (\<lambda>c. c\<lparr>ch_prev := chunk\<rparr>) h;
          h = upd_chunk chunk (\<lambda>c. c\<lparr>ch_num := ch_num (hp_chunk h (ch_prev (hp_chunk h chunk))) + 1\<rparr>) h
      in upd_chunk chunk init_pages h)"

subsection \<open>Freeing pages\<close>

definition unlink_chunk :: "nat \<Rightarrow> 'os mm_heap \<Rightarrow> 'os mm_heap" where
  "unlink_chunk chunk h =
     (let h = upd_chunk (ch_next (hp_chunk h chunk)) (\<lambda>c. c\<lparr>ch_prev := ch_prev (hp_chunk h chunk)\<rparr>) h
      in upd_chunk (ch_prev (hp_chunk h chunk)) (\<lambda>c. c\<lparr>ch_next := ch_next (hp_chunk h chunk)\<rparr>) h)"

definition zend_mm_delete_chunk :: "'os mm_os \<Rightarrow> nat \<Rightarrow> 'os mm_heap \<Rightarrow> 'os mm_heap" where
  "zend_mm_delete_chunk os chunk h =
     (let h = unlink_chunk chunk h;
          h = h\<lparr>hp_chunks_count := hp_chunks_count h - 1\<rparr>
      in if of_int (hp_chunks_count h + hp_cached_chunks_count h) < hp_avg_chunks_count h + 1 / 10 \<or>
            hp_chunks_count h = hp_last_chunks_delete_boundary h \<and> hp_last_chunks_delete_count h \<ge> 4
         then (let h = h\<lparr>hp_cached_chunks_count := hp_cached_chunks_count h + 1\<rparr>;
                   h = upd_chunk chunk (\<lambda>c. c\<lparr>ch_next := hp_cached_chunks h\<rparr>) h
               in h\<lparr>hp_cached_chunks := chunk\<rparr>)
         else
           (let h = h\<lparr>hp_real_size := hp_real_size h - ZEND_MM_CHUNK_SIZE\<rparr>;
                h = (if hp_cached_chunks h = 0 then
                       if hp_chunks_count h \<noteq> hp_last_chunks_delete_boundary h
                       then h\<lparr>hp_last_chunks_delete_boundary := hp_chunks_count h, hp_last_chunks_delete_count := 0\<rparr>
                       else h\<lparr>hp_last_chunks_delete_count := hp_last_chunks_delete_count h + 1\<rparr>
                     else h)
            in if hp_cached_chunks h = 0 \<or> ch_num (hp_chunk h chunk) > ch_num (hp_chunk h (hp_cached_chunks h))
               then zend_mm_chunk_free os chunk ZEND_MM_CHUNK_SIZE h
               else
                 (let h = upd_chunk chunk (\<lambda>c. c\<lparr>ch_next := ch_next (hp_chunk h (hp_cached_chunks h))\<rparr>) h;
                      h = zend_mm_chunk_free os (hp_cached_chunks h) ZEND_MM_CHUNK_SIZE h
                  in h\<lparr>hp_cached_chunks := chunk\<rparr>)))"

definition zend_mm_free_pages_ex :: "'os mm_os \<Rightarrow> nat \<Rightarrow> nat \<Rightarrow> nat \<Rightarrow> bool \<Rightarrow> 'os mm_heap \<Rightarrow> 'os mm_heap" where
  "zend_mm_free_pages_ex os chunk page_num pages_count free_chunk h =
     (let h = upd_chunk chunk (\<lambda>c. c\<lparr>ch_free_pages := ch_free_pages c + pages_count,
                ch_free_map := zend_mm_bitset_reset_range (ch_free_map c) page_num pages_count,
                ch_map := (ch_map c)[page_num := 0],
                ch_free_tail := (if ch_free_tail c = page_num + pages_count then page_num else ch_free_tail c)\<rparr>) h
      in if free_chunk \<and> ch_free_pages (hp_chunk h chunk) = ZEND_MM_PAGES - ZEND_MM_FIRST_PAGE
         then zend_mm_delete_chunk os chunk h else h)"

definition zend_mm_free_pages :: "'os mm_os \<Rightarrow> nat \<Rightarrow> nat \<Rightarrow> nat \<Rightarrow> 'os mm_heap \<Rightarrow> 'os mm_heap" where
  "zend_mm_free_pages os chunk page_num pages_count h = zend_mm_free_pages_ex os chunk page_num pages_count True h"

definition zend_mm_free_large :: "'os mm_os \<Rightarrow> nat \<Rightarrow> nat \<Rightarrow> nat \<Rightarrow> 'os mm_heap \<Rightarrow> 'os mm_heap" where
  "zend_mm_free_large os chunk page_num pages_count h =
     zend_mm_free_pages os chunk page_num pages_count (h\<lparr>hp_size := hp_size h - pages_count * ZEND_MM_PAGE_SIZE\<rparr>)"

end
