(* ===== verification/Zend_Mm_Alloc.thy ===== *)
theory Zend_Mm_Alloc
  imports Zend_Mm
begin

section \<open>The memory manager: allocation and collection (Zend/zend\_alloc.c)\<close>

text \<open>
  A loop that follows links is a partial function; \<open>None\<close> is a run that does not end.
  \<open>zend_mm_safe_error\<close> raises a fatal error and does not return.
\<close>

definition ends :: "'a option \<Rightarrow> 'a res" where
  "ends x = (case x of None \<Rightarrow> Inl UB | Some y \<Rightarrow> Inr y)"

subsection \<open>Collecting free small runs\<close>

text \<open>The first page of the run a free block lies in.\<close>

definition run_page :: "nat \<Rightarrow> 'os mm_heap \<Rightarrow> nat" where
  "run_page p h =
     (let page_num = ZEND_MM_ALIGNED_OFFSET p ZEND_MM_CHUNK_SIZE div ZEND_MM_PAGE_SIZE;
          info = ch_map (hp_chunk h (ZEND_MM_ALIGNED_BASE p ZEND_MM_CHUNK_SIZE)) ! page_num
      in if info AND ZEND_MM_IS_LRUN \<noteq> 0 then page_num - ZEND_MM_NRUN_OFFSET info else page_num)"

definition run_info :: "nat \<Rightarrow> 'os mm_heap \<Rightarrow> u32" where
  "run_info p h = ch_map (hp_chunk h (ZEND_MM_ALIGNED_BASE p ZEND_MM_CHUNK_SIZE)) ! run_page p h"

definition set_map :: "nat \<Rightarrow> nat \<Rightarrow> u32 \<Rightarrow> 'os mm_heap \<Rightarrow> 'os mm_heap" where
  "set_map chunk page_num info = upd_chunk chunk (\<lambda>c. c\<lparr>ch_map := (ch_map c)[page_num := info]\<rparr>)"

partial_function (option) count_free :: "nat \<Rightarrow> nat \<Rightarrow> bool \<Rightarrow> 'os mm_heap \<Rightarrow> (bool \<times> 'os mm_heap) option" where
  "count_free i p has_free_pages h =
     (if p = 0 then Some (has_free_pages, h)
      else
        (let free_counter = ZEND_MM_SRUN_FREE_COUNTER (run_info p h) + 1;
             has_free_pages = (has_free_pages \<or> free_counter = bin_elements ! i);
             h = set_map (ZEND_MM_ALIGNED_BASE p ZEND_MM_CHUNK_SIZE) (run_page p h) (ZEND_MM_SRUN_EX i free_counter) h
         in count_free i (hp_slot_next h p) has_free_pages h))"

text \<open>\<open>q\<close> is the place of the link to \<open>p\<close>: the head of the list, or the first word of a block.\<close>

definition set_link :: "nat \<Rightarrow> nat option \<Rightarrow> nat \<Rightarrow> 'os mm_heap \<Rightarrow> 'os mm_heap" where
  "set_link i q p h = (case q of None \<Rightarrow> h\<lparr>hp_free_slot := (hp_free_slot h)[i := p]\<rparr>
     | Some a \<Rightarrow> h\<lparr>hp_slot_next := (hp_slot_next h)(a := p)\<rparr>)"

partial_function (option) drop_free :: "nat \<Rightarrow> nat option \<Rightarrow> nat \<Rightarrow> 'os mm_heap \<Rightarrow> 'os mm_heap option" where
  "drop_free i q p h =
     (if p = 0 then Some h
      else if ZEND_MM_SRUN_FREE_COUNTER (run_info p h) = bin_elements ! i
      then (let n = hp_slot_next h p in drop_free i q n (set_link i q n h))
      else drop_free i (Some p) (hp_slot_next h p) h)"

definition gc_bin :: "nat \<Rightarrow> 'os mm_heap \<Rightarrow> 'os mm_heap option" where
  "gc_bin i h = Option.bind (count_free i (hp_free_slot h ! i) False h) (\<lambda>(has_free_pages, h).
     if \<not> has_free_pages then Some h else drop_free i None (hp_free_slot h ! i) h)"

partial_function (option) gc_pages :: "'os mm_os \<Rightarrow> nat \<Rightarrow> nat \<Rightarrow> nat \<Rightarrow> 'os mm_heap \<Rightarrow> (nat \<times> 'os mm_heap) option" where
  "gc_pages os chunk i collected h =
     (let c = hp_chunk h chunk
      in if \<not> i < ch_free_tail c then Some (collected, h)
         else if zend_mm_bitset_is_set (ch_free_map c) i then
           (let info = ch_map c ! i
            in if info AND ZEND_MM_IS_SRUN \<noteq> 0 then
                 (let bin_num = ZEND_MM_SRUN_BIN_NUM info;
                      pages_count = bin_pages ! bin_num
                  in if ZEND_MM_SRUN_FREE_COUNTER info = bin_elements ! bin_num
                     then gc_pages os chunk (i + pages_count) (collected + pages_count)
                            (zend_mm_free_pages_ex os chunk i pages_count False h)
                     else gc_pages os chunk (i + pages_count) collected (set_map chunk i (ZEND_MM_SRUN bin_num) h))
               else gc_pages os chunk (i + ZEND_MM_LRUN_PAGES info) collected h)
         else gc_pages os chunk (i + 1) collected h)"

partial_function (option) gc_chunks :: "'os mm_os \<Rightarrow> nat \<Rightarrow> nat \<Rightarrow> 'os mm_heap \<Rightarrow> (nat \<times> 'os mm_heap) option" where
  "gc_chunks os chunk collected h =
     Option.bind (gc_pages os chunk ZEND_MM_FIRST_PAGE collected h) (\<lambda>(collected, h).
       (let next_chunk = ch_next (hp_chunk h chunk);
            h = (if ch_free_pages (hp_chunk h chunk) = ZEND_MM_PAGES - ZEND_MM_FIRST_PAGE then zend_mm_delete_chunk os chunk h else h)
        in if next_chunk = hp_main_chunk h then Some (collected, h) else gc_chunks os next_chunk collected h))"

definition zend_mm_gc :: "'os mm_os \<Rightarrow> 'os mm_heap \<Rightarrow> (nat \<times> 'os mm_heap) option" where
  "zend_mm_gc os h =
     Option.bind (fold (\<lambda>i s. Option.bind s (gc_bin i)) [0..<ZEND_MM_BINS] (Some h)) (\<lambda>h.
       map_option (\<lambda>(collected, h). (collected * ZEND_MM_PAGE_SIZE, h)) (gc_chunks os (hp_main_chunk h) 0 h))"

subsection \<open>Large runs\<close>

text \<open>The walk over the ring: the chunk and the page found, if any, and the number of steps.\<close>

partial_function (option) find_run :: "nat \<Rightarrow> nat \<Rightarrow> nat \<Rightarrow> 'os mm_heap \<Rightarrow> ((nat \<times> nat) option \<times> nat \<times> 'os mm_heap) option" where
  "find_run pages_count chunk steps h =
     (let c = hp_chunk h chunk;
          (found, h) =
            (if ch_free_pages c < pages_count then (None, h)
             else (let (page_num, free_tail) = search_pages pages_count (ch_free_tail c) (ch_free_map c)
                   in (page_num, upd_chunk chunk (\<lambda>c. c\<lparr>ch_free_tail := free_tail\<rparr>) h)))
      in case found of
           Some page_num \<Rightarrow> Some (Some (chunk, page_num), steps, h)
         | None \<Rightarrow>
             (if ch_next (hp_chunk h chunk) = hp_main_chunk h then Some (None, steps, h)
              else find_run pages_count (ch_next (hp_chunk h chunk)) (steps + 1) h))"

definition add_real_size :: "nat \<Rightarrow> 'os mm_heap \<Rightarrow> 'os mm_heap" where
  "add_real_size sz h = h\<lparr>hp_real_size := hp_real_size h + sz, hp_real_peak := max (hp_real_peak h) (hp_real_size h + sz)\<rparr>"

definition map_chunk :: "'os mm_os \<Rightarrow> nat \<Rightarrow> 'os mm_heap \<Rightarrow> (nat \<times> 'os mm_heap) res" where
  "map_chunk os sz h =
     (let (ptr, h) = zend_mm_chunk_alloc os sz ZEND_MM_CHUNK_SIZE h
      in if ptr \<noteq> 0 then Inr (ptr, h)
         else rbind (ends (zend_mm_gc os h)) (\<lambda>(collected, h).
           if collected = 0 then Inl E_ERROR
           else (let (ptr, h) = zend_mm_chunk_alloc os sz ZEND_MM_CHUNK_SIZE h
                 in if ptr \<noteq> 0 then Inr (ptr, h) else Inl E_ERROR)))"

partial_function (option) get_chunk :: "'os mm_os \<Rightarrow> 'os mm_heap \<Rightarrow> (nat \<times> 'os mm_heap) res option" where
  "get_chunk os h =
     (if hp_cached_chunks h \<noteq> 0 then
        (let chunk = hp_cached_chunks h
         in Some (Inr (chunk, h\<lparr>hp_cached_chunks_count := hp_cached_chunks_count h - 1,
              hp_cached_chunks := ch_next (hp_chunk h chunk)\<rparr>)))
      else
        (let map_new = (\<lambda>h. rbind (map_chunk os ZEND_MM_CHUNK_SIZE h) (\<lambda>(chunk, h).
               Inr (chunk, upd_chunk chunk (\<lambda>_. zero_chunk) (add_real_size ZEND_MM_CHUNK_SIZE h))))
         in if hp_real_size h + ZEND_MM_CHUNK_SIZE > hp_limit h then
              Option.bind (zend_mm_gc os h) (\<lambda>(collected, h).
                if collected \<noteq> 0 then get_chunk os h
                else if \<not> hp_overflow h then Some (Inl E_ERROR)
                else Some (map_new h))
            else Some (map_new h)))"

definition add_chunk :: "nat \<Rightarrow> 'os mm_heap \<Rightarrow> 'os mm_heap" where
  "add_chunk chunk h =
     (let h = h\<lparr>hp_chunks_count := hp_chunks_count h + 1\<rparr>;
          h = h\<lparr>hp_peak_chunks_count := max (hp_peak_chunks_count h) (hp_chunks_count h)\<rparr>
      in zend_mm_chunk_init chunk h)"

definition move_to_head :: "nat \<Rightarrow> 'os mm_heap \<Rightarrow> 'os mm_heap" where
  "move_to_head chunk h =
     (let h = upd_chunk (ch_prev (hp_chunk h chunk)) (\<lambda>c. c\<lparr>ch_next := ch_next (hp_chunk h chunk)\<rparr>) h;
          h = upd_chunk (ch_next (hp_chunk h chunk)) (\<lambda>c. c\<lparr>ch_prev := ch_prev (hp_chunk h chunk)\<rparr>) h;
          h = upd_chunk chunk (\<lambda>c. c\<lparr>ch_next := ch_next (hp_chunk h (hp_main_chunk h))\<rparr>) h;
          h = upd_chunk chunk (\<lambda>c. c\<lparr>ch_prev := hp_main_chunk h\<rparr>) h;
          h = upd_chunk (ch_prev (hp_chunk h chunk)) (\<lambda>c. c\<lparr>ch_next := chunk\<rparr>) h
      in upd_chunk (ch_next (hp_chunk h chunk)) (\<lambda>c. c\<lparr>ch_prev := chunk\<rparr>) h)"

definition mark_run :: "nat \<Rightarrow> nat \<Rightarrow> nat \<Rightarrow> 'os mm_heap \<Rightarrow> 'os mm_heap" where
  "mark_run chunk page_num pages_count = upd_chunk chunk (\<lambda>c. c\<lparr>ch_free_pages := ch_free_pages c - pages_count,
     ch_free_map := zend_mm_bitset_set_range (ch_free_map c) page_num pages_count,
     ch_map := (ch_map c)[page_num := ZEND_MM_LRUN pages_count],
     ch_free_tail := (if page_num = ch_free_tail c then page_num + pages_count else ch_free_tail c)\<rparr>)"

definition zend_mm_alloc_pages :: "'os mm_os \<Rightarrow> nat \<Rightarrow> 'os mm_heap \<Rightarrow> (nat \<times> 'os mm_heap) res" where
  "zend_mm_alloc_pages os pages_count h =
     rbind (ends (find_run pages_count (hp_main_chunk h) 0 h)) (\<lambda>(found, steps, h).
       rbind (case found of
           Some (chunk, page_num) \<Rightarrow> Inr (chunk, page_num, h)
         | None \<Rightarrow> rbind (rbind (ends (get_chunk os h)) (\<lambda>r. r)) (\<lambda>(chunk, h).
             Inr (chunk, ZEND_MM_FIRST_PAGE, add_chunk chunk h))) (\<lambda>(chunk, page_num, h).
         (let h = (if steps > 2 \<and> pages_count < 8 then move_to_head chunk h else h)
          in Inr (ZEND_MM_PAGE_ADDR chunk page_num, mark_run chunk page_num pages_count h))))"

definition add_size :: "nat \<Rightarrow> 'os mm_heap \<Rightarrow> 'os mm_heap" where
  "add_size sz h = h\<lparr>hp_size := hp_size h + sz, hp_peak := max (hp_peak h) (hp_size h + sz)\<rparr>"

definition zend_mm_alloc_large :: "'os mm_os \<Rightarrow> nat \<Rightarrow> 'os mm_heap \<Rightarrow> (nat \<times> 'os mm_heap) res" where
  "zend_mm_alloc_large os sz h =
     (let pages_count = ZEND_MM_SIZE_TO_NUM sz ZEND_MM_PAGE_SIZE
      in rbind (zend_mm_alloc_pages os pages_count h) (\<lambda>(ptr, h).
           Inr (ptr, add_size (pages_count * ZEND_MM_PAGE_SIZE) h)))"

end
