(* ===== verification/Zend_Mm_Heap.thy ===== *)
theory Zend_Mm_Heap
  imports Zend_Mm_Alloc
begin

section \<open>The memory manager: blocks of every size (Zend/zend\_alloc.c)\<close>

text \<open>
  What \<open>memcpy\<close> copies is kept as a list of target, source and length.  The free blocks of a bin are
  linked through their first words, \<open>hp_slot_next\<close>.
\<close>

subsection \<open>Small runs\<close>

definition zend_mm_small_size_to_bit :: "nat \<Rightarrow> nat" where
  "zend_mm_small_size_to_bit sz =
     (let (n, sz) = (if sz \<le> 0x00ff then (16 - 8, sz * 2 ^ 8) else (16, sz));
          (n, sz) = (if sz \<le> 0x0fff then (n - 4, sz * 2 ^ 4) else (n, sz));
          (n, sz) = (if sz \<le> 0x3fff then (n - 2, sz * 2 ^ 2) else (n, sz))
      in if sz \<le> 0x7fff then n - 1 else n)"

definition zend_mm_small_size_to_bin :: "nat \<Rightarrow> nat" where
  "zend_mm_small_size_to_bin sz =
     (if sz \<le> 64 then (sz - (if sz \<noteq> 0 then 1 else 0)) div 8
      else
        (let t1 = sz - 1;
             t2 = zend_mm_small_size_to_bit t1 - 3;
             t1 = t1 div 2 ^ t2;
             t2 = (t2 - 3) * 4
         in t1 + t2))"

definition link_blocks :: "nat \<Rightarrow> nat \<Rightarrow> nat \<Rightarrow> 'os mm_heap \<Rightarrow> 'os mm_heap" where
  "link_blocks bin sz elements h =
     (let last = bin + sz * (elements - 1);
          next = fold (\<lambda>k nx. nx(bin + sz * k := bin + sz * (k + 1))) [1..<elements - 1] (hp_slot_next h)
      in h\<lparr>hp_slot_next := next(last := 0)\<rparr>)"

definition zend_mm_alloc_small_slow :: "'os mm_os \<Rightarrow> nat \<Rightarrow> 'os mm_heap \<Rightarrow> (nat \<times> 'os mm_heap) res" where
  "zend_mm_alloc_small_slow os bin_num h =
     rbind (zend_mm_alloc_pages os (bin_pages ! bin_num) h) (\<lambda>(bin, h).
       (let chunk = ZEND_MM_ALIGNED_BASE bin ZEND_MM_CHUNK_SIZE;
            page_num = ZEND_MM_ALIGNED_OFFSET bin ZEND_MM_CHUNK_SIZE div ZEND_MM_PAGE_SIZE;
            h = set_map chunk page_num (ZEND_MM_SRUN bin_num) h;
            h = fold (\<lambda>i. set_map chunk (page_num + i) (ZEND_MM_NRUN bin_num i)) [1..<bin_pages ! bin_num] h;
            h = h\<lparr>hp_free_slot := (hp_free_slot h)[bin_num := bin + bin_data_size ! bin_num]\<rparr>
        in Inr (bin, link_blocks bin (bin_data_size ! bin_num) (bin_elements ! bin_num) h)))"

definition zend_mm_alloc_small :: "'os mm_os \<Rightarrow> nat \<Rightarrow> 'os mm_heap \<Rightarrow> (nat \<times> 'os mm_heap) res" where
  "zend_mm_alloc_small os bin_num h =
     (let h = add_size (bin_data_size ! bin_num) h;
          p = hp_free_slot h ! bin_num
      in if p \<noteq> 0 then Inr (p, h\<lparr>hp_free_slot := (hp_free_slot h)[bin_num := hp_slot_next h p]\<rparr>)
         else zend_mm_alloc_small_slow os bin_num h)"

definition zend_mm_free_small :: "nat \<Rightarrow> nat \<Rightarrow> 'os mm_heap \<Rightarrow> 'os mm_heap" where
  "zend_mm_free_small ptr bin_num h =
     h\<lparr>hp_size := hp_size h - bin_data_size ! bin_num,
       hp_slot_next := (hp_slot_next h)(ptr := hp_free_slot h ! bin_num),
       hp_free_slot := (hp_free_slot h)[bin_num := ptr]\<rparr>"

subsection \<open>Freeing a block of a chunk\<close>

definition page_info :: "nat \<Rightarrow> 'os mm_heap \<Rightarrow> u32" where
  "page_info ptr h = ch_map (hp_chunk h (ZEND_MM_ALIGNED_BASE ptr ZEND_MM_CHUNK_SIZE)) !
     (ZEND_MM_ALIGNED_OFFSET ptr ZEND_MM_CHUNK_SIZE div ZEND_MM_PAGE_SIZE)"

definition free_in_chunk :: "'os mm_os \<Rightarrow> nat \<Rightarrow> 'os mm_heap \<Rightarrow> 'os mm_heap res" where
  "free_in_chunk os ptr h =
     (let page_offset = ZEND_MM_ALIGNED_OFFSET ptr ZEND_MM_CHUNK_SIZE;
          chunk = ZEND_MM_ALIGNED_BASE ptr ZEND_MM_CHUNK_SIZE;
          page_num = page_offset div ZEND_MM_PAGE_SIZE;
          info = page_info ptr h
      in if info AND ZEND_MM_IS_SRUN \<noteq> 0 then Inr (zend_mm_free_small ptr (ZEND_MM_SRUN_BIN_NUM info) h)
         else if ZEND_MM_ALIGNED_OFFSET page_offset ZEND_MM_PAGE_SIZE \<noteq> 0 then Inl UB
         else Inr (zend_mm_free_large os chunk page_num (ZEND_MM_LRUN_PAGES info) h))"

subsection \<open>Huge blocks\<close>

text \<open>A node of the list of huge blocks is a block of 24 bytes of its own, which is small.\<close>

definition huge_node_size :: nat where "huge_node_size = 24"

definition zend_mm_add_huge_block :: "'os mm_os \<Rightarrow> nat \<Rightarrow> nat \<Rightarrow> 'os mm_heap \<Rightarrow> 'os mm_heap res" where
  "zend_mm_add_huge_block os ptr sz h =
     rbind (zend_mm_alloc_small os (zend_mm_small_size_to_bin huge_node_size) h) (\<lambda>(list, h).
       Inr (h\<lparr>hp_huge := (hp_huge h)(list := \<lparr>hg_ptr = ptr, hg_size = sz, hg_next = hp_huge_list h\<rparr>), hp_huge_list := list\<rparr>))"

partial_function (option) find_huge :: "nat \<Rightarrow> nat option \<Rightarrow> nat \<Rightarrow> 'os mm_heap \<Rightarrow> (nat option \<times> nat) option option" where
  "find_huge ptr prev list h =
     (if list = 0 then Some None
      else if hg_ptr (hp_huge h list) = ptr then Some (Some (prev, list))
      else find_huge ptr (Some list) (hg_next (hp_huge h list)) h)"

text \<open>A block that is not in the list is a corrupted heap, which ends the process.\<close>

definition huge_node :: "nat \<Rightarrow> 'os mm_heap \<Rightarrow> (nat option \<times> nat) res" where
  "huge_node ptr h = rbind (ends (find_huge ptr None (hp_huge_list h) h)) (\<lambda>r. case r of None \<Rightarrow> Inl UB | Some n \<Rightarrow> Inr n)"

definition zend_mm_del_huge_block :: "'os mm_os \<Rightarrow> nat \<Rightarrow> 'os mm_heap \<Rightarrow> (nat \<times> 'os mm_heap) res" where
  "zend_mm_del_huge_block os ptr h =
     rbind (huge_node ptr h) (\<lambda>(prev, list).
       (let n = hg_next (hp_huge h list);
            h = (case prev of
                   Some p \<Rightarrow> h\<lparr>hp_huge := (hp_huge h)(p := (hp_huge h p)\<lparr>hg_next := n\<rparr>)\<rparr>
                 | None \<Rightarrow> h\<lparr>hp_huge_list := n\<rparr>);
            sz = hg_size (hp_huge h list)
        in rbind (free_in_chunk os list h) (\<lambda>h. Inr (sz, h))))"

definition zend_mm_get_huge_block_size :: "nat \<Rightarrow> 'os mm_heap \<Rightarrow> nat res" where
  "zend_mm_get_huge_block_size ptr h = rbind (huge_node ptr h) (\<lambda>(prev, list). Inr (hg_size (hp_huge h list)))"

definition zend_mm_change_huge_block_size :: "nat \<Rightarrow> nat \<Rightarrow> 'os mm_heap \<Rightarrow> 'os mm_heap res" where
  "zend_mm_change_huge_block_size ptr sz h =
     rbind (ends (find_huge ptr None (hp_huge_list h) h)) (\<lambda>r.
       case r of
         None \<Rightarrow> Inr h
       | Some (prev, list) \<Rightarrow> Inr (h\<lparr>hp_huge := (hp_huge h)(list := (hp_huge h list)\<lparr>hg_size := sz\<rparr>)\<rparr>))"

definition gc_below_limit :: "'os mm_os \<Rightarrow> nat \<Rightarrow> 'os mm_heap \<Rightarrow> 'os mm_heap res" where
  "gc_below_limit os extra h =
     (if hp_real_size h + extra > hp_limit h then
        rbind (ends (zend_mm_gc os h)) (\<lambda>(collected, h).
          if collected \<noteq> 0 \<and> hp_real_size h + extra \<le> hp_limit h then Inr h
          else if \<not> hp_overflow h then Inl E_ERROR
          else Inr h)
      else Inr h)"

definition zend_mm_alloc_huge :: "'os mm_os \<Rightarrow> nat \<Rightarrow> 'os mm_heap \<Rightarrow> (nat \<times> 'os mm_heap) res" where
  "zend_mm_alloc_huge os sz h =
     (let new_size = ZEND_MM_ALIGNED_SIZE_EX sz REAL_PAGE_SIZE
      in rbind (gc_below_limit os new_size h) (\<lambda>h.
         rbind (map_chunk os new_size h) (\<lambda>(ptr, h).
         rbind (zend_mm_add_huge_block os ptr new_size h) (\<lambda>h.
           Inr (ptr, add_size new_size (add_real_size new_size h))))))"

definition zend_mm_free_huge :: "'os mm_os \<Rightarrow> nat \<Rightarrow> 'os mm_heap \<Rightarrow> 'os mm_heap res" where
  "zend_mm_free_huge os ptr h =
     (if ZEND_MM_ALIGNED_OFFSET ptr ZEND_MM_CHUNK_SIZE \<noteq> 0 then Inl UB
      else rbind (zend_mm_del_huge_block os ptr h) (\<lambda>(sz, h).
        (let h = zend_mm_chunk_free os ptr sz h
         in Inr (h\<lparr>hp_real_size := hp_real_size h - sz, hp_size := hp_size h - sz\<rparr>))))"

subsection \<open>Blocks of every size\<close>

definition zend_mm_alloc_heap :: "'os mm_os \<Rightarrow> nat \<Rightarrow> 'os mm_heap \<Rightarrow> (nat \<times> 'os mm_heap) res" where
  "zend_mm_alloc_heap os sz h =
     (if sz \<le> ZEND_MM_MAX_SMALL_SIZE then zend_mm_alloc_small os (zend_mm_small_size_to_bin sz) h
      else if sz \<le> ZEND_MM_MAX_LARGE_SIZE then zend_mm_alloc_large os sz h
      else zend_mm_alloc_huge os sz h)"

definition zend_mm_free_heap :: "'os mm_os \<Rightarrow> nat \<Rightarrow> 'os mm_heap \<Rightarrow> 'os mm_heap res" where
  "zend_mm_free_heap os ptr h =
     (if ZEND_MM_ALIGNED_OFFSET ptr ZEND_MM_CHUNK_SIZE = 0 then
        (if ptr \<noteq> 0 then zend_mm_free_huge os ptr h else Inr h)
      else free_in_chunk os ptr h)"

definition zend_mm_size :: "nat \<Rightarrow> 'os mm_heap \<Rightarrow> nat res" where
  "zend_mm_size ptr h =
     (if ZEND_MM_ALIGNED_OFFSET ptr ZEND_MM_CHUNK_SIZE = 0 then zend_mm_get_huge_block_size ptr h
      else
        (let info = page_info ptr h
         in if info AND ZEND_MM_IS_SRUN \<noteq> 0 then Inr (bin_data_size ! ZEND_MM_SRUN_BIN_NUM info)
            else Inr (ZEND_MM_LRUN_PAGES info * ZEND_MM_PAGE_SIZE)))"

definition memcpy :: "nat \<Rightarrow> nat \<Rightarrow> nat \<Rightarrow> 'os mm_heap \<Rightarrow> 'os mm_heap" where
  "memcpy dest src n h = h\<lparr>hp_copied := hp_copied h @ [(dest, src, n)]\<rparr>"

text \<open>The peaks do not count the time when both blocks are allocated.\<close>

definition restore_peaks :: "'os mm_heap \<Rightarrow> 'os mm_heap \<Rightarrow> 'os mm_heap" where
  "restore_peaks orig h = h\<lparr>hp_peak := max (hp_peak orig) (hp_size h), hp_real_peak := max (hp_real_peak orig) (hp_real_size h)\<rparr>"

definition zend_mm_realloc_slow :: "'os mm_os \<Rightarrow> nat \<Rightarrow> nat \<Rightarrow> nat \<Rightarrow> 'os mm_heap \<Rightarrow> (nat \<times> 'os mm_heap) res" where
  "zend_mm_realloc_slow os ptr sz copy_size orig =
     rbind (zend_mm_alloc_heap os sz orig) (\<lambda>(ret, h).
     rbind (zend_mm_free_heap os ptr (memcpy ret ptr copy_size h)) (\<lambda>h. Inr (ret, restore_peaks orig h)))"

definition zend_mm_realloc_huge :: "'os mm_os \<Rightarrow> nat \<Rightarrow> nat \<Rightarrow> nat \<Rightarrow> 'os mm_heap \<Rightarrow> (nat \<times> 'os mm_heap) res" where
  "zend_mm_realloc_huge os ptr sz copy_size h =
     rbind (zend_mm_get_huge_block_size ptr h) (\<lambda>old_size.
       (let slow = zend_mm_realloc_slow os ptr sz (min old_size copy_size);
            new_size = ZEND_MM_ALIGNED_SIZE_EX sz REAL_PAGE_SIZE
        in if sz > ZEND_MM_MAX_LARGE_SIZE then
             (if new_size = old_size then rbind (zend_mm_change_huge_block_size ptr new_size h) (\<lambda>h. Inr (ptr, h))
              else if new_size < old_size then
                (let h = zend_mm_chunk_truncate os ptr old_size new_size h;
                     h = h\<lparr>hp_real_size := hp_real_size h - (old_size - new_size), hp_size := hp_size h - (old_size - new_size)\<rparr>
                 in rbind (zend_mm_change_huge_block_size ptr new_size h) (\<lambda>h. Inr (ptr, h)))
              else
                rbind (gc_below_limit os (new_size - old_size) h) (\<lambda>h.
                  (let (ok, h) = zend_mm_chunk_extend os ptr old_size new_size h
                   in if ok then
                        rbind (zend_mm_change_huge_block_size ptr new_size
                                (add_size (new_size - old_size) (add_real_size (new_size - old_size) h))) (\<lambda>h. Inr (ptr, h))
                      else slow h)))
           else slow h))"

definition realloc_small :: "'os mm_os \<Rightarrow> nat \<Rightarrow> nat \<Rightarrow> nat \<Rightarrow> nat \<Rightarrow> 'os mm_heap \<Rightarrow> (nat \<times> 'os mm_heap) res" where
  "realloc_small os ptr old_bin_num sz copy_size h =
     rbind (zend_mm_alloc_small os (zend_mm_small_size_to_bin sz) h) (\<lambda>(ret, h).
       Inr (ret, zend_mm_free_small ptr old_bin_num (memcpy ret ptr copy_size h)))"

definition zend_mm_realloc_heap :: "'os mm_os \<Rightarrow> nat \<Rightarrow> nat \<Rightarrow> bool \<Rightarrow> nat \<Rightarrow> 'os mm_heap \<Rightarrow> (nat \<times> 'os mm_heap) res" where
  "zend_mm_realloc_heap os ptr sz use_copy_size copy_size h =
     (let page_offset = ZEND_MM_ALIGNED_OFFSET ptr ZEND_MM_CHUNK_SIZE
      in if page_offset = 0 then
           (if ptr = 0 then zend_mm_alloc_heap os sz h else zend_mm_realloc_huge os ptr sz copy_size h)
         else
           (let chunk = ZEND_MM_ALIGNED_BASE ptr ZEND_MM_CHUNK_SIZE;
                page_num = page_offset div ZEND_MM_PAGE_SIZE;
                info = page_info ptr h
            in if info AND ZEND_MM_IS_SRUN \<noteq> 0 then
                 (let old_bin_num = ZEND_MM_SRUN_BIN_NUM info;
                      old_size = bin_data_size ! old_bin_num
                  in if sz \<le> old_size then
                       (if old_bin_num > 0 \<and> sz < bin_data_size ! (old_bin_num - 1)
                        then realloc_small os ptr old_bin_num sz (if use_copy_size then min sz copy_size else sz) h
                        else Inr (ptr, h))
                     else if sz \<le> ZEND_MM_MAX_SMALL_SIZE then
                       rbind (realloc_small os ptr old_bin_num sz (if use_copy_size then min old_size copy_size else old_size) h)
                         (\<lambda>(ret, h'). Inr (ret, restore_peaks h h'))
                     else zend_mm_realloc_slow os ptr sz (min old_size copy_size) h)
               else if ZEND_MM_ALIGNED_OFFSET page_offset ZEND_MM_PAGE_SIZE \<noteq> 0 then Inl UB
               else
                 (let old_size = ZEND_MM_LRUN_PAGES info * ZEND_MM_PAGE_SIZE;
                      slow = zend_mm_realloc_slow os ptr sz (min old_size copy_size) h
                  in if sz > ZEND_MM_MAX_SMALL_SIZE \<and> sz \<le> ZEND_MM_MAX_LARGE_SIZE then
                       (let new_size = ZEND_MM_ALIGNED_SIZE_EX sz ZEND_MM_PAGE_SIZE
                        in if new_size = old_size then Inr (ptr, h)
                           else if new_size < old_size then
                             (let new_pages_count = new_size div ZEND_MM_PAGE_SIZE;
                                  rest_pages_count = (old_size - new_size) div ZEND_MM_PAGE_SIZE;
                                  h = h\<lparr>hp_size := hp_size h - rest_pages_count * ZEND_MM_PAGE_SIZE\<rparr>
                              in Inr (ptr, upd_chunk chunk (\<lambda>c. c\<lparr>ch_map := (ch_map c)[page_num := ZEND_MM_LRUN new_pages_count],
                                   ch_free_pages := ch_free_pages c + rest_pages_count,
                                   ch_free_map := zend_mm_bitset_reset_range (ch_free_map c) (page_num + new_pages_count) rest_pages_count\<rparr>) h))
                           else
                             (let new_pages_count = new_size div ZEND_MM_PAGE_SIZE;
                                  old_pages_count = old_size div ZEND_MM_PAGE_SIZE;
                                  extra = new_pages_count - old_pages_count
                              in if page_num + new_pages_count \<le> ZEND_MM_PAGES \<and>
                                    zend_mm_bitset_is_free_range (ch_free_map (hp_chunk h chunk)) (page_num + old_pages_count) extra
                                 then Inr (ptr, upd_chunk chunk (\<lambda>c. c\<lparr>ch_free_pages := ch_free_pages c - extra,
                                        ch_free_map := zend_mm_bitset_set_range (ch_free_map c) (page_num + old_pages_count) extra,
                                        ch_map := (ch_map c)[page_num := ZEND_MM_LRUN new_pages_count]\<rparr>)
                                      (add_size (new_size - old_size) h))
                                 else slow))
                     else slow)))"

end
