(* ===== verification/Zend_Mm_Bins_Correct.thy ===== *)
theory Zend_Mm_Bins_Correct
  imports Zend_Mm_Heap
begin

section \<open>The bins of the memory manager\<close>

text \<open>
  Four sizes of blocks between two powers of two, above 64 bytes; multiples of eight below.  The bin
  that \<open>zend_mm_small_size_to_bin\<close> computes is the first with blocks large enough.
\<close>

lemma size_to_bit_range:
  assumes "2 ^ k \<le> sz" "sz < 2 ^ Suc k" "k \<in> {6..11}"
  shows "zend_mm_small_size_to_bit sz = Suc k"
proof -
  consider "k = 6" | "k = 7" | "k = 8" | "k = 9" | "k = 10" | "k = 11" using assms(3) by force
  then show ?thesis using assms(1,2) by cases (simp_all add: zend_mm_small_size_to_bit_def)
qed

lemma bin_data_size_step:
  assumes "k \<in> {4..9}" "q \<in> {4..7}" "q + (k - 3) * 4 < 30"
  shows "bin_data_size ! (q + (k - 3) * 4) = (q + 1) * 2 ^ k" "bin_data_size ! (q + (k - 3) * 4 - 1) = q * 2 ^ k"
proof -
  have k: "k = 4 \<or> k = 5 \<or> k = 6 \<or> k = 7 \<or> k = 8 \<or> k = 9" using assms(1) by force
  have q: "q = 4 \<or> q = 5 \<or> q = 6 \<or> q = 7" using assms(2) by force
  show "bin_data_size ! (q + (k - 3) * 4) = (q + 1) * 2 ^ k" "bin_data_size ! (q + (k - 3) * 4 - 1) = q * 2 ^ k"
    using k q assms(3) unfolding bin_data_size_def by (elim disjE; simp add: nth_Cons')+
qed

lemma small_size_to_bin_low: "sz \<le> 64 \<Longrightarrow>
    zend_mm_small_size_to_bin sz < 8 \<and> sz \<le> bin_data_size ! zend_mm_small_size_to_bin sz \<and>
    (zend_mm_small_size_to_bin sz = 0 \<or> bin_data_size ! (zend_mm_small_size_to_bin sz - 1) < sz)"
proof (cases "sz = 0")
  case False
  assume "sz \<le> 64"
  define b where "b = (sz - 1) div 8"
  have b: "zend_mm_small_size_to_bin sz = b" using \<open>sz \<le> 64\<close> False by (simp add: zend_mm_small_size_to_bin_def b_def)
  have s: "b < 8" "8 * b < sz" "sz \<le> 8 * b + 8" using \<open>sz \<le> 64\<close> False unfolding b_def by presburger+
  have d: "bin_data_size ! i = 8 * i + 8" if "i < 8" for i
  proof -
    have "i = 0 \<or> i = 1 \<or> i = 2 \<or> i = 3 \<or> i = 4 \<or> i = 5 \<or> i = 6 \<or> i = 7" using that by arith
    then show ?thesis by (elim disjE) (simp_all add: bin_data_size_def nth_Cons')
  qed
  show ?thesis using s d [of b] d [of "b - 1"] unfolding b by (cases b) auto
qed (simp add: zend_mm_small_size_to_bin_def bin_data_size_def)

lemma small_size_to_bin_high:
  assumes "64 < sz" "sz \<le> 3072"
  obtains k q where "k \<in> {4..9}" "q \<in> {4..7}" "q + (k - 3) * 4 < 30" "zend_mm_small_size_to_bin sz = q + (k - 3) * 4"
    "q * 2 ^ k < sz" "sz \<le> (q + 1) * 2 ^ k"
proof -
  have "\<exists>k \<in> {4..9}. 4 * 2 ^ k \<le> sz - 1 \<and> sz - 1 < 8 * 2 ^ k"
    using assms by (simp add: atLeastAtMost_upt upt_rec) arith
  then obtain k where k: "k \<in> {4..9}" "4 * 2 ^ k \<le> sz - 1" "sz - 1 < 8 * 2 ^ k" by blast
  define q where "q = (sz - 1) div 2 ^ k"
  have q: "q \<in> {4..7}" using k(2,3) by (auto simp: q_def less_mult_imp_div_less less_eq_div_iff_mult_less_eq
        intro: less_Suc_eq_le [THEN iffD1])
  have s: "q * 2 ^ k \<le> sz - 1" "sz - 1 < (q + 1) * 2 ^ k"
    unfolding q_def by (simp_all add: div_times_less_eq_dividend dividend_less_div_times)
  have bit: "zend_mm_small_size_to_bit (sz - 1) = k + 3"
    using size_to_bit_range [of "k + 2" "sz - 1"] k by (simp add: power_add mult.commute eval_nat_numeral)
  have "zend_mm_small_size_to_bin sz = q + (k - 3) * 4"
    using assms bit k(1) by (simp add: zend_mm_small_size_to_bin_def q_def)
  moreover have "q + (k - 3) * 4 < 30"
  proof (cases "k = 9")
    case True
    then have "q \<le> 5" using s(1) assms(2) by simp
    then show ?thesis using True by simp
  qed (use k(1) q in auto)
  ultimately show thesis using that [OF k(1) q] s assms(1) by simp
qed

lemma bin_data_size_sorted: "i \<le> j \<Longrightarrow> j < 30 \<Longrightarrow> bin_data_size ! i \<le> bin_data_size ! j"
proof -
  have "sorted bin_data_size" "length bin_data_size = 30" by (simp_all add: bin_data_size_def)
  then show "i \<le> j \<Longrightarrow> j < 30 \<Longrightarrow> bin_data_size ! i \<le> bin_data_size ! j" by (simp add: sorted_nth_mono)
qed

lemma small_size_to_bin_ok:
  assumes "sz \<le> ZEND_MM_MAX_SMALL_SIZE"
  shows "zend_mm_small_size_to_bin sz < 30 \<and> sz \<le> bin_data_size ! zend_mm_small_size_to_bin sz \<and>
    (\<forall>i < zend_mm_small_size_to_bin sz. bin_data_size ! i < sz)"
proof -
  have "zend_mm_small_size_to_bin sz < 30 \<and> sz \<le> bin_data_size ! zend_mm_small_size_to_bin sz \<and>
    (zend_mm_small_size_to_bin sz = 0 \<or> bin_data_size ! (zend_mm_small_size_to_bin sz - 1) < sz)"
  proof (cases "sz \<le> 64")
    case False
    then have "64 < sz" "sz \<le> 3072" using assms by (simp_all add: ZEND_MM_MAX_SMALL_SIZE_def)
    then show ?thesis by (rule small_size_to_bin_high) (use bin_data_size_step in auto)
  qed (use small_size_to_bin_low [of sz] in simp)
  moreover have "bin_data_size ! i \<le> bin_data_size ! (zend_mm_small_size_to_bin sz - 1)"
    if "i < zend_mm_small_size_to_bin sz" "zend_mm_small_size_to_bin sz < 30" for i
    using that by (intro bin_data_size_sorted) auto
  ultimately show ?thesis by fastforce
qed

end
