(* ===== verification/Zend_Mm_Chunk_Correct.thy ===== *)
theory Zend_Mm_Chunk_Correct
  imports Zend_Mm_Search_Correct Zend_Mm_Alloc
begin

section \<open>The pages of a chunk\<close>

text \<open>
  A chunk carries runs of pages, which are disjoint, cover the pages in use but for page 0, and
  start before \<open>free_tail\<close>.  A run may have grown in place beyond \<open>free_tail\<close>.
\<close>

definition in_runs :: "(nat \<times> nat) set \<Rightarrow> nat \<Rightarrow> bool" where
  "in_runs R k = (\<exists>(p, n) \<in> R. p \<le> k \<and> k < p + n)"

definition apart :: "nat \<times> nat \<Rightarrow> nat \<times> nat \<Rightarrow> bool" where
  "apart a b = (a = b \<or> fst a + snd a \<le> fst b \<or> fst b + snd b \<le> fst a)"

definition free_pages :: "u64 list \<Rightarrow> nat set" where
  "free_pages bs = {k. k < ZEND_MM_PAGES \<and> \<not> page bs k}"

definition chunk_ok :: "mm_chunk \<Rightarrow> (nat \<times> nat) set \<Rightarrow> bool" where
  "chunk_ok c R = (length (ch_free_map c) = 8 \<and> length (ch_map c) = ZEND_MM_PAGES \<and> 0 < ch_free_tail c \<and> ch_free_tail c \<le> ZEND_MM_PAGES \<and>
     ch_free_pages c = card (free_pages (ch_free_map c)) \<and>
     (\<forall>k < ZEND_MM_PAGES. page (ch_free_map c) k \<longleftrightarrow> k = 0 \<or> in_runs R k) \<and>
     (\<forall>(p, n) \<in> R. 0 < p \<and> 0 < n \<and> p + n \<le> ZEND_MM_PAGES \<and> p < ch_free_tail c) \<and>
     (\<forall>a \<in> R. \<forall>b \<in> R. apart a b))"

lemma finite_free_pages [simp]: "finite (free_pages bs)"
  by (simp add: free_pages_def)

lemma in_runsI: "(p, n) \<in> R \<Longrightarrow> p \<le> k \<Longrightarrow> k < p + n \<Longrightarrow> in_runs R k"
  unfolding in_runs_def by (intro bexI [of _ "(p, n)"]) auto

lemma in_runs_insert [simp]: "in_runs (insert (p, n) R) k \<longleftrightarrow> k \<in> {p..<p + n} \<or> in_runs R k"
  by (auto simp: in_runs_def)

lemma chunk_okD:
  assumes "chunk_ok c R"
  shows "length (ch_free_map c) = 8" "64 * length (ch_free_map c) = ZEND_MM_PAGES" "page (ch_free_map c) 0" "tail_ok (ch_free_map c) (ch_free_tail c)"
    "(p, n) \<in> R \<Longrightarrow> 0 < p \<and> 0 < n \<and> p + n \<le> ZEND_MM_PAGES \<and> p < ch_free_tail c"
proof -
  have runs: "0 < p \<and> 0 < n \<and> p + n \<le> ZEND_MM_PAGES \<and> p < ch_free_tail c" if "(p, n) \<in> R" for p n
    using assms that by (fastforce simp: chunk_ok_def)
  then show "(p, n) \<in> R \<Longrightarrow> 0 < p \<and> 0 < n \<and> p + n \<le> ZEND_MM_PAGES \<and> p < ch_free_tail c" .
  show "length (ch_free_map c) = 8" "64 * length (ch_free_map c) = ZEND_MM_PAGES" "page (ch_free_map c) 0"
    using assms by (auto simp: chunk_ok_def ZEND_MM_PAGES_def)
  have "page (ch_free_map c) j"
    if k: "ch_free_tail c \<le> k" "k < ZEND_MM_PAGES" "page (ch_free_map c) k" and j: "j \<in> {ch_free_tail c - 1..k}" for k j
  proof -
    have pos: "0 < ch_free_tail c" using assms by (simp add: chunk_ok_def)
    have "k \<noteq> 0" using k(1) pos by linarith
    then have "in_runs R k" using assms k(2,3) by (auto simp: chunk_ok_def)
    then obtain p n where pn: "(p, n) \<in> R" "p \<le> k" "k < p + n" by (auto simp: in_runs_def)
    have "p \<le> j" using runs [OF pn(1)] j pos by auto
    then have "in_runs R j" using in_runsI [OF pn(1)] pn(3) j by auto
    then show ?thesis using assms k(2) j by (auto simp: chunk_ok_def)
  qed
  moreover have "0 < ch_free_tail c" "ch_free_tail c \<le> ZEND_MM_PAGES" using assms by (simp_all add: chunk_ok_def)
  ultimately show "tail_ok (ch_free_map c) (ch_free_tail c)" unfolding tail_ok_def by blast
qed

lemma chunk_okI:
  assumes "length (ch_free_map c) = 8" "length (ch_map c) = ZEND_MM_PAGES" "0 < ch_free_tail c" "ch_free_tail c \<le> ZEND_MM_PAGES"
    "ch_free_pages c = card (free_pages (ch_free_map c))"
    "\<And>k. k < ZEND_MM_PAGES \<Longrightarrow> page (ch_free_map c) k \<longleftrightarrow> k = 0 \<or> in_runs R k"
    "\<And>p n. (p, n) \<in> R \<Longrightarrow> 0 < p \<and> 0 < n \<and> p + n \<le> ZEND_MM_PAGES \<and> p < ch_free_tail c"
    "\<And>a b. a \<in> R \<Longrightarrow> b \<in> R \<Longrightarrow> apart a b"
  shows "chunk_ok c R"
  unfolding chunk_ok_def using assms by blast

lemma chunk_ok_apart: "chunk_ok c R \<Longrightarrow> a \<in> R \<Longrightarrow> b \<in> R \<Longrightarrow> apart a b"
  by (simp add: chunk_ok_def)

lemma chunk_ok_pages: "chunk_ok c R \<Longrightarrow> k < ZEND_MM_PAGES \<Longrightarrow> page (ch_free_map c) k \<longleftrightarrow> k = 0 \<or> in_runs R k"
  by (simp add: chunk_ok_def)

lemma chunk_ok_counts:
  "chunk_ok c R \<Longrightarrow> length (ch_map c) = ZEND_MM_PAGES \<and> 0 < ch_free_tail c \<and> ch_free_tail c \<le> ZEND_MM_PAGES \<and>
    ch_free_pages c = card (free_pages (ch_free_map c))"
  by (simp add: chunk_ok_def)

lemma chunk_ok_free: "chunk_ok c R \<Longrightarrow> k < ZEND_MM_PAGES \<Longrightarrow> \<not> page (ch_free_map c) k \<Longrightarrow> \<not> in_runs R k"
  by (simp add: chunk_ok_def)

lemma chunk_ok_fields:
  "chunk_ok (c\<lparr>ch_next := a\<rparr>) R = chunk_ok c R" "chunk_ok (c\<lparr>ch_prev := a\<rparr>) R = chunk_ok c R" "chunk_ok (c\<lparr>ch_num := a\<rparr>) R = chunk_ok c R"
  "chunk_ok (c\<lparr>ch_map := (ch_map c)[i := w]\<rparr>) R = chunk_ok c R"
  by (simp_all add: chunk_ok_def)

subsection \<open>The search\<close>

lemma chunk_ok_tail:
  assumes "chunk_ok c R" "new_tail (ch_free_map c) (ch_free_tail c) t"
  shows "chunk_ok (c\<lparr>ch_free_tail := t\<rparr>) R"
proof (cases "t = ch_free_tail c")
  case False
  then have t: "0 < t" "t \<le> ZEND_MM_PAGES" "\<And>k. k \<in> {t..<ZEND_MM_PAGES} \<Longrightarrow> \<not> page (ch_free_map c) k"
    using assms(2) by (auto simp: new_tail_def)
  have "p < t" if r: "(p, n) \<in> R" for p n
  proof (rule ccontr)
    assume "\<not> p < t"
    moreover have p: "0 < n" "p + n \<le> ZEND_MM_PAGES" using chunk_okD(5) [OF assms(1) r] by auto
    ultimately have "p \<in> {t..<ZEND_MM_PAGES}" by auto
    moreover from this have "\<not> in_runs R p" using chunk_ok_free [OF assms(1)] t(3) by auto
    moreover have "in_runs R p" using in_runsI [OF r] p by simp
    ultimately show False by blast
  qed
  then show ?thesis using assms(1) t(1,2) by (fastforce simp: chunk_ok_def)
qed (use assms in simp)

lemma chunk_search_ok:
  assumes "chunk_ok c R" "0 < n" "search_pages n (ch_free_tail c) (ch_free_map c) = (r, t)"
  shows "chunk_ok (c\<lparr>ch_free_tail := t\<rparr>) R"
    "r = Some s \<Longrightarrow> 0 < s \<and> s + n \<le> ZEND_MM_PAGES \<and> s < t \<and> (\<forall>k \<in> {s..<s + n}. \<not> page (ch_free_map c) k)"
proof -
  have r: "search_result (ch_free_map c) (ch_free_tail c) n (r, t)"
    using search_pages_ok [OF chunk_okD(2,3) [OF assms(1)] assms(2) chunk_okD(4) [OF assms(1)]] assms(3) by simp
  then show "chunk_ok (c\<lparr>ch_free_tail := t\<rparr>) R" by (intro chunk_ok_tail assms(1)) (simp add: search_result_def)
  assume s: "r = Some s"
  obtain l where l: "0 < s" "s + n \<le> t" "hole (ch_free_map c) s l" "n \<le> l"
    using r unfolding s search_result_def best_hole_def by auto
  then show "0 < s \<and> s + n \<le> ZEND_MM_PAGES \<and> s < t \<and> (\<forall>k \<in> {s..<s + n}. \<not> page (ch_free_map c) k)"
    using assms(2) by (auto simp: hole_def)
qed

subsection \<open>Marking and freeing a run\<close>

definition marked_chunk :: "nat \<Rightarrow> nat \<Rightarrow> mm_chunk \<Rightarrow> mm_chunk" where
  "marked_chunk p n c = c\<lparr>ch_free_pages := ch_free_pages c - n, ch_free_map := zend_mm_bitset_set_range (ch_free_map c) p n,
     ch_map := (ch_map c)[p := ZEND_MM_LRUN n], ch_free_tail := (if p = ch_free_tail c then p + n else ch_free_tail c)\<rparr>"

definition freed_chunk :: "nat \<Rightarrow> nat \<Rightarrow> mm_chunk \<Rightarrow> mm_chunk" where
  "freed_chunk p n c = c\<lparr>ch_free_pages := ch_free_pages c + n, ch_free_map := zend_mm_bitset_reset_range (ch_free_map c) p n,
     ch_map := (ch_map c)[p := 0], ch_free_tail := (if ch_free_tail c = p + n then p else ch_free_tail c)\<rparr>"

lemma marked_chunk_ok:
  assumes c: "chunk_ok c R" and p: "0 < p" "p + n \<le> ZEND_MM_PAGES" "p \<le> ch_free_tail c" "0 < n"
    and free: "\<forall>k \<in> {p..<p + n}. \<not> page (ch_free_map c) k"
  shows "chunk_ok (marked_chunk p n c) (insert (p, n) R)"
proof -
  note len = chunk_okD(1,2) [OF c]
  have pg: "page (zend_mm_bitset_set_range (ch_free_map c) p n) k = (page (ch_free_map c) k \<or> k \<in> {p..<p + n})" for k
    using p len by (intro page_set_range) auto
  have out: "\<not> in_runs R k" if "k \<in> {p..<p + n}" for k using that p(2) free chunk_ok_free [OF c] by auto
  show ?thesis
  proof (rule chunk_okI)
    have "free_pages (zend_mm_bitset_set_range (ch_free_map c) p n) = free_pages (ch_free_map c) - {p..<p + n}"
      by (auto simp: free_pages_def pg)
    moreover have "{p..<p + n} \<subseteq> free_pages (ch_free_map c)" using free p(2) by (auto simp: free_pages_def)
    ultimately have "card (free_pages (zend_mm_bitset_set_range (ch_free_map c) p n)) = card (free_pages (ch_free_map c)) - n"
      by (simp add: card_Diff_subset)
    then show "ch_free_pages (marked_chunk p n c) = card (free_pages (ch_free_map (marked_chunk p n c)))"
      using chunk_ok_counts [OF c] by (simp add: marked_chunk_def)
    have new: "apart (p, n) (q, m)" if r: "(q, m) \<in> R" for q m
    proof (rule ccontr)
      assume no: "\<not> apart (p, n) (q, m)"
      then have "max p q \<in> {p..<p + n}" "q \<le> max p q" "max p q < q + m" using chunk_okD(5) [OF c r] p(4) by (auto simp: apart_def)
      moreover from this have "in_runs R (max p q)" using in_runsI [OF r] by blast
      ultimately show False using out by blast
    qed
    show "apart a b" if "a \<in> insert (p, n) R" "b \<in> insert (p, n) R" for a b
      using that new [of "fst a" "snd a"] new [of "fst b" "snd b"] chunk_ok_apart [OF c, of a b] by (auto simp: apart_def)
    show "0 < q \<and> 0 < m \<and> q + m \<le> ZEND_MM_PAGES \<and> q < ch_free_tail (marked_chunk p n c)" if "(q, m) \<in> insert (p, n) R" for q m
      using that p chunk_okD(5) [OF c, of q m] by (auto simp: marked_chunk_def)
    show "page (ch_free_map (marked_chunk p n c)) k \<longleftrightarrow> k = 0 \<or> in_runs (insert (p, n) R) k" if "k < ZEND_MM_PAGES" for k
      using chunk_ok_pages [OF c that] by (auto simp: marked_chunk_def pg)
  qed (use p len chunk_ok_counts [OF c] in \<open>auto simp: marked_chunk_def\<close>)
qed

lemma freed_chunk_ok:
  assumes c: "chunk_ok c R" and r: "(p, n) \<in> R"
  shows "chunk_ok (freed_chunk p n c) (R - {(p, n)})"
proof -
  note len = chunk_okD(1,2) [OF c]
  note p = chunk_okD(5) [OF c r]
  have pg: "page (zend_mm_bitset_reset_range (ch_free_map c) p n) k = (page (ch_free_map c) k \<and> k \<notin> {p..<p + n})" for k
    using p len by (intro page_reset_range) auto
  have used: "page (ch_free_map c) k" if "k \<in> {p..<p + n}" for k
    using that p in_runsI [OF r, of k] chunk_ok_pages [OF c, of k] by auto
  have other: "q + m \<le> p \<or> p + n \<le> q" if "(q, m) \<in> R - {(p, n)}" for q m
    using chunk_ok_apart [OF c, of "(q, m)" "(p, n)"] that r by (auto simp: apart_def)
  have runs: "in_runs (R - {(p, n)}) k \<longleftrightarrow> in_runs R k \<and> k \<notin> {p..<p + n}" for k
  proof
    assume "in_runs (R - {(p, n)}) k"
    then obtain q m where q: "(q, m) \<in> R - {(p, n)}" "q \<le> k" "k < q + m" by (auto simp: in_runs_def)
    then show "in_runs R k \<and> k \<notin> {p..<p + n}" using other [OF q(1)] in_runsI [of q m R k] by auto
  qed (fastforce simp: in_runs_def)
  show ?thesis
  proof (rule chunk_okI)
    have "free_pages (zend_mm_bitset_reset_range (ch_free_map c) p n) = free_pages (ch_free_map c) \<union> {p..<p + n}"
      using p by (auto simp: free_pages_def pg)
    moreover have "{p..<p + n} \<inter> free_pages (ch_free_map c) = {}" using used by (auto simp: free_pages_def)
    ultimately have "card (free_pages (zend_mm_bitset_reset_range (ch_free_map c) p n)) = card (free_pages (ch_free_map c)) + n"
      by (simp add: card_Un_disjoint Int_commute)
    then show "ch_free_pages (freed_chunk p n c) = card (free_pages (ch_free_map (freed_chunk p n c)))"
      using chunk_ok_counts [OF c] by (simp add: freed_chunk_def)
    show "0 < q \<and> 0 < m \<and> q + m \<le> ZEND_MM_PAGES \<and> q < ch_free_tail (freed_chunk p n c)" if "(q, m) \<in> R - {(p, n)}" for q m
      using other [OF that] that chunk_okD(5) [OF c, of q m] by (auto simp: freed_chunk_def)
    show "page (ch_free_map (freed_chunk p n c)) k \<longleftrightarrow> k = 0 \<or> in_runs (R - {(p, n)}) k" if "k < ZEND_MM_PAGES" for k
      using chunk_ok_pages [OF c that] p by (auto simp: freed_chunk_def pg runs)
    show "apart a b" if "a \<in> R - {(p, n)}" "b \<in> R - {(p, n)}" for a b
      using chunk_ok_apart [OF c, of a b] that by blast
  qed (use p len chunk_ok_counts [OF c] in \<open>auto simp: freed_chunk_def\<close>)
qed

subsection \<open>Empty chunks\<close>

definition cached_ok :: "mm_chunk \<Rightarrow> bool" where
  "cached_ok c = (length (ch_free_map c) = 8 \<and> length (ch_map c) = ZEND_MM_PAGES \<and> (\<forall>k < ZEND_MM_PAGES. 0 < k \<longrightarrow> \<not> page (ch_free_map c) k))"

lemma init_pages_ok:
  assumes "cached_ok c"
  shows "chunk_ok (init_pages c) {}"
proof -
  have pg: "page ((ch_free_map c)[0 := 1]) k \<longleftrightarrow> k = 0" if k: "k < ZEND_MM_PAGES" for k
  proof (cases "k < 64")
    case True
    then have "k div 64 = 0" "k mod 64 = k" by auto
    then show ?thesis using assms by (auto simp: page_def cached_ok_def bit_1_iff)
  next
    case False
    then have "k div 64 \<noteq> 0" by auto
    then have "page ((ch_free_map c)[0 := 1]) k = page (ch_free_map c) k" by (simp add: page_def)
    then show ?thesis using assms k False by (simp add: cached_ok_def)
  qed
  have "free_pages ((ch_free_map c)[0 := 1]) = {1..<ZEND_MM_PAGES}" by (auto simp: free_pages_def pg)
  moreover have "push_bit ZEND_MM_FIRST_PAGE 1 - 1 = (1 :: u64)" by (simp add: ZEND_MM_FIRST_PAGE_def push_bit_eq_mult)
  ultimately show ?thesis
    using assms by (intro chunk_okI) (auto simp: init_pages_def pg in_runs_def cached_ok_def ZEND_MM_PAGES_def ZEND_MM_FIRST_PAGE_def)
qed

lemma zero_chunk_ok: "cached_ok zero_chunk"
  by (auto simp: cached_ok_def zero_chunk_def page_def ZEND_MM_PAGES_def nth_replicate)

lemma all_free:
  assumes "chunk_ok c R" "ch_free_pages c = ZEND_MM_PAGES - ZEND_MM_FIRST_PAGE"
  shows "R = {}" "cached_ok c"
proof -
  have "free_pages (ch_free_map c) \<subseteq> {1..<ZEND_MM_PAGES}"
    using chunk_okD(3) [OF assms(1)] by (auto simp: free_pages_def intro!: Suc_leI gr0I)
  moreover have "card (free_pages (ch_free_map c)) = card {1..<ZEND_MM_PAGES}"
    using chunk_ok_counts [OF assms(1)] assms(2) by (simp add: ZEND_MM_FIRST_PAGE_def)
  ultimately have all: "free_pages (ch_free_map c) = {1..<ZEND_MM_PAGES}" by (intro card_subset_eq) auto
  have none: "\<not> page (ch_free_map c) k" if "0 < k" "k < ZEND_MM_PAGES" for k
  proof -
    have "k \<in> free_pages (ch_free_map c)" unfolding all using that by simp
    then show ?thesis by (simp add: free_pages_def)
  qed
  then show "cached_ok c" using chunk_okD(1) [OF assms(1)] chunk_ok_counts [OF assms(1)] by (simp add: cached_ok_def)
  have "(p, n) \<notin> R" for p n
  proof
    assume r: "(p, n) \<in> R"
    then have "in_runs R p" "0 < p" "p < ZEND_MM_PAGES" using chunk_okD(5) [OF assms(1) r] in_runsI [OF r] by auto
    then show False using none chunk_ok_free [OF assms(1)] by blast
  qed
  then show "R = {}" by auto
qed

end
