(* ===== verification/Zend_Mm_Ring_Correct.thy ===== *)
theory Zend_Mm_Ring_Correct
  imports Zend_Mm_Alloc
begin

section \<open>The ring of chunks and the mapped memory\<close>

text \<open>
  The chunks in use are linked both ways in a ring that starts at the main chunk, the cached ones
  in a list.  A chunk is appended to the ring, taken out of it, or moved behind the main chunk.
\<close>

fun links :: "(nat \<Rightarrow> mm_chunk) \<Rightarrow> nat list \<Rightarrow> bool" where
  "links C (a # b # ys) = (ch_next (C a) = b \<and> ch_prev (C b) = a \<and> links C (b # ys))"
| "links C _ = True"

definition ring :: "(nat \<Rightarrow> mm_chunk) \<Rightarrow> nat list \<Rightarrow> bool" where
  "ring C cs = (cs \<noteq> [] \<and> distinct cs \<and> links C (cs @ [hd cs]))"

lemma links_append: "links C (xs @ a # ys) = (links C (xs @ [a]) \<and> links C (a # ys))"
  by (induction C xs rule: links.induct) (auto simp: neq_Nil_conv split: list.splits elim: links.elims)

lemma links_cong:
  "(\<And>a. a \<in> set (butlast ys) \<Longrightarrow> ch_next (C' a) = ch_next (C a)) \<Longrightarrow> (\<And>a. a \<in> set (tl ys) \<Longrightarrow> ch_prev (C' a) = ch_prev (C a)) \<Longrightarrow>
    links C' ys = links C ys"
  by (induction C ys rule: links.induct) auto

lemma ring_cong:
  assumes "\<And>a. a \<in> set cs \<Longrightarrow> ch_next (C' a) = ch_next (C a) \<and> ch_prev (C' a) = ch_prev (C a)"
  shows "ring C' cs = ring C cs"
proof -
  have "links C' (cs @ [hd cs]) = links C (cs @ [hd cs])" if "cs \<noteq> []"
  proof (rule links_cong)
    show "ch_next (C' a) = ch_next (C a)" if "a \<in> set (butlast (cs @ [hd cs]))" for a using assms that by simp
    show "ch_prev (C' a) = ch_prev (C a)" if "a \<in> set (tl (cs @ [hd cs]))" for a
      using assms that \<open>cs \<noteq> []\<close> by (cases cs) auto
  qed
  then show ?thesis by (auto simp: ring_def)
qed

lemma ring_upd [simp]: "c \<notin> set cs \<Longrightarrow> ring (C(c := x)) cs = ring C cs"
  by (rule ring_cong) auto

lemma ring_at:
  assumes "ring C (xs @ c # ys)"
  shows "ch_next (C c) = hd (ys @ [hd (xs @ [c])])" "ch_prev (C (hd (ys @ [hd (xs @ [c])]))) = c"
proof -
  have "hd (xs @ c # ys) = hd (xs @ [c])" by (cases xs) auto
  moreover have "links C ((xs @ c # ys) @ [hd (xs @ c # ys)])" using assms by (simp only: ring_def)
  ultimately have "links C (xs @ c # ys @ [hd (xs @ [c])])" by (simp only: append.assoc append_Cons)
  then have "links C (c # ys @ [hd (xs @ [c])])" by (simp only: links_append [of C xs c "ys @ [hd (xs @ [c])]"])
  then show "ch_next (C c) = hd (ys @ [hd (xs @ [c])])" "ch_prev (C (hd (ys @ [hd (xs @ [c])]))) = c" by (cases ys; auto)+
qed

lemma ring_prev:
  assumes "ring C (m # xs)"
  shows "ch_prev (C m) = last (m # xs)" "ch_next (C (last (m # xs))) = m"
proof -
  obtain bs p where b: "m # xs = bs @ [p]" by (metis list.distinct(1) rev_exhaust)
  then have "hd (bs @ [p]) = m" by (metis list.sel(1))
  then show "ch_prev (C m) = last (m # xs)" "ch_next (C (last (m # xs))) = m" using ring_at [of C bs p "[]"] assms b by auto
qed

text \<open>The links that the operations write.\<close>

definition lnext :: "nat \<Rightarrow> nat \<Rightarrow> (nat \<Rightarrow> mm_chunk) \<Rightarrow> nat \<Rightarrow> mm_chunk" where
  "lnext a b C = C(a := (C a)\<lparr>ch_next := b\<rparr>)"

definition lprev :: "nat \<Rightarrow> nat \<Rightarrow> (nat \<Rightarrow> mm_chunk) \<Rightarrow> nat \<Rightarrow> mm_chunk" where
  "lprev a b C = C(a := (C a)\<lparr>ch_prev := b\<rparr>)"

lemma lnext_simps [simp]:
  "ch_next (lnext a b C x) = (if x = a then b else ch_next (C x))" "ch_prev (lnext a b C x) = ch_prev (C x)"
  by (auto simp: lnext_def)

lemma lprev_simps [simp]:
  "ch_prev (lprev a b C x) = (if x = a then b else ch_prev (C x))" "ch_next (lprev a b C x) = ch_next (C x)"
  by (auto simp: lprev_def)

lemma lnext_lprev: "lnext a b (lprev c d C) = lprev c d (lnext a b C)"
  by (auto simp: lnext_def lprev_def)

lemma hp_chunk_links:
  "hp_chunk (upd_chunk a (\<lambda>c. c\<lparr>ch_next := b\<rparr>) h) = lnext a b (hp_chunk h)"
  "hp_chunk (upd_chunk a (\<lambda>c. c\<lparr>ch_prev := b\<rparr>) h) = lprev a b (hp_chunk h)"
  by (simp_all add: upd_chunk_def lnext_def lprev_def)

lemma ring_insert_last:
  assumes "ring C (m # xs)" "c \<notin> set (m # xs)" "ch_next (C c) = m" "ch_prev (C c) = last (m # xs)"
  shows "ring (lprev m c (lnext (last (m # xs)) c C)) (m # xs @ [c])"
proof -
  obtain bs p where b: "m # xs = bs @ [p]" by (metis list.distinct(1) rev_exhaust)
  let ?C = "lprev m c (lnext p c C)"
  have hd: "hd (bs @ [p]) = m" using b by (metis list.sel(1))
  have l: "links C (bs @ [p])" "distinct (bs @ [p])" using assms(1) links_append [of C bs p "[m]"] b hd by (auto simp: ring_def)
  have "links ?C (bs @ [p]) = links C (bs @ [p])"
  proof (rule links_cong)
    show "ch_prev (?C a) = ch_prev (C a)" if "a \<in> set (tl (bs @ [p]))" for a
      using that assms(1) unfolding b [symmetric] by (auto simp: ring_def)
  qed (use l(2) in auto)
  then have "links ?C (bs @ [p])" using l(1) by simp
  moreover have "p = last (m # xs)" "p \<in> set (m # xs)" using b by auto
  then have "links ?C [p, c, m]" using assms(2-4) by auto
  ultimately have "links ?C (bs @ [p, c, m])" using links_append [of ?C bs p "[c, m]"] by simp
  moreover have e: "(m # xs) @ [c] = bs @ [p, c]" using b by simp
  ultimately have "links ?C ((m # xs @ [c]) @ [m])" by (metis append.assoc append_Cons append_Nil)
  then show ?thesis using assms(1,2) \<open>p = last (m # xs)\<close> by (auto simp: ring_def)
qed

lemma ring_unlink:
  assumes "ring C (m # xs @ c # ys)"
  shows "ring (lnext (ch_prev (C c)) (ch_next (C c)) (lprev (ch_next (C c)) (ch_prev (C c)) C)) (m # xs @ ys)"
    "ch_prev (C c) = last (m # xs)" "ch_next (C c) = hd (ys @ [m])"
proof -
  obtain bs p where b: "m # xs = bs @ [p]" by (metis list.distinct(1) rev_exhaust)
  obtain s es where e: "ys @ [m] = s # es" by (cases ys) auto
  have "links C ((m # xs) @ c # (ys @ [m]))" "distinct (m # xs @ c # ys)" using assms by (simp_all add: ring_def)
  then have l: "links C (bs @ p # c # s # es)" "distinct (m # xs @ c # ys)" unfolding b e by simp_all
  then have p: "ch_next (C p) = c" "ch_prev (C c) = p" "ch_next (C c) = s" "ch_prev (C s) = c" "links C (bs @ [p])" "links C (s # es)"
    using links_append [of C bs p "c # s # es"] by auto
  have "distinct (bs @ [p])" using l(2) unfolding b [symmetric] by simp
  moreover have "set (m # xs) = insert p (set bs)" unfolding b by simp
  ultimately have pm: "p \<in> set (m # xs)" "p \<notin> set bs" "set bs \<subseteq> set (m # xs)" by auto
  let ?C = "lnext p s (lprev s p C)"
  have "links ?C (bs @ [p]) = links C (bs @ [p])"
  proof (rule links_cong)
    have "s \<notin> set xs" using e l(2) by (cases ys) auto
    then show "ch_prev (?C a) = ch_prev (C a)" if "a \<in> set (tl (bs @ [p]))" for a
      using that unfolding b [symmetric] by auto
  qed (use pm in auto)
  moreover have "links ?C (s # es) = links C (s # es)"
  proof (rule links_cong)
    have "butlast (s # es) = ys" using e by (metis butlast_snoc)
    then show "ch_next (?C a) = ch_next (C a)" if "a \<in> set (butlast (s # es))" for a
      using that pm l(2) by auto
    have "s \<notin> set es" using e l(2) by (cases ys) auto
    then show "ch_prev (?C a) = ch_prev (C a)" if "a \<in> set (tl (s # es))" for a using that by auto
  qed
  ultimately have "links ?C (bs @ p # s # es)" using p(5,6) links_append [of ?C bs p "s # es"] by simp
  moreover have "(m # xs @ ys) @ [m] = bs @ p # s # es" using b e by (metis append.assoc append_Cons append_Nil)
  ultimately have "links ?C ((m # xs @ ys) @ [m])" by simp
  then show "ring (lnext (ch_prev (C c)) (ch_next (C c)) (lprev (ch_next (C c)) (ch_prev (C c)) C)) (m # xs @ ys)"
    using l(2) p(2,3) by (simp add: ring_def)
  show "ch_prev (C c) = last (m # xs)" "ch_next (C c) = hd (ys @ [m])" using p(2,3) b e by simp_all
qed

lemma ring_insert_second:
  assumes "ring C (m # xs)" "c \<notin> set (m # xs)" "ch_next (C c) = ch_next (C m)" "ch_prev (C c) = m"
  shows "ring (lprev (ch_next (C m)) c (lnext m c C)) (m # c # xs)"
proof -
  obtain s es where e: "xs @ [m] = s # es" by (cases xs) auto
  have l: "ch_next (C m) = s" "ch_prev (C s) = m" "links C (s # es)" "distinct (m # xs)" using assms(1) e by (auto simp: ring_def)
  let ?C = "lprev s c (lnext m c C)"
  have "links ?C (s # es) = links C (s # es)"
  proof (rule links_cong)
    have "butlast (s # es) = xs" using e by (metis butlast_snoc)
    then show "ch_next (?C a) = ch_next (C a)" if "a \<in> set (butlast (s # es))" for a using that l(4) by auto
    have "s \<notin> set es" using e l(4) by (cases xs) auto
    then show "ch_prev (?C a) = ch_prev (C a)" if "a \<in> set (tl (s # es))" for a using that by auto
  qed
  moreover have "c \<noteq> s" "c \<noteq> m" using e assms(2) by (cases xs; auto)+
  ultimately have "links ?C (m # c # s # es)" using l assms(3,4) by auto
  then show ?thesis using assms(1,2) e l(1) by (auto simp: ring_def)
qed

end
