(* ===== verification/Zend_Mm_Os.thy ===== *)
theory Zend_Mm_Os
  imports Zend_Mm
begin

section \<open>Memory from the operating system\<close>

text \<open>
  What the manager relies on from the operating system: a mapping is page-aligned memory that was
  not mapped before, and taking a range away removes just that range.  \<open>M\<close> gives the mapped addresses.
\<close>

definition os_ok :: "'os mm_os \<Rightarrow> ('os \<Rightarrow> nat set) \<Rightarrow> bool" where
  "os_ok os M = ((\<forall>n s p s'. 0 < n \<longrightarrow> os_mmap os n s = (p, s') \<longrightarrow>
       p \<noteq> 0 \<and> p mod REAL_PAGE_SIZE = 0 \<and> M s \<inter> {p..<p + n} = {} \<and> M s' = M s \<union> {p..<p + n}) \<and>
     (\<forall>p n s. M (os_munmap os p n s) = M s - {p..<p + n}))"

lemma os_okD:
  assumes "os_ok os M"
  shows "0 < n \<Longrightarrow> os_mmap os n s = (p, s') \<Longrightarrow>
      p \<noteq> 0 \<and> p mod REAL_PAGE_SIZE = 0 \<and> M s \<inter> {p..<p + n} = {} \<and> M s' = M s \<union> {p..<p + n}"
    "M (os_munmap os p n s) = M s - {p..<p + n}"
  using assms unfolding os_ok_def by blast+

lemma next_aligned:
  fixes p al :: nat
  assumes "p mod al \<noteq> 0" "0 < al"
  shows "(p + (al - p mod al)) mod al = 0" "p mod al < al"
proof -
  show l: "p mod al < al" using assms(2) by simp
  have "p + (al - p mod al) = p div al * al + al" using l div_mult_mod_eq [of p al] by linarith
  then show "(p + (al - p mod al)) mod al = 0" by simp
qed

lemma chunk_alloc_int_ok:
  assumes os: "os_ok os M" and n: "0 < n" "zend_mm_chunk_alloc_int os n ZEND_MM_CHUNK_SIZE s = (p, s')"
  shows "p \<noteq> 0" "p mod ZEND_MM_CHUNK_SIZE = 0" "M s \<inter> {p..<p + n} = {}" "M s' = M s \<union> {p..<p + n}"
proof -
  let ?al = "ZEND_MM_CHUNK_SIZE" and ?pg = "REAL_PAGE_SIZE"
  have al: "?al mod ?pg = 0" "?pg < ?al" "0 < ?pg" by (simp_all add: ZEND_MM_CHUNK_SIZE_def REAL_PAGE_SIZE_def ZEND_MM_PAGE_SIZE_def)
  obtain p1 s1 where 1: "os_mmap os n s = (p1, s1)" by fastforce
  note f = os_okD(1) [OF os n(1) 1]
  have "p \<noteq> 0 \<and> p mod ?al = 0 \<and> M s \<inter> {p..<p + n} = {} \<and> M s' = M s \<union> {p..<p + n}"
  proof (cases "p1 mod ?al = 0")
    case True
    then show "p \<noteq> 0 \<and> p mod ?al = 0 \<and> M s \<inter> {p..<p + n} = {} \<and> M s' = M s \<union> {p..<p + n}"
      using n(2) f 1 by (simp add: zend_mm_chunk_alloc_int_def ZEND_MM_ALIGNED_OFFSET_def)
  next
    case False
    define s2 where "s2 = os_munmap os p1 n s1"
    have s2: "M s2 = M s" using f os_okD(2) [OF os, of p1 n s1] by (auto simp: s2_def)
    obtain p3 s3 where 3: "os_mmap os (n + ?al - ?pg) s2 = (p3, s3)" by fastforce
    have "0 < n + ?al - ?pg" using n(1) al(2) by linarith
    note g = os_okD(1) [OF os this 3]
    define off where "off = p3 mod ?al"
    show "p \<noteq> 0 \<and> p mod ?al = 0 \<and> M s \<inter> {p..<p + n} = {} \<and> M s' = M s \<union> {p..<p + n}"
    proof (cases "off = 0")
      case True
      then have "p = p3" "s' = os_munmap os (p3 + n) (?al - ?pg) s3"
        using n(2) f 1 False 3 al(2)
        by (auto simp: zend_mm_chunk_alloc_int_def ZEND_MM_ALIGNED_OFFSET_def Let_def off_def s2_def)
      moreover have "p3 + n + (?al - ?pg) = p3 + (n + ?al - ?pg)" using al(2) by linarith
      ultimately show ?thesis using g s2 True os_okD(2) [OF os, of "p3 + n" "?al - ?pg" s3] unfolding off_def by auto
    next
      case off: False
      define q where "q = p3 + (?al - off)"
      have q: "q mod ?al = 0" "off < ?al" using next_aligned [of p3 ?al] off al(2) unfolding q_def off_def by auto
      have "off mod ?pg = 0" using g al(1) unfolding off_def by (metis mod_mod_cancel dvd_eq_mod_eq_0)
      then have off': "?pg \<le> off" using off by (metis mod_less not_le)
      have p: "p = q \<and> s' = (if off > ?pg then os_munmap os (q + n) (off - ?pg) (os_munmap os p3 (?al - off) s3)
          else os_munmap os p3 (?al - off) s3)"
        using n(2) f 1 False 3 off q(2)
        by (auto simp: zend_mm_chunk_alloc_int_def ZEND_MM_ALIGNED_OFFSET_def Let_def off_def [symmetric] s2_def [symmetric] q_def split: if_splits)
      have e: "q + n + (off - ?pg) = p3 + (n + ?al - ?pg)" "p3 \<le> q" using q(2) off' al(2) unfolding q_def by linarith+
      have "M s' = M s3 - {p3..<q} - {q + n..<q + n + (off - ?pg)}"
        using p off' os_okD(2) [OF os] unfolding q_def by auto
      then show ?thesis using p q(1) g s2 e by auto
    qed
  qed
  then show "p \<noteq> 0" "p mod ?al = 0" "M s \<inter> {p..<p + n} = {}" "M s' = M s \<union> {p..<p + n}" by blast+
qed

end
