(* ===== verification/Zend_Mm_Pages_Correct.thy ===== *)
theory Zend_Mm_Pages_Correct
  imports Zend_Mm_Chunk_Correct Zend_Mm_Ring_Correct Zend_Mm_Os PHP_Prelude
begin

section \<open>Allocating runs of pages\<close>

text \<open>
  The state of the pages: the ring \<open>cs\<close> of chunks with their runs \<open>R\<close>, the list \<open>ds\<close> of cached
  chunks, and the memory of all of them, which is mapped.
\<close>

definition area :: "nat \<Rightarrow> nat set" where
  "area c = {c..<c + ZEND_MM_CHUNK_SIZE}"

definition is_chunk :: "nat set \<Rightarrow> nat \<Rightarrow> bool" where
  "is_chunk m c = (c \<noteq> 0 \<and> c mod ZEND_MM_CHUNK_SIZE = 0 \<and> area c \<subseteq> m)"

definition pages_ok :: "('os \<Rightarrow> nat set) \<Rightarrow> nat list \<Rightarrow> nat list \<Rightarrow> (nat \<Rightarrow> (nat \<times> nat) set) \<Rightarrow> 'os mm_heap \<Rightarrow> bool" where
  "pages_ok M cs ds R h = (ring (hp_chunk h) cs \<and> hd cs = hp_main_chunk h \<and>
     chain 0 (\<lambda>a. ch_next (hp_chunk h a)) (hp_cached_chunks h) ds \<and> distinct (cs @ ds) \<and>
     (\<forall>c \<in> set (cs @ ds). is_chunk (M (hp_os h)) c) \<and>
     (\<forall>c \<in> set cs. chunk_ok (hp_chunk h c) (R c)) \<and> (\<forall>c \<in> set ds. cached_ok (hp_chunk h c)) \<and> (\<forall>c. c \<notin> set cs \<longrightarrow> R c = {}))"

lemma area_disjoint:
  assumes "a mod ZEND_MM_CHUNK_SIZE = 0" "b mod ZEND_MM_CHUNK_SIZE = 0" "a \<noteq> b"
  shows "area a \<inter> area b = {}"
proof -
  obtain i j where ij: "a = ZEND_MM_CHUNK_SIZE * i" "b = ZEND_MM_CHUNK_SIZE * j" using assms(1,2) by (auto elim!: dvdE simp: mod_eq_0_iff_dvd)
  then have "i < j \<or> j < i" using assms(3) by auto
  then have "a + ZEND_MM_CHUNK_SIZE \<le> b \<or> b + ZEND_MM_CHUNK_SIZE \<le> a"
    using mult_le_mono2 [of "i + 1" j ZEND_MM_CHUNK_SIZE] mult_le_mono2 [of "j + 1" i ZEND_MM_CHUNK_SIZE] ij by (auto simp: algebra_simps)
  then show ?thesis by (auto simp: area_def)
qed

lemma area_self [simp]: "c \<in> area c"
  by (simp add: area_def ZEND_MM_CHUNK_SIZE_def)

lemma pages_okD:
  assumes "pages_ok M cs ds R h"
  shows "ring (hp_chunk h) cs" "hd cs = hp_main_chunk h" "chain 0 (\<lambda>a. ch_next (hp_chunk h a)) (hp_cached_chunks h) ds" "distinct (cs @ ds)"
    "c \<in> set cs \<or> c \<in> set ds \<Longrightarrow> is_chunk (M (hp_os h)) c" "c \<in> set cs \<Longrightarrow> chunk_ok (hp_chunk h c) (R c)"
    "c \<in> set ds \<Longrightarrow> cached_ok (hp_chunk h c)" "c \<notin> set cs \<Longrightarrow> R c = {}"
  using assms unfolding pages_ok_def by auto

lemma pages_okI:
  assumes "ring (hp_chunk h) cs" "hd cs = hp_main_chunk h" "chain 0 (\<lambda>a. ch_next (hp_chunk h a)) (hp_cached_chunks h) ds" "distinct (cs @ ds)"
    "\<And>c. c \<in> set cs \<or> c \<in> set ds \<Longrightarrow> is_chunk (M (hp_os h)) c" "\<And>c. c \<in> set cs \<Longrightarrow> chunk_ok (hp_chunk h c) (R c)"
    "\<And>c. c \<in> set ds \<Longrightarrow> cached_ok (hp_chunk h c)" "\<And>c. c \<notin> set cs \<Longrightarrow> R c = {}"
  shows "pages_ok M cs ds R h"
  using assms unfolding pages_ok_def by auto

lemma upd_chunk_simps [simp]:
  "hp_chunk (upd_chunk c f h) = (hp_chunk h)(c := f (hp_chunk h c))" "hp_main_chunk (upd_chunk c f h) = hp_main_chunk h"
  "hp_cached_chunks (upd_chunk c f h) = hp_cached_chunks h" "hp_os (upd_chunk c f h) = hp_os h"
  by (simp_all add: upd_chunk_def)

text \<open>What the functions for pages leave alone.\<close>

definition same_blocks :: "'os mm_heap \<Rightarrow> 'os mm_heap \<Rightarrow> bool" where
  "same_blocks h h' = (hp_free_slot h' = hp_free_slot h \<and> hp_slot_next h' = hp_slot_next h \<and> hp_huge_list h' = hp_huge_list h \<and>
     hp_huge h' = hp_huge h \<and> hp_main_chunk h' = hp_main_chunk h \<and> hp_limit h' = hp_limit h \<and> hp_size h' = hp_size h \<and>
     hp_copied h' = hp_copied h)"

lemma same_blocks_refl [simp]: "same_blocks h h"
  by (simp add: same_blocks_def)

lemma same_blocks_trans [trans]: "same_blocks h h' \<Longrightarrow> same_blocks h' h'' \<Longrightarrow> same_blocks h h''"
  by (simp add: same_blocks_def)

lemma same_blocks_chunk [simp]: "same_blocks h (upd_chunk c f h)"
  by (simp add: same_blocks_def upd_chunk_def)

definition chunks_only :: "'os mm_heap \<Rightarrow> 'os mm_heap \<Rightarrow> bool" where
  "chunks_only h h' = (\<exists>C. h' = h\<lparr>hp_chunk := C\<rparr>)"

lemma chunks_only_refl: "chunks_only h h"
  unfolding chunks_only_def by (rule exI [of _ "hp_chunk h"]) simp

lemma chunks_only_upd: "chunks_only h g \<Longrightarrow> chunks_only h (upd_chunk a f g)"
  by (auto simp: chunks_only_def upd_chunk_def)

lemma chunks_onlyD:
  assumes "chunks_only h h'"
  shows "same_blocks h h'" "hp_main_chunk h' = hp_main_chunk h" "hp_cached_chunks h' = hp_cached_chunks h" "hp_os h' = hp_os h"
    "hp_real_size h' = hp_real_size h"
  using assms by (auto simp: chunks_only_def same_blocks_def)

subsection \<open>The walk over the ring\<close>

definition retailed :: "'os mm_heap \<Rightarrow> 'os mm_heap \<Rightarrow> bool" where
  "retailed h h' = (\<exists>t. h' = h\<lparr>hp_chunk := (\<lambda>a. (hp_chunk h a)\<lparr>ch_free_tail := t a\<rparr>)\<rparr>)"

lemma retailed_refl [simp]: "retailed h h"
  unfolding retailed_def by (intro exI [of _ "\<lambda>a. ch_free_tail (hp_chunk h a)"]) simp

lemma retailed_trans: "retailed h h' \<Longrightarrow> retailed h' h'' \<Longrightarrow> retailed h h''"
  by (auto simp: retailed_def)

lemma retailed_upd: "retailed h (upd_chunk c (\<lambda>b. b\<lparr>ch_free_tail := t\<rparr>) h)"
proof -
  define f where "f = (\<lambda>a. if a = c then t else ch_free_tail (hp_chunk h a))"
  have "(hp_chunk h)(c := (hp_chunk h c)\<lparr>ch_free_tail := t\<rparr>) = (\<lambda>a. (hp_chunk h a)\<lparr>ch_free_tail := f a\<rparr>)"
    by (rule ext) (simp add: f_def)
  then have "upd_chunk c (\<lambda>b. b\<lparr>ch_free_tail := t\<rparr>) h = h\<lparr>hp_chunk := (\<lambda>a. (hp_chunk h a)\<lparr>ch_free_tail := f a\<rparr>)\<rparr>"
    unfolding upd_chunk_def by (rule arg_cong [where f = "\<lambda>C. h\<lparr>hp_chunk := C\<rparr>"])
  then show ?thesis unfolding retailed_def by (rule exI [where x = f])
qed

lemma retailed_ok:
  assumes "pages_ok M cs ds R h" "c \<in> set cs" "chunk_ok ((hp_chunk h c)\<lparr>ch_free_tail := t\<rparr>) (R c)"
  shows "pages_ok M cs ds R (upd_chunk c (\<lambda>c. c\<lparr>ch_free_tail := t\<rparr>) h)"
proof (rule pages_okI)
  show "ring (hp_chunk (upd_chunk c (\<lambda>c. c\<lparr>ch_free_tail := t\<rparr>) h)) cs"
    using pages_okD(1) [OF assms(1)] ring_cong [of cs "hp_chunk (upd_chunk c (\<lambda>c. c\<lparr>ch_free_tail := t\<rparr>) h)" "hp_chunk h"] by simp
  have "(\<lambda>a. ch_next (hp_chunk (upd_chunk c (\<lambda>c. c\<lparr>ch_free_tail := t\<rparr>) h) a)) = (\<lambda>a. ch_next (hp_chunk h a))" by auto
  then show "chain 0 (\<lambda>a. ch_next (hp_chunk (upd_chunk c (\<lambda>c. c\<lparr>ch_free_tail := t\<rparr>) h) a))
      (hp_cached_chunks (upd_chunk c (\<lambda>c. c\<lparr>ch_free_tail := t\<rparr>) h)) ds"
    using pages_okD(3) [OF assms(1)] by simp
qed (use assms pages_okD [OF assms(1)] in auto)

definition run_free :: "nat list \<Rightarrow> 'os mm_heap \<Rightarrow> nat \<Rightarrow> nat \<Rightarrow> nat \<Rightarrow> bool" where
  "run_free cs h n c p = (c \<in> set cs \<and> 0 < p \<and> p + n \<le> ZEND_MM_PAGES \<and> p \<le> ch_free_tail (hp_chunk h c) \<and>
     (\<forall>k \<in> {p..<p + n}. \<not> page (ch_free_map (hp_chunk h c)) k))"

definition look_at :: "nat \<Rightarrow> nat \<Rightarrow> 'os mm_heap \<Rightarrow> nat option \<times> 'os mm_heap" where
  "look_at n chunk h =
     (let c = hp_chunk h chunk
      in if ch_free_pages c < n then (None, h)
         else (let (page_num, free_tail) = search_pages n (ch_free_tail c) (ch_free_map c)
               in (page_num, upd_chunk chunk (\<lambda>c. c\<lparr>ch_free_tail := free_tail\<rparr>) h)))"

lemma look_at_ok:
  assumes "pages_ok M cs ds R h" "c \<in> set cs" "0 < n" "look_at n c h = (r, h')"
  shows "pages_ok M cs ds R h'" "retailed h h'" "r = Some p \<Longrightarrow> run_free cs h' n c p"
proof -
  have c: "chunk_ok (hp_chunk h c) (R c)" using pages_okD(6) [OF assms(1)] assms(2) by blast
  show "pages_ok M cs ds R h'" "retailed h h'" "r = Some p \<Longrightarrow> run_free cs h' n c p"
  proof (atomize (full), cases "ch_free_pages (hp_chunk h c) < n")
    case True
    then have "r = None" "h' = h" using assms(4) by (simp_all add: look_at_def)
    then show "pages_ok M cs ds R h' \<and> retailed h h' \<and> (r = Some p \<longrightarrow> run_free cs h' n c p)" using assms(1) by simp
  next
    case False
    obtain q t where s: "search_pages n (ch_free_tail (hp_chunk h c)) (ch_free_map (hp_chunk h c)) = (q, t)" by fastforce
    then have r: "r = q" "h' = upd_chunk c (\<lambda>c. c\<lparr>ch_free_tail := t\<rparr>) h" using assms(4) False by (simp_all add: look_at_def)
    note o = chunk_search_ok [OF c assms(3) s]
    show "pages_ok M cs ds R h' \<and> retailed h h' \<and> (r = Some p \<longrightarrow> run_free cs h' n c p)"
      using retailed_ok [OF assms(1,2) o(1)] retailed_upd [of h c t] o(2) [of p] assms(2) unfolding r by (auto simp: run_free_def)
  qed
qed

lemma find_run_step:
  "find_run n c steps h = (case look_at n c h of (found, h) \<Rightarrow>
     (case found of
        Some p \<Rightarrow> Some (Some (c, p), steps, h)
      | None \<Rightarrow> if ch_next (hp_chunk h c) = hp_main_chunk h then Some (None, steps, h)
                else find_run n (ch_next (hp_chunk h c)) (steps + 1) h))"
  by (subst find_run.simps) (simp add: look_at_def Let_def split: prod.splits if_splits)

lemma find_run_ok:
  assumes "pages_ok M cs ds R h" "cs = xs @ c # ys" "0 < n"
  shows "\<exists>found steps h'. find_run n c (length xs) h = Some (found, steps, h') \<and> pages_ok M cs ds R h' \<and> retailed h h' \<and>
    (case found of None \<Rightarrow> True | Some (d, p) \<Rightarrow> steps < length cs \<and> d = cs ! steps \<and> run_free cs h' n d p)"
  using assms(1,2)
proof (induction ys arbitrary: xs c h)
  case Nil
  obtain r h' where l: "look_at n c h = (r, h')" by fastforce
  have c: "c \<in> set cs" using Nil.prems(2) by simp
  note o = look_at_ok [OF Nil.prems(1) c assms(3) l]
  have "ch_next (hp_chunk h' c) = hp_main_chunk h'"
    using ring_at(1) [of "hp_chunk h'" xs c "[]"] pages_okD(1,2) [OF o(1)] Nil.prems(2) by simp
  then show ?case using o Nil.prems(2) unfolding find_run_step [of n c] l by (cases r) auto
next
  case (Cons e ys)
  obtain r h' where l: "look_at n c h = (r, h')" by fastforce
  have c: "c \<in> set cs" using Cons.prems(2) by simp
  note o = look_at_ok [OF Cons.prems(1) c assms(3) l]
  show ?case
  proof (cases r)
    case None
    have n: "ch_next (hp_chunk h' c) = e"
      using ring_at(1) [of "hp_chunk h'" xs c "e # ys"] pages_okD(1) [OF o(1)] Cons.prems(2) by simp
    have "e \<noteq> hd cs" using pages_okD(4) [OF o(1)] Cons.prems(2) by (cases xs) auto
    then have "find_run n c (length xs) h = find_run n e (length (xs @ [c])) h'"
      using None n pages_okD(2) [OF o(1)] unfolding find_run_step [of n c] l by simp
    moreover have "cs = (xs @ [c]) @ e # ys" using Cons.prems(2) by simp
    ultimately show ?thesis using Cons.IH [OF o(1), of "xs @ [c]" e] retailed_trans [OF o(2)] by (fastforce simp del: length_append)
  next
    case (Some p)
    then show ?thesis using o Cons.prems(2) unfolding find_run_step [of n c] l by auto
  qed
qed

subsection \<open>A new chunk\<close>

text \<open>The memory of the chunks, in use or cached.\<close>

definition pool :: "nat list \<Rightarrow> nat list \<Rightarrow> nat" where
  "pool cs ds = ZEND_MM_CHUNK_SIZE * card (set cs \<union> set ds)"

definition grown :: "('os \<Rightarrow> nat set) \<Rightarrow> nat list \<Rightarrow> nat list \<Rightarrow> 'os mm_heap \<Rightarrow> nat list \<Rightarrow> nat list \<Rightarrow> 'os mm_heap \<Rightarrow> bool" where
  "grown M cs ds h cs' ds' h' = (same_blocks h h' \<and> M (hp_os h) \<subseteq> M (hp_os h') \<and> set cs \<subseteq> set cs' \<and>
     (\<forall>c \<in> set cs' \<union> set ds'. c \<in> set cs \<union> set ds \<or> area c \<inter> M (hp_os h) = {}) \<and>
     hp_real_size h' + pool cs ds = hp_real_size h + pool cs' ds' \<and> pool cs' ds' \<le> pool cs ds + ZEND_MM_CHUNK_SIZE)"

lemma grown_real: "grown M cs ds h cs' ds' h' \<Longrightarrow> hp_real_size h' \<le> hp_real_size h + ZEND_MM_CHUNK_SIZE"
  by (auto simp: grown_def)

definition limit_room :: "nat \<Rightarrow> 'os mm_heap \<Rightarrow> bool" where
  "limit_room n h = (hp_real_size h + n \<le> hp_limit h)"

lemma get_chunk_cached:
  assumes p: "pages_ok M cs (d # ds) R h"
  obtains h' where "get_chunk os h = Some (Inr (d, h'))" "pages_ok M cs ds R h'" "hp_chunk h' = hp_chunk h" "same_blocks h h'"
    "hp_os h' = hp_os h" "hp_real_size h' = hp_real_size h"
proof -
  let ?h = "h\<lparr>hp_cached_chunks_count := hp_cached_chunks_count h - 1, hp_cached_chunks := ch_next (hp_chunk h d)\<rparr>"
  have d: "hp_cached_chunks h = d" "d \<noteq> 0" "chain 0 (\<lambda>a. ch_next (hp_chunk h a)) (ch_next (hp_chunk h d)) ds"
    using pages_okD(3) [OF p] by auto
  have "get_chunk os h = Some (Inr (d, ?h))" using d(1,2) by (subst get_chunk.simps) (simp add: Let_def)
  moreover have "pages_ok M cs ds R ?h" using pages_okD [OF p] d(3) by (intro pages_okI) auto
  ultimately show thesis by (rule that) (simp_all add: same_blocks_def)
qed

lemma get_chunk_new:
  assumes p: "pages_ok M cs [] R h" and os: "os_ok os M" and r: "limit_room ZEND_MM_CHUNK_SIZE h"
  obtains c h' where "get_chunk os h = Some (Inr (c, h'))" "pages_ok M cs [] R h'" "hp_chunk h' = (hp_chunk h)(c := zero_chunk)"
    "same_blocks h h'" "M (hp_os h') = M (hp_os h) \<union> area c" "area c \<inter> M (hp_os h) = {}" "is_chunk (M (hp_os h')) c" "c \<notin> set cs"
    "hp_real_size h' = hp_real_size h + ZEND_MM_CHUNK_SIZE"
proof -
  obtain c s where a: "zend_mm_chunk_alloc_int os ZEND_MM_CHUNK_SIZE ZEND_MM_CHUNK_SIZE (hp_os h) = (c, s)" by fastforce
  have "0 < ZEND_MM_CHUNK_SIZE" by (simp add: ZEND_MM_CHUNK_SIZE_def)
  note o = chunk_alloc_int_ok [OF os this a]
  let ?h = "upd_chunk c (\<lambda>_. zero_chunk) (add_real_size ZEND_MM_CHUNK_SIZE (h\<lparr>hp_os := s\<rparr>))"
  have new: "area c \<inter> M (hp_os h) = {}" "M s = M (hp_os h) \<union> area c" using o(3,4) by (auto simp: area_def)
  have out: "c \<notin> set cs" using pages_okD(5) [OF p] new(1) unfolding is_chunk_def by (metis IntI area_self empty_iff subsetD)
  have "get_chunk os h = Some (Inr (c, ?h))"
    using pages_okD(3) [OF p] r o(1) a
    by (subst get_chunk.simps) (simp add: Let_def limit_room_def map_chunk_def zend_mm_chunk_alloc_def)
  moreover have "pages_ok M cs [] R ?h"
  proof (rule pages_okI)
    show "ring (hp_chunk ?h) cs"
      using pages_okD(1) [OF p] out by (simp add: add_real_size_def)
    show "is_chunk (M (hp_os ?h)) a" if "a \<in> set cs \<or> a \<in> set []" for a
      using pages_okD(5) [OF p, of a] that new(2) by (auto simp: add_real_size_def is_chunk_def)
  qed (use pages_okD [OF p] out in \<open>auto simp: add_real_size_def\<close>)
  moreover have "same_blocks h ?h" by (simp add: same_blocks_def add_real_size_def upd_chunk_def)
  ultimately show thesis using new out o(1,2)
    by (intro that [of c ?h]) (auto simp: add_real_size_def is_chunk_def upd_chunk_def)
qed

lemma get_chunk_ok:
  assumes p: "pages_ok M cs ds R h" and os: "os_ok os M" and r: "limit_room ZEND_MM_CHUNK_SIZE h"
  obtains c ds' h' where "get_chunk os h = Some (Inr (c, h'))" "pages_ok M cs ds' R h'" "c \<notin> set cs" "c \<notin> set ds'"
    "is_chunk (M (hp_os h')) c" "cached_ok (hp_chunk h' c)" "grown M cs ds h (cs @ [c]) ds' h'"
    "\<And>a. a \<in> set cs \<Longrightarrow> hp_chunk h' a = hp_chunk h a"
proof (cases ds)
  case (Cons d ds')
  obtain h' where h': "get_chunk os h = Some (Inr (d, h'))" "pages_ok M cs ds' R h'" "hp_chunk h' = hp_chunk h" "same_blocks h h'"
    "hp_os h' = hp_os h" "hp_real_size h' = hp_real_size h" using get_chunk_cached p Cons by metis
  then show thesis using pages_okD [OF p] Cons by (intro that [of d h' ds']) (auto simp: grown_def pool_def)
next
  case Nil
  obtain c h' where h': "get_chunk os h = Some (Inr (c, h'))" "pages_ok M cs [] R h'" "hp_chunk h' = (hp_chunk h)(c := zero_chunk)"
    "same_blocks h h'" "M (hp_os h') = M (hp_os h) \<union> area c" "area c \<inter> M (hp_os h) = {}" "is_chunk (M (hp_os h')) c" "c \<notin> set cs"
    "hp_real_size h' = hp_real_size h + ZEND_MM_CHUNK_SIZE" using get_chunk_new p os r Nil by metis
  then show thesis using Nil zero_chunk_ok by (intro that [of c h' "[]"]) (auto simp: grown_def pool_def)
qed

subsection \<open>Relinking\<close>

definition same_data :: "mm_chunk \<Rightarrow> mm_chunk \<Rightarrow> bool" where
  "same_data a b = (ch_free_map a = ch_free_map b \<and> ch_map a = ch_map b \<and> ch_free_pages a = ch_free_pages b \<and> ch_free_tail a = ch_free_tail b)"

lemma same_data_ok: "same_data a b \<Longrightarrow> chunk_ok a R = chunk_ok b R"
  by (simp add: same_data_def chunk_ok_def)

lemma relinked_ok:
  assumes p: "pages_ok M cs ds R h" and r: "ring (hp_chunk h') cs'" "hd cs' = hd cs" "set cs' = set cs"
    and same: "\<And>a. same_data (hp_chunk h' a) (hp_chunk h a)" "\<And>d. d \<notin> set cs \<Longrightarrow> hp_chunk h' d = hp_chunk h d"
    and f: "hp_main_chunk h' = hp_main_chunk h" "hp_cached_chunks h' = hp_cached_chunks h" "hp_os h' = hp_os h"
  shows "pages_ok M cs' ds R h'"
proof (rule pages_okI)
  have d: "d \<notin> set cs" if "d \<in> set ds" for d using pages_okD(4) [OF p] that by auto
  show "chain 0 (\<lambda>a. ch_next (hp_chunk h' a)) (hp_cached_chunks h') ds"
    using pages_okD(3) [OF p] f(2) same(2) [OF d] chain_cong [of ds "\<lambda>a. ch_next (hp_chunk h' a)" "\<lambda>a. ch_next (hp_chunk h a)"] by simp
  show "distinct (cs' @ ds)" using pages_okD(4) [OF p] r(1,3) by (auto simp: ring_def)
  show "chunk_ok (hp_chunk h' c) (R c)" if "c \<in> set cs'" for c
    using pages_okD(6) [OF p, of c] that r(3) same_data_ok [OF same(1)] by simp
  show "cached_ok (hp_chunk h' c)" if "c \<in> set ds" for c using pages_okD(7) [OF p that] same(2) [OF d [OF that]] by simp
  show "R c = {}" if "c \<notin> set cs'" for c using that r(3) pages_okD(8) [OF p] by simp
qed (use pages_okD(2,5) [OF p] r f in auto)

lemma add_chunk_ok:
  assumes p: "pages_ok M cs ds R h" and c: "c \<notin> set cs" "c \<notin> set ds" "is_chunk (M (hp_os h)) c" "cached_ok (hp_chunk h c)"
  shows "pages_ok M (cs @ [c]) ds R (add_chunk c h)" "same_blocks h (add_chunk c h)" "hp_os (add_chunk c h) = hp_os h"
    "hp_real_size (add_chunk c h) = hp_real_size h" "\<And>a. a \<noteq> c \<Longrightarrow> same_data (hp_chunk (add_chunk c h) a) (hp_chunk h a)"
    "ch_free_tail (hp_chunk (add_chunk c h) c) = ZEND_MM_FIRST_PAGE"
proof -
  let ?h = "add_chunk c h"
  obtain m xs where cs: "cs = m # xs" "m = hp_main_chunk h"
    using pages_okD(1,2) [OF p] by (cases cs) (auto simp: ring_def)
  let ?p = "last (m # xs)" and ?C = "hp_chunk h"
  have m: "ch_prev (?C m) = ?p" using ring_prev(1) pages_okD(1) [OF p] cs(1) by blast
  have ne: "c \<noteq> m" "c \<noteq> ?p" using c(1) cs last_in_set [of cs] by auto
  let ?D = "lprev c ?p (lnext c m ?C)"
  define E where "E = lprev m c (lnext ?p c ?D)"
  define n where "n = ch_num (E (ch_prev (E c))) + 1"
  have C: "hp_chunk ?h = E(c := init_pages ((E c)\<lparr>ch_num := n\<rparr>))"
  proof -
    define g where "g = h\<lparr>hp_chunks_count := hp_chunks_count h + 1\<rparr>"
    define h0 where "h0 = g\<lparr>hp_peak_chunks_count := max (hp_peak_chunks_count g) (hp_chunks_count g)\<rparr>"
    define h1 where "h1 = upd_chunk c (\<lambda>c. c\<lparr>ch_next := hp_main_chunk h0\<rparr>) h0"
    define h2 where "h2 = upd_chunk c (\<lambda>c. c\<lparr>ch_prev := ch_prev (hp_chunk h1 (hp_main_chunk h1))\<rparr>) h1"
    define h3 where "h3 = upd_chunk (ch_prev (hp_chunk h2 c)) (\<lambda>b. b\<lparr>ch_next := c\<rparr>) h2"
    define h4 where "h4 = upd_chunk (ch_next (hp_chunk h3 c)) (\<lambda>b. b\<lparr>ch_prev := c\<rparr>) h3"
    define h5 where "h5 = upd_chunk c (\<lambda>b. b\<lparr>ch_num := ch_num (hp_chunk h4 (ch_prev (hp_chunk h4 c))) + 1\<rparr>) h4"
    have h: "?h = upd_chunk c init_pages h5"
      by (simp only: add_chunk_def zend_mm_chunk_init_def Let_def g_def h0_def h1_def h2_def h3_def h4_def h5_def)
    have "hp_chunk h0 = ?C" "hp_main_chunk h0 = m" using cs(2) by (simp_all add: h0_def g_def)
    then have 1: "hp_chunk h1 = lnext c m ?C" "hp_main_chunk h1 = m" by (simp_all only: h1_def hp_chunk_links upd_chunk_simps(2))
    then have 2: "hp_chunk h2 = ?D" by (simp only: h2_def hp_chunk_links lnext_simps m)
    then have 3: "hp_chunk h3 = lnext ?p c ?D" by (simp only: h3_def hp_chunk_links lprev_simps if_True refl)
    have "ch_next (lnext ?p c ?D c) = m" using ne by simp
    then have 4: "hp_chunk h4 = E" by (simp only: h4_def hp_chunk_links 3 E_def)
    show ?thesis unfolding h by (simp add: h5_def 4 n_def)
  qed
  show other: "same_data (hp_chunk ?h a) (?C a)" if "a \<noteq> c" for a
    using that unfolding C E_def by (auto simp: same_data_def lprev_def lnext_def)
  have "cached_ok ((E c)\<lparr>ch_num := n\<rparr>)" using c(4) by (auto simp: E_def lprev_def lnext_def cached_ok_def)
  from init_pages_ok [OF this] have new: "chunk_ok (hp_chunk ?h c) {}" unfolding C by simp
  have fields: "hp_main_chunk ?h = hp_main_chunk h" "hp_cached_chunks ?h = hp_cached_chunks h" "hp_os ?h = hp_os h"
    "same_blocks h ?h" "hp_real_size ?h = hp_real_size h"
  proof -
    define h0 where "h0 = (h\<lparr>hp_chunks_count := hp_chunks_count h + 1\<rparr>)
      \<lparr>hp_peak_chunks_count := max (hp_peak_chunks_count (h\<lparr>hp_chunks_count := hp_chunks_count h + 1\<rparr>))
        (hp_chunks_count (h\<lparr>hp_chunks_count := hp_chunks_count h + 1\<rparr>))\<rparr>"
    have "chunks_only h0 ?h" unfolding add_chunk_def zend_mm_chunk_init_def Let_def h0_def
      by (intro chunks_only_upd chunks_only_refl)
    note o = chunks_onlyD [OF this]
    show "hp_main_chunk ?h = hp_main_chunk h" "hp_cached_chunks ?h = hp_cached_chunks h" "hp_os ?h = hp_os h"
      "hp_real_size ?h = hp_real_size h" using o by (simp_all add: h0_def)
    have "same_blocks h h0" by (simp add: h0_def same_blocks_def)
    then show "same_blocks h ?h" using o(1) by (rule same_blocks_trans)
  qed
  then show "hp_os ?h = hp_os h" "same_blocks h ?h" "hp_real_size ?h = hp_real_size h" by simp_all
  show "ch_free_tail (hp_chunk ?h c) = ZEND_MM_FIRST_PAGE" unfolding C by (simp add: init_pages_def)
  have dsc: "hp_chunk ?h d = ?C d" if "d \<in> set ds" for d
  proof -
    have "d \<notin> set (m # xs)" "d \<noteq> c" using that pages_okD(4) [OF p] c(2) cs by auto
    then have "d \<noteq> m" "d \<noteq> ?p" "d \<noteq> c" using last_in_set [of "m # xs"] by auto
    then show ?thesis unfolding C E_def by (simp add: lprev_def lnext_def)
  qed
  show "pages_ok M (cs @ [c]) ds R ?h"
  proof (rule pages_okI)
    have "ring ?D (m # xs)" using pages_okD(1) [OF p] c(1) cs by (simp add: lprev_def lnext_def)
    then have "ring E (m # xs @ [c])" unfolding E_def using c(1) cs by (intro ring_insert_last) auto
    moreover have "ring (hp_chunk ?h) (m # xs @ [c]) = ring E (m # xs @ [c])"
      unfolding C by (rule ring_cong) (auto simp: init_pages_def)
    ultimately show "ring (hp_chunk ?h) (cs @ [c])" using cs(1) by simp
    show "chain 0 (\<lambda>a. ch_next (hp_chunk ?h a)) (hp_cached_chunks ?h) ds"
      using pages_okD(3) [OF p] fields(2) dsc chain_cong [of ds "\<lambda>a. ch_next (hp_chunk ?h a)" "\<lambda>a. ch_next (?C a)"] by simp
    show "chunk_ok (hp_chunk ?h a) (R a)" if "a \<in> set (cs @ [c])" for a
      using that new other [of a] pages_okD(6,8) [OF p] c(1) same_data_ok by (cases "a = c") auto
    show "cached_ok (hp_chunk ?h d)" if "d \<in> set ds" for d using pages_okD(7) [OF p that] dsc [OF that] by simp
  qed (use pages_okD [OF p] c fields cs in auto)
qed

lemma move_to_head_ok:
  assumes p: "pages_ok M cs ds R h" and c: "c \<in> set cs" "c \<noteq> hd cs"
  obtains cs' where "pages_ok M cs' ds R (move_to_head c h)" "set cs' = set cs" "same_blocks h (move_to_head c h)"
    "hp_os (move_to_head c h) = hp_os h" "hp_real_size (move_to_head c h) = hp_real_size h"
    "\<And>a. same_data (hp_chunk (move_to_head c h) a) (hp_chunk h a)"
proof -
  let ?h = "move_to_head c h" and ?C = "hp_chunk h"
  obtain m xs ys where cs: "cs = m # xs @ c # ys" "m = hp_main_chunk h"
  proof -
    obtain m xs where "cs = m # xs" "m = hp_main_chunk h" using c(1) pages_okD(2) [OF p] by (cases cs) auto
    moreover from this obtain us vs where "xs = us @ c # vs" using c split_list [of c xs] by auto
    ultimately show thesis using that by blast
  qed
  have r: "ring ?C (m # xs @ c # ys)" using pages_okD(1) [OF p] cs(1) by simp
  have d: "distinct (m # xs @ c # ys)" using r by (simp add: ring_def)
  define p' where "p' = ch_prev (?C c)"
  define s where "s = ch_next (?C c)"
  let ?D = "lnext p' s (lprev s p' ?C)"
  have D: "ring ?D (m # xs @ ys)" "p' = last (m # xs)" "s = hd (ys @ [m])" using ring_unlink [OF r] by (simp_all add: p'_def s_def)
  have ne: "c \<noteq> m" "c \<noteq> p'" "c \<noteq> s" using d D(2,3) last_in_set [of "m # xs"] by (auto simp: hd_append split: if_splits)
  define t where "t = ch_next (?D m)"
  have tm: "t = hd (xs @ ys @ [m])" using ring_at(1) [of ?D "[]" m "xs @ ys"] D(1) unfolding t_def by simp
  with d have tc: "t \<noteq> c" by (auto simp: hd_append split: if_splits)
  let ?E = "lprev c m (lnext c t ?D)"
  have C: "hp_chunk ?h = lprev t c (lnext m c ?E)"
  proof -
    define h1 where "h1 = upd_chunk (ch_prev (hp_chunk h c)) (\<lambda>b. b\<lparr>ch_next := ch_next (hp_chunk h c)\<rparr>) h"
    define h2 where "h2 = upd_chunk (ch_next (hp_chunk h1 c)) (\<lambda>b. b\<lparr>ch_prev := ch_prev (hp_chunk h1 c)\<rparr>) h1"
    define h3 where "h3 = upd_chunk c (\<lambda>b. b\<lparr>ch_next := ch_next (hp_chunk h2 (hp_main_chunk h2))\<rparr>) h2"
    define h4 where "h4 = upd_chunk c (\<lambda>b. b\<lparr>ch_prev := hp_main_chunk h3\<rparr>) h3"
    define h5 where "h5 = upd_chunk (ch_prev (hp_chunk h4 c)) (\<lambda>b. b\<lparr>ch_next := c\<rparr>) h4"
    have h: "?h = upd_chunk (ch_next (hp_chunk h5 c)) (\<lambda>b. b\<lparr>ch_prev := c\<rparr>) h5"
      by (simp only: move_to_head_def Let_def h1_def h2_def h3_def h4_def h5_def)
    have main: "hp_main_chunk h2 = m" "hp_main_chunk h3 = m" using cs(2) by (simp_all add: h1_def h2_def h3_def)
    have 1: "hp_chunk h1 = lnext p' s ?C" by (simp only: h1_def hp_chunk_links p'_def s_def)
    moreover have "ch_next (lnext p' s ?C c) = s" "ch_prev (lnext p' s ?C c) = p'" using ne by (simp_all add: p'_def s_def)
    ultimately have 2: "hp_chunk h2 = ?D" by (simp only: h2_def hp_chunk_links lnext_lprev)
    then have 3: "hp_chunk h3 = lnext c t ?D" by (simp only: h3_def hp_chunk_links main t_def)
    then have 4: "hp_chunk h4 = ?E" by (simp only: h4_def hp_chunk_links main)
    then have 5: "hp_chunk h5 = lnext m c ?E" by (simp only: h5_def hp_chunk_links lprev_simps if_True refl)
    have "ch_next (lnext m c ?E c) = t" using ne by simp
    then show ?thesis unfolding h by (simp only: hp_chunk_links 5)
  qed
  have E: "ring ?E (m # xs @ ys)" using D(1) d by (simp add: lprev_def [of c] lnext_def [of c])
  have R: "ring (hp_chunk ?h) (m # c # xs @ ys)"
    unfolding C using ring_insert_second [OF E, of c] d ne by (simp add: t_def)
  have data: "same_data (hp_chunk ?h a) (?C a)" for a unfolding C by (auto simp: same_data_def lprev_def lnext_def)
  have mem: "m \<in> set cs" "s \<in> set cs" "p' \<in> set cs" "t \<in> set cs"
    using cs(1) D(2,3) tm last_in_set [of "m # xs"] by (auto simp: hd_append hd_in_set split: if_splits)
  have other: "hp_chunk ?h a = ?C a" if "a \<notin> set cs" for a
  proof -
    have "a \<noteq> m" "a \<noteq> s" "a \<noteq> p'" "a \<noteq> t" "a \<noteq> c" using that mem c(1) by auto
    then show ?thesis unfolding C by (simp add: lprev_def lnext_def)
  qed
  have "chunks_only h ?h" unfolding move_to_head_def Let_def by (intro chunks_only_upd chunks_only_refl)
  note f = chunks_onlyD [OF this]
  have "pages_ok M (m # c # xs @ ys) ds R ?h"
    using R cs by (intro relinked_ok [OF p] data other f(2-4)) auto
  moreover have "set (m # c # xs @ ys) = set cs" using cs by auto
  ultimately show thesis using f data by (intro that [of "m # c # xs @ ys"])
qed

subsection \<open>\<open>zend_mm_alloc_pages\<close>\<close>

lemma mark_run_eq: "hp_chunk (mark_run c p n h) = (hp_chunk h)(c := marked_chunk p n (hp_chunk h c))"
  by (simp add: mark_run_def marked_chunk_def)

lemma mark_run_ok:
  assumes p: "pages_ok M cs ds R h" and r: "run_free cs h n c q" "0 < n"
  shows "pages_ok M cs ds (R(c := insert (q, n) (R c))) (mark_run c q n h)" "same_blocks h (mark_run c q n h)"
    "hp_os (mark_run c q n h) = hp_os h" "hp_real_size (mark_run c q n h) = hp_real_size h"
proof -
  let ?h = "mark_run c q n h"
  have c: "c \<in> set cs" "c \<notin> set ds" using r(1) pages_okD(4) [OF p] by (auto simp: run_free_def)
  have ok: "chunk_ok (marked_chunk q n (hp_chunk h c)) (insert (q, n) (R c))"
    using r by (intro marked_chunk_ok pages_okD(6) [OF p c(1)]) (auto simp: run_free_def)
  have next_prev: "ch_next (hp_chunk ?h a) = ch_next (hp_chunk h a)" "ch_prev (hp_chunk ?h a) = ch_prev (hp_chunk h a)" for a
    by (simp_all add: mark_run_eq marked_chunk_def)
  show "same_blocks h ?h" "hp_os ?h = hp_os h" "hp_real_size ?h = hp_real_size h" by (simp_all add: mark_run_def upd_chunk_def same_blocks_def)
  have f: "hp_main_chunk ?h = hp_main_chunk h" "hp_cached_chunks ?h = hp_cached_chunks h" "hp_os ?h = hp_os h"
    by (simp_all add: mark_run_def)
  show "pages_ok M cs ds (R(c := insert (q, n) (R c))) ?h"
  proof (rule pages_okI)
    show "ring (hp_chunk ?h) cs" using pages_okD(1) [OF p] ring_cong [of cs "hp_chunk ?h" "hp_chunk h"] next_prev by simp
    show "chunk_ok (hp_chunk ?h a) ((R(c := insert (q, n) (R c))) a)" if "a \<in> set cs" for a
      using pages_okD(6) [OF p that] ok by (simp add: mark_run_eq)
  qed (use pages_okD [OF p] f c next_prev in \<open>auto simp: mark_run_eq\<close>)
qed

lemma grown_refl: "grown M cs ds h cs ds h"
  by (auto simp: grown_def)

lemma grown_retailed: "retailed h h' \<Longrightarrow> same_blocks h h' \<and> hp_os h' = hp_os h \<and> hp_real_size h' = hp_real_size h \<and> hp_limit h' = hp_limit h \<and>
    (\<forall>a. ch_free_map (hp_chunk h' a) = ch_free_map (hp_chunk h a) \<and> ch_map (hp_chunk h' a) = ch_map (hp_chunk h a))"
  by (auto simp: retailed_def same_blocks_def)

lemma grown_same:
  assumes "grown M cs ds h cs' ds' h'" "same_blocks h' h''" "hp_os h'' = hp_os h'" "hp_real_size h'' = hp_real_size h'" "set cs'' = set cs'"
  shows "grown M cs ds h cs'' ds' h''"
  using assms same_blocks_trans unfolding grown_def pool_def by auto

lemma grown_from:
  assumes "same_blocks h h'" "hp_os h' = hp_os h" "hp_real_size h' = hp_real_size h" "grown M cs ds h' cs' ds' h''"
  shows "grown M cs ds h cs' ds' h''"
  using assms(2-4) same_blocks_trans [OF assms(1)] unfolding grown_def by metis

definition maps_kept :: "nat list \<Rightarrow> 'os mm_heap \<Rightarrow> 'os mm_heap \<Rightarrow> bool" where
  "maps_kept cs h h' = (\<forall>a \<in> set cs. ch_map (hp_chunk h' a) = ch_map (hp_chunk h a))"

lemma place_ok:
  assumes p: "pages_ok M cs ds R h" and os: "os_ok os M" and r: "limit_room ZEND_MM_CHUNK_SIZE h" and n: "0 < n" "n < ZEND_MM_PAGES"
  obtains c q steps cs' ds' h1 where
    "rbind (ends (find_run n (hp_main_chunk h) 0 h)) (\<lambda>(found, steps, h).
       rbind (case found of
           Some (chunk, page_num) \<Rightarrow> Inr (chunk, page_num, h)
         | None \<Rightarrow> rbind (rbind (ends (get_chunk os h)) (\<lambda>r. r)) (\<lambda>(chunk, h).
             Inr (chunk, ZEND_MM_FIRST_PAGE, add_chunk chunk h))) (\<lambda>(chunk, page_num, h). Inr (chunk, page_num, steps, h))) =
       Inr (c, q, steps, h1)"
    "pages_ok M cs' ds' R h1" "run_free cs' h1 n c q" "grown M cs ds h cs' ds' h1" "maps_kept cs h h1" "2 < steps \<longrightarrow> c \<noteq> hd cs'"
proof -
  obtain ys where cs: "cs = [] @ hp_main_chunk h # ys" using pages_okD(1,2) [OF p] by (cases cs) (auto simp: ring_def)
  from find_run_ok [OF p cs n(1)] obtain found steps h' where f: "find_run n (hp_main_chunk h) 0 h = Some (found, steps, h')"
    "pages_ok M cs ds R h'" "retailed h h'"
    "case found of None \<Rightarrow> True | Some (d, p) \<Rightarrow> steps < length cs \<and> d = cs ! steps \<and> run_free cs h' n d p" by auto
  note g = grown_retailed [OF f(3)]
  show thesis
  proof (cases found)
    case (Some dq)
    obtain d q where dq: "dq = (d, q)" by fastforce
    have "grown M cs ds h cs ds h'" using grown_same [OF grown_refl] g by blast
    moreover have "2 < steps \<longrightarrow> d \<noteq> hd cs"
    proof
      assume "2 < steps"
      moreover have "distinct cs" "steps < length cs" "d = cs ! steps" using pages_okD(4) [OF p] f(4) Some dq by auto
      ultimately show "d \<noteq> hd cs" using nth_eq_iff_index_eq [of cs steps 0] cs by (simp add: hd_conv_nth)
    qed
    ultimately show thesis using f Some dq g by (intro that [of d q steps h' cs ds]) (auto simp: ends_def maps_kept_def)
  next
    case None
    have "limit_room ZEND_MM_CHUNK_SIZE h'" using r g by (simp add: limit_room_def)
    from get_chunk_ok [OF f(2) os this] obtain c ds' h2 where c: "get_chunk os h' = Some (Inr (c, h2))" "pages_ok M cs ds' R h2"
      "c \<notin> set cs" "c \<notin> set ds'" "is_chunk (M (hp_os h2)) c" "cached_ok (hp_chunk h2 c)" "grown M cs ds h' (cs @ [c]) ds' h2"
      "\<And>a. a \<in> set cs \<Longrightarrow> hp_chunk h2 a = hp_chunk h' a" by metis
    note a = add_chunk_ok [OF c(2-6)]
    have "run_free (cs @ [c]) (add_chunk c h2) n c ZEND_MM_FIRST_PAGE"
    proof -
      have "\<not> page (ch_free_map (hp_chunk (add_chunk c h2) c)) k" if "k \<in> {ZEND_MM_FIRST_PAGE..<ZEND_MM_FIRST_PAGE + n}" for k
        using chunk_ok_pages [OF pages_okD(6) [OF a(1)], of c k] that n pages_okD(8) [OF c(2,3)]
        by (auto simp: ZEND_MM_FIRST_PAGE_def in_runs_def)
      then show ?thesis using n a(6) by (auto simp: run_free_def ZEND_MM_FIRST_PAGE_def)
    qed
    moreover have "grown M cs ds h (cs @ [c]) ds' (add_chunk c h2)"
      using grown_from [OF _ _ _ grown_same [OF c(7) a(2-4) refl]] g by blast
    moreover have "maps_kept cs h (add_chunk c h2)"
      unfolding maps_kept_def
    proof
      fix b assume b: "b \<in> set cs"
      then have "b \<noteq> c" using c(3) by auto
      then show "ch_map (hp_chunk (add_chunk c h2) b) = ch_map (hp_chunk h b)"
        using a(5) [of b] c(8) [OF b] g by (simp add: same_data_def)
    qed
    moreover have "c \<noteq> hd (cs @ [c])" using c(3) cs by (cases cs) auto
    ultimately show thesis
      using f(1) None c(1) a(1) by (intro that [of c ZEND_MM_FIRST_PAGE steps "add_chunk c h2" "cs @ [c]" ds']) (auto simp: ends_def)
  qed
qed

text \<open>The run that is allocated is new, and everything else is as before.\<close>

lemma alloc_pages_ok:
  assumes p: "pages_ok M cs ds R h" and os: "os_ok os M" and r: "limit_room ZEND_MM_CHUNK_SIZE h" and n: "0 < n" "n < ZEND_MM_PAGES"
  obtains c q cs' ds' h' where "zend_mm_alloc_pages os n h = Inr (ZEND_MM_PAGE_ADDR c q, h')"
    "pages_ok M cs' ds' (R(c := insert (q, n) (R c))) h'" "c \<in> set cs'" "0 < q" "q + n \<le> ZEND_MM_PAGES"
    "\<And>k. k \<in> {q..<q + n} \<Longrightarrow> \<not> in_runs (R c) k" "grown M cs ds h cs' ds' h'"
    "ch_map (hp_chunk h' c) ! q = ZEND_MM_LRUN n"
    "\<And>a k. a \<in> set cs \<Longrightarrow> (a, k) \<noteq> (c, q) \<Longrightarrow> ch_map (hp_chunk h' a) ! k = ch_map (hp_chunk h a) ! k"
proof -
  obtain c q steps cs' ds' h1 where
    pl: "rbind (ends (find_run n (hp_main_chunk h) 0 h)) (\<lambda>(found, steps, h).
       rbind (case found of
           Some (chunk, page_num) \<Rightarrow> Inr (chunk, page_num, h)
         | None \<Rightarrow> rbind (rbind (ends (get_chunk os h)) (\<lambda>r. r)) (\<lambda>(chunk, h).
             Inr (chunk, ZEND_MM_FIRST_PAGE, add_chunk chunk h))) (\<lambda>(chunk, page_num, h). Inr (chunk, page_num, steps, h))) =
       Inr (c, q, steps, h1)"
    "pages_ok M cs' ds' R h1" "run_free cs' h1 n c q" "grown M cs ds h cs' ds' h1" "maps_kept cs h h1" "2 < steps \<longrightarrow> c \<noteq> hd cs'"
    by (rule place_ok [OF p os r n])
  define h2 where "h2 = (if steps > 2 \<and> n < 8 then move_to_head c h1 else h1)"
  have eq: "zend_mm_alloc_pages os n h = Inr (ZEND_MM_PAGE_ADDR c q, mark_run c q n h2)"
    using pl(1) unfolding zend_mm_alloc_pages_def h2_def
    by (auto simp: Let_def elim!: rbind_InrE split: option.splits prod.splits)
  have cq: "c \<in> set cs'" "0 < q" "q + n \<le> ZEND_MM_PAGES" "\<And>k. k \<in> {q..<q + n} \<Longrightarrow> \<not> page (ch_free_map (hp_chunk h1 c)) k"
    using pl(3) by (auto simp: run_free_def)
  have "\<exists>cs''. pages_ok M cs'' ds' R h2 \<and> set cs'' = set cs' \<and> same_blocks h1 h2 \<and> hp_os h2 = hp_os h1 \<and>
    hp_real_size h2 = hp_real_size h1 \<and> (\<forall>a. same_data (hp_chunk h2 a) (hp_chunk h1 a))"
  proof (cases "steps > 2 \<and> n < 8")
    case True
    then have "c \<noteq> hd cs'" using pl(6) by simp
    from move_to_head_ok [OF pl(2) cq(1) this] show ?thesis using True unfolding h2_def by (simp only: if_True simp_thms) metis
  next
    case False
    then have "h2 = h1" by (auto simp: h2_def)
    then show ?thesis using pl(2) by (auto simp: same_data_def)
  qed
  then obtain cs'' where m: "pages_ok M cs'' ds' R h2" "set cs'' = set cs'" "same_blocks h1 h2" "hp_os h2 = hp_os h1"
    "hp_real_size h2 = hp_real_size h1" "\<And>a. same_data (hp_chunk h2 a) (hp_chunk h1 a)" by blast
  have rf: "run_free cs'' h2 n c q" using pl(3) m(2,6) by (simp add: run_free_def same_data_def)
  note k = mark_run_ok [OF m(1) rf n(1)]
  have map: "ch_map (hp_chunk (mark_run c q n h2) a) = (if a = c then (ch_map (hp_chunk h1 a))[q := ZEND_MM_LRUN n] else ch_map (hp_chunk h1 a))" for a
    using m(6) [of a] by (auto simp: mark_run_eq marked_chunk_def same_data_def)
  have free: "\<not> in_runs (R c) i" if "i \<in> {q..<q + n}" for i
    using chunk_ok_free [OF pages_okD(6) [OF pl(2) cq(1)], of i] cq(3) cq(4) [OF that] that by auto
  have len: "length (ch_map (hp_chunk h1 c)) = ZEND_MM_PAGES" using chunk_ok_counts [OF pages_okD(6) [OF pl(2) cq(1)]] by simp
  show thesis
  proof (rule that [OF eq k(1)])
    show "grown M cs ds h cs'' ds' (mark_run c q n h2)"
      using grown_same [OF pl(4) same_blocks_trans [OF m(3) k(2)]] k(3,4) m(2,4,5) by simp
    show "ch_map (hp_chunk (mark_run c q n h2) c) ! q = ZEND_MM_LRUN n" using len cq(3) n(1) by (simp add: map)
    show "ch_map (hp_chunk (mark_run c q n h2) a) ! i = ch_map (hp_chunk h a) ! i" if "a \<in> set cs" "(a, i) \<noteq> (c, q)" for a i
      using that pl(5) by (auto simp: map maps_kept_def nth_list_update)
  qed (use m(2) cq free in auto)
qed

end
