(* ===== verification/Zend_Mm_Pages_Free.thy ===== *)
theory Zend_Mm_Pages_Free
  imports Zend_Mm_Pages_Correct
begin

section \<open>Freeing runs of pages\<close>

text \<open>
  Freeing a run makes its pages free.  A chunk that becomes free leaves the ring, for the cache or
  for the operating system, unless it is the main chunk, for which that would be wrong.
\<close>

definition shrunk :: "('os \<Rightarrow> nat set) \<Rightarrow> nat list \<Rightarrow> nat list \<Rightarrow> 'os mm_heap \<Rightarrow> nat list \<Rightarrow> nat list \<Rightarrow> 'os mm_heap \<Rightarrow> bool" where
  "shrunk M cs ds h cs' ds' h' = (same_blocks h h' \<and> M (hp_os h') \<subseteq> M (hp_os h) \<and>
     M (hp_os h) - (\<Union>c \<in> set cs \<union> set ds. area c) \<subseteq> M (hp_os h') \<and> set cs' \<subseteq> set cs \<and> set ds' \<subseteq> set cs \<union> set ds \<and>
     hp_real_size h' \<le> hp_real_size h \<and>
     (ZEND_MM_CHUNK_SIZE \<le> hp_real_size h \<longrightarrow> hp_real_size h' + pool cs ds = hp_real_size h + pool cs' ds'))"

lemma free_step:
  assumes p: "pages_ok M cs ds R h" and c: "c \<in> set cs" "(q, n) \<in> R c"
  defines "h' \<equiv> upd_chunk c (freed_chunk q n) h"
  shows "pages_ok M cs ds (R(c := R c - {(q, n)})) h'" "shrunk M cs ds h cs ds h'"
    "\<And>a k. (a, k) \<noteq> (c, q) \<Longrightarrow> ch_map (hp_chunk h' a) ! k = ch_map (hp_chunk h a) ! k"
proof -
  have cd: "c \<notin> set ds" using c(1) pages_okD(4) [OF p] by auto
  have next_prev: "ch_next (hp_chunk h' a) = ch_next (hp_chunk h a)" "ch_prev (hp_chunk h' a) = ch_prev (hp_chunk h a)" for a
    by (simp_all add: h'_def freed_chunk_def)
  have f: "hp_main_chunk h' = hp_main_chunk h" "hp_cached_chunks h' = hp_cached_chunks h" "hp_os h' = hp_os h"
    by (simp_all add: h'_def)
  have "same_blocks h h'" "hp_real_size h' = hp_real_size h" by (simp_all add: h'_def upd_chunk_def same_blocks_def)
  then show "shrunk M cs ds h cs ds h'" using f by (auto simp: shrunk_def)
  show "ch_map (hp_chunk h' a) ! k = ch_map (hp_chunk h a) ! k" if "(a, k) \<noteq> (c, q)" for a k
    using that by (auto simp: h'_def freed_chunk_def nth_list_update)
  show "pages_ok M cs ds (R(c := R c - {(q, n)})) h'"
  proof (rule pages_okI)
    show "ring (hp_chunk h') cs" using pages_okD(1) [OF p] ring_cong [of cs "hp_chunk h'" "hp_chunk h"] next_prev by simp
    show "chunk_ok (hp_chunk h' a) ((R(c := R c - {(q, n)})) a)" if "a \<in> set cs" for a
      using pages_okD(6) [OF p that] freed_chunk_ok [OF pages_okD(6) [OF p c(1)] c(2)] by (simp add: h'_def)
    show "cached_ok (hp_chunk h' a)" if "a \<in> set ds" for a
      using pages_okD(7) [OF p that] cd that by (auto simp: h'_def)
  qed (use pages_okD [OF p] f next_prev in auto)
qed

lemma unlink_ok:
  assumes r: "ring (hp_chunk h) cs" and m: "hd cs = hp_main_chunk h" and c: "c \<in> set cs" "c \<noteq> hp_main_chunk h"
  obtains cs' where "ring (hp_chunk (unlink_chunk c h)) cs'" "hd cs' = hp_main_chunk h" "set cs' = set cs - {c}"
    "\<And>a. same_data (hp_chunk (unlink_chunk c h) a) (hp_chunk h a)" "\<And>a. a \<notin> set cs \<Longrightarrow> hp_chunk (unlink_chunk c h) a = hp_chunk h a"
proof -
  obtain xs ys where cs: "cs = hp_main_chunk h # xs @ c # ys"
  proof -
    obtain zs where "cs = hp_main_chunk h # zs" using c(1) m by (cases cs) auto
    moreover from this obtain us vs where "zs = us @ c # vs" using c split_list [of c zs] by auto
    ultimately show thesis using that by blast
  qed
  let ?m = "hp_main_chunk h" and ?C = "hp_chunk h"
  have r': "ring ?C (?m # xs @ c # ys)" using r cs by simp
  have d: "distinct (?m # xs @ c # ys)" using r' by (simp add: ring_def)
  note u = ring_unlink [OF r']
  have ne: "ch_next (?C c) \<noteq> c" using u(3) d by (auto simp: hd_append split: if_splits)
  have "hp_chunk (unlink_chunk c h) = lnext (ch_prev (?C c)) (ch_next (?C c)) (lprev (ch_next (?C c)) (ch_prev (?C c)) ?C)"
  proof -
    define h1 where "h1 = upd_chunk (ch_next (hp_chunk h c)) (\<lambda>b. b\<lparr>ch_prev := ch_prev (hp_chunk h c)\<rparr>) h"
    have e: "unlink_chunk c h = upd_chunk (ch_prev (hp_chunk h1 c)) (\<lambda>b. b\<lparr>ch_next := ch_next (hp_chunk h1 c)\<rparr>) h1"
      by (simp only: unlink_chunk_def Let_def h1_def)
    have 1: "hp_chunk h1 = lprev (ch_next (?C c)) (ch_prev (?C c)) ?C" by (simp only: h1_def hp_chunk_links)
    have "ch_prev (hp_chunk h1 c) = ch_prev (?C c)" "ch_next (hp_chunk h1 c) = ch_next (?C c)" using ne by (simp_all add: 1)
    then show ?thesis unfolding e by (simp only: hp_chunk_links 1)
  qed
  note e = this
  have mem: "ch_prev (?C c) \<in> set cs" "ch_next (?C c) \<in> set cs"
    using u(2,3) cs last_in_set [of "?m # xs"] by (auto simp: hd_append hd_in_set split: if_splits)
  show thesis
  proof (rule that [of "?m # xs @ ys"])
    show "hp_chunk (unlink_chunk c h) a = hp_chunk h a" if "a \<notin> set cs" for a
    proof -
      have "a \<noteq> ch_prev (?C c)" "a \<noteq> ch_next (?C c)" using that mem by auto
      then show ?thesis unfolding e by (simp add: lprev_def lnext_def)
    qed
  qed (use u(1) cs d in \<open>auto simp: e same_data_def lprev_def lnext_def\<close>)
qed

lemma unlink_fields [simp]:
  "hp_main_chunk (unlink_chunk c h) = hp_main_chunk h" "hp_cached_chunks (unlink_chunk c h) = hp_cached_chunks h"
  "hp_os (unlink_chunk c h) = hp_os h" "hp_real_size (unlink_chunk c h) = hp_real_size h" "same_blocks h (unlink_chunk c h)"
  by (simp_all add: unlink_chunk_def Let_def upd_chunk_def same_blocks_def)

lemma is_chunk_minus:
  assumes "is_chunk m a" "is_chunk m c" "a \<noteq> c"
  shows "is_chunk (m - area c) a"
proof -
  have "area a \<inter> area c = {}" using assms by (intro area_disjoint) (auto simp: is_chunk_def)
  then show ?thesis using assms(1) unfolding is_chunk_def by auto
qed

text \<open>The size that counts as mapped and the chunks, before and after one of them may have been given back.\<close>

definition given_back :: "nat \<Rightarrow> nat \<Rightarrow> nat set \<Rightarrow> nat set \<Rightarrow> bool" where
  "given_back r r' A A' = (r' = r \<and> A' = A \<or> r' = r - ZEND_MM_CHUNK_SIZE \<and> (\<exists>d \<in> A. A' = A - {d}))"

text \<open>The chunk \<open>d\<close> that goes back to the operating system, if any, and the new list of cached chunks.\<close>

lemma deleted_ok:
  assumes p: "pages_ok M cs ds R h" and c: "c \<in> set cs" "c \<noteq> hp_main_chunk h" "R c = {}" "cached_ok (hp_chunk h c)"
    and cs': "ring (hp_chunk h') cs'" "hd cs' = hp_main_chunk h" "set cs' = set cs - {c}"
    and f: "hp_main_chunk h' = hp_main_chunk h" "\<And>a. same_data (hp_chunk h' a) (hp_chunk h a)"
    and ds: "chain 0 (\<lambda>a. ch_next (hp_chunk h' a)) (hp_cached_chunks h') ds'" "distinct ds'" "set ds' \<subseteq> insert c (set ds)"
    and m: "M (hp_os h') = M (hp_os h) \<or> (\<exists>d \<in> insert c (set ds). d \<notin> set ds' \<and> M (hp_os h') = M (hp_os h) - area d)"
    and b: "same_blocks h h'"
    and real: "given_back (hp_real_size h) (hp_real_size h') (set cs \<union> set ds) (set cs' \<union> set ds')"
  shows "pages_ok M cs' ds' R h'" "shrunk M cs ds h cs' ds' h'"
proof -
  have dj: "set cs \<inter> set ds = {}" using pages_okD(4) [OF p] by simp
  have keep: "is_chunk (M (hp_os h')) a" if a: "a \<in> set cs' \<or> a \<in> set ds'" for a
  proof -
    have in_h: "is_chunk (M (hp_os h)) x" if "x \<in> set cs \<or> x \<in> set ds" for x using pages_okD(5) [OF p that] .
    have ah: "is_chunk (M (hp_os h)) a" using in_h [of a] a cs'(3) ds(3) c(1) by auto
    show ?thesis
    proof (cases "M (hp_os h') = M (hp_os h)")
      case False
      then obtain d where d: "d \<in> insert c (set ds)" "d \<notin> set ds'" "M (hp_os h') = M (hp_os h) - area d" using m by blast
      have "a \<noteq> d" using a d(1,2) cs'(3) dj by auto
      moreover have "is_chunk (M (hp_os h)) d" using in_h [of d] d(1) c(1) by auto
      ultimately show ?thesis using is_chunk_minus [OF ah] d(3) by simp
    qed (use ah in simp)
  qed
  show "pages_ok M cs' ds' R h'"
  proof (rule pages_okI)
    show "distinct (cs' @ ds')" using cs'(1,3) ds(2,3) dj by (auto simp: ring_def)
    show "chunk_ok (hp_chunk h' a) (R a)" if "a \<in> set cs'" for a
      using pages_okD(6) [OF p, of a] that cs'(3) same_data_ok [OF f(2)] by simp
    show "cached_ok (hp_chunk h' a)" if "a \<in> set ds'" for a
    proof -
      have "cached_ok (hp_chunk h a)" using that ds(3) pages_okD(7) [OF p, of a] c(4) by auto
      then show ?thesis using f(2) [of a] by (simp add: cached_ok_def same_data_def)
    qed
    show "R a = {}" if "a \<notin> set cs'" for a using that cs'(3) c(3) pages_okD(8) [OF p, of a] by auto
  qed (use cs' ds(1) f(1) keep in auto)
  have "hp_real_size h' \<le> hp_real_size h \<and>
     (ZEND_MM_CHUNK_SIZE \<le> hp_real_size h \<longrightarrow> hp_real_size h' + pool cs ds = hp_real_size h + pool cs' ds')"
    using real unfolding given_back_def
  proof
    assume r: "hp_real_size h' = hp_real_size h - ZEND_MM_CHUNK_SIZE \<and> (\<exists>d \<in> set cs \<union> set ds. set cs' \<union> set ds' = set cs \<union> set ds - {d})"
    then obtain d where d: "d \<in> set cs \<union> set ds" "set cs' \<union> set ds' = set cs \<union> set ds - {d}" by blast
    have "card (set cs \<union> set ds) = Suc (card (set cs \<union> set ds - {d}))" using d(1) by (intro card.remove) auto
    then have "pool cs ds = ZEND_MM_CHUNK_SIZE + pool cs' ds'" using d(2) by (simp add: pool_def)
    with r show ?thesis by simp
  qed (simp add: pool_def)
  then show "shrunk M cs ds h cs' ds' h'" using b m cs'(3) ds(3) c(1) unfolding shrunk_def by fastforce
qed

lemma delete_chunk_ok:
  assumes p: "pages_ok M cs ds R h" and os: "os_ok os M" and c: "c \<in> set cs" "c \<noteq> hp_main_chunk h" "R c = {}" "cached_ok (hp_chunk h c)"
  obtains cs' ds' where "pages_ok M cs' ds' R (zend_mm_delete_chunk os c h)" "shrunk M cs ds h cs' ds' (zend_mm_delete_chunk os c h)"
    "set cs' = set cs - {c}" "\<And>a. ch_map (hp_chunk (zend_mm_delete_chunk os c h) a) = ch_map (hp_chunk h a)"
proof -
  from unlink_ok [OF pages_okD(1,2) [OF p] c(1,2)] obtain cs' where u: "ring (hp_chunk (unlink_chunk c h)) cs'" "hd cs' = hp_main_chunk h"
    "set cs' = set cs - {c}" "\<And>a. same_data (hp_chunk (unlink_chunk c h) a) (hp_chunk h a)"
    "\<And>a. a \<notin> set cs \<Longrightarrow> hp_chunk (unlink_chunk c h) a = hp_chunk h a" by metis
  define h1 where "h1 = (unlink_chunk c h)\<lparr>hp_chunks_count := hp_chunks_count (unlink_chunk c h) - 1\<rparr>"
  have h1: "hp_chunk h1 = hp_chunk (unlink_chunk c h)" "hp_main_chunk h1 = hp_main_chunk h" "hp_cached_chunks h1 = hp_cached_chunks h"
    "hp_os h1 = hp_os h" "hp_real_size h1 = hp_real_size h" "same_blocks h h1"
    using unlink_fields(5) [of h c] by (simp_all add: h1_def same_blocks_def)
  have dj: "set cs \<inter> set ds = {}" "distinct ds" using pages_okD(4) [OF p] by simp_all
  have cd: "c \<notin> set ds" "c \<noteq> 0" using dj c(1) pages_okD(5) [OF p, of c] by (auto simp: is_chunk_def)
  have ch: "chain 0 (\<lambda>a. ch_next (hp_chunk h1 a)) (hp_cached_chunks h) ds"
    using pages_okD(3) [OF p] dj(1) u(5) h1(1) chain_cong [of ds "\<lambda>a. ch_next (hp_chunk h1 a)" "\<lambda>a. ch_next (hp_chunk h a)"] by fastforce
  have relink: "ring ((hp_chunk h1)(c := x)) cs'" for x using u(1,3) h1(1) by simp
  have upd: "chain 0 (\<lambda>a. ch_next (((hp_chunk h1)(c := x)) a)) e as = chain 0 (\<lambda>a. ch_next (hp_chunk h1 a)) e as" if "c \<notin> set as" for x e as
    using that chain_cong [of as "\<lambda>a. ch_next (((hp_chunk h1)(c := x)) a)" "\<lambda>a. ch_next (hp_chunk h1 a)"] by fastforce
  have data: "same_data (((hp_chunk h1)(c := (hp_chunk h1 c)\<lparr>ch_next := y\<rparr>)) a) (hp_chunk h a)" for y a
    using u(4) [of a] h1(1) by (auto simp: same_data_def)
  note fin = deleted_ok [OF p c, where cs' = cs']
  let ?h = "zend_mm_delete_chunk os c h"
  have "\<exists>ds'. pages_ok M cs' ds' R ?h \<and> shrunk M cs ds h cs' ds' ?h \<and> (\<forall>a. same_data (hp_chunk ?h a) (hp_chunk h a))"
  proof (cases "of_int (hp_chunks_count h1 + hp_cached_chunks_count h1) < hp_avg_chunks_count h1 + 1 / 10 \<or>
      hp_chunks_count h1 = hp_last_chunks_delete_boundary h1 \<and> hp_last_chunks_delete_count h1 \<ge> 4")
    case True
    let ?h' = "(upd_chunk c (\<lambda>c. c\<lparr>ch_next := hp_cached_chunks h1\<rparr>)
      (h1\<lparr>hp_cached_chunks_count := hp_cached_chunks_count h1 + 1\<rparr>))\<lparr>hp_cached_chunks := c\<rparr>"
    have e: "?h = ?h'" unfolding zend_mm_delete_chunk_def Let_def h1_def [symmetric] if_P [OF True] by simp
    have "set cs' \<union> set (c # ds) = set cs \<union> set ds" using c(1) u(3) by auto
    then have rm: "given_back (hp_real_size h) (hp_real_size ?h') (set cs \<union> set ds) (set cs' \<union> set (c # ds))"
      using h1(5) by (simp add: given_back_def upd_chunk_def)
    have "pages_ok M cs' (c # ds) R ?h' \<and> shrunk M cs ds h cs' (c # ds) ?h'"
      by (intro conjI fin rm) (use relink u(2,3) data h1 cd ch upd [of ds] dj(2) in \<open>auto simp: same_blocks_def upd_chunk_def\<close>)
    then show ?thesis unfolding e using data h1 by auto
  next
    case False
    define h2 where "h2 = h1\<lparr>hp_real_size := hp_real_size h1 - ZEND_MM_CHUNK_SIZE\<rparr>"
    define h3 where "h3 = (if hp_cached_chunks h2 = 0 then
                       if hp_chunks_count h2 \<noteq> hp_last_chunks_delete_boundary h2
                       then h2\<lparr>hp_last_chunks_delete_boundary := hp_chunks_count h2, hp_last_chunks_delete_count := 0\<rparr>
                       else h2\<lparr>hp_last_chunks_delete_count := hp_last_chunks_delete_count h2 + 1\<rparr>
                     else h2)"
    have h3: "hp_chunk h3 = hp_chunk h1" "hp_main_chunk h3 = hp_main_chunk h" "hp_cached_chunks h3 = hp_cached_chunks h"
      "hp_os h3 = hp_os h" "hp_real_size h3 = hp_real_size h - ZEND_MM_CHUNK_SIZE" "same_blocks h h3"
      using h1 by (auto simp: h3_def h2_def same_blocks_def)
    have e: "?h = (if hp_cached_chunks h3 = 0 \<or> ch_num (hp_chunk h3 c) > ch_num (hp_chunk h3 (hp_cached_chunks h3))
               then zend_mm_chunk_free os c ZEND_MM_CHUNK_SIZE h3
               else (let h = upd_chunk c (\<lambda>c. c\<lparr>ch_next := ch_next (hp_chunk h3 (hp_cached_chunks h3))\<rparr>) h3;
                         h = zend_mm_chunk_free os (hp_cached_chunks h) ZEND_MM_CHUNK_SIZE h
                     in h\<lparr>hp_cached_chunks := c\<rparr>))"
      unfolding zend_mm_delete_chunk_def h1_def [symmetric] Let_def if_not_P [OF False] h2_def [symmetric] h3_def [symmetric] ..
    have free: "M (hp_os (zend_mm_chunk_free os d ZEND_MM_CHUNK_SIZE g)) = M (hp_os g) - area d" for d g
      using os_okD(2) [OF os] by (simp add: zend_mm_chunk_free_def area_def)
    show ?thesis
    proof (cases "hp_cached_chunks h3 = 0 \<or> ch_num (hp_chunk h3 c) > ch_num (hp_chunk h3 (hp_cached_chunks h3))")
      case True
      let ?h' = "zend_mm_chunk_free os c ZEND_MM_CHUNK_SIZE h3"
      have g: "hp_chunk ?h' = hp_chunk h1" "hp_main_chunk ?h' = hp_main_chunk h" "hp_cached_chunks ?h' = hp_cached_chunks h"
        "hp_real_size ?h' = hp_real_size h - ZEND_MM_CHUNK_SIZE" "same_blocks h ?h'" "M (hp_os ?h') = M (hp_os h) - area c"
        using h3 free by (auto simp: zend_mm_chunk_free_def same_blocks_def)
      have "set cs' \<union> set ds = set cs \<union> set ds - {c}" using c(1) u(3) cd by auto
      then have rm: "given_back (hp_real_size h) (hp_real_size ?h') (set cs \<union> set ds) (set cs' \<union> set ds)"
        using g(4) c(1) by (auto simp: given_back_def)
      have "pages_ok M cs' ds R ?h' \<and> shrunk M cs ds h cs' ds ?h'"
        by (intro conjI fin rm) (use u h1(1) g cd ch dj(2) in auto)
      then show ?thesis unfolding e if_P [OF True] using g(1) h1(1) u(4) by auto
    next
      case no: False
      then obtain d ds' where ds: "ds = d # ds'" "hp_cached_chunks h = d" using ch h3(3) by (cases ds) auto
      let ?h' = "(zend_mm_chunk_free os d ZEND_MM_CHUNK_SIZE (upd_chunk c (\<lambda>c. c\<lparr>ch_next := ch_next (hp_chunk h3 d)\<rparr>) h3))\<lparr>hp_cached_chunks := c\<rparr>"
      have e': "?h = ?h'" unfolding e if_not_P [OF no] Let_def using h3(3) ds(2) by simp
      have g: "hp_chunk ?h' = (hp_chunk h1)(c := (hp_chunk h1 c)\<lparr>ch_next := ch_next (hp_chunk h1 d)\<rparr>)"
        "hp_main_chunk ?h' = hp_main_chunk h" "hp_cached_chunks ?h' = c"
        "hp_real_size ?h' = hp_real_size h - ZEND_MM_CHUNK_SIZE" "same_blocks h ?h'" "M (hp_os ?h') = M (hp_os h) - area d"
        using h3 os_okD(2) [OF os] by (auto simp: zend_mm_chunk_free_def same_blocks_def upd_chunk_def area_def)
      have "set cs' \<union> set (c # ds') = set cs \<union> set ds - {d}" using c(1) u(3) dj ds(1) by auto
      then have rm: "given_back (hp_real_size h) (hp_real_size ?h') (set cs \<union> set ds) (set cs' \<union> set (c # ds'))"
        using g(4) ds(1) by (auto simp: given_back_def)
      have "chain 0 (\<lambda>a. ch_next (hp_chunk ?h' a)) c (c # ds')"
        using g(1) cd ds ch upd [of ds'] by simp
      then have "pages_ok M cs' (c # ds') R ?h' \<and> shrunk M cs ds h cs' (c # ds') ?h'"
        by (intro conjI fin rm) (use relink u(2,3) data g cd ds dj(2) in auto)
      then show ?thesis unfolding e' using data g(1) by metis
    qed
  qed
  then obtain ds' where "pages_ok M cs' ds' R ?h" "shrunk M cs ds h cs' ds' ?h" "\<And>a. same_data (hp_chunk ?h a) (hp_chunk h a)" by blast
  then show thesis using u(3) by (intro that [of cs' ds']) (auto simp: same_data_def)
qed

lemma shrunk_trans:
  assumes "shrunk M cs ds h cs ds h1" "shrunk M cs ds h1 cs' ds' h2"
  shows "shrunk M cs ds h cs' ds' h2"
  using assms same_blocks_trans [of h h1 h2] unfolding shrunk_def by auto

lemma free_pages_ok:
  assumes p: "pages_ok M cs ds R h" and os: "os_ok os M" and c: "c \<in> set cs" "(q, n) \<in> R c"
    and main: "c = hp_main_chunk h \<longrightarrow> ch_free_pages (hp_chunk h c) + n < ZEND_MM_PAGES - ZEND_MM_FIRST_PAGE"
  obtains cs' ds' where "pages_ok M cs' ds' (R(c := R c - {(q, n)})) (zend_mm_free_pages os c q n h)"
    "shrunk M cs ds h cs' ds' (zend_mm_free_pages os c q n h)"
    "\<And>a. a \<in> set cs \<Longrightarrow> a \<notin> set cs' \<Longrightarrow> (R(c := R c - {(q, n)})) a = {}"
    "\<And>a k. (a, k) \<noteq> (c, q) \<Longrightarrow> ch_map (hp_chunk (zend_mm_free_pages os c q n h) a) ! k = ch_map (hp_chunk h a) ! k"
proof -
  let ?h1 = "upd_chunk c (freed_chunk q n) h" and ?R = "R(c := R c - {(q, n)})" and ?h = "zend_mm_free_pages os c q n h"
  note f = free_step [OF p c]
  have e: "?h = (if ch_free_pages (hp_chunk ?h1 c) = ZEND_MM_PAGES - ZEND_MM_FIRST_PAGE then zend_mm_delete_chunk os c ?h1 else ?h1)"
    by (simp add: zend_mm_free_pages_def zend_mm_free_pages_ex_def Let_def freed_chunk_def [abs_def])
  show thesis
  proof (cases "ch_free_pages (hp_chunk ?h1 c) = ZEND_MM_PAGES - ZEND_MM_FIRST_PAGE")
    case True
    have cm: "c \<noteq> hp_main_chunk ?h1" using True main by (auto simp: freed_chunk_def)
    note a = all_free [OF pages_okD(6) [OF f(1) c(1)] True]
    from delete_chunk_ok [OF f(1) os c(1) cm a] obtain cs' ds' where d: "pages_ok M cs' ds' ?R (zend_mm_delete_chunk os c ?h1)"
      "shrunk M cs ds ?h1 cs' ds' (zend_mm_delete_chunk os c ?h1)" "set cs' = set cs - {c}"
      "\<And>a. ch_map (hp_chunk (zend_mm_delete_chunk os c ?h1) a) = ch_map (hp_chunk ?h1 a)" by metis
    show thesis
    proof (rule that [of cs' ds'])
      show "?R b = {}" if "b \<in> set cs" "b \<notin> set cs'" for b using that d(3) a(1) by auto
      show "ch_map (hp_chunk ?h b) ! k = ch_map (hp_chunk h b) ! k" if "(b, k) \<noteq> (c, q)" for b k
        using f(3) [OF that] d(4) unfolding e if_P [OF True] by simp
    qed (use d(1) shrunk_trans [OF f(2) d(2)] e True in simp_all)
  next
    case False
    show thesis
    proof (rule that [of cs ds])
      show "ch_map (hp_chunk ?h b) ! k = ch_map (hp_chunk h b) ! k" if "(b, k) \<noteq> (c, q)" for b k
        using f(3) [OF that] unfolding e if_not_P [OF False] .
    qed (use f(1,2) e False in simp_all)
  qed
qed

end
