(* ===== verification/Zend_Mm_Info.thy ===== *)
theory Zend_Mm_Info
  imports Zend_Mm_Heap
begin

section \<open>The service words of pages and the tables of bins\<close>

text \<open>
  What is packed into the word of a page is read back.  The blocks of a bin fit into its pages.
\<close>

lemma map_flag_bits [simp]: "bit ZEND_MM_IS_LRUN i \<longleftrightarrow> i = 30" "bit ZEND_MM_IS_SRUN i \<longleftrightarrow> i = 31"
proof -
  have e: "ZEND_MM_IS_LRUN = 2 ^ 30" "ZEND_MM_IS_SRUN = 2 ^ 31" by (simp_all add: ZEND_MM_IS_LRUN_def ZEND_MM_IS_SRUN_def)
  show "bit ZEND_MM_IS_LRUN i \<longleftrightarrow> i = 30" "bit ZEND_MM_IS_SRUN i \<longleftrightarrow> i = 31"
    unfolding e bit_exp_iff possible_bit_def by auto
qed

lemma low_masks: "(0x3ff :: u32) = mask 10" "(0x1f :: u32) = mask 5"
  by (simp_all add: mask_eq_exp_minus_1)

lemma bit_of_small: "n < 2 ^ k \<Longrightarrow> bit (of_nat n :: u32) i \<Longrightarrow> i < k"
proof (rule ccontr)
  assume n: "n < 2 ^ k" and b: "bit (of_nat n :: u32) i" and "\<not> i < k"
  then have "n < 2 ^ i" by (meson le_less_trans less_le_trans nat_le_linear not_le one_le_numeral power_increasing)
  then have "\<not> bit n i" by (simp add: bit_iff_odd)
  then show False using b by (simp add: bit_of_nat_iff)
qed

lemma low_part:
  assumes "n < 2 ^ k" "k \<le> 16" "\<And>i. i < k \<Longrightarrow> \<not> bit w i"
  shows "unat ((w OR of_nat n) AND mask k :: u32) = n"
proof -
  have "(w OR of_nat n) AND mask k = (of_nat n :: u32)"
    by (rule bit_word_eqI) (use assms bit_of_small [OF assms(1)] in \<open>auto simp: bit_and_iff bit_or_iff bit_mask_iff\<close>)
  moreover have "(2 :: nat) ^ k \<le> 2 ^ 32" using assms(2) by (intro power_increasing) auto
  then have "n < 2 ^ 32" using assms(1) by linarith
  ultimately show ?thesis by (simp add: unat_of_nat take_bit_nat_eq_self)
qed

lemma srun_bit: "info AND ZEND_MM_IS_SRUN \<noteq> 0 \<longleftrightarrow> bit info 31"
proof -
  have "info AND ZEND_MM_IS_SRUN = 0" if "\<not> bit info 31"
    by (rule bit_word_eqI) (use that in \<open>auto simp: bit_and_iff\<close>)
  moreover have "bit (info AND ZEND_MM_IS_SRUN) 31 = bit info 31" by (simp add: bit_and_iff)
  ultimately show ?thesis by auto
qed

lemma lrun_info:
  assumes "n < 1024"
  shows "ZEND_MM_LRUN_PAGES (ZEND_MM_LRUN n) = n" "ZEND_MM_LRUN n AND ZEND_MM_IS_SRUN = 0"
proof -
  show "ZEND_MM_LRUN_PAGES (ZEND_MM_LRUN n) = n"
    using assms low_part [of n 10 ZEND_MM_IS_LRUN] by (simp add: ZEND_MM_LRUN_PAGES_def ZEND_MM_LRUN_def low_masks)
  have "\<not> bit (of_nat n :: u32) 31" using bit_of_small [of n 10 31] assms by auto
  then show "ZEND_MM_LRUN n AND ZEND_MM_IS_SRUN = 0" using srun_bit [of "ZEND_MM_LRUN n"] by (auto simp: ZEND_MM_LRUN_def bit_or_iff)
qed

lemma srun_info:
  assumes "b < 30"
  shows "ZEND_MM_SRUN_BIN_NUM (ZEND_MM_SRUN b) = b" "ZEND_MM_SRUN b AND ZEND_MM_IS_SRUN \<noteq> 0"
    "ZEND_MM_SRUN_BIN_NUM (ZEND_MM_NRUN b i) = b" "ZEND_MM_NRUN b i AND ZEND_MM_IS_SRUN \<noteq> 0"
proof -
  show "ZEND_MM_SRUN_BIN_NUM (ZEND_MM_SRUN b) = b"
    using assms low_part [of b 5 ZEND_MM_IS_SRUN] by (simp add: ZEND_MM_SRUN_BIN_NUM_def ZEND_MM_SRUN_def low_masks)
  have "ZEND_MM_NRUN b i = (ZEND_MM_IS_SRUN OR ZEND_MM_IS_LRUN OR push_bit 16 (of_nat i)) OR of_nat b"
    by (rule bit_word_eqI) (auto simp: ZEND_MM_NRUN_def bit_or_iff)
  then show "ZEND_MM_SRUN_BIN_NUM (ZEND_MM_NRUN b i) = b"
    using assms low_part [of b 5 "ZEND_MM_IS_SRUN OR ZEND_MM_IS_LRUN OR push_bit 16 (of_nat i)"]
    by (simp add: ZEND_MM_SRUN_BIN_NUM_def low_masks bit_or_iff bit_push_bit_iff)
  show "ZEND_MM_SRUN b AND ZEND_MM_IS_SRUN \<noteq> 0" "ZEND_MM_NRUN b i AND ZEND_MM_IS_SRUN \<noteq> 0"
    unfolding srun_bit by (simp_all add: ZEND_MM_SRUN_def ZEND_MM_NRUN_def bit_or_iff)
qed

lemma bins_ok:
  assumes "b < 30"
  shows "0 < bin_pages ! b" "bin_pages ! b \<le> 7" "4 \<le> bin_elements ! b" "8 \<le> bin_data_size ! b" "8 dvd bin_data_size ! b"
    "bin_elements ! b * bin_data_size ! b \<le> bin_pages ! b * ZEND_MM_PAGE_SIZE"
proof -
  let ?t = "zip bin_pages (zip bin_elements bin_data_size)"
  have "\<forall>(p, e, d) \<in> set ?t. 0 < p \<and> p \<le> 7 \<and> 4 \<le> e \<and> 8 \<le> d \<and> 8 dvd d \<and> e * d \<le> p * ZEND_MM_PAGE_SIZE"
    by (simp add: bin_pages_def bin_elements_def bin_data_size_def ZEND_MM_PAGE_SIZE_def)
  moreover have len: "length bin_pages = 30" "length bin_elements = 30" "length bin_data_size = 30"
    by (simp_all add: bin_pages_def bin_elements_def bin_data_size_def)
  then have "(bin_pages ! b, bin_elements ! b, bin_data_size ! b) = ?t ! b" "b < length ?t" using assms by simp_all
  then have "(bin_pages ! b, bin_elements ! b, bin_data_size ! b) \<in> set ?t" by (metis nth_mem)
  ultimately show "0 < bin_pages ! b" "bin_pages ! b \<le> 7" "4 \<le> bin_elements ! b" "8 \<le> bin_data_size ! b" "8 dvd bin_data_size ! b"
    "bin_elements ! b * bin_data_size ! b \<le> bin_pages ! b * ZEND_MM_PAGE_SIZE" by auto
qed

end
