(* ===== verification/Zend_Mm_Blocks.thy ===== *)
theory Zend_Mm_Blocks
  imports Zend_Mm_Pages_Free Zend_Mm_Info Zend_Mm_Bins_Correct
begin

section \<open>The blocks of the heap\<close>

text \<open>
  The blocks behind a heap: large runs (chunk, page, number of pages), small runs (chunk, page, bin)
  with the free blocks of each bin, and huge blocks with the node that lists them.  A block in use is
  one that the user of the manager holds.
\<close>

record mm_blocks =
  bk_chunks :: "nat list"
  bk_cached :: "nat list"
  bk_large :: "(nat \<times> nat \<times> nat) set"
  bk_small :: "(nat \<times> nat \<times> nat) set"
  bk_free :: "nat \<Rightarrow> nat list"
  bk_huge :: "(nat \<times> nat \<times> nat) list"

definition runs :: "mm_blocks \<Rightarrow> nat \<Rightarrow> (nat \<times> nat) set" where
  "runs g c = {(q, n). (c, q, n) \<in> bk_large g \<or> (\<exists>b. (c, q, b) \<in> bk_small g \<and> n = bin_pages ! b)}"

definition slot_of :: "nat \<Rightarrow> nat \<Rightarrow> nat \<Rightarrow> nat \<Rightarrow> bool" where
  "slot_of c q b a = (\<exists>k < bin_elements ! b. a = ZEND_MM_PAGE_ADDR c q + k * bin_data_size ! b)"

definition block_of :: "mm_blocks \<Rightarrow> nat \<Rightarrow> nat \<Rightarrow> bool" where
  "block_of g b a = (\<exists>c q. (c, q, b) \<in> bk_small g \<and> slot_of c q b a)"

definition map_ok :: "mm_blocks \<Rightarrow> 'os mm_heap \<Rightarrow> bool" where
  "map_ok g h = ((\<forall>c q n. (c, q, n) \<in> bk_large g \<longrightarrow> ch_map (hp_chunk h c) ! q = ZEND_MM_LRUN n) \<and>
     (\<forall>c q b. (c, q, b) \<in> bk_small g \<longrightarrow> b < ZEND_MM_BINS \<and> ch_map (hp_chunk h c) ! q = ZEND_MM_SRUN b \<and>
        (\<forall>i. 0 < i \<longrightarrow> i < bin_pages ! b \<longrightarrow> ch_map (hp_chunk h c) ! (q + i) = ZEND_MM_NRUN b i)))"

definition free_ok :: "mm_blocks \<Rightarrow> 'os mm_heap \<Rightarrow> bool" where
  "free_ok g h = (length (hp_free_slot h) = ZEND_MM_BINS \<and>
     (\<forall>b < ZEND_MM_BINS. chain 0 (hp_slot_next h) (hp_free_slot h ! b) (bk_free g b) \<and> distinct (bk_free g b) \<and>
        (\<forall>a \<in> set (bk_free g b). block_of g b a)))"

definition node_bin :: nat where
  "node_bin = 2"

definition huge_area :: "nat \<Rightarrow> nat \<Rightarrow> nat set" where
  "huge_area p s = {p..<p + s}"

definition huge_ok :: "('os \<Rightarrow> nat set) \<Rightarrow> mm_blocks \<Rightarrow> 'os mm_heap \<Rightarrow> bool" where
  "huge_ok M g h = (chain 0 (\<lambda>a. hg_next (hp_huge h a)) (hp_huge_list h) (map fst (bk_huge g)) \<and>
     distinct (map fst (bk_huge g)) \<and>
     (\<forall>(a, p, s) \<in> set (bk_huge g). hg_ptr (hp_huge h a) = p \<and> hg_size (hp_huge h a) = s \<and> block_of g node_bin a \<and>
        a \<notin> set (bk_free g node_bin) \<and> p \<noteq> 0 \<and> p mod ZEND_MM_CHUNK_SIZE = 0 \<and> 0 < s \<and> huge_area p s \<subseteq> M (hp_os h) \<and>
        (\<forall>c \<in> set (bk_chunks g) \<union> set (bk_cached g). huge_area p s \<inter> area c = {})) \<and>
     (\<forall>(a, p, s) \<in> set (bk_huge g). \<forall>(a', p', s') \<in> set (bk_huge g). a \<noteq> a' \<longrightarrow> huge_area p s \<inter> huge_area p' s' = {}))"

definition nodes_of :: "mm_blocks \<Rightarrow> nat set" where
  "nodes_of g = fst ` set (bk_huge g)"

definition small_blocks :: "mm_blocks \<Rightarrow> (nat \<times> nat) set" where
  "small_blocks g = {(a, s). \<exists>b. block_of g b a \<and> a \<notin> set (bk_free g b) \<and> a \<notin> nodes_of g \<and> s = bin_data_size ! b}"

definition large_blocks :: "mm_blocks \<Rightarrow> (nat \<times> nat) set" where
  "large_blocks g = {(a, s). \<exists>c q n. (c, q, n) \<in> bk_large g \<and> a = ZEND_MM_PAGE_ADDR c q \<and> s = n * ZEND_MM_PAGE_SIZE}"

definition in_use :: "mm_blocks \<Rightarrow> (nat \<times> nat) set" where
  "in_use g = large_blocks g \<union> small_blocks g \<union> snd ` set (bk_huge g)"

definition blocks_ok :: "('os \<Rightarrow> nat set) \<Rightarrow> (nat \<Rightarrow> (nat \<times> nat) set) \<Rightarrow> mm_blocks \<Rightarrow> 'os mm_heap \<Rightarrow> bool" where
  "blocks_ok M R g h = (pages_ok M (bk_chunks g) (bk_cached g) R h \<and> map_ok g h \<and> free_ok g h \<and> huge_ok M g h)"

definition mm_heap_ok :: "('os \<Rightarrow> nat set) \<Rightarrow> mm_blocks \<Rightarrow> 'os mm_heap \<Rightarrow> bool" where
  "mm_heap_ok M g h = blocks_ok M (runs g) g h"

subsection \<open>Where a block lies\<close>

lemma page_addr:
  assumes "c mod ZEND_MM_CHUNK_SIZE = 0" "i < ZEND_MM_PAGES" "r < ZEND_MM_PAGE_SIZE"
  defines "a \<equiv> ZEND_MM_PAGE_ADDR c i + r"
  shows "ZEND_MM_ALIGNED_BASE a ZEND_MM_CHUNK_SIZE = c" "ZEND_MM_ALIGNED_OFFSET a ZEND_MM_CHUNK_SIZE div ZEND_MM_PAGE_SIZE = i"
    "ZEND_MM_ALIGNED_OFFSET a ZEND_MM_CHUNK_SIZE mod ZEND_MM_PAGE_SIZE = r" "a \<in> area c"
proof -
  have s: "ZEND_MM_CHUNK_SIZE = ZEND_MM_PAGES * ZEND_MM_PAGE_SIZE"
    by (simp add: ZEND_MM_CHUNK_SIZE_def ZEND_MM_PAGES_def ZEND_MM_PAGE_SIZE_def)
  have "i * ZEND_MM_PAGE_SIZE + r < (i + 1) * ZEND_MM_PAGE_SIZE" using assms(3) by simp
  also have "\<dots> \<le> ZEND_MM_CHUNK_SIZE" unfolding s using assms(2) by (intro mult_le_mono1) simp
  finally have l: "i * ZEND_MM_PAGE_SIZE + r < ZEND_MM_CHUNK_SIZE" .
  then have m: "a mod ZEND_MM_CHUNK_SIZE = i * ZEND_MM_PAGE_SIZE + r"
    using assms(1) unfolding a_def ZEND_MM_PAGE_ADDR_def by (metis add.assoc mod_add_left_eq add_0 mod_less)
  then show "ZEND_MM_ALIGNED_BASE a ZEND_MM_CHUNK_SIZE = c" by (simp add: ZEND_MM_ALIGNED_BASE_def a_def ZEND_MM_PAGE_ADDR_def)
  show "ZEND_MM_ALIGNED_OFFSET a ZEND_MM_CHUNK_SIZE div ZEND_MM_PAGE_SIZE = i"
    "ZEND_MM_ALIGNED_OFFSET a ZEND_MM_CHUNK_SIZE mod ZEND_MM_PAGE_SIZE = r"
    using assms(3) by (simp_all add: ZEND_MM_ALIGNED_OFFSET_def m div_add1_eq)
  show "a \<in> area c" using l by (simp add: area_def a_def ZEND_MM_PAGE_ADDR_def)
qed

definition run_area :: "nat \<Rightarrow> nat \<Rightarrow> nat \<Rightarrow> nat set" where
  "run_area c q n = {ZEND_MM_PAGE_ADDR c q..<ZEND_MM_PAGE_ADDR c q + n * ZEND_MM_PAGE_SIZE}"

lemma run_area_chunk: "q + n \<le> ZEND_MM_PAGES \<Longrightarrow> run_area c q n \<subseteq> area c"
proof -
  assume "q + n \<le> ZEND_MM_PAGES"
  then have "(q + n) * ZEND_MM_PAGE_SIZE \<le> ZEND_MM_PAGES * ZEND_MM_PAGE_SIZE" by (rule mult_le_mono1)
  then show ?thesis
    by (auto simp: run_area_def area_def ZEND_MM_PAGE_ADDR_def ZEND_MM_CHUNK_SIZE_def ZEND_MM_PAGES_def ZEND_MM_PAGE_SIZE_def algebra_simps)
qed

lemma run_area_apart:
  assumes "q + n \<le> q'"
  shows "run_area c q n \<inter> run_area c q' n' = {}"
proof -
  have "(q + n) * ZEND_MM_PAGE_SIZE \<le> q' * ZEND_MM_PAGE_SIZE" using assms by (rule mult_le_mono1)
  then show ?thesis by (auto simp: run_area_def ZEND_MM_PAGE_ADDR_def algebra_simps)
qed

lemma slot_area:
  assumes "slot_of c q b a" "b < 30"
  shows "{a..<a + bin_data_size ! b} \<subseteq> run_area c q (bin_pages ! b)"
proof -
  obtain k where k: "k < bin_elements ! b" "a = ZEND_MM_PAGE_ADDR c q + k * bin_data_size ! b" using assms(1) by (auto simp: slot_of_def)
  have "(k + 1) * bin_data_size ! b \<le> bin_elements ! b * bin_data_size ! b" using k(1) by (intro mult_le_mono1) simp
  also have "\<dots> \<le> bin_pages ! b * ZEND_MM_PAGE_SIZE" using bins_ok(6) [OF assms(2)] .
  finally show ?thesis using k(2) by (auto simp: run_area_def)
qed

lemma slot_apart:
  assumes "slot_of c q b a" "slot_of c q b a'" "a \<noteq> a'"
  shows "{a..<a + bin_data_size ! b} \<inter> {a'..<a' + bin_data_size ! b} = {}"
proof -
  obtain k where k: "a = ZEND_MM_PAGE_ADDR c q + k * bin_data_size ! b" using assms(1) by (auto simp: slot_of_def)
  obtain k' where k': "a' = ZEND_MM_PAGE_ADDR c q + k' * bin_data_size ! b" using assms(2) by (auto simp: slot_of_def)
  have "k < k' \<or> k' < k" using assms(3) k k' by auto
  then have "(k + 1) * bin_data_size ! b \<le> k' * bin_data_size ! b \<or> (k' + 1) * bin_data_size ! b \<le> k * bin_data_size ! b"
    using mult_le_mono1 [of "k + 1" k'] mult_le_mono1 [of "k' + 1" k] by (metis Suc_eq_plus1 Suc_leI)
  then show ?thesis using k k' by auto
qed

subsection \<open>Facts of the invariant\<close>

lemma heap_okD:
  assumes "mm_heap_ok M g h"
  shows "pages_ok M (bk_chunks g) (bk_cached g) (runs g) h" "map_ok g h" "free_ok g h" "huge_ok M g h"
  using assms by (simp_all add: mm_heap_ok_def blocks_ok_def)

lemma large_run: "(c, q, n) \<in> bk_large g \<Longrightarrow> (q, n) \<in> runs g c"
  by (simp add: runs_def)

lemma small_run: "(c, q, b) \<in> bk_small g \<Longrightarrow> (q, bin_pages ! b) \<in> runs g c"
  by (auto simp: runs_def)

lemma run_in_chunk:
  assumes "mm_heap_ok M g h" "(q, n) \<in> runs g c"
  shows "c \<in> set (bk_chunks g)" "c mod ZEND_MM_CHUNK_SIZE = 0" "c \<noteq> 0" "0 < q" "0 < n" "q + n \<le> ZEND_MM_PAGES" "area c \<subseteq> M (hp_os h)"
    "run_area c q n \<subseteq> area c"
proof -
  note p = heap_okD(1) [OF assms(1)]
  show c: "c \<in> set (bk_chunks g)" using assms(2) pages_okD(8) [OF p, of c] by auto
  then have "is_chunk (M (hp_os h)) c" using pages_okD(5) [OF p] by blast
  then show "c mod ZEND_MM_CHUNK_SIZE = 0" "c \<noteq> 0" "area c \<subseteq> M (hp_os h)" by (simp_all add: is_chunk_def)
  show "0 < q" "0 < n" "q + n \<le> ZEND_MM_PAGES" using chunk_okD(5) [OF pages_okD(6) [OF p c] assms(2)] by simp_all
  then show "run_area c q n \<subseteq> area c" by (intro run_area_chunk)
qed

lemma runs_apart:
  assumes "mm_heap_ok M g h" "(q, n) \<in> runs g c" "(q', n') \<in> runs g c'" "(c, q, n) \<noteq> (c', q', n')"
  shows "run_area c q n \<inter> run_area c' q' n' = {}"
proof (cases "c = c'")
  case True
  have "apart (q, n) (q', n')"
    using chunk_ok_apart [OF pages_okD(6) [OF heap_okD(1) [OF assms(1)] run_in_chunk(1) [OF assms(1,2)]] assms(2)] assms(3) True by blast
  then show ?thesis using True assms(4) run_area_apart [of q n q' c n'] run_area_apart [of q' n' q c n] by (auto simp: apart_def)
next
  case False
  then have "area c \<inter> area c' = {}" using area_disjoint run_in_chunk(2) [OF assms(1)] assms(2,3) by metis
  then show ?thesis using run_in_chunk(8) [OF assms(1,2)] run_in_chunk(8) [OF assms(1,3)] by blast
qed

lemma small_bin:
  assumes "mm_heap_ok M g h" "(c, q, b) \<in> bk_small g"
  shows "b < 30" "ch_map (hp_chunk h c) ! q = ZEND_MM_SRUN b"
    "0 < i \<Longrightarrow> i < bin_pages ! b \<Longrightarrow> ch_map (hp_chunk h c) ! (q + i) = ZEND_MM_NRUN b i"
  using heap_okD(2) [OF assms(1)] assms(2) unfolding map_ok_def ZEND_MM_BINS_def by blast+

lemma slot_page:
  assumes "mm_heap_ok M g h" "(c, q, b) \<in> bk_small g" "slot_of c q b a"
  obtains i r where "i < bin_pages ! b" "r < ZEND_MM_PAGE_SIZE" "a = ZEND_MM_PAGE_ADDR c (q + i) + r" "q + i < ZEND_MM_PAGES"
proof -
  note b = small_bin(1) [OF assms(1,2)]
  obtain k where k: "k < bin_elements ! b" "a = ZEND_MM_PAGE_ADDR c q + k * bin_data_size ! b" using assms(3) by (auto simp: slot_of_def)
  have "k * bin_data_size ! b < bin_elements ! b * bin_data_size ! b" using k(1) bins_ok(4) [OF b] by simp
  then have l: "k * bin_data_size ! b < bin_pages ! b * ZEND_MM_PAGE_SIZE" using bins_ok(6) [OF b] by linarith
  define i where "i = k * bin_data_size ! b div ZEND_MM_PAGE_SIZE"
  define r where "r = k * bin_data_size ! b mod ZEND_MM_PAGE_SIZE"
  have ir: "k * bin_data_size ! b = i * ZEND_MM_PAGE_SIZE + r" by (simp add: i_def r_def)
  have i: "i < bin_pages ! b" using l unfolding i_def by (simp add: less_mult_imp_div_less)
  have "a = ZEND_MM_PAGE_ADDR c (q + i) + r" using k(2) ir by (simp add: ZEND_MM_PAGE_ADDR_def algebra_simps)
  moreover have "r < ZEND_MM_PAGE_SIZE" by (simp add: r_def ZEND_MM_PAGE_SIZE_def)
  moreover have "q + i < ZEND_MM_PAGES" using i run_in_chunk(6) [OF assms(1) small_run [OF assms(2)]] by simp
  ultimately show thesis using i that by blast
qed

lemma small_info:
  assumes "mm_heap_ok M g h" "(c, q, b) \<in> bk_small g" "slot_of c q b a"
  shows "ZEND_MM_ALIGNED_BASE a ZEND_MM_CHUNK_SIZE = c" "ZEND_MM_ALIGNED_OFFSET a ZEND_MM_CHUNK_SIZE \<noteq> 0"
    "page_info a h AND ZEND_MM_IS_SRUN \<noteq> 0" "ZEND_MM_SRUN_BIN_NUM (page_info a h) = b"
proof -
  from slot_page [OF assms] obtain i r where ir: "i < bin_pages ! b" "r < ZEND_MM_PAGE_SIZE" "a = ZEND_MM_PAGE_ADDR c (q + i) + r"
    "q + i < ZEND_MM_PAGES" by metis
  note c = run_in_chunk [OF assms(1) small_run [OF assms(2)]]
  note a = page_addr [OF c(2) ir(4,2), folded ir(3)]
  show "ZEND_MM_ALIGNED_BASE a ZEND_MM_CHUNK_SIZE = c" by (rule a(1))
  show "ZEND_MM_ALIGNED_OFFSET a ZEND_MM_CHUNK_SIZE \<noteq> 0" using a(2) c(4) by (auto simp: ZEND_MM_PAGE_SIZE_def)
  have "page_info a h = ch_map (hp_chunk h c) ! (q + i)" by (simp add: page_info_def a)
  then have "page_info a h = (if i = 0 then ZEND_MM_SRUN b else ZEND_MM_NRUN b i)"
    using small_bin(2,3) [OF assms(1,2)] ir(1) by auto
  then show "page_info a h AND ZEND_MM_IS_SRUN \<noteq> 0" "ZEND_MM_SRUN_BIN_NUM (page_info a h) = b"
    using srun_info [OF small_bin(1) [OF assms(1,2)]] by auto
qed

lemma large_info:
  assumes "mm_heap_ok M g h" "(c, q, n) \<in> bk_large g"
  defines "a \<equiv> ZEND_MM_PAGE_ADDR c q"
  shows "ZEND_MM_ALIGNED_BASE a ZEND_MM_CHUNK_SIZE = c" "ZEND_MM_ALIGNED_OFFSET a ZEND_MM_CHUNK_SIZE \<noteq> 0"
    "ZEND_MM_ALIGNED_OFFSET a ZEND_MM_CHUNK_SIZE div ZEND_MM_PAGE_SIZE = q"
    "ZEND_MM_ALIGNED_OFFSET a ZEND_MM_CHUNK_SIZE mod ZEND_MM_PAGE_SIZE = 0"
    "page_info a h AND ZEND_MM_IS_SRUN = 0" "ZEND_MM_LRUN_PAGES (page_info a h) = n"
proof -
  note c = run_in_chunk [OF assms(1) large_run [OF assms(2)]]
  have q: "q < ZEND_MM_PAGES" using c(5,6) by linarith
  have "0 < ZEND_MM_PAGE_SIZE" by (simp add: ZEND_MM_PAGE_SIZE_def)
  note a = page_addr [OF c(2) q this, unfolded add_0_right, folded a_def]
  show "ZEND_MM_ALIGNED_BASE a ZEND_MM_CHUNK_SIZE = c" "ZEND_MM_ALIGNED_OFFSET a ZEND_MM_CHUNK_SIZE div ZEND_MM_PAGE_SIZE = q"
    "ZEND_MM_ALIGNED_OFFSET a ZEND_MM_CHUNK_SIZE mod ZEND_MM_PAGE_SIZE = 0" by (rule a(1), rule a(2), rule a(3))
  show "ZEND_MM_ALIGNED_OFFSET a ZEND_MM_CHUNK_SIZE \<noteq> 0" using a(2) c(4) by (auto simp: ZEND_MM_PAGE_SIZE_def)
  have "page_info a h = ZEND_MM_LRUN n"
    using heap_okD(2) [OF assms(1)] assms(2) by (auto simp: page_info_def a map_ok_def)
  moreover have "n < 1024" using c(6) by (simp add: ZEND_MM_PAGES_def)
  ultimately show "page_info a h AND ZEND_MM_IS_SRUN = 0" "ZEND_MM_LRUN_PAGES (page_info a h) = n" using lrun_info by simp_all
qed

lemma block_unique:
  assumes "mm_heap_ok M g h" "(c, q, b) \<in> bk_small g" "slot_of c q b a" "(c', q', b') \<in> bk_small g" "slot_of c' q' b' a"
  shows "c' = c \<and> q' = q \<and> b' = b"
proof -
  have b: "b' = b" using small_info(4) [OF assms(1,2,3)] small_info(4) [OF assms(1,4,5)] by simp
  have "8 \<le> bin_data_size ! b" using bins_ok(4) small_bin(1) [OF assms(1,2)] by blast
  then have "a \<in> run_area c q (bin_pages ! b)" "a \<in> run_area c' q' (bin_pages ! b')"
    using slot_area [OF assms(3) small_bin(1) [OF assms(1,2)]] slot_area [OF assms(5) small_bin(1) [OF assms(1,4)]] b by auto
  then show ?thesis using runs_apart [OF assms(1) small_run [OF assms(2)] small_run [OF assms(4)]] b by blast
qed

subsection \<open>Live blocks do not overlap\<close>

lemma huge_okD:
  assumes "mm_heap_ok M g h" "(a, p, s) \<in> set (bk_huge g)"
  shows "hg_ptr (hp_huge h a) = p" "hg_size (hp_huge h a) = s" "block_of g node_bin a" "a \<notin> set (bk_free g node_bin)" "p \<noteq> 0"
    "p mod ZEND_MM_CHUNK_SIZE = 0" "0 < s" "huge_area p s \<subseteq> M (hp_os h)"
    "c \<in> set (bk_chunks g) \<or> c \<in> set (bk_cached g) \<Longrightarrow> huge_area p s \<inter> area c = {}"
  using heap_okD(4) [OF assms(1)] assms(2) unfolding huge_ok_def by fastforce+

lemma huge_apart:
  "mm_heap_ok M g h \<Longrightarrow> (a, p, s) \<in> set (bk_huge g) \<Longrightarrow> (a', p', s') \<in> set (bk_huge g) \<Longrightarrow> a \<noteq> a' \<Longrightarrow>
    huge_area p s \<inter> huge_area p' s' = {}"
  using heap_okD(4) [of M g h] unfolding huge_ok_def by fastforce

definition bytes_of :: "nat \<times> nat \<Rightarrow> nat set" where
  "bytes_of x = {fst x..<fst x + snd x}"

lemma live_cases:
  assumes "mm_heap_ok M g h" "x \<in> in_use g"
  obtains (large) c q n where "(c, q, n) \<in> bk_large g" "x = (ZEND_MM_PAGE_ADDR c q, n * ZEND_MM_PAGE_SIZE)"
      "bytes_of x = run_area c q n"
    | (small) c q b a where "(c, q, b) \<in> bk_small g" "slot_of c q b a" "a \<notin> set (bk_free g b)" "a \<notin> nodes_of g" "x = (a, bin_data_size ! b)"
      "bytes_of x \<subseteq> run_area c q (bin_pages ! b)"
    | (huge) a p s where "(a, p, s) \<in> set (bk_huge g)" "x = (p, s)" "bytes_of x = huge_area p s"
proof -
  consider "x \<in> large_blocks g" | "x \<in> small_blocks g" | "x \<in> snd ` set (bk_huge g)" using assms(2) by (auto simp: in_use_def)
  then show thesis
  proof cases
    case 1
    then show thesis by (auto simp: large_blocks_def bytes_of_def run_area_def intro!: large)
  next
    case 2
    then obtain c q b a where x: "(c, q, b) \<in> bk_small g" "slot_of c q b a" "a \<notin> set (bk_free g b)" "a \<notin> nodes_of g" "x = (a, bin_data_size ! b)"
      unfolding small_blocks_def block_of_def by auto
    then show thesis using small slot_area [OF x(2) small_bin(1) [OF assms(1) x(1)]] by (simp add: bytes_of_def)
  next
    case 3
    then show thesis by (auto simp: bytes_of_def huge_area_def intro!: huge)
  qed
qed

lemma live_mapped:
  assumes "mm_heap_ok M g h" "x \<in> in_use g"
  shows "0 < fst x" "0 < snd x" "bytes_of x \<subseteq> M (hp_os h)" "fst x mod 8 = 0"
proof -
  have pg: "ZEND_MM_PAGE_SIZE mod 8 = 0" "8 dvd ZEND_MM_PAGE_SIZE" "0 < ZEND_MM_PAGE_SIZE" by (simp_all add: ZEND_MM_PAGE_SIZE_def)
  have al: "8 dvd c" if "c mod ZEND_MM_CHUNK_SIZE = 0" for c
  proof -
    have "8 dvd ZEND_MM_CHUNK_SIZE" by (simp add: ZEND_MM_CHUNK_SIZE_def)
    then show ?thesis using that by (meson dvd_trans mod_eq_0_iff_dvd)
  qed
  have "0 < fst x \<and> 0 < snd x \<and> bytes_of x \<subseteq> M (hp_os h) \<and> 8 dvd fst x"
    using assms(1,2)
  proof (cases rule: live_cases)
    case (large c q n)
    note c = run_in_chunk [OF assms(1) large_run [OF large(1)]]
    have "8 dvd ZEND_MM_PAGE_ADDR c q" using al [OF c(2)] pg(2) by (simp add: ZEND_MM_PAGE_ADDR_def)
    then show ?thesis using c large pg(3) by (auto simp: ZEND_MM_PAGE_ADDR_def)
  next
    case (small c q b a)
    note c = run_in_chunk [OF assms(1) small_run [OF small(1)]]
    note b = bins_ok(4,5) [OF small_bin(1) [OF assms(1) small(1)]]
    obtain k where k: "a = ZEND_MM_PAGE_ADDR c q + k * bin_data_size ! b" using small(2) by (auto simp: slot_of_def)
    have "8 dvd a" unfolding k ZEND_MM_PAGE_ADDR_def using al [OF c(2)] pg(2) b(2) by (intro dvd_add dvd_mult) auto
    moreover have "0 < a" using c(3) k by (simp add: ZEND_MM_PAGE_ADDR_def)
    ultimately show ?thesis using c small b(1) by auto
  next
    case (huge a p s)
    then show ?thesis using huge_okD(5-8) [OF assms(1) huge(1)] al by auto
  qed
  then show "0 < fst x" "0 < snd x" "bytes_of x \<subseteq> M (hp_os h)" "fst x mod 8 = 0" by auto
qed

lemma large_or_small_area:
  assumes "mm_heap_ok M g h" "x \<in> large_blocks g \<union> small_blocks g"
  shows "\<exists>c \<in> set (bk_chunks g). bytes_of x \<subseteq> area c"
  using assms(2)
proof
  assume "x \<in> large_blocks g"
  then obtain c q n where l: "(c, q, n) \<in> bk_large g" "x = (ZEND_MM_PAGE_ADDR c q, n * ZEND_MM_PAGE_SIZE)" by (auto simp: large_blocks_def)
  then show ?thesis using run_in_chunk(1,8) [OF assms(1) large_run [OF l(1)]] by (auto simp: bytes_of_def run_area_def)
next
  assume "x \<in> small_blocks g"
  then obtain c q b a where l: "(c, q, b) \<in> bk_small g" "slot_of c q b a" "x = (a, bin_data_size ! b)"
    by (auto simp: small_blocks_def block_of_def)
  then show ?thesis
    using run_in_chunk(1,8) [OF assms(1) small_run [OF l(1)]] slot_area [OF l(2) small_bin(1) [OF assms(1) l(1)]]
    by (fastforce simp: bytes_of_def)
qed

lemma live_disjoint:
  assumes "mm_heap_ok M g h" "x \<in> in_use g" "y \<in> in_use g" "x \<noteq> y"
  shows "bytes_of x \<inter> bytes_of y = {}"
proof -
  have chunk_huge: "bytes_of u \<inter> bytes_of v = {}"
    if w: "u \<in> large_blocks g \<union> small_blocks g" "(a, v) \<in> set (bk_huge g)" for u v a
  proof -
    obtain c where "c \<in> set (bk_chunks g)" "bytes_of u \<subseteq> area c" using large_or_small_area [OF assms(1) w(1)] by blast
    moreover have "huge_area (fst v) (snd v) \<inter> area c = {}" using huge_okD(9) [OF assms(1), of a "fst v" "snd v" c] w(2) calculation(1) by simp
    moreover have "bytes_of v = huge_area (fst v) (snd v)" by (simp add: bytes_of_def huge_area_def)
    ultimately show ?thesis by blast
  qed
  have large_small: "bytes_of u \<inter> bytes_of v = {}" if u: "u \<in> large_blocks g" and v: "v \<in> small_blocks g" for u v
  proof -
    obtain c q n where l: "(c, q, n) \<in> bk_large g" "u = (ZEND_MM_PAGE_ADDR c q, n * ZEND_MM_PAGE_SIZE)" using u by (auto simp: large_blocks_def)
    obtain c' q' b a where m: "(c', q', b) \<in> bk_small g" "slot_of c' q' b a" "v = (a, bin_data_size ! b)"
      using v by (auto simp: small_blocks_def block_of_def)
    have "(c, q, n) \<noteq> (c', q', bin_pages ! b)"
    proof
      assume e: "(c, q, n) = (c', q', bin_pages ! b)"
      have "ch_map (hp_chunk h c) ! q = ZEND_MM_LRUN n" using heap_okD(2) [OF assms(1)] l(1) by (auto simp: map_ok_def)
      moreover have "n < 1024" using run_in_chunk(6) [OF assms(1) large_run [OF l(1)]] by (simp add: ZEND_MM_PAGES_def)
      ultimately show False
        using e small_bin(2) [OF assms(1) m(1)] srun_info(2) [OF small_bin(1) [OF assms(1) m(1)]] lrun_info(2) [of n] by auto
    qed
    from runs_apart [OF assms(1) large_run [OF l(1)] small_run [OF m(1)] this] show ?thesis
      using slot_area [OF m(2) small_bin(1) [OF assms(1) m(1)]] l(2) m(3) by (auto simp: bytes_of_def run_area_def)
  qed
  have large_large: "bytes_of u \<inter> bytes_of v = {}" if u: "u \<in> large_blocks g" "v \<in> large_blocks g" "u \<noteq> v" for u v
  proof -
    obtain c q n where l: "(c, q, n) \<in> bk_large g" "u = (ZEND_MM_PAGE_ADDR c q, n * ZEND_MM_PAGE_SIZE)" using u by (auto simp: large_blocks_def)
    obtain c' q' n' where m: "(c', q', n') \<in> bk_large g" "v = (ZEND_MM_PAGE_ADDR c' q', n' * ZEND_MM_PAGE_SIZE)" using u by (auto simp: large_blocks_def)
    have "(c, q, n) \<noteq> (c', q', n')" using u(3) l(2) m(2) by auto
    from runs_apart [OF assms(1) large_run [OF l(1)] large_run [OF m(1)] this] show ?thesis
      using l(2) m(2) by (simp add: bytes_of_def run_area_def)
  qed
  have small_small: "bytes_of u \<inter> bytes_of v = {}" if u: "u \<in> small_blocks g" "v \<in> small_blocks g" "u \<noteq> v" for u v
  proof -
    obtain c q b a where l: "(c, q, b) \<in> bk_small g" "slot_of c q b a" "u = (a, bin_data_size ! b)"
      using u(1) by (auto simp: small_blocks_def block_of_def)
    obtain c' q' b' a' where m: "(c', q', b') \<in> bk_small g" "slot_of c' q' b' a'" "v = (a', bin_data_size ! b')"
      using u(2) by (auto simp: small_blocks_def block_of_def)
    show ?thesis
    proof (cases "(c, q, bin_pages ! b) = (c', q', bin_pages ! b')")
      case True
      then have "b = b'"
        using small_bin(1,2) [OF assms(1) l(1)] small_bin(1,2) [OF assms(1) m(1)] srun_info(1) by (metis Pair_inject)
      then have "a \<noteq> a'" "slot_of c q b a'" using u(3) l(3) m True by auto
      then show ?thesis using slot_apart [OF l(2)] l(3) m(3) \<open>b = b'\<close> by (simp add: bytes_of_def)
    next
      case False
      have "bytes_of u = {a..<a + bin_data_size ! b}" "bytes_of v = {a'..<a' + bin_data_size ! b'}"
        using l(3) m(3) by (simp_all add: bytes_of_def)
      then show ?thesis
        using runs_apart [OF assms(1) small_run [OF l(1)] small_run [OF m(1)] False]
          slot_area [OF l(2) small_bin(1) [OF assms(1) l(1)]] slot_area [OF m(2) small_bin(1) [OF assms(1) m(1)]] by blast
    qed
  qed
  have huge_huge: "bytes_of u \<inter> bytes_of v = {}" if "(a, u) \<in> set (bk_huge g)" "(a', v) \<in> set (bk_huge g)" "u \<noteq> v" for u v a a'
  proof -
    have "a \<noteq> a'"
      using huge_okD(1,2) [OF assms(1), of a "fst u" "snd u"] huge_okD(1,2) [OF assms(1), of a' "fst v" "snd v"] that
      by (metis prod.collapse)
    then show ?thesis using huge_apart [OF assms(1), of a "fst u" "snd u" a' "fst v" "snd v"] that by (simp add: bytes_of_def huge_area_def)
  qed
  have "x \<in> large_blocks g \<or> x \<in> small_blocks g \<or> (\<exists>a. (a, x) \<in> set (bk_huge g))"
    "y \<in> large_blocks g \<or> y \<in> small_blocks g \<or> (\<exists>a. (a, y) \<in> set (bk_huge g))"
    using assms(2,3) by (auto simp: in_use_def)
  then show ?thesis
    using chunk_huge [of x _ y] chunk_huge [of y _ x] large_small [of x y] large_small [of y x] large_large [of x y] small_small [of x y]
      huge_huge [of _ x _ y] assms(4) by (elim disjE exE; blast)
qed

end
