(* ===== verification/Zend_Mm_Alloc_Correct.thy ===== *)
theory Zend_Mm_Alloc_Correct
  imports Zend_Mm_Blocks
begin

section \<open>Allocating blocks\<close>

text \<open>
  After \<open>zend_mm_alloc_pages\<close> the heap is in order but for the new run, which then becomes a large
  block or a run of small blocks.
\<close>

lemma run_places:
  assumes "mm_heap_ok M g h"
  shows "(c, q, n) \<in> bk_large g \<Longrightarrow> in_runs (runs g c) q" "(c, q, b) \<in> bk_small g \<Longrightarrow> i < bin_pages ! b \<Longrightarrow> in_runs (runs g c) (q + i)"
proof -
  show "(c, q, n) \<in> bk_large g \<Longrightarrow> in_runs (runs g c) q"
    using in_runsI [OF large_run] run_in_chunk(5) [OF assms large_run] by simp
  show "(c, q, b) \<in> bk_small g \<Longrightarrow> i < bin_pages ! b \<Longrightarrow> in_runs (runs g c) (q + i)"
    using in_runsI [OF small_run] by simp
qed

lemma map_kept:
  assumes h: "mm_heap_ok M g h" and m: "\<And>c k. c \<in> set (bk_chunks g) \<Longrightarrow> in_runs (runs g c) k \<Longrightarrow> ch_map (hp_chunk h' c) ! k = ch_map (hp_chunk h c) ! k"
  shows "map_ok g h'"
  unfolding map_ok_def
proof (intro conjI allI impI)
  fix c q n assume l: "(c, q, n) \<in> bk_large g"
  then show "ch_map (hp_chunk h' c) ! q = ZEND_MM_LRUN n"
    using m [OF run_in_chunk(1) [OF h large_run [OF l]] run_places(1) [OF h l]] heap_okD(2) [OF h] by (simp add: map_ok_def)
next
  fix c q b assume l: "(c, q, b) \<in> bk_small g"
  note c = run_in_chunk(1) [OF h small_run [OF l]]
  show "b < ZEND_MM_BINS" using small_bin(1) [OF h l] by (simp add: ZEND_MM_BINS_def)
  have "0 < bin_pages ! b" using bins_ok(1) small_bin(1) [OF h l] by blast
  then show "ch_map (hp_chunk h' c) ! q = ZEND_MM_SRUN b"
    using m [OF c run_places(2) [OF h l, of 0]] small_bin(2) [OF h l] by simp
  fix i assume i: "0 < i" "i < bin_pages ! b"
  then show "ch_map (hp_chunk h' c) ! (q + i) = ZEND_MM_NRUN b i"
    using m [OF c run_places(2) [OF h l i(2)]] small_bin(3) [OF h l i] by simp
qed

lemma free_kept: "free_ok g h \<Longrightarrow> same_blocks h h' \<Longrightarrow> bk_small g' = bk_small g \<Longrightarrow> bk_free g' = bk_free g \<Longrightarrow> free_ok g' h'"
  by (simp add: free_ok_def same_blocks_def block_of_def)

lemma huge_kept:
  assumes h: "mm_heap_ok M g h" and s: "same_blocks h h'" "bk_small g' = bk_small g" "bk_free g' = bk_free g" "bk_huge g' = bk_huge g"
    and m: "\<And>a p s. (a, p, s) \<in> set (bk_huge g) \<Longrightarrow> huge_area p s \<subseteq> M (hp_os h')"
      "\<And>a p s c. (a, p, s) \<in> set (bk_huge g) \<Longrightarrow> c \<in> set (bk_chunks g') \<or> c \<in> set (bk_cached g') \<Longrightarrow> huge_area p s \<inter> area c = {}"
  shows "huge_ok M g' h'"
proof -
  have f: "hp_huge h' = hp_huge h" "hp_huge_list h' = hp_huge_list h" using s(1) by (simp_all add: same_blocks_def)
  have b: "block_of g' n a = block_of g n a" for n a using s(2) by (simp add: block_of_def)
  show ?thesis
    unfolding huge_ok_def f s(3,4) b
  proof (intro conjI)
    show "\<forall>(a, p, s) \<in> set (bk_huge g). hg_ptr (hp_huge h a) = p \<and> hg_size (hp_huge h a) = s \<and> block_of g node_bin a \<and>
        a \<notin> set (bk_free g node_bin) \<and> p \<noteq> 0 \<and> p mod ZEND_MM_CHUNK_SIZE = 0 \<and> 0 < s \<and> huge_area p s \<subseteq> M (hp_os h') \<and>
        (\<forall>c \<in> set (bk_chunks g') \<union> set (bk_cached g'). huge_area p s \<inter> area c = {})"
      using huge_okD(1-7) [OF h] m by fastforce
  qed (use heap_okD(4) [OF h] in \<open>auto simp: huge_ok_def\<close>)
qed

lemma huge_away:
  assumes "mm_heap_ok M g h" "grown M (bk_chunks g) (bk_cached g) h cs' ds' h'" "(a, p, s) \<in> set (bk_huge g)" "c \<in> set cs' \<or> c \<in> set ds'"
  shows "huge_area p s \<inter> area c = {}" "huge_area p s \<subseteq> M (hp_os h')"
proof -
  note m = huge_okD(8) [OF assms(1,3)]
  show "huge_area p s \<subseteq> M (hp_os h')" using m assms(2) by (auto simp: grown_def)
  have "c \<in> set (bk_chunks g) \<or> c \<in> set (bk_cached g) \<or> area c \<inter> M (hp_os h) = {}" using assms(2,4) by (auto simp: grown_def)
  then show "huge_area p s \<inter> area c = {}" using huge_okD(9) [OF assms(1,3), of c] m by blast
qed

definition fresh_chunks :: "('os \<Rightarrow> nat set) \<Rightarrow> mm_blocks \<Rightarrow> 'os mm_heap \<Rightarrow> mm_blocks \<Rightarrow> 'os mm_heap \<Rightarrow> bool" where
  "fresh_chunks M g h g' h' = (M (hp_os h) \<subseteq> M (hp_os h') \<and>
     (\<forall>c. c \<in> set (bk_chunks g') \<or> c \<in> set (bk_cached g') \<longrightarrow>
        c \<in> set (bk_chunks g) \<or> c \<in> set (bk_cached g) \<or> area c \<inter> M (hp_os h) = {}) \<and>
     hp_real_size h' + pool (bk_chunks g) (bk_cached g) = hp_real_size h + pool (bk_chunks g') (bk_cached g'))"

lemma new_run:
  assumes h: "mm_heap_ok M g h" and os: "os_ok os M" and r: "limit_room ZEND_MM_CHUNK_SIZE h" and n: "0 < n" "n < ZEND_MM_PAGES"
  obtains c q cs ds h' where "zend_mm_alloc_pages os n h = Inr (ZEND_MM_PAGE_ADDR c q, h')"
    "blocks_ok M ((runs g)(c := insert (q, n) (runs g c))) (g\<lparr>bk_chunks := cs, bk_cached := ds\<rparr>) h'"
    "c \<in> set cs" "0 < q" "q + n \<le> ZEND_MM_PAGES" "\<And>k. k \<in> {q..<q + n} \<Longrightarrow> \<not> in_runs (runs g c) k"
    "ch_map (hp_chunk h' c) ! q = ZEND_MM_LRUN n" "same_blocks h h'" "hp_real_size h' \<le> hp_real_size h + ZEND_MM_CHUNK_SIZE"
    "fresh_chunks M g h (g\<lparr>bk_chunks := cs, bk_cached := ds\<rparr>) h'"
proof -
  from alloc_pages_ok [OF heap_okD(1) [OF h] os r n] obtain c q cs ds h' where
    a: "zend_mm_alloc_pages os n h = Inr (ZEND_MM_PAGE_ADDR c q, h')"
    "pages_ok M cs ds ((runs g)(c := insert (q, n) (runs g c))) h'" "c \<in> set cs" "0 < q" "q + n \<le> ZEND_MM_PAGES"
    "\<And>k. k \<in> {q..<q + n} \<Longrightarrow> \<not> in_runs (runs g c) k" "grown M (bk_chunks g) (bk_cached g) h cs ds h'"
    "ch_map (hp_chunk h' c) ! q = ZEND_MM_LRUN n"
    "\<And>a k. a \<in> set (bk_chunks g) \<Longrightarrow> (a, k) \<noteq> (c, q) \<Longrightarrow> ch_map (hp_chunk h' a) ! k = ch_map (hp_chunk h a) ! k" by metis
  let ?g = "g\<lparr>bk_chunks := cs, bk_cached := ds\<rparr>"
  have sb: "same_blocks h h'" using a(7) by (simp add: grown_def)
  have "map_ok g h'"
  proof (rule map_kept [OF h])
    fix e k assume e: "e \<in> set (bk_chunks g)" "in_runs (runs g e) k"
    have "(e, k) \<noteq> (c, q)" using e(2) a(6) [of q] n(1) by auto
    then show "ch_map (hp_chunk h' e) ! k = ch_map (hp_chunk h e) ! k" using a(9) e(1) by blast
  qed
  then have "map_ok ?g h'" by (simp add: map_ok_def)
  moreover have "huge_ok M ?g h'"
    using huge_away(1) [OF h a(7)] huge_away(2) [OF h a(7) _ disjI1 [OF a(3)]] sb by (intro huge_kept [OF h]) simp_all
  moreover have "free_ok ?g h'" using free_kept [OF heap_okD(3) [OF h] sb] by simp
  ultimately have "blocks_ok M ((runs g)(c := insert (q, n) (runs g c))) ?g h'" using a(2) by (simp add: blocks_ok_def)
  moreover have "fresh_chunks M g h ?g h'" "hp_real_size h' \<le> hp_real_size h + ZEND_MM_CHUNK_SIZE"
    using a(7) grown_real [OF a(7)] by (auto simp: grown_def fresh_chunks_def)
  ultimately show thesis using a(1,3-6,8) sb that by blast
qed

text \<open>The bytes that are in use, and those of the nodes of huge blocks, are what \<open>size\<close> counts.\<close>

definition usage_ok :: "mm_blocks \<Rightarrow> 'os mm_heap \<Rightarrow> bool" where
  "usage_ok g h = (finite (in_use g) \<and> hp_size h = (\<Sum>x \<in> in_use g. snd x) + length (bk_huge g) * huge_node_size)"

lemma usage_insert:
  fixes h h' :: "'os mm_heap"
  assumes "usage_ok g h" "in_use g' = insert x (in_use g)" "x \<notin> in_use g" "length (bk_huge g') = length (bk_huge g)" "hp_size h' = hp_size h + snd x"
  shows "usage_ok g' h'"
  using assms by (simp add: usage_ok_def)

lemma usage_remove:
  fixes h h' :: "'os mm_heap"
  assumes "usage_ok g h" "in_use g' = in_use g - {x}" "x \<in> in_use g" "length (bk_huge g') = length (bk_huge g)" "hp_size h' = hp_size h - snd x"
  shows "usage_ok g' h'"
  using assms sum.remove [of "in_use g" x snd] by (simp add: usage_ok_def)

text \<open>The memory that counts as mapped is that of the chunks, in use or cached, and of the huge blocks.\<close>

definition real_ok :: "mm_blocks \<Rightarrow> 'os mm_heap \<Rightarrow> bool" where
  "real_ok g h = (hp_real_size h = pool (bk_chunks g) (bk_cached g) + (\<Sum>x \<leftarrow> bk_huge g. snd (snd x)))"

lemma real_fresh:
  "real_ok g h \<Longrightarrow> fresh_chunks M g h g1 h1 \<Longrightarrow> bk_chunks g' = bk_chunks g1 \<Longrightarrow> bk_cached g' = bk_cached g1 \<Longrightarrow>
   bk_huge g' = bk_huge g \<Longrightarrow> hp_real_size h' = hp_real_size h1 \<Longrightarrow> real_ok g' h'"
  by (simp add: real_ok_def fresh_chunks_def)

definition mm_ok :: "('os \<Rightarrow> nat set) \<Rightarrow> mm_blocks \<Rightarrow> 'os mm_heap \<Rightarrow> bool" where
  "mm_ok M g h = (mm_heap_ok M g h \<and> usage_ok g h \<and> real_ok g h)"

lemma fresh_run:
  assumes h: "mm_heap_ok M g h" and h': "mm_heap_ok M g' h'" and sub: "\<And>e. runs g e \<subseteq> runs g' e" "bk_huge g' = bk_huge g"
    and r: "(q, n) \<in> runs g' c" "\<And>k. k \<in> {q..<q + n} \<Longrightarrow> \<not> in_runs (runs g c) k" and x: "x \<in> in_use g"
  shows "bytes_of x \<inter> run_area c q n = {}"
proof -
  have old: "run_area d e m \<inter> run_area c q n = {}" if run: "(e, m) \<in> runs g d" for d e m
  proof -
    have "(d, e, m) \<noteq> (c, q, n)" using in_runsI [of q n "runs g c" q] r(2) [of q] run run_in_chunk(5) [OF h run] by auto
    moreover have "(e, m) \<in> runs g' d" using sub(1) run by blast
    ultimately show ?thesis using runs_apart [OF h' _ r(1)] by blast
  qed
  from h x show ?thesis
  proof (cases rule: live_cases)
    case (large d e m)
    then show ?thesis using old [OF large_run [OF large(1)]] by simp
  next
    case (small d e b a)
    then show ?thesis using old [OF small_run [OF small(1)]] by blast
  next
    case (huge a p s)
    then show ?thesis
      using huge_okD(9) [OF h', of a p s c] run_in_chunk(1,8) [OF h' r(1)] sub(2) by auto
  qed
qed

lemma large_blocks_image: "large_blocks g = (\<lambda>(c, q, n). (ZEND_MM_PAGE_ADDR c q, n * ZEND_MM_PAGE_SIZE)) ` bk_large g"
  by (force simp: large_blocks_def)

subsection \<open>Large blocks\<close>

lemma alloc_large_ok:
  assumes h: "mm_ok M g h" and os: "os_ok os M" and r: "limit_room ZEND_MM_CHUNK_SIZE h" and sz: "0 < sz" "sz \<le> ZEND_MM_MAX_LARGE_SIZE"
  obtains a s g' h' where "zend_mm_alloc_large os sz h = Inr (a, h')" "mm_ok M g' h'" "in_use g' = insert (a, s) (in_use g)" "(a, s) \<notin> in_use g"
    "sz \<le> s" "s = ZEND_MM_SIZE_TO_NUM sz ZEND_MM_PAGE_SIZE * ZEND_MM_PAGE_SIZE" "hp_limit h' = hp_limit h" "hp_real_size h' \<le> hp_real_size h + ZEND_MM_CHUNK_SIZE"
proof -
  define n where "n = ZEND_MM_SIZE_TO_NUM sz ZEND_MM_PAGE_SIZE"
  have n: "0 < n" "n < ZEND_MM_PAGES" "sz \<le> n * ZEND_MM_PAGE_SIZE"
  proof -
    have p: "0 < ZEND_MM_PAGE_SIZE" by (simp add: ZEND_MM_PAGE_SIZE_def)
    have e: "n * ZEND_MM_PAGE_SIZE + (sz + (ZEND_MM_PAGE_SIZE - 1)) mod ZEND_MM_PAGE_SIZE = sz + (ZEND_MM_PAGE_SIZE - 1)"
      by (simp add: n_def ZEND_MM_SIZE_TO_NUM_def)
    have m: "(sz + (ZEND_MM_PAGE_SIZE - 1)) mod ZEND_MM_PAGE_SIZE < ZEND_MM_PAGE_SIZE" using p by simp
    show "sz \<le> n * ZEND_MM_PAGE_SIZE" using e m p by linarith
    then show "0 < n" using sz(1) by (cases n) auto
    have "n * ZEND_MM_PAGE_SIZE < ZEND_MM_PAGES * ZEND_MM_PAGE_SIZE"
      using e sz(2) by (simp add: ZEND_MM_MAX_LARGE_SIZE_def ZEND_MM_PAGES_def ZEND_MM_PAGE_SIZE_def ZEND_MM_CHUNK_SIZE_def ZEND_MM_FIRST_PAGE_def)
    then show "n < ZEND_MM_PAGES" by simp
  qed
  have hp: "mm_heap_ok M g h" using h by (simp add: mm_ok_def)
  from new_run [OF hp os r n(1,2)] obtain c q cs ds h1 where a: "zend_mm_alloc_pages os n h = Inr (ZEND_MM_PAGE_ADDR c q, h1)"
    "blocks_ok M ((runs g)(c := insert (q, n) (runs g c))) (g\<lparr>bk_chunks := cs, bk_cached := ds\<rparr>) h1"
    "c \<in> set cs" "0 < q" "q + n \<le> ZEND_MM_PAGES" "\<And>k. k \<in> {q..<q + n} \<Longrightarrow> \<not> in_runs (runs g c) k"
    "ch_map (hp_chunk h1 c) ! q = ZEND_MM_LRUN n" "same_blocks h h1" "hp_real_size h1 \<le> hp_real_size h + ZEND_MM_CHUNK_SIZE"
    "fresh_chunks M g h (g\<lparr>bk_chunks := cs, bk_cached := ds\<rparr>) h1" by metis
  let ?a = "ZEND_MM_PAGE_ADDR c q" and ?s = "n * ZEND_MM_PAGE_SIZE"
  let ?h = "add_size ?s h1" and ?g = "g\<lparr>bk_chunks := cs, bk_cached := ds, bk_large := insert (c, q, n) (bk_large g)\<rparr>"
  have runs: "runs ?g = (runs g)(c := insert (q, n) (runs g c))" by (auto simp: runs_def fun_eq_iff)
  have hok: "mm_heap_ok M ?g ?h"
    using a(2,7) unfolding mm_heap_ok_def runs blocks_ok_def pages_ok_def map_ok_def free_ok_def huge_ok_def block_of_def
    by (auto simp: add_size_def)
  have in_use: "in_use ?g = insert (?a, ?s) (in_use g)"
    by (simp add: in_use_def large_blocks_image small_blocks_def block_of_def nodes_of_def)
  have new: "(?a, ?s) \<notin> in_use g"
  proof
    assume l: "(?a, ?s) \<in> in_use g"
    have "(q, n) \<in> runs ?g c" "\<And>e. runs g e \<subseteq> runs ?g e" unfolding runs by auto
    from fresh_run [OF hp hok this(2) _ this(1) a(6) l] have "bytes_of (?a, ?s) \<inter> run_area c q n = {}" by simp
    then show False using n(1) by (simp add: bytes_of_def run_area_def ZEND_MM_PAGE_SIZE_def)
  qed
  have "hp_size ?h = hp_size h + snd (?a, ?s)" using a(8) by (simp add: add_size_def same_blocks_def)
  moreover have "usage_ok g h" using h by (simp add: mm_ok_def)
  ultimately have "usage_ok ?g ?h" using usage_insert [OF _ in_use new] by simp
  moreover have "real_ok g h" using h by (simp add: mm_ok_def)
  then have "real_ok ?g ?h" by (rule real_fresh [OF _ a(10)]) (simp_all add: add_size_def)
  ultimately have "mm_ok M ?g ?h" using hok by (simp add: mm_ok_def)
  moreover have "zend_mm_alloc_large os sz h = Inr (?a, ?h)"
    unfolding zend_mm_alloc_large_def n_def [symmetric] Let_def a(1) by simp
  moreover have "hp_limit ?h = hp_limit h" "hp_real_size ?h \<le> hp_real_size h + ZEND_MM_CHUNK_SIZE"
    using a(8,9) by (simp_all add: add_size_def same_blocks_def)
  ultimately show thesis using that in_use new n(3) unfolding n_def by blast
qed

end
