(* ===== verification/Zend_Mm_Small_Correct.thy ===== *)
theory Zend_Mm_Small_Correct
  imports Zend_Mm_Alloc_Correct
begin

section \<open>Small blocks\<close>

text \<open>
  A small block is the first free block of its bin.  When there is none a new run is cut into
  blocks: all but the first become free.  Freeing a small block puts it in front of the free blocks.
\<close>

lemma block_places:
  assumes "mm_heap_ok M g h" "block_of g b a"
  shows "(a, s) \<notin> large_blocks g" "(a, s) \<notin> snd ` set (bk_huge g)" "block_of g b' a \<Longrightarrow> b' = b" "b < 30" "a \<noteq> 0"
proof -
  obtain c q where a: "(c, q, b) \<in> bk_small g" "slot_of c q b a" using assms(2) by (auto simp: block_of_def)
  note i = small_info [OF assms(1) a]
  show "(a, s) \<notin> large_blocks g" using large_info(5) [OF assms(1)] i(3) by (auto simp: large_blocks_def)
  show "(a, s) \<notin> snd ` set (bk_huge g)"
  proof
    assume "(a, s) \<in> snd ` set (bk_huge g)"
    then obtain n where "(n, a, s) \<in> set (bk_huge g)" by auto
    then show False using huge_okD(6) [OF assms(1)] i(2) by (simp add: ZEND_MM_ALIGNED_OFFSET_def)
  qed
  show "block_of g b' a \<Longrightarrow> b' = b" using block_unique [OF assms(1) a] by (auto simp: block_of_def)
  show "b < 30" by (rule small_bin(1) [OF assms(1) a(1)])
  show "a \<noteq> 0" using i(2) by (cases "a = 0") (simp_all add: ZEND_MM_ALIGNED_OFFSET_def)
qed

lemma add_size_kept [simp]: "mm_heap_ok M g (add_size n h) = mm_heap_ok M g h" "hp_os (add_size n h) = hp_os h"
  "hp_limit (add_size n h) = hp_limit h" "hp_real_size (add_size n h) = hp_real_size h" "limit_room k (add_size n h) = limit_room k h"
  by (simp_all add: mm_heap_ok_def blocks_ok_def pages_ok_def map_ok_def free_ok_def huge_ok_def add_size_def limit_room_def)

lemma huge_ok_kept:
  assumes o: "huge_ok M g h" and s: "bk_huge g' = bk_huge g" "bk_chunks g' = bk_chunks g" "bk_cached g' = bk_cached g"
      "hp_huge h' = hp_huge h" "hp_huge_list h' = hp_huge_list h" "hp_os h' = hp_os h"
    and n: "\<And>a. a \<in> nodes_of g \<Longrightarrow> block_of g node_bin a \<Longrightarrow> a \<notin> set (bk_free g node_bin) \<Longrightarrow>
      block_of g' node_bin a \<and> a \<notin> set (bk_free g' node_bin)"
  shows "huge_ok M g' h'"
proof -
  have "block_of g' node_bin a \<and> a \<notin> set (bk_free g' node_bin)" if "(a, p, z) \<in> set (bk_huge g)" for a p z
  proof -
    have "block_of g node_bin a \<and> a \<notin> set (bk_free g node_bin)" using o that unfolding huge_ok_def by fast
    moreover have "a \<in> nodes_of g" using that by (force simp: nodes_of_def)
    ultimately show ?thesis using n by blast
  qed
  then show ?thesis using o unfolding huge_ok_def s by fast
qed

lemma take_free:
  assumes h: "mm_heap_ok M g h" and b: "b < 30" and f: "bk_free g b = p # ps"
  defines "g' \<equiv> g\<lparr>bk_free := (bk_free g)(b := ps)\<rparr>"
    and "h' \<equiv> h\<lparr>hp_free_slot := (hp_free_slot h)[b := hp_slot_next h p]\<rparr>"
  shows "mm_heap_ok M g' h'" "in_use g' = insert (p, bin_data_size ! b) (in_use g)" "(p, bin_data_size ! b) \<notin> in_use g"
    "block_of g' b p" "p \<notin> set (bk_free g' b)" "p \<notin> nodes_of g'"
proof -
  note o = heap_okD [OF h]
  have fb: "chain 0 (hp_slot_next h) (hp_free_slot h ! b) (p # ps)" "distinct (p # ps)" "\<And>a. a \<in> set (p # ps) \<Longrightarrow> block_of g b a"
    "length (hp_free_slot h) = 30" using o(3) b f by (auto simp: free_ok_def ZEND_MM_BINS_def)
  have bp: "block_of g b p" using fb(3) by simp
  note pl = block_places [OF h bp]
  have node: "p \<notin> nodes_of g"
  proof
    assume "p \<in> nodes_of g"
    then obtain x s where n: "(p, x, s) \<in> set (bk_huge g)" by (auto simp: nodes_of_def)
    then show False using huge_okD(3,4) [OF h n] pl(3) f by (metis list.set_intros(1))
  qed
  have bo: "block_of g' i a = block_of g i a" for i a by (simp add: g'_def block_of_def)
  show "block_of g' b p" "p \<notin> set (bk_free g' b)" "p \<notin> nodes_of g'" using bp fb(2) node by (simp_all add: bo) (simp_all add: g'_def nodes_of_def)
  have "free_ok g' h'"
    using o(3) fb b unfolding free_ok_def bo by (auto simp: g'_def h'_def ZEND_MM_BINS_def nth_list_update f)
  moreover have "huge_ok M g' h'"
    by (rule huge_ok_kept [OF o(4)]) (use f in \<open>auto simp: bo g'_def h'_def block_of_def split: if_splits\<close>)
  moreover have "pages_ok M (bk_chunks g') (bk_cached g') (runs g') h'" "map_ok g' h'"
    using o(1,2) by (simp_all add: pages_ok_def map_ok_def runs_def g'_def h'_def)
  ultimately show "mm_heap_ok M g' h'" by (simp add: mm_heap_ok_def blocks_ok_def)
  have "small_blocks g' = insert (p, bin_data_size ! b) (small_blocks g)"
  proof (rule set_eqI)
    fix x :: "nat \<times> nat"
    obtain a s where x: "x = (a, s)" by fastforce
    have "a \<notin> set (bk_free g' i) \<longleftrightarrow> a \<notin> set (bk_free g i) \<or> (i = b \<and> a = p)" if "block_of g i a" for i
      using fb(2) f by (auto simp: g'_def)
    then have "(\<exists>i. block_of g i a \<and> a \<notin> set (bk_free g' i) \<and> a \<notin> nodes_of g \<and> s = bin_data_size ! i) \<longleftrightarrow>
      (\<exists>i. block_of g i a \<and> a \<notin> set (bk_free g i) \<and> a \<notin> nodes_of g \<and> s = bin_data_size ! i) \<or> (a = p \<and> s = bin_data_size ! b)"
      using bp node by blast
    moreover have "nodes_of g' = nodes_of g" by (simp add: nodes_of_def g'_def)
    ultimately show "x \<in> small_blocks g' \<longleftrightarrow> x \<in> insert (p, bin_data_size ! b) (small_blocks g)"
      unfolding x small_blocks_def bo by auto
  qed
  moreover have "large_blocks g' = large_blocks g" "bk_huge g' = bk_huge g" by (simp_all add: large_blocks_image g'_def)
  ultimately show "in_use g' = insert (p, bin_data_size ! b) (in_use g)" by (simp add: in_use_def)
  have "(p, bin_data_size ! b) \<notin> small_blocks g" using pl(3) f by (auto simp: small_blocks_def)
  then show "(p, bin_data_size ! b) \<notin> in_use g" using pl(1,2) by (simp add: in_use_def)
qed

subsection \<open>Blocks that become free\<close>

lemma minus_middle: "X \<inter> (L \<union> H) = {} \<Longrightarrow> L \<union> (S - X) \<union> H = (L \<union> S \<union> H) - X"
  by blast

lemma put_free:
  assumes h: "mm_heap_ok M g h" and b: "b < 30"
    and as: "distinct as" "\<forall>a \<in> set as. block_of g b a \<and> a \<notin> set (bk_free g b) \<and> a \<notin> nodes_of g"
    and nx: "\<forall>a. a \<notin> set as \<longrightarrow> nx a = hp_slot_next h a" "chain 0 nx s (as @ bk_free g b)"
  defines "g' \<equiv> g\<lparr>bk_free := (bk_free g)(b := as @ bk_free g b)\<rparr>"
    and "h' \<equiv> h\<lparr>hp_free_slot := (hp_free_slot h)[b := s], hp_slot_next := nx\<rparr>"
  shows "mm_heap_ok M g' h'" "in_use g' = in_use g - (\<lambda>a. (a, bin_data_size ! b)) ` set as" "\<And>a. a \<in> set as \<Longrightarrow> (a, bin_data_size ! b) \<in> in_use g"
proof -
  note o = heap_okD [OF h]
  have bo: "block_of g' i a = block_of g i a" for i a by (simp add: g'_def block_of_def)
  have only: "i = b" if "a \<in> set as" "block_of g i a" for a i using block_places(3) [OF h, of b a i] as(2) that by blast
  have "chain 0 nx (hp_free_slot h ! i) (bk_free g i)" if i: "i < 30" "i \<noteq> b" for i
  proof -
    have f: "chain 0 (hp_slot_next h) (hp_free_slot h ! i) (bk_free g i)" "\<forall>a \<in> set (bk_free g i). block_of g i a"
      using o(3) i by (simp_all add: free_ok_def ZEND_MM_BINS_def)
    have "nx a = hp_slot_next h a" if "a \<in> set (bk_free g i)" for a using nx(1) only that f(2) i(2) by blast
    then show ?thesis using f(1) chain_cong [of "bk_free g i" nx] by simp
  qed
  then have "free_ok g' h'"
    using o(3) as nx(2) b unfolding free_ok_def bo by (auto simp: g'_def h'_def ZEND_MM_BINS_def nth_list_update)
  moreover have "huge_ok M g' h'"
    by (rule huge_ok_kept [OF o(4)]) (use as(2) in \<open>auto simp: bo\<close>, auto simp: g'_def h'_def as(2) split: if_splits)
  moreover have "pages_ok M (bk_chunks g') (bk_cached g') (runs g') h'" "map_ok g' h'"
    using o(1,2) by (simp_all add: pages_ok_def map_ok_def runs_def g'_def h'_def)
  ultimately show "mm_heap_ok M g' h'" by (simp add: mm_heap_ok_def blocks_ok_def)
  have "small_blocks g' = small_blocks g - (\<lambda>a. (a, bin_data_size ! b)) ` set as"
  proof (rule set_eqI)
    fix x :: "nat \<times> nat"
    obtain a z where x: "x = (a, z)" by fastforce
    have "nodes_of g' = nodes_of g" by (simp add: nodes_of_def g'_def)
    moreover have "(a \<notin> set (bk_free g' i)) = (a \<notin> set (bk_free g i) \<and> \<not> (i = b \<and> a \<in> set as))" for i by (auto simp: g'_def)
    ultimately show "x \<in> small_blocks g' \<longleftrightarrow> x \<in> small_blocks g - (\<lambda>a. (a, bin_data_size ! b)) ` set as"
      unfolding x small_blocks_def bo using only by auto
  qed
  moreover have "(\<lambda>a. (a, bin_data_size ! b)) ` set as \<inter> (large_blocks g \<union> snd ` set (bk_huge g)) = {}"
    using block_places(1,2) [OF h] as(2) by blast
  moreover have "large_blocks g' = large_blocks g" "bk_huge g' = bk_huge g" by (simp_all add: large_blocks_image g'_def)
  ultimately show "in_use g' = in_use g - (\<lambda>a. (a, bin_data_size ! b)) ` set as" unfolding in_use_def by (simp add: minus_middle)
  show "(a, bin_data_size ! b) \<in> in_use g" if "a \<in> set as" for a
    using as(2) that by (auto simp: in_use_def small_blocks_def)
qed

subsection \<open>A new run\<close>

lemma chunk_ok_map: "length m = length (ch_map c) \<Longrightarrow> chunk_ok (c\<lparr>ch_map := m\<rparr>) R = chunk_ok c R"
  by (simp add: chunk_ok_def)

lemma pages_ok_map:
  assumes "pages_ok M cs ds R h" "length m = length (ch_map (hp_chunk h c))"
  shows "pages_ok M cs ds R (upd_chunk c (\<lambda>x. x\<lparr>ch_map := m\<rparr>) h)"
proof (rule pages_okI)
  let ?h = "upd_chunk c (\<lambda>x. x\<lparr>ch_map := m\<rparr>) h"
  show "ring (hp_chunk ?h) cs" using pages_okD(1) [OF assms(1)] ring_cong [of cs "hp_chunk ?h" "hp_chunk h"] by simp
  have "(\<lambda>a. ch_next (hp_chunk ?h a)) = (\<lambda>a. ch_next (hp_chunk h a))" by auto
  then show "chain 0 (\<lambda>a. ch_next (hp_chunk ?h a)) (hp_cached_chunks ?h) ds" using pages_okD(3) [OF assms(1)] by simp
qed (use assms pages_okD [OF assms(1)] in \<open>auto simp: chunk_ok_map cached_ok_def\<close>)

definition run_words :: "nat \<Rightarrow> nat \<Rightarrow> nat \<Rightarrow> u32 list \<Rightarrow> bool" where
  "run_words q b n m = (m ! q = ZEND_MM_SRUN b \<and> (\<forall>i. 0 < i \<longrightarrow> i < n \<longrightarrow> m ! (q + i) = ZEND_MM_NRUN b i))"

lemma new_small_run:
  assumes h: "mm_heap_ok M g h" and b: "b < 30"
    and p: "blocks_ok M ((runs g)(c := insert (q, bin_pages ! b) (runs g c))) (g\<lparr>bk_chunks := cs, bk_cached := ds\<rparr>) h1"
      "\<forall>k \<in> {q..<q + bin_pages ! b}. \<not> in_runs (runs g c) k"
    and m: "length m = length (ch_map (hp_chunk h1 c))" "run_words q b (bin_pages ! b) m"
      "\<forall>k. k \<notin> {q..<q + bin_pages ! b} \<longrightarrow> m ! k = ch_map (hp_chunk h1 c) ! k"
  defines "g' \<equiv> g\<lparr>bk_chunks := cs, bk_cached := ds, bk_small := insert (c, q, b) (bk_small g)\<rparr>"
    and "h' \<equiv> upd_chunk c (\<lambda>x. x\<lparr>ch_map := m\<rparr>) h1"
  shows "mm_heap_ok M g' h'" "in_use g' = in_use g \<union> {(a, bin_data_size ! b) |a. slot_of c q b a}"
    "\<And>a. slot_of c q b a \<Longrightarrow> (a, bin_data_size ! b) \<notin> in_use g \<and> block_of g' b a \<and> a \<notin> set (bk_free g' b) \<and> a \<notin> nodes_of g'"
proof -
  let ?R = "(runs g)(c := insert (q, bin_pages ! b) (runs g c))"
  have o: "pages_ok M cs ds ?R h1" "map_ok (g\<lparr>bk_chunks := cs, bk_cached := ds\<rparr>) h1" "free_ok (g\<lparr>bk_chunks := cs, bk_cached := ds\<rparr>) h1"
    "huge_ok M (g\<lparr>bk_chunks := cs, bk_cached := ds\<rparr>) h1" using p(1) by (simp_all add: blocks_ok_def)
  have runs: "runs g' = ?R" by (auto simp: runs_def g'_def fun_eq_iff)
  have bo: "block_of g' i a = (block_of g i a \<or> i = b \<and> slot_of c q b a)" for i a by (auto simp: block_of_def g'_def)
  have bo1: "block_of (g\<lparr>bk_chunks := cs, bk_cached := ds\<rparr>) i a = block_of g i a" for i a by (simp add: block_of_def)
  have keep: "ch_map (hp_chunk h' d) ! k = ch_map (hp_chunk h1 d) ! k" if "in_runs (runs g d) k" for d k
    using m(3) p(2) that by (auto simp: h'_def)
  have "ch_map (hp_chunk h' e) ! r = ZEND_MM_LRUN n" if "(e, r, n) \<in> bk_large g" for e r n
    using keep [of e r] run_places(1) [OF h that] o(2) that by (auto simp: map_ok_def)
  moreover have "i < bin_pages ! d \<Longrightarrow> ch_map (hp_chunk h' e) ! (r + i) = (if i = 0 then ZEND_MM_SRUN d else ZEND_MM_NRUN d i) \<and> d < ZEND_MM_BINS"
    if r: "(e, r, d) \<in> bk_small g'" for e r d i
  proof -
    assume i: "i < bin_pages ! d"
    show ?thesis
    proof (cases "(e, r, d) \<in> bk_small g")
      case True
      then show ?thesis using keep [of e "r + i"] run_places(2) [OF h True i] o(2) i by (auto simp: map_ok_def)
    next
      case False
      then have "e = c" "r = q" "d = b" using r by (simp_all add: g'_def)
      then show ?thesis using m(2) i b by (auto simp: h'_def run_words_def ZEND_MM_BINS_def)
    qed
  qed
  moreover have "0 < bin_pages ! d" if "(e, r, d) \<in> bk_small g'" for e r d
    using that bins_ok(1) [OF b] bins_ok(1) [OF small_bin(1) [OF h]] by (auto simp: g'_def)
  ultimately have "map_ok g' h'" unfolding map_ok_def by (fastforce simp: g'_def)
  moreover have "pages_ok M (bk_chunks g') (bk_cached g') (runs g') h'"
    using pages_ok_map [OF o(1) m(1)] unfolding runs by (simp add: g'_def h'_def)
  moreover have "free_ok g' h'" using o(3) unfolding free_ok_def bo bo1 by (auto simp: g'_def h'_def upd_chunk_def)
  moreover have "huge_ok M g' h'"
    by (rule huge_ok_kept [OF o(4)]) (simp_all add: bo bo1, simp_all add: g'_def h'_def upd_chunk_def)
  ultimately show hok: "mm_heap_ok M g' h'" by (simp add: mm_heap_ok_def blocks_ok_def)
  have new: "(a, bin_data_size ! b) \<notin> in_use g \<and> a \<notin> set (bk_free g b) \<and> a \<notin> nodes_of g" if a: "slot_of c q b a" for a
  proof (intro conjI notI)
    have ra: "a \<in> run_area c q (bin_pages ! b)" using slot_area [OF a b] bins_ok(4) [OF b] by auto
    assume l: "(a, bin_data_size ! b) \<in> in_use g"
    have "\<And>e. runs g e \<subseteq> runs g' e" "bk_huge g' = bk_huge g" "(q, bin_pages ! b) \<in> runs g' c" unfolding runs by (auto simp: g'_def)
    from fresh_run [OF h hok this bspec [OF p(2)] l] have "a \<notin> bytes_of (a, bin_data_size ! b)" using ra by blast
    then show False using bins_ok(4) [OF b] by (simp add: bytes_of_def)
  next
    have no: "\<not> block_of g b a"
    proof
      assume "block_of g b a"
      then obtain d r where d: "(d, r, b) \<in> bk_small g" "slot_of d r b a" by (auto simp: block_of_def)
      then have "(d, r, b) \<in> bk_small g'" "(c, q, b) \<in> bk_small g'" by (simp_all add: g'_def)
      from block_unique [OF hok this(1) d(2) this(2) a] have "(c, q, b) \<in> bk_small g" using d(1) by simp
      then have "in_runs (runs g c) q" using run_places(2) [OF h, of c q b 0] bins_ok(1) [OF b] by simp
      then show False using p(2) bins_ok(1) [OF b] by simp
    qed
    show False if "a \<in> set (bk_free g b)" using o(3) that no b by (auto simp: free_ok_def bo1 ZEND_MM_BINS_def)
    assume "a \<in> nodes_of g"
    then obtain x z where n: "(a, x, z) \<in> set (bk_huge g)" by (auto simp: nodes_of_def)
    then have "block_of g node_bin a" by (rule huge_okD(3) [OF h])
    then have "block_of g' node_bin a" "block_of g' b a" using a by (simp_all add: bo)
    then show False using block_places(3) [OF hok] \<open>block_of g node_bin a\<close> no by blast
  qed
  have free: "bk_free g' = bk_free g" "nodes_of g' = nodes_of g" by (simp_all add: g'_def nodes_of_def)
  show "(a, bin_data_size ! b) \<notin> in_use g \<and> block_of g' b a \<and> a \<notin> set (bk_free g' b) \<and> a \<notin> nodes_of g'" if "slot_of c q b a" for a
    using new [OF that] that unfolding free bo by blast
  have "small_blocks g' = small_blocks g \<union> {(a, bin_data_size ! b) |a. slot_of c q b a}"
    unfolding small_blocks_def bo free using new by blast
  moreover have "large_blocks g' = large_blocks g" "bk_huge g' = bk_huge g" by (simp_all add: large_blocks_image g'_def)
  ultimately show "in_use g' = in_use g \<union> {(a, bin_data_size ! b) |a. slot_of c q b a}" by (auto simp: in_use_def)
qed

subsection \<open>Cutting a run into blocks\<close>

lemma set_map_fold:
  "fold (\<lambda>i. set_map c (q + i) (w i)) is (upd_chunk c (\<lambda>x. x\<lparr>ch_map := m\<rparr>) h) =
    upd_chunk c (\<lambda>x. x\<lparr>ch_map := fold (\<lambda>i m. m[q + i := w i]) is m\<rparr>) h"
  by (induction "is" arbitrary: m) (simp_all add: set_map_def upd_chunk_def)

lemma fold_words:
  fixes w :: "nat \<Rightarrow> 'a"
  assumes "q + n \<le> length m"
  defines "m' \<equiv> fold (\<lambda>i m. m[q + i := w i]) [1..<n] m"
  shows "length m' = length m" "m' ! k = (if q < k \<and> k < q + n then w (k - q) else m ! k)"
proof -
  have "length (fold (\<lambda>i m. m[q + i := w i]) [1..<n] m) = length m \<and>
    fold (\<lambda>i m. m[q + i := w i]) [1..<n] m ! k = (if q < k \<and> k < q + n then w (k - q) else m ! k)"
    using assms(1)
  proof (induction n)
    case (Suc n)
    show ?case
    proof (cases "n = 0")
      case True
      then show ?thesis by auto
    next
      case False
      then have "[1..<Suc n] = [1..<n] @ [n]" by simp
      then show ?thesis using Suc False by (cases "k = q + n") auto
    qed
  qed auto
  then show "length m' = length m" "m' ! k = (if q < k \<and> k < q + n then w (k - q) else m ! k)" unfolding m'_def by blast+
qed

lemma run_words_set:
  assumes "q + n \<le> length (ch_map (hp_chunk h c))" "0 < n"
  obtains m where "fold (\<lambda>i. set_map c (q + i) (ZEND_MM_NRUN b i)) [1..<n] (set_map c q (ZEND_MM_SRUN b) h) =
      upd_chunk c (\<lambda>x. x\<lparr>ch_map := m\<rparr>) h" "length m = length (ch_map (hp_chunk h c))" "run_words q b n m"
    "\<forall>k. k \<notin> {q..<q + n} \<longrightarrow> m ! k = ch_map (hp_chunk h c) ! k"
proof -
  let ?m = "(ch_map (hp_chunk h c))[q := ZEND_MM_SRUN b]"
  have "set_map c q (ZEND_MM_SRUN b) h = upd_chunk c (\<lambda>x. x\<lparr>ch_map := ?m\<rparr>) h" by (simp add: set_map_def upd_chunk_def)
  then have e: "fold (\<lambda>i. set_map c (q + i) (ZEND_MM_NRUN b i)) [1..<n] (set_map c q (ZEND_MM_SRUN b) h) =
      upd_chunk c (\<lambda>x. x\<lparr>ch_map := fold (\<lambda>i m. m[q + i := ZEND_MM_NRUN b i]) [1..<n] ?m\<rparr>) h" by (simp only: set_map_fold)
  have l: "q + n \<le> length ?m" using assms(1) by simp
  note w = fold_words [OF l, where w = "ZEND_MM_NRUN b"]
  show thesis
  proof (rule that [OF e])
    show "run_words q b n (fold (\<lambda>i m. m[q + i := ZEND_MM_NRUN b i]) [1..<n] ?m)"
      unfolding run_words_def w(2) using assms by simp
    show "\<forall>k. k \<notin> {q..<q + n} \<longrightarrow> fold (\<lambda>i m. m[q + i := ZEND_MM_NRUN b i]) [1..<n] ?m ! k = ch_map (hp_chunk h c) ! k"
    proof (intro allI impI)
      fix k assume "k \<notin> {q..<q + n}"
      then have "k \<noteq> q" "\<not> (q < k \<and> k < q + n)" using assms(2) by auto
      then show "fold (\<lambda>i m. m[q + i := ZEND_MM_NRUN b i]) [1..<n] ?m ! k = ch_map (hp_chunk h c) ! k" unfolding w(2) by auto
    qed
  qed (use w(1) in simp)
qed

lemma fold_links:
  fixes f v :: "nat \<Rightarrow> nat"
  assumes "inj f"
  shows "k \<in> {1..<n} \<Longrightarrow> fold (\<lambda>k nx. nx(f k := v k)) [1..<n] nx (f k) = v k"
    "a \<notin> f ` {1..<n} \<Longrightarrow> fold (\<lambda>k nx. nx(f k := v k)) [1..<n] nx a = nx a"
proof (induction n)
  case (Suc n)
  {
    case 1
    then show ?case using Suc(1) inj_eq [OF assms] by (cases "k = n") auto
  next
    case 2
    then show ?case using Suc(2) by (cases n) (auto simp: image_iff)
  }
qed simp_all

lemma chain_upto:
  assumes "\<And>k. i \<le> k \<Longrightarrow> k < n \<Longrightarrow> f k \<noteq> 0" "\<And>k. i \<le> k \<Longrightarrow> Suc k < n \<Longrightarrow> nx (f k) = f (Suc k)" "nx (f (n - 1)) = 0" "i < n"
  shows "chain 0 nx (f i) (map f [i..<n])"
  using assms
proof (induction "n - i" arbitrary: i)
  case (Suc d)
  show ?case
  proof (cases "Suc i = n")
    case True
    then show ?thesis using Suc.prems by auto
  next
    case False
    then have "chain 0 nx (f (Suc i)) (map f [Suc i..<n])" using Suc by simp
    then show ?thesis using Suc.prems False by (simp add: upt_conv_Cons)
  qed
qed simp

lemma link_blocks_ok:
  assumes "0 < bin" "0 < sz" "2 \<le> e"
  obtains nx where "link_blocks bin sz e h = h\<lparr>hp_slot_next := nx\<rparr>"
    "chain 0 nx (bin + sz) (map (\<lambda>k. bin + sz * k) [1..<e])" "\<And>a. a \<notin> (\<lambda>k. bin + sz * k) ` {1..<e} \<Longrightarrow> nx a = hp_slot_next h a"
proof -
  let ?f = "\<lambda>k. bin + sz * k"
  define nx where "nx = (fold (\<lambda>k nx. nx(?f k := ?f (k + 1))) [1..<e - 1] (hp_slot_next h))(?f (e - 1) := 0)"
  have f: "inj ?f" using assms(2) by (auto simp: inj_def)
  note l = fold_links [OF f, where v = "\<lambda>k. ?f (k + 1)"]
  have "nx (?f k) = ?f (Suc k)" if "1 \<le> k" "Suc k < e" for k
    using l(1) [of k "e - 1"] that assms(2) by (simp add: nx_def)
  then have "chain 0 nx (?f 1) (map ?f [1..<e])" using assms by (intro chain_upto) (auto simp: nx_def)
  moreover have "nx a = hp_slot_next h a" if a: "a \<notin> ?f ` {1..<e}" for a
  proof -
    have "?f ` {1..<e - 1} \<subseteq> ?f ` {1..<e}" "?f (e - 1) \<in> ?f ` {1..<e}" using assms(3) by (intro image_mono imageI, force)+
    then have "a \<notin> ?f ` {1..<e - 1}" "a \<noteq> ?f (e - 1)" using a by blast+
    then show ?thesis using l(2) unfolding nx_def by simp
  qed
  ultimately show thesis using that [of nx] by (simp add: link_blocks_def Let_def nx_def)
qed

subsection \<open>Allocation and release\<close>

lemma slots_image: "{a. slot_of c q b a} = (\<lambda>k. ZEND_MM_PAGE_ADDR c q + bin_data_size ! b * k) ` {..<bin_elements ! b}"
  by (auto simp: slot_of_def mult.commute)

lemma alloc_small_slow_ok:
  assumes h: "mm_heap_ok M g h" and os: "os_ok os M" and r: "limit_room ZEND_MM_CHUNK_SIZE h" and b: "b < 30" and e: "bk_free g b = []"
  obtains a g' h' where "zend_mm_alloc_small_slow os b h = Inr (a, h')" "mm_heap_ok M g' h'"
    "in_use g' = insert (a, bin_data_size ! b) (in_use g)" "(a, bin_data_size ! b) \<notin> in_use g" "block_of g' b a" "a \<notin> set (bk_free g' b)"
    "a \<notin> nodes_of g'" "bk_huge g' = bk_huge g" "hp_size h' = hp_size h" "hp_limit h' = hp_limit h"
    "hp_real_size h' \<le> hp_real_size h + ZEND_MM_CHUNK_SIZE" "fresh_chunks M g h g' h'"
proof -
  let ?n = "bin_pages ! b" and ?e = "bin_elements ! b" and ?d = "bin_data_size ! b"
  note bo = bins_ok [OF b]
  have n: "0 < ?n" "?n < ZEND_MM_PAGES" using bo(1,2) by (simp_all add: ZEND_MM_PAGES_def)
  from new_run [OF h os r n] obtain c q cs ds h1 where a: "zend_mm_alloc_pages os ?n h = Inr (ZEND_MM_PAGE_ADDR c q, h1)"
    "blocks_ok M ((runs g)(c := insert (q, ?n) (runs g c))) (g\<lparr>bk_chunks := cs, bk_cached := ds\<rparr>) h1"
    "c \<in> set cs" "0 < q" "q + ?n \<le> ZEND_MM_PAGES" "\<And>k. k \<in> {q..<q + ?n} \<Longrightarrow> \<not> in_runs (runs g c) k"
    "same_blocks h h1" "hp_real_size h1 \<le> hp_real_size h + ZEND_MM_CHUNK_SIZE"
    "fresh_chunks M g h (g\<lparr>bk_chunks := cs, bk_cached := ds\<rparr>) h1" by metis
  let ?p = "ZEND_MM_PAGE_ADDR c q"
  have pk: "pages_ok M cs ds ((runs g)(c := insert (q, ?n) (runs g c))) h1" using a(2) by (simp add: blocks_ok_def)
  have c: "c mod ZEND_MM_CHUNK_SIZE = 0" "c \<noteq> 0" using pages_okD(5) [OF pk] a(3) by (auto simp: is_chunk_def)
  have "q < ZEND_MM_PAGES" "0 < ZEND_MM_PAGE_SIZE" using a(5) n(1) by (simp_all add: ZEND_MM_PAGE_SIZE_def)
  note pa = page_addr [OF c(1) this, unfolded add_0_right]
  have len: "q + ?n \<le> length (ch_map (hp_chunk h1 c))" using pages_okD(6) [OF pk a(3)] chunk_ok_counts a(5) by metis
  from run_words_set [OF len n(1), of b] obtain m where m:
    "fold (\<lambda>i. set_map c (q + i) (ZEND_MM_NRUN b i)) [1..<?n] (set_map c q (ZEND_MM_SRUN b) h1) = upd_chunk c (\<lambda>x. x\<lparr>ch_map := m\<rparr>) h1"
    "length m = length (ch_map (hp_chunk h1 c))" "run_words q b ?n m" "\<forall>k. k \<notin> {q..<q + ?n} \<longrightarrow> m ! k = ch_map (hp_chunk h1 c) ! k" by blast
  define h2 where "h2 = upd_chunk c (\<lambda>x. x\<lparr>ch_map := m\<rparr>) h1"
  define g2 where "g2 = g\<lparr>bk_chunks := cs, bk_cached := ds, bk_small := insert (c, q, b) (bk_small g)\<rparr>"
  have fr: "\<forall>k \<in> {q..<q + ?n}. \<not> in_runs (runs g c) k" using a(6) by blast
  note s = new_small_run [OF h b a(2) fr m(2-4), folded h2_def g2_def]
  have p: "0 < ?p" "0 < ?d" "2 \<le> ?e" using c(2) bo(3,4) by (simp_all add: ZEND_MM_PAGE_ADDR_def)
  from link_blocks_ok [OF p, of "h2\<lparr>hp_free_slot := (hp_free_slot h2)[b := ?p + ?d]\<rparr>"] obtain nx where nx:
    "link_blocks ?p ?d ?e (h2\<lparr>hp_free_slot := (hp_free_slot h2)[b := ?p + ?d]\<rparr>) =
      h2\<lparr>hp_free_slot := (hp_free_slot h2)[b := ?p + ?d], hp_slot_next := nx\<rparr>"
    "chain 0 nx (?p + ?d) (map (\<lambda>k. ?p + ?d * k) [1..<?e])" "\<And>x. x \<notin> (\<lambda>k. ?p + ?d * k) ` {1..<?e} \<Longrightarrow> nx x = hp_slot_next h2 x"
    by auto
  let ?as = "map (\<lambda>k. ?p + ?d * k) [1..<?e]"
  let ?g = "g2\<lparr>bk_free := (bk_free g2)(b := ?as @ bk_free g2 b)\<rparr>"
    and ?h = "h2\<lparr>hp_free_slot := (hp_free_slot h2)[b := ?p + ?d], hp_slot_next := nx\<rparr>"
  have e2: "bk_free g2 b = []" using e by (simp add: g2_def)
  have sl: "slot_of c q b x" if "x \<in> set ?as" for x using that unfolding slot_of_def by (force simp: mult.commute)
  have d: "distinct ?as" using p(2) by (simp add: distinct_map inj_on_def)
  have 1: "\<forall>x \<in> set ?as. block_of g2 b x \<and> x \<notin> set (bk_free g2 b) \<and> x \<notin> nodes_of g2" using s(3) sl by blast
  have 2: "\<forall>x. x \<notin> set ?as \<longrightarrow> nx x = hp_slot_next h2 x" using nx(3) by simp
  have 3: "chain 0 nx (?p + ?d) (?as @ bk_free g2 b)" using nx(2) e2 by simp
  note f = put_free [OF s(1) b d 1 2 3]
  have ok: "mm_heap_ok M ?g ?h" and lv: "in_use ?g = in_use g2 - (\<lambda>x. (x, ?d)) ` set ?as" using f(1,2) by blast+
  have sp: "slot_of c q b ?p" using p(3) unfolding slot_of_def by (intro exI [of _ 0]) simp
  have pn: "?p \<notin> set ?as" using p(2) by auto
  have all: "{a. slot_of c q b a} = insert ?p (set ?as)"
  proof -
    have "{..<?e} = insert 0 {1..<?e}" using p(3) by auto
    then show ?thesis unfolding slots_image by simp
  qed
  have "in_use g2 = in_use g \<union> (\<lambda>x. (x, ?d)) ` {a. slot_of c q b a}" using s(2) by (simp only: setcompr_eq_image)
  then have "in_use g2 = in_use g \<union> insert (?p, ?d) ((\<lambda>x. (x, ?d)) ` set ?as)" unfolding all by simp
  moreover have "(\<lambda>x. (x, ?d)) ` set ?as \<inter> in_use g = {}" using s(3) sl by blast
  moreover have "(?p, ?d) \<notin> (\<lambda>x. (x, ?d)) ` set ?as" using pn by blast
  ultimately have in_use: "in_use ?g = insert (?p, ?d) (in_use g)" unfolding lv by blast
  have run: "zend_mm_alloc_small_slow os b h = Inr (?p, ?h)"
    unfolding zend_mm_alloc_small_slow_def a(1) by (simp add: Let_def pa m(1) [folded h2_def, simplified] nx(1))
  have b3: "block_of ?g b ?p" "?p \<notin> set (bk_free ?g b)" "?p \<notin> nodes_of ?g" "(?p, ?d) \<notin> in_use g"
    using s(3) [OF sp] pn e2 by (simp_all add: block_of_def nodes_of_def)
  have b4: "bk_huge ?g = bk_huge g" "hp_size ?h = hp_size h" "hp_limit ?h = hp_limit h" "hp_real_size ?h \<le> hp_real_size h + ZEND_MM_CHUNK_SIZE"
    using a(7,8) by (simp_all add: g2_def h2_def same_blocks_def upd_chunk_def)
  have "fresh_chunks M g h ?g ?h" using a(9) by (simp add: fresh_chunks_def g2_def h2_def upd_chunk_def)
  with run ok in_use b3 b4 show thesis using that by blast
qed

lemma free_list_head:
  "mm_heap_ok M g h \<Longrightarrow> b < 30 \<Longrightarrow> hp_free_slot h ! b = (case bk_free g b of [] \<Rightarrow> 0 | p # ps \<Rightarrow> p) \<and> 0 \<notin> set (bk_free g b)"
proof -
  assume "mm_heap_ok M g h" "b < 30"
  then have "chain 0 (hp_slot_next h) (hp_free_slot h ! b) (bk_free g b)" using heap_okD(3) by (auto simp: free_ok_def ZEND_MM_BINS_def)
  then show ?thesis using chain_not_nil by (auto split: list.splits)
qed

lemma alloc_small_ok:
  assumes h: "mm_ok M g h" and os: "os_ok os M" and r: "limit_room ZEND_MM_CHUNK_SIZE h" and b: "b < 30"
  obtains a g' h' where "zend_mm_alloc_small os b h = Inr (a, h')" "mm_ok M g' h'"
    "in_use g' = insert (a, bin_data_size ! b) (in_use g)" "(a, bin_data_size ! b) \<notin> in_use g" "block_of g' b a" "a \<notin> set (bk_free g' b)"
    "a \<notin> nodes_of g'" "bk_huge g' = bk_huge g" "hp_limit h' = hp_limit h"
    "hp_real_size h' \<le> hp_real_size h + ZEND_MM_CHUNK_SIZE" "fresh_chunks M g h g' h'"
proof -
  let ?d = "bin_data_size ! b" and ?h = "add_size (bin_data_size ! b) h"
  have ok: "mm_heap_ok M g ?h" and u: "usage_ok g h" and re: "real_ok g h" using h by (simp_all add: mm_ok_def)
  have sz: "hp_size ?h = hp_size h + ?d" by (simp add: add_size_def)
  note hd = free_list_head [OF ok b]
  show thesis
  proof (cases "bk_free g b")
    case Nil
    have "limit_room ZEND_MM_CHUNK_SIZE ?h" using r by simp
    from alloc_small_slow_ok [OF ok os this b Nil] obtain a g' h' where a: "zend_mm_alloc_small_slow os b ?h = Inr (a, h')" "mm_heap_ok M g' h'"
      "in_use g' = insert (a, ?d) (in_use g)" "(a, ?d) \<notin> in_use g" "block_of g' b a" "a \<notin> set (bk_free g' b)"
      "a \<notin> nodes_of g'" "bk_huge g' = bk_huge g" "hp_size h' = hp_size ?h" "hp_limit h' = hp_limit ?h"
      "hp_real_size h' \<le> hp_real_size ?h + ZEND_MM_CHUNK_SIZE" "fresh_chunks M g ?h g' h'" by metis
    have "usage_ok g' h'" using usage_insert [OF u a(3,4)] a(8,9) sz by simp
    moreover have fc: "fresh_chunks M g h g' h'" using a(12) by (simp add: fresh_chunks_def)
    moreover have "real_ok g' h'" by (rule real_fresh [OF re fc refl refl a(8) refl])
    ultimately have "mm_ok M g' h'" using a(2) by (simp add: mm_ok_def)
    moreover have "zend_mm_alloc_small os b h = Inr (a, h')" using a(1) hd Nil by (simp add: zend_mm_alloc_small_def)
    moreover note fc
    ultimately show thesis using that a(3-8,10,11) by simp
  next
    case (Cons p ps)
    note t = take_free [OF ok b Cons]
    let ?g = "g\<lparr>bk_free := (bk_free g)(b := ps)\<rparr>" and ?h' = "?h\<lparr>hp_free_slot := (hp_free_slot ?h)[b := hp_slot_next ?h p]\<rparr>"
    have "hp_size ?h' = hp_size h + snd (p, ?d)" using sz by simp
    then have "usage_ok ?g ?h'" using usage_insert [OF u t(2,3)] by simp
    moreover have "real_ok ?g ?h'" using re by (simp add: real_ok_def add_size_def)
    ultimately have "mm_ok M ?g ?h'" using t(1) by (simp add: mm_ok_def)
    moreover have "zend_mm_alloc_small os b h = Inr (p, ?h')"
      using hd Cons by (simp add: zend_mm_alloc_small_def Let_def)
    moreover have "fresh_chunks M g h ?g ?h'" by (simp add: fresh_chunks_def)
    moreover have "bk_huge ?g = bk_huge g" "hp_limit ?h' = hp_limit h" "hp_real_size ?h' \<le> hp_real_size h + ZEND_MM_CHUNK_SIZE" by simp_all
    ultimately show thesis using that t(2-6) by blast
  qed
qed

lemma free_small_heap:
  assumes ok: "mm_heap_ok M g h" and l: "block_of g b a" "a \<notin> set (bk_free g b)" "a \<notin> nodes_of g"
  defines "g' \<equiv> g\<lparr>bk_free := (bk_free g)(b := a # bk_free g b)\<rparr>"
  shows "mm_heap_ok M g' (zend_mm_free_small a b h)" "in_use g' = in_use g - {(a, bin_data_size ! b)}" "(a, bin_data_size ! b) \<in> in_use g"
proof -
  note b = block_places(4,5) [OF ok l(1)]
  have c: "chain 0 (hp_slot_next h) (hp_free_slot h ! b) (bk_free g b)"
    using heap_okD(3) [OF ok] b(1) by (simp add: free_ok_def ZEND_MM_BINS_def)
  let ?nx = "(hp_slot_next h)(a := hp_free_slot h ! b)"
  have 1: "\<forall>x \<in> set [a]. block_of g b x \<and> x \<notin> set (bk_free g b) \<and> x \<notin> nodes_of g" using l by simp
  have 2: "\<forall>x. x \<notin> set [a] \<longrightarrow> ?nx x = hp_slot_next h x" by simp
  have 3: "chain 0 ?nx a ([a] @ bk_free g b)" using c l(2) b(2) by simp
  have "distinct [a]" by simp
  note f = put_free [OF ok b(1) this 1 2 3]
  let ?h = "h\<lparr>hp_free_slot := (hp_free_slot h)[b := a], hp_slot_next := ?nx\<rparr>"
  have f': "mm_heap_ok M g' ?h" "in_use g' = in_use g - {(a, bin_data_size ! b)}" "(a, bin_data_size ! b) \<in> in_use g"
    using f(1,2) f(3) [of a] by (simp_all add: g'_def)
  show "in_use g' = in_use g - {(a, bin_data_size ! b)}" "(a, bin_data_size ! b) \<in> in_use g" by (rule f'(2), rule f'(3))
  show "mm_heap_ok M g' (zend_mm_free_small a b h)"
    using f'(1) by (simp add: zend_mm_free_small_def mm_heap_ok_def blocks_ok_def pages_ok_def map_ok_def free_ok_def huge_ok_def)
qed

lemma free_small_ok:
  assumes h: "mm_ok M g h" and l: "block_of g b a" "a \<notin> set (bk_free g b)" "a \<notin> nodes_of g"
  defines "g' \<equiv> g\<lparr>bk_free := (bk_free g)(b := a # bk_free g b)\<rparr>"
  shows "mm_ok M g' (zend_mm_free_small a b h)" "in_use g' = in_use g - {(a, bin_data_size ! b)}"
proof -
  have ok: "mm_heap_ok M g h" and u: "usage_ok g h" and re: "real_ok g h" using h by (simp_all add: mm_ok_def)
  note f = free_small_heap [OF ok l, folded g'_def]
  have "hp_size (zend_mm_free_small a b h) = hp_size h - snd (a, bin_data_size ! b)" "length (bk_huge g') = length (bk_huge g)"
    by (simp_all add: zend_mm_free_small_def g'_def)
  then have "usage_ok g' (zend_mm_free_small a b h)" using usage_remove [OF u f(2,3)] by blast
  moreover have "real_ok g' (zend_mm_free_small a b h)" using re by (simp add: real_ok_def g'_def zend_mm_free_small_def)
  ultimately show "mm_ok M g' (zend_mm_free_small a b h)" "in_use g' = in_use g - {(a, bin_data_size ! b)}" using f(1,2) by (simp_all add: mm_ok_def)
qed

end
