(* ===== verification/Zend_Mm_Huge_Correct.thy ===== *)
theory Zend_Mm_Huge_Correct
  imports Zend_Mm_Small_Correct
begin

section \<open>Huge blocks\<close>

text \<open>
  A huge block is memory of its own, listed in a node, which is a small block that the user does not
  hold.
\<close>

lemma heap_ok_os:
  assumes h: "mm_heap_ok M g h" and c: "\<And>c. c \<in> set (bk_chunks g) \<or> c \<in> set (bk_cached g) \<Longrightarrow> area c \<subseteq> M s"
    and p: "\<And>a p z. (a, p, z) \<in> set (bk_huge g) \<Longrightarrow> huge_area p z \<subseteq> M s"
  shows "mm_heap_ok M g (h\<lparr>hp_os := s\<rparr>)"
proof -
  note o = heap_okD [OF h]
  have "is_chunk (M s) c" if "c \<in> set (bk_chunks g) \<or> c \<in> set (bk_cached g)" for c
    using pages_okD(5) [OF o(1) that] c [OF that] by (simp add: is_chunk_def)
  then have "pages_ok M (bk_chunks g) (bk_cached g) (runs g) (h\<lparr>hp_os := s\<rparr>)"
    using pages_okD [OF o(1)] by (intro pages_okI) simp_all
  moreover have "huge_ok M g (h\<lparr>hp_os := s\<rparr>)" using o(4) p unfolding huge_ok_def by fastforce
  moreover have "map_ok g (h\<lparr>hp_os := s\<rparr>)" "free_ok g (h\<lparr>hp_os := s\<rparr>)" using o(2,3) by (simp_all add: map_ok_def free_ok_def)
  ultimately show ?thesis by (simp add: mm_heap_ok_def blocks_ok_def)
qed

lemma heap_ok_counts [simp]:
  "mm_heap_ok M g (h\<lparr>hp_size := n\<rparr>) = mm_heap_ok M g h" "mm_heap_ok M g (h\<lparr>hp_real_size := n\<rparr>) = mm_heap_ok M g h"
  "mm_heap_ok M g (add_real_size n h) = mm_heap_ok M g h"
  by (simp_all add: mm_heap_ok_def blocks_ok_def pages_ok_def map_ok_def free_ok_def huge_ok_def add_real_size_def)

lemma live_area:
  assumes "mm_heap_ok M g h" "x \<in> in_use g"
  shows "(\<exists>c \<in> set (bk_chunks g). bytes_of x \<subseteq> area c) \<or> (\<exists>a. (a, x) \<in> set (bk_huge g))"
  using assms(2) large_or_small_area [OF assms(1), of x] by (auto simp: in_use_def)

subsection \<open>The list of nodes\<close>

lemma blocks_huge [simp]: "block_of (g\<lparr>bk_huge := xs\<rparr>) b a = block_of g b a" "runs (g\<lparr>bk_huge := xs\<rparr>) = runs g"
  "large_blocks (g\<lparr>bk_huge := xs\<rparr>) = large_blocks g" "nodes_of (g\<lparr>bk_huge := xs\<rparr>) = fst ` set xs"
  by (simp_all add: block_of_def runs_def [abs_def] large_blocks_def nodes_of_def)

lemma node_moves:
  assumes h: "mm_heap_ok M g h" and a: "block_of g node_bin a" "a \<notin> set (bk_free g node_bin)"
    and xs: "fst ` set xs = insert a (nodes_of g)" "a \<notin> nodes_of g"
  shows "small_blocks (g\<lparr>bk_huge := xs\<rparr>) = small_blocks g - {(a, huge_node_size)}" "(a, huge_node_size) \<in> small_blocks g"
    "(a, huge_node_size) \<notin> large_blocks g" "(a, huge_node_size) \<notin> snd ` set (bk_huge g)"
proof -
  have s: "bin_data_size ! node_bin = huge_node_size" by (simp add: bin_data_size_def node_bin_def huge_node_size_def)
  show "(a, huge_node_size) \<in> small_blocks g" using a xs(2) s by (auto simp: small_blocks_def)
  show "(a, huge_node_size) \<notin> large_blocks g" "(a, huge_node_size) \<notin> snd ` set (bk_huge g)" using block_places(1,2) [OF h a(1)] by blast+
  have "block_of g b a \<Longrightarrow> b = node_bin" for b using block_places(3) [OF h a(1)] by blast
  then show "small_blocks (g\<lparr>bk_huge := xs\<rparr>) = small_blocks g - {(a, huge_node_size)}"
    using s xs(1) by (auto simp: small_blocks_def)
qed

lemma add_node:
  assumes h: "mm_heap_ok M g h" and a: "block_of g node_bin a" "a \<notin> set (bk_free g node_bin)" "a \<notin> nodes_of g"
    and p: "p \<noteq> 0" "p mod ZEND_MM_CHUNK_SIZE = 0" "0 < s" "huge_area p s \<subseteq> M (hp_os h)"
      "\<forall>c \<in> set (bk_chunks g) \<union> set (bk_cached g). huge_area p s \<inter> area c = {}"
      "\<forall>b q z. (b, q, z) \<in> set (bk_huge g) \<longrightarrow> huge_area p s \<inter> huge_area q z = {}"
  defines "g' \<equiv> g\<lparr>bk_huge := (a, p, s) # bk_huge g\<rparr>"
    and "h' \<equiv> h\<lparr>hp_huge := (hp_huge h)(a := \<lparr>hg_ptr = p, hg_size = s, hg_next = hp_huge_list h\<rparr>), hp_huge_list := a\<rparr>"
  shows "mm_heap_ok M g' h'" "in_use g' = insert (p, s) (in_use g - {(a, huge_node_size)})"
proof -
  note o = heap_okD [OF h]
  have fst_a: "a \<notin> fst ` set (bk_huge g)" using a(3) by (simp add: nodes_of_def)
  have a0: "a \<noteq> 0" by (rule block_places(5) [OF h a(1)])
  have "chain 0 (\<lambda>b. hg_next (hp_huge h' b)) (hp_huge_list h) (map fst (bk_huge g)) =
      chain 0 (\<lambda>b. hg_next (hp_huge h b)) (hp_huge_list h) (map fst (bk_huge g))"
    using fst_a by (intro chain_cong) (auto simp: h'_def)
  then have 1: "chain 0 (\<lambda>b. hg_next (hp_huge h' b)) (hp_huge_list h') (map fst (bk_huge g'))"
    using o(4) a0 by (simp add: huge_ok_def g'_def h'_def)
  have 2: "distinct (map fst (bk_huge g'))" using o(4) fst_a by (simp add: huge_ok_def g'_def)
  have 3: "hg_ptr (hp_huge h' b) = q \<and> hg_size (hp_huge h' b) = z \<and> block_of g' node_bin b \<and>
        b \<notin> set (bk_free g' node_bin) \<and> q \<noteq> 0 \<and> q mod ZEND_MM_CHUNK_SIZE = 0 \<and> 0 < z \<and> huge_area q z \<subseteq> M (hp_os h') \<and>
        (\<forall>c \<in> set (bk_chunks g') \<union> set (bk_cached g'). huge_area q z \<inter> area c = {})" if "(b, q, z) \<in> set (bk_huge g')" for b q z
  proof (cases "b = a")
    case True
    then have "q = p" "z = s" using that fst_a by (auto simp: g'_def image_iff)
    then show ?thesis using True a p(1-5) by (simp add: g'_def h'_def)
  next
    case False
    then have "(b, q, z) \<in> set (bk_huge g)" using that by (simp add: g'_def)
    note b = huge_okD [OF h this]
    show ?thesis using b False by (simp add: g'_def h'_def)
  qed
  have 4: "huge_area q z \<inter> huge_area q' z' = {}" if "(b, q, z) \<in> set (bk_huge g')" "(b', q', z') \<in> set (bk_huge g')" "b \<noteq> b'" for b q z b' q' z'
  proof -
    have "(b, q, z) = (a, p, s) \<or> (b, q, z) \<in> set (bk_huge g)" "(b', q', z') = (a, p, s) \<or> (b', q', z') \<in> set (bk_huge g)"
      using that(1,2) by (simp_all add: g'_def)
    then show ?thesis using that(3) huge_apart [OF h, of b q z b' q' z'] p(6) by (metis Int_commute prod.inject)
  qed
  have "huge_ok M g' h'" unfolding huge_ok_def using 1 2 3 4 by blast
  moreover have "pages_ok M (bk_chunks g') (bk_cached g') (runs g') h'" "map_ok g' h'" "free_ok g' h'"
    using o(1-3) by (simp_all add: g'_def h'_def pages_ok_def map_ok_def free_ok_def)
  ultimately show "mm_heap_ok M g' h'" by (simp add: mm_heap_ok_def blocks_ok_def)
  have "fst ` set ((a, p, s) # bk_huge g) = insert a (nodes_of g)" by (simp add: nodes_of_def)
  note n = node_moves [OF h a(1,2) this a(3), folded g'_def]
  show "in_use g' = insert (p, s) (in_use g - {(a, huge_node_size)})"
    unfolding in_use_def n(1) using n(3,4) by (auto simp: g'_def)
qed

subsection \<open>Allocation\<close>

lemma page_round:
  assumes "0 < sz"
  shows "sz \<le> ZEND_MM_ALIGNED_SIZE_EX sz REAL_PAGE_SIZE"
proof -
  have "(sz + REAL_PAGE_SIZE - 1) div REAL_PAGE_SIZE * REAL_PAGE_SIZE + (sz + REAL_PAGE_SIZE - 1) mod REAL_PAGE_SIZE = sz + REAL_PAGE_SIZE - 1"
    by simp
  moreover have "0 < REAL_PAGE_SIZE" by (simp add: REAL_PAGE_SIZE_def ZEND_MM_PAGE_SIZE_def)
  then have "(sz + REAL_PAGE_SIZE - 1) mod REAL_PAGE_SIZE < REAL_PAGE_SIZE" by simp
  ultimately show ?thesis unfolding ZEND_MM_ALIGNED_SIZE_EX_def by linarith
qed

lemma map_chunk_ok:
  assumes h: "mm_heap_ok M g h" and os: "os_ok os M" and n: "0 < n"
  obtains p s where "map_chunk os n h = Inr (p, h\<lparr>hp_os := s\<rparr>)" "mm_heap_ok M g (h\<lparr>hp_os := s\<rparr>)" "p \<noteq> 0" "p mod ZEND_MM_CHUNK_SIZE = 0"
    "M (hp_os h) \<inter> huge_area p n = {}" "M s = M (hp_os h) \<union> huge_area p n"
proof -
  obtain p s where c: "zend_mm_chunk_alloc_int os n ZEND_MM_CHUNK_SIZE (hp_os h) = (p, s)" by fastforce
  note f = chunk_alloc_int_ok [OF os n c, folded huge_area_def]
  have "map_chunk os n h = Inr (p, h\<lparr>hp_os := s\<rparr>)" using f(1) by (simp add: map_chunk_def zend_mm_chunk_alloc_def c)
  moreover have "mm_heap_ok M g (h\<lparr>hp_os := s\<rparr>)"
  proof (rule heap_ok_os [OF h])
    show "area c \<subseteq> M s" if "c \<in> set (bk_chunks g) \<or> c \<in> set (bk_cached g)" for c
      using pages_okD(5) [OF heap_okD(1) [OF h] that] f(4) by (auto simp: is_chunk_def)
    show "huge_area q z \<subseteq> M s" if "(a, q, z) \<in> set (bk_huge g)" for a q z using huge_okD(8) [OF h that] f(4) by auto
  qed
  ultimately show thesis by (rule that [OF _ _ f])
qed

lemma alloc_huge_ok:
  assumes h: "mm_ok M g h" and os: "os_ok os M" and sz: "0 < sz"
    and r: "limit_room (ZEND_MM_ALIGNED_SIZE_EX sz REAL_PAGE_SIZE + ZEND_MM_CHUNK_SIZE) h"
  obtains a s g' h' where "zend_mm_alloc_huge os sz h = Inr (a, h')" "mm_ok M g' h'" "in_use g' = insert (a, s) (in_use g)" "(a, s) \<notin> in_use g"
    "sz \<le> s" "s = ZEND_MM_ALIGNED_SIZE_EX sz REAL_PAGE_SIZE" "hp_limit h' = hp_limit h"
    "hp_real_size h' \<le> hp_real_size h + ZEND_MM_ALIGNED_SIZE_EX sz REAL_PAGE_SIZE + ZEND_MM_CHUNK_SIZE"
proof -
  define n where "n = ZEND_MM_ALIGNED_SIZE_EX sz REAL_PAGE_SIZE"
  have n: "0 < n" "sz \<le> n" using page_round [OF sz] sz by (simp_all add: n_def)
  have ok: "mm_heap_ok M g h" and u: "usage_ok g h" using h by (simp_all add: mm_ok_def)
  have re: "real_ok g h" using h by (simp add: mm_ok_def)
  have gc: "gc_below_limit os n h = Inr h" using r by (simp add: gc_below_limit_def n_def limit_room_def)
  from map_chunk_ok [OF ok os n(1)] obtain p s where m: "map_chunk os n h = Inr (p, h\<lparr>hp_os := s\<rparr>)" "mm_heap_ok M g (h\<lparr>hp_os := s\<rparr>)"
    "p \<noteq> 0" "p mod ZEND_MM_CHUNK_SIZE = 0" "M (hp_os h) \<inter> huge_area p n = {}" "M s = M (hp_os h) \<union> huge_area p n" by metis
  define h1 where "h1 = h\<lparr>hp_os := s\<rparr>"
  have b: "mm_ok M g h1" "limit_room ZEND_MM_CHUNK_SIZE h1" "node_bin < 30"
    using m(2) u r re by (simp_all add: mm_ok_def usage_ok_def real_ok_def limit_room_def node_bin_def h1_def)
  note alloc = alloc_small_ok [OF b(1) os b(2,3)]
  obtain a g' h' where a: "zend_mm_alloc_small os node_bin h1 = Inr (a, h')" "mm_ok M g' h'"
    "in_use g' = insert (a, bin_data_size ! node_bin) (in_use g)" "(a, bin_data_size ! node_bin) \<notin> in_use g" "block_of g' node_bin a"
    "a \<notin> set (bk_free g' node_bin)" "a \<notin> nodes_of g'" "bk_huge g' = bk_huge g" "hp_limit h' = hp_limit h1"
    "hp_real_size h' \<le> hp_real_size h1 + ZEND_MM_CHUNK_SIZE" "fresh_chunks M g h1 g' h'" by (rule alloc)
  have ok': "mm_heap_ok M g' h'" and u': "usage_ok g' h'" and re': "real_ok g' h'" using a(2) by (simp_all add: mm_ok_def)
  have d: "bin_data_size ! node_bin = huge_node_size" by (simp add: bin_data_size_def node_bin_def huge_node_size_def)
  have away: "huge_area p n \<inter> area c = {}" if c: "c \<in> set (bk_chunks g') \<or> c \<in> set (bk_cached g')" for c
  proof (cases "c \<in> set (bk_chunks g) \<or> c \<in> set (bk_cached g)")
    case True
    then have "area c \<subseteq> M (hp_os h)" using pages_okD(5) [OF heap_okD(1) [OF ok]] by (simp add: is_chunk_def)
    then show ?thesis using m(5) by blast
  next
    case False
    then have "area c \<inter> M (hp_os h1) = {}" using a(11) c by (auto simp: fresh_chunks_def)
    then show ?thesis using m(6) by (auto simp: h1_def)
  qed
  have others: "huge_area p n \<inter> huge_area q z = {}" if "(b, q, z) \<in> set (bk_huge g')" for b q z
    using huge_okD(8) [OF ok] that a(8) m(5) by (metis Int_commute inf.absorb_iff2 inf_assoc inf_bot_left)
  have mapped: "huge_area p n \<subseteq> M (hp_os h')" using a(11) m(6) by (auto simp: fresh_chunks_def h1_def)
  define g2 where "g2 = g'\<lparr>bk_huge := (a, p, n) # bk_huge g'\<rparr>"
  define h2 where "h2 = h'\<lparr>hp_huge := (hp_huge h')(a := \<lparr>hg_ptr = p, hg_size = n, hg_next = hp_huge_list h'\<rparr>), hp_huge_list := a\<rparr>"
  have add: "mm_heap_ok M g2 h2" "in_use g2 = insert (p, n) (in_use g' - {(a, huge_node_size)})"
    using add_node [OF ok' a(5-7) m(3,4) n(1) mapped] away others unfolding g2_def h2_def by blast+
  have in_use: "in_use g2 = insert (p, n) (in_use g)" using add(2) a(3,4) unfolding d by auto
  have new: "(p, n) \<notin> in_use g"
  proof
    assume "(p, n) \<in> in_use g"
    then have "bytes_of (p, n) \<subseteq> M (hp_os h)" by (rule live_mapped(3) [OF ok])
    moreover have "p \<in> bytes_of (p, n)" "p \<in> huge_area p n" using n(1) by (simp_all add: bytes_of_def huge_area_def)
    ultimately show False using m(5) by blast
  qed
  let ?h = "add_size n (add_real_size n h2)"
  have "finite (in_use g)" "(\<Sum>x \<in> in_use g2. snd x) = n + (\<Sum>x \<in> in_use g. snd x)" "(\<Sum>x \<in> in_use g'. snd x) = huge_node_size + (\<Sum>x \<in> in_use g. snd x)"
    using u new a(3,4) unfolding in_use by (simp_all add: usage_ok_def d)
  then have "usage_ok g2 ?h"
    using u' in_use by (simp add: usage_ok_def g2_def h2_def add_size_def add_real_size_def)
  moreover have "real_ok g2 ?h" using re' by (simp add: real_ok_def g2_def h2_def add_size_def add_real_size_def)
  ultimately have "mm_ok M g2 ?h" using add(1) by (simp add: mm_ok_def)
  moreover have "zend_mm_small_size_to_bin huge_node_size = node_bin"
    by (simp add: zend_mm_small_size_to_bin_def huge_node_size_def node_bin_def)
  then have "zend_mm_add_huge_block os p n h1 = Inr h2" by (simp add: zend_mm_add_huge_block_def a(1) h2_def)
  then have "zend_mm_alloc_huge os sz h = Inr (p, ?h)"
    unfolding zend_mm_alloc_huge_def n_def [symmetric] Let_def by (simp add: gc m(1) h1_def)
  moreover have "hp_limit ?h = hp_limit h" "hp_real_size ?h \<le> hp_real_size h + n + ZEND_MM_CHUNK_SIZE"
    using a(9,10) by (simp_all add: add_size_def add_real_size_def h1_def h2_def)
  ultimately show thesis using that in_use new n(2) unfolding n_def by blast
qed

subsection \<open>Release\<close>

lemma chain_unlink_first: "chain 0 nx l (a # bs) \<Longrightarrow> chain 0 nx (nx a) bs"
  by simp

lemma find_huge_ok:
  assumes "chain 0 (\<lambda>a. hg_next (hp_huge h a)) l (pre @ a # post)" "hg_ptr (hp_huge h a) = p" "\<forall>b \<in> set pre. hg_ptr (hp_huge h b) \<noteq> p"
  shows "find_huge p prev l h = Some (Some (if pre = [] then prev else Some (last pre), a))"
  using assms
proof (induction pre arbitrary: l prev)
  case Nil
  then show ?case by (subst find_huge.simps) auto
next
  case (Cons b pre)
  then show ?case by (subst find_huge.simps) auto
qed

definition unlink_node :: "nat option \<Rightarrow> nat \<Rightarrow> 'os mm_heap \<Rightarrow> 'os mm_heap" where
  "unlink_node prev n h = (case prev of
     Some p \<Rightarrow> h\<lparr>hp_huge := (hp_huge h)(p := (hp_huge h p)\<lparr>hg_next := n\<rparr>)\<rparr>
   | None \<Rightarrow> h\<lparr>hp_huge_list := n\<rparr>)"

lemma unlink_node_chain:
  assumes "chain 0 (\<lambda>a. hg_next (hp_huge h a)) (hp_huge_list h) (pre @ a # post)" "distinct (pre @ a # post)"
  defines "h' \<equiv> unlink_node (if pre = [] then None else Some (last pre)) (hg_next (hp_huge h a)) h"
  shows "chain 0 (\<lambda>a. hg_next (hp_huge h' a)) (hp_huge_list h') (pre @ post)" "hg_ptr (hp_huge h' b) = hg_ptr (hp_huge h b)"
    "hg_size (hp_huge h' b) = hg_size (hp_huge h b)"
proof -
  show "hg_ptr (hp_huge h' b) = hg_ptr (hp_huge h b)" "hg_size (hp_huge h' b) = hg_size (hp_huge h b)"
    by (auto simp: h'_def unlink_node_def)
  show "chain 0 (\<lambda>a. hg_next (hp_huge h' a)) (hp_huge_list h') (pre @ post)"
  proof (cases pre rule: rev_cases)
    case Nil
    then show ?thesis using assms(1) by (simp add: h'_def unlink_node_def)
  next
    case (snoc bs b)
    have "(\<lambda>a. hg_next (hp_huge h' a)) = (\<lambda>a. hg_next (hp_huge h a))(b := hg_next (hp_huge h a))"
      by (rule ext) (simp add: h'_def unlink_node_def snoc)
    then show ?thesis
      using chain_unlink [of 0 "\<lambda>a. hg_next (hp_huge h a)" "hp_huge_list h" bs b a post] assms(1,2)
      by (simp add: snoc) (simp add: h'_def unlink_node_def snoc)
  qed
qed

lemma huge_unique: "mm_heap_ok M g h \<Longrightarrow> (a, p, s) \<in> set (bk_huge g) \<Longrightarrow> (a', p, s') \<in> set (bk_huge g) \<Longrightarrow> a' = a"
proof (rule ccontr)
  assume h: "mm_heap_ok M g h" and n: "(a, p, s) \<in> set (bk_huge g)" "(a', p, s') \<in> set (bk_huge g)" "a' \<noteq> a"
  have "p \<in> huge_area p s" "p \<in> huge_area p s'" using huge_okD(7) [OF h] n(1,2) by (simp_all add: huge_area_def)
  then show False using huge_apart [OF h n(2,1,3)] by blast
qed

lemma del_node:
  assumes h: "mm_heap_ok M g h" and xs: "bk_huge g = xs @ (a, p, s) # ys"
  defines "g' \<equiv> g\<lparr>bk_huge := xs @ ys\<rparr>"
    and "h' \<equiv> unlink_node (if xs = [] then None else Some (fst (last xs))) (hg_next (hp_huge h a)) h"
  shows "mm_heap_ok M g' h'" "in_use g' = insert (a, huge_node_size) (in_use g - {(p, s)})" "(a, huge_node_size) \<notin> in_use g"
    "block_of g' node_bin a" "a \<notin> set (bk_free g' node_bin)" "a \<notin> nodes_of g'"
    "\<forall>(b, q, z) \<in> set (bk_huge g'). huge_area p s \<inter> huge_area q z = {}"
proof -
  note o = heap_okD [OF h]
  have n: "(a, p, s) \<in> set (bk_huge g)" using xs by simp
  note nd = huge_okD [OF h n]
  have c: "chain 0 (\<lambda>b. hg_next (hp_huge h b)) (hp_huge_list h) (map fst xs @ a # map fst ys)" "distinct (map fst xs @ a # map fst ys)"
    using o(4) by (simp_all add: huge_ok_def xs)
  have e: "(if xs = [] then None else Some (fst (last xs))) = (if map fst xs = [] then None else Some (last (map fst xs)))"
    by (simp add: last_map)
  note u = unlink_node_chain [OF c, folded e, folded h'_def]
  have sub: "set (bk_huge g') \<subseteq> set (bk_huge g)" by (auto simp: g'_def xs)
  have f: "hp_os h' = hp_os h" by (simp add: h'_def unlink_node_def split: option.split)
  have 1: "chain 0 (\<lambda>b. hg_next (hp_huge h' b)) (hp_huge_list h') (map fst (bk_huge g'))" "distinct (map fst (bk_huge g'))"
    using u(1) c(2) by (simp_all add: g'_def)
  have 3: "hg_ptr (hp_huge h' b) = q \<and> hg_size (hp_huge h' b) = z \<and> block_of g' node_bin b \<and>
        b \<notin> set (bk_free g' node_bin) \<and> q \<noteq> 0 \<and> q mod ZEND_MM_CHUNK_SIZE = 0 \<and> 0 < z \<and> huge_area q z \<subseteq> M (hp_os h') \<and>
        (\<forall>c \<in> set (bk_chunks g') \<union> set (bk_cached g'). huge_area q z \<inter> area c = {})" if b: "(b, q, z) \<in> set (bk_huge g')" for b q z
  proof -
    have "(b, q, z) \<in> set (bk_huge g)" using b sub by blast
    note b = huge_okD [OF h this]
    show ?thesis using b u(2,3) f by (simp add: g'_def)
  qed
  have 4: "huge_area q z \<inter> huge_area q' z' = {}" if "(b, q, z) \<in> set (bk_huge g')" "(b', q', z') \<in> set (bk_huge g')" "b \<noteq> b'" for b q z b' q' z'
    using huge_apart [OF h] sub that by blast
  have "huge_ok M g' h'" unfolding huge_ok_def using 1 3 4 by blast
  moreover have "pages_ok M (bk_chunks g') (bk_cached g') (runs g') h'" "map_ok g' h'" "free_ok g' h'"
    using o(1-3) by (simp_all add: g'_def h'_def unlink_node_def pages_ok_def map_ok_def free_ok_def split: option.split)
  ultimately show "mm_heap_ok M g' h'" by (simp add: mm_heap_ok_def blocks_ok_def)
  show b: "block_of g' node_bin a" "a \<notin> set (bk_free g' node_bin)" using nd(3,4) by (simp_all add: g'_def)
  show na: "a \<notin> nodes_of g'" using c(2) by (auto simp: g'_def)
  have "fst ` set (bk_huge g) = insert a (nodes_of g')" by (auto simp: xs g'_def)
  note m = node_moves [OF \<open>mm_heap_ok M g' h'\<close> b this na]
  have gg: "g'\<lparr>bk_huge := bk_huge g\<rparr> = g" by (simp add: g'_def)
  have "snd ` set (bk_huge g) = insert (p, s) (snd ` set (bk_huge g'))" by (auto simp: xs g'_def)
  moreover have ps: "(p, s) \<notin> snd ` set (bk_huge g')"
  proof
    assume "(p, s) \<in> snd ` set (bk_huge g')"
    then obtain b where "(b, p, s) \<in> set (bk_huge g')" by auto
    then show False using huge_unique [OF h n] sub na by (force simp: g'_def)
  qed
  moreover have "(p, s) \<notin> large_blocks g \<union> small_blocks g"
  proof
    assume "(p, s) \<in> large_blocks g \<union> small_blocks g"
    then obtain c where "c \<in> set (bk_chunks g)" "bytes_of (p, s) \<subseteq> area c" using large_or_small_area [OF h] by blast
    moreover have "p \<in> bytes_of (p, s)" "p \<in> huge_area p s" using nd(7) by (simp_all add: bytes_of_def huge_area_def)
    ultimately show False using nd(9) [of c] by blast
  qed
  moreover have sm: "small_blocks g = small_blocks g' - {(a, huge_node_size)}" "large_blocks g' = large_blocks g"
    using m(1) unfolding gg by (simp_all add: g'_def)
  ultimately show "in_use g' = insert (a, huge_node_size) (in_use g - {(p, s)})" unfolding in_use_def using m(2) by blast
  have "(a, huge_node_size) \<noteq> (p, s)" "(a, huge_node_size) \<notin> snd ` set (bk_huge g')"
    using block_places(2) [OF h nd(3)] n m(4) by force+
  then show "(a, huge_node_size) \<notin> in_use g"
    unfolding in_use_def sm(1) using m(3) sm(2) \<open>snd ` set (bk_huge g) = insert (p, s) (snd ` set (bk_huge g'))\<close> by blast
  show "\<forall>(b, q, z) \<in> set (bk_huge g'). huge_area p s \<inter> huge_area q z = {}"
  proof clarify
    fix b q z assume b: "(b, q, z) \<in> set (bk_huge g')"
    then have "b \<noteq> a" using na by (force simp: nodes_of_def)
    then show "huge_area p s \<inter> huge_area q z = {}" using huge_apart [OF h n] b sub by blast
  qed
qed

lemma free_block:
  assumes "mm_heap_ok M g h" "block_of g b a"
  shows "free_in_chunk os a h = Inr (zend_mm_free_small a b h)" "ZEND_MM_ALIGNED_OFFSET a ZEND_MM_CHUNK_SIZE \<noteq> 0"
proof -
  obtain c q where a: "(c, q, b) \<in> bk_small g" "slot_of c q b a" using assms(2) by (auto simp: block_of_def)
  note i = small_info [OF assms(1) a]
  show "free_in_chunk os a h = Inr (zend_mm_free_small a b h)" "ZEND_MM_ALIGNED_OFFSET a ZEND_MM_CHUNK_SIZE \<noteq> 0"
    using i by (simp_all add: free_in_chunk_def)
qed

lemma huge_node_ok:
  assumes ok: "mm_heap_ok M g h" and xs: "bk_huge g = xs @ (a, p, s) # ys"
  shows "huge_node p h = Inr (if xs = [] then None else Some (fst (last xs)), a)"
proof -
  have n: "(a, p, s) \<in> set (bk_huge g)" using xs by simp
  have c: "chain 0 (\<lambda>b. hg_next (hp_huge h b)) (hp_huge_list h) (map fst xs @ a # map fst ys)" "distinct (map fst (bk_huge g))"
    using heap_okD(4) [OF ok] by (simp_all add: huge_ok_def xs)
  have "\<forall>b \<in> set (map fst xs). hg_ptr (hp_huge h b) \<noteq> p"
  proof
    fix b assume "b \<in> set (map fst xs)"
    then obtain q z where x: "(b, q, z) \<in> set xs" by auto
    then have b: "(b, q, z) \<in> set (bk_huge g)" "b \<noteq> a" using c(2) by (force simp: xs)+
    then show "hg_ptr (hp_huge h b) \<noteq> p" using huge_okD(1) [OF ok b(1)] huge_unique [OF ok n] by metis
  qed
  then have "find_huge p None (hp_huge_list h) h = Some (Some (if map fst xs = [] then None else Some (last (map fst xs)), a))"
    using c(1) huge_okD(1) [OF ok n] by (intro find_huge_ok) simp_all
  then show ?thesis by (simp add: huge_node_def ends_def last_map)
qed

lemma free_huge_ok:
  assumes h: "mm_ok M g h" and os: "os_ok os M" and n: "(a, p, s) \<in> set (bk_huge g)"
  obtains g' h' where "zend_mm_free_huge os p h = Inr h'" "mm_ok M g' h'" "in_use g' = in_use g - {(p, s)}" "hp_limit h' = hp_limit h"
    "hp_real_size h' \<le> hp_real_size h"
proof -
  have ok: "mm_heap_ok M g h" and u: "usage_ok g h" and re: "real_ok g h" using h by (simp_all add: mm_ok_def)
  note nd = huge_okD [OF ok n]
  obtain xs ys where xs: "bk_huge g = xs @ (a, p, s) # ys" using n by (meson split_list)
  let ?prev = "if xs = [] then None else Some (fst (last xs))"
  define g1 where "g1 = g\<lparr>bk_huge := xs @ ys\<rparr>"
  define h1 where "h1 = unlink_node ?prev (hg_next (hp_huge h a)) h"
  note d = del_node [OF ok xs, folded g1_def h1_def]
  define g2 where "g2 = g1\<lparr>bk_free := (bk_free g1)(node_bin := a # bk_free g1 node_bin)\<rparr>"
  define h2 where "h2 = zend_mm_free_small a node_bin h1"
  note f = free_small_heap [OF d(1,4-6), folded g2_def h2_def]
  have "huge_node p h = Inr (?prev, a)" by (rule huge_node_ok [OF ok xs])
  moreover have "hg_size (hp_huge h1 a) = s" using nd(2) by (auto simp: h1_def unlink_node_def)
  moreover have "free_in_chunk os a h1 = Inr h2" using free_block(1) [OF d(1,4)] by (simp add: h2_def)
  ultimately have "zend_mm_del_huge_block os p h = Inr (s, h2)"
    unfolding zend_mm_del_huge_block_def Let_def by (simp add: h1_def unlink_node_def [symmetric])
  moreover define h' where "h' = (h2\<lparr>hp_os := os_munmap os p s (hp_os h2)\<rparr>)\<lparr>hp_real_size := hp_real_size h2 - s, hp_size := hp_size h2 - s\<rparr>"
  ultimately have "zend_mm_free_huge os p h = Inr h'"
    using nd(6) by (simp add: zend_mm_free_huge_def ZEND_MM_ALIGNED_OFFSET_def zend_mm_chunk_free_def Let_def)
  moreover have "mm_heap_ok M g2 h'"
  proof -
    have e: "hp_os h2 = hp_os h" by (simp add: h2_def zend_mm_free_small_def h1_def unlink_node_def split: option.split)
    have m: "M (os_munmap os p s (hp_os h2)) = M (hp_os h2) - huge_area p s" using os_okD(2) [OF os] by (simp add: huge_area_def)
    have ch: "bk_chunks g2 = bk_chunks g" "bk_cached g2 = bk_cached g" "bk_huge g2 = bk_huge g1" by (simp_all add: g2_def g1_def)
    have "mm_heap_ok M g2 (h2\<lparr>hp_os := os_munmap os p s (hp_os h2)\<rparr>)"
    proof (rule heap_ok_os [OF f(1)])
      fix c assume c: "c \<in> set (bk_chunks g2) \<or> c \<in> set (bk_cached g2)"
      then have "area c \<subseteq> M (hp_os h2)" using pages_okD(5) [OF heap_okD(1) [OF f(1)]] by (simp add: is_chunk_def)
      moreover have "huge_area p s \<inter> area c = {}" using nd(9) c unfolding ch by blast
      ultimately show "area c \<subseteq> M (os_munmap os p s (hp_os h2))" unfolding m by blast
    next
      fix b q z assume b: "(b, q, z) \<in> set (bk_huge g2)"
      then have "huge_area p s \<inter> huge_area q z = {}" using d(7) unfolding ch by blast
      then show "huge_area q z \<subseteq> M (os_munmap os p s (hp_os h2))" using huge_okD(8) [OF f(1) b] unfolding m by blast
    qed
    then show ?thesis by (simp add: h'_def)
  qed
  moreover have in_use: "in_use g2 = in_use g - {(p, s)}" using f(2) d(2,3) by (simp add: bin_data_size_def node_bin_def huge_node_size_def)
  moreover have "usage_ok g2 h'"
  proof -
    have "(p, s) \<in> in_use g" using n by (force simp: in_use_def)
    then have "(\<Sum>x \<in> in_use g. snd x) = s + (\<Sum>x \<in> in_use g2. snd x)" using u sum.remove [of "in_use g" "(p, s)" snd] in_use by (simp add: usage_ok_def)
    moreover have "length (bk_huge g) = Suc (length (bk_huge g2))" by (simp add: xs g2_def g1_def)
    moreover have "hp_size h' = hp_size h - huge_node_size - s"
      by (simp add: h'_def h2_def zend_mm_free_small_def h1_def unlink_node_def bin_data_size_def node_bin_def huge_node_size_def split: option.split)
    ultimately show ?thesis using u in_use by (simp add: usage_ok_def)
  qed
  moreover have "real_ok g2 h'"
    using re by (simp add: real_ok_def h'_def h2_def zend_mm_free_small_def h1_def unlink_node_def xs g2_def g1_def split: option.split)
  moreover have "hp_limit h' = hp_limit h" "hp_real_size h' \<le> hp_real_size h"
    by (simp_all add: h'_def h2_def zend_mm_free_small_def h1_def unlink_node_def split: option.split)
  ultimately show thesis using that by (simp add: mm_ok_def)
qed

subsection \<open>Release of a large block\<close>

lemma image_minus_one: "(\<And>y. y \<in> A \<Longrightarrow> f y = f t \<Longrightarrow> y = t) \<Longrightarrow> f ` (A - {t}) = f ` A - {f t}"
  by auto

lemma free_large_ok:
  assumes h: "mm_ok M g h" and os: "os_ok os M" and l: "(c, q, n) \<in> bk_large g"
    and main: "c = hp_main_chunk h \<longrightarrow> ch_free_pages (hp_chunk h c) + n < ZEND_MM_PAGES - ZEND_MM_FIRST_PAGE"
  obtains g' h' where "zend_mm_free_large os c q n h = h'" "mm_ok M g' h'"
    "in_use g' = in_use g - {(ZEND_MM_PAGE_ADDR c q, n * ZEND_MM_PAGE_SIZE)}" "hp_limit h' = hp_limit h" "hp_real_size h' \<le> hp_real_size h"
proof -
  let ?x = "(ZEND_MM_PAGE_ADDR c q, n * ZEND_MM_PAGE_SIZE)"
  have ok: "mm_heap_ok M g h" and u: "usage_ok g h" and re: "real_ok g h" using h by (simp_all add: mm_ok_def)
  define h1 where "h1 = h\<lparr>hp_size := hp_size h - n * ZEND_MM_PAGE_SIZE\<rparr>"
  define h' where "h' = zend_mm_free_pages os c q n h1"
  define R where "R = (runs g)(c := runs g c - {(q, n)})"
  have ok1: "mm_heap_ok M g h1" using ok by (simp add: h1_def)
  note p = heap_okD(1) [OF ok1] and rn = large_run [OF l]
  have cc: "c \<in> set (bk_chunks g)" by (rule run_in_chunk(1) [OF ok rn])
  have "c = hp_main_chunk h1 \<longrightarrow> ch_free_pages (hp_chunk h1 c) + n < ZEND_MM_PAGES - ZEND_MM_FIRST_PAGE" using main by (simp add: h1_def)
  note fp = free_pages_ok [OF p os cc rn this, folded R_def h'_def]
  obtain cs ds where f: "pages_ok M cs ds R h'" "shrunk M (bk_chunks g) (bk_cached g) h1 cs ds h'"
    "\<And>a. a \<in> set (bk_chunks g) \<Longrightarrow> a \<notin> set cs \<Longrightarrow> R a = {}"
    "\<And>a k. (a, k) \<noteq> (c, q) \<Longrightarrow> ch_map (hp_chunk h' a) ! k = ch_map (hp_chunk h1 a) ! k" by (rule fp) (rule that)
  define g' where "g' = g\<lparr>bk_chunks := cs, bk_cached := ds, bk_large := bk_large g - {(c, q, n)}\<rparr>"
  have sb: "same_blocks h1 h'" using f(2) by (simp add: shrunk_def)
  have lrun: "ch_map (hp_chunk h c) ! q = ZEND_MM_LRUN n" using heap_okD(2) [OF ok] l by (simp add: map_ok_def)
  have n: "n < 1024" "0 < n" using run_in_chunk(5,6) [OF ok rn] by (simp_all add: ZEND_MM_PAGES_def)
  have small: "(c, r, b) \<notin> bk_small g" if "i < bin_pages ! b" "r + i = q" for r b i
  proof
    assume s: "(c, r, b) \<in> bk_small g"
    then have "ch_map (hp_chunk h c) ! q = (if i = 0 then ZEND_MM_SRUN b else ZEND_MM_NRUN b i)"
      using small_bin(2,3) [OF ok s] that by auto
    then show False using lrun lrun_info(2) [OF n(1)] srun_info(2,4) [OF small_bin(1) [OF ok s]] by (auto split: if_splits)
  qed
  have large: "m = n" if "(c, q, m) \<in> bk_large g" for m
    using runs_apart [OF ok rn large_run [OF that]] n(2) run_in_chunk(5) [OF ok large_run [OF that]]
    by (auto simp: run_area_def ZEND_MM_PAGE_SIZE_def)
  have ns: "(c, q, b) \<notin> bk_small g" for b
  proof
    assume s: "(c, q, b) \<in> bk_small g"
    have "0 < bin_pages ! b" using bins_ok(1) small_bin(1) [OF ok s] by blast
    then show False using small [of 0 b q] s by simp
  qed
  have runs: "runs g' = R"
  proof (rule ext)
    fix e show "runs g' e = R e" using ns by (auto simp: runs_def R_def g'_def)
  qed
  have "map_ok g' h'"
    unfolding map_ok_def
  proof (intro conjI allI impI)
    fix e r m assume "(e, r, m) \<in> bk_large g'"
    then have m: "(e, r, m) \<in> bk_large g" "(e, r, m) \<noteq> (c, q, n)" by (simp_all add: g'_def)
    then have "(e, r) \<noteq> (c, q)" using large by auto
    then show "ch_map (hp_chunk h' e) ! r = ZEND_MM_LRUN m" using f(4) m(1) heap_okD(2) [OF ok1] by (simp add: map_ok_def)
  next
    fix e r b assume "(e, r, b) \<in> bk_small g'"
    then have m: "(e, r, b) \<in> bk_small g" by (simp add: g'_def)
    note sm = small_bin [OF ok1 m]
    show "b < ZEND_MM_BINS" using sm(1) by (simp add: ZEND_MM_BINS_def)
    have "(e, r) \<noteq> (c, q)" using small [of 0 b r] m bins_ok(1) [OF sm(1)] by auto
    then show "ch_map (hp_chunk h' e) ! r = ZEND_MM_SRUN b" using f(4) sm(2) by simp
    fix i assume i: "0 < i" "i < bin_pages ! b"
    then have "(e, r + i) \<noteq> (c, q)" using small [of i b r] m by auto
    then show "ch_map (hp_chunk h' e) ! (r + i) = ZEND_MM_NRUN b i" using f(4) sm(3) i by simp
  qed
  moreover have "free_ok g' h'" using free_kept [OF heap_okD(3) [OF ok1] sb] by (simp add: g'_def)
  moreover have "huge_ok M g' h'"
  proof (rule huge_kept [OF ok1 sb])
    fix a x z assume a: "(a, x, z) \<in> set (bk_huge g)"
    have "huge_area x z \<inter> area e = {}" if "e \<in> set (bk_chunks g) \<union> set (bk_cached g)" for e
      using huge_okD(9) [OF ok1 a] that by blast
    then show "huge_area x z \<subseteq> M (hp_os h')" using huge_okD(8) [OF ok1 a] f(2) unfolding shrunk_def by blast
    fix e assume "e \<in> set (bk_chunks g') \<or> e \<in> set (bk_cached g')"
    then have "e \<in> set (bk_chunks g) \<or> e \<in> set (bk_cached g)" using f(2) by (auto simp: shrunk_def g'_def)
    then show "huge_area x z \<inter> area e = {}" by (rule huge_okD(9) [OF ok1 a])
  qed (simp_all add: g'_def)
  ultimately have ok': "mm_heap_ok M g' h'" using f(1) by (simp add: mm_heap_ok_def blocks_ok_def runs) (simp add: g'_def)
  have inj: "(e, r, m) = (c, q, n)" if e: "(e, r, m) \<in> bk_large g" "ZEND_MM_PAGE_ADDR e r = ZEND_MM_PAGE_ADDR c q" for e r m
  proof -
    have "e = c" "r = q" using large_info(1,3) [OF ok e(1)] large_info(1,3) [OF ok l] e(2) by simp_all
    then show ?thesis using large e(1) by simp
  qed
  let ?f = "\<lambda>(c, q, n). (ZEND_MM_PAGE_ADDR c q, n * ZEND_MM_PAGE_SIZE)"
  have "?f ` (bk_large g - {(c, q, n)}) = ?f ` bk_large g - {?f (c, q, n)}"
    by (rule image_minus_one) (use inj in auto)
  then have "large_blocks g' = large_blocks g - {?x}" by (simp add: large_blocks_image g'_def)
  moreover have "small_blocks g' = small_blocks g" "bk_huge g' = bk_huge g" by (simp_all add: small_blocks_def block_of_def nodes_of_def g'_def)
  moreover have lx: "?x \<in> large_blocks g" using l by (auto simp: large_blocks_def)
  moreover have "?x \<notin> small_blocks g" using block_places(1) [OF ok] lx by (auto simp: small_blocks_def)
  moreover have "?x \<notin> snd ` set (bk_huge g)"
  proof
    assume "?x \<in> snd ` set (bk_huge g)"
    then obtain a where "(a, ?x) \<in> set (bk_huge g)" by auto
    then show False using huge_okD(6) [OF ok, of a] large_info(2) [OF ok l] by (simp add: ZEND_MM_ALIGNED_OFFSET_def)
  qed
  ultimately have in_use: "in_use g' = in_use g - {?x}" "?x \<in> in_use g" "length (bk_huge g') = length (bk_huge g)" unfolding in_use_def by auto
  have "hp_size h' = hp_size h - snd ?x" using sb by (simp add: same_blocks_def h1_def)
  then have "usage_ok g' h'" using usage_remove [OF u in_use] by blast
  moreover have "real_ok g' h'"
  proof -
    have "0 < card (set (bk_chunks g) \<union> set (bk_cached g))" using cc by (auto simp: card_gt_0_iff)
    then have "ZEND_MM_CHUNK_SIZE \<le> pool (bk_chunks g) (bk_cached g)" by (simp add: pool_def)
    then have "hp_real_size h' + pool (bk_chunks g) (bk_cached g) = hp_real_size h1 + pool cs ds"
      using f(2) re by (simp add: shrunk_def real_ok_def h1_def)
    then show ?thesis using re by (simp add: real_ok_def g'_def h1_def)
  qed
  ultimately have "mm_ok M g' h'" using ok' by (simp add: mm_ok_def)
  moreover have "zend_mm_free_large os c q n h = h'" by (simp add: zend_mm_free_large_def h'_def h1_def)
  moreover have "hp_limit h' = hp_limit h" "hp_real_size h' \<le> hp_real_size h"
    using f(2) by (simp_all add: shrunk_def same_blocks_def h1_def)
  ultimately show thesis using that in_use(1) by blast
qed

end
