(* ===== verification/Zend_Mm_Life.thy ===== *)
theory Zend_Mm_Life
  imports Zend_Mm_Heap
begin

section \<open>The memory manager: start, shutdown and limits (Zend/zend\_alloc.c)\<close>

text \<open>
  The heap lies in its first chunk.  \<open>zend_mm_init\<close> maps that chunk and initialises the heap over
  the rest of the state, which the code has not used yet.  A full shutdown unmaps every chunk, and
  the heap with them; the other resets the heap for the next request and keeps some chunks.
\<close>

definition init_chunk :: "nat \<Rightarrow> mm_chunk" where
  "init_chunk chunk = init_pages (zero_chunk\<lparr>ch_next := chunk, ch_prev := chunk, ch_num := 0\<rparr>)"

definition zend_mm_init :: "'os mm_os \<Rightarrow> 'os \<Rightarrow> 'os mm_heap option" where
  "zend_mm_init os s =
     (let (chunk, s) = zend_mm_chunk_alloc_int os ZEND_MM_CHUNK_SIZE ZEND_MM_CHUNK_SIZE s
      in if chunk = 0 then None
         else Some \<lparr>hp_size = 0, hp_peak = 0, hp_free_slot = replicate ZEND_MM_BINS 0, hp_real_size = ZEND_MM_CHUNK_SIZE,
           hp_real_peak = ZEND_MM_CHUNK_SIZE, hp_limit = 2 ^ 63 - 1, hp_overflow = False, hp_huge_list = 0,
           hp_main_chunk = chunk, hp_cached_chunks = 0, hp_chunks_count = 1, hp_peak_chunks_count = 1,
           hp_cached_chunks_count = 0, hp_avg_chunks_count = 1, hp_last_chunks_delete_boundary = 0,
           hp_last_chunks_delete_count = 0, hp_chunk = (\<lambda>_. zero_chunk)(chunk := init_chunk chunk),
           hp_slot_next = (\<lambda>_. 0), hp_huge = (\<lambda>_. \<lparr>hg_ptr = 0, hg_size = 0, hg_next = 0\<rparr>), hp_copied = [], hp_os = s\<rparr>)"

subsection \<open>Shutdown\<close>

partial_function (option) free_huge_blocks :: "'os mm_os \<Rightarrow> nat \<Rightarrow> 'os mm_heap \<Rightarrow> 'os mm_heap option" where
  "free_huge_blocks os list h =
     (if list = 0 then Some h
      else (let q = hp_huge h list in free_huge_blocks os (hg_next q) (zend_mm_chunk_free os (hg_ptr q) (hg_size q) h)))"

partial_function (option) cache_chunks :: "nat \<Rightarrow> 'os mm_heap \<Rightarrow> 'os mm_heap option" where
  "cache_chunks p h =
     (if p = hp_main_chunk h then Some h
      else
        (let q = ch_next (hp_chunk h p);
             h = upd_chunk p (\<lambda>c. c\<lparr>ch_next := hp_cached_chunks h\<rparr>) h;
             h = h\<lparr>hp_cached_chunks := p, hp_chunks_count := hp_chunks_count h - 1,
                   hp_cached_chunks_count := hp_cached_chunks_count h + 1\<rparr>
         in cache_chunks q h))"

text \<open>The loop of a full shutdown does not count the cached chunks down.\<close>

definition free_cached :: "'os mm_os \<Rightarrow> 'os mm_heap \<Rightarrow> 'os mm_heap" where
  "free_cached os h =
     (let p = hp_cached_chunks h
      in zend_mm_chunk_free os p ZEND_MM_CHUNK_SIZE (h\<lparr>hp_cached_chunks := ch_next (hp_chunk h p)\<rparr>))"

partial_function (option) free_all_cached :: "'os mm_os \<Rightarrow> 'os mm_heap \<Rightarrow> 'os mm_heap option" where
  "free_all_cached os h = (if hp_cached_chunks h = 0 then Some h else free_all_cached os (free_cached os h))"

partial_function (option) free_some_cached :: "'os mm_os \<Rightarrow> 'os mm_heap \<Rightarrow> 'os mm_heap option" where
  "free_some_cached os h =
     (if of_int (hp_cached_chunks_count h) + 9 / 10 > hp_avg_chunks_count h \<and> hp_cached_chunks h \<noteq> 0 then
        (let h = free_cached os h
         in free_some_cached os (h\<lparr>hp_cached_chunks_count := hp_cached_chunks_count h - 1\<rparr>))
      else Some h)"

partial_function (option) clear_cached :: "nat \<Rightarrow> 'os mm_heap \<Rightarrow> 'os mm_heap option" where
  "clear_cached p h =
     (if p = 0 then Some h
      else
        (let q = ch_next (hp_chunk h p)
         in clear_cached q (upd_chunk p (\<lambda>_. zero_chunk\<lparr>ch_next := q\<rparr>) h)))"

definition reset_heap :: "'os mm_heap \<Rightarrow> 'os mm_heap" where
  "reset_heap h =
     (let p = hp_main_chunk h;
          h = upd_chunk p (\<lambda>_. init_chunk p) h
      in h\<lparr>hp_free_slot := replicate ZEND_MM_BINS 0, hp_chunks_count := 1, hp_peak_chunks_count := 1,
           hp_last_chunks_delete_boundary := 0, hp_last_chunks_delete_count := 0, hp_real_size := ZEND_MM_CHUNK_SIZE,
           hp_real_peak := ZEND_MM_CHUNK_SIZE, hp_size := 0, hp_peak := 0\<rparr>)"

definition zend_mm_shutdown :: "'os mm_os \<Rightarrow> bool \<Rightarrow> 'os mm_heap \<Rightarrow> 'os mm_heap option" where
  "zend_mm_shutdown os full h =
     Option.bind (free_huge_blocks os (hp_huge_list h) (h\<lparr>hp_huge_list := 0\<rparr>)) (\<lambda>h.
     Option.bind (cache_chunks (ch_next (hp_chunk h (hp_main_chunk h))) h) (\<lambda>h.
       if full then
         map_option (\<lambda>h. zend_mm_chunk_free os (hp_main_chunk h) ZEND_MM_CHUNK_SIZE h) (free_all_cached os h)
       else
         (let h = h\<lparr>hp_avg_chunks_count := (hp_avg_chunks_count h + of_int (hp_peak_chunks_count h)) / 2\<rparr>
          in Option.bind (free_some_cached os h) (\<lambda>h.
               map_option reset_heap (clear_cached (hp_cached_chunks h) h)))))"

subsection \<open>Limits and usage\<close>

definition zend_set_memory_limit :: "nat \<Rightarrow> 'os mm_heap \<Rightarrow> 'os mm_heap" where
  "zend_set_memory_limit memory_limit h = h\<lparr>hp_limit := (if memory_limit \<ge> ZEND_MM_CHUNK_SIZE then memory_limit else ZEND_MM_CHUNK_SIZE)\<rparr>"

definition zend_memory_usage :: "bool \<Rightarrow> 'os mm_heap \<Rightarrow> nat" where
  "zend_memory_usage real_usage h = (if real_usage then hp_real_size h else hp_size h)"

definition zend_memory_peak_usage :: "bool \<Rightarrow> 'os mm_heap \<Rightarrow> nat" where
  "zend_memory_peak_usage real_usage h = (if real_usage then hp_real_peak h else hp_peak h)"

end
