(* ===== verification/Zend_Mm_Heap_Correct.thy ===== *)
theory Zend_Mm_Heap_Correct
  imports Zend_Mm_Huge_Correct Zend_Mm_Life
begin

section \<open>The heap of the memory manager\<close>

text \<open>
  Allocation and release for every size, the size of a block, and a heap that has just been started:
  all keep \<open>mm_ok\<close>, and change the blocks in use by the one they are about.
\<close>

text \<open>The size of the block for a request: that of its bin, or whole pages.\<close>

definition block_size :: "nat \<Rightarrow> nat" where
  "block_size sz =
     (if sz \<le> ZEND_MM_MAX_SMALL_SIZE then bin_data_size ! zend_mm_small_size_to_bin sz
      else if sz \<le> ZEND_MM_MAX_LARGE_SIZE then ZEND_MM_SIZE_TO_NUM sz ZEND_MM_PAGE_SIZE * ZEND_MM_PAGE_SIZE
      else ZEND_MM_ALIGNED_SIZE_EX sz REAL_PAGE_SIZE)"

lemma alloc_heap_ok:
  assumes h: "mm_ok M g h" and os: "os_ok os M"
    and r: "hp_real_size h + ZEND_MM_ALIGNED_SIZE_EX sz REAL_PAGE_SIZE + ZEND_MM_CHUNK_SIZE \<le> hp_limit h"
  obtains a g' h' where "zend_mm_alloc_heap os sz h = Inr (a, h')" "mm_ok M g' h'" "in_use g' = insert (a, block_size sz) (in_use g)"
    "(a, block_size sz) \<notin> in_use g" "sz \<le> block_size sz" "hp_limit h' = hp_limit h"
proof -
  have limit_room: "limit_room ZEND_MM_CHUNK_SIZE h" "limit_room (ZEND_MM_ALIGNED_SIZE_EX sz REAL_PAGE_SIZE + ZEND_MM_CHUNK_SIZE) h"
    using r by (simp_all add: limit_room_def)
  consider "sz \<le> ZEND_MM_MAX_SMALL_SIZE" | "\<not> sz \<le> ZEND_MM_MAX_SMALL_SIZE" "sz \<le> ZEND_MM_MAX_LARGE_SIZE"
    | "\<not> sz \<le> ZEND_MM_MAX_SMALL_SIZE" "\<not> sz \<le> ZEND_MM_MAX_LARGE_SIZE" by blast
  then show thesis
  proof cases
    case 1
    note b = small_size_to_bin_ok [OF 1]
    obtain a g' h' where a: "zend_mm_alloc_small os (zend_mm_small_size_to_bin sz) h = Inr (a, h')" "mm_ok M g' h'"
      "in_use g' = insert (a, bin_data_size ! zend_mm_small_size_to_bin sz) (in_use g)"
      "(a, bin_data_size ! zend_mm_small_size_to_bin sz) \<notin> in_use g" "hp_limit h' = hp_limit h"
      by (rule alloc_small_ok [OF h os limit_room(1) conjunct1 [OF b]])
    then show thesis using 1 b by (intro that [of a h' g']) (simp_all add: zend_mm_alloc_heap_def block_size_def)
  next
    case 2
    then have "0 < sz" by simp
    obtain a s g' h' where a: "zend_mm_alloc_large os sz h = Inr (a, h')" "mm_ok M g' h'" "in_use g' = insert (a, s) (in_use g)"
      "(a, s) \<notin> in_use g" "sz \<le> s" "s = ZEND_MM_SIZE_TO_NUM sz ZEND_MM_PAGE_SIZE * ZEND_MM_PAGE_SIZE" "hp_limit h' = hp_limit h"
      by (rule alloc_large_ok [OF h os limit_room(1) \<open>0 < sz\<close> 2(2)])
    then show thesis using 2 by (intro that [of a h' g']) (simp_all add: zend_mm_alloc_heap_def block_size_def)
  next
    case 3
    then have "0 < sz" by simp
    obtain a s g' h' where a: "zend_mm_alloc_huge os sz h = Inr (a, h')" "mm_ok M g' h'" "in_use g' = insert (a, s) (in_use g)"
      "(a, s) \<notin> in_use g" "sz \<le> s" "s = ZEND_MM_ALIGNED_SIZE_EX sz REAL_PAGE_SIZE" "hp_limit h' = hp_limit h"
      by (rule alloc_huge_ok [OF h os \<open>0 < sz\<close> limit_room(2)])
    then show thesis using 3 by (intro that [of a h' g']) (simp_all add: zend_mm_alloc_heap_def block_size_def)
  qed
qed

lemma size_ok:
  assumes ok: "mm_heap_ok M g h" and x: "(a, s) \<in> in_use g"
  shows "zend_mm_size a h = Inr s"
  using assms
proof (cases rule: live_cases)
  case (large c q n)
  then show ?thesis using large_info [OF ok large(1)] by (simp add: zend_mm_size_def)
next
  case (small c q b a')
  then show ?thesis using small_info [OF ok small(1,2)] by (simp add: zend_mm_size_def)
next
  case (huge n p s')
  then obtain xs ys where "bk_huge g = xs @ (n, p, s') # ys" by (meson split_list)
  from huge_node_ok [OF ok this] huge_okD(2,6) [OF ok huge(1)] huge(2) show ?thesis
    by (simp add: zend_mm_size_def zend_mm_get_huge_block_size_def ZEND_MM_ALIGNED_OFFSET_def)
qed

text \<open>A release that would leave the main chunk without a run is excluded.\<close>

definition keeps_main :: "nat \<Rightarrow> nat \<Rightarrow> 'os mm_heap \<Rightarrow> bool" where
  "keeps_main a s h = (ZEND_MM_MAX_SMALL_SIZE < s \<longrightarrow> ZEND_MM_ALIGNED_BASE a ZEND_MM_CHUNK_SIZE = hp_main_chunk h \<longrightarrow>
     ch_free_pages (hp_chunk h (hp_main_chunk h)) + s div ZEND_MM_PAGE_SIZE < ZEND_MM_PAGES - ZEND_MM_FIRST_PAGE)"

lemma free_heap_ok:
  assumes h: "mm_ok M g h" and os: "os_ok os M" and x: "(a, s) \<in> in_use g" and main: "keeps_main a s h"
  obtains g' h' where "zend_mm_free_heap os a h = Inr h'" "mm_ok M g' h'" "in_use g' = in_use g - {(a, s)}"
proof -
  have ok: "mm_heap_ok M g h" using h by (simp add: mm_ok_def)
  from ok x show thesis
  proof (cases rule: live_cases)
    case (large c q n)
    note i = large_info [OF ok large(1)] and n = run_in_chunk(5) [OF ok large_run [OF large(1)]]
    have "ZEND_MM_MAX_SMALL_SIZE < s"
      using large(2) n by (cases n) (simp_all add: ZEND_MM_MAX_SMALL_SIZE_def ZEND_MM_PAGE_SIZE_def)
    then have "c = hp_main_chunk h \<longrightarrow> ch_free_pages (hp_chunk h c) + n < ZEND_MM_PAGES - ZEND_MM_FIRST_PAGE"
      using main i(1) large(2) by (auto simp: keeps_main_def ZEND_MM_PAGE_SIZE_def)
    from free_large_ok [OF h os large(1) this] obtain g' h' where "zend_mm_free_large os c q n h = h'" "mm_ok M g' h'"
      "in_use g' = in_use g - {(ZEND_MM_PAGE_ADDR c q, n * ZEND_MM_PAGE_SIZE)}" by metis
    then show thesis using i large(2) by (intro that [of h' g']) (simp_all add: zend_mm_free_heap_def free_in_chunk_def ZEND_MM_ALIGNED_OFFSET_def)
  next
    case (small c q b a')
    have b: "block_of g b a" using small by (auto simp: block_of_def)
    note f = free_small_ok [OF h b] and c = free_block [OF ok b]
    show thesis using f c small by (intro that) (simp_all add: zend_mm_free_heap_def)
  next
    case (huge n p s')
    from free_huge_ok [OF h os huge(1)] obtain g' h' where "zend_mm_free_huge os p h = Inr h'" "mm_ok M g' h'" "in_use g' = in_use g - {(p, s')}" by metis
    then show thesis using huge(2) huge_okD(5,6) [OF ok huge(1)]
      by (intro that [of h' g']) (simp_all add: zend_mm_free_heap_def ZEND_MM_ALIGNED_OFFSET_def)
  qed
qed

subsection \<open>A new heap\<close>

definition no_blocks :: "nat \<Rightarrow> mm_blocks" where
  "no_blocks c = \<lparr>bk_chunks = [c], bk_cached = [], bk_large = {}, bk_small = {}, bk_free = (\<lambda>_. []), bk_huge = []\<rparr>"

lemma init_ok:
  assumes os: "os_ok os M"
  obtains c h where "zend_mm_init os s = Some h" "mm_ok M (no_blocks c) h" "in_use (no_blocks c) = {}" "hp_limit h = 2 ^ 63 - 1"
    "hp_real_size h = ZEND_MM_CHUNK_SIZE"
proof -
  obtain c s' where c: "zend_mm_chunk_alloc_int os ZEND_MM_CHUNK_SIZE ZEND_MM_CHUNK_SIZE s = (c, s')" by fastforce
  have "0 < ZEND_MM_CHUNK_SIZE" by (simp add: ZEND_MM_CHUNK_SIZE_def)
  note f = chunk_alloc_int_ok [OF os this c]
  obtain h where h: "zend_mm_init os s = Some h" using c f(1) by (auto simp: zend_mm_init_def)
  then have e: "hp_chunk h c = init_chunk c" "hp_main_chunk h = c" "hp_cached_chunks h = 0" "hp_os h = s'"
    "hp_free_slot h = replicate ZEND_MM_BINS 0" "hp_huge_list h = 0" "hp_size h = 0" "hp_real_size h = ZEND_MM_CHUNK_SIZE"
    "hp_limit h = 2 ^ 63 - 1"
    using c f(1) by (auto simp: zend_mm_init_def)
  have r: "runs (no_blocks c) = (\<lambda>_. {})" by (simp add: runs_def no_blocks_def fun_eq_iff)
  have "cached_ok (zero_chunk\<lparr>ch_next := c, ch_prev := c, ch_num := 0\<rparr>)" using zero_chunk_ok by (simp add: cached_ok_def)
  then have "chunk_ok (hp_chunk h c) {}" unfolding e(1) init_chunk_def by (rule init_pages_ok)
  moreover have "is_chunk (M (hp_os h)) c" using f e(4) by (auto simp: is_chunk_def area_def)
  moreover have "ring (hp_chunk h) [c]" by (simp add: ring_def e(1) init_chunk_def init_pages_def)
  ultimately have "pages_ok M [c] [] (\<lambda>_. {}) h" using e by (simp add: pages_ok_def)
  then have "mm_heap_ok M (no_blocks c) h"
    using e unfolding mm_heap_ok_def blocks_ok_def r
    by (simp add: map_ok_def free_ok_def huge_ok_def no_blocks_def)
  moreover have l: "in_use (no_blocks c) = {}"
    by (simp add: in_use_def large_blocks_def small_blocks_def block_of_def no_blocks_def)
  ultimately have "mm_ok M (no_blocks c) h"
    unfolding mm_ok_def usage_ok_def real_ok_def l using e by (simp add: no_blocks_def pool_def)
  with h l e show thesis using that by blast
qed

end
