(* ===== verification/Zend_Mm_Properties.thy ===== *)
theory Zend_Mm_Properties
  imports Zend_Mm_Search_Correct Zend_Mm_Bins_Correct Zend_Mm_Heap_Correct
begin

section \<open>The properties of the memory manager\<close>

text \<open>
  The search for free pages, the choice of a bin, and the allocation and release of blocks of any size.
\<close>

subsection \<open>The search for pages\<close>

text \<open>
  C37. The search of \<open>zend_mm_alloc_pages\<close> in a chunk is best fit.  It finds the first of the shortest
  runs of free pages that are long enough, and nothing exactly if every run of free pages is too
  short.  The pages found are not page 0 and end before the new \<open>free_tail\<close>, behind which all is
  free but for a run that goes on from before it.
\<close>

theorem search_pages_best_fit:
  assumes "64 * length bs = ZEND_MM_PAGES" "page bs 0" "0 < n" "tail_ok bs t"
  shows "tail_ok bs (snd (search_pages n t bs)) \<and>
    (case fst (search_pages n t bs) of
       None \<Rightarrow> \<forall>p l. hole bs p l \<longrightarrow> l < n
     | Some s \<Rightarrow> 0 < s \<and> s + n \<le> snd (search_pages n t bs) \<and> (\<exists>l. best_hole bs n s l))"
  using search_pages_ok [OF assms] new_tail_ok [OF assms(4)] unfolding search_result_def by blast

lemma demo_map_pages:
  "page (0x1003 # replicate 7 0) k \<longleftrightarrow> k \<in> {0, 1, 12}" if "k < 512"
proof -
  have "k div 64 < 8" using that by simp
  then consider "k div 64 = 0" | m where "k div 64 = Suc m" "m < 7" by (cases "k div 64") auto
  then show ?thesis
  proof cases
    case 1
    then have k: "k < 64" "k mod 64 = k" by auto
    have e: "(0x1003 :: u64) = set_bit 12 (set_bit 1 (set_bit 0 0))" by (simp add: set_bit_eq)
    show ?thesis using 1 k unfolding page_def by (simp only: e bit_set_bit_iff nth_Cons_0) (auto simp: possible_bit_def)
  qed (auto simp: page_def)
qed

theorem search_pages_best_fit_witness:
  "search_pages 3 13 (0x1003 # replicate 7 0) = (Some 2, 13) \<and> (\<exists>l. best_hole (0x1003 # replicate 7 0) 3 2 l)"
proof -
  let ?bs = "0x1003 # replicate 7 (0 :: u64)"
  have r: "search_pages 3 13 ?bs = (Some 2, 13)"
    by code_simp
  have t: "tail_ok ?bs 13" unfolding tail_ok_def by (auto simp: ZEND_MM_PAGES_def demo_map_pages)
  have p: "page ?bs 0" by (simp add: demo_map_pages)
  have l: "64 * length ?bs = ZEND_MM_PAGES" by (simp add: ZEND_MM_PAGES_def)
  show ?thesis using search_pages_best_fit [OF l p _ t, of 3] unfolding r by simp
qed

subsection \<open>Bins\<close>

text \<open>
  C38. \<open>zend_mm_small_size_to_bin\<close>, which counts leading zeros, gives for every small size, 0 included,
  the first of the 30 bins whose blocks are large enough: bin 0 for sizes up to 8, bin 1 for 9 to 16.
  The comment on the run information in \<open>zend_alloc.c\<close> gives other numbers (0 for sizes 0 to 2, 1 for
  3 and 4, 2 for 5 to 8, 3 for 9 to 16), which the code does not follow.
\<close>

theorem zend_mm_small_size_to_bin_least:
  assumes "sz \<le> ZEND_MM_MAX_SMALL_SIZE"
  shows "zend_mm_small_size_to_bin sz < ZEND_MM_BINS \<and> sz \<le> bin_data_size ! zend_mm_small_size_to_bin sz \<and>
    (\<forall>i < zend_mm_small_size_to_bin sz. bin_data_size ! i < sz)"
  using small_size_to_bin_ok [OF assms] by (simp add: ZEND_MM_BINS_def)

theorem zend_mm_small_size_to_bin_least_witness:
  "zend_mm_small_size_to_bin 2049 = 28 \<and> 2049 \<le> bin_data_size ! 28 \<and> bin_data_size ! 27 < 2049"
proof -
  have b: "zend_mm_small_size_to_bin 2049 = 28" by (simp add: zend_mm_small_size_to_bin_def zend_mm_small_size_to_bit_def)
  have "2049 \<le> ZEND_MM_MAX_SMALL_SIZE" by (simp add: ZEND_MM_MAX_SMALL_SIZE_def)
  note h = zend_mm_small_size_to_bin_least [OF this, unfolded b]
  show ?thesis using b h [THEN conjunct2, THEN conjunct1] h [THEN conjunct2, THEN conjunct2, rule_format, of 27] by simp
qed

subsection \<open>The heap\<close>

text \<open>
  C39. With an operating system that never refuses memory (\<open>os_ok\<close>), and as long as the memory mapped, the
  request and one more chunk stay below the memory limit, \<open>zend_mm_alloc_heap\<close> returns for every size,
  in bins, in runs of pages or as a huge block.  The block is as large as \<open>block_size\<close> says, which is
  at least the request, and \<open>zend_mm_size\<close> reports that size; it is not null, aligned to 8 bytes, all
  of it is mapped, and it overlaps no block that is in use.  The invariant \<open>mm_ok\<close> of the heap stays:
  the ring and the cache of chunks, page maps and free counts, the free lists, the list of huge
  blocks, and both counters of usage, that of the blocks in use and that of the memory mapped.  (The
  limit is a \<open>size_t\<close>, so that no size below it overflows.)
\<close>

theorem zend_mm_alloc_heap_correct:
  assumes "os_ok os M" "mm_ok M g h"
    "hp_real_size h + ZEND_MM_ALIGNED_SIZE_EX sz REAL_PAGE_SIZE + ZEND_MM_CHUNK_SIZE \<le> hp_limit h"
  shows "\<exists>a g' h'. zend_mm_alloc_heap os sz h = Inr (a, h') \<and> mm_ok M g' h' \<and>
    in_use g' = insert (a, block_size sz) (in_use g) \<and> sz \<le> block_size sz \<and> zend_mm_size a h' = Inr (block_size sz) \<and>
    a \<noteq> 0 \<and> a mod 8 = 0 \<and> {a..<a + block_size sz} \<subseteq> M (hp_os h') \<and>
    (\<forall>(b, t) \<in> in_use g. {a..<a + block_size sz} \<inter> {b..<b + t} = {})"
proof -
  let ?x = "\<lambda>a. (a, block_size sz)"
  obtain a g' h' where a: "zend_mm_alloc_heap os sz h = Inr (a, h')" "mm_ok M g' h'" "in_use g' = insert (?x a) (in_use g)"
    "?x a \<notin> in_use g" "sz \<le> block_size sz" by (rule alloc_heap_ok [OF assms(2,1,3)])
  have ok: "mm_heap_ok M g' h'" and l: "?x a \<in> in_use g'" using a(2,3) by (simp_all add: mm_ok_def)
  have "\<forall>(b, t) \<in> in_use g. {a..<a + block_size sz} \<inter> {b..<b + t} = {}"
  proof clarify
    fix b t assume b: "(b, t) \<in> in_use g"
    then have "(b, t) \<in> in_use g'" "?x a \<noteq> (b, t)" using a(3,4) by auto
    from live_disjoint [OF ok l this] show "{a..<a + block_size sz} \<inter> {b..<b + t} = {}" by (simp add: bytes_of_def)
  qed
  then show ?thesis using a size_ok [OF ok l] live_mapped [OF ok l] by (auto simp: bytes_of_def)
qed

text \<open>A system that hands out one address after another; the state is the next one and what is mapped.\<close>

definition demo_os :: "(nat \<times> nat set) mm_os" where
  "demo_os = \<lparr>os_mmap = (\<lambda>n (k, S). let p = (k div REAL_PAGE_SIZE + 1) * REAL_PAGE_SIZE
       in (p, p + n, S \<inter> {..<k} \<union> {p..<p + n})),
     os_mmap_fixed = (\<lambda>a n s. (False, s)), os_munmap = (\<lambda>p n (k, S). (k, S - {p..<p + n}))\<rparr>"

definition demo_mapped :: "nat \<times> nat set \<Rightarrow> nat set" where
  "demo_mapped = (\<lambda>(k, S). S \<inter> {..<k})"

lemma demo_os_ok: "os_ok demo_os demo_mapped"
proof -
  have p: "k < (k div REAL_PAGE_SIZE + 1) * REAL_PAGE_SIZE" for k
    using dividend_less_div_times [of REAL_PAGE_SIZE k] by (simp add: REAL_PAGE_SIZE_def ZEND_MM_PAGE_SIZE_def)
  have "p \<noteq> 0 \<and> p mod REAL_PAGE_SIZE = 0 \<and> demo_mapped s \<inter> {p..<p + n} = {} \<and> demo_mapped s' = demo_mapped s \<union> {p..<p + n}"
    if "os_mmap demo_os n s = (p, s')" for n s p s'
  proof -
    obtain k S where s: "s = (k, S)" by fastforce
    have e: "p = (k div REAL_PAGE_SIZE + 1) * REAL_PAGE_SIZE" "s' = (p + n, S \<inter> {..<k} \<union> {p..<p + n})"
      using that s by (auto simp: demo_os_def Let_def simp del: mult_Suc)
    have "k < p" "p mod REAL_PAGE_SIZE = 0" unfolding e(1) by (rule p) simp
    then show ?thesis unfolding e(2) s demo_mapped_def by auto
  qed
  moreover have "demo_mapped (os_munmap demo_os p n s) = demo_mapped s - {p..<p + n}" for p n s
    by (cases s) (auto simp: demo_os_def demo_mapped_def)
  ultimately show ?thesis unfolding os_ok_def by blast
qed

lemma demo_room: "ZEND_MM_CHUNK_SIZE + ZEND_MM_ALIGNED_SIZE_EX 100 REAL_PAGE_SIZE + ZEND_MM_CHUNK_SIZE \<le> 2 ^ 63 - 1"
  "block_size 100 = 112"
  by (simp_all add: ZEND_MM_CHUNK_SIZE_def ZEND_MM_ALIGNED_SIZE_EX_def REAL_PAGE_SIZE_def ZEND_MM_PAGE_SIZE_def block_size_def
      ZEND_MM_MAX_SMALL_SIZE_def zend_mm_small_size_to_bin_def zend_mm_small_size_to_bit_def bin_data_size_def)

theorem zend_mm_alloc_heap_correct_witness:
  "\<exists>h a h'. zend_mm_init demo_os (0, {}) = Some h \<and> zend_mm_alloc_heap demo_os 100 h = Inr (a, h') \<and>
    zend_mm_size a h' = Inr 112 \<and> a \<noteq> 0 \<and> a mod 8 = 0"
proof -
  obtain c h where h: "zend_mm_init demo_os (0, {}) = Some h" "mm_ok demo_mapped (no_blocks c) h" "hp_limit h = 2 ^ 63 - 1"
    "hp_real_size h = ZEND_MM_CHUNK_SIZE" by (rule init_ok [OF demo_os_ok])
  have "hp_real_size h + ZEND_MM_ALIGNED_SIZE_EX 100 REAL_PAGE_SIZE + ZEND_MM_CHUNK_SIZE \<le> hp_limit h"
    unfolding h(3,4) by (rule demo_room(1))
  from zend_mm_alloc_heap_correct [OF demo_os_ok h(2) this, unfolded demo_room(2)]
  obtain a h' where "zend_mm_alloc_heap demo_os 100 h = Inr (a, h')" "zend_mm_size a h' = Inr 112" "a \<noteq> 0" "a mod 8 = 0" by auto
  with h(1) show ?thesis by (intro exI [of _ h] exI [of _ a] exI [of _ h'] conjI)
qed



end
