(* ===== verification/Spec2Isabelle.thy ===== *)
theory Spec2Isabelle
  imports Zend_Hash_Table_Properties Zend_Hash_Order_Properties Zend_Operators_Properties
    Zend_Container_Properties Spl_Heap_Properties Zend_Gc_Properties Zend_Mm_Properties
begin

text \<open>
  A verification library for the core of the PHP 7.3.0 interpreter, whose C sources are under
  \<open>src/php-7.3.0\<close>.  All paths below are relative to that directory.

  \<^bold>\<open>The program.\<close>  The Zend engine (\<open>Zend/\<close>) compiles PHP to opcodes and runs them.  Almost everything
  it keeps is in one data structure, the ordered hash table of \<open>zend_hash.c\<close>: PHP arrays, the
  properties of objects, the tables of functions, classes, constants and ini directives, and the
  symbol tables of variables.  Keys are \<open>zend_string\<close>s or integers; \<open>zend_symtable\<close> functions
  decide which, sorting goes through \<open>zend_sort.c\<close>, and comparisons of strings and the search in
  them are in \<open>zend_operators.c\<close>.  The engine's own bookkeeping uses two stacks and a linked list.
  Values are reference counted; the collector of \<open>zend_gc.c\<close> finds the cycles that counting leaves
  behind, among arrays and objects.  All memory comes from the manager of \<open>zend_alloc.c\<close>.  The SPL extension offers heaps and priority queues to PHP
  programs.  This library models these parts; everything else of the repository is listed in the
  manifest as not modelled, with the reason.

  \<^bold>\<open>Conventions.\<close>  \<open>PHP_Prelude\<close> has the machine integers (\<open>u8\<close>, \<open>u32\<close>, \<open>u64\<close> are words, their
  arithmetic wraps as in C), the error values, the bind of the error type \<open>res\<close>, and shared lemmas
  with the collections \<open>bounds\<close> and others.  C structs are records with the C field names, C
  functions are definitions with the C names.  An operation takes the state and returns it updated.
  Undefined behaviour (an index out of range, a null pointer) and a fatal error are \<open>Inl\<close> values or
  \<open>None\<close>, so a theorem that an operation returns excludes them.  Loops that follow links are
  \<open>partial_function\<close>s into \<open>option\<close>; the others have a termination proof.  No model uses fuel.
  Callbacks (destructors, copy constructors, comparison functions) are arguments.  What happens
  outside a structure - destructor calls, releases of keys - is appended to a log in \<open>env\<close>, so
  theorems can say that it happens exactly once and in which order.

  \<^bold>\<open>Strings\<close> (\<open>Zend/zend_string.h\<close>, \<open>.c\<close>): \<open>Zend_String\<close> has the string with its cached hash, the
  DJBX33A hash over 64-bit words, and equality.

  \<^bold>\<open>The hash table\<close> (\<open>Zend/zend_hash.c\<close>, \<open>.h\<close>, \<open>Zend/zend_types.h\<close>).  \<open>Zend_Hash\<close>: the record with
  flags, mask, chain heads, buckets and counters, the packed, hash and uninitialised layouts, creation,
  growth and conversion.  \<open>Zend_Hash_Iterators\<close>: the registry of external iterators.  \<open>_Rehash\<close>,
  \<open>_Find\<close>, \<open>_Update\<close>, \<open>_Del\<close>: rebuilding, lookup, the insertion routines and their wrappers, deletion.
  \<open>_Bulk\<close>, \<open>_Copy\<close>: destruction, cleaning, application, copying and merging.  \<open>_Position\<close>, \<open>_Sort\<close>:
  positions and external walks, sorting, comparing, minimum and maximum.  The proofs:
  \<open>_Inv\<close> defines the invariant \<open>ht_inv\<close> and \<open>entries\<close>, the association list in insertion order a
  table stands for; \<open>_Init_Correct\<close>, \<open>_Rehash_Correct\<close>, \<open>_Update_Correct\<close>, \<open>_Index_Correct\<close>,
  \<open>_Del_Correct\<close>, \<open>_Bulk_Correct\<close>, \<open>_Sort_Correct\<close>, \<open>_Compare_Correct\<close> show that each operation keeps
  the invariant and does to \<open>entries\<close> what the operation on association lists does.
  \<open>Store_Interfaces\<close> has the locales \<open>simulation\<close> and \<open>keyed_store\<close>, for a client that runs a list of
  operations against a table; \<open>_Store\<close> interprets them on the copying and merging loops and \<open>_Run\<close> on
  arbitrary sequences of operations.  Properties: \<open>Zend_Hash_Properties\<close> (C1-C8: update, lookup,
  next free key, rehash, table size), \<open>Zend_Hash_Table_Properties\<close> (C9-C15: sequences of operations,
  deletion, iterators, copy, merge, destruction), \<open>Zend_Hash_Order_Properties\<close> (C16-C21: walks,
  sorting, comparison).  The theorems on growth bound the table at \<open>2 ^ 26\<close> live elements: one more
  doubling stays below \<open>HT_MAX_SIZE\<close>, from which on the mask of the table is 0 (see the findings).

  \<^bold>\<open>Sorting\<close> (\<open>Zend/zend_sort.c\<close>): \<open>Zend_Sort\<close> models the hybrid of insertion sort, with its networks
  for up to five elements, and quicksort, over an array with a comparison and a swap function.  The
  locale \<open>sorter\<close> of \<open>Zend_Sort_Correct\<close> is its contract, \<open>bounded_sorter\<close> of \<open>Zend_Sort_Bounded\<close>
  the contract of comparisons that are orders only on elements in range; \<open>Zend_Sort_Clients\<close>
  interprets both on the comparisons of \<open>Zend/zend_ini.c\<close> and \<open>Zend/zend_vm_trace_handlers.h\<close>.

  \<^bold>\<open>String operators and keys\<close> (\<open>Zend/zend_operators.c\<close>, \<open>.h\<close>): \<open>Zend_Compare\<close> has the binary-safe
  comparisons and lower-casing, \<open>Zend_Memstr\<close> the forward and backward search with both algorithms,
  \<open>Zend_Numeric_Key\<close> the test for decimal keys and the printing of integers, \<open>Zend_Symtable\<close> the
  functions that choose between them.  \<open>Zend_Operators_Properties\<close> (C22-C28).

  \<^bold>\<open>Stacks and lists\<close> (\<open>Zend/zend_stack.c\<close>, \<open>zend_ptr_stack.c\<close>, \<open>zend_llist.c\<close>): \<open>Zend_Stack\<close> with
  the locale \<open>lifo\<close> of \<open>Stack_Interface\<close> interpreted on both stacks, whose counters are \<open>int\<close>
  (\<open>C_Int\<close>: a sum or product outside its range is \<open>UB\<close>, so the theorems bound the elements just
  below 2^31); \<open>Zend_Llist\<close> over an explicit heap
  of nodes linked in both directions, \<open>Zend_Llist_Correct\<close> with the predicate \<open>ll_wf\<close> for it.
  \<open>Zend_Container_Properties\<close> (C29-C32).

  \<^bold>\<open>Heaps\<close> (\<open>ext/spl/spl_heap.c\<close>): \<open>Spl_Heap\<close> has the array heap, the comparisons that may call user
  code which throws, and the methods.  \<open>Priority_Queue_Interface\<close> is the contract of a priority queue;
  \<open>heap_order\<close> of \<open>Spl_Heap_Correct\<close> extends it and is interpreted on the comparisons of the maximum
  and the minimum heap.  The size of the array is an \<open>int\<close> that doubles, so a heap holds at most
  2^30 elements and one more is \<open>UB\<close>.  \<open>Spl_Heap_Properties\<close> (C33, C34).

  \<^bold>\<open>The cycle collector\<close> (\<open>Zend/zend_gc.c\<close>): \<open>Zend_Gc\<close> has the heap of reference counted values with
  colors and counts, marking and scanning; \<open>Zend_Gc_Buffer\<close> the root buffer with compressed addresses,
  growth, thresholds and two-finger compaction; \<open>Zend_Gc_Collect\<close> the walk over the roots, collecting
  and \<open>zend_gc_collect_cycles\<close> with destructors.  The recursion of the C code over the children of a
  value is a worklist here, which makes the same changes in the same order.  \<open>Zend_Gc_Correct\<close> relates
  colors and counts to reachability, \<open>_Buffer_Correct\<close> shows that compaction only moves entries,
  \<open>_Collect_Correct\<close>, \<open>_Garbage_Correct\<close> and \<open>_Roots_Correct\<close> put marking, scanning and collecting
  together over the buffer.  \<open>Zend_Gc_Properties\<close> (C35, C36): what is collected is exactly what no
  reference from outside leads to, and every count is given back.

  \<^bold>\<open>The memory manager\<close> (\<open>Zend/zend_alloc.c\<close>, \<open>zend_alloc_sizes.h\<close>): \<open>Zend_Mm_Bitset\<close> has the bitset of
  the pages of a chunk, \<open>Zend_Mm_Search\<close> the search for free pages, \<open>Zend_Mm\<close> the heap, the ring of
  chunks over the functions of the operating system, and freeing pages, \<open>Zend_Mm_Alloc\<close> the collection of
  free small runs and large runs, \<open>Zend_Mm_Heap\<close> small and huge blocks, reallocation and the functions
  for every size, \<open>Zend_Mm_Life\<close> start, shutdown and limits.  \<open>Zend_Mm_Search_Correct\<close> shows that the
  search is best fit, \<open>Zend_Mm_Bins_Correct\<close> that bins are large enough.  The invariant \<open>mm_ok\<close> of a whole
  heap is built up in \<open>Zend_Mm_Chunk_Correct\<close> (the bitset and \<open>free_pages\<close> of one chunk against its runs),
  \<open>_Ring_Correct\<close> (the ring and the cache of chunks), \<open>_Pages_Correct\<close> and \<open>_Pages_Free\<close> (pages taken from
  and given back to the chunks), \<open>_Info\<close> and \<open>_Blocks\<close> (the page map, the blocks in use, and that they do
  not overlap); \<open>_Alloc_Correct\<close>, \<open>_Small_Correct\<close>, \<open>_Huge_Correct\<close> and \<open>_Heap_Correct\<close> show that every
  size of block keeps it.  \<open>mmap\<close> and \<open>munmap\<close> are arguments, with the contract \<open>os_ok\<close> of
  \<open>Zend_Mm_Os\<close>.  Reallocation, \<open>zend_mm_gc\<close> and shutdown are modelled without theorems.
  \<open>Zend_Mm_Properties\<close> (C37-C40).

  \<^bold>\<open>Not modelled.\<close>  The other parts take it that allocation gives fresh memory and does not fail.
  Persistent against request memory, debug-only marks and assertions, threads, the output of statistics, and
  callbacks that change the structure they are called for.  Interned strings are a flag of the string.
  The compiler and the virtual machine, the object model, floating point conversion, streams, server
  interfaces and all extensions but the heaps of SPL are outside the library; the bundled libraries
  (PCRE2, Oniguruma, SQLite and others) are third-party code.  The PHP pages at the root of the
  repository are not C and hold queries and output only.
\<close>

end
